(* ===== verification/Prelude.thy ===== *)
theory Prelude
  imports Main "HOL-Library.Word" "HOL-Library.Multiset" "HOL-Library.Signed_Division"
begin

unbundle bit_operations_syntax

text \<open>
  Shared base of the development: bytes and memory blocks, the result type in which every
  failing branch of the C++ code is a value, checked memory access, little-endian integers,
  and the generic lemmas on lists, results and words that the component theories use.

  A block of memory (an array made by \<^verbatim>\<open>new char[n]\<close>, a page image, a file) is a
  list of bytes. A C \<open>int\<close> is modelled by \<open>int\<close>; where its width matters the wrap-around
  is written out with \<open>to_s32\<close>.
\<close>

section \<open>Types\<close>

type_synonym byte = "8 word"
type_synonym bytes = "byte list"

text \<open>
  The ways a run of the program can end abnormally: a failed \<^verbatim>\<open>assert\<close>, a call of
  \<^verbatim>\<open>exit(1)\<close>, an access outside the block a pointer points into, a dereference of
  \<^verbatim>\<open>NULL\<close>, a signed overflow, a use of a pointer that was never set, a division by zero, and a use of an object that was deleted. The last six are
  undefined behaviour in C++.
\<close>

datatype err = Assert_failed | Exit_1 | Out_of_bounds | Null_deref | Int_overflow | Uninitialised | Div_by_zero | Dangling

type_synonym 'a res = "err + 'a"

named_theorems res_simps \<open>rewriting of runs that may fail\<close>
named_theorems mem_simps \<open>rewriting of loads, stores and block updates\<close>
named_theorems wf_intros \<open>introduction rules for the well-formedness invariants\<close>

section \<open>Results\<close>

definition bindR :: "'a res \<Rightarrow> ('a \<Rightarrow> 'b res) \<Rightarrow> 'b res" where
  "bindR r f = (case r of Inl e \<Rightarrow> Inl e | Inr x \<Rightarrow> f x)"

definition assertR :: "bool \<Rightarrow> unit res" where
  "assertR b = (if b then Inr () else Inl Assert_failed)"

lemma bindR_Inl [simp]: "bindR (Inl e) f = Inl e"
  by (simp add: bindR_def)

lemma bindR_Inr [simp]: "bindR (Inr x) f = f x"
  by (simp add: bindR_def)

lemma bindR_eq_Inr [res_simps]: "bindR r f = Inr y \<longleftrightarrow> (\<exists>x. r = Inr x \<and> f x = Inr y)"
  by (cases r) auto

lemma bindR_eq_Inl [res_simps]:
  "bindR r f = Inl e \<longleftrightarrow> r = Inl e \<or> (\<exists>x. r = Inr x \<and> f x = Inl e)"
  by (cases r) auto

lemma bindR_assoc: "bindR (bindR r f) g = bindR r (\<lambda>x. bindR (f x) g)"
  by (cases r) auto

lemma bindR_cong [fundef_cong]:
  "r = r' \<Longrightarrow> (\<And>x. r' = Inr x \<Longrightarrow> f x = f' x) \<Longrightarrow> bindR r f = bindR r' f'"
  by (cases r') auto

lemma assertR_True [simp]: "assertR True = Inr ()"
  by (simp add: assertR_def)

lemma assertR_False [simp]: "assertR False = Inl Assert_failed"
  by (simp add: assertR_def)

lemma assertR_eq_Inr [res_simps]: "assertR b = Inr u \<longleftrightarrow> b"
  by (simp add: assertR_def)

text \<open>A computation with a loop that may not end: \<open>None\<close> when it does not.\<close>

definition bindO :: "'a res option \<Rightarrow> ('a \<Rightarrow> 'b res option) \<Rightarrow> 'b res option" where
  "bindO r f = (case r of None \<Rightarrow> None | Some (Inl e) \<Rightarrow> Some (Inl e) | Some (Inr x) \<Rightarrow> f x)"

lemma bindO_simps [simp]:
  "bindO None f = None" "bindO (Some (Inl e)) f = Some (Inl e)" "bindO (Some (Inr x)) f = f x"
  by (simp_all add: bindO_def)

section \<open>Memory blocks\<close>

definition nth_res :: "'a list \<Rightarrow> int \<Rightarrow> 'a res" where
  "nth_res xs i = (if 0 \<le> i \<and> i < int (length xs) then Inr (xs ! nat i) else Inl Out_of_bounds)"

definition upd_res :: "'a list \<Rightarrow> int \<Rightarrow> 'a \<Rightarrow> 'a list res" where
  "upd_res xs i v = (if 0 \<le> i \<and> i < int (length xs) then Inr (xs[nat i := v]) else Inl Out_of_bounds)"

definition load_bytes :: "bytes \<Rightarrow> int \<Rightarrow> nat \<Rightarrow> bytes res" where
  "load_bytes m i n =
     (if 0 \<le> i \<and> i + int n \<le> int (length m) then Inr (take n (drop (nat i) m))
      else Inl Out_of_bounds)"

definition blit :: "'a list \<Rightarrow> nat \<Rightarrow> 'a list \<Rightarrow> 'a list" where
  "blit m i bs = take i m @ bs @ drop (i + length bs) m"

definition store_bytes :: "bytes \<Rightarrow> int \<Rightarrow> bytes \<Rightarrow> bytes res" where
  "store_bytes m i bs =
     (if 0 \<le> i \<and> i + int (length bs) \<le> int (length m) then Inr (blit m (nat i) bs)
      else Inl Out_of_bounds)"

lemma nth_res_Inr [mem_simps]: "i < length xs \<Longrightarrow> nth_res xs (int i) = Inr (xs ! i)"
  by (simp add: nth_res_def)

lemma nth_res_in [mem_simps]:
  "0 \<le> i \<Longrightarrow> i < int (length xs) \<Longrightarrow> nth_res xs i = Inr (xs ! nat i)"
  by (simp add: nth_res_def)

lemma upd_res_in [mem_simps]:
  "0 \<le> i \<Longrightarrow> i < int (length xs) \<Longrightarrow> upd_res xs i v = Inr (xs[nat i := v])"
  by (simp add: upd_res_def)

lemma load_bytes_in [mem_simps]:
  "0 \<le> i \<Longrightarrow> i + int n \<le> int (length m) \<Longrightarrow> load_bytes m i n = Inr (take n (drop (nat i) m))"
  by (simp add: load_bytes_def)

lemma store_bytes_in [mem_simps]:
  "0 \<le> i \<Longrightarrow> i + int (length bs) \<le> int (length m) \<Longrightarrow> store_bytes m i bs = Inr (blit m (nat i) bs)"
  by (simp add: store_bytes_def)

lemma length_blit [simp]: "i + length bs \<le> length m \<Longrightarrow> length (blit m i bs) = length m"
  by (simp add: blit_def)

lemma blit_Nil [simp]: "blit m i [] = m"
  by (simp add: blit_def)

lemma nth_blit:
  "i + length bs \<le> length m \<Longrightarrow> j < length m \<Longrightarrow>
   blit m i bs ! j = (if i \<le> j \<and> j < i + length bs then bs ! (j - i) else m ! j)"
  by (auto simp: blit_def nth_append min_def)

lemma blit_same [mem_simps]:
  "i + length bs \<le> length m \<Longrightarrow> take (length bs) (drop i (blit m i bs)) = bs"
  by (simp add: blit_def)

lemma blit_disjoint [mem_simps]:
  assumes "i + length bs \<le> length m" and "j + n \<le> i \<or> i + length bs \<le> j"
  shows "take n (drop j (blit m i bs)) = take n (drop j m)"
  using assms
proof (intro nth_equalityI)
  show "length (take n (drop j (blit m i bs))) = length (take n (drop j m))"
    using assms by simp
next
  fix k assume "k < length (take n (drop j (blit m i bs)))"
  then show "take n (drop j (blit m i bs)) ! k = take n (drop j m) ! k"
    using assms by (auto simp: nth_blit)
qed

lemma blit_append:
  "i + length bs + length cs \<le> length m \<Longrightarrow>
   blit (blit m i bs) (i + length bs) cs = blit m i (bs @ cs)"
  by (intro nth_equalityI) (auto simp: nth_blit nth_append)

lemma blit_append_left:
  "i + length bs \<le> length m \<Longrightarrow> blit (m @ m') i bs = blit m i bs @ m'"
  by (simp add: blit_def)

lemma take_blit_le [mem_simps]: "n \<le> i \<Longrightarrow> i + length bs \<le> length m \<Longrightarrow> take n (blit m i bs) = take n m"
  by (simp add: blit_def)

lemma blit_list_update_commute:
  "i + length bs \<le> length m \<Longrightarrow> k < i \<or> i + length bs \<le> k \<Longrightarrow> k < length m \<Longrightarrow>
   (blit m i bs)[k := v] = blit (m[k := v]) i bs"
  by (intro nth_equalityI) (auto simp: nth_blit nth_list_update)

text \<open>Slots of equal size do not overlap.\<close>

lemma slots_disjoint: "t \<noteq> s \<Longrightarrow> t * k + k \<le> s * k \<or> s * k + k \<le> t * k" for s t k :: nat
  using mult_right_mono [of "Suc t" s k] mult_right_mono [of "Suc s" t k] by (cases "t < s") auto

section \<open>Little-endian integers in memory\<close>

text \<open>
  The code stores \<^verbatim>\<open>int\<close> and \<^verbatim>\<open>uint32_t\<close> values in byte buffers on a little-endian
  machine. \<open>le_bytes n i\<close> is the \<open>n\<close>-byte image of \<open>i\<close>, \<open>le_val\<close> reads an image as an unsigned
  number and \<open>to_s32\<close> reduces a number to a 32-bit two's complement \<^verbatim>\<open>int\<close>.
\<close>

fun le_bytes :: "nat \<Rightarrow> int \<Rightarrow> bytes" where
  "le_bytes 0 i = []"
| "le_bytes (Suc n) i = word_of_int i # le_bytes n (i div 256)"

fun le_val :: "bytes \<Rightarrow> int" where
  "le_val [] = 0"
| "le_val (b # bs) = uint b + 256 * le_val bs"

definition to_s32 :: "int \<Rightarrow> int" where
  "to_s32 i = signed_take_bit 31 i"

abbreviation int32_range :: "int \<Rightarrow> bool" where
  "int32_range i \<equiv> - (2 ^ 31) \<le> i \<and> i < 2 ^ 31"

text \<open>The sum of two \<^verbatim>\<open>int\<close> where an overflow is undefined behaviour.\<close>

definition add_int :: "int \<Rightarrow> int \<Rightarrow> int res" where
  "add_int a b = (if int32_range (a + b) then Inr (a + b) else Inl Int_overflow)"

lemma add_int_ok [simp]: "int32_range (a + b) \<Longrightarrow> add_int a b = Inr (a + b)"
  by (simp add: add_int_def)

definition load_int :: "bytes \<Rightarrow> int \<Rightarrow> int res" where
  "load_int m i = bindR (load_bytes m i 4) (\<lambda>bs. Inr (to_s32 (le_val bs)))"

definition store_int :: "bytes \<Rightarrow> int \<Rightarrow> int \<Rightarrow> bytes res" where
  "store_int m i v = store_bytes m i (le_bytes 4 v)"

lemma length_le_bytes [simp]: "length (le_bytes n i) = n"
  by (induction n arbitrary: i) auto

lemma le_val_nonneg [simp]: "0 \<le> le_val bs"
  by (induction bs) auto

lemma le_val_less: "le_val bs < 256 ^ length bs"
proof (induction bs)
  case (Cons b bs)
  have "uint b < 256" using uint_lt2p [of b] by simp
  then show ?case using Cons by simp
qed simp

lemma le_val_le_bytes: "le_val (le_bytes n i) = i mod 256 ^ n"
proof (induction n arbitrary: i)
  case (Suc n)
  have "i mod (256 * 256 ^ n) = 256 * (i div 256 mod 256 ^ n) + i mod 256"
    by (simp add: mod_mult2_eq' zmod_zmult2_eq)
  then show ?case
    using Suc by (simp add: uint_word_of_int)
qed simp

lemma le_bytes_le_val: "le_bytes (length bs) (le_val bs) = bs"
proof (induction bs)
  case (Cons b bs)
  have "uint b < 256" using uint_lt2p [of b] by simp
  then have "(uint b + 256 * le_val bs) div 256 = le_val bs" by simp
  moreover have "word_of_int (uint b + 256 * le_val bs) = b"
  proof (rule word_uint_eqI)
    have "uint (word_of_int (uint b + 256 * le_val bs) :: byte) = (uint b + 256 * le_val bs) mod 256"
      by (simp only: uint_word_of_int) simp
    then show "uint (word_of_int (uint b + 256 * le_val bs) :: byte) = uint b"
      using \<open>uint b < 256\<close> by simp
  qed
  ultimately show ?case using Cons by simp
qed simp

lemma to_s32_id: "int32_range i \<Longrightarrow> to_s32 i = i"
  by (simp add: to_s32_def signed_take_bit_int_eq_self)

lemma to_s32_range: "int32_range (to_s32 i)"
  using signed_take_bit_int_greater_eq_minus_exp [of 31 i] signed_take_bit_int_less_exp [of 31 i]
  by (simp add: to_s32_def)

lemma to_s32_mod: "to_s32 (i mod 2 ^ 32) = to_s32 i"
proof -
  have "signed_take_bit 31 (take_bit 32 i) = signed_take_bit 31 i"
    by (simp add: signed_take_bit_take_bit)
  then show ?thesis by (simp only: to_s32_def take_bit_eq_mod)
qed

lemma to_s32_wrap: "to_s32 (i - 2 ^ 32) = to_s32 i" "to_s32 (i + 2 ^ 32) = to_s32 i"
  using to_s32_mod [of i] to_s32_mod [of "i - 2 ^ 32"] to_s32_mod [of "i + 2 ^ 32"] by simp_all

text \<open>The sign of a difference of two \<^verbatim>\<open>int\<close> values that wraps around.\<close>

lemma to_s32_diff:
  assumes "int32_range x" and "int32_range y"
  shows "(to_s32 (x - y) < 0 \<longleftrightarrow> x < y) \<longleftrightarrow> int32_range (x - y)"
proof -
  consider "int32_range (x - y)" | "2 ^ 31 \<le> x - y" | "x - y < - (2 ^ 31)" by linarith
  then show ?thesis
  proof cases
    case 1
    then show ?thesis by (simp add: to_s32_id)
  next
    case 2
    then have "to_s32 (x - y) = x - y - 2 ^ 32" using to_s32_id [of "x - y - 2 ^ 32"] to_s32_wrap(1) [of "x - y"] assms by simp
    then show ?thesis using 2 assms by auto
  next
    case 3
    then have "to_s32 (x - y) = x - y + 2 ^ 32" using to_s32_id [of "x - y + 2 ^ 32"] to_s32_wrap(2) [of "x - y"] assms by simp
    then show ?thesis using 3 assms by auto
  qed
qed

lemma to_s32_le_bytes: "int32_range i \<Longrightarrow> to_s32 (le_val (le_bytes 4 i)) = i"
  using to_s32_mod [of i] by (simp add: le_val_le_bytes to_s32_id)

lemma load_int_in [mem_simps]:
  "0 \<le> i \<Longrightarrow> i + 4 \<le> int (length m) \<Longrightarrow> load_int m i = Inr (to_s32 (le_val (take 4 (drop (nat i) m))))"
  by (simp add: load_int_def load_bytes_def)

lemma store_int_in [mem_simps]:
  "0 \<le> i \<Longrightarrow> i + 4 \<le> int (length m) \<Longrightarrow> store_int m i v = Inr (blit m (nat i) (le_bytes 4 v))"
  by (simp add: store_int_def store_bytes_def)

section \<open>Division as in C\<close>

text \<open>\<open>sdiv\<close> and \<open>smod\<close> truncate towards zero; on the values the program divides they are \<open>div\<close> and \<open>mod\<close>.\<close>

lemma sdiv_nonneg: "0 \<le> a \<Longrightarrow> 0 < b \<Longrightarrow> a sdiv b = a div b" for a b :: int
  by (cases "a = 0") (simp_all add: signed_divide_int_def)

lemma smod_nonneg: "0 \<le> a \<Longrightarrow> 0 < b \<Longrightarrow> a smod b = a mod b" for a b :: int
  by (cases "a = 0") (simp_all add: signed_modulo_int_def sdiv_nonneg minus_div_mult_eq_mod)

end
