(* ===== verification/CLib.thy ===== *)
theory CLib
  imports Prelude
begin

text \<open>
  The part of the C standard library the program uses, on the byte lists of \<open>Prelude\<close>:
  NUL-terminated strings (\<^verbatim>\<open>strncpy\<close>, \<^verbatim>\<open>strcmp\<close>, \<^verbatim>\<open>strtok\<close>), \<^verbatim>\<open>atoi\<close> with the behaviour
  of glibc, line input with \<^verbatim>\<open>fgets\<close>, and files with a position (\<^verbatim>\<open>fseek\<close>, \<^verbatim>\<open>fread\<close>,
  \<^verbatim>\<open>fwrite\<close>). The locale \<open>three_way\<close> is the contract of a comparison function in the style of
  \<^verbatim>\<open>strcmp\<close> and \<^verbatim>\<open>qsort\<close>; it is interpreted here for \<open>strcmp\<close>.
\<close>

section \<open>Strings\<close>

text \<open>A string literal as bytes.\<close>

definition bstr :: "string \<Rightarrow> bytes" where
  "bstr s = map of_char s"

text \<open>The string a pointer denotes: the bytes before the first NUL.\<close>

definition cstr :: "bytes \<Rightarrow> bytes" where
  "cstr s = takeWhile (\<lambda>b. b \<noteq> 0) s"

text \<open>\<^verbatim>\<open>strncpy(d, s, n)\<close>: the \<open>n\<close> bytes it writes, for a source string that is not read beyond its block.\<close>

definition strncpy :: "bytes \<Rightarrow> nat \<Rightarrow> bytes" where
  "strncpy s n = (let c = take n (cstr s) in c @ replicate (n - length c) 0)"

text \<open>
  \<^verbatim>\<open>strncpy(d, m + i, n)\<close> where the source pointer points into the block \<open>m\<close>: it reads up to a NUL or
  up to \<open>n\<close> bytes, and is undefined when that leaves the block.
\<close>

definition strncpy_from :: "bytes \<Rightarrow> int \<Rightarrow> nat \<Rightarrow> bytes res" where
  "strncpy_from m i n =
     (if 0 \<le> i \<and> i \<le> int (length m) \<and>
         (n \<le> length (cstr (drop (nat i) m)) \<or> length (cstr (drop (nat i) m)) < length (drop (nat i) m))
      then Inr (strncpy (drop (nat i) m) n) else Inl Out_of_bounds)"

fun strcmp_aux :: "bytes \<Rightarrow> bytes \<Rightarrow> int" where
  "strcmp_aux [] [] = 0"
| "strcmp_aux [] (b # bs) = - uint b"
| "strcmp_aux (a # as) [] = uint a"
| "strcmp_aux (a # as) (b # bs) = (if a = b then strcmp_aux as bs else uint a - uint b)"

definition strcmp :: "bytes \<Rightarrow> bytes \<Rightarrow> int" where
  "strcmp a b = strcmp_aux (cstr a) (cstr b)"

text \<open>
  One call of \<^verbatim>\<open>strtok\<close> with a one-character delimiter: skip delimiters, return the token before
  the next delimiter and the rest of the string after it; \<open>None\<close> is the \<^verbatim>\<open>NULL\<close> result.
\<close>

definition strtok :: "byte \<Rightarrow> bytes \<Rightarrow> (bytes \<times> bytes) option" where
  "strtok d s = (let s' = dropWhile (\<lambda>b. b = d) s in
     if s' = [] then None
     else Some (takeWhile (\<lambda>b. b \<noteq> d) s', drop 1 (dropWhile (\<lambda>b. b \<noteq> d) s')))"

abbreviation comma :: byte where "comma \<equiv> 44"
abbreviation newline :: byte where "newline \<equiv> 10"

lemma cstr_append_NUL [simp]: "0 \<notin> set s \<Longrightarrow> cstr (s @ 0 # t) = s"
  by (auto simp: cstr_def takeWhile_append)

lemma cstr_idem [simp]: "cstr (cstr s) = cstr s"
  by (simp add: cstr_def)

lemma cstr_id: "0 \<notin> set s \<Longrightarrow> cstr s = s"
  by (auto simp: cstr_def takeWhile_eq_all_conv)

lemma NUL_notin_cstr [simp]: "0 \<notin> set (cstr s)"
  by (auto simp: cstr_def dest: set_takeWhileD)

lemma length_strncpy [simp]: "length (strncpy s n) = n"
  by (simp add: strncpy_def Let_def)

lemma cstr_append_zeros: "cstr (s @ replicate k 0) = cstr s"
proof (induction s)
  case Nil
  then show ?case by (cases k) (auto simp: cstr_def)
qed (simp add: cstr_def)

lemma NUL_notin_take_cstr [simp]: "0 \<notin> set (take n (cstr s))"
  by (meson NUL_notin_cstr in_set_takeD)

lemma cstr_strncpy: "cstr (strncpy s n) = take n (cstr s)"
  by (simp add: strncpy_def Let_def cstr_append_zeros cstr_id)

lemma cstr_strncpy_append: "cstr (strncpy s n @ [0]) = take n (cstr s)"
proof -
  have "strncpy s n @ [0] = take n (cstr s) @ replicate (Suc (n - length (take n (cstr s)))) 0"
    by (simp add: strncpy_def Let_def flip: replicate_append_same)
  then show ?thesis by (simp only: cstr_append_zeros) (simp add: cstr_id)
qed

lemma take_cstr_append: "n \<le> length s \<Longrightarrow> take n (cstr (s @ t)) = take n (cstr s)"
proof (induction s arbitrary: n)
  case (Cons b s)
  then show ?case by (cases n) (auto simp: cstr_def)
qed simp

lemma strncpy_append: "n \<le> length s \<Longrightarrow> strncpy (s @ t) n = strncpy s n"
  by (simp add: strncpy_def take_cstr_append)

text \<open>Copying a copy changes nothing: the fixed-length image of an attribute is a fixed point.\<close>

lemma strncpy_strncpy [simp]: "strncpy (strncpy s n) n = strncpy s n"
  unfolding strncpy_def [of "strncpy s n"] by (simp add: cstr_strncpy) (simp add: strncpy_def Let_def)

lemma strncpy_from_block [mem_simps]:
  assumes "0 \<le> i" and "i + int n \<le> int (length m)"
  shows "strncpy_from m i n = Inr (strncpy (take n (drop (nat i) m)) n)"
proof -
  let ?s = "drop (nat i) m"
  have n: "n \<le> length ?s" using assms by simp
  have "n \<le> length (cstr ?s) \<or> length (cstr ?s) < length ?s"
    using n length_takeWhile_le [of "\<lambda>b. b \<noteq> 0" ?s] unfolding cstr_def by linarith
  moreover have "strncpy ?s n = strncpy (take n ?s) n"
    using strncpy_append [of n "take n ?s" "drop n ?s"] n by (simp del: drop_drop)
  ultimately show ?thesis
    using assms by (simp add: strncpy_from_def)
qed

lemma strtok_shorter: "strtok d s = Some (t, r) \<Longrightarrow> length r < length s"
proof -
  assume a: "strtok d s = Some (t, r)"
  let ?s = "dropWhile (\<lambda>b. b = d) s"
  from a have "?s \<noteq> []" and r: "r = drop 1 (dropWhile (\<lambda>b. b \<noteq> d) ?s)"
    by (auto simp: strtok_def Let_def split: if_splits)
  then have "0 < length ?s" unfolding length_greater_0_conv by simp
  moreover have "length (dropWhile (\<lambda>b. b \<noteq> d) ?s) \<le> length ?s" "length ?s \<le> length s"
    by (simp_all add: length_dropWhile_le)
  ultimately show ?thesis unfolding r length_drop by linarith
qed

text \<open>The tokens that repeated calls of \<^verbatim>\<open>strtok\<close> return.\<close>

function tokens :: "byte \<Rightarrow> bytes \<Rightarrow> bytes list" where
  "tokens d s = (case strtok d s of None \<Rightarrow> [] | Some (t, r) \<Rightarrow> t # tokens d r)"
  by pat_completeness auto
termination
  by (relation "measure (\<lambda>(d, s). length s)") (auto dest: strtok_shorter)

declare tokens.simps [simp del]

lemma tokens_Nil [simp]: "tokens d [] = []"
  by (simp add: tokens.simps strtok_def)

lemma strtok_token:
  assumes "t \<noteq> []" and "d \<notin> set t"
  shows "strtok d (t @ d # r) = Some (t, r)" and "strtok d t = Some (t, [])"
proof -
  have keep: "dropWhile (\<lambda>b. b = d) (t @ u) = t @ u" for u
    using assms by (cases t) auto
  have "takeWhile (\<lambda>b. b \<noteq> d) (t @ d # r) = t \<and> dropWhile (\<lambda>b. b \<noteq> d) (t @ d # r) = d # r"
    using assms(2) by (induction t) auto
  then show "strtok d (t @ d # r) = Some (t, r)"
    using assms by (simp add: strtok_def keep)
  have "takeWhile (\<lambda>b. b \<noteq> d) t = t" "dropWhile (\<lambda>b. b \<noteq> d) t = []"
    using assms(2) by (induction t) auto
  then show "strtok d t = Some (t, [])"
    using assms keep [of "[]"]
    by (simp add: strtok_def del: takeWhile_eq_all_conv dropWhile_eq_Nil_conv)
qed

lemma tokens_token: "t \<noteq> [] \<Longrightarrow> d \<notin> set t \<Longrightarrow> tokens d (t @ d # r) = t # tokens d r"
  by (subst tokens.simps) (simp add: strtok_token)

lemma tokens_last: "t \<noteq> [] \<Longrightarrow> d \<notin> set t \<Longrightarrow> tokens d t = [t]"
  by (subst tokens.simps) (simp add: strtok_token)

text \<open>Fields joined with one delimiter are recovered when no field is empty or contains it.\<close>

fun join :: "byte \<Rightarrow> bytes list \<Rightarrow> bytes" where
  "join d [] = []"
| "join d [t] = t"
| "join d (t # u # ts) = t @ d # join d (u # ts)"

lemma tokens_join:
  "\<forall>t \<in> set ts. t \<noteq> [] \<and> d \<notin> set t \<Longrightarrow> tokens d (join d ts) = ts"
  by (induction d ts rule: join.induct) (auto simp: tokens_token tokens_last)

section \<open>Three-way comparison\<close>

text \<open>
  The contract of a comparison function: on the values for which \<open>ok\<close> holds, the sign of the result
  is a total preorder.
\<close>

locale three_way =
  fixes cmp :: "'a \<Rightarrow> 'a \<Rightarrow> int" and ok :: "'a \<Rightarrow> bool"
  assumes cmp_refl: "ok x \<Longrightarrow> cmp x x = 0"
    and cmp_flip: "ok x \<Longrightarrow> ok y \<Longrightarrow> cmp x y < 0 \<longleftrightarrow> 0 < cmp y x"
    and cmp_trans: "ok x \<Longrightarrow> ok y \<Longrightarrow> ok z \<Longrightarrow> cmp x y \<le> 0 \<Longrightarrow> cmp y z \<le> 0 \<Longrightarrow> cmp x z \<le> 0"
begin

lemma cmp_total: "ok x \<Longrightarrow> ok y \<Longrightarrow> cmp x y \<le> 0 \<or> cmp y x \<le> 0"
  using cmp_flip [of x y] by linarith

lemma cmp_not_le: "ok x \<Longrightarrow> ok y \<Longrightarrow> \<not> cmp x y < 0 \<longleftrightarrow> cmp y x \<le> 0"
  using cmp_flip [of x y] by linarith

lemma cmp_zero_flip: "ok x \<Longrightarrow> ok y \<Longrightarrow> cmp x y = 0 \<longleftrightarrow> cmp y x = 0"
  using cmp_flip [of x y] cmp_flip [of y x] by linarith

lemma cmp_zero_subst:
  "ok x \<Longrightarrow> ok y \<Longrightarrow> ok z \<Longrightarrow> cmp x y = 0 \<Longrightarrow> cmp x z \<le> 0 \<longleftrightarrow> cmp y z \<le> 0"
  using cmp_trans [of x y z] cmp_trans [of y x z] cmp_zero_flip [of x y] by auto

lemma cmp_less_trans:
  "ok x \<Longrightarrow> ok y \<Longrightarrow> ok z \<Longrightarrow> cmp x y < 0 \<Longrightarrow> cmp y z \<le> 0 \<Longrightarrow> cmp x z < 0"
  using cmp_trans [of y z x] cmp_not_le [of x z] cmp_not_le [of x y] by auto

lemma cmp_trans_less:
  "ok x \<Longrightarrow> ok y \<Longrightarrow> ok z \<Longrightarrow> cmp x y \<le> 0 \<Longrightarrow> cmp y z < 0 \<Longrightarrow> cmp x z < 0"
  using cmp_trans [of z x y] cmp_not_le [of x z] cmp_not_le [of y z] by auto

end

text \<open>Comparing by one criterion first and by another when that gives equality.\<close>

lemma three_way_lex:
  assumes a: "three_way c1 ok1" and b: "three_way c2 ok2"
  shows "three_way (\<lambda>x y. let c = c1 (g x) (g y) in if c \<noteq> 0 then c else c2 x y) (\<lambda>x. ok1 (g x) \<and> ok2 x)"
proof
  fix x y z
  assume x: "ok1 (g x) \<and> ok2 x"
  then show "(let c = c1 (g x) (g x) in if c \<noteq> 0 then c else c2 x x) = 0"
    using three_way.cmp_refl [OF a] three_way.cmp_refl [OF b] by simp
  assume y: "ok1 (g y) \<and> ok2 y"
  show "(let c = c1 (g x) (g y) in if c \<noteq> 0 then c else c2 x y) < 0 \<longleftrightarrow> 0 < (let c = c1 (g y) (g x) in if c \<noteq> 0 then c else c2 y x)"
    using x y three_way.cmp_flip [OF a, of "g x" "g y"] three_way.cmp_zero_flip [OF a, of "g x" "g y"] three_way.cmp_flip [OF b, of x y]
    by (simp add: Let_def)
  assume z: "ok1 (g z) \<and> ok2 z" and le: "(let c = c1 (g x) (g y) in if c \<noteq> 0 then c else c2 x y) \<le> 0"
    "(let c = c1 (g y) (g z) in if c \<noteq> 0 then c else c2 y z) \<le> 0"
  have c: "c1 (g x) (g y) \<le> 0" "c1 (g y) (g z) \<le> 0" using le by (auto simp: Let_def split: if_splits)
  show "(let c = c1 (g x) (g z) in if c \<noteq> 0 then c else c2 x z) \<le> 0"
  proof (cases "c1 (g x) (g z) = 0")
    case True
    have "c1 (g x) (g y) < 0 \<Longrightarrow> c1 (g x) (g z) < 0" "c1 (g y) (g z) < 0 \<Longrightarrow> c1 (g x) (g z) < 0"
      using c x y z three_way.cmp_less_trans [OF a, of "g x" "g y" "g z"] three_way.cmp_trans_less [OF a, of "g x" "g y" "g z"] by blast+
    then have "\<not> c1 (g x) (g y) < 0" "\<not> c1 (g y) (g z) < 0" using True by (metis less_irrefl)+
    then have "c1 (g x) (g y) = 0" "c1 (g y) (g z) = 0" using c by simp_all
    then show ?thesis using True le x y z three_way.cmp_trans [OF b, of x y z] by (simp add: Let_def)
  next
    case False
    then show ?thesis using three_way.cmp_trans [OF a, of "g x" "g y" "g z"] x y z c by (simp add: Let_def)
  qed
qed

lemma strcmp_aux_neg: "strcmp_aux b a = - strcmp_aux a b"
  by (induction a b rule: strcmp_aux.induct) auto

lemma strcmp_aux_refl [simp]: "strcmp_aux a a = 0"
  by (induction a) auto

lemma uint_pos: "b \<noteq> 0 \<Longrightarrow> 0 < uint b"
  using uint_nonnegative [of b] by (metis order_le_less uint_0_iff)

lemma strcmp_aux_zero: "0 \<notin> set a \<Longrightarrow> 0 \<notin> set b \<Longrightarrow> strcmp_aux a b = 0 \<longleftrightarrow> a = b"
proof (induction a b rule: strcmp_aux.induct)
  case (2 b bs)
  then show ?case using uint_pos [of b] by auto
next
  case (3 a as)
  then show ?case using uint_pos [of a] by auto
qed (auto dest: word_uint_eqI)

lemma strcmp_aux_trans:
  "0 \<notin> set a \<Longrightarrow> 0 \<notin> set b \<Longrightarrow> 0 \<notin> set c \<Longrightarrow>
   strcmp_aux a b \<le> 0 \<Longrightarrow> strcmp_aux b c \<le> 0 \<Longrightarrow> strcmp_aux a c \<le> 0"
proof (induction a b arbitrary: c rule: strcmp_aux.induct)
  case (2 b bs)
  then show ?case by (cases c) auto
next
  case (3 a as)
  then show ?case using uint_pos [of a] by auto
next
  case (4 a as b bs)
  show ?case
  proof (cases c)
    case Nil
    with 4 uint_pos [of b] show ?thesis by auto
  next
    case (Cons x xs)
    with 4 show ?thesis by (auto split: if_splits dest: word_uint_eqI)
  qed
qed simp

interpretation strcmp: three_way strcmp "\<lambda>_. True"
proof unfold_locales
  fix x y z
  show "strcmp x x = 0" by (simp add: strcmp_def)
  show "strcmp x y < 0 \<longleftrightarrow> 0 < strcmp y x"
    using strcmp_aux_neg [of "cstr y" "cstr x"] by (simp add: strcmp_def)
  show "strcmp x y \<le> 0 \<Longrightarrow> strcmp y z \<le> 0 \<Longrightarrow> strcmp x z \<le> 0"
    unfolding strcmp_def by (rule strcmp_aux_trans [OF NUL_notin_cstr NUL_notin_cstr NUL_notin_cstr])
qed

lemma strcmp_append: "0 \<notin> set f \<Longrightarrow> strcmp (f @ s) (f @ t) = strcmp s t"
  by (induction f) (auto simp: strcmp_def cstr_def)

lemma strcmp_zero: "strcmp a b = 0 \<longleftrightarrow> cstr a = cstr b"
  by (simp add: strcmp_def strcmp_aux_zero)

section \<open>Decimal numbers\<close>

text \<open>
  \<^verbatim>\<open>atoi\<close> of glibc is \<^verbatim>\<open>(int) strtol(s, NULL, 10)\<close>: white space, an optional sign, decimal digits;
  the value saturates at the ends of a 64-bit \<^verbatim>\<open>long\<close> and is then cut to 32 bits.
\<close>

definition isspace :: "byte \<Rightarrow> bool" where
  "isspace b \<longleftrightarrow> b = 32 \<or> (9 \<le> b \<and> b \<le> 13)"

definition isdigit :: "byte \<Rightarrow> bool" where
  "isdigit b \<longleftrightarrow> 48 \<le> b \<and> b \<le> 57"

fun dec_val :: "int \<Rightarrow> bytes \<Rightarrow> int" where
  "dec_val acc [] = acc"
| "dec_val acc (b # bs) = dec_val (10 * acc + (uint b - 48)) bs"

definition strtol10 :: "bytes \<Rightarrow> int" where
  "strtol10 s =
     (let s1 = dropWhile isspace (cstr s);
          neg = (s1 \<noteq> [] \<and> hd s1 = 45);
          s2 = (if s1 \<noteq> [] \<and> (hd s1 = 45 \<or> hd s1 = 43) then tl s1 else s1);
          v = dec_val 0 (takeWhile isdigit s2)
      in max (- (2 ^ 63)) (min (2 ^ 63 - 1) (if neg then - v else v)))"

definition atoi :: "bytes \<Rightarrow> int" where
  "atoi s = to_s32 (strtol10 s)"

lemma atoi_range: "int32_range (atoi s)"
  using to_s32_range by (simp add: atoi_def)

lemma atoi_cstr [simp]: "atoi (cstr s) = atoi s"
  by (simp add: atoi_def strtol10_def)

text \<open>The decimal digits of a number, as \<^verbatim>\<open>operator<<\<close> and \<^verbatim>\<open>sprintf("%d")\<close> print it.\<close>

fun dec_digits :: "nat \<Rightarrow> bytes" where
  "dec_digits n = (if n < 10 then [of_nat (48 + n)] else dec_digits (n div 10) @ [of_nat (48 + n mod 10)])"

declare dec_digits.simps [simp del]

lemma dec_val_append: "dec_val acc (xs @ ys) = dec_val (dec_val acc xs) ys"
  by (induction xs arbitrary: acc) auto

lemma uint_digit: "d < 10 \<Longrightarrow> uint (of_nat (48 + d) :: byte) = 48 + int d"
  by (simp add: unsigned_of_nat take_bit_eq_mod del: of_nat_add)

lemma isdigit_digit: "d < 10 \<Longrightarrow> isdigit (of_nat (48 + d))"
  using uint_digit [of d] by (simp add: isdigit_def word_le_def)

lemma dec_digits_digits: "b \<in> set (dec_digits n) \<Longrightarrow> isdigit b"
proof (induction n rule: dec_digits.induct)
  case (1 n)
  then show ?case
    by (subst (asm) (2) dec_digits.simps) (auto split: if_splits simp: isdigit_digit simp del: of_nat_add)
qed

lemma dec_digits_nonempty: "dec_digits n \<noteq> []"
  by (subst dec_digits.simps) simp

lemma dec_val_dec_digits: "dec_val 0 (dec_digits n) = int n"
proof (induction n rule: dec_digits.induct)
  case (1 n)
  show ?case
  proof (cases "n < 10")
    case True
    then show ?thesis
      by (subst dec_digits.simps) (simp add: uint_digit del: of_nat_add)
  next
    case False
    with 1 have "dec_val 0 (dec_digits (n div 10)) = int (n div 10)" by simp
    moreover have "10 * int (n div 10) + int (n mod 10) = int n" by presburger
    ultimately show ?thesis
      using False by (subst dec_digits.simps) (simp add: dec_val_append uint_digit del: of_nat_add)
  qed
qed

lemma isdigit_simps:
  assumes "isdigit b"
  shows "b \<noteq> 0" and "\<not> isspace b" and "b \<noteq> 45" and "b \<noteq> 43" and "b \<noteq> comma"
proof -
  have "48 \<le> uint b" using assms by (simp add: isdigit_def word_le_def)
  then show "b \<noteq> 0" and "\<not> isspace b" and "b \<noteq> 45" and "b \<noteq> 43" and "b \<noteq> comma"
    by (auto simp: isspace_def word_le_def)
qed

lemma strtol10_digits:
  assumes "\<forall>b \<in> set ds. isdigit b" and "ds \<noteq> []" and "0 \<le> dec_val 0 ds"
  shows "strtol10 ds = min (2 ^ 63 - 1) (dec_val 0 ds)"
proof -
  have "cstr ds = ds" using assms(1) isdigit_simps(1) by (intro cstr_id) auto
  moreover have "dropWhile isspace ds = ds" "hd ds \<noteq> 45" "hd ds \<noteq> 43"
    using assms isdigit_simps by (cases ds; auto)+
  moreover have "takeWhile isdigit ds = ds"
    using assms(1) by (simp add: takeWhile_eq_all_conv)
  ultimately show ?thesis
    using assms(3) by (simp add: strtol10_def del: takeWhile_eq_all_conv)
qed

text \<open>Printing a number and reading it back.\<close>

lemma atoi_dec_digits: "n < 2 ^ 31 \<Longrightarrow> atoi (dec_digits n) = int n"
  using strtol10_digits [of "dec_digits n"] dec_digits_digits dec_digits_nonempty [of n]
  by (simp add: dec_val_dec_digits atoi_def to_s32_id)

section \<open>Line input\<close>

text \<open>
  \<^verbatim>\<open>fgets(line, n, fp)\<close> on a stream with the given unread bytes: up to \<open>n - 1\<close> bytes, ending after a
  newline; \<open>None\<close> is the \<^verbatim>\<open>NULL\<close> result at the end of the file.
\<close>

definition fgets :: "nat \<Rightarrow> bytes \<Rightarrow> (bytes \<times> bytes) option" where
  "fgets n s =
     (if s = [] \<or> n \<le> 1 then None
      else let k = min (n - 1) (length (takeWhile (\<lambda>b. b \<noteq> newline) s) + 1)
           in Some (take k s, drop k s))"

lemma fgets_shorter: "fgets n s = Some (l, r) \<Longrightarrow> length r < length s"
  by (auto simp: fgets_def Let_def split: if_splits)

text \<open>The lines a loop \<^verbatim>\<open>while (fgets(line, n, fp))\<close> sees.\<close>

function read_lines :: "nat \<Rightarrow> bytes \<Rightarrow> bytes list" where
  "read_lines n s = (case fgets n s of None \<Rightarrow> [] | Some (l, r) \<Rightarrow> l # read_lines n r)"
  by pat_completeness auto
termination
  by (relation "measure (\<lambda>(n, s). length s)") (auto dest: fgets_shorter)

declare read_lines.simps [simp del]

lemma read_lines_Nil [simp]: "read_lines n [] = []"
  by (subst read_lines.simps) (simp add: fgets_def)

lemma fgets_line:
  assumes "newline \<notin> set l" and "length l + 1 < n"
  shows "fgets n (l @ newline # r) = Some (l @ [newline], r)"
proof -
  have "takeWhile (\<lambda>b. b \<noteq> newline) (l @ newline # r) = l"
    using assms(1) by (induction l) auto
  then show ?thesis using assms(2) by (simp add: fgets_def)
qed

lemma read_lines_line:
  "newline \<notin> set l \<Longrightarrow> length l + 1 < n \<Longrightarrow>
   read_lines n (l @ newline # r) = (l @ [newline]) # read_lines n r"
  by (subst read_lines.simps) (simp add: fgets_line)

lemma read_lines_concat:
  assumes "\<forall>l \<in> set ls. newline \<notin> set l \<and> length l + 1 < n"
  shows "read_lines n (concat (map (\<lambda>l. l @ [newline]) ls)) = map (\<lambda>l. l @ [newline]) ls"
  using assms by (induction ls) (auto simp: read_lines_line)

lemma length_read_lines: "l \<in> set (read_lines n s) \<Longrightarrow> length l < n"
proof (induction n s rule: read_lines.induct)
  case (1 n s)
  then show ?case
    by (subst (asm) (2) read_lines.simps) (auto simp: fgets_def Let_def split: option.splits if_splits)
qed

text \<open>Nothing is lost: the lines put together are the file.\<close>

lemma concat_read_lines: "1 < n \<Longrightarrow> concat (read_lines n s) = s"
proof (induction n s rule: read_lines.induct)
  case (1 n s)
  show ?case
  proof (cases "s = []")
    case False
    let ?k = "min (n - 1) (length (takeWhile (\<lambda>b. b \<noteq> newline) s) + 1)"
    have "fgets n s = Some (take ?k s, drop ?k s)"
      using False "1.prems" by (simp add: fgets_def Let_def)
    then obtain l r where f: "fgets n s = Some (l, r)" and s: "s = l @ r"
      using append_take_drop_id [of ?k s] by metis
    then have "concat (read_lines n r) = r" using 1 by blast
    then show ?thesis using f s by (subst read_lines.simps) simp
  qed simp
qed

section \<open>Files\<close>

text \<open>An open stream: the bytes of the file and the position.\<close>

record cfile =
  fcontents :: bytes
  fpos :: nat

definition fseek_set :: "cfile \<Rightarrow> int \<Rightarrow> cfile" where
  "fseek_set f off = (if off < 0 then f else f\<lparr>fpos := nat off\<rparr>)"

definition fseek_end :: "cfile \<Rightarrow> cfile" where
  "fseek_end f = f\<lparr>fpos := length (fcontents f)\<rparr>"

definition rewind :: "cfile \<Rightarrow> cfile" where
  "rewind f = f\<lparr>fpos := 0\<rparr>"

text \<open>\<open>fread f n\<close> reads up to \<open>n\<close> bytes; \<open>fwrite\<close> writes at the position, after a gap of zeros when the position is past the end.\<close>

definition fread :: "cfile \<Rightarrow> nat \<Rightarrow> bytes \<times> cfile" where
  "fread f n = (let bs = take n (drop (fpos f) (fcontents f)) in (bs, f\<lparr>fpos := fpos f + length bs\<rparr>))"

definition fwrite :: "cfile \<Rightarrow> bytes \<Rightarrow> cfile" where
  "fwrite f bs = f\<lparr>fcontents := blit (fcontents f @ replicate (fpos f - length (fcontents f)) 0) (fpos f) bs,
                   fpos := fpos f + length bs\<rparr>"

lemma fwrite_at_end:
  "fpos f = length (fcontents f) \<Longrightarrow>
   fwrite f bs = f\<lparr>fcontents := fcontents f @ bs, fpos := fpos f + length bs\<rparr>"
  by (simp add: fwrite_def blit_def)

lemma fwrite_within:
  "fpos f \<le> length (fcontents f) \<Longrightarrow>
   fwrite f bs = f\<lparr>fcontents := blit (fcontents f) (fpos f) bs, fpos := fpos f + length bs\<rparr>"
  by (simp add: fwrite_def)

lemma fcontents_fseek [simp]: "fcontents (fseek_set f off) = fcontents f" "fcontents (fseek_end f) = fcontents f"
  by (simp_all add: fseek_set_def fseek_end_def)

end
