(* ===== verification/Fixed_Record.thy ===== *)
theory Fixed_Record
  imports CLib
begin

text \<open>
  \<^verbatim>\<open>a1/record.cpp\<close>: records of fixed-length attributes. A \<^verbatim>\<open>Record\<close> is a vector of \<^verbatim>\<open>const char*\<close>;
  each pointer is modelled by the block it points to. \<open>fixed_len_write\<close> and \<open>fixed_len_read\<close> are
  the serialisation into a page buffer and back.
\<close>

section \<open>Model\<close>

type_synonym Record = "bytes list"

definition ATTRIBUTE_SIZE :: nat where
  "ATTRIBUTE_SIZE = 10"

text \<open>The product is a \<^verbatim>\<open>size_t\<close>; the result is cut to an \<^verbatim>\<open>int\<close>.\<close>

definition fixed_len_sizeof :: "Record \<Rightarrow> int" where
  "fixed_len_sizeof record = to_s32 (int (length record) * int ATTRIBUTE_SIZE mod 2 ^ 64)"

text \<open>The buffer pointer is the page buffer and the offset of \<open>dest\<close> in it.\<close>

fun fixed_len_write :: "Record \<Rightarrow> bytes \<Rightarrow> int \<Rightarrow> bytes res" where
  "fixed_len_write [] buf dest = Inr buf"
| "fixed_len_write (attr # record) buf dest =
     bindR (store_bytes buf dest (strncpy attr ATTRIBUTE_SIZE))
       (\<lambda>buf. fixed_len_write record buf (dest + int ATTRIBUTE_SIZE))"

text \<open>The loop over a record of \<open>n\<close> attributes: each gets a fresh block of \<open>ATTRIBUTE_SIZE + 1\<close> bytes.\<close>

fun fixed_len_read_loop :: "bytes \<Rightarrow> int \<Rightarrow> nat \<Rightarrow> Record res" where
  "fixed_len_read_loop buf src 0 = Inr []"
| "fixed_len_read_loop buf src (Suc n) =
     bindR (strncpy_from buf src ATTRIBUTE_SIZE)
       (\<lambda>value. bindR (fixed_len_read_loop buf (src + int ATTRIBUTE_SIZE) n)
          (\<lambda>record. Inr ((value @ [0]) # record)))"

text \<open>The quotient of the size is converted to \<^verbatim>\<open>size_t\<close> before it is compared.\<close>

definition fixed_len_read :: "bytes \<Rightarrow> int \<Rightarrow> int \<Rightarrow> nat \<Rightarrow> Record res" where
  "fixed_len_read buf src sz n =
     bindR (assertR ((sz sdiv int ATTRIBUTE_SIZE) mod 2 ^ 64 \<le> int n)) (\<lambda>_. fixed_len_read_loop buf src n)"

lemma fixed_len_read_ok:
  assumes "0 \<le> sz" and "sz div 10 \<le> int n"
  shows "fixed_len_read buf src sz n = fixed_len_read_loop buf src n"
proof -
  have "(sz sdiv 10) mod 2 ^ 64 \<le> sz sdiv 10" using assms(1) by (intro zmod_le_nonneg_dividend) (simp add: sdiv_nonneg pos_imp_zdiv_nonneg_iff)
  then have "(sz sdiv 10) mod 2 ^ 64 \<le> int n" using assms by (simp add: sdiv_nonneg)
  then show ?thesis by (simp add: fixed_len_read_def ATTRIBUTE_SIZE_def)
qed

definition print_record_as_csv :: "Record \<Rightarrow> bytes res" where
  "print_record_as_csv record =
     (if record = [] then Inl Out_of_bounds
      else Inr (concat (map (\<lambda>a. cstr a @ [comma]) (butlast record)) @ cstr (last record) @ [newline]))"

text \<open>The attribute block made from a token: \<^verbatim>\<open>strncpy\<close> into \<open>ATTRIBUTE_SIZE + 1\<close> bytes and a final NUL.\<close>

definition mk_attribute :: "bytes \<Rightarrow> bytes" where
  "mk_attribute token = strncpy token ATTRIBUTE_SIZE @ [0]"

definition load_csv_record :: "Record \<Rightarrow> bytes \<Rightarrow> Record res" where
  "load_csv_record record line =
     (let record' = record @ map mk_attribute (tokens comma (cstr line))
      in bindR (assertR (length record' = 100)) (\<lambda>_. Inr record'))"

text \<open>
  \<^verbatim>\<open>load_col_record\<close> never writes the first \<open>ATTRIBUTE_SIZE\<close> bytes of \<^verbatim>\<open>tupId\<close>: \<open>junk\<close> stands for what
  \<^verbatim>\<open>new char[ATTRIBUTE_SIZE + 1]\<close> returned. The argument \<open>tupleId\<close> is not used.
\<close>

definition load_col_record :: "bytes \<Rightarrow> Record \<Rightarrow> bytes \<Rightarrow> int \<Rightarrow> Record" where
  "load_col_record junk record token tupleId =
     record @ [take ATTRIBUTE_SIZE junk @ [0], mk_attribute token]"

section \<open>Serialisation\<close>

text \<open>The byte image of a record and what a reader gets back for an attribute.\<close>

definition record_image :: "Record \<Rightarrow> bytes" where
  "record_image record = concat (map (\<lambda>a. strncpy a ATTRIBUTE_SIZE) record)"

lemma length_record_image: "length (record_image r) = 10 * length r"
  by (induction r) (auto simp: record_image_def ATTRIBUTE_SIZE_def)

lemma record_image_Cons: "record_image (a # r) = strncpy a ATTRIBUTE_SIZE @ record_image r"
  by (simp add: record_image_def)

lemma fixed_len_sizeof_small: "10 * int (length r) < 2 ^ 31 \<Longrightarrow> fixed_len_sizeof r = 10 * int (length r)"
  by (simp add: fixed_len_sizeof_def ATTRIBUTE_SIZE_def to_s32_id)

lemma fixed_len_write_image:
  assumes "0 \<le> dest" and "dest + int (10 * length r) \<le> int (length buf)"
  shows "fixed_len_write r buf dest = Inr (blit buf (nat dest) (record_image r))"
  using assms
proof (induction r arbitrary: buf dest)
  case Nil
  then show ?case by (simp add: record_image_def)
next
  case (Cons a r)
  let ?b = "blit buf (nat dest) (strncpy a 10)"
  have "store_bytes buf dest (strncpy a 10) = Inr ?b"
    using Cons.prems by (simp add: store_bytes_def)
  moreover have "length ?b = length buf" using Cons.prems by simp
  then have "fixed_len_write r ?b (dest + 10) = Inr (blit ?b (nat dest + 10) (record_image r))"
    using Cons.IH [of "dest + 10" ?b] Cons.prems by (simp add: nat_add_distrib)
  moreover have "blit ?b (nat dest + 10) (record_image r) = blit buf (nat dest) (record_image (a # r))"
    using blit_append [of "nat dest" "strncpy a 10" "record_image r" buf] Cons.prems
    by (simp add: length_record_image record_image_Cons ATTRIBUTE_SIZE_def)
  ultimately show ?case by (simp add: ATTRIBUTE_SIZE_def)
qed

text \<open>A write that does not fit in the block is undefined behaviour.\<close>

lemma fixed_len_write_oob:
  assumes "0 \<le> dest" and "int (length buf) < dest + int (10 * length r)" and "dest \<le> int (length buf)"
  shows "fixed_len_write r buf dest = Inl Out_of_bounds"
  using assms
proof (induction r arbitrary: buf dest)
  case (Cons a r)
  show ?case
  proof (cases "dest + 10 \<le> int (length buf)")
    case True
    then have "length (blit buf (nat dest) (strncpy a 10)) = length buf"
      using Cons.prems by simp
    then show ?thesis
      using True Cons.prems Cons.IH [of "dest + 10" "blit buf (nat dest) (strncpy a 10)"]
      by (simp add: store_bytes_def ATTRIBUTE_SIZE_def)
  qed (use Cons.prems in \<open>simp add: store_bytes_def ATTRIBUTE_SIZE_def\<close>)
qed simp

fun split_image :: "bytes \<Rightarrow> nat \<Rightarrow> Record" where
  "split_image bs 0 = []"
| "split_image bs (Suc n) = (strncpy (take 10 bs) 10 @ [0]) # split_image (drop 10 bs) n"

lemma fixed_len_read_loop_split:
  assumes "0 \<le> src" and "src + int (10 * n) \<le> int (length buf)"
  shows "fixed_len_read_loop buf src n = Inr (split_image (take (10 * n) (drop (nat src) buf)) n)"
  using assms
proof (induction n arbitrary: src)
  case (Suc n)
  have "fixed_len_read_loop buf (src + 10) n
      = Inr (split_image (take (10 * n) (drop (nat src + 10) buf)) n)"
    using Suc.IH [of "src + 10"] Suc.prems by (simp add: nat_add_distrib)
  moreover have "drop 10 (take (10 * Suc n) (drop (nat src) buf)) = take (10 * n) (drop (nat src + 10) buf)"
    by (simp add: drop_take add.commute)
  ultimately show ?case
    using Suc.prems by (simp add: strncpy_from_block ATTRIBUTE_SIZE_def min_def add.commute)
qed simp

lemma length_split_image [simp]: "length (split_image bs n) = n"
  by (induction n arbitrary: bs) auto

lemma split_record_image: "split_image (record_image r) (length r) = map mk_attribute r"
  by (induction r) (auto simp: record_image_Cons mk_attribute_def ATTRIBUTE_SIZE_def record_image_def)

lemma split_image_take: "take (10 * n) bs = take (10 * n) bs' \<Longrightarrow> split_image bs n = split_image bs' n"
proof (induction n arbitrary: bs bs')
  case (Suc n)
  have "take 10 bs = take 10 bs'"
    using arg_cong [OF Suc.prems, of "take 10"] by (simp add: min_def)
  moreover have "take (10 * n) (drop 10 bs) = take (10 * n) (drop 10 bs')"
    using arg_cong [OF Suc.prems, of "drop 10"] by (simp add: take_drop add.commute)
  ultimately show ?case using Suc.IH [of "drop 10 bs" "drop 10 bs'"] by simp
qed simp

end
