(* ===== verification/Fixed_Page.thy ===== *)
theory Fixed_Page
  imports Fixed_Record Complex_Main
begin

text \<open>
  \<^verbatim>\<open>a1/page.cpp\<close>: pages of fixed-length slots. The page image holds the slots from its start and, from
  its last byte backwards, a bitmap with one bit per slot. The operations are translated with their
  byte and bit loops; the second half relates them to the abstract page, a partial map from slot
  numbers to slot images, and states the interface the heap file uses as the locale \<open>slotted_page\<close>.
\<close>

section \<open>Model\<close>

record Page =
  pg_data :: bytes
  pg_page_size :: int
  pg_slot_size :: int

definition init_fixed_len_page :: "int \<Rightarrow> int \<Rightarrow> Page res" where
  "init_fixed_len_page page_size slot_size =
     bindR (assertR (0 < slot_size \<and> slot_size < page_size))
       (\<lambda>_. Inr \<lparr>pg_data = replicate (nat page_size) 0, pg_page_size = page_size, pg_slot_size = slot_size\<rparr>)"

text \<open>\<^verbatim>\<open>(int) ceil(n / 8.0)\<close>; \<open>ceil8_ceiling\<close> below relates it to the real ceiling.\<close>

definition ceil8 :: "int \<Rightarrow> int" where
  "ceil8 n = - ((- n) div 8)"

definition fixed_len_page_capacity :: "Page \<Rightarrow> int" where
  "fixed_len_page_capacity page =
     (let directorySize = ceil8 (pg_page_size page div pg_slot_size page)
      in (pg_page_size page - directorySize) div pg_slot_size page)"

text \<open>
  The inner loop of \<^verbatim>\<open>fixed_len_page_freeslots\<close> over the bits of one byte, \<open>k\<close> iterations to go:
  it returns \<open>result\<close> and \<open>counter\<close>. \<^verbatim>\<open>char\<close> is signed, so \<^verbatim>\<open>charVal >>= 1\<close> is an arithmetic shift.
\<close>

fun freeslots_bits :: "nat \<Rightarrow> byte \<Rightarrow> int \<Rightarrow> int \<Rightarrow> int \<Rightarrow> int \<times> int" where
  "freeslots_bits 0 charVal numRecs result counter = (result, counter)"
| "freeslots_bits (Suc k) charVal numRecs result counter =
     (if counter < numRecs
      then freeslots_bits k (signed_drop_bit 1 charVal) numRecs (result + uint (charVal AND 1)) (counter + 1)
      else (result, counter))"

function freeslots_bytes :: "Page \<Rightarrow> int \<Rightarrow> int \<Rightarrow> int \<Rightarrow> int \<Rightarrow> int \<Rightarrow> int res" where
  "freeslots_bytes page numRecs numBytes i result counter =
     (if i \<le> numBytes
      then bindR (nth_res (pg_data page) (pg_page_size page - i))
        (\<lambda>charVal. case freeslots_bits 8 charVal numRecs result counter of
           (result, counter) \<Rightarrow> freeslots_bytes page numRecs numBytes (i + 1) result counter)
      else Inr result)"
  by pat_completeness auto
termination
  by (relation "measure (\<lambda>(page, numRecs, numBytes, i, result, counter). nat (numBytes + 1 - i))") auto

definition fixed_len_page_freeslots :: "Page \<Rightarrow> int res" where
  "fixed_len_page_freeslots page =
     (let numRecs = fixed_len_page_capacity page; numBytes = ceil8 numRecs
      in bindR (freeslots_bytes page numRecs numBytes 1 0 0) (\<lambda>result. Inr (numRecs - result)))"

definition write_fixed_len_page :: "Page \<Rightarrow> int \<Rightarrow> Record \<Rightarrow> Page res" where
  "write_fixed_len_page page slot r =
     bindR (assertR (0 \<le> slot)) (\<lambda>_.
     bindR (fixed_len_write r (pg_data page) (slot * pg_slot_size page)) (\<lambda>dat.
     let index = pg_page_size page - ceil8 (slot + 1) in
     bindR (nth_res dat index) (\<lambda>b.
     bindR (upd_res dat index (b OR push_bit (nat (slot mod 8)) 1)) (\<lambda>dat.
     Inr (page\<lparr>pg_data := dat\<rparr>)))))"

text \<open>The search loops of \<^verbatim>\<open>add_fixed_len_page\<close>: the bit loop returns \<open>slot\<close> (\<open>-1\<close>: not found) and \<open>counter\<close>.\<close>

fun add_bits :: "nat \<Rightarrow> byte \<Rightarrow> int \<Rightarrow> int \<Rightarrow> int \<times> int" where
  "add_bits 0 charVal numRecs counter = (-1, counter)"
| "add_bits (Suc k) charVal numRecs counter =
     (if counter < numRecs
      then if charVal AND 1 = 0 then (counter, counter)
           else add_bits k (signed_drop_bit 1 charVal) numRecs (counter + 1)
      else (-1, counter))"

function add_bytes :: "Page \<Rightarrow> int \<Rightarrow> int \<Rightarrow> int \<Rightarrow> int \<Rightarrow> int res" where
  "add_bytes page numRecs numBytes i counter =
     (if i \<le> numBytes
      then bindR (nth_res (pg_data page) (pg_page_size page - i))
        (\<lambda>charVal. case add_bits 8 charVal numRecs counter of
           (slot, counter) \<Rightarrow>
             if 0 \<le> slot then Inr slot else add_bytes page numRecs numBytes (i + 1) counter)
      else Inr (-1))"
  by pat_completeness auto
termination
  by (relation "measure (\<lambda>(page, numRecs, numBytes, i, counter). nat (numBytes + 1 - i))") auto

definition add_fixed_len_page :: "Page \<Rightarrow> Record \<Rightarrow> (int \<times> Page) res" where
  "add_fixed_len_page page r =
     (let numRecs = fixed_len_page_capacity page; numBytes = ceil8 numRecs in
      bindR (add_bytes page numRecs numBytes 1 0) (\<lambda>slot.
        if 0 \<le> slot then bindR (write_fixed_len_page page slot r) (\<lambda>page. Inr (slot, page))
        else Inr (slot, page)))"

text \<open>\<open>n\<close> is the size of the vector the record is read into.\<close>

definition read_fixed_len_page :: "Page \<Rightarrow> int \<Rightarrow> nat \<Rightarrow> Record res" where
  "read_fixed_len_page page slot n =
     bindR (assertR (0 \<le> slot)) (\<lambda>_.
     let index = pg_page_size page - ceil8 (slot + 1) in
     bindR (nth_res (pg_data page) index) (\<lambda>valid.
     fixed_len_read (pg_data page) (slot * pg_slot_size page) (pg_slot_size page) n))"

definition delete_fixed_len_page :: "Page \<Rightarrow> int \<Rightarrow> Page res" where
  "delete_fixed_len_page page slot =
     bindR (assertR (0 \<le> slot)) (\<lambda>_.
     let index = pg_page_size page - ceil8 (slot + 1) in
     bindR (nth_res (pg_data page) index) (\<lambda>b.
     bindR (upd_res (pg_data page) index (b AND NOT (push_bit (nat (slot mod 8)) 1))) (\<lambda>dat.
     Inr (page\<lparr>pg_data := dat\<rparr>))))"

function next_filled_loop :: "Page \<Rightarrow> int \<Rightarrow> int \<Rightarrow> int res" where
  "next_filled_loop page numRecs slot =
     (if slot < numRecs
      then bindR (nth_res (pg_data page) (pg_page_size page - 1 - slot sdiv 8)) (\<lambda>bit_fld.
        if bit_fld AND push_bit (nat (slot smod 8)) 1 \<noteq> 0 then Inr slot
        else next_filled_loop page numRecs (slot + 1))
      else Inr (-1))"
  by pat_completeness auto
termination
  by (relation "measure (\<lambda>(page, numRecs, slot). nat (numRecs - slot))") auto

definition get_next_filled_slot :: "Page \<Rightarrow> int \<Rightarrow> int res" where
  "get_next_filled_slot page slot = next_filled_loop page (fixed_len_page_capacity page) (slot + 1)"

declare freeslots_bytes.simps [simp del] add_bytes.simps [simp del] next_filled_loop.simps [simp del]

section \<open>Layout: slots and bitmap never overlap\<close>

lemma ceil8_ceiling: "ceil8 n = \<lceil>real_of_int n / 8\<rceil>"
  by (simp add: ceil8_def ceiling_def floor_divide_of_int_eq [of "- n" 8, simplified])

lemma ceil8_eq: "ceil8 n = (n + 7) div 8"
  unfolding ceil8_def by presburger

lemma ceil8_Suc: "0 \<le> s \<Longrightarrow> ceil8 (int s + 1) = int (s div 8) + 1"
  unfolding ceil8_eq by presburger

lemma ceil8_pos: "1 \<le> n \<Longrightarrow> 1 \<le> ceil8 n"
  unfolding ceil8_eq by presburger

lemma ceil8_less: "2 \<le> n \<Longrightarrow> ceil8 n + 1 \<le> n"
  unfolding ceil8_eq by presburger

lemma less_ceil8_iff: "int j < ceil8 (int n) \<longleftrightarrow> 8 * j < n"
  unfolding ceil8_eq by presburger

lemma ceil8_mono: "m \<le> n \<Longrightarrow> ceil8 m \<le> ceil8 n"
  by (simp add: ceil8_eq zdiv_mono1)

definition wf_page :: "Page \<Rightarrow> bool" where
  "wf_page p \<longleftrightarrow> 0 < pg_slot_size p \<and> pg_slot_size p < pg_page_size p
     \<and> length (pg_data p) = nat (pg_page_size p)"

definition cap :: "Page \<Rightarrow> nat" where
  "cap p = nat (fixed_len_page_capacity p)"

lemma capacity_bounds:
  assumes "0 < pg_slot_size p" and "pg_slot_size p < pg_page_size p"
  shows "1 \<le> fixed_len_page_capacity p"
    and "fixed_len_page_capacity p * pg_slot_size p + ceil8 (fixed_len_page_capacity p) \<le> pg_page_size p"
proof -
  let ?ps = "pg_page_size p" and ?ss = "pg_slot_size p" and ?c = "fixed_len_page_capacity p"
  let ?q = "?ps div ?ss"
  let ?d = "ceil8 ?q"
  have c: "?c = (?ps - ?d) div ?ss" by (simp add: fixed_len_page_capacity_def Let_def)
  have q1: "1 \<le> ?q" using assms by (simp add: pos_imp_zdiv_pos_iff int_one_le_iff_zero_less)
  have d: "1 \<le> ?d" using q1 by (rule ceil8_pos)
  have qs: "?q * ?ss \<le> ?ps" using assms by (simp add: minus_mod_eq_div_mult [symmetric])
  have "?ss \<le> ?ps - ?d"
  proof (cases "?q = 1")
    case True
    then have "?d = 1" by (simp add: ceil8_eq)
    then show ?thesis using assms by simp
  next
    case False
    then have "2 \<le> ?q" using q1 by simp
    then have "?d + 1 \<le> ?q" by (rule ceil8_less)
    moreover have "?q - 1 \<le> (?q - 1) * ?ss" using assms q1 by (simp add: mult_le_cancel_left1)
    ultimately show ?thesis using qs by (simp add: left_diff_distrib)
  qed
  then show "1 \<le> ?c" using assms by (simp add: c pos_imp_zdiv_pos_iff int_one_le_iff_zero_less)
  have "?c \<le> ?q" unfolding c using assms d by (intro zdiv_mono1) auto
  then have "ceil8 ?c \<le> ?d" by (rule ceil8_mono)
  moreover have "?c * ?ss \<le> ?ps - ?d" unfolding c using assms by (simp add: minus_mod_eq_div_mult [symmetric])
  ultimately show "?c * ?ss + ceil8 ?c \<le> ?ps" by linarith
qed

text \<open>The bit of the map that belongs to a slot.\<close>

definition slot_byte :: "Page \<Rightarrow> nat \<Rightarrow> nat" where
  "slot_byte p s = nat (pg_page_size p) - 1 - s div 8"

definition slot_used :: "Page \<Rightarrow> nat \<Rightarrow> bool" where
  "slot_used p s \<longleftrightarrow> bit (pg_data p ! slot_byte p s) (s mod 8)"

lemma wf_page_cap: "wf_page p \<Longrightarrow> fixed_len_page_capacity p = int (cap p) \<and> 1 \<le> cap p"
  using capacity_bounds(1) [of p] by (auto simp: wf_page_def cap_def)

lemma page_layout:
  assumes "wf_page p" and "s < cap p"
  shows "cap p * nat (pg_slot_size p) \<le> slot_byte p s"
    and "slot_byte p s < length (pg_data p)"
    and "pg_page_size p - ceil8 (int s + 1) = int (slot_byte p s)"
    and "slot_byte p s + s div 8 + 1 = length (pg_data p)"
proof -
  let ?c = "fixed_len_page_capacity p"
  have c: "?c = int (cap p)" using wf_page_cap [OF assms(1)] by blast
  have ps: "int (length (pg_data p)) = pg_page_size p" and pos: "0 < pg_slot_size p"
    using assms(1) by (auto simp: wf_page_def)
  have b: "?c * pg_slot_size p + ceil8 ?c \<le> pg_page_size p"
    using assms(1) capacity_bounds(2) [of p] by (simp add: wf_page_def)
  have "int s + 1 \<le> ?c" using assms c by linarith
  then have "ceil8 (int s + 1) \<le> ceil8 ?c" by (rule ceil8_mono)
  moreover have e: "ceil8 (int s + 1) = int (s div 8) + 1" by (rule ceil8_Suc) simp
  ultimately have le: "int (cap p) * pg_slot_size p + int (s div 8) + 1 \<le> pg_page_size p"
    using b unfolding c by linarith
  have nn: "0 \<le> int (cap p) * pg_slot_size p" using pos by simp
  have sb: "int (slot_byte p s) = pg_page_size p - 1 - int (s div 8)"
    unfolding slot_byte_def using le nn by linarith
  have "int (cap p * nat (pg_slot_size p)) \<le> int (slot_byte p s)"
    using le pos unfolding sb by simp
  then show "cap p * nat (pg_slot_size p) \<le> slot_byte p s" by (simp only: of_nat_le_iff)
  show "slot_byte p s < length (pg_data p)" using ps sb by linarith
  show "pg_page_size p - ceil8 (int s + 1) = int (slot_byte p s)" using e sb by linarith
  show "slot_byte p s + s div 8 + 1 = length (pg_data p)" using ps sb by linarith
qed

lemma nth_slot_byte:
  "wf_page p \<Longrightarrow> s < cap p \<Longrightarrow>
   nth_res (pg_data p) (pg_page_size p - ceil8 (int s + 1)) = Inr (pg_data p ! slot_byte p s)"
  using page_layout(2,3) [of p s] by (simp add: nth_res_Inr)

section \<open>The bit loops\<close>

lemma bit_signed_shift: "b < 7 \<Longrightarrow> bit (signed_drop_bit (Suc 0) (c :: byte)) b \<longleftrightarrow> bit c (Suc b)"
  by (simp add: bit_signed_drop_bit_iff)

lemma and_one_bit: "uint ((c :: byte) AND 1) = of_bool (bit c 0)" "(c AND 1 = 0) \<longleftrightarrow> \<not> bit c 0"
  by (simp_all add: and_one_eq bit_0 mod_2_eq_odd)

definition used_count :: "Page \<Rightarrow> nat \<Rightarrow> nat" where
  "used_count p n = card {s. s < n \<and> slot_used p s}"

lemma used_count_Suc: "used_count p (Suc n) = used_count p n + of_bool (slot_used p n)"
proof -
  have "{s. s < Suc n \<and> slot_used p s} = {s. s < n \<and> slot_used p s} \<union> (if slot_used p n then {n} else {})"
    by (auto simp: less_Suc_eq)
  then show ?thesis by (simp add: used_count_def card_insert_if)
qed

lemma used_count_0 [simp]: "used_count p 0 = 0"
  by (simp add: used_count_def)

lemma used_count_le: "used_count p n \<le> n"
  by (induction n) (auto simp: used_count_Suc)

lemma freeslots_bits_count:
  assumes "k \<le> 8" and "\<And>b. b < k \<Longrightarrow> bit c b \<longleftrightarrow> slot_used p (n + b)" and "n \<le> R"
  shows "freeslots_bits k c (int R) (int (used_count p n)) (int n) =
    (int (used_count p (min R (n + k))), int (min R (n + k)))"
  using assms
proof (induction k arbitrary: c n)
  case (Suc k)
  show ?case
  proof (cases "n < R")
    case True
    have "\<And>b. b < k \<Longrightarrow> bit (signed_drop_bit 1 c) b \<longleftrightarrow> slot_used p (Suc n + b)"
      using Suc.prems(1) Suc.prems(2) [of "Suc b" for b] by (simp add: bit_signed_shift)
    moreover have "int (used_count p n) + uint (c AND 1) = int (used_count p (Suc n))"
      using Suc.prems(2) [of 0] by (simp add: used_count_Suc and_one_bit)
    ultimately show ?thesis
      using Suc.IH [of "signed_drop_bit 1 c" "Suc n"] Suc.prems(1) True by (simp add: add.commute)
  qed (use Suc.prems in simp)
qed (use assms in simp)

lemma byte_of_group:
  assumes "wf_page p" and "8 * j < cap p"
  shows "nth_res (pg_data p) (pg_page_size p - (int j + 1)) = Inr (pg_data p ! slot_byte p (8 * j))"
    and "b < 8 \<Longrightarrow> bit (pg_data p ! slot_byte p (8 * j)) b \<longleftrightarrow> slot_used p (8 * j + b)"
proof -
  show "nth_res (pg_data p) (pg_page_size p - (int j + 1)) = Inr (pg_data p ! slot_byte p (8 * j))"
    using nth_slot_byte [OF assms] ceil8_Suc [of "8 * j"] by (simp add: add.commute)
  show "b < 8 \<Longrightarrow> bit (pg_data p ! slot_byte p (8 * j)) b \<longleftrightarrow> slot_used p (8 * j + b)"
    by (simp add: slot_used_def slot_byte_def)
qed

lemma freeslots_bytes_count:
  assumes "wf_page p" and "int j \<le> ceil8 (int (cap p))"
  shows "freeslots_bytes p (int (cap p)) (ceil8 (int (cap p))) (int j + 1)
     (int (used_count p (min (cap p) (8 * j)))) (int (min (cap p) (8 * j))) = Inr (int (used_count p (cap p)))"
  using assms(2)
proof (induction "nat (ceil8 (int (cap p))) - j" arbitrary: j)
  case 0
  then have "int j = ceil8 (int (cap p))" by simp
  then have "cap p \<le> 8 * j" using less_ceil8_iff [of j "cap p"] by simp
  then show ?case using \<open>int j = _\<close> by (subst freeslots_bytes.simps) simp
next
  case (Suc x)
  then have j: "int j + 1 \<le> ceil8 (int (cap p))" by linarith
  then have lt: "8 * j < cap p" using less_ceil8_iff [of j "cap p"] by simp
  note byte = byte_of_group [OF assms(1) lt]
  have "freeslots_bits 8 (pg_data p ! slot_byte p (8 * j)) (int (cap p))
      (int (used_count p (8 * j))) (int (8 * j))
    = (int (used_count p (min (cap p) (8 * Suc j))), int (min (cap p) (8 * Suc j)))"
    using freeslots_bits_count [of 8 "pg_data p ! slot_byte p (8 * j)" p "8 * j" "cap p"] byte(2) lt
    by (simp add: add.commute)
  moreover have "freeslots_bytes p (int (cap p)) (ceil8 (int (cap p))) (int (Suc j) + 1)
     (int (used_count p (min (cap p) (8 * Suc j)))) (int (min (cap p) (8 * Suc j)))
     = Inr (int (used_count p (cap p)))"
    using Suc.hyps j by (intro Suc.hyps(1)) auto
  ultimately show ?case
    using j lt byte(1) by (subst freeslots_bytes.simps) (simp add: min_absorb2 add.commute add.left_commute)
qed

lemma freeslots_eq:
  assumes "wf_page p"
  shows "fixed_len_page_freeslots p = Inr (int (cap p) - int (used_count p (cap p)))"
proof -
  have c: "fixed_len_page_capacity p = int (cap p)" using wf_page_cap [OF assms] by blast
  have "1 \<le> cap p" using wf_page_cap [OF assms] by blast
  then have "0 \<le> ceil8 (int (cap p))" using ceil8_pos [of "int (cap p)"] by linarith
  then have "freeslots_bytes p (int (cap p)) (ceil8 (int (cap p))) 1 0 0 = Inr (int (used_count p (cap p)))"
    using freeslots_bytes_count [OF assms, of 0] by simp
  then show ?thesis by (simp add: fixed_len_page_freeslots_def Let_def c)
qed

lemma add_bits_full:
  assumes "k \<le> 8" and "\<And>b. b < k \<Longrightarrow> n + b < R \<Longrightarrow> bit c b" and "n \<le> R"
  shows "add_bits k c (int R) (int n) = (-1, int (min R (n + k)))"
  using assms
proof (induction k arbitrary: c n)
  case (Suc k)
  show ?case
  proof (cases "n < R")
    case True
    have "\<And>b. b < k \<Longrightarrow> Suc n + b < R \<Longrightarrow> bit (signed_drop_bit (Suc 0) c) b"
      using Suc.prems(1) Suc.prems(2) [of "Suc b" for b] by (simp add: bit_signed_shift)
    then show ?thesis
      using Suc.IH [of "Suc n" "signed_drop_bit 1 c"] Suc.prems(1) Suc.prems(2) [of 0] True
      by (simp add: and_one_bit add.commute)
  qed (use Suc.prems in simp)
qed (use assms in simp)

lemma add_bits_found:
  assumes "k \<le> 8" and "b < k" and "n + b < R" and "\<not> bit c b" and "\<And>b'. b' < b \<Longrightarrow> bit c b'"
  shows "add_bits k c (int R) (int n) = (int (n + b), int (n + b))"
  using assms
proof (induction k arbitrary: c n b)
  case (Suc k)
  show ?case
  proof (cases b)
    case 0
    then show ?thesis using Suc.prems by (simp add: and_one_bit)
  next
    case (Suc b')
    have "add_bits k (signed_drop_bit (Suc 0) c) (int R) (int (Suc n)) = (int (Suc n + b'), int (Suc n + b'))"
    proof (rule Suc.IH)
      show "\<not> bit (signed_drop_bit (Suc 0) c) b'"
        using Suc.prems Suc by (simp add: bit_signed_shift)
      show "\<And>b''. b'' < b' \<Longrightarrow> bit (signed_drop_bit (Suc 0) c) b''"
        using Suc.prems(1,2,5) Suc by (simp add: bit_signed_shift)
    qed (use Suc.prems Suc in auto)
    then show ?thesis
      using Suc.prems(3) Suc.prems(5) [of 0] Suc by (simp add: and_one_bit add.commute)
  qed
qed simp

lemma add_bytes_full:
  assumes "wf_page p" and "int j \<le> ceil8 (int (cap p))" and "\<And>s. 8 * j \<le> s \<Longrightarrow> s < cap p \<Longrightarrow> slot_used p s"
  shows "add_bytes p (int (cap p)) (ceil8 (int (cap p))) (int j + 1) (int (min (cap p) (8 * j))) = Inr (-1)"
  using assms(2,3)
proof (induction "nat (ceil8 (int (cap p))) - j" arbitrary: j)
  case 0
  then have "int j = ceil8 (int (cap p))" by simp
  then show ?case by (subst add_bytes.simps) simp
next
  case (Suc x)
  then have j: "int j + 1 \<le> ceil8 (int (cap p))" by linarith
  then have lt: "8 * j < cap p" using less_ceil8_iff [of j "cap p"] by simp
  note byte = byte_of_group [OF assms(1) lt]
  have "add_bits 8 (pg_data p ! slot_byte p (8 * j)) (int (cap p)) (int (8 * j))
    = (-1, int (min (cap p) (8 * Suc j)))"
    using add_bits_full [of 8 "8 * j" "cap p" "pg_data p ! slot_byte p (8 * j)"] byte(2) lt Suc.prems(2)
    by (simp add: add.commute)
  moreover have "add_bytes p (int (cap p)) (ceil8 (int (cap p))) (int (Suc j) + 1)
     (int (min (cap p) (8 * Suc j))) = Inr (-1)"
    using Suc.hyps j Suc.prems(2) by (intro Suc.hyps(1)) auto
  ultimately show ?case
    using j lt byte(1) by (subst add_bytes.simps) (simp add: min_absorb2 add.commute add.left_commute)
qed

lemma add_bytes_found:
  assumes "wf_page p" and "8 * j \<le> s" and "s < cap p" and "\<not> slot_used p s"
    and "\<And>t. 8 * j \<le> t \<Longrightarrow> t < s \<Longrightarrow> slot_used p t"
  shows "add_bytes p (int (cap p)) (ceil8 (int (cap p))) (int j + 1) (int (8 * j)) = Inr (int s)"
  using assms(2-5)
proof (induction "s - 8 * j" arbitrary: j rule: less_induct)
  case less
  have lt: "8 * j < cap p" using less.prems by simp
  then have j: "int j + 1 \<le> ceil8 (int (cap p))" using less_ceil8_iff [of j "cap p"] by simp
  note byte = byte_of_group [OF assms(1) lt]
  let ?c = "pg_data p ! slot_byte p (8 * j)"
  show ?case
  proof (cases "s < 8 * Suc j")
    case True
    define b where "b = s - 8 * j"
    have b: "b < 8" "s = 8 * j + b" using True less.prems(1) by (auto simp: b_def)
    have "add_bits 8 ?c (int (cap p)) (int (8 * j)) = (int (8 * j + b), int (8 * j + b))"
      using b byte(2) less.prems by (intro add_bits_found) auto
    then show ?thesis
      using j byte(1) b by (subst add_bytes.simps) (simp add: add.commute add.left_commute)
  next
    case False
    then have m: "min (cap p) (8 * j + 8) = 8 * Suc j" using less.prems(2) by simp
    have "add_bits 8 ?c (int (cap p)) (int (8 * j)) = (-1, int (8 * Suc j))"
      using add_bits_full [of 8 "8 * j" "cap p" ?c] byte(2) lt less.prems(4) False m by simp
    moreover have "add_bytes p (int (cap p)) (ceil8 (int (cap p))) (int (Suc j) + 1) (int (8 * Suc j)) = Inr (int s)"
      using less.prems False by (intro less.hyps) auto
    ultimately show ?thesis
      using j byte(1) by (subst add_bytes.simps) (simp add: add.commute add.left_commute)
  qed
qed

lemma next_filled_step:
  assumes "wf_page p" and "s < cap p"
  shows "next_filled_loop p (int (cap p)) (int s) =
    (if slot_used p s then Inr (int s) else next_filled_loop p (int (cap p)) (int (Suc s)))"
proof -
  have "int s sdiv 8 = int (s div 8)" "int s smod 8 = int (s mod 8)"
    by (simp_all add: sdiv_nonneg smod_nonneg zdiv_int zmod_int)
  moreover have "nth_res (pg_data p) (pg_page_size p - 1 - int (s div 8)) = Inr (pg_data p ! slot_byte p s)"
    using nth_slot_byte [OF assms] ceil8_Suc [of s] by (simp add: algebra_simps)
  ultimately show ?thesis
    using assms(2) by (subst next_filled_loop.simps)
      (simp add: and_exp_eq_0_iff_not_bit slot_used_def add.commute)
qed

lemma next_filled_found:
  assumes "wf_page p" and "s \<le> t" and "t < cap p" and "slot_used p t"
    and "\<And>u. s \<le> u \<Longrightarrow> u < t \<Longrightarrow> \<not> slot_used p u"
  shows "next_filled_loop p (int (cap p)) (int s) = Inr (int t)"
  using assms(2,5)
proof (induction "t - s" arbitrary: s)
  case 0
  then show ?case using next_filled_step [OF assms(1,3)] assms(4) by simp
next
  case (Suc x)
  then have "next_filled_loop p (int (cap p)) (int (Suc s)) = Inr (int t)"
    by (intro Suc.hyps(1)) auto
  then show ?case
    using Suc.hyps(2) Suc.prems next_filled_step [OF assms(1), of s] assms(3) by simp
qed

lemma next_filled_none:
  assumes "wf_page p" and "\<And>u. s \<le> u \<Longrightarrow> u < cap p \<Longrightarrow> \<not> slot_used p u"
  shows "next_filled_loop p (int (cap p)) (int s) = Inr (-1)"
  using assms(2)
proof (induction "cap p - s" arbitrary: s)
  case 0
  then show ?case by (subst next_filled_loop.simps) simp
next
  case (Suc x)
  then have "next_filled_loop p (int (cap p)) (int (Suc s)) = Inr (-1)"
    by (intro Suc.hyps(1)) auto
  then show ?case
    using Suc.hyps(2) Suc.prems(1) [of s] next_filled_step [OF assms(1), of s] by simp
qed

section \<open>The abstract page\<close>

definition slot_image :: "Page \<Rightarrow> nat \<Rightarrow> bytes" where
  "slot_image p s = take (nat (pg_slot_size p)) (drop (s * nat (pg_slot_size p)) (pg_data p))"

text \<open>What a page stores: the images of its used slots.\<close>

definition page_abs :: "Page \<Rightarrow> nat \<rightharpoonup> bytes" where
  "page_abs p = (\<lambda>s. if s < cap p \<and> slot_used p s then Some (slot_image p s) else None)"

lemma slot_in_data:
  assumes "wf_page p" and "s < cap p"
  shows "Suc s * nat (pg_slot_size p) \<le> cap p * nat (pg_slot_size p)"
    and "Suc s * nat (pg_slot_size p) \<le> length (pg_data p)"
proof -
  show "Suc s * nat (pg_slot_size p) \<le> cap p * nat (pg_slot_size p)"
    using assms(2) by (intro mult_right_mono) auto
  then show "Suc s * nat (pg_slot_size p) \<le> length (pg_data p)"
    using page_layout(1,2) [OF assms] by linarith
qed

text \<open>Two pages with the same sizes: the effect of an operation on bitmap and slots.\<close>

lemma same_sizes:
  assumes "pg_page_size p' = pg_page_size p" and "pg_slot_size p' = pg_slot_size p"
  shows "cap p' = cap p" and "slot_byte p' s = slot_byte p s"
  using assms by (simp_all add: cap_def fixed_len_page_capacity_def slot_byte_def)

lemma slot_byte_eq_iff:
  assumes "wf_page p" and "s < cap p" and "t < cap p"
  shows "slot_byte p s = slot_byte p t \<longleftrightarrow> s div 8 = t div 8"
  using page_layout(4) [OF assms(1,2)] page_layout(4) [OF assms(1,3)] by linarith

lemma slot_used_upd:
  assumes "wf_page p" and "s < cap p" and "t < cap p" and "length dat = length (pg_data p)"
    and "\<And>n. bit v n \<longleftrightarrow> (if n = s mod 8 then u else bit (dat ! slot_byte p s) n)"
    and "\<And>i. cap p * nat (pg_slot_size p) \<le> i \<Longrightarrow> i < length dat \<Longrightarrow> dat ! i = pg_data p ! i"
  shows "slot_used (p\<lparr>pg_data := dat[slot_byte p s := v]\<rparr>) t \<longleftrightarrow> (if t = s then u else slot_used p t)"
proof -
  have sb: "slot_byte (p\<lparr>pg_data := d\<rparr>) t = slot_byte p t" for d by (simp add: slot_byte_def)
  have b: "slot_byte p s < length dat" "slot_byte p t < length dat"
    using page_layout(2) [OF assms(1,2)] page_layout(2) [OF assms(1,3)] assms(4) by auto
  have same: "dat ! slot_byte p t = pg_data p ! slot_byte p t"
    using assms(6) page_layout(1) [OF assms(1,3)] b by simp
  show ?thesis
  proof (cases "s div 8 = t div 8")
    case True
    then have eq: "slot_byte p s = slot_byte p t" using slot_byte_eq_iff [OF assms(1-3)] by simp
    have "t mod 8 = s mod 8 \<longleftrightarrow> t = s" using True by (metis div_mult_mod_eq)
    then show ?thesis using b eq same by (simp add: slot_used_def sb assms(5))
  next
    case False
    then have "slot_byte p s \<noteq> slot_byte p t" using slot_byte_eq_iff [OF assms(1-3)] by simp
    then show ?thesis using same False by (auto simp: slot_used_def sb)
  qed
qed

lemma slot_image_upd:
  assumes "wf_page p" and "s < cap p" and "t < cap p"
  shows "slot_image (p\<lparr>pg_data := dat[slot_byte p s := v]\<rparr>) t = slot_image (p\<lparr>pg_data := dat\<rparr>) t"
proof -
  let ?k = "nat (pg_slot_size p)"
  have "t * ?k + ?k \<le> slot_byte p s"
    using slot_in_data(1) [OF assms(1,3)] page_layout(1) [OF assms(1,2)] by simp
  then have "take ?k (drop (t * ?k) (dat[slot_byte p s := v])) = take ?k (drop (t * ?k) dat)"
    by (simp add: drop_update_swap)
  then show ?thesis by (simp add: slot_image_def)
qed

lemma bit_set_flag: "n < 8 \<Longrightarrow> bit ((b :: byte) OR push_bit n 1) m \<longleftrightarrow> (if m = n then True else bit b m)"
  by (auto simp: bit_or_iff bit_exp_iff)

lemma bit_clear_flag:
  "n < 8 \<Longrightarrow> bit ((b :: byte) AND NOT (push_bit n 1)) m \<longleftrightarrow> (if m = n then False else bit b m)"
  by (auto simp: bit_and_iff bit_not_iff bit_exp_iff dest: bit_imp_le_length)

lemma page_abs_eqI:
  assumes "cap p' = cap p" and "s < cap p"
    and "\<And>t. t < cap p \<Longrightarrow> slot_used p' t \<longleftrightarrow> (if t = s then v \<noteq> None else slot_used p t)"
    and "\<And>t. t < cap p \<Longrightarrow> t \<noteq> s \<Longrightarrow> slot_image p' t = slot_image p t"
    and "v \<noteq> None \<Longrightarrow> slot_image p' s = the v"
  shows "page_abs p' = (page_abs p)(s := v)"
  using assms by (auto simp: page_abs_def fun_eq_iff split: if_splits)

text \<open>Writing a record into a slot.\<close>

lemma write_fixed_len_page_spec:
  assumes wf: "wf_page p" and s: "s < cap p" and r: "10 * int (length r) \<le> pg_slot_size p"
  shows "\<exists>p'. write_fixed_len_page p (int s) r = Inr p' \<and> wf_page p'
    \<and> pg_page_size p' = pg_page_size p \<and> pg_slot_size p' = pg_slot_size p
    \<and> page_abs p' = (page_abs p)(s \<mapsto> blit (slot_image p s) 0 (record_image r))"
proof -
  let ?k = "nat (pg_slot_size p)"
  let ?d = "blit (pg_data p) (s * ?k) (record_image r)"
  let ?v = "?d ! slot_byte p s OR push_bit (s mod 8) 1"
  let ?p = "p\<lparr>pg_data := ?d[slot_byte p s := ?v]\<rparr>"
  have k: "int ?k = pg_slot_size p" using wf by (simp add: wf_page_def)
  have len: "length (record_image r) \<le> ?k"
    using r k length_record_image [of r] by linarith
  have fit: "s * ?k + length (record_image r) \<le> length (pg_data p)"
    using slot_in_data(2) [OF wf s] len by simp
  then have ld: "length ?d = length (pg_data p)" by simp
  have "int s * pg_slot_size p = int (s * ?k)" using k by simp
  then have w: "fixed_len_write r (pg_data p) (int s * pg_slot_size p) = Inr ?d"
    using fit fixed_len_write_image [of "int (s * ?k)" r "pg_data p"]
    by (simp only: length_record_image) (simp add: nat_mult_distrib del: of_nat_mult)
  have idx: "pg_page_size p - ceil8 (int s + 1) = int (slot_byte p s)" "slot_byte p s < length ?d"
    using page_layout [OF wf s] ld by auto
  have run: "write_fixed_len_page p (int s) r = Inr ?p"
    using w idx by (simp add: write_fixed_len_page_def nth_res_def upd_res_def nat_mod_distrib Let_def)
  have hi: "?d ! i = pg_data p ! i" if "cap p * ?k \<le> i" "i < length ?d" for i
    using that slot_in_data(1) [OF wf s] len fit ld by (subst nth_blit) auto
  have c: "cap ?p = cap p" by (rule same_sizes) auto
  have used: "slot_used ?p t \<longleftrightarrow> (if t = s then True else slot_used p t)" if "t < cap p" for t
    using that by (intro slot_used_upd [OF wf s _ ld] bit_set_flag hi) auto
  have img: "slot_image ?p t = slot_image (p\<lparr>pg_data := ?d\<rparr>) t" if "t < cap p" for t
    using that by (rule slot_image_upd [OF wf s])
  have "slot_image (p\<lparr>pg_data := ?d\<rparr>) t = slot_image p t" if "t < cap p" "t \<noteq> s" for t
  proof -
    have "t * ?k + ?k \<le> s * ?k \<or> s * ?k + ?k \<le> t * ?k"
      using that(2) by (rule slots_disjoint)
    then show ?thesis
      unfolding slot_image_def using fit len by (auto intro!: blit_disjoint)
  qed
  moreover have "slot_image (p\<lparr>pg_data := ?d\<rparr>) s = blit (slot_image p s) 0 (record_image r)"
    using fit len by (simp add: slot_image_def blit_def drop_take ac_simps)
  ultimately have "page_abs ?p = (page_abs p)(s \<mapsto> blit (slot_image p s) 0 (record_image r))"
    using c s used img by (intro page_abs_eqI) auto
  then show ?thesis
    using run wf ld by (intro exI [of _ ?p]) (simp add: wf_page_def)
qed

text \<open>Deleting a slot.\<close>

lemma delete_fixed_len_page_spec:
  assumes wf: "wf_page p" and s: "s < cap p"
  shows "\<exists>p'. delete_fixed_len_page p (int s) = Inr p' \<and> wf_page p'
    \<and> pg_page_size p' = pg_page_size p \<and> pg_slot_size p' = pg_slot_size p
    \<and> page_abs p' = (page_abs p)(s := None)"
proof -
  let ?d = "pg_data p"
  let ?v = "?d ! slot_byte p s AND NOT (push_bit (s mod 8) 1)"
  let ?p = "p\<lparr>pg_data := ?d[slot_byte p s := ?v]\<rparr>"
  have idx: "pg_page_size p - ceil8 (int s + 1) = int (slot_byte p s)" "slot_byte p s < length ?d"
    using page_layout [OF wf s] by auto
  have run: "delete_fixed_len_page p (int s) = Inr ?p"
    using idx by (simp add: delete_fixed_len_page_def nth_res_def upd_res_def nat_mod_distrib Let_def)
  have c: "cap ?p = cap p" by (rule same_sizes) auto
  have used: "slot_used ?p t \<longleftrightarrow> (if t = s then False else slot_used p t)" if "t < cap p" for t
    using that by (intro slot_used_upd [OF wf s _ refl] bit_clear_flag) auto
  have img: "slot_image ?p t = slot_image p t" if "t < cap p" for t
    using slot_image_upd [OF wf s that, of ?d] by simp
  have "page_abs ?p = (page_abs p)(s := None)"
    using c s used img by (intro page_abs_eqI) auto
  then show ?thesis
    using run wf by (intro exI [of _ ?p]) (simp add: wf_page_def)
qed

lemma init_fixed_len_page_spec:
  assumes "0 < ss" and "ss < ps"
  shows "\<exists>p. init_fixed_len_page ps ss = Inr p \<and> wf_page p \<and> pg_page_size p = ps
    \<and> pg_slot_size p = ss \<and> page_abs p = Map.empty"
proof -
  let ?p = "\<lparr>pg_data = replicate (nat ps) 0, pg_page_size = ps, pg_slot_size = ss\<rparr>"
  have wf: "wf_page ?p" using assms by (simp add: wf_page_def)
  have "\<not> slot_used ?p s" if "s < cap ?p" for s
    using page_layout(2) [OF wf that] by (simp add: slot_used_def)
  then have "page_abs ?p = Map.empty" by (auto simp: page_abs_def)
  then show ?thesis
    using wf assms by (intro exI [of _ ?p]) (simp add: init_fixed_len_page_def)
qed

lemma dom_page_abs: "dom (page_abs p) = {s. s < cap p \<and> slot_used p s}"
  by (auto simp: page_abs_def split: if_splits)

lemma page_abs_None: "s < cap p \<Longrightarrow> page_abs p s = None \<longleftrightarrow> \<not> slot_used p s"
  by (simp add: page_abs_def)

lemma used_count_dom: "used_count p (cap p) = card (dom (page_abs p))"
  by (simp add: used_count_def dom_page_abs)

lemma freeslots_spec:
  "wf_page p \<Longrightarrow> fixed_len_page_freeslots p = Inr (int (cap p) - int (card (dom (page_abs p))))"
  by (simp add: freeslots_eq used_count_dom)

text \<open>
  The first free slot. A page whose map does not cover all slots has one, and the byte and bit
  loops of \<^verbatim>\<open>add_fixed_len_page\<close> find the least.
\<close>

definition first_free :: "Page \<Rightarrow> nat" where
  "first_free p = (LEAST s. s < cap p \<and> page_abs p s = None)"

lemma first_free_props:
  assumes "s < cap p" and "page_abs p s = None"
  shows "first_free p < cap p" and "page_abs p (first_free p) = None"
    and "t < first_free p \<Longrightarrow> page_abs p t \<noteq> None"
proof -
  have "first_free p < cap p \<and> page_abs p (first_free p) = None"
    using LeastI [of "\<lambda>s. s < cap p \<and> page_abs p s = None" s] assms by (simp add: first_free_def)
  then show "first_free p < cap p" "page_abs p (first_free p) = None" by auto
  assume t: "t < first_free p"
  then have "t < cap p" using \<open>first_free p < cap p\<close> by simp
  then show "page_abs p t \<noteq> None"
    using not_less_Least [of t "\<lambda>s. s < cap p \<and> page_abs p s = None"] t by (simp add: first_free_def)
qed

lemma add_search:
  assumes wf: "wf_page p"
  shows "add_bytes p (fixed_len_page_capacity p) (ceil8 (fixed_len_page_capacity p)) 1 0
    = Inr (if \<exists>s<cap p. page_abs p s = None then int (first_free p) else -1)"
proof -
  have c: "fixed_len_page_capacity p = int (cap p)" and c1: "1 \<le> cap p"
    using wf_page_cap [OF wf] by auto
  show ?thesis
  proof (cases "\<exists>s<cap p. page_abs p s = None")
    case True
    then obtain s where s: "s < cap p" "page_abs p s = None" by blast
    note f = first_free_props [OF s]
    have "add_bytes p (int (cap p)) (ceil8 (int (cap p))) (int 0 + 1) (int (8 * 0)) = Inr (int (first_free p))"
    proof (rule add_bytes_found [OF wf _ f(1)])
      show "\<not> slot_used p (first_free p)" using f(1,2) page_abs_None by blast
      show "slot_used p t" if "t < first_free p" for t
        using f(1) f(3) [OF that] page_abs_None [of t p] that by simp
    qed simp
    then show ?thesis using True c by simp
  next
    case False
    then have "\<And>s. s < cap p \<Longrightarrow> slot_used p s" using page_abs_None by blast
    moreover have "0 \<le> ceil8 (int (cap p))" using ceil8_pos [of "int (cap p)"] c1 by linarith
    ultimately have "add_bytes p (int (cap p)) (ceil8 (int (cap p))) (int 0 + 1) (int (min (cap p) (8 * 0))) = Inr (-1)"
      by (intro add_bytes_full [OF wf]) auto
    then show ?thesis using False c by simp
  qed
qed

lemma add_fixed_len_page_full:
  "wf_page p \<Longrightarrow> \<forall>s<cap p. page_abs p s \<noteq> None \<Longrightarrow> add_fixed_len_page p r = Inr (-1, p)"
  using add_search [of p] by (auto simp: add_fixed_len_page_def Let_def)

lemma add_fixed_len_page_free:
  assumes "wf_page p" and "s < cap p" and "page_abs p s = None" and "10 * int (length r) \<le> pg_slot_size p"
  shows "\<exists>p'. add_fixed_len_page p r = Inr (int (first_free p), p') \<and> wf_page p'
    \<and> pg_page_size p' = pg_page_size p \<and> pg_slot_size p' = pg_slot_size p
    \<and> page_abs p' = (page_abs p)(first_free p \<mapsto> blit (slot_image p (first_free p)) 0 (record_image r))"
  using add_search [OF assms(1)] assms(2,3)
    write_fixed_len_page_spec [OF assms(1) first_free_props(1) [OF assms(2,3)] assms(4)]
  by (auto simp: add_fixed_len_page_def Let_def)

text \<open>Reading a slot into a vector of \<open>n\<close> attributes that covers at most the slot.\<close>

lemma read_fixed_len_page_spec:
  assumes wf: "wf_page p" and s: "s < cap p" and n: "pg_slot_size p div 10 \<le> int n" "10 * int n \<le> pg_slot_size p"
  shows "read_fixed_len_page p (int s) n = Inr (split_image (slot_image p s) n)"
proof -
  let ?k = "nat (pg_slot_size p)"
  have k: "int ?k = pg_slot_size p" using wf by (simp add: wf_page_def)
  have fit: "s * ?k + 10 * n \<le> length (pg_data p)"
    using slot_in_data(2) [OF wf s] n k by simp
  have "int s * pg_slot_size p = int (s * ?k)" using k by simp
  then have "fixed_len_read_loop (pg_data p) (int s * pg_slot_size p) n
      = Inr (split_image (take (10 * n) (drop (s * ?k) (pg_data p))) n)"
    using fit fixed_len_read_loop_split [of "int (s * ?k)" n "pg_data p"]
    by (simp add: nat_mult_distrib del: of_nat_mult)
  moreover have "split_image (take (10 * n) (drop (s * ?k) (pg_data p))) n = split_image (slot_image p s) n"
    using n k by (intro split_image_take) (auto simp: slot_image_def min_def)
  ultimately show ?thesis
    using n k nth_slot_byte [OF wf s]
    by (simp add: read_fixed_len_page_def fixed_len_read_ok Let_def)
qed

text \<open>The iterator step: the next used slot after \<open>slot\<close>.\<close>

lemma get_next_filled_slot_found:
  assumes "wf_page p" and "-1 \<le> slot" and "slot < int t" and "t \<in> dom (page_abs p)"
    and "\<And>u. slot < int u \<Longrightarrow> u < t \<Longrightarrow> u \<notin> dom (page_abs p)"
  shows "get_next_filled_slot p slot = Inr (int t)"
proof -
  have s: "slot + 1 = int (nat (slot + 1))" using assms(2) by simp
  have "t < cap p" "slot_used p t" using assms(4) by (auto simp: dom_page_abs)
  moreover have "\<not> slot_used p u" if "nat (slot + 1) \<le> u" "u < t" for u
  proof -
    have "slot < int u" using that(1) assms(2) by linarith
    then show ?thesis using assms(5) [of u] that(2) \<open>t < cap p\<close> by (auto simp: dom_page_abs)
  qed
  ultimately show ?thesis
    using next_filled_found [OF assms(1), of "nat (slot + 1)" t] assms(2,3) wf_page_cap [OF assms(1)] s
    unfolding get_next_filled_slot_def by (metis nat_le_iff zless_imp_add1_zle)
qed

lemma get_next_filled_slot_none:
  assumes "wf_page p" and "-1 \<le> slot" and "\<And>u. slot < int u \<Longrightarrow> u \<notin> dom (page_abs p)"
  shows "get_next_filled_slot p slot = Inr (-1)"
proof -
  have s: "slot + 1 = int (nat (slot + 1))" using assms(2) by simp
  have "\<not> slot_used p u" if "nat (slot + 1) \<le> u" "u < cap p" for u
  proof -
    have "slot < int u" using that(1) assms(2) by linarith
    then show ?thesis using assms(3) [of u] that(2) by (auto simp: dom_page_abs)
  qed
  then show ?thesis
    using next_filled_none [OF assms(1), of "nat (slot + 1)"] wf_page_cap [OF assms(1)] s
    unfolding get_next_filled_slot_def by metis
qed

section \<open>The interface of a page\<close>

text \<open>
  What the heap file relies on: a page is a finite map from slot numbers below its capacity to slot
  images, with the operations acting on that map.
\<close>

locale slotted_page =
  fixes wf :: "'p \<Rightarrow> bool" and abs :: "'p \<Rightarrow> nat \<rightharpoonup> bytes" and capn :: "'p \<Rightarrow> nat" and slotsz :: "'p \<Rightarrow> nat"
    and geom :: "'p \<Rightarrow> int \<times> int" and free :: "'p \<Rightarrow> int res"
    and add :: "'p \<Rightarrow> Record \<Rightarrow> (int \<times> 'p) res" and put :: "'p \<Rightarrow> int \<Rightarrow> Record \<Rightarrow> 'p res"
    and del :: "'p \<Rightarrow> int \<Rightarrow> 'p res" and get :: "'p \<Rightarrow> int \<Rightarrow> nat \<Rightarrow> Record res"
  assumes abs_dom: "wf p \<Longrightarrow> dom (abs p) \<subseteq> {..<capn p}"
    and abs_length: "wf p \<Longrightarrow> abs p s = Some img \<Longrightarrow> length img = slotsz p"
    and geom_capn: "geom p = geom q \<Longrightarrow> capn p = capn q"
    and geom_slotsz: "geom p = geom q \<Longrightarrow> slotsz p = slotsz q"
    and free_spec: "wf p \<Longrightarrow> free p = Inr (int (capn p) - int (card (dom (abs p))))"
    and put_spec: "wf p \<Longrightarrow> s < capn p \<Longrightarrow> length (record_image r) = slotsz p \<Longrightarrow>
      \<exists>p'. put p (int s) r = Inr p' \<and> wf p' \<and> geom p' = geom p \<and> abs p' = (abs p)(s \<mapsto> record_image r)"
    and del_spec: "wf p \<Longrightarrow> s < capn p \<Longrightarrow>
      \<exists>p'. del p (int s) = Inr p' \<and> wf p' \<and> geom p' = geom p \<and> abs p' = (abs p)(s := None)"
    and add_free_spec: "wf p \<Longrightarrow> s < capn p \<Longrightarrow> abs p s = None \<Longrightarrow> length (record_image r) = slotsz p \<Longrightarrow>
      \<exists>s' p'. add p r = Inr (int s', p') \<and> s' < capn p \<and> abs p s' = None \<and> wf p' \<and> geom p' = geom p
        \<and> abs p' = (abs p)(s' \<mapsto> record_image r)"
    and get_spec: "wf p \<Longrightarrow> abs p s = Some img \<Longrightarrow> slotsz p = 10 * n \<Longrightarrow>
      get p (int s) n = Inr (split_image img n)"
begin

lemma finite_abs: "wf p \<Longrightarrow> finite (dom (abs p))"
  using abs_dom finite_subset by blast

lemma free_range: "wf p \<Longrightarrow> free p = Inr f \<Longrightarrow> 0 \<le> f \<and> f \<le> int (capn p)"
  using free_spec [of p] card_mono [OF finite_lessThan abs_dom, of p] by auto

text \<open>The free-slot count is positive exactly when there is a free slot.\<close>

lemma free_pos:
  assumes "wf p" and "free p = Inr f"
  shows "0 < f \<longleftrightarrow> (\<exists>s<capn p. abs p s = None)"
proof
  assume "0 < f"
  then have "card (dom (abs p)) < card {..<capn p}" using assms free_spec [of p] by simp
  then have "\<not> {..<capn p} \<subseteq> dom (abs p)"
    using card_mono [OF finite_abs [OF assms(1)], of "{..<capn p}"] by linarith
  then show "\<exists>s<capn p. abs p s = None" by auto
next
  assume "\<exists>s<capn p. abs p s = None"
  then have "dom (abs p) \<subset> {..<capn p}" using abs_dom [OF assms(1)] by auto
  then have "card (dom (abs p)) < capn p"
    using psubset_card_mono [OF finite_lessThan, of "dom (abs p)" "capn p"] by simp
  then show "0 < f" using assms free_spec [of p] by simp
qed

text \<open>A record put into a slot is read back, cut to the attribute size.\<close>

lemma put_get:
  assumes "wf p" and "s < capn p" and "10 * length r = slotsz p"
  shows "\<exists>p'. put p (int s) r = Inr p' \<and> wf p' \<and> get p' (int s) (length r) = Inr (map mk_attribute r)"
proof -
  have "length (record_image r) = slotsz p" using assms(3) by (simp add: length_record_image)
  then obtain p' where p': "put p (int s) r = Inr p'" "wf p'" "geom p' = geom p" "abs p' = (abs p)(s \<mapsto> record_image r)"
    using put_spec assms by blast
  then have "get p' (int s) (length r) = Inr (split_image (record_image r) (length r))"
    using assms(3) geom_slotsz [of p' p] by (intro get_spec) auto
  then show ?thesis using p' by (simp add: split_record_image)
qed

lemma put_get_other:
  assumes "wf p" and "s < capn p" and "t \<noteq> s" and "abs p t = Some img" and "slotsz p = 10 * n"
    and "length (record_image r) = slotsz p" and "put p (int s) r = Inr p'"
  shows "get p' (int t) n = get p (int t) n"
proof -
  have "wf p'" "geom p' = geom p" "abs p' t = Some img"
    using put_spec [OF assms(1,2,6)] assms(3,4,7) by auto
  then show ?thesis using assms get_spec [of p' t img n] get_spec [of p t img n] geom_slotsz [of p' p] by simp
qed

text \<open>Adding to a page with room: the record is readable in the slot returned and one slot is used up.\<close>

lemma add_get:
  assumes "wf p" and "free p = Inr f" and "0 < f" and "10 * length r = slotsz p"
  shows "\<exists>s p'. add p r = Inr (int s, p') \<and> wf p' \<and> geom p' = geom p \<and> s < capn p \<and> abs p s = None
    \<and> abs p' = (abs p)(s \<mapsto> record_image r) \<and> free p' = Inr (f - 1)
    \<and> get p' (int s) (length r) = Inr (map mk_attribute r)"
proof -
  obtain t where "t < capn p" "abs p t = None" using free_pos [OF assms(1,2)] assms(3) by blast
  moreover have "length (record_image r) = slotsz p" using assms(4) by (simp add: length_record_image)
  ultimately obtain s p' where a: "add p r = Inr (int s, p')" "s < capn p" "abs p s = None" "wf p'"
    "geom p' = geom p" "abs p' = (abs p)(s \<mapsto> record_image r)"
    using add_free_spec assms(1) by blast
  have "dom (abs p') = insert s (dom (abs p))" "s \<notin> dom (abs p)" using a by auto
  then have "free p' = Inr (f - 1)"
    using a(4,5) free_spec [of p'] free_spec [OF assms(1)] assms(2) finite_abs [OF assms(1)] geom_capn [of p' p] by simp
  moreover have "get p' (int s) (length r) = Inr (split_image (record_image r) (length r))"
    using a assms(4) geom_slotsz [of p' p] by (intro get_spec) auto
  ultimately show ?thesis using a by (metis split_record_image)
qed

lemma del_free:
  assumes "wf p" and "free p = Inr f" and "abs p s \<noteq> None"
  shows "\<exists>p'. del p (int s) = Inr p' \<and> wf p' \<and> geom p' = geom p \<and> abs p' = (abs p)(s := None) \<and> free p' = Inr (f + 1)"
proof -
  have "s < capn p" using assms abs_dom [OF assms(1)] by auto
  then obtain p' where d: "del p (int s) = Inr p'" "wf p'" "geom p' = geom p" "abs p' = (abs p)(s := None)"
    using del_spec assms(1) by blast
  have "s \<in> dom (abs p)" using assms(3) by auto
  then have "card (dom (abs p')) + 1 = card (dom (abs p))"
    using card_Suc_Diff1 [OF finite_abs [OF assms(1)], of s] d(4) by simp
  then show ?thesis
    using d free_spec [of p'] free_spec [OF assms(1)] assms(2) geom_capn [of p' p] by (intro exI [of _ p']) auto
qed

end

lemma length_slot_image: "wf_page p \<Longrightarrow> s < cap p \<Longrightarrow> length (slot_image p s) = nat (pg_slot_size p)"
  using slot_in_data(2) [of p s] by (simp add: slot_image_def)

lemma blit_0_full: "length bs = length m \<Longrightarrow> blit m 0 bs = bs"
  by (simp add: blit_def)

interpretation fp: slotted_page wf_page page_abs cap "\<lambda>p. nat (pg_slot_size p)"
  "\<lambda>p. (pg_page_size p, pg_slot_size p)" fixed_len_page_freeslots add_fixed_len_page
  write_fixed_len_page delete_fixed_len_page read_fixed_len_page
proof unfold_locales
  fix p q :: Page and s n :: nat and r :: Record and img :: bytes
  assume wf: "wf_page p"
  show "dom (page_abs p) \<subseteq> {..<cap p}" by (auto simp: dom_page_abs)
  show "fixed_len_page_freeslots p = Inr (int (cap p) - int (card (dom (page_abs p))))"
    using wf by (rule freeslots_spec)
  show "page_abs p s = Some img \<Longrightarrow> length img = nat (pg_slot_size p)"
    using wf by (auto simp: page_abs_def length_slot_image split: if_splits)
  have k: "0 < pg_slot_size p" using wf by (simp add: wf_page_def)
  have fits: "10 * int (length r) \<le> pg_slot_size p" if "length (record_image r) = nat (pg_slot_size p)"
    using that k length_record_image [of r] by linarith
  show "s < cap p \<Longrightarrow> length (record_image r) = nat (pg_slot_size p) \<Longrightarrow>
    \<exists>p'. write_fixed_len_page p (int s) r = Inr p' \<and> wf_page p'
      \<and> (pg_page_size p', pg_slot_size p') = (pg_page_size p, pg_slot_size p)
      \<and> page_abs p' = (page_abs p)(s \<mapsto> record_image r)"
    using write_fixed_len_page_spec [OF wf, of s r] fits length_slot_image [OF wf, of s]
    by (auto simp: blit_0_full)
  show "s < cap p \<Longrightarrow> \<exists>p'. delete_fixed_len_page p (int s) = Inr p' \<and> wf_page p'
      \<and> (pg_page_size p', pg_slot_size p') = (pg_page_size p, pg_slot_size p)
      \<and> page_abs p' = (page_abs p)(s := None)"
    using delete_fixed_len_page_spec [OF wf, of s] by auto
  show "s < cap p \<Longrightarrow> page_abs p s = None \<Longrightarrow> length (record_image r) = nat (pg_slot_size p) \<Longrightarrow>
    \<exists>s' p'. add_fixed_len_page p r = Inr (int s', p') \<and> s' < cap p \<and> page_abs p s' = None \<and> wf_page p'
      \<and> (pg_page_size p', pg_slot_size p') = (pg_page_size p, pg_slot_size p)
      \<and> page_abs p' = (page_abs p)(s' \<mapsto> record_image r)"
    using add_fixed_len_page_free [OF wf, of s r] fits first_free_props [of s p]
      length_slot_image [OF wf, of "first_free p"] by (auto simp: blit_0_full)
  show "page_abs p s = Some img \<Longrightarrow> nat (pg_slot_size p) = 10 * n \<Longrightarrow>
    read_fixed_len_page p (int s) n = Inr (split_image img n)"
    using read_fixed_len_page_spec [OF wf, of s n] k
    by (auto simp: page_abs_def nat_eq_iff split: if_splits)
next
  fix p q :: Page
  assume "(pg_page_size p, pg_slot_size p) = (pg_page_size q, pg_slot_size q)"
  then show "cap p = cap q" "nat (pg_slot_size p) = nat (pg_slot_size q)" by (auto intro: same_sizes)
qed

end
