(* ===== verification/Dir_Page.thy ===== *)
theory Dir_Page
  imports Prelude
begin

text \<open>
  \<^verbatim>\<open>a1/directory.cpp\<close>: directory pages. A directory page image holds, as 32-bit integers, the file offset
  of the next directory (0: none), the number of entries and then the entries, each the offset of a
  data page and its number of free slots. The pointers \<^verbatim>\<open>n_entries\<close>, \<^verbatim>\<open>next_directory\<close> and \<^verbatim>\<open>entries\<close>
  of the C++ struct point into \<^verbatim>\<open>data\<close> at the byte offsets 4, 0 and 8; here they are accessors.
\<close>

section \<open>Model\<close>

record Entry =
  en_offset :: int
  en_free_space :: int

record Directory =
  dir_capacity :: int
  dir_data :: bytes
  dir_offset :: int

text \<open>\<^verbatim>\<open>page_size - sizeof(int) * 2\<close> is computed in \<^verbatim>\<open>size_t\<close>; the quotient is cut to an \<^verbatim>\<open>int\<close>.\<close>

definition init_directory_page :: "int \<Rightarrow> int \<Rightarrow> Directory res" where
  "init_directory_page page_size offset =
     (let capacity = to_s32 (((page_size - 8) mod 2 ^ 64) div 8) in
      bindR (assertR (0 < capacity)) (\<lambda>_.
      bindR (store_int (replicate (nat page_size) 0) 4 0) (\<lambda>dat.
      Inr \<lparr>dir_capacity = capacity, dir_data = dat, dir_offset = offset\<rparr>)))"

definition n_entries :: "Directory \<Rightarrow> int res" where
  "n_entries directory = load_int (dir_data directory) 4"

definition next_directory :: "Directory \<Rightarrow> int res" where
  "next_directory directory = load_int (dir_data directory) 0"

definition set_next_directory :: "Directory \<Rightarrow> int \<Rightarrow> Directory res" where
  "set_next_directory directory offset =
     bindR (store_int (dir_data directory) 0 offset) (\<lambda>dat. Inr (directory\<lparr>dir_data := dat\<rparr>))"

definition get_dir_entry :: "Directory \<Rightarrow> int \<Rightarrow> Entry res" where
  "get_dir_entry directory i =
     bindR (load_int (dir_data directory) (8 + 8 * i)) (\<lambda>off.
     bindR (load_int (dir_data directory) (12 + 8 * i)) (\<lambda>free.
     Inr \<lparr>en_offset = off, en_free_space = free\<rparr>))"

definition set_dir_entry :: "Directory \<Rightarrow> int \<Rightarrow> Entry \<Rightarrow> Directory res" where
  "set_dir_entry directory i e =
     bindR (store_int (dir_data directory) (8 + 8 * i) (en_offset e)) (\<lambda>dat.
     bindR (store_int dat (12 + 8 * i) (en_free_space e)) (\<lambda>dat.
     Inr (directory\<lparr>dir_data := dat\<rparr>)))"

definition is_full :: "Directory \<Rightarrow> bool res" where
  "is_full directory = bindR (n_entries directory) (\<lambda>n. Inr (n = dir_capacity directory))"

definition next_vacant_slot :: "Directory \<Rightarrow> (int \<times> Directory) res" where
  "next_vacant_slot directory =
     bindR (is_full directory) (\<lambda>full.
     bindR (assertR (\<not> full)) (\<lambda>_.
     bindR (n_entries directory) (\<lambda>n.
     bindR (store_int (dir_data directory) 4 (n + 1)) (\<lambda>dat.
     Inr (n, directory\<lparr>dir_data := dat\<rparr>)))))"

function find_free_loop :: "Directory \<Rightarrow> int \<Rightarrow> int \<Rightarrow> int res" where
  "find_free_loop directory n i =
     (if i < n
      then bindR (get_dir_entry directory i) (\<lambda>e.
        if 0 < en_free_space e then Inr i else find_free_loop directory n (i + 1))
      else Inr (-1))"
  by pat_completeness auto
termination
  by (relation "measure (\<lambda>(directory, n, i). nat (n - i))") auto

declare find_free_loop.simps [simp del]

definition find_free_page :: "Directory \<Rightarrow> int res" where
  "find_free_page directory = bindR (n_entries directory) (\<lambda>n. find_free_loop directory n 0)"

section \<open>The abstract directory\<close>

definition get32 :: "bytes \<Rightarrow> nat \<Rightarrow> int" where
  "get32 m i = to_s32 (le_val (take 4 (drop i m)))"

lemma get32_range: "int32_range (get32 m i)"
  unfolding get32_def by (rule to_s32_range)

lemma load_int_get32: "i + 4 \<le> length m \<Longrightarrow> load_int m (int i) = Inr (get32 m i)"
  by (simp add: load_int_in get32_def)

lemma get32_blit_same [mem_simps]:
  "int32_range v \<Longrightarrow> i + 4 \<le> length m \<Longrightarrow> get32 (blit m i (le_bytes 4 v)) i = v"
  using blit_same [of i "le_bytes 4 v" m] by (simp add: get32_def to_s32_le_bytes)

lemma get32_blit_other [mem_simps]:
  "i + 4 \<le> length m \<Longrightarrow> j + 4 \<le> i \<or> i + 4 \<le> j \<Longrightarrow> get32 (blit m i (le_bytes 4 v)) j = get32 m j"
  using blit_disjoint [of i "le_bytes 4 v" m j 4] by (simp add: get32_def)

definition dir_count :: "Directory \<Rightarrow> nat" where
  "dir_count d = nat (get32 (dir_data d) 4)"

definition dir_next :: "Directory \<Rightarrow> int" where
  "dir_next d = get32 (dir_data d) 0"

definition dir_entry :: "Directory \<Rightarrow> nat \<Rightarrow> Entry" where
  "dir_entry d i = \<lparr>en_offset = get32 (dir_data d) (8 + 8 * i), en_free_space = get32 (dir_data d) (12 + 8 * i)\<rparr>"

definition dir_list :: "Directory \<Rightarrow> Entry list" where
  "dir_list d = map (dir_entry d) [0..<dir_count d]"

definition dir_cap :: "int \<Rightarrow> nat" where
  "dir_cap ps = nat ((ps - 8) div 8)"

definition wf_dir :: "int \<Rightarrow> Directory \<Rightarrow> bool" where
  "wf_dir ps d \<longleftrightarrow> 16 \<le> ps \<and> length (dir_data d) = nat ps \<and> dir_capacity d = int (dir_cap ps)
     \<and> 0 \<le> get32 (dir_data d) 4 \<and> get32 (dir_data d) 4 \<le> dir_capacity d"

definition wf_entry :: "Entry \<Rightarrow> bool" where
  "wf_entry e \<longleftrightarrow> int32_range (en_offset e) \<and> int32_range (en_free_space e)"

lemma length_dir_list [simp]: "length (dir_list d) = dir_count d"
  by (simp add: dir_list_def)

lemma nth_dir_list: "i < dir_count d \<Longrightarrow> dir_list d ! i = dir_entry d i"
  by (simp add: dir_list_def)

lemma dir_cap_fits: "16 \<le> ps \<Longrightarrow> 8 + 8 * dir_cap ps \<le> nat ps" "16 \<le> ps \<Longrightarrow> 1 \<le> dir_cap ps"
  by (simp_all add: dir_cap_def)

lemma wf_dir_facts:
  assumes "wf_dir ps d"
  shows "dir_count d \<le> dir_cap ps" and "8 + 8 * dir_cap ps \<le> length (dir_data d)"
    and "n_entries d = Inr (int (dir_count d))" and "next_directory d = Inr (dir_next d)"
    and "get32 (dir_data d) 4 = int (dir_count d)" and "1 \<le> dir_cap ps"
proof -
  show len: "8 + 8 * dir_cap ps \<le> length (dir_data d)" and c: "dir_count d \<le> dir_cap ps"
    and n: "get32 (dir_data d) 4 = int (dir_count d)" and "1 \<le> dir_cap ps"
    using assms dir_cap_fits [of ps] by (auto simp: wf_dir_def dir_count_def)
  show "n_entries d = Inr (int (dir_count d))"
    using load_int_get32 [of 4 "dir_data d"] len n \<open>1 \<le> dir_cap ps\<close> by (simp add: n_entries_def)
  show "next_directory d = Inr (dir_next d)"
    using load_int_get32 [of 0 "dir_data d"] len by (simp add: next_directory_def dir_next_def)
qed

lemma get_dir_entry_spec:
  assumes "wf_dir ps d" and "i < dir_cap ps"
  shows "get_dir_entry d (int i) = Inr (dir_entry d i)"
  using load_int_get32 [of "8 + 8 * i" "dir_data d"] load_int_get32 [of "12 + 8 * i" "dir_data d"]
    wf_dir_facts(2) [OF assms(1)] assms(2)
  by (simp add: get_dir_entry_def dir_entry_def)

text \<open>Directories that agree on the header word and the entries below the count.\<close>

lemma dir_list_eqI:
  assumes "dir_count d' = length es" and "\<And>i. i < length es \<Longrightarrow> dir_entry d' i = es ! i"
  shows "dir_list d' = es"
  using assms by (auto intro!: nth_equalityI simp: nth_dir_list)

lemma set_dir_entry_spec:
  assumes "wf_dir ps d" and "i < dir_cap ps" and "wf_entry e"
  shows "\<exists>d'. set_dir_entry d (int i) e = Inr d' \<and> wf_dir ps d' \<and> dir_offset d' = dir_offset d
    \<and> dir_next d' = dir_next d \<and> dir_count d' = dir_count d
    \<and> (\<forall>j < dir_cap ps. dir_entry d' j = (if j = i then e else dir_entry d j))"
proof -
  let ?m = "dir_data d"
  let ?m1 = "blit ?m (8 + 8 * i) (le_bytes 4 (en_offset e))"
  let ?m2 = "blit ?m1 (12 + 8 * i) (le_bytes 4 (en_free_space e))"
  let ?d = "d\<lparr>dir_data := ?m2\<rparr>"
  have len: "16 + 8 * i \<le> length ?m" using wf_dir_facts(2) [OF assms(1)] assms(2) by simp
  then have "set_dir_entry d (int i) e = Inr ?d"
    using store_int_in [of "8 + 8 * int i" ?m "en_offset e"] store_int_in [of "12 + 8 * int i" ?m1 "en_free_space e"]
    by (simp add: set_dir_entry_def nat_add_distrib nat_mult_distrib)
  moreover have hdr: "get32 ?m2 0 = get32 ?m 0" "get32 ?m2 4 = get32 ?m 4"
    using len by (simp_all add: mem_simps)
  moreover have "dir_entry ?d j = (if j = i then e else dir_entry d j)" for j
  proof (cases "j = i")
    case True
    then show ?thesis
      using len assms(3) by (simp add: dir_entry_def mem_simps wf_entry_def)
  next
    case False
    then have "8 + 8 * j + 8 \<le> 8 + 8 * i \<or> 8 + 8 * i + 8 \<le> 8 + 8 * j" by linarith
    then show ?thesis using len False by (auto simp: dir_entry_def mem_simps)
  qed
  ultimately show ?thesis
    using assms(1) len by (intro exI [of _ ?d]) (auto simp: wf_dir_def dir_next_def dir_count_def)
qed

lemma init_directory_page_spec:
  assumes "16 \<le> ps" and "ps < 2 ^ 31"
  shows "\<exists>d. init_directory_page ps off = Inr d \<and> wf_dir ps d \<and> dir_offset d = off
    \<and> dir_next d = 0 \<and> dir_list d = []"
proof -
  let ?m = "blit (replicate (nat ps) 0) 4 (le_bytes 4 0)"
  let ?d = "\<lparr>dir_capacity = int (dir_cap ps), dir_data = ?m, dir_offset = off\<rparr>"
  have "(ps - 8) mod 2 ^ 64 = ps - 8" using assms by (intro mod_pos_pos_trivial) auto
  then have "to_s32 ((ps - 8) mod 2 ^ 64 div 8) = int (dir_cap ps)"
    using assms by (simp add: dir_cap_def to_s32_id)
  moreover have "store_int (replicate (nat ps) 0) 4 0 = Inr ?m"
    using assms store_int_in [of 4 "replicate (nat ps) 0" 0] by simp
  ultimately have run: "init_directory_page ps off = Inr ?d"
    using dir_cap_fits(2) [OF assms(1)] by (simp add: init_directory_page_def)
  have z: "le_val (replicate 4 0) = 0" by (simp add: eval_nat_numeral)
  have g: "get32 ?m 4 = 0" "get32 ?m 0 = 0"
    using assms z by (simp_all add: mem_simps) (simp add: get32_def to_s32_def min_def)
  then have "wf_dir ps ?d" using assms by (simp add: wf_dir_def)
  then show ?thesis
    using run g by (intro exI [of _ ?d]) (simp add: dir_next_def dir_list_def dir_count_def)
qed

lemma set_next_directory_spec:
  assumes "wf_dir ps d" and "int32_range off"
  shows "\<exists>d'. set_next_directory d off = Inr d' \<and> wf_dir ps d' \<and> dir_offset d' = dir_offset d
    \<and> dir_next d' = off \<and> dir_list d' = dir_list d"
proof -
  let ?m = "blit (dir_data d) 0 (le_bytes 4 off)"
  let ?d = "d\<lparr>dir_data := ?m\<rparr>"
  have len: "16 \<le> length (dir_data d)" using wf_dir_facts(2,6) [OF assms(1)] by simp
  have "set_next_directory d off = Inr ?d"
    using store_int_in [of 0 "dir_data d" off] len by (simp add: set_next_directory_def)
  moreover have "get32 ?m 0 = off" "\<And>j. 4 \<le> j \<Longrightarrow> get32 ?m j = get32 (dir_data d) j"
    using len assms(2) by (simp_all add: mem_simps)
  ultimately show ?thesis
    using assms(1) len
    by (intro exI [of _ ?d]) (auto simp: wf_dir_def dir_next_def dir_list_def dir_count_def dir_entry_def)
qed

text \<open>Appending an entry: \<^verbatim>\<open>next_vacant_slot\<close> and the store through the slot it returns.\<close>

lemma append_slot_spec:
  assumes "wf_dir ps d" and "length (dir_list d) < dir_cap ps" and "wf_entry e" and "ps < 2 ^ 31"
  shows "\<exists>d1 d2. next_vacant_slot d = Inr (int (length (dir_list d)), d1)
    \<and> set_dir_entry d1 (int (length (dir_list d))) e = Inr d2 \<and> wf_dir ps d2
    \<and> dir_offset d2 = dir_offset d \<and> dir_next d2 = dir_next d \<and> dir_list d2 = dir_list d @ [e]"
proof -
  let ?n = "dir_count d"
  let ?m = "blit (dir_data d) 4 (le_bytes 4 (int ?n + 1))"
  let ?d1 = "d\<lparr>dir_data := ?m\<rparr>"
  have n: "?n < dir_cap ps" using assms(2) by simp
  have len: "16 \<le> length (dir_data d)" "dir_capacity d = int (dir_cap ps)"
    using wf_dir_facts(2,6) [OF assms(1)] assms(1) by (auto simp: wf_dir_def)
  have "int (dir_cap ps) < 2 ^ 31" using assms(4) by (simp add: dir_cap_def) linarith
  then have r: "int32_range (int ?n + 1)" using n by simp
  have nv: "next_vacant_slot d = Inr (int ?n, ?d1)"
    using wf_dir_facts(3) [OF assms(1)] n len store_int_in [of 4 "dir_data d" "int ?n + 1"]
    by (simp add: next_vacant_slot_def is_full_def)
  have g: "get32 ?m 4 = int ?n + 1" "get32 ?m 0 = get32 (dir_data d) 0"
    "\<And>j. 8 \<le> j \<Longrightarrow> get32 ?m j = get32 (dir_data d) j"
    using len r by (simp_all add: mem_simps)
  then have wf1: "wf_dir ps ?d1" using assms(1) n len by (simp add: wf_dir_def)
  have e1: "dir_count ?d1 = Suc ?n" "dir_next ?d1 = dir_next d" "\<And>j. dir_entry ?d1 j = dir_entry d j"
    using g by (simp_all add: dir_count_def [of ?d1] dir_next_def dir_entry_def)
  obtain d2 where d2: "set_dir_entry ?d1 (int ?n) e = Inr d2" "wf_dir ps d2" "dir_offset d2 = dir_offset d"
    "dir_next d2 = dir_next d" "dir_count d2 = Suc ?n"
    "\<forall>j < dir_cap ps. dir_entry d2 j = (if j = ?n then e else dir_entry d j)"
    using set_dir_entry_spec [OF wf1 n assms(3)] e1 by auto
  have "dir_list d2 = dir_list d @ [e]"
    using d2(5,6) n by (intro dir_list_eqI) (auto simp: nth_append nth_dir_list less_Suc_eq)
  then show ?thesis using nv d2 by auto
qed

text \<open>Overwriting an entry in place.\<close>

lemma update_entry_spec:
  assumes "wf_dir ps d" and "i < length (dir_list d)" and "wf_entry e"
  shows "\<exists>d'. set_dir_entry d (int i) e = Inr d' \<and> wf_dir ps d' \<and> dir_offset d' = dir_offset d
    \<and> dir_next d' = dir_next d \<and> dir_list d' = (dir_list d)[i := e]"
proof -
  have n: "dir_count d \<le> dir_cap ps" using wf_dir_facts(1) [OF assms(1)] .
  then have "i < dir_cap ps" using assms(2) by simp
  then obtain d' where d': "set_dir_entry d (int i) e = Inr d'" "wf_dir ps d'" "dir_offset d' = dir_offset d"
    "dir_next d' = dir_next d" "dir_count d' = dir_count d"
    "\<forall>j < dir_cap ps. dir_entry d' j = (if j = i then e else dir_entry d j)"
    using set_dir_entry_spec [OF assms(1) _ assms(3)] by blast
  have "dir_list d' = (dir_list d)[i := e]"
    using d'(5,6) n assms(2) by (intro dir_list_eqI) (auto simp: nth_list_update nth_dir_list)
  then show ?thesis using d' by blast
qed

text \<open>The search for a page with free space: the first such entry, or \<open>-1\<close>.\<close>

lemma find_free_loop_step:
  assumes "wf_dir ps d" and "i < length (dir_list d)"
  shows "find_free_loop d (int (length (dir_list d))) (int i) =
    (if 0 < en_free_space (dir_list d ! i) then Inr (int i)
     else find_free_loop d (int (length (dir_list d))) (int (Suc i)))"
  using get_dir_entry_spec [OF assms(1), of i] wf_dir_facts(1) [OF assms(1)] assms(2)
  by (subst find_free_loop.simps) (simp add: nth_dir_list add.commute)

lemma find_free_loop_found:
  assumes "wf_dir ps d" and "i \<le> k" and "k < length (dir_list d)" and "0 < en_free_space (dir_list d ! k)"
    and "\<And>j. i \<le> j \<Longrightarrow> j < k \<Longrightarrow> en_free_space (dir_list d ! j) \<le> 0"
  shows "find_free_loop d (int (length (dir_list d))) (int i) = Inr (int k)"
  using assms(2,5)
proof (induction "k - i" arbitrary: i)
  case 0
  then show ?case using find_free_loop_step [OF assms(1,3)] assms(4) by simp
next
  case (Suc x)
  then have "find_free_loop d (int (length (dir_list d))) (int (Suc i)) = Inr (int k)"
    by (intro Suc.hyps(1)) auto
  moreover have "i < k" using Suc.hyps(2) by simp
  ultimately show ?case
    using Suc.prems(2) [of i] find_free_loop_step [OF assms(1), of i] assms(3) by simp
qed

lemma find_free_loop_none:
  assumes "wf_dir ps d" and "\<And>j. i \<le> j \<Longrightarrow> j < length (dir_list d) \<Longrightarrow> en_free_space (dir_list d ! j) \<le> 0"
  shows "find_free_loop d (int (length (dir_list d))) (int i) = Inr (-1)"
  using assms(2)
proof (induction "length (dir_list d) - i" arbitrary: i)
  case 0
  then show ?case by (subst find_free_loop.simps) simp
next
  case (Suc x)
  then have "find_free_loop d (int (length (dir_list d))) (int (Suc i)) = Inr (-1)"
    by (intro Suc.hyps(1)) auto
  moreover have "i < length (dir_list d)" using Suc.hyps(2) by simp
  ultimately show ?case
    using Suc.prems(1) [of i] find_free_loop_step [OF assms(1), of i] by simp
qed

lemma find_free_page_found:
  assumes "wf_dir ps d" and "k < length (dir_list d)" and "0 < en_free_space (dir_list d ! k)"
    and "\<And>j. j < k \<Longrightarrow> en_free_space (dir_list d ! j) \<le> 0"
  shows "find_free_page d = Inr (int k)"
  using find_free_loop_found [OF assms(1), of 0 k] assms wf_dir_facts(3) [OF assms(1)]
  by (simp add: find_free_page_def)

lemma find_free_page_none:
  assumes "wf_dir ps d" and "\<forall>e \<in> set (dir_list d). en_free_space e \<le> 0"
  shows "find_free_page d = Inr (-1)"
  using find_free_loop_none [OF assms(1), of 0] assms(2) wf_dir_facts(3) [OF assms(1)]
  by (simp add: find_free_page_def all_set_conv_all_nth)

lemma wf_entry_dir_list: "wf_dir ps d \<Longrightarrow> e \<in> set (dir_list d) \<Longrightarrow> wf_entry e"
  using get32_range by (auto simp: dir_list_def dir_entry_def wf_entry_def)

end
