(* ===== verification/Heap_File.thy ===== *)
theory Heap_File
  imports Fixed_Page Dir_Page
begin

text \<open>
  \<^verbatim>\<open>a1/heapfile.cpp\<close>: a heap file of fixed-length records. The file is a sequence of blocks of one page
  each; some are directory pages, chained from offset 0, the others data pages named by a directory
  entry. All directories are buffered in memory; of the data pages one is cached.

  A pointer to the cached page is modelled by the field \<open>cached_page\<close> itself, a pointer to a directory
  entry by the index of its directory and its slot. \<^verbatim>\<open>exit(1)\<close> of a short read is \<open>Exit_1\<close>. Writing is
  assumed to succeed (a full disk is not modelled), and freeing memory has no effect on the state.
\<close>

section \<open>Model\<close>

record Heapfile =
  hf_file :: cfile
  hf_page_size :: int
  directory_buffer :: "Directory list"
  cached_page :: "Page option"
  cached_pid :: int
  page_cache_dirty :: bool
  hf_slot_size :: int

definition deref :: "'a option \<Rightarrow> 'a res" where
  "deref p = (case p of None \<Rightarrow> Inl Null_deref | Some x \<Rightarrow> Inr x)"

definition init_heapfile :: "Heapfile \<Rightarrow> int \<Rightarrow> int \<Rightarrow> Heapfile res" where
  "init_heapfile heapfile page_size slot_size =
     bindR (assertR (1001 < page_size)) (\<lambda>_.
     Inr (heapfile\<lparr>hf_page_size := page_size, cached_page := None, cached_pid := -1,
                   page_cache_dirty := False, hf_slot_size := slot_size\<rparr>))"

definition read_block :: "Heapfile \<Rightarrow> int \<Rightarrow> (bytes \<times> Heapfile) res" where
  "read_block heapfile offset =
     (let file = fseek_set (hf_file heapfile) offset;
          (buffer, file) = fread file (nat (hf_page_size heapfile))
      in if int (length buffer) \<noteq> hf_page_size heapfile then Inl Exit_1
         else Inr (buffer, heapfile\<lparr>hf_file := file\<rparr>))"

definition write_block :: "Heapfile \<Rightarrow> bytes \<Rightarrow> int \<Rightarrow> Heapfile res" where
  "write_block heapfile buffer offset =
     bindR (load_bytes buffer 0 (nat (hf_page_size heapfile))) (\<lambda>block.
     Inr (heapfile\<lparr>hf_file := fwrite (fseek_set (hf_file heapfile) offset) block\<rparr>))"

text \<open>\<^verbatim>\<open>fopen(filename, "w+")\<close> gives an empty file; \<^verbatim>\<open>None\<close> stands for a failure to open it.\<close>

definition create_heapfile :: "Heapfile \<Rightarrow> cfile option \<Rightarrow> Heapfile res" where
  "create_heapfile heapfile fopened =
     (case fopened of None \<Rightarrow> Inl Assert_failed
      | Some file \<Rightarrow>
          let heapfile = heapfile\<lparr>hf_file := file\<rparr> in
          bindR (init_directory_page (hf_page_size heapfile) 0) (\<lambda>directory.
          bindR (write_block heapfile (dir_data directory) 0) (\<lambda>heapfile.
          Inr (heapfile\<lparr>directory_buffer := directory_buffer heapfile @ [directory]\<rparr>))))"

text \<open>One round of the loop of \<^verbatim>\<open>open_heapfile\<close>, and the loop, which may not end on a cyclic chain.\<close>

definition open_step :: "Heapfile \<Rightarrow> int \<Rightarrow> (int \<times> Heapfile) res" where
  "open_step heapfile offset =
     bindR (init_directory_page (hf_page_size heapfile) offset) (\<lambda>directory.
     bindR (read_block heapfile offset) (\<lambda>(buffer, heapfile).
     let directory = directory\<lparr>dir_data := buffer\<rparr> in
     bindR (next_directory directory) (\<lambda>next_offset.
     Inr (next_offset, heapfile\<lparr>directory_buffer := directory_buffer heapfile @ [directory]\<rparr>))))"

partial_function (option) open_loop :: "Heapfile \<Rightarrow> int \<Rightarrow> Heapfile res option" where
  "open_loop heapfile offset =
     (case open_step heapfile offset of
        Inl e \<Rightarrow> Some (Inl e)
      | Inr r \<Rightarrow> if fst r \<noteq> 0 then open_loop (snd r) (fst r) else Some (Inr (snd r)))"

definition open_heapfile :: "Heapfile \<Rightarrow> cfile option \<Rightarrow> Heapfile res option" where
  "open_heapfile heapfile fopened =
     (case fopened of None \<Rightarrow> Some (Inl Assert_failed)
      | Some file \<Rightarrow> open_loop (heapfile\<lparr>hf_file := file\<rparr>) 0)"

text \<open>The address of the entry of a page: its directory and its slot there.\<close>

definition get_entry :: "Heapfile \<Rightarrow> int \<Rightarrow> (int \<times> int) res" where
  "get_entry heapfile pid =
     bindR (nth_res (directory_buffer heapfile) 0) (\<lambda>dir0.
     let capacity = dir_capacity dir0;
         dir_no = pid sdiv capacity;
         slot_no = pid smod capacity in
     bindR (nth_res (directory_buffer heapfile) dir_no) (\<lambda>dir.
     bindR (n_entries dir) (\<lambda>n.
     bindR (assertR (slot_no < n)) (\<lambda>_. Inr (dir_no, slot_no)))))"

definition entry_at :: "Heapfile \<Rightarrow> int \<times> int \<Rightarrow> Entry res" where
  "entry_at heapfile addr =
     bindR (nth_res (directory_buffer heapfile) (fst addr)) (\<lambda>dir. get_dir_entry dir (snd addr))"

definition set_entry_at :: "Heapfile \<Rightarrow> int \<times> int \<Rightarrow> Entry \<Rightarrow> Heapfile res" where
  "set_entry_at heapfile addr e =
     bindR (nth_res (directory_buffer heapfile) (fst addr)) (\<lambda>dir.
     bindR (set_dir_entry dir (snd addr) e) (\<lambda>dir.
     bindR (upd_res (directory_buffer heapfile) (fst addr) dir) (\<lambda>dirs.
     Inr (heapfile\<lparr>directory_buffer := dirs\<rparr>))))"

text \<open>``write out cache in buffer if dirty'', the same lines in \<^verbatim>\<open>close_heapfile\<close>, \<^verbatim>\<open>get_page\<close> and \<^verbatim>\<open>alloc_page\<close>.\<close>

definition flush_cache :: "Heapfile \<Rightarrow> Heapfile res" where
  "flush_cache heapfile =
     (if page_cache_dirty heapfile
      then bindR (get_entry heapfile (cached_pid heapfile)) (\<lambda>addr.
           bindR (entry_at heapfile addr) (\<lambda>entry.
           bindR (deref (cached_page heapfile)) (\<lambda>page.
           write_block heapfile (pg_data page) (en_offset entry))))
      else Inr heapfile)"

definition get_page :: "Heapfile \<Rightarrow> int \<Rightarrow> Heapfile res" where
  "get_page heapfile pid =
     (if cached_pid heapfile = pid then Inr heapfile
      else
        bindR (flush_cache heapfile) (\<lambda>heapfile.
        bindR (init_fixed_len_page (hf_page_size heapfile) (hf_slot_size heapfile)) (\<lambda>page.
        bindR (get_entry heapfile pid) (\<lambda>addr.
        bindR (entry_at heapfile addr) (\<lambda>entry.
        bindR (read_block heapfile (en_offset entry)) (\<lambda>(buffer, heapfile).
        Inr (heapfile\<lparr>cached_page := Some (page\<lparr>pg_data := buffer\<rparr>), cached_pid := pid,
                      page_cache_dirty := False\<rparr>)))))))"

definition commit_page :: "Heapfile \<Rightarrow> int \<Rightarrow> Heapfile res" where
  "commit_page heapfile pid =
     bindR (get_entry heapfile (cached_pid heapfile)) (\<lambda>addr.
     bindR (deref (cached_page heapfile)) (\<lambda>page.
     bindR (fixed_len_page_freeslots page) (\<lambda>free.
     bindR (entry_at heapfile addr) (\<lambda>entry.
     bindR (set_entry_at heapfile addr (entry\<lparr>en_free_space := free\<rparr>)) (\<lambda>heapfile.
     bindR (assertR (cached_pid heapfile = pid)) (\<lambda>_.
     Inr (heapfile\<lparr>page_cache_dirty := True\<rparr>)))))))"

text \<open>The loop over the directories of \<^verbatim>\<open>append_entry\<close>; \<open>None\<close>: every directory is full.\<close>

function append_entry_loop :: "Heapfile \<Rightarrow> Entry \<Rightarrow> int \<Rightarrow> (int \<times> Heapfile) option res" where
  "append_entry_loop heapfile entry dir_no =
     (if dir_no < int (length (directory_buffer heapfile))
      then bindR (nth_res (directory_buffer heapfile) dir_no) (\<lambda>dir.
           bindR (is_full dir) (\<lambda>full.
           if \<not> full
           then bindR (next_vacant_slot dir) (\<lambda>(slot_no, dir).
                bindR (set_dir_entry dir slot_no entry) (\<lambda>dir.
                bindR (upd_res (directory_buffer heapfile) dir_no dir) (\<lambda>dirs.
                Inr (Some (dir_no * dir_capacity dir + slot_no, heapfile\<lparr>directory_buffer := dirs\<rparr>)))))
           else append_entry_loop heapfile entry (dir_no + 1)))
      else Inr None)"
  by pat_completeness auto
termination
  by (relation "measure (\<lambda>(heapfile, entry, dir_no). nat (int (length (directory_buffer heapfile)) - dir_no))") auto

declare append_entry_loop.simps [simp del]

definition append_entry :: "Heapfile \<Rightarrow> Entry \<Rightarrow> (int \<times> Heapfile) res" where
  "append_entry heapfile entry =
     (let num_directories = int (length (directory_buffer heapfile)) in
      bindR (append_entry_loop heapfile entry 0) (\<lambda>found.
      case found of Some r \<Rightarrow> Inr r
      | None \<Rightarrow>
          bindR (nth_res (directory_buffer heapfile) (num_directories - 1)) (\<lambda>last_dir.
          let offset = to_s32 (int (fpos (fseek_end (hf_file heapfile)))) in
          bindR (set_next_directory last_dir offset) (\<lambda>last_dir.
          bindR (upd_res (directory_buffer heapfile) (num_directories - 1) last_dir) (\<lambda>dirs.
          bindR (init_directory_page (hf_page_size heapfile) offset) (\<lambda>new_dir.
          bindR (write_block heapfile (dir_data new_dir) offset) (\<lambda>heapfile.
          bindR (next_vacant_slot new_dir) (\<lambda>(slot_no, new_dir).
          bindR (set_dir_entry new_dir slot_no entry) (\<lambda>new_dir.
          Inr (num_directories * dir_capacity new_dir + slot_no,
               heapfile\<lparr>directory_buffer := dirs @ [new_dir]\<rparr>))))))))))"

definition alloc_page :: "Heapfile \<Rightarrow> (int \<times> Heapfile) res" where
  "alloc_page heapfile =
     bindR (init_fixed_len_page (hf_page_size heapfile) (hf_slot_size heapfile)) (\<lambda>page.
     let offset = to_s32 (int (fpos (fseek_end (hf_file heapfile)))) in
     bindR (fixed_len_page_freeslots page) (\<lambda>free.
     bindR (write_block heapfile (pg_data page) offset) (\<lambda>heapfile.
     bindR (append_entry heapfile \<lparr>en_offset = offset, en_free_space = free\<rparr>) (\<lambda>(pid, heapfile).
     bindR (flush_cache heapfile) (\<lambda>heapfile.
     Inr (pid, heapfile\<lparr>cached_page := Some page, cached_pid := pid, page_cache_dirty := False\<rparr>))))))"

function vacant_loop :: "Directory list \<Rightarrow> int \<Rightarrow> int res" where
  "vacant_loop dirs dir_no =
     (if dir_no < int (length dirs)
      then bindR (nth_res dirs dir_no) (\<lambda>dir.
           bindR (find_free_page dir) (\<lambda>slot_no.
           if slot_no \<noteq> -1 then Inr (dir_no * dir_capacity dir + slot_no)
           else vacant_loop dirs (dir_no + 1)))
      else Inr (-1))"
  by pat_completeness auto
termination
  by (relation "measure (\<lambda>(dirs, dir_no). nat (int (length dirs) - dir_no))") auto

declare vacant_loop.simps [simp del]

definition vacant_page_id :: "Heapfile \<Rightarrow> int res" where
  "vacant_page_id heapfile = vacant_loop (directory_buffer heapfile) 0"

definition get_free_pid :: "Heapfile \<Rightarrow> (int \<times> Heapfile) res" where
  "get_free_pid heapfile =
     bindR (vacant_page_id heapfile) (\<lambda>pid.
     if pid = -1 then alloc_page heapfile else Inr (pid, heapfile))"

text \<open>
  \<^verbatim>\<open>put_record\<close> with its sanity check: the second \<^verbatim>\<open>get_page\<close> returns the same pointer exactly when
  the page is still the cached one.
\<close>

definition put_record :: "Heapfile \<Rightarrow> Record \<Rightarrow> Heapfile res" where
  "put_record heapfile rec =
     bindR (get_free_pid heapfile) (\<lambda>(pid, heapfile).
     bindR (get_page heapfile pid) (\<lambda>heapfile.
     bindR (deref (cached_page heapfile)) (\<lambda>page.
     bindR (add_fixed_len_page page rec) (\<lambda>(_, page).
     let heapfile = heapfile\<lparr>cached_page := Some page\<rparr>; index = pg_page_size page - 1 in
     bindR (nth_res (pg_data page) index) (\<lambda>byte.
     bindR (commit_page heapfile pid) (\<lambda>heapfile.
     let same_pointer = (cached_pid heapfile = pid) in
     bindR (get_page heapfile pid) (\<lambda>heapfile.
     bindR (deref (cached_page heapfile)) (\<lambda>page2.
     bindR (nth_res (pg_data page2) index) (\<lambda>byte2.
     bindR (assertR (byte = byte2)) (\<lambda>_.
     bindR (assertR same_pointer) (\<lambda>_. Inr heapfile)))))))))))"

definition get_record :: "Heapfile \<Rightarrow> int \<times> int \<Rightarrow> nat \<Rightarrow> (Record \<times> Heapfile) res" where
  "get_record heapfile rid n =
     bindR (get_page heapfile (fst rid)) (\<lambda>heapfile.
     bindR (deref (cached_page heapfile)) (\<lambda>page.
     bindR (read_fixed_len_page page (snd rid) n) (\<lambda>rec. Inr (rec, heapfile))))"

definition update_record :: "Heapfile \<Rightarrow> int \<times> int \<Rightarrow> Record \<Rightarrow> Heapfile res" where
  "update_record heapfile rid rec =
     bindR (get_page heapfile (fst rid)) (\<lambda>heapfile.
     bindR (deref (cached_page heapfile)) (\<lambda>page.
     bindR (write_fixed_len_page page (snd rid) rec) (\<lambda>page.
     commit_page (heapfile\<lparr>cached_page := Some page\<rparr>) (fst rid))))"

definition delete_record :: "Heapfile \<Rightarrow> int \<times> int \<Rightarrow> Heapfile res" where
  "delete_record heapfile rid =
     bindR (get_page heapfile (fst rid)) (\<lambda>heapfile.
     bindR (deref (cached_page heapfile)) (\<lambda>page.
     bindR (delete_fixed_len_page page (snd rid)) (\<lambda>page.
     commit_page (heapfile\<lparr>cached_page := Some page\<rparr>) (fst rid))))"

text \<open>
  \<^verbatim>\<open>close_heapfile\<close> leaves the file behind. The loop over the entries marked \<^verbatim>\<open>DEBUG PURPOSE\<close> computes a
  number that is not used and is left out.
\<close>

fun write_dirs :: "Heapfile \<Rightarrow> Directory list \<Rightarrow> Heapfile res" where
  "write_dirs heapfile [] = Inr heapfile"
| "write_dirs heapfile (dir # dirs) =
     bindR (write_block heapfile (dir_data dir) (dir_offset dir)) (\<lambda>heapfile. write_dirs heapfile dirs)"

definition close_heapfile :: "Heapfile \<Rightarrow> cfile res" where
  "close_heapfile heapfile =
     bindR (flush_cache heapfile) (\<lambda>heapfile.
     bindR (write_dirs heapfile (directory_buffer heapfile)) (\<lambda>heapfile. Inr (hf_file heapfile)))"

end
