(* ===== verification/Heap_Inv.thy ===== *)
theory Heap_Inv
  imports Heap_File
begin

text \<open>
  The invariant of a heap file and what the page-level operations of \<^verbatim>\<open>a1/heapfile.cpp\<close> keep of it: the
  chained directories, disjoint blocks of the file, a cache that agrees with the disk unless it is
  dirty, and free counts in the directory that agree with the pages. The observable state is
  \<open>heap_view\<close>, the list of the current data pages in page-id order.
\<close>

section \<open>Blocks\<close>

abbreviation hcontents :: "Heapfile \<Rightarrow> bytes" where
  "hcontents hf \<equiv> fcontents (hf_file hf)"

lemma read_block_spec:
  assumes "0 \<le> off" and "off + hf_page_size hf \<le> int (length (hcontents hf))" and "0 \<le> hf_page_size hf"
  shows "\<exists>f. read_block hf off = Inr (take (nat (hf_page_size hf)) (drop (nat off) (hcontents hf)), hf\<lparr>hf_file := f\<rparr>)
    \<and> fcontents f = hcontents hf"
  using assms by (auto simp: read_block_def fread_def fseek_set_def Let_def)

lemma read_block_short:
  assumes "0 \<le> off" and "int (length (hcontents hf)) < off + hf_page_size hf" and "0 < hf_page_size hf"
  shows "read_block hf off = Inl Exit_1"
  using assms by (auto simp: read_block_def fread_def fseek_set_def Let_def)

lemma write_block_spec:
  assumes "0 \<le> off" and "off \<le> int (length (hcontents hf))" and "int (length buf) = hf_page_size hf"
  shows "\<exists>f. write_block hf buf off = Inr (hf\<lparr>hf_file := f\<rparr>) \<and> fcontents f = blit (hcontents hf) (nat off) buf"
  using assms by (auto simp: write_block_def load_bytes_def fseek_set_def fwrite_def)

section \<open>The directory buffer as one list of entries\<close>

definition entries :: "Heapfile \<Rightarrow> Entry list" where
  "entries hf = concat (map dir_list (directory_buffer hf))"

definition dirs_ok :: "int \<Rightarrow> Directory list \<Rightarrow> bool" where
  "dirs_ok ps ds \<longleftrightarrow> ds \<noteq> [] \<and> (\<forall>d \<in> set ds. wf_dir ps d)
     \<and> dir_offset (hd ds) = 0 \<and> dir_next (last ds) = 0
     \<and> (\<forall>i. Suc i < length ds \<longrightarrow> length (dir_list (ds ! i)) = dir_cap ps
          \<and> dir_next (ds ! i) = dir_offset (ds ! Suc i) \<and> dir_next (ds ! i) \<noteq> 0)"

lemma concat_full_nth:
  assumes "\<forall>x \<in> set (butlast xss). length x = c" and "i < length xss" and "j < length (xss ! i)" and "j < c"
  shows "i * c + j < length (concat xss) \<and> concat xss ! (i * c + j) = xss ! i ! j"
  using assms
proof (induction xss arbitrary: i)
  case (Cons x xss)
  show ?case
  proof (cases i)
    case 0
    then show ?thesis using Cons.prems by (simp add: nth_append)
  next
    case (Suc i')
    then have ne: "xss \<noteq> []" using Cons.prems by auto
    then have "length x = c" "\<forall>x \<in> set (butlast xss). length x = c" using Cons.prems(1) by auto
    then show ?thesis using Cons.IH [of i'] Cons.prems Suc by (simp add: nth_append)
  qed
qed simp

lemma concat_full_div:
  assumes "\<forall>x \<in> set (butlast xss). length x = c" and "\<forall>x \<in> set xss. length x \<le> c" and "k < length (concat xss)"
  shows "k div c < length xss \<and> k mod c < length (xss ! (k div c)) \<and> concat xss ! k = xss ! (k div c) ! (k mod c)"
  using assms
proof (induction xss arbitrary: k)
  case (Cons x xss)
  have "\<exists>y \<in> set (x # xss). y \<noteq> []"
    using Cons.prems(3) by (metis concat_eq_Nil_conv length_0_conv not_less_zero)
  then have c: "0 < c" using Cons.prems(2) by (cases "c = 0") auto
  show ?case
  proof (cases "k < length x")
    case True
    then have "k < c" using Cons.prems(2) by auto
    then show ?thesis using True by (simp add: nth_append)
  next
    case False
    then have ne: "xss \<noteq> []" using Cons.prems(3) by auto
    then have x: "length x = c" and f: "\<forall>x \<in> set (butlast xss). length x = c" using Cons.prems(1) by auto
    then have k: "c \<le> k" using False by simp
    have "(k - c) div c < length xss \<and> (k - c) mod c < length (xss ! ((k - c) div c))
      \<and> concat xss ! (k - c) = xss ! ((k - c) div c) ! ((k - c) mod c)"
      using Cons.prems f x k by (intro Cons.IH) auto
    moreover have "k div c = Suc ((k - c) div c)" "k mod c = (k - c) mod c"
      using k c by (simp_all add: le_div_geq le_mod_geq)
    ultimately show ?thesis using False x by (simp add: nth_append)
  qed
qed simp

lemma concat_full_update:
  assumes "\<forall>x \<in> set (butlast xss). length x = c" and "i < length xss" and "j < length (xss ! i)" and "j < c"
  shows "concat (xss[i := (xss ! i)[j := v]]) = (concat xss)[i * c + j := v]"
  using assms
proof (induction xss arbitrary: i)
  case (Cons x xss)
  show ?case
  proof (cases i)
    case 0
    then show ?thesis using Cons.prems by (simp add: list_update_append)
  next
    case (Suc i')
    then have ne: "xss \<noteq> []" using Cons.prems by auto
    then have "length x = c" "\<forall>x \<in> set (butlast xss). length x = c" using Cons.prems(1) by auto
    then show ?thesis using Cons.IH [of i'] Cons.prems Suc by (simp add: list_update_append)
  qed
qed simp

lemma dirs_ok_lists:
  assumes "dirs_ok ps ds"
  shows "\<forall>x \<in> set (butlast (map dir_list ds)). length x = dir_cap ps"
    and "\<forall>x \<in> set (map dir_list ds). length x \<le> dir_cap ps" and "1 \<le> dir_cap ps"
    and "dir_capacity (ds ! 0) = int (dir_cap ps)"
proof -
  have wf: "wf_dir ps d" if "d \<in> set ds" for d using assms that by (simp add: dirs_ok_def)
  show "\<forall>x \<in> set (butlast (map dir_list ds)). length x = dir_cap ps"
    using assms by (auto simp: dirs_ok_def map_butlast [symmetric] in_set_conv_nth nth_butlast)
  show "\<forall>x \<in> set (map dir_list ds). length x \<le> dir_cap ps" using wf wf_dir_facts(1) by auto
  have "ds ! 0 \<in> set ds" using assms by (simp add: dirs_ok_def)
  then show "1 \<le> dir_cap ps" "dir_capacity (ds ! 0) = int (dir_cap ps)"
    using wf [THEN wf_dir_facts(6)] wf by (auto simp: wf_dir_def)
qed

lemma nth_entries:
  assumes "dirs_ok ps (directory_buffer hf)" and "k < length (entries hf)"
  defines "i \<equiv> k div dir_cap ps" and "j \<equiv> k mod dir_cap ps"
  shows "i < length (directory_buffer hf)" and "j < length (dir_list (directory_buffer hf ! i))"
    and "entries hf ! k = dir_list (directory_buffer hf ! i) ! j" and "j < dir_cap ps" and "i * dir_cap ps + j = k"
  using concat_full_div [OF dirs_ok_lists(1,2) [OF assms(1)], of k] assms(2) dirs_ok_lists(3) [OF assms(1)]
  by (auto simp: entries_def i_def j_def)

lemma get_entry_spec:
  assumes ok: "dirs_ok ps (directory_buffer hf)" and k: "k < length (entries hf)"
  shows "get_entry hf (int k) = Inr (int (k div dir_cap ps), int (k mod dir_cap ps))"
    and "entry_at hf (int (k div dir_cap ps), int (k mod dir_cap ps)) = Inr (entries hf ! k)"
proof -
  let ?c = "dir_cap ps" and ?ds = "directory_buffer hf"
  note n = nth_entries [OF assms]
  have wf: "wf_dir ps (?ds ! (k div ?c))" using ok n(1) by (auto simp: dirs_ok_def)
  have "?ds \<noteq> []" using n(1) by auto
  then have "nth_res ?ds 0 = Inr (?ds ! 0)" by (simp add: nth_res_def)
  moreover have "int k sdiv int ?c = int (k div ?c)" "int k smod int ?c = int (k mod ?c)"
    using dirs_ok_lists(3) [OF ok] by (simp_all add: sdiv_nonneg smod_nonneg zdiv_int zmod_int)
  ultimately show "get_entry hf (int k) = Inr (int (k div ?c), int (k mod ?c))"
    using n wf_dir_facts(3) [OF wf] dirs_ok_lists(4) [OF ok] by (simp add: get_entry_def nth_res_Inr)
  show "entry_at hf (int (k div ?c), int (k mod ?c)) = Inr (entries hf ! k)"
    using n get_dir_entry_spec [OF wf n(4)] by (simp add: entry_at_def nth_res_Inr nth_dir_list)
qed

text \<open>A page id that no entry has: the assertion fails, or the vector is indexed out of bounds.\<close>

lemma get_entry_invalid:
  assumes ok: "dirs_ok ps (directory_buffer hf)" and k: "length (entries hf) \<le> k"
  shows "get_entry hf (int k) =
    Inl (if k div dir_cap ps < length (directory_buffer hf) then Assert_failed else Out_of_bounds)"
proof -
  let ?c = "dir_cap ps" and ?ds = "directory_buffer hf"
  let ?i = "k div ?c" and ?j = "k mod ?c"
  have j: "?j < ?c" and kij: "?i * ?c + ?j = k" using dirs_ok_lists(3) [OF ok] by auto
  have "?ds \<noteq> []" using ok by (simp add: dirs_ok_def)
  then have "nth_res ?ds 0 = Inr (?ds ! 0)" by (simp add: nth_res_def)
  moreover have "int k sdiv int ?c = int ?i" "int k smod int ?c = int ?j"
    using dirs_ok_lists(3) [OF ok] by (simp_all add: sdiv_nonneg smod_nonneg zdiv_int zmod_int)
  moreover have "nth_res ?ds (int ?i) = (if ?i < length ?ds then Inr (?ds ! ?i) else Inl Out_of_bounds)"
    by (simp add: nth_res_def)
  moreover have "n_entries (?ds ! ?i) = Inr (int (length (dir_list (?ds ! ?i)))) \<and> length (dir_list (?ds ! ?i)) \<le> ?j"
    if "?i < length ?ds"
  proof -
    have "wf_dir ps (?ds ! ?i)" using ok that by (auto simp: dirs_ok_def)
    moreover have "\<not> ?j < length (map dir_list ?ds ! ?i)"
      using concat_full_nth [OF dirs_ok_lists(1) [OF ok], of ?i ?j] that j k kij by (auto simp: entries_def)
    ultimately show ?thesis using that wf_dir_facts(3) by (simp add: not_less)
  qed
  ultimately show ?thesis
    using dirs_ok_lists(4) [OF ok] by (auto simp: get_entry_def assertR_def)
qed

lemma dirs_ok_update:
  assumes "dirs_ok ps ds" and "i < length ds" and "wf_dir ps d" and "dir_offset d = dir_offset (ds ! i)"
    and "dir_next d = dir_next (ds ! i)" and "length (dir_list d) = length (dir_list (ds ! i))"
  shows "dirs_ok ps (ds[i := d])"
proof -
  have "dir_offset (hd (ds[i := d])) = 0"
    using assms by (cases ds; cases i) (auto simp: dirs_ok_def)
  moreover have "dir_next (last (ds[i := d])) = 0"
    using assms by (auto simp: dirs_ok_def last_conv_nth nth_list_update)
  moreover have "\<forall>x \<in> set (ds[i := d]). wf_dir ps x"
    using assms(1,3) set_update_subset_insert [of ds i d] by (auto simp: dirs_ok_def)
  moreover have "\<forall>j. Suc j < length ds \<longrightarrow> length (dir_list (ds[i := d] ! j)) = dir_cap ps
      \<and> dir_next (ds[i := d] ! j) = dir_offset (ds[i := d] ! Suc j) \<and> dir_next (ds[i := d] ! j) \<noteq> 0"
    using assms by (auto simp: dirs_ok_def nth_list_update)
  ultimately show ?thesis
    using assms(1) unfolding dirs_ok_def length_list_update list_update_nonempty by blast
qed

lemma set_entry_at_spec:
  assumes ok: "dirs_ok ps (directory_buffer hf)" and k: "k < length (entries hf)" and e: "wf_entry e"
  shows "\<exists>ds. set_entry_at hf (int (k div dir_cap ps), int (k mod dir_cap ps)) e = Inr (hf\<lparr>directory_buffer := ds\<rparr>)
    \<and> dirs_ok ps ds \<and> map dir_offset ds = map dir_offset (directory_buffer hf)
    \<and> concat (map dir_list ds) = (entries hf)[k := e]"
proof -
  let ?c = "dir_cap ps" and ?ds = "directory_buffer hf"
  let ?i = "k div ?c" and ?j = "k mod ?c"
  note n = nth_entries [OF ok k]
  have wf: "wf_dir ps (?ds ! ?i)" using ok n(1) by (auto simp: dirs_ok_def)
  obtain d where d: "set_dir_entry (?ds ! ?i) (int ?j) e = Inr d" "wf_dir ps d" "dir_offset d = dir_offset (?ds ! ?i)"
    "dir_next d = dir_next (?ds ! ?i)" "dir_list d = (dir_list (?ds ! ?i))[?j := e]"
    using update_entry_spec [OF wf n(2) e] by blast
  let ?ds' = "?ds[?i := d]"
  have "set_entry_at hf (int ?i, int ?j) e = Inr (hf\<lparr>directory_buffer := ?ds'\<rparr>)"
    using d(1) n(1) by (simp add: set_entry_at_def nth_res_Inr upd_res_def)
  moreover have "dirs_ok ps ?ds'" using ok n(1) d by (intro dirs_ok_update) auto
  moreover have "map dir_offset ?ds' = map dir_offset ?ds"
    using d(3) n(1) by (simp add: map_update list_update_same_conv)
  moreover have "concat (map dir_list ?ds') = (entries hf)[k := e]"
    using concat_full_update [OF dirs_ok_lists(1) [OF ok], of ?i ?j e] n d(5)
    by (simp add: entries_def map_update)
  ultimately show ?thesis by blast
qed

section \<open>The invariant\<close>

definition blk :: "int \<Rightarrow> bytes \<Rightarrow> int \<Rightarrow> bytes" where
  "blk ps F off = take (nat ps) (drop (nat off) F)"

lemma blk_blit_same:
  "0 \<le> off \<Longrightarrow> length buf = nat ps \<Longrightarrow> off \<le> int (length F) \<Longrightarrow> blk ps (blit F (nat off) buf) off = buf"
  by (simp add: blk_def blit_def)

lemma multiples_apart: "p dvd a \<Longrightarrow> p dvd b \<Longrightarrow> a < b \<Longrightarrow> 0 < p \<Longrightarrow> a + p \<le> b" for a b p :: int
  by (metis add.commute dvd_diff le_diff_eq zdvd_imp_le zless_iff_Suc_zadd diff_gt_0_iff_gt)

lemma blk_blit_other:
  assumes "ps dvd off" and "ps dvd off'" and "off \<noteq> off'" and "0 < ps" and "0 \<le> off" and "0 \<le> off'"
    and "length buf = nat ps" and "off \<le> int (length F)" and "off' + ps \<le> int (length F)"
  shows "blk ps (blit F (nat off) buf) off' = blk ps F off'"
proof (cases "off < off'")
  case True
  then have "off + ps \<le> off'" using assms multiples_apart by blast
  then show ?thesis
    unfolding blk_def using assms True by (intro blit_disjoint) auto
next
  case False
  then have "off' + ps \<le> off" using assms multiples_apart [of ps off' off] by auto
  then show ?thesis
    unfolding blk_def blit_def using assms by (simp add: take_drop nat_add_distrib [symmetric])
qed

definition offs_ok :: "int \<Rightarrow> bytes \<Rightarrow> int list \<Rightarrow> bool" where
  "offs_ok ps F offs \<longleftrightarrow> distinct offs \<and> ps dvd int (length F)
     \<and> (\<forall>off \<in> set offs. 0 \<le> off \<and> ps dvd off \<and> off + ps \<le> int (length F))"

definition heap_offsets :: "Heapfile \<Rightarrow> int list" where
  "heap_offsets hf = map dir_offset (directory_buffer hf) @ map en_offset (entries hf)"

definition disk_page :: "Heapfile \<Rightarrow> nat \<Rightarrow> Page" where
  "disk_page hf k = \<lparr>pg_data = blk (hf_page_size hf) (hcontents hf) (en_offset (entries hf ! k)),
     pg_page_size = hf_page_size hf, pg_slot_size = hf_slot_size hf\<rparr>"

text \<open>The current contents of a page: the cached copy if there is one.\<close>

definition heap_page :: "Heapfile \<Rightarrow> nat \<Rightarrow> Page" where
  "heap_page hf k = (if cached_pid hf = int k then the (cached_page hf) else disk_page hf k)"

definition heap_view :: "Heapfile \<Rightarrow> Page list" where
  "heap_view hf = map (heap_page hf) [0..<length (entries hf)]"

definition geom_ok :: "Heapfile \<Rightarrow> bool" where
  "geom_ok hf \<longleftrightarrow> 1001 < hf_page_size hf \<and> hf_page_size hf < 2 ^ 31
     \<and> 0 < hf_slot_size hf \<and> hf_slot_size hf < hf_page_size hf"

definition page_of :: "Heapfile \<Rightarrow> Page \<Rightarrow> bool" where
  "page_of hf p \<longleftrightarrow> wf_page p \<and> pg_page_size p = hf_page_size hf \<and> pg_slot_size p = hf_slot_size hf"

definition cache_ok :: "Heapfile \<Rightarrow> bool" where
  "cache_ok hf \<longleftrightarrow>
     (if cached_pid hf = -1 then cached_page hf = None \<and> \<not> page_cache_dirty hf
      else 0 \<le> cached_pid hf \<and> cached_pid hf < int (length (entries hf))
        \<and> (\<exists>p. cached_page hf = Some p \<and> page_of hf p
             \<and> (\<not> page_cache_dirty hf \<longrightarrow> p = disk_page hf (nat (cached_pid hf)))))"

definition heap_inv :: "Heapfile \<Rightarrow> bool" where
  "heap_inv hf \<longleftrightarrow> geom_ok hf \<and> dirs_ok (hf_page_size hf) (directory_buffer hf)
     \<and> offs_ok (hf_page_size hf) (hcontents hf) (heap_offsets hf) \<and> cache_ok hf
     \<and> (\<forall>k < length (entries hf). fixed_len_page_freeslots (heap_page hf k) = Inr (en_free_space (entries hf ! k)))"

lemma heap_invD:
  assumes "heap_inv hf"
  shows "geom_ok hf" and "dirs_ok (hf_page_size hf) (directory_buffer hf)"
    and "offs_ok (hf_page_size hf) (hcontents hf) (heap_offsets hf)" and "cache_ok hf"
    and "k < length (entries hf) \<Longrightarrow> fixed_len_page_freeslots (heap_page hf k) = Inr (en_free_space (entries hf ! k))"
  using assms by (simp_all add: heap_inv_def)

lemma length_heap_view [simp]: "length (heap_view hf) = length (entries hf)"
  by (simp add: heap_view_def)

lemma nth_heap_view [simp]: "k < length (entries hf) \<Longrightarrow> heap_view hf ! k = heap_page hf k"
  by (simp add: heap_view_def)

lemma entry_offset:
  assumes "heap_inv hf" and "k < length (entries hf)"
  defines "off \<equiv> en_offset (entries hf ! k)"
  shows "0 \<le> off" and "hf_page_size hf dvd off" and "off + hf_page_size hf \<le> int (length (hcontents hf))"
proof -
  have "off \<in> set (heap_offsets hf)" using assms(2) by (simp add: heap_offsets_def off_def)
  then show "0 \<le> off" and "hf_page_size hf dvd off" and "off + hf_page_size hf \<le> int (length (hcontents hf))"
    using heap_invD(3) [OF assms(1)] by (auto simp: offs_ok_def)
qed

lemma entry_offset_neq:
  assumes "heap_inv hf" and "j < length (entries hf)" and "k < length (entries hf)" and "j \<noteq> k"
  shows "en_offset (entries hf ! j) \<noteq> en_offset (entries hf ! k)"
proof -
  have "distinct (map en_offset (entries hf))"
    using heap_invD(3) [OF assms(1)] by (simp add: offs_ok_def heap_offsets_def)
  then show ?thesis using assms(2-4) by (auto dest: nth_eq_iff_index_eq [of _ j k])
qed

lemma disk_page_of: "heap_inv hf \<Longrightarrow> k < length (entries hf) \<Longrightarrow> page_of hf (disk_page hf k)"
  using entry_offset [of hf k] heap_invD(1) [of hf]
  by (simp add: page_of_def disk_page_def wf_page_def geom_ok_def blk_def)

lemma heap_page_of: "heap_inv hf \<Longrightarrow> k < length (entries hf) \<Longrightarrow> page_of hf (heap_page hf k)"
  using disk_page_of [of hf k] heap_invD(4) [of hf] by (auto simp: heap_page_def cache_ok_def split: if_splits)

lemma cache_cases:
  assumes "heap_inv hf" and "cached_pid hf \<noteq> -1"
  obtains c p where "cached_pid hf = int c" and "c < length (entries hf)" and "cached_page hf = Some p"
    and "page_of hf p"
proof -
  from assms have "0 \<le> cached_pid hf" "cached_pid hf < int (length (entries hf))"
    and "\<exists>p. cached_page hf = Some p \<and> page_of hf p"
    using heap_invD(4) [OF assms(1)] by (auto simp: cache_ok_def)
  then show ?thesis using that [of "nat (cached_pid hf)"] by auto
qed


section \<open>The page cache\<close>

text \<open>The invariant reads the file only through its contents.\<close>

lemma file_irrelevant [simp]:
  "entries (hf\<lparr>hf_file := f\<rparr>) = entries hf" "heap_offsets (hf\<lparr>hf_file := f\<rparr>) = heap_offsets hf"
  "geom_ok (hf\<lparr>hf_file := f\<rparr>) = geom_ok hf" "page_of (hf\<lparr>hf_file := f\<rparr>) p = page_of hf p"
  by (simp_all add: entries_def heap_offsets_def geom_ok_def page_of_def)

lemma cache_irrelevant [simp]:
  "entries (hf\<lparr>cached_page := cp, cached_pid := pid, page_cache_dirty := b\<rparr>) = entries hf"
  "heap_offsets (hf\<lparr>cached_page := cp, cached_pid := pid, page_cache_dirty := b\<rparr>) = heap_offsets hf"
  "geom_ok (hf\<lparr>cached_page := cp, cached_pid := pid, page_cache_dirty := b\<rparr>) = geom_ok hf"
  "page_of (hf\<lparr>cached_page := cp, cached_pid := pid, page_cache_dirty := b\<rparr>) p = page_of hf p"
  "disk_page (hf\<lparr>cached_page := cp, cached_pid := pid, page_cache_dirty := b\<rparr>) k = disk_page hf k"
  by (simp_all add: entries_def heap_offsets_def geom_ok_def page_of_def disk_page_def)

lemma offs_ok_length: "offs_ok ps F offs \<Longrightarrow> length F' = length F \<Longrightarrow> offs_ok ps F' offs"
  by (simp add: offs_ok_def)

text \<open>After a flush every page is on disk as the cache shows it, and nothing else has changed.\<close>

lemma flush_cache_spec:
  assumes inv: "heap_inv hf"
  shows "\<exists>f. flush_cache hf = Inr (hf\<lparr>hf_file := f\<rparr>) \<and> length (fcontents f) = length (hcontents hf)
    \<and> (\<forall>k < length (entries hf). disk_page (hf\<lparr>hf_file := f\<rparr>) k = heap_page hf k)"
proof (cases "page_cache_dirty hf")
  case False
  then have "disk_page hf k = heap_page hf k" for k
    using heap_invD(4) [OF inv] by (auto simp: heap_page_def cache_ok_def split: if_splits)
  then show ?thesis using False by (intro exI [of _ "hf_file hf"]) (simp add: flush_cache_def)
next
  case True
  let ?ps = "hf_page_size hf"
  obtain c p where c: "cached_pid hf = int c" "c < length (entries hf)" "cached_page hf = Some p" "page_of hf p"
    using cache_cases [OF inv] heap_invD(4) [OF inv] True by (metis cache_ok_def)
  let ?off = "en_offset (entries hf ! c)"
  have ps: "0 < ?ps" and len: "length (pg_data p) = nat ?ps"
    using heap_invD(1) [OF inv] c(4) by (auto simp: geom_ok_def page_of_def wf_page_def)
  note off = entry_offset [OF inv]
  obtain f where f: "write_block hf (pg_data p) ?off = Inr (hf\<lparr>hf_file := f\<rparr>)"
    "fcontents f = blit (hcontents hf) (nat ?off) (pg_data p)"
    using write_block_spec [of ?off hf "pg_data p"] off [OF c(2)] ps len by auto
  have "flush_cache hf = Inr (hf\<lparr>hf_file := f\<rparr>)"
    using True c f(1) get_entry_spec [OF heap_invD(2) [OF inv] c(2)] by (simp add: flush_cache_def deref_def)
  moreover have "length (fcontents f) = length (hcontents hf)"
    using f(2) off [OF c(2)] ps len by simp
  moreover have "disk_page (hf\<lparr>hf_file := f\<rparr>) k = heap_page hf k" if k: "k < length (entries hf)" for k
  proof (cases "k = c")
    case True
    then have "blk ?ps (fcontents f) (en_offset (entries hf ! k)) = pg_data p"
      unfolding f(2) using off [OF c(2)] len ps by (simp add: blk_blit_same)
    then show ?thesis using c True by (simp add: disk_page_def heap_page_def page_of_def)
  next
    case False
    then have "blk ?ps (fcontents f) (en_offset (entries hf ! k)) = blk ?ps (hcontents hf) (en_offset (entries hf ! k))"
      unfolding f(2) using off [OF c(2)] off [OF k] len ps entry_offset_neq [OF inv c(2) k]
      by (intro blk_blit_other) auto
    then show ?thesis using c False by (simp add: disk_page_def heap_page_def)
  qed
  ultimately show ?thesis by blast
qed

text \<open>A state in which every page is on disk and one of them is in the cache, clean.\<close>

lemma cache_load:
  assumes inv: "heap_inv hf" and k: "k < length (entries hf)"
    and len: "length (fcontents g) = length (hcontents hf)"
    and disk: "\<And>j. j < length (entries hf) \<Longrightarrow> disk_page (hf\<lparr>hf_file := g\<rparr>) j = heap_page hf j"
  defines "hf' \<equiv> hf\<lparr>hf_file := g, cached_page := Some (heap_page hf k), cached_pid := int k, page_cache_dirty := False\<rparr>"
  shows "heap_inv hf'" and "heap_view hf' = heap_view hf" and "entries hf' = entries hf"
proof -
  have dp: "disk_page hf' j = heap_page hf j" if "j < length (entries hf)" for j
    using disk [OF that] by (simp add: hf'_def)
  then have hp: "heap_page hf' j = heap_page hf j" if "j < length (entries hf)" for j
    using that by (auto simp: heap_page_def hf'_def)
  have same: "entries hf' = entries hf" "heap_offsets hf' = heap_offsets hf" "hcontents hf' = fcontents g"
    "geom_ok hf' = geom_ok hf" "hf_page_size hf' = hf_page_size hf" "directory_buffer hf' = directory_buffer hf" "page_of hf' = page_of hf"
    by (auto simp: hf'_def entries_def heap_offsets_def geom_ok_def page_of_def fun_eq_iff)
  have "cache_ok hf'"
    using k dp [OF k] heap_page_of [OF inv k] by (simp add: cache_ok_def same) (simp add: hf'_def)
  then show "heap_inv hf'"
    using inv hp len offs_ok_length [OF heap_invD(3) [OF inv], of "fcontents g"] unfolding heap_inv_def same by auto
  show "heap_view hf' = heap_view hf" by (simp add: heap_view_def same hp)
  show "entries hf' = entries hf" by (rule same(1))
qed

text \<open>Loading a page into the cache leaves the view of the heap unchanged.\<close>

lemma get_page_spec:
  assumes inv: "heap_inv hf" and k: "k < length (entries hf)"
  shows "\<exists>hf'. get_page hf (int k) = Inr hf' \<and> heap_inv hf' \<and> cached_pid hf' = int k
    \<and> cached_page hf' = Some (heap_page hf k) \<and> heap_view hf' = heap_view hf
    \<and> entries hf' = entries hf \<and> directory_buffer hf' = directory_buffer hf
    \<and> hf_page_size hf' = hf_page_size hf \<and> hf_slot_size hf' = hf_slot_size hf
    \<and> length (hcontents hf') = length (hcontents hf)"
proof (cases "cached_pid hf = int k")
  case True
  then have "cached_page hf = Some (heap_page hf k)"
    using heap_invD(4) [OF inv] by (auto simp: cache_ok_def heap_page_def split: if_splits)
  then show ?thesis using True inv by (intro exI [of _ hf]) (simp add: get_page_def)
next
  case False
  let ?ps = "hf_page_size hf" and ?ss = "hf_slot_size hf"
  obtain f where f: "flush_cache hf = Inr (hf\<lparr>hf_file := f\<rparr>)" "length (fcontents f) = length (hcontents hf)"
    "\<And>j. j < length (entries hf) \<Longrightarrow> disk_page (hf\<lparr>hf_file := f\<rparr>) j = heap_page hf j"
    using flush_cache_spec [OF inv] by blast
  let ?hf = "hf\<lparr>hf_file := f\<rparr>" and ?off = "en_offset (entries hf ! k)"
  have geom: "0 < ?ss" "?ss < ?ps" "0 < ?ps" using heap_invD(1) [OF inv] by (auto simp: geom_ok_def)
  obtain g where g: "read_block ?hf ?off = Inr (blk ?ps (fcontents f) ?off, hf\<lparr>hf_file := g\<rparr>)" "fcontents g = fcontents f"
    using read_block_spec [of ?off ?hf] entry_offset [OF inv k] geom f(2) by (auto simp: blk_def)
  have e: "get_entry ?hf (int k) = Inr (int (k div dir_cap ?ps), int (k mod dir_cap ?ps))"
    "entry_at ?hf (int (k div dir_cap ?ps), int (k mod dir_cap ?ps)) = Inr (entries hf ! k)"
    using get_entry_spec [of ?ps ?hf k] heap_invD(2) [OF inv] k by simp_all
  let ?hf' = "hf\<lparr>hf_file := g, cached_page := Some (heap_page hf k), cached_pid := int k, page_cache_dirty := False\<rparr>"
  have "heap_page hf k = \<lparr>pg_data = blk ?ps (fcontents f) ?off, pg_page_size = ?ps, pg_slot_size = ?ss\<rparr>"
    using f(3) [OF k] by (simp add: disk_page_def)
  then have "get_page hf (int k) = Inr ?hf'"
    using False f(1) e g(1) geom by (simp add: get_page_def init_fixed_len_page_def)
  moreover have "disk_page (hf\<lparr>hf_file := g\<rparr>) j = heap_page hf j" if "j < length (entries hf)" for j
    using f(3) [OF that] g(2) by (simp add: disk_page_def)
  ultimately show ?thesis
    using cache_load [OF inv k, of g] f(2) g(2) by (intro exI [of _ ?hf']) simp
qed


lemma page_of_freeslots:
  assumes "geom_ok hf" and "page_of hf p"
  shows "\<exists>fr. fixed_len_page_freeslots p = Inr fr \<and> 0 \<le> fr \<and> fr \<le> int (cap p) \<and> int32_range fr"
proof -
  have wf: "wf_page p" and ss: "0 < pg_slot_size p" and ps: "pg_page_size p < 2 ^ 31"
    using assms by (auto simp: page_of_def geom_ok_def)
  have c: "fixed_len_page_capacity p = int (cap p)" "1 \<le> cap p" using wf_page_cap [OF wf] by auto
  have "int (cap p) * pg_slot_size p + ceil8 (int (cap p)) \<le> pg_page_size p"
    using capacity_bounds(2) [of p] wf c by (simp add: wf_page_def)
  moreover have "int (cap p) \<le> int (cap p) * pg_slot_size p" using ss by (simp add: mult_le_cancel_left1)
  moreover have "1 \<le> ceil8 (int (cap p))" using c by (intro ceil8_pos) simp
  ultimately have "int (cap p) < 2 ^ 31" using ps by linarith
  then show ?thesis using fp.free_range [OF wf] freeslots_spec [OF wf] by fastforce
qed

text \<open>Committing a changed page: the view changes at that page and the free count follows it.\<close>

lemma commit_page_spec:
  assumes inv: "heap_inv hf" and c: "cached_pid hf = int k" and p: "page_of hf p"
  shows "\<exists>hf'. commit_page (hf\<lparr>cached_page := Some p\<rparr>) (int k) = Inr hf' \<and> heap_inv hf'
    \<and> heap_view hf' = (heap_view hf)[k := p] \<and> cached_pid hf' = int k \<and> cached_page hf' = Some p
    \<and> hf_page_size hf' = hf_page_size hf \<and> hf_slot_size hf' = hf_slot_size hf
    \<and> hcontents hf' = hcontents hf \<and> length (directory_buffer hf') = length (directory_buffer hf)"
proof -
  let ?ps = "hf_page_size hf" and ?h = "hf\<lparr>cached_page := Some p\<rparr>"
  have k: "k < length (entries hf)" using heap_invD(4) [OF inv] c by (auto simp: cache_ok_def)
  have eh: "entries ?h = entries hf" by (simp add: entries_def)
  obtain fr where fr: "fixed_len_page_freeslots p = Inr fr" "int32_range fr"
    using page_of_freeslots [OF heap_invD(1) [OF inv] p] by blast
  let ?e = "(entries hf ! k)\<lparr>en_free_space := fr\<rparr>"
  have ok: "dirs_ok ?ps (directory_buffer ?h)" using heap_invD(2) [OF inv] by simp
  have "wf_entry (entries hf ! k)"
  proof -
    have "entries hf ! k \<in> set (entries hf)" using k by simp
    then show ?thesis using ok wf_entry_dir_list by (auto simp: entries_def dirs_ok_def)
  qed
  then have we: "wf_entry ?e" using fr(2) by (simp add: wf_entry_def)
  have k': "k < length (entries ?h)" using k eh by simp
  obtain ds where ds: "set_entry_at ?h (int (k div dir_cap ?ps), int (k mod dir_cap ?ps)) ?e = Inr (?h\<lparr>directory_buffer := ds\<rparr>)"
    "dirs_ok ?ps ds" "map dir_offset ds = map dir_offset (directory_buffer hf)" "concat (map dir_list ds) = (entries hf)[k := ?e]"
    using set_entry_at_spec [OF ok k' we] eh by auto
  define hf' where "hf' = ?h\<lparr>directory_buffer := ds, page_cache_dirty := True\<rparr>"
  have run: "commit_page ?h (int k) = Inr hf'"
    using c fr(1) ds(1) get_entry_spec [OF ok k'] eh by (simp add: commit_page_def deref_def hf'_def)
  have e': "entries hf' = (entries hf)[k := ?e]" using ds(4) by (simp add: hf'_def entries_def)
  have same: "hf_page_size hf' = ?ps" "hcontents hf' = hcontents hf" "geom_ok hf' = geom_ok hf" "page_of hf' = page_of hf"
    "cached_pid hf' = int k" "cached_page hf' = Some p" "page_cache_dirty hf'" "hf_slot_size hf' = hf_slot_size hf"
    using c by (auto simp: hf'_def geom_ok_def page_of_def fun_eq_iff)
  have off: "map en_offset (entries hf') = map en_offset (entries hf)"
    using k by (simp add: e' map_update list_update_same_conv)
  have hp: "heap_page hf' j = (if j = k then p else heap_page hf j)" if "j < length (entries hf)" for j
    using that c by (simp add: heap_page_def same disk_page_def e' nth_list_update)
  have "heap_offsets hf' = heap_offsets hf" using off ds(3) by (simp add: heap_offsets_def hf'_def)
  moreover have "cache_ok hf'" using k p by (simp add: cache_ok_def same e')
  moreover have "fixed_len_page_freeslots (heap_page hf' j) = Inr (en_free_space (entries hf' ! j))"
    if "j < length (entries hf')" for j
    using that fr(1) heap_invD(5) [OF inv, of j] by (auto simp: hp e' nth_list_update)
  ultimately have "heap_inv hf'" using inv ds(2) unfolding heap_inv_def same by (simp add: hf'_def)
  moreover have "heap_view hf' = (heap_view hf)[k := p]"
    by (intro nth_equalityI) (auto simp: e' hp nth_list_update)
  moreover have "length (directory_buffer hf') = length (directory_buffer hf)"
    using ds(3) by (metis hf'_def length_map select_convs(3) surjective update_convs(3,6))
  ultimately show ?thesis using run same by blast
qed

section \<open>Finding and allocating pages\<close>

lemma vacant_loop_spec:
  assumes "dirs_ok ps ds" and "i \<le> length ds"
  shows "(vacant_loop ds (int i) = Inr (-1) \<and> (\<forall>d \<in> set (drop i ds). \<forall>e \<in> set (dir_list d). en_free_space e \<le> 0))
    \<or> (\<exists>i' j. i' < length ds \<and> j < length (dir_list (ds ! i')) \<and> 0 < en_free_space (dir_list (ds ! i') ! j)
         \<and> vacant_loop ds (int i) = Inr (int (i' * dir_cap ps + j)))"
  using assms(2)
proof (induction "length ds - i" arbitrary: i)
  case 0
  then show ?case by (intro disjI1) (simp add: vacant_loop.simps)
next
  case (Suc x)
  then have i: "i < length ds" by simp
  have wf: "wf_dir ps (ds ! i)" using assms(1) i by (auto simp: dirs_ok_def)
  then have cp: "dir_capacity (ds ! i) = int (dir_cap ps)" by (simp add: wf_dir_def)
  show ?case
  proof (cases "\<exists>j < length (dir_list (ds ! i)). 0 < en_free_space (dir_list (ds ! i) ! j)")
    case True
    then obtain j where j: "j < length (dir_list (ds ! i))" "0 < en_free_space (dir_list (ds ! i) ! j)"
      and "\<forall>j' < j. \<not> (j' < length (dir_list (ds ! i)) \<and> 0 < en_free_space (dir_list (ds ! i) ! j'))"
      using exists_least_iff [of "\<lambda>j. j < length (dir_list (ds ! i)) \<and> 0 < en_free_space (dir_list (ds ! i) ! j)"] by blast
    then have "\<And>j'. j' < j \<Longrightarrow> en_free_space (dir_list (ds ! i) ! j') \<le> 0" by force
    then have "find_free_page (ds ! i) = Inr (int j)" using j by (intro find_free_page_found [OF wf]) auto
    then show ?thesis using i j cp
      by (intro disjI2 exI [of _ i] exI [of _ j]) (subst vacant_loop.simps, simp add: nth_res_Inr)
  next
    case False
    then have none: "\<forall>e \<in> set (dir_list (ds ! i)). en_free_space e \<le> 0" by (metis in_set_conv_nth not_less)
    then have "find_free_page (ds ! i) = Inr (-1)" by (intro find_free_page_none [OF wf])
    then have "vacant_loop ds (int i) = vacant_loop ds (int (Suc i))"
      using i by (subst vacant_loop.simps) (simp add: nth_res_Inr add.commute)
    moreover have "set (drop i ds) = insert (ds ! i) (set (drop (Suc i) ds))"
      using i by (metis Cons_nth_drop_Suc list.simps(15))
    ultimately show ?thesis using Suc.hyps(1) [of "Suc i"] Suc.hyps(2) i none by auto
  qed
qed

lemma vacant_page_id_spec:
  assumes "dirs_ok ps (directory_buffer hf)"
  shows "(vacant_page_id hf = Inr (-1) \<and> (\<forall>e \<in> set (entries hf). en_free_space e \<le> 0))
    \<or> (\<exists>k < length (entries hf). 0 < en_free_space (entries hf ! k) \<and> vacant_page_id hf = Inr (int k))"
proof -
  let ?ds = "directory_buffer hf"
  from vacant_loop_spec [OF assms, of 0] consider
    "vacant_loop ?ds 0 = Inr (-1)" "\<forall>d \<in> set ?ds. \<forall>e \<in> set (dir_list d). en_free_space e \<le> 0"
  | i j where "i < length ?ds" "j < length (dir_list (?ds ! i))" "0 < en_free_space (dir_list (?ds ! i) ! j)"
      "vacant_loop ?ds 0 = Inr (int (i * dir_cap ps + j))" by auto
  then show ?thesis
  proof cases
    case 1
    then show ?thesis by (auto simp: vacant_page_id_def entries_def)
  next
    case (2 i j)
    have "length (dir_list (?ds ! i)) \<le> dir_cap ps" using dirs_ok_lists(2) [OF assms] 2(1) by simp
    then have "j < dir_cap ps" using 2(2) by linarith
    then have "i * dir_cap ps + j < length (entries hf) \<and> entries hf ! (i * dir_cap ps + j) = dir_list (?ds ! i) ! j"
      using concat_full_nth [OF dirs_ok_lists(1) [OF assms], of i j] 2(1,2) by (simp add: entries_def)
    then show ?thesis using 2(3,4) by (intro disjI2) (auto simp: vacant_page_id_def)
  qed
qed

lemma append_loop_skip:
  assumes "dirs_ok ps (directory_buffer hf)" and "Suc i < length (directory_buffer hf)"
  shows "append_entry_loop hf e (int i) = append_entry_loop hf e (int (Suc i))"
proof -
  let ?d = "directory_buffer hf ! i"
  have wf: "wf_dir ps ?d" and full: "length (dir_list ?d) = dir_cap ps" using assms by (auto simp: dirs_ok_def)
  have "is_full ?d = Inr True"
    using wf_dir_facts(3) [OF wf] wf full by (simp add: is_full_def wf_dir_def)
  then show ?thesis
    using assms(2) by (subst append_entry_loop.simps) (simp add: nth_res_Inr add.commute)
qed

lemma append_loop_last:
  assumes "dirs_ok ps (directory_buffer hf)" and "i < length (directory_buffer hf)"
  shows "append_entry_loop hf e (int i) = append_entry_loop hf e (int (length (directory_buffer hf) - 1))"
  using assms(2)
proof (induction "length (directory_buffer hf) - 1 - i" arbitrary: i)
  case (Suc x)
  then have "Suc i < length (directory_buffer hf)" by simp
  then show ?case using append_loop_skip [OF assms(1)] Suc.hyps(1) [of "Suc i"] Suc.hyps(2) by simp
next
  case 0
  then have "i = length (directory_buffer hf) - 1" by simp
  then show ?case by simp
qed

lemma length_entries:
  assumes "dirs_ok ps (directory_buffer hf)"
  shows "length (entries hf) = (length (directory_buffer hf) - 1) * dir_cap ps + length (dir_list (last (directory_buffer hf)))"
proof -
  have "length (concat xss) = (length xss - 1) * c + length (last xss)"
    if "xss \<noteq> []" "\<forall>x \<in> set (butlast xss). length x = c" for xss :: "Entry list list" and c
    using that
  proof (induction xss)
    case (Cons x xss)
    then show ?case by (cases xss) auto
  qed simp
  from this [OF _ dirs_ok_lists(1) [OF assms]] show ?thesis
    using assms by (simp add: entries_def dirs_ok_def last_map)
qed

lemma concat_update_last:
  "xss \<noteq> [] \<Longrightarrow> concat (xss[length xss - 1 := last xss @ [e]]) = concat xss @ [e]"
  by (induction xss rule: rev_induct) (auto simp: list_update_append)

text \<open>An entry appended to a directory buffer whose last directory has room.\<close>

lemma append_entry_room:
  assumes ok: "dirs_ok ps (directory_buffer hf)" and e: "wf_entry e" and ps: "ps < 2 ^ 31"
    and room: "length (dir_list (last (directory_buffer hf))) < dir_cap ps"
  shows "\<exists>ds. append_entry hf e = Inr (int (length (entries hf)), hf\<lparr>directory_buffer := ds\<rparr>) \<and> dirs_ok ps ds
    \<and> map dir_offset ds = map dir_offset (directory_buffer hf) \<and> concat (map dir_list ds) = entries hf @ [e]"
proof -
  let ?ds = "directory_buffer hf"
  have ne: "?ds \<noteq> []" using ok by (simp add: dirs_ok_def)
  then obtain i where len: "length ?ds = Suc i" by (cases ?ds) auto
  then have l: "?ds ! i = last ?ds" and i: "i < length ?ds" using ne by (simp_all add: last_conv_nth)
  have wf: "wf_dir ps (last ?ds)" using ok ne by (simp add: dirs_ok_def)
  let ?n = "length (dir_list (last ?ds))"
  obtain d1 d where d1: "next_vacant_slot (last ?ds) = Inr (int ?n, d1)" and d: "set_dir_entry d1 (int ?n) e = Inr d"
    "wf_dir ps d" "dir_offset d = dir_offset (last ?ds)" "dir_next d = dir_next (last ?ds)" "dir_list d = dir_list (last ?ds) @ [e]"
    using append_slot_spec [OF wf room e ps] by blast
  let ?ds' = "?ds[i := d]"
  have nf: "is_full (last ?ds) = Inr False"
    using wf_dir_facts(3) [OF wf] wf room by (simp add: is_full_def wf_dir_def)
  have cd: "dir_capacity d = int (dir_cap ps)" using d(2) by (simp add: wf_dir_def)
  have "append_entry_loop hf e (int i) = Inr (Some (int i * int (dir_cap ps) + int ?n, hf\<lparr>directory_buffer := ?ds'\<rparr>))"
    using i l nf d1 d(1) cd by (subst append_entry_loop.simps) (simp add: nth_res_Inr upd_res_def)
  moreover have "append_entry_loop hf e 0 = append_entry_loop hf e (int i)"
    using append_loop_last [OF ok, of 0] len by simp
  moreover have "int i * int (dir_cap ps) + int ?n = int (length (entries hf))"
    using length_entries [OF ok] len by simp
  ultimately have "append_entry hf e = Inr (int (length (entries hf)), hf\<lparr>directory_buffer := ?ds'\<rparr>)"
    by (simp add: append_entry_def Let_def)
  moreover have "map dir_offset ?ds' = map dir_offset ?ds"
    using d(3) l i by (simp add: map_update list_update_same_conv)
  moreover have "dirs_ok ps ?ds'"
  proof -
    have "\<forall>x \<in> set ?ds'. wf_dir ps x" using ok d(2) set_update_subset_insert [of ?ds i d] by (auto simp: dirs_ok_def)
    moreover have "dir_offset (hd ?ds') = 0"
      using \<open>map dir_offset ?ds' = map dir_offset ?ds\<close> ok ne by (metis dirs_ok_def hd_map list_update_nonempty)
    moreover have "dir_next (last ?ds') = 0" using ok d(4) ne len by (simp add: dirs_ok_def last_conv_nth)
    moreover have "dir_offset (?ds' ! j) = dir_offset (?ds ! j)" if "j < length ?ds" for j
      using that l d(3) by (cases "j = i") (simp_all add: nth_list_update)
    moreover have "?ds' ! j = ?ds ! j" if "Suc j < length ?ds" for j using that len by simp
    ultimately show ?thesis using ok by (auto simp: dirs_ok_def)
  qed
  moreover have "concat (map dir_list ?ds') = entries hf @ [e]"
    using concat_update_last [of "map dir_list ?ds" e] ne d(5) len by (simp add: entries_def map_update last_map)
  ultimately show ?thesis by blast
qed

text \<open>A full buffer grows by a directory, at the end of the file.\<close>

lemma append_entry_grow:
  assumes ok: "dirs_ok ps (directory_buffer hf)" and e: "wf_entry e" and ps: "hf_page_size hf = ps" "16 \<le> ps" "ps < 2 ^ 31"
    and full: "length (dir_list (last (directory_buffer hf))) = dir_cap ps"
    and len: "0 < length (hcontents hf)" "length (hcontents hf) < 2 ^ 31"
  shows "\<exists>f ds. append_entry hf e = Inr (int (length (entries hf)), hf\<lparr>hf_file := f, directory_buffer := ds\<rparr>) \<and> dirs_ok ps ds
    \<and> map dir_offset ds = map dir_offset (directory_buffer hf) @ [int (length (hcontents hf))]
    \<and> concat (map dir_list ds) = entries hf @ [e]
    \<and> (\<exists>b. length b = nat ps \<and> fcontents f = hcontents hf @ b)"
proof -
  let ?ds = "directory_buffer hf" and ?F = "hcontents hf"
  let ?off = "int (length ?F)"
  have ne: "?ds \<noteq> []" using ok by (simp add: dirs_ok_def)
  then obtain i where lds: "length ?ds = Suc i" by (cases ?ds) auto
  then have l: "?ds ! i = last ?ds" and i: "i < length ?ds" using ne by (simp_all add: last_conv_nth)
  have wf: "wf_dir ps (last ?ds)" using ok ne by (simp add: dirs_ok_def)
  have fl: "is_full (last ?ds) = Inr True"
    using wf_dir_facts(3) [OF wf] wf full by (simp add: is_full_def wf_dir_def)
  have "append_entry_loop hf e (int i) = Inr None"
    using lds l fl by (subst append_entry_loop.simps) (simp add: nth_res_Inr append_entry_loop.simps)
  then have loop: "append_entry_loop hf e 0 = Inr None" using append_loop_last [OF ok, of 0] lds by simp
  have r: "int32_range ?off" using len by simp
  have off: "to_s32 (int (fpos (fseek_end (hf_file hf)))) = ?off" using r by (simp add: fseek_end_def to_s32_id)
  obtain ld where ld: "set_next_directory (last ?ds) ?off = Inr ld" "wf_dir ps ld" "dir_offset ld = dir_offset (last ?ds)"
    "dir_next ld = ?off" "dir_list ld = dir_list (last ?ds)"
    using set_next_directory_spec [OF wf r] by blast
  obtain nd where nd: "init_directory_page ps ?off = Inr nd" "wf_dir ps nd" "dir_offset nd = ?off" "dir_next nd = 0" "dir_list nd = []"
    using init_directory_page_spec [OF ps(2,3)] by blast
  have lnd: "int (length (dir_data nd)) = ps" using nd(2) ps by (simp add: wf_dir_def)
  obtain f where f: "write_block hf (dir_data nd) ?off = Inr (hf\<lparr>hf_file := f\<rparr>)" "fcontents f = ?F @ dir_data nd"
    using write_block_spec [of ?off hf "dir_data nd"] lnd ps(1) by (auto simp: blit_def)
  have "1 \<le> dir_cap ps" using dirs_ok_lists(3) [OF ok] .
  then obtain d1 d where d1: "next_vacant_slot nd = Inr (0, d1)" and d: "set_dir_entry d1 0 e = Inr d" "wf_dir ps d"
    "dir_offset d = ?off" "dir_next d = 0" "dir_list d = [e]"
    using append_slot_spec [OF nd(2) _ e ps(3)] nd by fastforce
  let ?ds' = "?ds[i := ld] @ [d]"
  have li: "int (length ?ds) - 1 = int i" using lds by simp
  have cd: "dir_capacity d = int (dir_cap ps)" using d(2) by (simp add: wf_dir_def)
  have "int (length ?ds) * int (dir_cap ps) = int (length (entries hf))"
    using length_entries [OF ok] full lds by (simp add: algebra_simps)
  then have "append_entry hf e = Inr (int (length (entries hf)), hf\<lparr>hf_file := f, directory_buffer := ?ds'\<rparr>)"
    using loop li l i ne ld(1) nd(1) f(1) d1 d(1) cd ps(1) off
    by (simp add: append_entry_def Let_def nth_res_Inr upd_res_def)
  moreover have offs: "map dir_offset ?ds' = map dir_offset ?ds @ [?off]"
    using ld(3) l i d(3) by (simp add: map_update list_update_same_conv)
  moreover have "dirs_ok ps ?ds'"
  proof -
    have "\<forall>x \<in> set ?ds'. wf_dir ps x"
      using ok ld(2) d(2) set_update_subset_insert [of ?ds i ld] by (auto simp: dirs_ok_def)
    moreover have "dir_offset (hd ?ds') = 0" using offs ok ne by (metis append_is_Nil_conv dirs_ok_def hd_append2 hd_map map_is_Nil_conv not_Cons_self2)
    moreover have "length (dir_list (?ds' ! j)) = dir_cap ps \<and> dir_next (?ds' ! j) = dir_offset (?ds' ! Suc j)
        \<and> dir_next (?ds' ! j) \<noteq> 0" if j: "j < length ?ds" for j
    proof (cases "j = i")
      case True
      have "?ds' ! Suc j = d" "?ds' ! j = ld" using True lds by (simp_all add: nth_append)
      moreover have "length (dir_list ld) = dir_cap ps" unfolding ld(5) by (rule full)
      ultimately show ?thesis using ld(4) d(3) len(1) by simp
    next
      case False
      then have ji: "Suc j < length ?ds" using j lds by simp
      then have "?ds' ! j = ?ds ! j" using False by (simp add: nth_append)
      moreover have "dir_offset (?ds' ! Suc j) = dir_offset (?ds ! Suc j)"
        using ji ld(3) l by (cases "Suc j = i") (simp_all add: nth_append nth_list_update)
      ultimately show ?thesis using ok ji unfolding dirs_ok_def by metis
    qed
    moreover have "dir_next (last ?ds') = 0" using d(4) by simp
    moreover have "?ds' \<noteq> []" by simp
    ultimately show ?thesis
      unfolding dirs_ok_def length_append_singleton length_list_update Suc_less_eq by blast
  qed
  moreover have "concat (map dir_list ?ds') = entries hf @ [e]"
  proof -
    have "(map dir_list ?ds)[i := dir_list ld] = map dir_list ?ds"
      using ld(5) l i by (metis length_map list_update_id nth_map)
    then show ?thesis using d(5) by (simp add: entries_def map_update)
  qed
  ultimately show ?thesis using f(2) lnd by (intro exI [of _ f] exI [of _ ?ds']) auto
qed


lemma append_entry_spec:
  assumes ok: "dirs_ok ps (directory_buffer hf)" and e: "wf_entry e" and ps: "hf_page_size hf = ps" "16 \<le> ps" "ps < 2 ^ 31"
    and len: "0 < length (hcontents hf)" "length (hcontents hf) < 2 ^ 31"
  shows "\<exists>f ds b. append_entry hf e = Inr (int (length (entries hf)), hf\<lparr>hf_file := f, directory_buffer := ds\<rparr>) \<and> dirs_ok ps ds
    \<and> map dir_offset ds = map dir_offset (directory_buffer hf) @ (if b = [] then [] else [int (length (hcontents hf))])
    \<and> concat (map dir_list ds) = entries hf @ [e] \<and> (b = [] \<or> length b = nat ps) \<and> fcontents f = hcontents hf @ b
    \<and> (length (dir_list (last (directory_buffer hf))) < dir_cap ps \<longrightarrow> b = [])"
proof (cases "length (dir_list (last (directory_buffer hf))) < dir_cap ps")
  case True
  from append_entry_room [OF ok e ps(3) this] show ?thesis
    by (elim exE conjE, intro exI [of _ "hf_file hf"] exI [of _ "_ :: Directory list"] exI [of _ "[]"]) simp
next
  case False
  have "length (dir_list (last (directory_buffer hf))) \<le> dir_cap ps"
    using dirs_ok_lists(2) [OF ok] ok by (simp add: dirs_ok_def)
  with False have "length (dir_list (last (directory_buffer hf))) = dir_cap ps" by simp
  from append_entry_grow [OF ok e ps this len] obtain f ds b where
    "append_entry hf e = Inr (int (length (entries hf)), hf\<lparr>hf_file := f, directory_buffer := ds\<rparr>)" "dirs_ok ps ds"
    "map dir_offset ds = map dir_offset (directory_buffer hf) @ [int (length (hcontents hf))]"
    "concat (map dir_list ds) = entries hf @ [e]" "length b = nat ps" "fcontents f = hcontents hf @ b" by blast
  moreover have "b \<noteq> []" using \<open>length b = nat ps\<close> ps(2) by auto
  ultimately show ?thesis using False by (intro exI [of _ f] exI [of _ ds] exI [of _ b]) simp
qed

lemma offs_ok_mset: "offs_ok ps F offs \<Longrightarrow> mset offs' = mset offs \<Longrightarrow> offs_ok ps F offs'"
  by (metis mset_eq_imp_distinct_iff mset_eq_setD offs_ok_def)

lemma offs_ok_grow:
  assumes "offs_ok ps F offs" and "length b = nat ps" and "0 < ps"
  shows "offs_ok ps (F @ b) (int (length F) # offs)"
  using assms by (fastforce simp: offs_ok_def)

text \<open>A new empty page at the end of the file.\<close>

lemma alloc_page_spec:
  assumes inv: "heap_inv hf" and len: "int (length (hcontents hf)) + 2 * hf_page_size hf < 2 ^ 31"
  shows "\<exists>hf' p. alloc_page hf = Inr (int (length (entries hf)), hf') \<and> heap_inv hf'
    \<and> heap_view hf' = heap_view hf @ [p] \<and> page_of hf p \<and> page_abs p = Map.empty
    \<and> cached_pid hf' = int (length (entries hf)) \<and> length (entries hf') = Suc (length (entries hf))
    \<and> hf_page_size hf' = hf_page_size hf \<and> hf_slot_size hf' = hf_slot_size hf
    \<and> int (length (hcontents hf')) \<le> int (length (hcontents hf)) + 2 * hf_page_size hf
    \<and> (length (dir_list (last (directory_buffer hf))) < dir_cap (hf_page_size hf) \<longrightarrow> length (directory_buffer hf') = length (directory_buffer hf))"
proof -
  let ?ps = "hf_page_size hf" and ?ss = "hf_slot_size hf" and ?F = "hcontents hf" and ?n = "length (entries hf)"
  have geom: "1001 < ?ps" "?ps < 2 ^ 31" "0 < ?ss" "?ss < ?ps" using heap_invD(1) [OF inv] by (auto simp: geom_ok_def)
  obtain p where p: "init_fixed_len_page ?ps ?ss = Inr p" "page_of hf p" "page_abs p = Map.empty"
    using init_fixed_len_page_spec [OF geom(3,4)] by (auto simp: page_of_def)
  have lp: "length (pg_data p) = nat ?ps" using p(2) by (simp add: page_of_def wf_page_def)
  obtain fr where fr: "fixed_len_page_freeslots p = Inr fr" "int32_range fr"
    using page_of_freeslots [OF heap_invD(1) [OF inv] p(2)] by blast
  define e where "e = \<lparr>en_offset = int (length ?F), en_free_space = fr\<rparr>"
  have off: "to_s32 (int (fpos (fseek_end (hf_file hf)))) = int (length ?F)"
    using len geom by (simp add: fseek_end_def to_s32_id)
  obtain f1 where f1: "write_block hf (pg_data p) (int (length ?F)) = Inr (hf\<lparr>hf_file := f1\<rparr>)" "fcontents f1 = ?F @ pg_data p"
    using write_block_spec [of "int (length ?F)" hf "pg_data p"] lp geom by (auto simp: blit_def)
  let ?h1 = "hf\<lparr>hf_file := f1\<rparr>"
  have we: "wf_entry e" using fr len geom by (simp add: wf_entry_def e_def)
  have l1: "0 < length (hcontents ?h1)" "length (hcontents ?h1) < 2 ^ 31" using len lp geom f1(2) by simp_all
  have eh: "entries ?h1 = entries hf" by simp
  have ok1: "dirs_ok ?ps (directory_buffer ?h1)" using heap_invD(2) [OF inv] by simp
  have g1: "16 \<le> ?ps" using geom by simp
  from append_entry_spec [OF ok1 we _ g1 geom(2) l1]
  obtain f2 ds b where "append_entry ?h1 e = Inr (int ?n, ?h1\<lparr>hf_file := f2, directory_buffer := ds\<rparr>)"
    "dirs_ok ?ps ds"
    "map dir_offset ds = map dir_offset (directory_buffer ?h1) @ (if b = [] then [] else [int (length (hcontents ?h1))])"
    "concat (map dir_list ds) = entries hf @ [e]" "b = [] \<or> length b = nat ?ps" "fcontents f2 = hcontents ?h1 @ b"
    "length (dir_list (last (directory_buffer ?h1))) < dir_cap ?ps \<longrightarrow> b = []"
    unfolding eh by fastforce
  then have a: "append_entry ?h1 e = Inr (int ?n, hf\<lparr>hf_file := f2, directory_buffer := ds\<rparr>)" "dirs_ok ?ps ds"
    "map dir_offset ds = map dir_offset (directory_buffer hf) @ (if b = [] then [] else [int (length (fcontents f1))])"
    "concat (map dir_list ds) = entries hf @ [e]" "b = [] \<or> length b = nat ?ps" "fcontents f2 = fcontents f1 @ b"
    "length (dir_list (last (directory_buffer hf))) < dir_cap ?ps \<longrightarrow> b = []"
    by simp_all
  define h2 where "h2 = hf\<lparr>hf_file := f2, directory_buffer := ds\<rparr>"
  have same: "hf_page_size h2 = ?ps" "hf_slot_size h2 = ?ss" "entries h2 = entries hf @ [e]" "hcontents h2 = ?F @ pg_data p @ b"
    "geom_ok h2 = geom_ok hf" "page_of h2 = page_of hf" "cached_pid h2 = cached_pid hf" "cached_page h2 = cached_page hf"
    "page_cache_dirty h2 = page_cache_dirty hf" "directory_buffer h2 = ds"
    using a(4,6) f1(2) by (auto simp: h2_def entries_def geom_ok_def page_of_def fun_eq_iff)
  have dp: "disk_page h2 j = (if j = ?n then p else disk_page hf j)" if "j < Suc ?n" for j
  proof (cases "j = ?n")
    case True
    then show ?thesis using lp p(2) by (simp add: disk_page_def same e_def blk_def page_of_def)
  next
    case False
    then have j: "j < ?n" using that by simp
    have "nat (en_offset (entries hf ! j)) + nat ?ps \<le> length ?F"
      using entry_offset [OF inv j] geom by linarith
    then have "blk ?ps (?F @ pg_data p @ b) (en_offset (entries hf ! j)) = blk ?ps ?F (en_offset (entries hf ! j))"
      by (simp add: blk_def)
    then show ?thesis using j by (simp add: disk_page_def same nth_append)
  qed
  have cn: "cached_pid hf < int ?n" using heap_invD(4) [OF inv] by (auto simp: cache_ok_def split: if_splits)
  then have hp: "heap_page h2 j = (if j = ?n then p else heap_page hf j)" if "j < Suc ?n" for j
    using dp [OF that] that by (auto simp: heap_page_def same)
  have "offs_ok ?ps (?F @ pg_data p) (int (length ?F) # heap_offsets hf)"
    using offs_ok_grow [OF heap_invD(3) [OF inv] lp] geom by simp
  then have "offs_ok ?ps (hcontents h2) ((if b = [] then [] else [int (length (fcontents f1))]) @ int (length ?F) # heap_offsets hf)"
    using offs_ok_grow [of ?ps "?F @ pg_data p" "int (length ?F) # heap_offsets hf" b] a(5) geom same(4) f1(2) by auto
  then have "offs_ok ?ps (hcontents h2) (heap_offsets h2)"
    by (rule offs_ok_mset) (simp add: heap_offsets_def same a(3) e_def)
  moreover have "cache_ok h2"
    using heap_invD(4) [OF inv] dp [of "nat (cached_pid hf)"] cn
    by (cases "cached_pid hf = -1") (auto simp: cache_ok_def same nat_less_iff)
  moreover have "fixed_len_page_freeslots (heap_page h2 j) = Inr (en_free_space (entries h2 ! j))" if "j < length (entries h2)" for j
    using that hp [of j] fr(1) heap_invD(5) [OF inv, of j] by (auto simp: same nth_append e_def)
  ultimately have inv2: "heap_inv h2" using heap_invD(1) [OF inv] a(2) by (simp add: heap_inv_def same)
  have view2: "heap_view h2 = heap_view hf @ [p]"
    by (intro nth_equalityI) (auto simp: same hp nth_append)
  have n2: "?n < length (entries h2)" by (simp add: same)
  obtain f3 where f3: "flush_cache h2 = Inr (h2\<lparr>hf_file := f3\<rparr>)" "length (fcontents f3) = length (hcontents h2)"
    "\<And>j. j < length (entries h2) \<Longrightarrow> disk_page (h2\<lparr>hf_file := f3\<rparr>) j = heap_page h2 j"
    using flush_cache_spec [OF inv2] by blast
  let ?h3 = "h2\<lparr>hf_file := f3, cached_page := Some (heap_page h2 ?n), cached_pid := int ?n, page_cache_dirty := False\<rparr>"
  have "alloc_page hf = Inr (int ?n, ?h3)"
    using p(1) fr(1) f1(1) a(1) off f3(1) hp [of ?n] by (simp add: alloc_page_def Let_def e_def h2_def)
  moreover have "int (length (hcontents ?h3)) \<le> int (length ?F) + 2 * ?ps"
    using f3(2) same(4) lp a(5) geom by auto
  moreover have "length (dir_list (last (directory_buffer hf))) < dir_cap ?ps \<longrightarrow> length (directory_buffer ?h3) = length (directory_buffer hf)"
    using a(7) arg_cong [OF a(3), of length] same(10) by simp
  ultimately show ?thesis
    using cache_load [OF inv2 n2 f3(2,3)] view2 p(2,3) same by (intro exI [of _ ?h3] exI [of _ p]) simp
qed


end
