(* ===== verification/Heap_Ops.thy ===== *)
theory Heap_Ops
  imports Heap_Inv
begin

text \<open>
  The record operations of \<^verbatim>\<open>a1/heapfile.cpp\<close> against the abstract heap, a finite map from record ids
  to record images; creating, closing and re-opening a heap file; and the interface \<open>record_heap\<close>
  that the tools use, with its interpretation on the code's operations.
\<close>

section \<open>The heap as a map from record ids to record images\<close>

definition heap_abs :: "Heapfile \<Rightarrow> nat \<times> nat \<rightharpoonup> bytes" where
  "heap_abs hf = (\<lambda>(k, s). if k < length (heap_view hf) then page_abs (heap_view hf ! k) s else None)"

definition sized_as :: "Heapfile \<Rightarrow> Heapfile \<Rightarrow> bool" where
  "sized_as hf hf' \<longleftrightarrow> hf_page_size hf' = hf_page_size hf \<and> hf_slot_size hf' = hf_slot_size hf"

definition has_slot :: "Heapfile \<Rightarrow> nat \<Rightarrow> nat \<Rightarrow> bool" where
  "has_slot hf k s \<longleftrightarrow> k < length (heap_view hf) \<and> s < cap (heap_view hf ! k)"

lemma heap_abs_cong: "heap_view hf' = heap_view hf \<Longrightarrow> heap_abs hf' = heap_abs hf"
  by (simp add: heap_abs_def del: length_heap_view nth_heap_view cong: if_cong)

lemma heap_abs_update:
  assumes "k < length (heap_view hf)" and "heap_view hf' = (heap_view hf)[k := p]"
    and "page_abs p = (page_abs (heap_view hf ! k))(s := v)"
  shows "heap_abs hf' = (heap_abs hf)((k, s) := v)"
  using assms by (auto simp: heap_abs_def fun_eq_iff nth_list_update)

lemma page_of_geom: "page_of hf q \<Longrightarrow> wf_page p \<Longrightarrow> (pg_page_size p, pg_slot_size p) = (pg_page_size q, pg_slot_size q) \<Longrightarrow> page_of hf p"
  by (simp add: page_of_def)

text \<open>The common shape of the updates: load the page, change it, commit it.\<close>

lemma modify_page:
  assumes inv: "heap_inv hf" and k: "k < length (heap_view hf)"
    and f: "f (heap_view hf ! k) = Inr p" "wf_page p"
      "(pg_page_size p, pg_slot_size p) = (pg_page_size (heap_view hf ! k), pg_slot_size (heap_view hf ! k))"
      "page_abs p = (page_abs (heap_view hf ! k))(s := v)"
  shows "\<exists>hf1 hf'. get_page hf (int k) = Inr hf1 \<and> cached_page hf1 = Some (heap_view hf ! k)
    \<and> commit_page (hf1\<lparr>cached_page := Some p\<rparr>) (int k) = Inr hf' \<and> heap_inv hf' \<and> sized_as hf hf'
    \<and> heap_abs hf' = (heap_abs hf)((k, s) := v) \<and> length (hcontents hf') = length (hcontents hf)
    \<and> cached_pid hf' = int k \<and> cached_page hf' = Some p \<and> length (heap_view hf') = length (heap_view hf)"
proof -
  have k': "k < length (entries hf)" using k by simp
  obtain hf1 where g: "get_page hf (int k) = Inr hf1" "heap_inv hf1" "cached_pid hf1 = int k"
    "cached_page hf1 = Some (heap_page hf k)" "heap_view hf1 = heap_view hf" "sized_as hf hf1"
    "length (hcontents hf1) = length (hcontents hf)"
    using get_page_spec [OF inv k'] unfolding sized_as_def by blast
  have "page_of hf (heap_view hf ! k)" using heap_page_of [OF inv k'] k' by simp
  then have "page_of hf1 p" using page_of_geom [OF _ f(2,3)] g(6) by (simp add: page_of_def sized_as_def)
  then obtain hf' where c: "commit_page (hf1\<lparr>cached_page := Some p\<rparr>) (int k) = Inr hf'" "heap_inv hf'"
    "heap_view hf' = (heap_view hf)[k := p]" "sized_as hf1 hf'" "hcontents hf' = hcontents hf1"
    "cached_pid hf' = int k" "cached_page hf' = Some p"
    using commit_page_spec [OF g(2,3)] g(5) unfolding sized_as_def by metis
  moreover have "sized_as hf hf'" using g(6) c(4) by (simp add: sized_as_def)
  moreover have "heap_abs hf' = (heap_abs hf)((k, s) := v)" using heap_abs_update [OF k c(3) f(4)] .
  moreover have "length (entries hf') = length (entries hf)" using c(3) by (metis length_list_update length_heap_view)
  ultimately show ?thesis using g k' by auto
qed

lemma view_page:
  assumes "heap_inv hf" and "k < length (heap_view hf)"
  shows "wf_page (heap_view hf ! k)" and "pg_slot_size (heap_view hf ! k) = hf_slot_size hf"
    and "pg_page_size (heap_view hf ! k) = hf_page_size hf"
  using heap_page_of [of hf k] assms by (simp_all add: page_of_def)

lemma update_record_spec:
  assumes inv: "heap_inv hf" and s: "has_slot hf k s" and r: "10 * int (length r) = hf_slot_size hf"
  shows "\<exists>hf'. update_record hf (int k, int s) r = Inr hf' \<and> heap_inv hf' \<and> sized_as hf hf'
    \<and> heap_abs hf' = (heap_abs hf)((k, s) \<mapsto> record_image r) \<and> length (hcontents hf') = length (hcontents hf)"
proof -
  have k: "k < length (heap_view hf)" and sc: "s < cap (heap_view hf ! k)" using s by (auto simp: has_slot_def)
  note p = view_page [OF inv k]
  have "length (record_image r) = nat (pg_slot_size (heap_view hf ! k))" using r p(2) by (simp add: length_record_image)
  then obtain p' where p': "write_fixed_len_page (heap_view hf ! k) (int s) r = Inr p'" "wf_page p'"
    "(pg_page_size p', pg_slot_size p') = (pg_page_size (heap_view hf ! k), pg_slot_size (heap_view hf ! k))"
    "page_abs p' = (page_abs (heap_view hf ! k))(s \<mapsto> record_image r)"
    using fp.put_spec [OF p(1) sc] by blast
  from modify_page [OF inv k, of "\<lambda>p. write_fixed_len_page p (int s) r", OF p']
  show ?thesis using p'(1) by (auto simp: update_record_def deref_def)
qed

lemma delete_record_spec:
  assumes inv: "heap_inv hf" and s: "has_slot hf k s"
  shows "\<exists>hf'. delete_record hf (int k, int s) = Inr hf' \<and> heap_inv hf' \<and> sized_as hf hf'
    \<and> heap_abs hf' = (heap_abs hf)((k, s) := None) \<and> length (hcontents hf') = length (hcontents hf)"
proof -
  have k: "k < length (heap_view hf)" and sc: "s < cap (heap_view hf ! k)" using s by (auto simp: has_slot_def)
  note p = view_page [OF inv k]
  obtain p' where p': "delete_fixed_len_page (heap_view hf ! k) (int s) = Inr p'" "wf_page p'"
    "(pg_page_size p', pg_slot_size p') = (pg_page_size (heap_view hf ! k), pg_slot_size (heap_view hf ! k))"
    "page_abs p' = (page_abs (heap_view hf ! k))(s := None)"
    using fp.del_spec [OF p(1) sc] by blast
  from modify_page [OF inv k, of "\<lambda>p. delete_fixed_len_page p (int s)", OF p']
  show ?thesis using p'(1) by (auto simp: delete_record_def deref_def)
qed

lemma get_record_spec:
  assumes inv: "heap_inv hf" and a: "heap_abs hf (k, s) = Some img" and n: "10 * int n = hf_slot_size hf"
  shows "\<exists>hf'. get_record hf (int k, int s) n = Inr (split_image img n, hf') \<and> heap_inv hf' \<and> sized_as hf hf'
    \<and> heap_abs hf' = heap_abs hf \<and> length (hcontents hf') = length (hcontents hf)"
proof -
  have k: "k < length (heap_view hf)" and img: "page_abs (heap_view hf ! k) s = Some img"
    using a by (auto simp: heap_abs_def split: if_splits)
  note p = view_page [OF inv k]
  have k': "k < length (entries hf)" using k by simp
  obtain hf' where g: "get_page hf (int k) = Inr hf'" "heap_inv hf'"
    "cached_page hf' = Some (heap_page hf k)" "heap_view hf' = heap_view hf" "sized_as hf hf'"
    "length (hcontents hf') = length (hcontents hf)"
    using get_page_spec [OF inv k'] unfolding sized_as_def by blast
  have "read_fixed_len_page (heap_view hf ! k) (int s) n = Inr (split_image img n)"
    using n p(2) by (intro fp.get_spec [OF p(1) img]) simp
  then show ?thesis
    using g k' heap_abs_cong [OF g(4)] by (intro exI [of _ hf']) (simp add: get_record_def deref_def)
qed


text \<open>A page id without an entry: every record operation fails the way \<open>get_entry\<close> does.\<close>

lemma get_page_invalid:
  assumes inv: "heap_inv hf" and k: "length (heap_view hf) \<le> k"
  shows "get_page hf (int k) =
    Inl (if k div dir_cap (hf_page_size hf) < length (directory_buffer hf) then Assert_failed else Out_of_bounds)"
proof -
  obtain f where f: "flush_cache hf = Inr (hf\<lparr>hf_file := f\<rparr>)" using flush_cache_spec [OF inv] by blast
  have "cached_pid hf \<noteq> int k" using heap_invD(4) [OF inv] k by (auto simp: cache_ok_def split: if_splits)
  moreover have "get_entry (hf\<lparr>hf_file := f\<rparr>) (int k) =
      Inl (if k div dir_cap (hf_page_size hf) < length (directory_buffer hf) then Assert_failed else Out_of_bounds)"
    using get_entry_invalid [of "hf_page_size hf" "hf\<lparr>hf_file := f\<rparr>" k] heap_invD(2) [OF inv] k by simp
  ultimately show ?thesis
    using f heap_invD(1) [OF inv] by (simp add: get_page_def init_fixed_len_page_def geom_ok_def)
qed

lemma record_ops_invalid:
  assumes inv: "heap_inv hf" and k: "length (heap_view hf) \<le> k"
  defines "e \<equiv> if k div dir_cap (hf_page_size hf) < length (directory_buffer hf) then Assert_failed else Out_of_bounds"
  shows "get_record hf (int k, s) n = Inl e" and "update_record hf (int k, s) r = Inl e"
    and "delete_record hf (int k, s) = Inl e"
  using get_page_invalid [OF inv k] by (simp_all add: get_record_def update_record_def delete_record_def e_def)

lemma get_free_pid_spec:
  assumes inv: "heap_inv hf" and len: "int (length (hcontents hf)) + 2 * hf_page_size hf < 2 ^ 31"
  shows "\<exists>k hf' s. get_free_pid hf = Inr (int k, hf') \<and> heap_inv hf' \<and> sized_as hf hf' \<and> heap_abs hf' = heap_abs hf
    \<and> k < length (heap_view hf') \<and> s < cap (heap_view hf' ! k) \<and> page_abs (heap_view hf' ! k) s = None
    \<and> length (heap_view hf') \<le> Suc (length (heap_view hf)) \<and> (hf' = hf \<or> (\<forall>x \<in> set (heap_view hf). dom (page_abs x) = {..<cap x}))
    \<and> int (length (hcontents hf')) \<le> int (length (hcontents hf)) + 2 * hf_page_size hf"
  using vacant_page_id_spec [OF heap_invD(2) [OF inv]]
proof (elim disjE exE conjE)
  assume none: "vacant_page_id hf = Inr (-1)" "\<forall>e \<in> set (entries hf). en_free_space e \<le> 0"
  obtain hf' p where a: "alloc_page hf = Inr (int (length (entries hf)), hf')" "heap_inv hf'"
    "heap_view hf' = heap_view hf @ [p]" "page_of hf p" "page_abs p = Map.empty" "sized_as hf hf'"
    "int (length (hcontents hf')) \<le> int (length (hcontents hf)) + 2 * hf_page_size hf"
    using alloc_page_spec [OF inv len] unfolding sized_as_def by blast
  have "heap_abs hf' = heap_abs hf"
    using a(3,5) by (auto simp: heap_abs_def fun_eq_iff nth_append simp del: length_heap_view nth_heap_view)
  moreover have "dom (page_abs x) = {..<cap x}" if x: "x \<in> set (heap_view hf)" for x
  proof -
    obtain j where "j < length (heap_view hf)" "heap_view hf ! j = x" using x unfolding in_set_conv_nth by blast
    then have j: "j < length (entries hf)" "x = heap_page hf j" by auto
    have "wf_page x" using heap_page_of [OF inv j(1)] j(2) by (simp add: page_of_def)
    moreover have "fixed_len_page_freeslots x = Inr (en_free_space (entries hf ! j))" using heap_invD(5) [OF inv j(1)] j(2) by simp
    moreover have "\<not> 0 < en_free_space (entries hf ! j)" using none(2) j(1) by (simp add: not_less)
    ultimately have "\<not> (\<exists>s<cap x. page_abs x s = None)" using fp.free_pos by blast
    then have "slot_used x s" if "s < cap x" for s using page_abs_None that by blast
    then show ?thesis by (auto simp: dom_page_abs)
  qed
  moreover have "0 < cap p" using wf_page_cap [of p] a(4) by (simp add: page_of_def)
  moreover have "heap_view hf' ! length (entries hf) = p" "length (entries hf) < length (heap_view hf')"
    unfolding a(3) by (metis length_heap_view nth_append_length, simp)
  moreover have "length (entries hf') = Suc (length (entries hf))" using a(3) by (metis length_append_singleton length_heap_view)
  moreover have "get_free_pid hf = Inr (int (length (entries hf)), hf')" using none(1) a(1) by (simp add: get_free_pid_def)
  ultimately show ?thesis using a(2,5-7) by (intro exI [of _ "length (entries hf)"] exI [of _ hf'] exI [of _ 0]) (simp del: nth_heap_view)
next
  fix k
  assume k: "k < length (entries hf)" "0 < en_free_space (entries hf ! k)" "vacant_page_id hf = Inr (int k)"
  have "wf_page (heap_page hf k)" using heap_page_of [OF inv k(1)] by (simp add: page_of_def)
  then obtain s where "s < cap (heap_page hf k)" "page_abs (heap_page hf k) s = None"
    using fp.free_pos heap_invD(5) [OF inv k(1)] k(2) by blast
  then show ?thesis using k inv heap_invD(1) [OF inv]
    by (intro exI [of _ k] exI [of _ hf] exI [of _ s]) (simp add: get_free_pid_def sized_as_def geom_ok_def)
qed

text \<open>Putting a record: it goes to a free record id, and nothing else changes. A new page is added only when all are full.\<close>

lemma put_record_spec:
  assumes inv: "heap_inv hf" and len: "int (length (hcontents hf)) + 2 * hf_page_size hf < 2 ^ 31"
    and r: "10 * int (length r) = hf_slot_size hf"
  shows "\<exists>k s hf'. put_record hf r = Inr hf' \<and> heap_inv hf' \<and> sized_as hf hf' \<and> heap_abs hf (k, s) = None
    \<and> heap_abs hf' = (heap_abs hf)((k, s) \<mapsto> record_image r) \<and> length (heap_view hf') \<le> Suc (length (heap_view hf))
    \<and> int (length (hcontents hf')) \<le> int (length (hcontents hf)) + 2 * hf_page_size hf"
proof -
  obtain k hf1 s0 where g: "get_free_pid hf = Inr (int k, hf1)" "heap_inv hf1" "sized_as hf hf1" "heap_abs hf1 = heap_abs hf"
    "k < length (heap_view hf1)" "s0 < cap (heap_view hf1 ! k)" "page_abs (heap_view hf1 ! k) s0 = None"
    "int (length (hcontents hf1)) \<le> int (length (hcontents hf)) + 2 * hf_page_size hf"
    "length (heap_view hf1) \<le> Suc (length (heap_view hf))"
    using get_free_pid_spec [OF inv len] by blast
  let ?p = "heap_view hf1 ! k"
  note p = view_page [OF g(2,5)]
  have "length (record_image r) = nat (pg_slot_size ?p)" using r p(2) g(3) by (simp add: length_record_image sized_as_def)
  then obtain s p' where p': "add_fixed_len_page ?p r = Inr (int s, p')" "s < cap ?p" "page_abs ?p s = None" "wf_page p'"
    "(pg_page_size p', pg_slot_size p') = (pg_page_size ?p, pg_slot_size ?p)"
    "page_abs p' = (page_abs ?p)(s \<mapsto> record_image r)"
    using fp.add_free_spec [OF p(1) g(6,7)] by blast
  obtain hf2 hf' where m: "get_page hf1 (int k) = Inr hf2" "cached_page hf2 = Some ?p"
    "commit_page (hf2\<lparr>cached_page := Some p'\<rparr>) (int k) = Inr hf'" "heap_inv hf'" "sized_as hf1 hf'"
    "heap_abs hf' = (heap_abs hf1)((k, s) \<mapsto> record_image r)" "length (hcontents hf') = length (hcontents hf1)"
    "cached_pid hf' = int k" "cached_page hf' = Some p'" "length (heap_view hf') = length (heap_view hf1)"
    using modify_page [OF g(2,5), of "\<lambda>_. Inr p'", OF refl p'(4-6)] by blast
  obtain b where b: "nth_res (pg_data p') (pg_page_size p' - 1) = Inr b"
    using p'(4) by (auto simp: wf_page_def nth_res_def)
  have "get_page hf' (int k) = Inr hf'" using m(8) by (simp add: get_page_def)
  then have "put_record hf r = Inr hf'"
    using g(1) m(1-3,8,9) p'(1) b by (simp add: put_record_def deref_def Let_def)
  moreover have "heap_abs hf1 (k, s) = None" using p'(3) by (auto simp: heap_abs_def)
  then have "heap_abs hf (k, s) = None" using g(4) by simp
  ultimately show ?thesis using m(4-7,10) g by (intro exI [of _ k] exI [of _ s] exI [of _ hf']) (simp add: sized_as_def)
qed


section \<open>Creating, closing and opening\<close>

lemma write_dirs_spec:
  assumes "\<forall>d \<in> set ds. length (dir_data d) = nat (hf_page_size hf)" and "0 < hf_page_size hf"
    and "offs_ok (hf_page_size hf) (hcontents hf) (map dir_offset ds)"
  shows "\<exists>f. write_dirs hf ds = Inr (hf\<lparr>hf_file := f\<rparr>) \<and> length (fcontents f) = length (hcontents hf)
    \<and> (\<forall>d \<in> set ds. blk (hf_page_size hf) (fcontents f) (dir_offset d) = dir_data d)
    \<and> (\<forall>off. off \<notin> dir_offset ` set ds \<longrightarrow> 0 \<le> off \<longrightarrow> hf_page_size hf dvd off
         \<longrightarrow> off + hf_page_size hf \<le> int (length (hcontents hf))
         \<longrightarrow> blk (hf_page_size hf) (fcontents f) off = blk (hf_page_size hf) (hcontents hf) off)"
  using assms
proof (induction ds arbitrary: hf)
  case Nil
  then show ?case by (intro exI [of _ "hf_file hf"]) simp
next
  case (Cons d ds)
  let ?ps = "hf_page_size hf" and ?off = "dir_offset d"
  have off: "0 \<le> ?off" "?ps dvd ?off" "?off + ?ps \<le> int (length (hcontents hf))" and len: "length (dir_data d) = nat ?ps"
    using Cons.prems by (auto simp: offs_ok_def)
  obtain f where f: "write_block hf (dir_data d) ?off = Inr (hf\<lparr>hf_file := f\<rparr>)"
    "fcontents f = blit (hcontents hf) (nat ?off) (dir_data d)"
    using write_block_spec [of ?off hf "dir_data d"] off len Cons.prems(2) by auto
  have lf: "length (fcontents f) = length (hcontents hf)" using f(2) off len Cons.prems(2) by simp
  have "offs_ok ?ps (fcontents f) (map dir_offset ds)" using Cons.prems(3) lf by (simp add: offs_ok_def)
  then obtain g where g: "write_dirs (hf\<lparr>hf_file := f\<rparr>) ds = Inr (hf\<lparr>hf_file := g\<rparr>)" "length (fcontents g) = length (hcontents hf)"
    "\<And>d'. d' \<in> set ds \<Longrightarrow> blk ?ps (fcontents g) (dir_offset d') = dir_data d'"
    "\<And>off. off \<notin> dir_offset ` set ds \<Longrightarrow> 0 \<le> off \<Longrightarrow> ?ps dvd off \<Longrightarrow> off + ?ps \<le> int (length (hcontents hf))
      \<Longrightarrow> blk ?ps (fcontents g) off = blk ?ps (fcontents f) off"
    using Cons.IH [of "hf\<lparr>hf_file := f\<rparr>"] Cons.prems lf by auto
  have "?off \<notin> dir_offset ` set ds" using Cons.prems(3) by (auto simp: offs_ok_def)
  then have "blk ?ps (fcontents g) ?off = dir_data d"
    using g(4) [of ?off] off len Cons.prems(2) by (simp add: f(2) blk_blit_same)
  moreover have "blk ?ps (fcontents g) off = blk ?ps (hcontents hf) off"
    if "off \<notin> dir_offset ` set (d # ds)" "0 \<le> off" "?ps dvd off" "off + ?ps \<le> int (length (hcontents hf))" for off
  proof -
    have "blk ?ps (fcontents g) off = blk ?ps (fcontents f) off" using that g(4) [of off] by simp
    also have "\<dots> = blk ?ps (hcontents hf) off"
      unfolding f(2) using that off len Cons.prems(2) by (intro blk_blit_other) auto
    finally show ?thesis .
  qed
  ultimately show ?case using f(1) g by (intro exI [of _ g]) auto
qed

lemma read_dirs_spec:
  assumes ps: "hf_page_size h = ps" "16 \<le> ps" "ps < 2 ^ 31" and ok: "dirs_ok ps ds" and i: "i < length ds"
    and disk: "\<And>d. d \<in> set ds \<Longrightarrow> 0 \<le> dir_offset d \<and> dir_offset d + ps \<le> int (length (hcontents h))
      \<and> blk ps (hcontents h) (dir_offset d) = dir_data d"
  shows "\<exists>f. open_loop h (dir_offset (ds ! i)) = Some (Inr (h\<lparr>hf_file := f, directory_buffer := directory_buffer h @ drop i ds\<rparr>))
    \<and> fcontents f = hcontents h"
  using i ps(1) disk
proof (induction "length ds - i" arbitrary: i h)
  case (Suc x)
  let ?d = "ds ! i"
  have d: "?d \<in> set ds" "wf_dir ps ?d" using ok Suc.prems(1) by (auto simp: dirs_ok_def)
  have disk: "0 \<le> dir_offset ?d" "dir_offset ?d + ps \<le> int (length (hcontents h))"
    "blk ps (hcontents h) (dir_offset ?d) = dir_data ?d" using Suc.prems(3) d(1) by auto
  obtain d0 where d0: "init_directory_page ps (dir_offset ?d) = Inr d0" "wf_dir ps d0" "dir_offset d0 = dir_offset ?d"
    using init_directory_page_spec [OF ps(2,3)] by blast
  have dd: "d0\<lparr>dir_data := dir_data ?d\<rparr> = ?d" using d0 d(2) by (simp add: wf_dir_def)
  obtain f where f: "read_block h (dir_offset ?d) = Inr (dir_data ?d, h\<lparr>hf_file := f\<rparr>)" "fcontents f = hcontents h"
    using read_block_spec [of "dir_offset ?d" h] disk Suc.prems(2) ps by (auto simp: blk_def)
  let ?h = "h\<lparr>hf_file := f, directory_buffer := directory_buffer h @ [?d]\<rparr>"
  have step: "open_step h (dir_offset ?d) = Inr (dir_next ?d, ?h)"
    using d0(1) f(1) dd Suc.prems(2) wf_dir_facts(4) [OF d(2)] by (simp add: open_step_def Let_def)
  have drop: "drop i ds = ?d # drop (Suc i) ds" using Suc.prems(1) by (simp add: Cons_nth_drop_Suc)
  show ?case
  proof (cases "Suc i < length ds")
    case False
    then have "i = length ds - 1" "drop (Suc i) ds = []" using Suc.prems(1) by auto
    then have "?d = last ds" using Suc.prems(1) by (metis last_conv_nth list.size(3) not_less_zero)
    then have "dir_next ?d = 0" using ok by (simp add: dirs_ok_def)
    then show ?thesis
      using step f(2) drop \<open>drop (Suc i) ds = []\<close> by (intro exI [of _ f]) (simp add: open_loop.simps [of h])
  next
    case True
    then have nx: "dir_next ?d = dir_offset (ds ! Suc i)" "dir_next ?d \<noteq> 0" using ok unfolding dirs_ok_def by metis+
    have "\<exists>g. open_loop ?h (dir_offset (ds ! Suc i)) = Some (Inr (?h\<lparr>hf_file := g, directory_buffer := directory_buffer ?h @ drop (Suc i) ds\<rparr>))
      \<and> fcontents g = hcontents ?h"
      using Suc.hyps(2) True Suc.prems f(2) by (intro Suc.hyps(1)) auto
    then obtain g where "open_loop ?h (dir_offset (ds ! Suc i)) = Some (Inr (h\<lparr>hf_file := g, directory_buffer := directory_buffer h @ drop i ds\<rparr>))"
      "fcontents g = hcontents h" using f(2) drop by auto
    moreover have "open_loop h (dir_offset ?d) = open_loop ?h (dir_offset (ds ! Suc i))"
      using step nx by (simp add: open_loop.simps [of h])
    ultimately show ?thesis by (intro exI [of _ g]) simp
  qed
qed simp

lemma create_heapfile_spec:
  assumes "init_heapfile h0 ps ss = Inr h1" and "directory_buffer h0 = []" and "ps < 2 ^ 31" and "0 < ss" and "ss < ps"
    and "fcontents f = []"
  shows "\<exists>hf. create_heapfile h1 (Some f) = Inr hf \<and> heap_inv hf \<and> heap_abs hf = Map.empty
    \<and> hf_page_size hf = ps \<and> hf_slot_size hf = ss \<and> length (hcontents hf) = nat ps \<and> heap_view hf = []"
proof -
  have ps: "1001 < ps" and h1: "h1 = h0\<lparr>hf_page_size := ps, cached_page := None, cached_pid := -1,
                   page_cache_dirty := False, hf_slot_size := ss\<rparr>"
    using assms(1) by (auto simp: init_heapfile_def assertR_def split: if_splits)
  have g: "16 \<le> ps" using ps by simp
  obtain d where d: "init_directory_page ps 0 = Inr d" "wf_dir ps d" "dir_offset d = 0" "dir_next d = 0" "dir_list d = []"
    using init_directory_page_spec [OF g assms(3)] by blast
  have ld: "length (dir_data d) = nat ps" using d(2) ps by (simp add: wf_dir_def)
  obtain f' where f': "write_block (h1\<lparr>hf_file := f\<rparr>) (dir_data d) 0 = Inr (h1\<lparr>hf_file := f'\<rparr>)" "fcontents f' = dir_data d"
    using write_block_spec [of 0 "h1\<lparr>hf_file := f\<rparr>" "dir_data d"] ld ps assms(6) h1 by (auto simp: blit_def)
  define hf where "hf = h1\<lparr>hf_file := f', directory_buffer := [d]\<rparr>"
  have "create_heapfile h1 (Some f) = Inr hf"
    using d(1) f'(1) assms(2) by (simp add: create_heapfile_def hf_def h1)
  moreover have e: "entries hf = []" using d(5) by (simp add: entries_def hf_def)
  moreover have "heap_inv hf"
    unfolding heap_inv_def e using assms ps d ld f'(2)
    by (simp add: geom_ok_def hf_def h1 dirs_ok_def offs_ok_def heap_offsets_def cache_ok_def entries_def)
  moreover have "heap_abs hf = Map.empty" by (simp add: heap_abs_def e fun_eq_iff)
  moreover have "heap_view hf = []" by (simp add: heap_view_def e)
  ultimately show ?thesis using f'(2) ld by (intro exI [of _ hf]) (simp add: hf_def h1)
qed

lemma wf_dir_length: "wf_dir ps d \<Longrightarrow> length (dir_data d) = nat ps"
  by (simp add: wf_dir_def)

text \<open>Closing writes every page and directory back.\<close>

lemma close_heapfile_spec:
  assumes inv: "heap_inv hf"
  shows "\<exists>g. close_heapfile hf = Inr g \<and> length (fcontents g) = length (hcontents hf)
    \<and> (\<forall>d \<in> set (directory_buffer hf). blk (hf_page_size hf) (fcontents g) (dir_offset d) = dir_data d)
    \<and> (\<forall>k < length (entries hf). disk_page (hf\<lparr>hf_file := g\<rparr>) k = heap_page hf k)"
proof -
  let ?ps = "hf_page_size hf" and ?ds = "directory_buffer hf"
  obtain f where f: "flush_cache hf = Inr (hf\<lparr>hf_file := f\<rparr>)" "length (fcontents f) = length (hcontents hf)"
    "\<And>k. k < length (entries hf) \<Longrightarrow> disk_page (hf\<lparr>hf_file := f\<rparr>) k = heap_page hf k"
    using flush_cache_spec [OF inv] by blast
  have ps: "0 < ?ps" using heap_invD(1) [OF inv] by (simp add: geom_ok_def)
  have "\<forall>d \<in> set ?ds. length (dir_data d) = nat ?ps"
    using heap_invD(2) [OF inv] wf_dir_length by (auto simp: dirs_ok_def)
  moreover have "offs_ok ?ps (fcontents f) (map dir_offset ?ds)"
    using heap_invD(3) [OF inv] f(2) by (auto simp: offs_ok_def heap_offsets_def)
  ultimately obtain g where g: "write_dirs (hf\<lparr>hf_file := f\<rparr>) ?ds = Inr (hf\<lparr>hf_file := g\<rparr>)"
    "length (fcontents g) = length (hcontents hf)" "\<forall>d \<in> set ?ds. blk ?ps (fcontents g) (dir_offset d) = dir_data d"
    "\<And>off. off \<notin> dir_offset ` set ?ds \<Longrightarrow> 0 \<le> off \<Longrightarrow> ?ps dvd off \<Longrightarrow> off + ?ps \<le> int (length (hcontents hf))
      \<Longrightarrow> blk ?ps (fcontents g) off = blk ?ps (fcontents f) off"
    using write_dirs_spec [of ?ds "hf\<lparr>hf_file := f\<rparr>"] ps f(2) by auto
  have "disk_page (hf\<lparr>hf_file := g\<rparr>) k = heap_page hf k" if k: "k < length (entries hf)" for k
  proof -
    have "en_offset (entries hf ! k) \<notin> dir_offset ` set ?ds"
      using heap_invD(3) [OF inv] nth_mem [OF k] unfolding offs_ok_def heap_offsets_def by auto
    then have "blk ?ps (fcontents g) (en_offset (entries hf ! k)) = blk ?ps (fcontents f) (en_offset (entries hf ! k))"
      using g(4) entry_offset [OF inv k] by blast
    then show ?thesis using f(3) [OF k] by (simp add: disk_page_def)
  qed
  then show ?thesis using f(1) g by (intro exI [of _ g]) (simp add: close_heapfile_def)
qed

text \<open>Opening the file that was closed gives back the same pages.\<close>

lemma close_open_spec:
  assumes inv: "heap_inv hf" and c: "close_heapfile hf = Inr g" and g': "fcontents g' = fcontents g"
    and h: "init_heapfile h0 (hf_page_size hf) (hf_slot_size hf) = Inr h1" "directory_buffer h0 = []"
  shows "\<exists>hf'. open_heapfile h1 (Some g') = Some (Inr hf') \<and> heap_inv hf' \<and> sized_as hf hf'
    \<and> heap_view hf' = heap_view hf \<and> length (hcontents hf') = length (hcontents hf)"
proof -
  let ?ps = "hf_page_size hf" and ?ds = "directory_buffer hf"
  have geom: "geom_ok hf" "16 \<le> ?ps" "?ps < 2 ^ 31" using heap_invD(1) [OF inv] by (auto simp: geom_ok_def)
  have g: "length (fcontents g) = length (hcontents hf)" "\<forall>d \<in> set ?ds. blk ?ps (fcontents g) (dir_offset d) = dir_data d"
    "\<And>k. k < length (entries hf) \<Longrightarrow> disk_page (hf\<lparr>hf_file := g\<rparr>) k = heap_page hf k"
    using close_heapfile_spec [OF inv] c by auto
  have h1: "h1 = h0\<lparr>hf_page_size := ?ps, cached_page := None, cached_pid := -1,
                   page_cache_dirty := False, hf_slot_size := hf_slot_size hf\<rparr>"
    using h(1) by (auto simp: init_heapfile_def assertR_def split: if_splits)
  have ok: "dirs_ok ?ps ?ds" using heap_invD(2) [OF inv] .
  then have ds: "?ds \<noteq> []" "dir_offset (?ds ! 0) = 0" by (auto simp: dirs_ok_def hd_conv_nth)
  have disk: "0 \<le> dir_offset d \<and> dir_offset d + ?ps \<le> int (length (hcontents (h1\<lparr>hf_file := g'\<rparr>)))
      \<and> blk ?ps (hcontents (h1\<lparr>hf_file := g'\<rparr>)) (dir_offset d) = dir_data d" if "d \<in> set ?ds" for d
    using that g g' heap_invD(3) [OF inv] by (auto simp: offs_ok_def heap_offsets_def)
  have "\<exists>f. open_loop (h1\<lparr>hf_file := g'\<rparr>) (dir_offset (?ds ! 0)) = Some (Inr ((h1\<lparr>hf_file := g'\<rparr>)\<lparr>hf_file := f,
      directory_buffer := directory_buffer (h1\<lparr>hf_file := g'\<rparr>) @ drop 0 ?ds\<rparr>)) \<and> fcontents f = hcontents (h1\<lparr>hf_file := g'\<rparr>)"
    using h1 ds(1) by (intro read_dirs_spec [OF _ geom(2,3) ok _ disk]) auto
  then obtain f where f: "open_heapfile h1 (Some g') = Some (Inr (h1\<lparr>hf_file := f, directory_buffer := ?ds\<rparr>))" "fcontents f = fcontents g"
    using h(2) h1 g' ds(2) by (auto simp: open_heapfile_def)
  define hf' where "hf' = h1\<lparr>hf_file := f, directory_buffer := ?ds\<rparr>"
  have same: "hf_page_size hf' = ?ps" "hf_slot_size hf' = hf_slot_size hf" "directory_buffer hf' = ?ds" "entries hf' = entries hf"
    "heap_offsets hf' = heap_offsets hf" "hcontents hf' = fcontents g" "geom_ok hf' = geom_ok hf" "cached_pid hf' = -1"
    "cached_page hf' = None" "\<not> page_cache_dirty hf'"
    using f(2) by (simp_all add: hf'_def h1 entries_def heap_offsets_def geom_ok_def)
  have hp: "heap_page hf' k = heap_page hf k" if "k < length (entries hf)" for k
    using g(3) [OF that] by (simp add: heap_page_def disk_page_def same)
  have "heap_inv hf'"
    using inv hp offs_ok_length [OF heap_invD(3) [OF inv] g(1)] unfolding heap_inv_def same by (simp add: cache_ok_def same)
  moreover have "heap_view hf' = heap_view hf" by (simp add: heap_view_def same hp)
  ultimately show ?thesis using f(1) g(1) by (intro exI [of _ hf']) (simp add: hf'_def [symmetric] sized_as_def same)
qed


section \<open>The interface of a heap file\<close>

text \<open>The bag of record images that a store holds.\<close>

definition contents_of :: "('k \<rightharpoonup> 'v) \<Rightarrow> 'v multiset" where
  "contents_of m = image_mset (\<lambda>k. the (m k)) (mset_set (dom m))"

lemma contents_of_empty [simp]: "contents_of Map.empty = {#}"
  by (simp add: contents_of_def)

lemma contents_of_insert:
  assumes "finite (dom m)" and "m k = None"
  shows "contents_of (m(k \<mapsto> v)) = add_mset v (contents_of m)"
proof -
  have k: "k \<notin> dom m" using assms(2) by auto
  then have "image_mset (\<lambda>j. the ((m(k \<mapsto> v)) j)) (mset_set (dom m)) = contents_of m"
    unfolding contents_of_def using assms(1) by (intro image_mset_cong) auto
  then show ?thesis using assms(1) k by (simp add: contents_of_def)
qed

lemma contents_of_delete:
  assumes "finite (dom m)" and "m k = Some v"
  shows "contents_of m = add_mset v (contents_of (m(k := None)))"
proof -
  have "m = (m(k := None))(k \<mapsto> v)" using assms(2) by auto
  then show ?thesis using contents_of_insert [of "m(k := None)" k v] assms(1) by simp
qed

lemma contents_of_update:
  assumes "finite (dom m)" and "m k = Some v"
  shows "contents_of (m(k \<mapsto> w)) = contents_of m - {#v#} + {#w#}"
  using contents_of_delete [OF assms] contents_of_insert [of "m(k := None)" k w] assms(1) by simp

text \<open>Putting records one after the other, as the tools do; it stops at the first failure.\<close>

fun put_all :: "('h \<Rightarrow> 'r \<Rightarrow> 'h res) \<Rightarrow> 'h \<Rightarrow> 'r list \<Rightarrow> 'h res" where
  "put_all put h [] = Inr h"
| "put_all put h (r # rs) = bindR (put h r) (\<lambda>h. put_all put h rs)"

locale record_heap =
  fixes inv :: "'h \<Rightarrow> bool" and abs :: "'h \<Rightarrow> nat \<times> nat \<rightharpoonup> bytes" and geo :: "'h \<Rightarrow> int \<times> int"
    and attrs :: "'h \<Rightarrow> nat" and room :: "'h \<Rightarrow> nat"
    and pages :: "'h \<Rightarrow> nat" and put :: "'h \<Rightarrow> Record \<Rightarrow> 'h res" and get :: "'h \<Rightarrow> int \<times> int \<Rightarrow> nat \<Rightarrow> (Record \<times> 'h) res"
    and upd :: "'h \<Rightarrow> int \<times> int \<Rightarrow> Record \<Rightarrow> 'h res" and del :: "'h \<Rightarrow> int \<times> int \<Rightarrow> 'h res"
  assumes attrs_geo: "geo h' = geo h \<Longrightarrow> attrs h' = attrs h"
    and finite_abs: "inv h \<Longrightarrow> finite (dom (abs h))"
    and put_law: "inv h \<Longrightarrow> 0 < room h \<Longrightarrow> length r = attrs h \<Longrightarrow>
      \<exists>rid h'. put h r = Inr h' \<and> inv h' \<and> geo h' = geo h \<and> room h \<le> Suc (room h')
        \<and> pages h' \<le> Suc (pages h) \<and> abs h rid = None \<and> abs h' = (abs h)(rid \<mapsto> record_image r)"
    and get_law: "inv h \<Longrightarrow> abs h (k, s) = Some img \<Longrightarrow>
      \<exists>h'. get h (int k, int s) (attrs h) = Inr (split_image img (attrs h), h') \<and> inv h' \<and> geo h' = geo h
        \<and> room h' = room h \<and> abs h' = abs h"
    and upd_law: "inv h \<Longrightarrow> abs h (k, s) \<noteq> None \<Longrightarrow> length r = attrs h \<Longrightarrow>
      \<exists>h'. upd h (int k, int s) r = Inr h' \<and> inv h' \<and> geo h' = geo h \<and> room h' = room h
        \<and> abs h' = (abs h)((k, s) \<mapsto> record_image r)"
    and del_law: "inv h \<Longrightarrow> abs h (k, s) \<noteq> None \<Longrightarrow>
      \<exists>h'. del h (int k, int s) = Inr h' \<and> inv h' \<and> geo h' = geo h \<and> room h' = room h
        \<and> abs h' = (abs h)((k, s) := None)"
begin

lemma put_contents:
  assumes "inv h" and "0 < room h" and "length r = attrs h"
  shows "\<exists>h'. put h r = Inr h' \<and> inv h' \<and> geo h' = geo h \<and> room h \<le> Suc (room h')
    \<and> pages h' \<le> Suc (pages h) \<and> contents_of (abs h') = add_mset (record_image r) (contents_of (abs h))"
  using put_law [OF assms] contents_of_insert [OF finite_abs [OF assms(1)]] by metis

text \<open>A batch of inserts adds exactly the batch.\<close>

lemma put_all_contents:
  assumes "inv h" and "length rs \<le> room h" and "\<forall>r \<in> set rs. length r = attrs h"
  shows "\<exists>h'. put_all put h rs = Inr h' \<and> inv h' \<and> geo h' = geo h \<and> room h \<le> length rs + room h'
    \<and> pages h' \<le> length rs + pages h \<and> contents_of (abs h') = contents_of (abs h) + image_mset record_image (mset rs)"
  using assms
proof (induction rs arbitrary: h)
  case (Cons r rs)
  then obtain h1 where h1: "put h r = Inr h1" "inv h1" "geo h1 = geo h" "room h \<le> Suc (room h1)"
    "pages h1 \<le> Suc (pages h)" "contents_of (abs h1) = add_mset (record_image r) (contents_of (abs h))"
    using put_contents [of h r] by auto
  then have "attrs h1 = attrs h" using attrs_geo by blast
  with h1 obtain h' where "put_all put h1 rs = Inr h'" "inv h'" "geo h' = geo h" "room h1 \<le> length rs + room h'"
    "pages h' \<le> length rs + pages h1" "contents_of (abs h') = contents_of (abs h1) + image_mset record_image (mset rs)"
    using Cons.IH [of h1] Cons.prems by auto
  then show ?case using h1 by (intro exI [of _ h']) simp
qed simp

text \<open>A record put is found again under the id it got, cut to the attribute size.\<close>

lemma put_get:
  assumes "inv h" and "0 < room h" and "length r = attrs h"
  shows "\<exists>h' k s h''. put h r = Inr h' \<and> abs h (k, s) = None
    \<and> get h' (int k, int s) (length r) = Inr (map mk_attribute r, h'') \<and> inv h'' \<and> abs h'' = abs h'"
proof -
  obtain k s h' where p: "put h r = Inr h'" "inv h'" "geo h' = geo h" "abs h (k, s) = None"
    "abs h' = (abs h)((k, s) \<mapsto> record_image r)" using put_law [OF assms] by fastforce
  then have "abs h' (k, s) = Some (record_image r)" by simp
  from get_law [OF p(2) this] p assms(3) attrs_geo [OF p(3)] show ?thesis by (metis split_record_image)
qed

lemma upd_get:
  assumes "inv h" and "abs h (k, s) \<noteq> None" and "length r = attrs h"
  shows "\<exists>h' h''. upd h (int k, int s) r = Inr h' \<and> get h' (int k, int s) (length r) = Inr (map mk_attribute r, h'')
    \<and> inv h'' \<and> abs h'' = (abs h)((k, s) \<mapsto> record_image r)"
proof -
  obtain h' where u: "upd h (int k, int s) r = Inr h'" "inv h'" "geo h' = geo h"
    "abs h' = (abs h)((k, s) \<mapsto> record_image r)" using upd_law [OF assms] by blast
  then have "abs h' (k, s) = Some (record_image r)" by simp
  from get_law [OF u(2) this] u assms(3) attrs_geo [OF u(3)] show ?thesis by (metis split_record_image)
qed

lemma upd_contents:
  assumes "inv h" and "abs h (k, s) = Some img" and "length r = attrs h"
  shows "\<exists>h'. upd h (int k, int s) r = Inr h' \<and> inv h'
    \<and> contents_of (abs h') = contents_of (abs h) - {#img#} + {#record_image r#}"
  using upd_law [OF assms(1) _ assms(3)] assms(2) contents_of_update [OF finite_abs [OF assms(1)] assms(2)]
  by fastforce

lemma del_contents:
  assumes "inv h" and "abs h (k, s) = Some img"
  shows "\<exists>h'. del h (int k, int s) = Inr h' \<and> inv h' \<and> abs h' (k, s) = None
    \<and> contents_of (abs h) = add_mset img (contents_of (abs h'))"
  using del_law [OF assms(1)] assms(2) contents_of_delete [OF finite_abs [OF assms(1)] assms(2)] by fastforce

end

text \<open>
  The heap file of the code provides the interface. The number of further inserts that are certain to
  keep the offsets of the file in the range of \<^verbatim>\<open>int\<close> is \<open>heap_room\<close>: an insert adds at most two blocks.
\<close>

definition record_inv :: "Heapfile \<Rightarrow> bool" where
  "record_inv hf \<longleftrightarrow> heap_inv hf \<and> 10 dvd hf_slot_size hf"

definition heap_geo :: "Heapfile \<Rightarrow> int \<times> int" where
  "heap_geo hf = (hf_page_size hf, hf_slot_size hf)"

definition heap_attrs :: "Heapfile \<Rightarrow> nat" where
  "heap_attrs hf = nat (hf_slot_size hf) div 10"

definition heap_room :: "Heapfile \<Rightarrow> nat" where
  "heap_room hf = nat ((2 ^ 31 - 1 - int (length (hcontents hf))) div (2 * hf_page_size hf))"

lemma heap_attrs_slot: "record_inv hf \<Longrightarrow> 10 * int (heap_attrs hf) = hf_slot_size hf"
  using heap_invD(1) [of hf] by (auto simp: record_inv_def heap_attrs_def geom_ok_def zdiv_int)

lemma heap_room_pos:
  assumes "heap_inv hf" and "0 < heap_room hf"
  shows "int (length (hcontents hf)) + 2 * hf_page_size hf < 2 ^ 31"
proof -
  let ?q = "2 * hf_page_size hf" and ?a = "2 ^ 31 - 1 - int (length (hcontents hf))"
  have q: "0 < ?q" using heap_invD(1) [OF assms(1)] by (simp add: geom_ok_def)
  have "1 \<le> ?a div ?q" using assms(2) by (simp add: heap_room_def)
  then have "?q \<le> ?a" using q pos_imp_zdiv_pos_iff [of ?q ?a] by linarith
  then show ?thesis by simp
qed

lemma heap_room_grow:
  assumes "0 < hf_page_size hf" and "sized_as hf hf'"
    and "int (length (hcontents hf')) \<le> int (length (hcontents hf)) + 2 * hf_page_size hf"
  shows "heap_room hf \<le> Suc (heap_room hf')"
proof -
  let ?q = "2 * hf_page_size hf" and ?a = "2 ^ 31 - 1 - int (length (hcontents hf))" and ?b = "2 ^ 31 - 1 - int (length (hcontents hf'))"
  have "?a div ?q \<le> (?b + ?q) div ?q" using assms by (intro zdiv_mono1) auto
  also have "\<dots> = ?b div ?q + 1" using assms(1) by simp
  finally have le: "?a div ?q \<le> ?b div ?q + 1" .
  have ps: "hf_page_size hf' = hf_page_size hf" using assms(2) by (simp add: sized_as_def)
  show ?thesis unfolding heap_room_def ps using le by linarith
qed

lemma sized_as_same:
  assumes "sized_as hf hf'"
  shows "heap_geo hf' = heap_geo hf" and "length (hcontents hf') = length (hcontents hf) \<Longrightarrow> heap_room hf' = heap_room hf"
    and "heap_inv hf' \<Longrightarrow> record_inv hf \<Longrightarrow> record_inv hf'"
  using assms by (simp_all add: sized_as_def heap_geo_def heap_room_def record_inv_def)

lemma finite_heap_abs:
  assumes "heap_inv hf" shows "finite (dom (heap_abs hf))"
proof -
  have "dom (heap_abs hf) \<subseteq> (SIGMA k:{..<length (heap_view hf)}. dom (page_abs (heap_view hf ! k)))"
    by (auto simp: heap_abs_def split: if_splits)
  moreover have "finite (dom (page_abs (heap_view hf ! k)))" if "k < length (heap_view hf)" for k
    using fp.finite_abs view_page(1) [OF assms that] by blast
  ultimately show ?thesis by (meson finite_SigmaI finite_lessThan finite_subset lessThan_iff)
qed

lemma has_slot_abs: "heap_abs hf (k, s) \<noteq> None \<Longrightarrow> has_slot hf k s"
  by (auto simp: heap_abs_def has_slot_def page_abs_def split: if_splits)

interpretation hp: record_heap record_inv heap_abs heap_geo heap_attrs heap_room "\<lambda>hf. length (heap_view hf)" put_record get_record update_record delete_record
proof unfold_locales
  fix h r and k s :: nat and img
  assume inv: "record_inv h"
  then have hi: "heap_inv h" and at: "10 * int (heap_attrs h) = hf_slot_size h" using heap_attrs_slot by (auto simp: record_inv_def)
  have ps: "0 < hf_page_size h" using heap_invD(1) [OF hi] by (simp add: geom_ok_def)
  show "finite (dom (heap_abs h))" using hi by (rule finite_heap_abs)
  show "0 < heap_room h \<Longrightarrow> length r = heap_attrs h \<Longrightarrow> \<exists>rid h'. put_record h r = Inr h' \<and> record_inv h'
    \<and> heap_geo h' = heap_geo h \<and> heap_room h \<le> Suc (heap_room h') \<and> length (heap_view h') \<le> Suc (length (heap_view h)) \<and> heap_abs h rid = None
    \<and> heap_abs h' = (heap_abs h)(rid \<mapsto> record_image r)"
    using put_record_spec [OF hi heap_room_pos [OF hi], of r] at heap_room_grow [OF ps] sized_as_same [of h] inv by metis
  show "heap_abs h (k, s) = Some img \<Longrightarrow> \<exists>h'. get_record h (int k, int s) (heap_attrs h) = Inr (split_image img (heap_attrs h), h')
    \<and> record_inv h' \<and> heap_geo h' = heap_geo h \<and> heap_room h' = heap_room h \<and> heap_abs h' = heap_abs h"
    using get_record_spec [OF hi, of k s img "heap_attrs h"] at sized_as_same [of h] inv by metis
  show "heap_abs h (k, s) \<noteq> None \<Longrightarrow> length r = heap_attrs h \<Longrightarrow> \<exists>h'. update_record h (int k, int s) r = Inr h' \<and> record_inv h'
    \<and> heap_geo h' = heap_geo h \<and> heap_room h' = heap_room h \<and> heap_abs h' = (heap_abs h)((k, s) \<mapsto> record_image r)"
    using update_record_spec [OF hi has_slot_abs, of k s r] at sized_as_same [of h] inv by metis
  show "heap_abs h (k, s) \<noteq> None \<Longrightarrow> \<exists>h'. delete_record h (int k, int s) = Inr h' \<and> record_inv h'
    \<and> heap_geo h' = heap_geo h \<and> heap_room h' = heap_room h \<and> heap_abs h' = (heap_abs h)((k, s) := None)"
    using delete_record_spec [OF hi has_slot_abs, of k s] sized_as_same [of h] inv by metis
next
  fix h h' :: Heapfile
  show "heap_geo h' = heap_geo h \<Longrightarrow> heap_attrs h' = heap_attrs h" by (simp add: heap_geo_def heap_attrs_def)
qed


end
