(* ===== verification/Record_Iterator.thy ===== *)
theory Record_Iterator
  imports Heap_Ops
begin

text \<open>
  \<^verbatim>\<open>RecordIterator\<close> of \<^verbatim>\<open>a1/heapfile.cpp\<close>: the scan of a heap file. The loop of \<^verbatim>\<open>increment_iterator\<close> and
  the loops of the tools over an iterator are partial functions (\<open>None\<close>: no result); that they end is
  part of \<open>for_heap_any\<close> (a directory has an unused entry) and \<open>for_heap_full\<close> (all directories are full).
\<close>

section \<open>Model\<close>

record RecordIterator =
  it_heapfile :: Heapfile
  it_pid :: int
  it_slot :: int
  has_next :: bool

text \<open>\<^verbatim>\<open>page_is_allocated\<close>: the slot of \<open>pid\<close> in its directory is below \<^verbatim>\<open>*dir->n_entries\<close>.\<close>

definition page_is_allocated :: "Heapfile \<Rightarrow> int \<Rightarrow> int \<Rightarrow> bool res" where
  "page_is_allocated heapfile per_dir pid =
     (let dir_no = pid sdiv per_dir; slot_no = pid smod per_dir in
      bindR (nth_res (directory_buffer heapfile) dir_no) (\<lambda>dir.
      bindR (n_entries dir) (\<lambda>n. Inr (slot_no < n))))"

text \<open>One evaluation of the loop condition with the body after it; the flag tells that the loop is left.\<close>

definition increment_step :: "int \<Rightarrow> RecordIterator \<Rightarrow> (bool \<times> RecordIterator) res" where
  "increment_step per_dir it =
     bindR (page_is_allocated (it_heapfile it) per_dir (it_pid it)) (\<lambda>allocated.
     if allocated
     then bindR (get_page (it_heapfile it) (it_pid it)) (\<lambda>heapfile.
          bindR (deref (cached_page heapfile)) (\<lambda>page.
          bindR (get_next_filled_slot page (it_slot it)) (\<lambda>slot.
          let it = it\<lparr>it_heapfile := heapfile, it_slot := slot\<rparr> in
          if 0 \<le> slot then Inr (True, it) else Inr (False, it\<lparr>it_pid := it_pid it + 1\<rparr>))))
     else Inr (True, it\<lparr>has_next := False\<rparr>))"

partial_function (option) increment_loop :: "int \<Rightarrow> RecordIterator \<Rightarrow> RecordIterator res option" where
  "increment_loop per_dir it =
     (case increment_step per_dir it of
        Inl e \<Rightarrow> Some (Inl e)
      | Inr r \<Rightarrow> if fst r then Some (Inr (snd r)) else increment_loop per_dir (snd r))"

definition increment_iterator :: "RecordIterator \<Rightarrow> RecordIterator res option" where
  "increment_iterator it =
     (case nth_res (directory_buffer (it_heapfile it)) 0 of
        Inl e \<Rightarrow> Some (Inl e)
      | Inr dir \<Rightarrow> increment_loop (dir_capacity dir) it)"

text \<open>The constructor does not set \<^verbatim>\<open>has_next\<close>: the indeterminate value is an argument of the model.\<close>

definition mk_RecordIterator :: "bool \<Rightarrow> Heapfile \<Rightarrow> RecordIterator res option" where
  "mk_RecordIterator uninit heap =
     increment_iterator \<lparr>it_heapfile = heap, it_pid = 0, it_slot = -1, has_next = uninit\<rparr>"

definition hasNext :: "RecordIterator \<Rightarrow> bool" where
  "hasNext it = has_next it"

definition nextRID :: "RecordIterator \<Rightarrow> int \<times> int" where
  "nextRID it = (it_pid it, it_slot it)"

definition iterator_record :: "RecordIterator \<Rightarrow> (Record \<times> RecordIterator) res" where
  "iterator_record it =
     bindR (get_page (it_heapfile it) (it_pid it)) (\<lambda>heapfile.
     bindR (deref (cached_page heapfile)) (\<lambda>page.
     bindR (read_fixed_len_page page (it_slot it) 100) (\<lambda>record.
     Inr (record, it\<lparr>it_heapfile := heapfile\<rparr>))))"

definition iterator_next :: "RecordIterator \<Rightarrow> (Record \<times> RecordIterator) res option" where
  "iterator_next it =
     (case iterator_record it of
        Inl e \<Rightarrow> Some (Inl e)
      | Inr r \<Rightarrow> (case increment_iterator (snd r) of
            None \<Rightarrow> None
          | Some (Inl e) \<Rightarrow> Some (Inl e)
          | Some (Inr it) \<Rightarrow> Some (Inr (fst r, it))))"

text \<open>
  The loop \<^verbatim>\<open>while (rit.hasNext()) { rid = rit.nextRID(); rec = rit.next(); ... }\<close> of the tools. The body
  gets the tool's own state, the record id and the record, and tells whether it breaks out of the loop.
\<close>

type_synonym 'a loop_body = "'a \<Rightarrow> int \<times> int \<Rightarrow> Record \<Rightarrow> (bool \<times> 'a) res"

partial_function (option) for_records :: "'a loop_body \<Rightarrow> 'a \<Rightarrow> RecordIterator \<Rightarrow> ('a \<times> Heapfile) res option" where
  "for_records body acc it =
     (if hasNext it
      then (case iterator_next it of
          None \<Rightarrow> None
        | Some res \<Rightarrow> (case res of Inl e \<Rightarrow> Some (Inl e)
            | Inr r \<Rightarrow> (case body acc (nextRID it) (fst r) of
                Inl e \<Rightarrow> Some (Inl e)
              | Inr b \<Rightarrow> if fst b then Some (Inr (snd b, it_heapfile (snd r)))
                  else for_records body (snd b) (snd r))))
      else Some (Inr (acc, it_heapfile it)))"

definition for_heap :: "'a loop_body \<Rightarrow> 'a \<Rightarrow> bool \<Rightarrow> Heapfile \<Rightarrow> ('a \<times> Heapfile) res option" where
  "for_heap body acc uninit heapfile =
     (case mk_RecordIterator uninit heapfile of
        None \<Rightarrow> None
      | Some res \<Rightarrow> (case res of Inl e \<Rightarrow> Some (Inl e) | Inr it \<Rightarrow> for_records body acc it))"

section \<open>Correctness\<close>

definition page_rids :: "Heapfile \<Rightarrow> nat \<Rightarrow> (nat \<times> nat) list" where
  "page_rids hf k =
     (if k < length (heap_view hf)
      then map (Pair k) (filter (\<lambda>s. s \<in> dom (page_abs (heap_view hf ! k))) [0..<cap (heap_view hf ! k)])
      else [])"

text \<open>The used record ids of a heap, in the order of pages and slots.\<close>

definition heap_rids :: "Heapfile \<Rightarrow> (nat \<times> nat) list" where
  "heap_rids hf = concat (map (page_rids hf) [0..<length (heap_view hf)])"

lemma set_heap_rids: "set (heap_rids hf) = dom (heap_abs hf)"
proof -
  have "page_abs p s = Some img \<Longrightarrow> s < cap p" for p s img by (auto simp: page_abs_def split: if_splits)
  then show ?thesis
    by (auto simp: heap_rids_def page_rids_def heap_abs_def domI split: if_splits simp del: length_heap_view nth_heap_view)
qed

lemma distinct_page_rids: "distinct ks \<Longrightarrow> distinct (concat (map (page_rids hf) ks))"
  by (induction ks) (auto simp: page_rids_def distinct_map inj_on_def simp del: length_heap_view nth_heap_view split: if_splits)

lemma distinct_heap_rids: "distinct (heap_rids hf)"
  unfolding heap_rids_def by (rule distinct_page_rids) simp

lemma contents_heap_rids: "contents_of (heap_abs hf) = mset (map (\<lambda>rid. the (heap_abs hf rid)) (heap_rids hf))"
  unfolding contents_of_def set_heap_rids [symmetric] mset_map by (simp add: mset_set_set distinct_heap_rids)

text \<open>The ids from page \<open>k\<close> on, on that page after \<open>slot\<close>.\<close>

definition rids_from :: "Heapfile \<Rightarrow> nat \<Rightarrow> int \<Rightarrow> (nat \<times> nat) list" where
  "rids_from hf k slot =
     filter (\<lambda>(k, s). slot < int s) (page_rids hf k) @ concat (map (page_rids hf) [Suc k..<length (heap_view hf)])"

lemma heap_rids_from: "heap_rids hf = rids_from hf 0 (-1)"
proof (cases "heap_view hf = []")
  case True
  then show ?thesis by (simp add: heap_rids_def rids_from_def page_rids_def del: length_heap_view)
next
  case False
  then have "[0..<length (heap_view hf)] = 0 # [1..<length (heap_view hf)]" by (simp add: upt_conv_Cons del: length_heap_view)
  moreover have "filter (\<lambda>(k, s). - 1 < int s) (page_rids hf 0) = page_rids hf 0" by (auto simp: filter_id_conv)
  ultimately show ?thesis by (simp add: heap_rids_def rids_from_def del: length_heap_view)
qed

lemma rids_from_next:
  assumes "filter (\<lambda>(k, s). slot < int s) (page_rids hf k) = []"
  shows "rids_from hf k slot = rids_from hf (Suc k) (-1)"
proof (cases "Suc k < length (heap_view hf)")
  case True
  then have "[Suc k..<length (heap_view hf)] = Suc k # [Suc (Suc k)..<length (heap_view hf)]" by (rule upt_conv_Cons)
  moreover have "filter (\<lambda>(k, s). - 1 < int s) (page_rids hf (Suc k)) = page_rids hf (Suc k)" by (auto simp: filter_id_conv)
  ultimately show ?thesis using assms by (simp add: rids_from_def del: length_heap_view)
next
  case False
  then show ?thesis using assms by (simp add: rids_from_def page_rids_def del: length_heap_view)
qed

text \<open>There is an unused entry in the last directory.\<close>

definition spare_entry :: "Heapfile \<Rightarrow> bool" where
  "spare_entry hf \<longleftrightarrow> length (entries hf) < length (directory_buffer hf) * dir_cap (hf_page_size hf)"

lemma load_int_error: "load_int m i = Inl e \<Longrightarrow> e = Out_of_bounds"
  by (auto simp: load_int_def load_bytes_def split: if_splits)

lemma page_is_allocated_entry:
  assumes "nth_res (directory_buffer hf) 0 = Inr d0"
  shows "page_is_allocated hf (dir_capacity d0) pid =
    (case get_entry hf pid of Inr _ \<Rightarrow> Inr True | Inl e \<Rightarrow> if e = Assert_failed then Inr False else Inl e)"
  using assms
  by (cases "nth_res (directory_buffer hf) (pid sdiv dir_capacity d0)")
    (auto simp: page_is_allocated_def get_entry_def Let_def bindR_def assertR_def nth_res_def n_entries_def
      dest: load_int_error split: sum.splits if_splits)

lemma page_is_allocated_spec:
  assumes inv: "heap_inv hf" and k: "k \<le> length (entries hf)"
  shows "page_is_allocated hf (int (dir_cap (hf_page_size hf))) (int k) =
    (if k < length (entries hf) then Inr True
     else if k div dir_cap (hf_page_size hf) < length (directory_buffer hf) then Inr False else Inl Out_of_bounds)"
proof -
  have ok: "dirs_ok (hf_page_size hf) (directory_buffer hf)" using heap_invD(2) [OF inv] .
  have d0: "nth_res (directory_buffer hf) 0 = Inr (directory_buffer hf ! 0)" using ok by (simp add: nth_res_def dirs_ok_def)
  have c: "dir_capacity (directory_buffer hf ! 0) = int (dir_cap (hf_page_size hf))" using dirs_ok_lists(4) [OF ok] .
  show ?thesis
    using page_is_allocated_entry [OF d0, of "int k"] get_entry_spec(1) [OF ok, of k] get_entry_invalid [OF ok, of k]
    unfolding c by simp
qed


lemma filter_upt_head:
  assumes "filter P [0..<n] = t # ts"
  shows "P t" and "t < n" and "\<And>u. u < t \<Longrightarrow> \<not> P u"
proof -
  have "t \<in> set (filter P [0..<n])" using assms by simp
  then show "P t" "t < n" by auto
  have s: "sorted_wrt (<) (filter P [0..<n])" by (intro sorted_wrt_filter) simp
  show "\<not> P u" if "u < t" for u
  proof
    assume "P u"
    then have "u \<in> set (t # ts)" using that \<open>t < n\<close> assms [symmetric] by simp
    then show False using s that unfolding assms by auto
  qed
qed

definition next_on_page :: "Heapfile \<Rightarrow> nat \<Rightarrow> int \<Rightarrow> (nat \<times> nat) list" where
  "next_on_page hf k slot = filter (\<lambda>(k, s). slot < int s) (page_rids hf k)"

lemma next_on_page_slots:
  assumes "k < length (heap_view hf)"
  shows "next_on_page hf k slot =
    map (Pair k) (filter (\<lambda>s. s \<in> dom (page_abs (heap_view hf ! k)) \<and> slot < int s) [0..<cap (heap_view hf ! k)])"
  using assms by (simp add: next_on_page_def page_rids_def filter_map o_def conj_commute del: length_heap_view nth_heap_view)

lemma next_slot_spec:
  assumes k: "k < length (heap_view hf)" and wf: "wf_page (heap_view hf ! k)" and slot: "-1 \<le> slot"
  shows "next_on_page hf k slot = [] \<Longrightarrow> get_next_filled_slot (heap_view hf ! k) slot = Inr (-1)"
    and "next_on_page hf k slot = (j, t) # rs \<Longrightarrow> j = k \<and> get_next_filled_slot (heap_view hf ! k) slot = Inr (int t)"
proof -
  let ?p = "heap_view hf ! k" and ?P = "\<lambda>s. s \<in> dom (page_abs (heap_view hf ! k)) \<and> slot < int s"
  have lt: "s < cap ?p" if "s \<in> dom (page_abs ?p)" for s using that unfolding dom_page_abs by simp
  note eq = next_on_page_slots [OF k]
  show "get_next_filled_slot ?p slot = Inr (-1)" if "next_on_page hf k slot = []"
  proof (rule get_next_filled_slot_none [OF wf slot])
    fix u assume "slot < int u"
    then show "u \<notin> dom (page_abs ?p)" 
      using that lt [of u] unfolding eq map_is_Nil_conv filter_empty_conv by fastforce
  qed
  assume c: "next_on_page hf k slot = (j, t) # rs"
  then obtain ts where f: "filter ?P [0..<cap ?p] = t # ts" and "j = k"
    unfolding eq by (auto simp: Cons_eq_map_conv map_eq_Cons_conv)
  then show "j = k \<and> get_next_filled_slot ?p slot = Inr (int t)"
    using filter_upt_head [OF f] by (auto intro!: get_next_filled_slot_found [OF wf slot])
qed

text \<open>Where the iterator stands: the heap behind it and the ids still to come.\<close>

definition same_heap :: "Heapfile \<Rightarrow> Heapfile \<Rightarrow> bool" where
  "same_heap hf hf' \<longleftrightarrow> heap_inv hf' \<and> sized_as hf hf' \<and> heap_view hf' = heap_view hf
     \<and> directory_buffer hf' = directory_buffer hf \<and> length (hcontents hf') = length (hcontents hf)"

lemma same_heap_trans: "same_heap a b \<Longrightarrow> same_heap b c \<Longrightarrow> same_heap a c"
  by (simp add: same_heap_def sized_as_def)

lemma same_heap_eq:
  assumes "same_heap hf hf'"
  shows "rids_from hf' = rids_from hf" "spare_entry hf' = spare_entry hf" "entries hf' = entries hf"
    "heap_abs hf' = heap_abs hf" "next_on_page hf' = next_on_page hf"
proof -
  have v: "heap_view hf' = heap_view hf" and d: "directory_buffer hf' = directory_buffer hf" "sized_as hf hf'"
    using assms by (auto simp: same_heap_def)
  have pr: "page_rids hf' = page_rids hf" unfolding page_rids_def v by simp
  show "rids_from hf' = rids_from hf" unfolding rids_from_def pr v by simp
  show "next_on_page hf' = next_on_page hf" unfolding next_on_page_def pr by simp
  show "entries hf' = entries hf" by (simp add: entries_def d)
  then show "spare_entry hf' = spare_entry hf" using d by (simp add: spare_entry_def sized_as_def)
  show "heap_abs hf' = heap_abs hf" using v by (rule heap_abs_cong)
qed

lemma get_page_same:
  assumes "heap_inv hf" and "k < length (heap_view hf)"
  shows "\<exists>hf'. get_page hf (int k) = Inr hf' \<and> same_heap hf hf' \<and> cached_page hf' = Some (heap_view hf ! k)"
  using get_page_spec [of hf k] assms by (fastforce simp: same_heap_def sized_as_def)

definition moved :: "RecordIterator \<Rightarrow> Heapfile \<Rightarrow> nat \<Rightarrow> int \<Rightarrow> (nat \<times> nat) list \<Rightarrow> RecordIterator" where
  "moved it hf n slot rids =
     (case rids of
        [] \<Rightarrow> it\<lparr>it_heapfile := hf, it_pid := int n, it_slot := slot, has_next := False\<rparr>
      | (k, s) # _ \<Rightarrow> it\<lparr>it_heapfile := hf, it_pid := int k, it_slot := int s\<rparr>)"

lemma moved_again: "moved (it\<lparr>it_heapfile := h, it_slot := sl, it_pid := p\<rparr>) hf n slot rids = moved it hf n slot rids"
  by (simp add: moved_def split: list.split prod.split)

text \<open>When every directory is full, the search behind the last record reads a directory that does not exist.\<close>

definition went :: "bool \<Rightarrow> RecordIterator \<Rightarrow> Heapfile \<Rightarrow> nat \<Rightarrow> int \<Rightarrow> (nat \<times> nat) list \<Rightarrow> RecordIterator res" where
  "went spare it hf n slot rids = (if rids = [] \<and> \<not> spare then Inl Out_of_bounds else Inr (moved it hf n slot rids))"

lemma went_simps [simp]: "went True it hf n slot rids = Inr (moved it hf n slot rids)" "went spare it hf n slot (rid # rids) = Inr (moved it hf n slot (rid # rids))"
  "went False it hf n slot [] = Inl Out_of_bounds"
  by (simp_all add: went_def)

lemma went_again: "went sp (it\<lparr>it_heapfile := h, it_slot := sl, it_pid := p\<rparr>) hf n slot rids = went sp it hf n slot rids"
  by (simp add: went_def moved_again)

lemma increment_loop_spec:
  assumes "heap_inv (it_heapfile it)" and "it_pid it = int k"
    and "k \<le> length (heap_view (it_heapfile it))" and "-1 \<le> it_slot it"
  shows "\<exists>hf' slot. same_heap (it_heapfile it) hf' \<and>
    increment_loop (int (dir_cap (hf_page_size (it_heapfile it)))) it =
      Some (went (spare_entry (it_heapfile it)) it hf' (length (heap_view (it_heapfile it))) slot (rids_from (it_heapfile it) k (it_slot it)))"
  using assms
proof (induction "length (heap_view (it_heapfile it)) - k" arbitrary: k it)
  case 0
  let ?hf = "it_heapfile it" and ?c = "dir_cap (hf_page_size (it_heapfile it))"
  have k: "k = length (entries ?hf)" using 0 by simp
  have "0 < ?c" using dirs_ok_lists(3) [OF heap_invD(2) [OF 0(2)]] by simp
  then have "k div ?c < length (directory_buffer ?hf) \<longleftrightarrow> spare_entry ?hf"
    using k by (simp add: spare_entry_def div_less_iff_less_mult)
  then have "page_is_allocated ?hf (int ?c) (int k) = (if spare_entry ?hf then Inr False else Inl Out_of_bounds)"
    using page_is_allocated_spec [OF 0(2), of k] k by simp
  then have "increment_loop (int ?c) it = Some (if spare_entry ?hf then Inr (it\<lparr>has_next := False\<rparr>) else Inl Out_of_bounds)"
    using 0(3) by (simp add: increment_loop.simps [of _ it] increment_step_def)
  moreover have "rids_from ?hf k (it_slot it) = []" using k by (simp add: rids_from_def page_rids_def)
  moreover have "same_heap ?hf ?hf" using 0(2) by (simp add: same_heap_def sized_as_def)
  moreover have "it_pid it = int (length (entries ?hf))" using 0(3) k by simp
  ultimately show ?case by (intro exI [of _ ?hf] exI [of _ "it_slot it"]) (simp add: moved_def went_def)
next
  case (Suc x)
  let ?hf = "it_heapfile it"
  let ?c = "int (dir_cap (hf_page_size ?hf))" and ?slot = "it_slot it" and ?n = "length (heap_view ?hf)"
  have k: "k < ?n" using Suc by simp
  obtain hf1 where g: "get_page ?hf (int k) = Inr hf1" "same_heap ?hf hf1" "cached_page hf1 = Some (heap_view ?hf ! k)"
    using get_page_same [OF Suc.prems(1) k] by blast
  have al: "page_is_allocated ?hf ?c (int k) = Inr True"
    using page_is_allocated_spec [OF Suc.prems(1), of k] k by simp
  note wf = view_page(1) [OF Suc.prems(1) k]
  show ?case
  proof (cases "next_on_page ?hf k ?slot")
    case Nil
    let ?it = "it\<lparr>it_heapfile := hf1, it_slot := -1, it_pid := int (Suc k)\<rparr>"
    have "increment_step ?c it = Inr (False, ?it)"
      using al g next_slot_spec(1) [OF k wf Suc.prems(4) Nil] Suc.prems(2)
      by (simp add: increment_step_def deref_def Let_def add.commute del: nth_heap_view)
    then have step: "increment_loop ?c it = increment_loop ?c ?it" by (simp add: increment_loop.simps [of _ it])
    have ps: "hf_page_size hf1 = hf_page_size ?hf" "heap_view hf1 = heap_view ?hf" "heap_inv hf1"
      using g(2) by (auto simp: same_heap_def sized_as_def)
    have "\<exists>hf' slot. same_heap (it_heapfile ?it) hf' \<and>
      increment_loop (int (dir_cap (hf_page_size (it_heapfile ?it)))) ?it =
      Some (went (spare_entry (it_heapfile ?it)) ?it hf' (length (heap_view (it_heapfile ?it))) slot (rids_from (it_heapfile ?it) (Suc k) (it_slot ?it)))"
      using Suc.hyps(2) ps Suc.prems k
      by (intro Suc.hyps(1)) (auto simp del: length_heap_view)
    then obtain hf' slot where h: "same_heap hf1 hf'"
      "increment_loop ?c ?it = Some (went (spare_entry ?hf) it hf' ?n slot (rids_from ?hf (Suc k) (-1)))"
      using ps(1,2) same_heap_eq(1,2) [OF g(2)] by (auto simp: went_again simp del: length_heap_view of_nat_Suc)
    have "rids_from ?hf k ?slot = rids_from ?hf (Suc k) (-1)"
      using Nil unfolding next_on_page_def by (rule rids_from_next)
    then show ?thesis using step h same_heap_trans [OF g(2) h(1)] by (intro exI [of _ hf'] exI [of _ slot]) simp
  next
    case (Cons a rs)
    then obtain t where a: "a = (k, t)" "get_next_filled_slot (heap_view ?hf ! k) ?slot = Inr (int t)"
      using next_slot_spec(2) [OF k wf Suc.prems(4)] by (cases a) auto
    have "rids_from ?hf k ?slot = a # rs @ concat (map (page_rids ?hf) [Suc k..<?n])"
      using Cons by (simp add: rids_from_def next_on_page_def)
    moreover have "increment_loop ?c it = Some (Inr (it\<lparr>it_heapfile := hf1, it_slot := int t\<rparr>))"
      using al g a(2) Suc.prems(2)
      by (simp add: increment_loop.simps [of _ it] increment_step_def deref_def Let_def del: nth_heap_view)
    ultimately show ?thesis using g(2) a(1) Suc.prems(2) by (intro exI [of _ hf1]) (simp add: moved_def)
  qed
qed


lemma filter_upt_tail:
  assumes "filter P [0..<n] = t # ts" shows "filter (\<lambda>s. P s \<and> t < s) [0..<n] = ts"
proof -
  have "sorted_wrt (<) (t # ts)" unfolding assms [symmetric] by (intro sorted_wrt_filter) simp
  then have "filter ((<) t) (t # ts) = ts" by (auto simp: filter_id_conv)
  then show ?thesis unfolding assms [symmetric] filter_filter .
qed

lemma next_on_page_tail:
  assumes k: "k < length (heap_view hf)" and c: "next_on_page hf k slot = (j, t) # rs"
  shows "j = k" and "t \<in> dom (page_abs (heap_view hf ! k))" and "next_on_page hf k (int t) = rs"
proof -
  let ?P = "\<lambda>s. s \<in> dom (page_abs (heap_view hf ! k)) \<and> slot < int s"
  obtain ts where f: "filter ?P [0..<cap (heap_view hf ! k)] = t # ts" "j = k" "rs = map (Pair k) ts"
    using c unfolding next_on_page_slots [OF k] by (auto simp: map_eq_Cons_conv Cons_eq_map_conv)
  show "j = k" by (rule f(2))
  show "t \<in> dom (page_abs (heap_view hf ! k))" using filter_upt_head(1) [OF f(1)] by simp
  have "slot < int t" using filter_upt_head(1) [OF f(1)] by simp
  then have "(\<lambda>s. ?P s \<and> t < s) = (\<lambda>s. s \<in> dom (page_abs (heap_view hf ! k)) \<and> int t < int s)" by auto
  then show "next_on_page hf k (int t) = rs"
    unfolding next_on_page_slots [OF k] f(3) using filter_upt_tail [OF f(1)] by metis
qed

lemma rids_from_tail:
  assumes "rids_from hf k slot = (j, t) # rs" and "k \<le> length (heap_view hf)"
  shows "j < length (heap_view hf) \<and> t \<in> dom (page_abs (heap_view hf ! j)) \<and> rids_from hf j (int t) = rs"
  using assms
proof (induction "length (heap_view hf) - k" arbitrary: k slot)
  case 0
  then show ?case by (simp add: rids_from_def page_rids_def)
next
  case (Suc x)
  have k: "k < length (heap_view hf)" using Suc by simp
  show ?case
  proof (cases "next_on_page hf k slot")
    case Nil
    then have "rids_from hf k slot = rids_from hf (Suc k) (-1)" unfolding next_on_page_def by (rule rids_from_next)
    then have e: "rids_from hf (Suc k) (-1) = (j, t) # rs" using Suc.prems(1) by simp
    show ?thesis using Suc.hyps(2) k by (intro Suc.hyps(1) [OF _ e]) auto
  next
    case (Cons a as)
    have "a = (j, t)" "rs = as @ concat (map (page_rids hf) [Suc k..<length (heap_view hf)])"
      using Suc.prems(1) Cons by (auto simp: rids_from_def next_on_page_def)
    then show ?thesis
      using next_on_page_tail [OF k, of slot j t as] Cons k by (auto simp: rids_from_def next_on_page_def simp del: length_heap_view nth_heap_view)
  qed
qed

lemma increment_iterator_spec:
  assumes "heap_inv (it_heapfile it)" and "it_pid it = int k"
    and "k \<le> length (heap_view (it_heapfile it))" and "-1 \<le> it_slot it"
  shows "\<exists>hf' slot. same_heap (it_heapfile it) hf' \<and> increment_iterator it =
      Some (went (spare_entry (it_heapfile it)) it hf' (length (heap_view (it_heapfile it))) slot (rids_from (it_heapfile it) k (it_slot it)))"
proof -
  let ?ds = "directory_buffer (it_heapfile it)"
  have ok: "dirs_ok (hf_page_size (it_heapfile it)) ?ds" using heap_invD(2) [OF assms(1)] .
  then have "nth_res ?ds 0 = Inr (?ds ! 0)" by (simp add: nth_res_def dirs_ok_def)
  then show ?thesis using increment_loop_spec [OF assms] dirs_ok_lists(4) [OF ok] by (simp add: increment_iterator_def)
qed

definition seen :: "Heapfile \<Rightarrow> nat \<times> nat \<Rightarrow> (int \<times> int) \<times> Record" where
  "seen hf rid = ((int (fst rid), int (snd rid)), split_image (the (heap_abs hf rid)) 100)"

text \<open>The same loop over a list of ids and records.\<close>

fun run_body :: "'a loop_body \<Rightarrow> 'a \<Rightarrow> ((int \<times> int) \<times> Record) list \<Rightarrow> 'a res" where
  "run_body body acc [] = Inr acc"
| "run_body body acc (x # xs) =
     bindR (body acc (fst x) (snd x)) (\<lambda>b. if fst b then Inr (snd b) else run_body body (snd b) xs)"

lemma iterator_next_spec:
  assumes inv: "heap_inv (it_heapfile it)" "hf_slot_size (it_heapfile it) = 1000"
    and it: "it_pid it = int k" "it_slot it = int s" and k: "k < length (heap_view (it_heapfile it))"
    and s: "s \<in> dom (page_abs (heap_view (it_heapfile it) ! k))"
  shows "\<exists>hf' slot. same_heap (it_heapfile it) hf' \<and> iterator_next it =
    Some (map_sum id (Pair (snd (seen (it_heapfile it) (k, s))))
      (went (spare_entry (it_heapfile it)) it hf' (length (heap_view (it_heapfile it))) slot (rids_from (it_heapfile it) k (int s))))"
proof -
  let ?hf = "it_heapfile it"
  let ?p = "heap_view ?hf ! k"
  obtain hf1 where g: "get_page ?hf (int k) = Inr hf1" "same_heap ?hf hf1" "cached_page hf1 = Some ?p"
    using get_page_same [OF inv(1) k] by blast
  obtain img where img: "page_abs ?p s = Some img" using s by auto
  have "heap_abs ?hf (k, s) = Some img" using img k by (auto simp: heap_abs_def)
  moreover have "read_fixed_len_page ?p (int s) 100 = Inr (split_image img 100)"
    using view_page [OF inv(1) k] inv(2) by (intro fp.get_spec [OF _ img]) auto
  ultimately have rec: "iterator_record it = Inr (snd (seen ?hf (k, s)), it\<lparr>it_heapfile := hf1\<rparr>)"
    using g(1,3) it by (simp add: iterator_record_def deref_def seen_def)
  let ?it = "it\<lparr>it_heapfile := hf1\<rparr>"
  have v: "heap_view hf1 = heap_view ?hf" "heap_inv hf1" using g(2) by (auto simp: same_heap_def)
  obtain hf' slot where h: "same_heap hf1 hf'" "increment_iterator ?it =
      Some (went (spare_entry hf1) ?it hf' (length (heap_view hf1)) slot (rids_from hf1 k (it_slot ?it)))"
    using increment_iterator_spec [of ?it k] v it k by auto
  have "moved ?it hf' n slot rids = moved it hf' n slot rids" for n rids by (simp add: moved_def split: list.split)
  then show ?thesis
    using rec h it v(1) same_heap_eq(1,2) [OF g(2)] same_heap_trans [OF g(2) h(1)]
    by (intro exI [of _ hf'] exI [of _ slot]) (simp add: iterator_next_def went_def del: length_heap_view)
qed

text \<open>The loop of a tool sees the current record and then every one that follows.\<close>

lemma for_records_spec:
  assumes "heap_inv (it_heapfile it)" and "spare_entry (it_heapfile it)" and "hf_slot_size (it_heapfile it) = 1000" and "has_next it"
    and "it_pid it = int k" and "it_slot it = int s" and "k < length (heap_view (it_heapfile it))"
    and "s \<in> dom (page_abs (heap_view (it_heapfile it) ! k))" and "rids_from (it_heapfile it) k (int s) = rs"
  shows "\<exists>hf'. same_heap (it_heapfile it) hf' \<and> for_records body acc it =
    Some (bindR (run_body body acc (map (seen (it_heapfile it)) ((k, s) # rs))) (\<lambda>a. Inr (a, hf')))"
  using assms
proof (induction rs arbitrary: it k s acc)
  case (Nil it k s)
  obtain hf' slot where h: "same_heap (it_heapfile it) hf'" "iterator_next it = Some (Inr (snd (seen (it_heapfile it) (k, s)),
      moved it hf' (length (heap_view (it_heapfile it))) slot []))"
    using iterator_next_spec [OF Nil.prems(1,3,5-8)] Nil.prems(2,9) by auto
  let ?it = "moved it hf' (length (heap_view (it_heapfile it))) slot []"
  have "for_records body a ?it = Some (Inr (a, hf'))" for a by (subst for_records.simps) (simp add: hasNext_def moved_def)
  moreover have "it_heapfile ?it = hf'" by (simp add: moved_def)
  ultimately show ?case
    using h Nil.prems(4-6)
    by (intro exI [of _ hf'])
      (simp add: for_records.simps [of _ _ it] hasNext_def nextRID_def seen_def bindR_def split: sum.splits)
next
  case (Cons a rs it k s)
  let ?hf = "it_heapfile it"
  obtain j t where a: "a = (j, t)" by (cases a)
  obtain hf1 slot where h: "same_heap ?hf hf1" "iterator_next it = Some (Inr (snd (seen ?hf (k, s)),
      moved it hf1 (length (heap_view ?hf)) slot (a # rs)))"
    using iterator_next_spec [OF Cons.prems(1,3,5-8)] Cons.prems(9) by auto
  let ?it = "it\<lparr>it_heapfile := hf1, it_pid := int j, it_slot := int t\<rparr>"
  have m: "moved it hf1 (length (heap_view ?hf)) slot (a # rs) = ?it" by (simp add: moved_def a)
  have tl: "j < length (heap_view ?hf)" "t \<in> dom (page_abs (heap_view ?hf ! j))" "rids_from ?hf j (int t) = rs"
    using rids_from_tail [of ?hf k "int s" j t rs] Cons.prems(7,9) a by auto
  have hv: "heap_view hf1 = heap_view ?hf" and hi: "heap_inv hf1" "hf_slot_size hf1 = 1000"
    using h(1) Cons.prems(3) by (auto simp: same_heap_def sized_as_def)
  have "\<exists>hf'. same_heap (it_heapfile ?it) hf' \<and> for_records body b ?it =
      Some (bindR (run_body body b (map (seen (it_heapfile ?it)) ((j, t) # rs))) (\<lambda>a. Inr (a, hf')))" for b
  proof (rule Cons.IH)
    show "spare_entry (it_heapfile ?it)" using same_heap_eq(2) [OF h(1)] Cons.prems(2) by simp
    show "rids_from (it_heapfile ?it) j (int t) = rs" using tl(3) same_heap_eq(1) [OF h(1)] by simp
    show "j < length (heap_view (it_heapfile ?it))" using tl(1) hv by (simp del: length_heap_view)
    show "t \<in> dom (page_abs (heap_view (it_heapfile ?it) ! j))" using tl(2) hv by (simp del: nth_heap_view)
  qed (use hi Cons.prems(4) in simp_all)
  moreover have sn: "seen hf1 = seen ?hf" using same_heap_eq(4) [OF h(1)] by (simp add: seen_def fun_eq_iff)
  ultimately have i: "\<exists>hf'. same_heap ?hf hf' \<and> for_records body b ?it =
      Some (bindR (run_body body b (map (seen ?hf) (a # rs))) (\<lambda>a. Inr (a, hf')))" for b
    using a same_heap_trans [OF h(1)] by simp blast
  have rid: "nextRID it = fst (seen ?hf (k, s))" using Cons.prems(5,6) by (simp add: nextRID_def seen_def)
  have step: "for_records body acc it = (case body acc (fst (seen ?hf (k, s))) (snd (seen ?hf (k, s))) of
        Inl e \<Rightarrow> Some (Inl e)
      | Inr b \<Rightarrow> if fst b then Some (Inr (snd b, hf1)) else for_records body (snd b) ?it)"
    using h(2) Cons.prems(4) m rid by (subst for_records.simps) (simp add: hasNext_def split: sum.split)
  show ?case
  proof (cases "body acc (fst (seen ?hf (k, s))) (snd (seen ?hf (k, s)))")
    case (Inl e)
    then show ?thesis using step h(1) by (intro exI [of _ hf1]) simp
  next
    case (Inr b)
    let ?x = "seen ?hf (k, s)" and ?xs = "map (seen ?hf) (a # rs)"
    have r: "run_body body acc (?x # ?xs) = (if fst b then Inr (snd b) else run_body body (snd b) ?xs)"
      unfolding run_body.simps(2) Inr by simp
    have m: "map (seen ?hf) ((k, s) # a # rs) = ?x # ?xs" by simp
    show ?thesis unfolding m r using step Inr h(1) i [of "snd b"] by (cases "fst b") (auto simp del: list.map)
  qed
qed

text \<open>
  With \<^verbatim>\<open>has_next\<close> true at the start and an unused entry in the last directory, a scan ends and sees every
  record of the heap exactly once, in the order of pages and slots.
\<close>

lemma for_heap_spec:
  assumes inv: "heap_inv hf" "spare_entry hf" "hf_slot_size hf = 1000"
  shows "\<exists>hf'. same_heap hf hf' \<and> for_heap body acc True hf =
    Some (bindR (run_body body acc (map (seen hf) (heap_rids hf))) (\<lambda>a. Inr (a, hf')))"
proof -
  let ?it = "\<lparr>it_heapfile = hf, it_pid = 0, it_slot = -1, has_next = True\<rparr>"
  obtain hf1 slot where h: "same_heap hf hf1"
    "mk_RecordIterator True hf = Some (Inr (moved ?it hf1 (length (heap_view hf)) slot (heap_rids hf)))"
    using increment_iterator_spec [of ?it 0] inv(1,2) by (auto simp: mk_RecordIterator_def heap_rids_from)
  have hv: "heap_view hf1 = heap_view hf" and hi: "heap_inv hf1" "hf_slot_size hf1 = 1000"
    using h(1) inv(3) by (auto simp: same_heap_def sized_as_def)
  show ?thesis
  proof (cases "heap_rids hf")
    case Nil
    then show ?thesis using h by (intro exI [of _ hf1]) (simp add: for_heap_def moved_def for_records.simps hasNext_def)
  next
    case (Cons a rs)
    obtain j t where a: "a = (j, t)" by (cases a)
    let ?it1 = "?it\<lparr>it_heapfile := hf1, it_pid := int j, it_slot := int t\<rparr>"
    have tl: "j < length (heap_view hf)" "t \<in> dom (page_abs (heap_view hf ! j))" "rids_from hf j (int t) = rs"
      using rids_from_tail [of hf 0 "-1" j t rs] Cons a by (auto simp: heap_rids_from)
    have "\<exists>hf'. same_heap (it_heapfile ?it1) hf' \<and> for_records body acc ?it1 =
        Some (bindR (run_body body acc (map (seen (it_heapfile ?it1)) ((j, t) # rs))) (\<lambda>a. Inr (a, hf')))"
    proof (rule for_records_spec)
      show "spare_entry (it_heapfile ?it1)" using same_heap_eq(2) [OF h(1)] inv(2) by simp
      show "rids_from (it_heapfile ?it1) j (int t) = rs" using tl(3) same_heap_eq(1) [OF h(1)] by simp
      show "j < length (heap_view (it_heapfile ?it1))" using tl(1) hv by (simp del: length_heap_view)
      show "t \<in> dom (page_abs (heap_view (it_heapfile ?it1) ! j))" using tl(2) hv by (simp del: nth_heap_view)
    qed (use hi in simp_all)
    moreover have "seen hf1 = seen hf" using same_heap_eq(4) [OF h(1)] by (simp add: seen_def fun_eq_iff)
    ultimately obtain hf' where "same_heap hf1 hf'"
      "for_records body acc ?it1 = Some (bindR (run_body body acc (map (seen hf) (heap_rids hf))) (\<lambda>a. Inr (a, hf')))"
      using Cons a by auto
    then show ?thesis
      using h Cons a same_heap_trans [OF h(1)] by (intro exI [of _ hf']) (simp add: for_heap_def moved_def)
  qed
qed

text \<open>The two ways in which the code departs from this.\<close>

lemma for_heap_uninitialised:
  assumes "heap_inv hf" "spare_entry hf"
  shows "\<exists>hf'. same_heap hf hf' \<and> for_heap body acc False hf = Some (Inr (acc, hf'))"
proof -
  let ?it = "\<lparr>it_heapfile = hf, it_pid = 0, it_slot = -1, has_next = False\<rparr>"
  obtain hf1 slot where h: "same_heap hf hf1"
    "mk_RecordIterator False hf = Some (Inr (moved ?it hf1 (length (heap_view hf)) slot (heap_rids hf)))"
    using increment_iterator_spec [of ?it 0] assms by (auto simp: mk_RecordIterator_def heap_rids_from)
  then show ?thesis
    by (intro exI [of _ hf1]) (auto simp: for_heap_def moved_def for_records.simps hasNext_def split: list.split)
qed

text \<open>Both values that the member \<open>has_next\<close> can have when the constructor starts.\<close>

lemma for_heap_any:
  assumes "heap_inv hf" "spare_entry hf" "hf_slot_size hf = 1000"
  shows "\<exists>hf'. same_heap hf hf' \<and> for_heap body acc uninit hf =
    Some (bindR (run_body body acc (if uninit then map (seen hf) (heap_rids hf) else [])) (\<lambda>a. Inr (a, hf')))"
  using for_heap_spec [OF assms, of body acc] for_heap_uninitialised [OF assms(1,2), of body acc] by (cases uninit) simp_all

text \<open>A directory that is not full is there unless the pages fill a number of directories exactly.\<close>

lemma spare_entryI:
  assumes "heap_inv hf" "length (heap_view hf) = 0 \<or> \<not> dir_cap (hf_page_size hf) dvd length (heap_view hf)"
  shows "spare_entry hf"
proof -
  let ?ds = "directory_buffer hf" and ?c = "dir_cap (hf_page_size hf)"
  have ok: "dirs_ok (hf_page_size hf) ?ds" using heap_invD(2) [OF assms(1)] .
  have ne: "0 < length ?ds" "0 < ?c" using ok dirs_ok_lists(3) [OF ok] by (auto simp: dirs_ok_def)
  have "length (dir_list (last ?ds)) \<le> ?c" using dirs_ok_lists(2) [OF ok] ok by (simp add: dirs_ok_def)
  moreover have "length ?ds * ?c = (length ?ds - 1) * ?c + ?c" using ne(1) by (cases "length ?ds") simp_all
  ultimately have "length (entries hf) \<le> length ?ds * ?c" using length_entries [OF ok] by linarith
  moreover have "length (entries hf) \<noteq> length ?ds * ?c" using assms(2) ne by auto
  ultimately show ?thesis by (simp add: spare_entry_def)
qed

text \<open>A scan that never stops by itself: with full directories it ends with the read behind the last directory.\<close>

lemma for_records_full:
  assumes "heap_inv (it_heapfile it)" and "\<not> spare_entry (it_heapfile it)" and "hf_slot_size (it_heapfile it) = 1000" and "has_next it"
    and "it_pid it = int k" and "it_slot it = int s" and "k < length (heap_view (it_heapfile it))"
    and "s \<in> dom (page_abs (heap_view (it_heapfile it) ! k))" and "rids_from (it_heapfile it) k (int s) = rs"
    and go: "\<And>acc rid rec. length rec = 100 \<Longrightarrow> \<exists>b. body acc rid rec = Inr (False, b)"
  shows "for_records body acc it = Some (Inl Out_of_bounds)"
  using assms(1-9)
proof (induction rs arbitrary: it k s acc)
  case (Nil it k s)
  have "iterator_next it = Some (Inl Out_of_bounds)" using iterator_next_spec [OF Nil.prems(1,3,5-8)] Nil.prems(2,9) by auto
  then show ?case using Nil.prems(4) by (simp add: for_records.simps [of _ _ it] hasNext_def)
next
  case (Cons a rs it k s)
  let ?hf = "it_heapfile it"
  obtain j t where a: "a = (j, t)" by (cases a)
  obtain hf1 slot where h: "same_heap ?hf hf1" "iterator_next it = Some (Inr (snd (seen ?hf (k, s)), moved it hf1 (length (heap_view ?hf)) slot (a # rs)))"
    using iterator_next_spec [OF Cons.prems(1,3,5-8)] Cons.prems(9) by auto
  let ?it = "it\<lparr>it_heapfile := hf1, it_pid := int j, it_slot := int t\<rparr>"
  have m: "moved it hf1 (length (heap_view ?hf)) slot (a # rs) = ?it" by (simp add: moved_def a)
  have tl: "j < length (heap_view ?hf)" "t \<in> dom (page_abs (heap_view ?hf ! j))" "rids_from ?hf j (int t) = rs"
    using rids_from_tail [of ?hf k "int s" j t rs] Cons.prems(7,9) a by auto
  have hv: "heap_view hf1 = heap_view ?hf" and hi: "heap_inv hf1" "hf_slot_size hf1 = 1000"
    using h(1) Cons.prems(3) by (auto simp: same_heap_def sized_as_def)
  have "for_records body b ?it = Some (Inl Out_of_bounds)" for b
  proof (rule Cons.IH)
    show "\<not> spare_entry (it_heapfile ?it)" using same_heap_eq(2) [OF h(1)] Cons.prems(2) by simp
    show "rids_from (it_heapfile ?it) j (int t) = rs" using tl(3) same_heap_eq(1) [OF h(1)] by simp
    show "j < length (heap_view (it_heapfile ?it))" using tl(1) hv by (simp del: length_heap_view)
    show "t \<in> dom (page_abs (heap_view (it_heapfile ?it) ! j))" using tl(2) hv by (simp del: nth_heap_view)
  qed (use hi Cons.prems(4) in simp_all)
  moreover obtain b where "body acc (nextRID it) (snd (seen ?hf (k, s))) = Inr (False, b)" using go [of "snd (seen ?hf (k, s))" acc "nextRID it"] by (auto simp: seen_def)
  ultimately show ?case using h(2) m Cons.prems(4) by (simp add: for_records.simps [of _ _ it] hasNext_def)
qed

lemma for_heap_full:
  assumes inv: "heap_inv hf" "\<not> spare_entry hf" "hf_slot_size hf = 1000" and un: "uninit \<or> heap_rids hf = []"
    and go: "\<And>acc rid rec. length rec = 100 \<Longrightarrow> \<exists>b. body acc rid rec = Inr (False, b)"
  shows "for_heap body acc uninit hf = Some (Inl Out_of_bounds)"
proof -
  let ?it = "\<lparr>it_heapfile = hf, it_pid = 0, it_slot = -1, has_next = uninit\<rparr>"
  obtain hf1 slot where h: "same_heap hf hf1" "mk_RecordIterator uninit hf = Some (went False ?it hf1 (length (heap_view hf)) slot (heap_rids hf))"
    using increment_iterator_spec [of ?it 0] inv(1,2) by (auto simp: mk_RecordIterator_def heap_rids_from)
  show ?thesis
  proof (cases "heap_rids hf")
    case Nil
    then show ?thesis using h by (simp add: for_heap_def)
  next
    case (Cons a rs)
    obtain j t where a: "a = (j, t)" by (cases a)
    let ?it1 = "?it\<lparr>it_heapfile := hf1, it_pid := int j, it_slot := int t\<rparr>"
    have hv: "heap_view hf1 = heap_view hf" and hi: "heap_inv hf1" "hf_slot_size hf1 = 1000"
      using h(1) inv(3) by (auto simp: same_heap_def sized_as_def)
    have tl: "j < length (heap_view hf)" "t \<in> dom (page_abs (heap_view hf ! j))" "rids_from hf j (int t) = rs"
      using rids_from_tail [of hf 0 "-1" j t rs] Cons a by (auto simp: heap_rids_from)
    have "for_records body acc ?it1 = Some (Inl Out_of_bounds)"
    proof (rule for_records_full [OF _ _ _ _ _ _ _ _ _ go])
      show "\<not> spare_entry (it_heapfile ?it1)" using same_heap_eq(2) [OF h(1)] inv(2) by simp
      show "rids_from (it_heapfile ?it1) j (int t) = rs" using tl(3) same_heap_eq(1) [OF h(1)] by simp
      show "j < length (heap_view (it_heapfile ?it1))" using tl(1) hv by (simp del: length_heap_view)
      show "t \<in> dom (page_abs (heap_view (it_heapfile ?it1) ! j))" using tl(2) hv by (simp del: nth_heap_view)
    qed (use hi un Cons in simp_all)
    then show ?thesis using h Cons a by (simp add: for_heap_def moved_def)
  qed
qed


end
