(* ===== verification/Heap_Tools.thy ===== *)
theory Heap_Tools
  imports Record_Iterator
begin

text \<open>
  The command-line tools of \<^verbatim>\<open>a1\<close> that work on heap files: \<^verbatim>\<open>csv2heapfile\<close>, \<^verbatim>\<open>insert\<close>, \<^verbatim>\<open>delete\<close>, \<^verbatim>\<open>update\<close>,
  \<^verbatim>\<open>scan\<close>, \<^verbatim>\<open>select\<close>, and the column store tools \<^verbatim>\<open>csv2colstore\<close>, \<^verbatim>\<open>select2\<close>, \<^verbatim>\<open>select3\<close>. Each \<^verbatim>\<open>main\<close> is a
  function of its arguments and of the files it opens. What the tools do is stated between files:
  \<open>holds_records\<close> says what a file holds when it is opened as a heap file.
\<close>

section \<open>Model\<close>

text \<open>\<^verbatim>\<open>operator<<(int)\<close> and \<^verbatim>\<open>%d\<close>.\<close>

definition print_int :: "int \<Rightarrow> bytes" where
  "print_int i = (if i < 0 then bstr ''-'' @ dec_digits (nat (- i)) else dec_digits (nat i))"

text \<open>The fields of \<^verbatim>\<open>new Heapfile\<close> are set by \<^verbatim>\<open>init_heapfile\<close> and \<^verbatim>\<open>create_heapfile\<close> or \<^verbatim>\<open>open_heapfile\<close> before they are read; its vector is empty.\<close>

definition new_Heapfile :: Heapfile where
  "new_Heapfile = \<lparr>hf_file = \<lparr>fcontents = [], fpos = 0\<rparr>, hf_page_size = 0, directory_buffer = [], cached_page = None,
     cached_pid = 0, page_cache_dirty = False, hf_slot_size = 0\<rparr>"

definition MAX_LINE_LEN :: nat where
  "MAX_LINE_LEN = 10000"

text \<open>\<^verbatim>\<open>while (fgets(...)) { load_csv_record(&rec, line); put_record(heapfile, &rec); }\<close>.\<close>

fun load_lines :: "Heapfile \<Rightarrow> bytes list \<Rightarrow> Heapfile res" where
  "load_lines heapfile [] = Inr heapfile"
| "load_lines heapfile (line # lines) =
     bindR (load_csv_record [] line) (\<lambda>rec.
     bindR (put_record heapfile rec) (\<lambda>heapfile. load_lines heapfile lines))"

text \<open>
  The mains. \<open>csv\<close> is the contents of the CSV file if it opens, \<open>file\<close> the heap file as \<^verbatim>\<open>fopen\<close> gives it;
  the result is the exit status, what goes to \<^verbatim>\<open>cout\<close> (without the line with the time), and the heap
  file left behind. Messages to \<^verbatim>\<open>cerr\<close> are not modelled.
\<close>

type_synonym outcome = "int \<times> bytes \<times> cfile option"

definition csv2heapfile_main :: "bytes list \<Rightarrow> bytes option \<Rightarrow> cfile option \<Rightarrow> outcome res" where
  "csv2heapfile_main argv csv file =
     (if length argv \<noteq> 4 then Inr (1, [], None)
      else let page_size = atoi (argv ! 3) in
      (case csv of
         None \<Rightarrow> Inr (1, [], None)
       | Some text \<Rightarrow>
           if \<not> 0 < page_size then Inr (1, [], None)
           else bindR (init_heapfile new_Heapfile page_size 1000) (\<lambda>heapfile.
                bindR (create_heapfile heapfile file) (\<lambda>heapfile.
                bindR (load_lines heapfile (read_lines MAX_LINE_LEN text)) (\<lambda>heapfile.
                bindR (close_heapfile heapfile) (\<lambda>file. Inr (0, [], Some file)))))))"

definition insert_main :: "bytes list \<Rightarrow> cfile option \<Rightarrow> bytes option \<Rightarrow> outcome res option" where
  "insert_main argv file csv =
     (if length argv \<noteq> 4 then Some (Inr (1, [], None))
      else let page_size = atoi (argv ! 3) in
      (case csv of
         None \<Rightarrow> Some (Inr (1, [], None))
       | Some text \<Rightarrow>
           if \<not> 0 < page_size then Some (Inr (1, [], None))
           else bindO (Some (init_heapfile new_Heapfile page_size 1000)) (\<lambda>heapfile.
                bindO (open_heapfile heapfile file) (\<lambda>heapfile.
                bindO (Some (load_lines heapfile (read_lines MAX_LINE_LEN text))) (\<lambda>heapfile.
                Some (bindR (close_heapfile heapfile) (\<lambda>file. Inr (0, [], Some file))))))))"

text \<open>
  The record id \<^verbatim>\<open>pid,slot\<close> of \<^verbatim>\<open>delete\<close> and \<^verbatim>\<open>update\<close>; a part that is missing leaves the variable
  uninitialised, which the two extra arguments stand for.
\<close>

definition parse_rid :: "int \<Rightarrow> int \<Rightarrow> bytes \<Rightarrow> int \<times> int" where
  "parse_rid junk_pid junk_slot arg =
     (case strtok comma (cstr arg) of
        None \<Rightarrow> (junk_pid, junk_slot)
      | Some (t, rest) \<Rightarrow>
          (case strtok comma rest of
             None \<Rightarrow> (atoi t, junk_slot)
           | Some (u, _) \<Rightarrow> (atoi t, atoi u)))"

definition delete_main :: "int \<Rightarrow> int \<Rightarrow> bytes list \<Rightarrow> cfile option \<Rightarrow> outcome res option" where
  "delete_main junk_pid junk_slot argv file =
     (if length argv \<noteq> 4 then Some (Inr (1, [], None))
      else let page_size = atoi (argv ! 3); rid = parse_rid junk_pid junk_slot (argv ! 2) in
      if \<not> 0 \<le> fst rid \<or> \<not> 0 \<le> snd rid \<or> \<not> 0 < page_size then Some (Inr (1, [], None))
      else bindO (Some (init_heapfile new_Heapfile page_size 1000)) (\<lambda>heapfile.
           bindO (open_heapfile heapfile file) (\<lambda>heapfile.
           bindO (Some (delete_record heapfile rid)) (\<lambda>heapfile.
           Some (bindR (close_heapfile heapfile) (\<lambda>file. Inr (0, [], Some file)))))))"

definition update_main :: "int \<Rightarrow> int \<Rightarrow> bytes list \<Rightarrow> cfile option \<Rightarrow> outcome res option" where
  "update_main junk_pid junk_slot argv file =
     (if length argv \<noteq> 6 then Some (Inr (1, [], None))
      else let attribute_id = atoi (argv ! 3); page_size = atoi (argv ! 5);
               rid = parse_rid junk_pid junk_slot (argv ! 2); new_value = mk_attribute (argv ! 4) in
      if \<not> 0 \<le> fst rid \<or> \<not> 0 \<le> snd rid \<or> \<not> 0 \<le> attribute_id \<or> \<not> 0 < page_size then Some (Inr (1, [], None))
      else bindO (Some (init_heapfile new_Heapfile page_size 1000)) (\<lambda>heapfile.
           bindO (open_heapfile heapfile file) (\<lambda>heapfile.
           bindO (Some (get_record heapfile rid 100)) (\<lambda>(rec, heapfile).
           bindO (Some (upd_res rec attribute_id new_value)) (\<lambda>rec.
           bindO (Some (update_record heapfile rid rec)) (\<lambda>heapfile.
           Some (bindR (close_heapfile heapfile) (\<lambda>file. Inr (0, [], Some file)))))))))"

definition scan_body :: "bytes loop_body" where
  "scan_body out rid rec =
     bindR (print_record_as_csv rec) (\<lambda>line.
     Inr (False, out @ bstr ''RID('' @ print_int (fst rid) @ bstr '','' @ print_int (snd rid) @ bstr '') '' @ line))"

text \<open>The check of \<^verbatim>\<open>page_size\<close> comes after \<^verbatim>\<open>init_heapfile\<close> and \<^verbatim>\<open>open_heapfile\<close>.\<close>

definition scan_main :: "bool \<Rightarrow> bytes list \<Rightarrow> cfile option \<Rightarrow> outcome res option" where
  "scan_main uninit argv file =
     (if length argv \<noteq> 3 then Some (Inr (1, [], None))
      else let page_size = atoi (argv ! 2) in
      bindO (Some (init_heapfile new_Heapfile page_size 1000)) (\<lambda>heapfile.
      bindO (open_heapfile heapfile file) (\<lambda>heapfile.
      if \<not> 0 < page_size then Some (Inr (1, [], None))
      else bindO (for_heap scan_body [] uninit heapfile) (\<lambda>(out, heapfile).
           Some (bindR (close_heapfile heapfile) (\<lambda>file. Inr (0, out, Some file)))))))"

text \<open>\<^verbatim>\<open>SELECT SUBSTRING(A, 1, 5) ... WHERE A >= start AND A <= end\<close>, for attribute \<open>i\<close> of the records.\<close>

definition substring5 :: "bytes \<Rightarrow> bytes" where
  "substring5 a = cstr (strncpy a 5 @ [0]) @ [newline]"

definition in_range :: "bytes \<Rightarrow> bytes \<Rightarrow> bytes \<Rightarrow> bool" where
  "in_range lo hi a \<longleftrightarrow> 0 \<le> strcmp a lo \<and> strcmp a hi \<le> 0"

definition select_body :: "int \<Rightarrow> bytes \<Rightarrow> bytes \<Rightarrow> bytes loop_body" where
  "select_body i lo hi out rid rec =
     bindR (nth_res rec i) (\<lambda>a. Inr (False, if in_range lo hi a then out @ substring5 a else out))"

definition select_main :: "bool \<Rightarrow> bytes list \<Rightarrow> cfile option \<Rightarrow> outcome res option" where
  "select_main uninit argv file =
     (if length argv \<noteq> 6 then Some (Inr (1, [], None))
      else let attribute_id = atoi (argv ! 2); page_size = atoi (argv ! 5) in
      if \<not> 0 < page_size \<or> \<not> 0 \<le> attribute_id then Some (Inr (1, [], None))
      else bindO (Some (init_heapfile new_Heapfile page_size 1000)) (\<lambda>heapfile.
           bindO (open_heapfile heapfile file) (\<lambda>heapfile.
           bindO (for_heap (select_body attribute_id (argv ! 3) (argv ! 4)) [] uninit heapfile) (\<lambda>(out, heapfile).
           Some (bindR (close_heapfile heapfile) (\<lambda>file. Inr (0, out, Some file)))))))"

text \<open>
  The column store: one heap file of two-attribute records per column. \<open>cols i\<close> is the file of column \<open>i\<close>,
  \<^verbatim>\<open><directory>/i\<close>.
\<close>

definition select2_main :: "bool \<Rightarrow> bytes list \<Rightarrow> (int \<Rightarrow> cfile option) \<Rightarrow> outcome res option" where
  "select2_main uninit argv cols =
     (if length argv \<noteq> 6 then Some (Inr (1, [], None))
      else let attribute_id = atoi (argv ! 2); page_size = atoi (argv ! 5) in
      if \<not> 0 < page_size \<or> \<not> 0 \<le> attribute_id then Some (Inr (1, [], None))
      else bindO (Some (init_heapfile new_Heapfile page_size 20)) (\<lambda>heapfile.
           bindO (open_heapfile heapfile (cols attribute_id)) (\<lambda>heapfile.
           bindO (for_heap (select_body 1 (argv ! 3) (argv ! 4)) [] uninit heapfile) (\<lambda>(out, heapfile).
           Some (bindR (close_heapfile heapfile) (\<lambda>file. Inr (0, out, Some file)))))))"

definition tuple_id_body :: "bytes \<Rightarrow> bytes \<Rightarrow> int list loop_body" where
  "tuple_id_body lo hi tuples_id rid rec =
     bindR (nth_res rec 1) (\<lambda>a.
     if in_range lo hi a
     then bindR (nth_res rec 0) (\<lambda>t. Inr (False, tuples_id @ [atoi t]))
     else Inr (False, tuples_id))"

definition return_body :: "int \<Rightarrow> bytes loop_body" where
  "return_body tuple_id out rid rec =
     bindR (nth_res rec 0) (\<lambda>t.
     if tuple_id = atoi t
     then bindR (nth_res rec 1) (\<lambda>a. Inr (True, out @ substring5 a))
     else Inr (False, out))"

fun return_tuples :: "(nat \<Rightarrow> bool) \<Rightarrow> int list \<Rightarrow> bytes \<Rightarrow> Heapfile \<Rightarrow> (bytes \<times> Heapfile) res option" where
  "return_tuples uninit [] out heapfile = Some (Inr (out, heapfile))"
| "return_tuples uninit (tuple_id # tuples_id) out heapfile =
     bindO (for_heap (return_body tuple_id) out (uninit 0) heapfile) (\<lambda>(out, heapfile).
     return_tuples (\<lambda>n. uninit (Suc n)) tuples_id out heapfile)"

definition select3_main :: "(nat \<Rightarrow> bool) \<Rightarrow> bytes list \<Rightarrow> (int \<Rightarrow> cfile option) \<Rightarrow> outcome res option" where
  "select3_main uninit argv cols =
     (if length argv \<noteq> 7 then Some (Inr (1, [], None))
      else let attribute_id = atoi (argv ! 2); return_attribute_id = atoi (argv ! 3); page_size = atoi (argv ! 6) in
      if \<not> 0 < page_size \<or> \<not> 0 \<le> attribute_id \<or> \<not> 0 \<le> return_attribute_id then Some (Inr (1, [], None))
      else bindO (Some (init_heapfile new_Heapfile page_size 20)) (\<lambda>heapfile.
           bindO (open_heapfile heapfile (cols attribute_id)) (\<lambda>heapfile.
           bindO (for_heap (tuple_id_body (argv ! 4) (argv ! 5)) [] (uninit 0) heapfile) (\<lambda>(tuples_id, heapfile).
           bindO (Some (close_heapfile heapfile)) (\<lambda>file.
           let cols = cols(attribute_id := Some file) in
           bindO (Some (init_heapfile new_Heapfile page_size 20)) (\<lambda>heapfile.
           bindO (open_heapfile heapfile (cols return_attribute_id)) (\<lambda>heapfile.
           bindO (return_tuples (\<lambda>n. uninit (Suc n)) tuples_id [] heapfile) (\<lambda>(out, heapfile).
           Some (bindR (close_heapfile heapfile) (\<lambda>file. Inr (0, out, Some file)))))))))))"

text \<open>
  \<^verbatim>\<open>csv2colstore\<close>. \<open>files i\<close> is the file that opens for column \<open>i\<close>, \<open>junk t i\<close> the bytes of the block that
  the tuple id of tuple \<open>t\<close> in column \<open>i\<close> is made of. The array \<^verbatim>\<open>heapfiles[100]\<close> is not initialised: only
  its first entries are assigned, the list holds those, and reading another entry is an error.
\<close>

fun create_columns :: "int \<Rightarrow> (nat \<Rightarrow> cfile option) \<Rightarrow> (nat \<Rightarrow> bytes) \<Rightarrow> bytes list \<Rightarrow> Heapfile list \<Rightarrow> Heapfile list res" where
  "create_columns page_size files junk [] heapfiles = Inr heapfiles"
| "create_columns page_size files junk (token # ts) heapfiles =
     bindR (init_heapfile new_Heapfile page_size 20) (\<lambda>heapfile.
     bindR (create_heapfile heapfile (files (length heapfiles))) (\<lambda>heapfile.
     if 100 \<le> length heapfiles then Inl Out_of_bounds
     else bindR (put_record heapfile (load_col_record (junk (length heapfiles)) [] token 0)) (\<lambda>heapfile.
          create_columns page_size files junk ts (heapfiles @ [heapfile]))))"

definition get_column :: "Heapfile list \<Rightarrow> nat \<Rightarrow> Heapfile res" where
  "get_column heapfiles i =
     (if i < length heapfiles then Inr (heapfiles ! i) else Inl (if i < 100 then Uninitialised else Out_of_bounds))"

fun add_columns :: "(nat \<Rightarrow> bytes) \<Rightarrow> int \<Rightarrow> bytes list \<Rightarrow> nat \<Rightarrow> Heapfile list \<Rightarrow> Heapfile list res" where
  "add_columns junk tuple_id [] attribute_id heapfiles = Inr heapfiles"
| "add_columns junk tuple_id (token # ts) attribute_id heapfiles =
     bindR (get_column heapfiles attribute_id) (\<lambda>heapfile.
     bindR (put_record heapfile (load_col_record (junk attribute_id) [] token tuple_id)) (\<lambda>heapfile.
     add_columns junk tuple_id ts (attribute_id + 1) (heapfiles[attribute_id := heapfile])))"

fun add_lines :: "(int \<Rightarrow> nat \<Rightarrow> bytes) \<Rightarrow> int \<Rightarrow> bytes list \<Rightarrow> Heapfile list \<Rightarrow> Heapfile list res" where
  "add_lines junk tuple_id [] heapfiles = Inr heapfiles"
| "add_lines junk tuple_id (line # lines) heapfiles =
     bindR (add_columns (junk tuple_id) tuple_id (tokens comma (cstr line)) 0 heapfiles)
       (\<lambda>heapfiles. add_lines junk (tuple_id + 1) lines heapfiles)"

fun close_all :: "Heapfile list \<Rightarrow> cfile list res" where
  "close_all [] = Inr []"
| "close_all (h # hs) = bindR (close_heapfile h) (\<lambda>f. bindR (close_all hs) (\<lambda>fs. Inr (f # fs)))"

definition csv2colstore_main ::
  "(int \<Rightarrow> nat \<Rightarrow> bytes) \<Rightarrow> bytes list \<Rightarrow> bytes option \<Rightarrow> (nat \<Rightarrow> cfile option) \<Rightarrow> (int \<times> cfile list) res" where
  "csv2colstore_main junk argv csv files =
     (if length argv \<noteq> 4 then Inr (1, [])
      else let page_size = atoi (argv ! 3) in
      (case csv of
         None \<Rightarrow> Inr (1, [])
       | Some text \<Rightarrow>
           if \<not> 0 < page_size then Inr (1, [])
           else (case read_lines MAX_LINE_LEN text of
               [] \<Rightarrow> Inl Uninitialised
             | line # lines \<Rightarrow>
                 bindR (create_columns page_size files (junk 0) (tokens comma (cstr line)) []) (\<lambda>heapfiles.
                 bindR (add_lines junk 1 lines heapfiles) (\<lambda>heapfiles.
                 bindR (close_all heapfiles) (\<lambda>fs.
                 if length heapfiles < 100 then Inl Uninitialised else Inr (0, fs)))))))"


section \<open>Loading lines\<close>

definition line_record :: "bytes \<Rightarrow> Record" where
  "line_record line = map mk_attribute (tokens comma (cstr line))"

definition line_ok :: "bytes \<Rightarrow> bool" where
  "line_ok line \<longleftrightarrow> length (tokens comma (cstr line)) = 100"

lemma load_csv_record_ok: "load_csv_record [] line = (if line_ok line then Inr (line_record line) else Inl Assert_failed)"
  by (simp add: load_csv_record_def line_ok_def line_record_def assertR_def Let_def)

lemma load_lines_put_all:
  "\<forall>l \<in> set ls. line_ok l \<Longrightarrow> load_lines h ls = put_all put_record h (map line_record ls)"
  by (induction ls arbitrary: h) (auto simp: load_csv_record_ok intro!: bindR_cong)

lemma length_line_record: "line_ok l \<Longrightarrow> length (line_record l) = 100"
  by (simp add: line_ok_def line_record_def)

lemma image_line_record: "map mk_attribute (line_record l) = line_record l"
  by (simp add: line_record_def mk_attribute_def ATTRIBUTE_SIZE_def strncpy_append)

section \<open>Heap files on disk\<close>

text \<open>
  \<open>holds_records ps ss F n A\<close>: a file with contents \<open>F\<close> opens, with these sizes, as a heap of \<open>n\<close> pages
  that maps record ids to images as \<open>A\<close> says.
\<close>

definition open_with :: "int \<Rightarrow> int \<Rightarrow> cfile option \<Rightarrow> Heapfile res option" where
  "open_with ps ss file = bindO (Some (init_heapfile new_Heapfile ps ss)) (\<lambda>h. open_heapfile h file)"

definition holds_records :: "int \<Rightarrow> int \<Rightarrow> bytes \<Rightarrow> nat \<Rightarrow> (nat \<times> nat \<rightharpoonup> bytes) \<Rightarrow> bool" where
  "holds_records ps ss F n A \<longleftrightarrow> (\<forall>f. fcontents f = F \<longrightarrow> (\<exists>hf. open_with ps ss (Some f) = Some (Inr hf)
     \<and> record_inv hf \<and> hf_page_size hf = ps \<and> hf_slot_size hf = ss \<and> length (heap_view hf) = n \<and> heap_abs hf = A
     \<and> length (hcontents hf) = length F))"

lemma holds_recordsD:
  assumes "holds_records ps ss (fcontents f) n A"
  obtains h1 hf where "init_heapfile new_Heapfile ps ss = Inr h1" "open_heapfile h1 (Some f) = Some (Inr hf)" "record_inv hf"
    "hf_page_size hf = ps" "hf_slot_size hf = ss" "length (heap_view hf) = n" "heap_abs hf = A"
    "length (hcontents hf) = length (fcontents f)"
  using assms by (cases "init_heapfile new_Heapfile ps ss") (auto simp: holds_records_def open_with_def)

lemma close_holds:
  assumes "record_inv hf"
  shows "\<exists>g. close_heapfile hf = Inr g \<and> length (fcontents g) = length (hcontents hf)
    \<and> holds_records (hf_page_size hf) (hf_slot_size hf) (fcontents g) (length (heap_view hf)) (heap_abs hf)"
proof -
  have inv: "heap_inv hf" using assms by (simp add: record_inv_def)
  obtain g where g: "close_heapfile hf = Inr g" "length (fcontents g) = length (hcontents hf)"
    using close_heapfile_spec [OF inv] by blast
  obtain h1 where h1: "init_heapfile new_Heapfile (hf_page_size hf) (hf_slot_size hf) = Inr h1"
    using heap_invD(1) [OF inv] by (simp add: init_heapfile_def geom_ok_def)
  have "\<exists>hf'. open_with (hf_page_size hf) (hf_slot_size hf) (Some f) = Some (Inr hf') \<and> record_inv hf'
      \<and> hf_page_size hf' = hf_page_size hf \<and> hf_slot_size hf' = hf_slot_size hf
      \<and> length (heap_view hf') = length (heap_view hf) \<and> heap_abs hf' = heap_abs hf
      \<and> length (hcontents hf') = length (fcontents g)" if f: "fcontents f = fcontents g" for f
  proof -
    obtain hf' where o: "open_heapfile h1 (Some f) = Some (Inr hf')" "heap_inv hf'" "sized_as hf hf'"
      "heap_view hf' = heap_view hf" "length (hcontents hf') = length (hcontents hf)"
      using close_open_spec [OF inv g(1) f h1] by (auto simp: new_Heapfile_def)
    have "record_inv hf'" using sized_as_same(3) [OF o(3,2) assms] .
    moreover have "length (entries hf') = length (entries hf)" using o(4) by (metis length_heap_view)
    moreover have "heap_abs hf' = heap_abs hf" using o(4) by (rule heap_abs_cong)
    ultimately show ?thesis
      using h1 o g(2) by (intro exI [of _ hf']) (simp add: open_with_def sized_as_def)
  qed
  then show ?thesis using g unfolding holds_records_def by blast
qed

lemma holds_room:
  assumes "int m * (2 * hf_page_size hf) + int (length (hcontents hf)) < 2 ^ 31" and "0 < hf_page_size hf"
  shows "m \<le> heap_room hf"
proof -
  have "int m = int m * (2 * hf_page_size hf) div (2 * hf_page_size hf)" using assms(2) by simp
  also have "\<dots> \<le> (2 ^ 31 - 1 - int (length (hcontents hf))) div (2 * hf_page_size hf)"
    using assms by (intro zdiv_mono1) auto
  finally show ?thesis unfolding heap_room_def by linarith
qed

text \<open>What both loading tools do to an open heap.\<close>

lemma load_and_close:
  assumes inv: "record_inv hf" and ss: "hf_slot_size hf = 1000" and ls: "\<forall>l \<in> set ls. line_ok l"
    and room: "int (length ls) * (2 * hf_page_size hf) + int (length (hcontents hf)) < 2 ^ 31"
  shows "\<exists>h' g A. load_lines hf ls = Inr h' \<and> close_heapfile h' = Inr g
    \<and> holds_records (hf_page_size hf) 1000 (fcontents g) (length (heap_view h')) A
    \<and> length (heap_view h') \<le> length ls + length (heap_view hf)
    \<and> contents_of A = contents_of (heap_abs hf) + image_mset record_image (mset (map line_record ls))"
proof -
  have hi: "heap_inv hf" and ps: "0 < hf_page_size hf" using inv heap_invD(1) [of hf] by (auto simp: record_inv_def geom_ok_def)
  have at: "heap_attrs hf = 100" using ss by (simp add: heap_attrs_def)
  have "length (map line_record ls) \<le> heap_room hf" using holds_room [OF room ps] by simp
  moreover have "\<forall>r \<in> set (map line_record ls). length r = heap_attrs hf" using ls at by (auto simp: length_line_record)
  ultimately obtain h' where h: "put_all put_record hf (map line_record ls) = Inr h'" "record_inv h'" "heap_geo h' = heap_geo hf"
    "length (heap_view h') \<le> length (map line_record ls) + length (heap_view hf)"
    "contents_of (heap_abs h') = contents_of (heap_abs hf) + image_mset record_image (mset (map line_record ls))"
    using hp.put_all_contents [OF inv, of "map line_record ls"] by blast
  then have sz: "hf_page_size h' = hf_page_size hf" "hf_slot_size h' = 1000" using ss by (auto simp: heap_geo_def)
  obtain g where g: "close_heapfile h' = Inr g" "holds_records (hf_page_size hf) 1000 (fcontents g) (length (heap_view h')) (heap_abs h')"
    using close_holds [OF h(2)] sz by auto
  then show ?thesis using h load_lines_put_all [OF ls] by auto
qed


section \<open>The tools on heap files\<close>

text \<open>\<^verbatim>\<open>csv2heapfile\<close>: the file it leaves holds exactly the records of the CSV file.\<close>

lemma csv2heapfile_spec:
  assumes argv: "length argv = 4" "atoi (argv ! 3) = ps" "1001 < ps"
    and ls: "ls = read_lines MAX_LINE_LEN text" "\<forall>l \<in> set ls. line_ok l"
    and room: "int (length ls) * (2 * ps) + ps < 2 ^ 31" and empty: "fcontents file = []"
  shows "\<exists>f n A. csv2heapfile_main argv (Some text) (Some file) = Inr (0, [], Some f)
    \<and> holds_records ps 1000 (fcontents f) n A \<and> n \<le> length ls
    \<and> contents_of A = image_mset record_image (mset (map line_record ls))"
proof -
  obtain h1 where h1: "init_heapfile new_Heapfile ps 1000 = Inr h1" using argv by (simp add: init_heapfile_def)
  have ps: "ps < 2 ^ 31" using atoi_range [of "argv ! 3"] argv by simp
  obtain hf where hf: "create_heapfile h1 (Some file) = Inr hf" "heap_inv hf" "heap_abs hf = Map.empty"
    "hf_page_size hf = ps" "hf_slot_size hf = 1000" "length (hcontents hf) = nat ps" "heap_view hf = []"
    using create_heapfile_spec [OF h1 _ ps] argv empty by (auto simp: new_Heapfile_def)
  have inv: "record_inv hf" using hf by (simp add: record_inv_def)
  obtain h' g A where "load_lines hf ls = Inr h'" "close_heapfile h' = Inr g"
    "holds_records ps 1000 (fcontents g) (length (heap_view h')) A" "length (heap_view h') \<le> length ls"
    "contents_of A = image_mset record_image (mset (map line_record ls))"
    using load_and_close [OF inv hf(5) ls(2)] hf room argv(3) by (auto simp del: length_heap_view)
  then show ?thesis
    using argv h1 hf(1) ls(1) by (intro exI [of _ g] exI [of _ "length (heap_view h')"] exI [of _ A]) (simp add: csv2heapfile_main_def Let_def)
qed

text \<open>\<^verbatim>\<open>insert\<close> adds the records of the CSV file to those already there.\<close>

lemma insert_main_spec:
  assumes argv: "length argv = 4" "atoi (argv ! 3) = ps"
    and ls: "ls = read_lines MAX_LINE_LEN text" "\<forall>l \<in> set ls. line_ok l"
    and h: "holds_records ps 1000 (fcontents file) n A"
    and room: "int (length ls) * (2 * ps) + int (length (fcontents file)) < 2 ^ 31"
  shows "\<exists>f n' A'. insert_main argv (Some file) (Some text) = Some (Inr (0, [], Some f))
    \<and> holds_records ps 1000 (fcontents f) n' A' \<and> n' \<le> length ls + n
    \<and> contents_of A' = contents_of A + image_mset record_image (mset (map line_record ls))"
proof -
  obtain h1 hf where o: "init_heapfile new_Heapfile ps 1000 = Inr h1" "open_heapfile h1 (Some file) = Some (Inr hf)" "record_inv hf"
    "hf_page_size hf = ps" "hf_slot_size hf = 1000" "length (heap_view hf) = n" "heap_abs hf = A"
    "length (hcontents hf) = length (fcontents file)" using holds_recordsD [OF h] by blast
  have ps: "0 < ps" using o(3,4) heap_invD(1) [of hf] by (auto simp: record_inv_def geom_ok_def)
  obtain h' g A' where "load_lines hf ls = Inr h'" "close_heapfile h' = Inr g"
    "holds_records ps 1000 (fcontents g) (length (heap_view h')) A'" "length (heap_view h') \<le> length ls + n"
    "contents_of A' = contents_of A + image_mset record_image (mset (map line_record ls))"
    using load_and_close [OF o(3,5) ls(2)] o room by (auto simp del: length_heap_view)
  then show ?thesis
    using argv o(1,2) ls(1) ps by (intro exI [of _ g] exI [of _ "length (heap_view h')"] exI [of _ A']) (simp add: insert_main_def Let_def)
qed

text \<open>\<^verbatim>\<open>delete\<close> and \<^verbatim>\<open>update\<close> act on the one record id.\<close>

lemma parse_rid_spec:
  assumes "k < 2 ^ 31" and "s < 2 ^ 31"
  shows "parse_rid jp js (dec_digits k @ comma # dec_digits s) = (int k, int s)"
proof -
  have d: "comma \<notin> set (dec_digits m)" "0 \<notin> set (dec_digits m)" for m
    using dec_digits_digits isdigit_simps by blast+
  then have "cstr (dec_digits k @ comma # dec_digits s) = dec_digits k @ comma # dec_digits s"
    by (intro cstr_id) auto
  moreover have "strtok comma (dec_digits k @ comma # dec_digits s) = Some (dec_digits k, dec_digits s)"
    using d dec_digits_nonempty by (intro strtok_token)
  moreover have "strtok comma (dec_digits s) = Some (dec_digits s, [])"
    using d dec_digits_nonempty by (intro strtok_token)
  ultimately show ?thesis using assms by (simp add: parse_rid_def atoi_dec_digits)
qed

lemma delete_main_spec:
  assumes argv: "length argv = 4" "atoi (argv ! 3) = ps" "parse_rid jp js (argv ! 2) = (int k, int s)"
    and h: "holds_records ps 1000 (fcontents file) n A" and rid: "A (k, s) \<noteq> None"
  shows "\<exists>f n'. delete_main jp js argv (Some file) = Some (Inr (0, [], Some f))
    \<and> holds_records ps 1000 (fcontents f) n' (A((k, s) := None))"
proof -
  obtain h1 hf where o: "init_heapfile new_Heapfile ps 1000 = Inr h1" "open_heapfile h1 (Some file) = Some (Inr hf)" "record_inv hf"
    "hf_page_size hf = ps" "hf_slot_size hf = 1000" "heap_abs hf = A"
    using holds_recordsD [OF h] by blast
  have ps: "0 < ps" using o(3,4) heap_invD(1) [of hf] by (auto simp: record_inv_def geom_ok_def)
  obtain h' where d: "delete_record hf (int k, int s) = Inr h'" "record_inv h'" "heap_geo h' = heap_geo hf"
    "heap_abs h' = A((k, s) := None)" using hp.del_law [OF o(3), of k s] o(6) rid by auto
  moreover have "hf_page_size h' = ps" "hf_slot_size h' = 1000" using d(3) o(4,5) by (auto simp: heap_geo_def)
  ultimately obtain g where "close_heapfile h' = Inr g" "holds_records ps 1000 (fcontents g) (length (heap_view h')) (A((k, s) := None))"
    using close_holds [OF d(2)] by auto
  then show ?thesis using argv o(1,2) ps d(1) by (intro exI [of _ g] exI [of _ "length (heap_view h')"]) (simp add: delete_main_def Let_def)
qed

lemma update_main_spec:
  assumes argv: "length argv = 6" "atoi (argv ! 5) = ps" "parse_rid jp js (argv ! 2) = (int k, int s)"
    "atoi (argv ! 3) = int i" "i < 100"
    and h: "holds_records ps 1000 (fcontents file) n A" and rid: "A (k, s) = Some img"
  defines "rec \<equiv> (split_image img 100)[i := mk_attribute (argv ! 4)]"
  shows "\<exists>f n'. update_main jp js argv (Some file) = Some (Inr (0, [], Some f))
    \<and> holds_records ps 1000 (fcontents f) n' (A((k, s) \<mapsto> record_image rec))"
proof -
  obtain h1 hf where o: "init_heapfile new_Heapfile ps 1000 = Inr h1" "open_heapfile h1 (Some file) = Some (Inr hf)" "record_inv hf"
    "hf_page_size hf = ps" "hf_slot_size hf = 1000" "heap_abs hf = A"
    using holds_recordsD [OF h] by blast
  have ps: "0 < ps" using o(3,4) heap_invD(1) [of hf] by (auto simp: record_inv_def geom_ok_def)
  have at: "heap_attrs hf = 100" using o(5) by (simp add: heap_attrs_def)
  obtain hg where g: "get_record hf (int k, int s) 100 = Inr (split_image img 100, hg)" "record_inv hg"
    "heap_geo hg = heap_geo hf" "heap_abs hg = A" using hp.get_law [OF o(3), of k s img] o(6) rid at by auto
  have ag: "heap_attrs hg = 100" using g(3) at hp.attrs_geo by metis
  have u: "upd_res (split_image img 100) (int i) (mk_attribute (argv ! 4)) = Inr rec"
    using argv(5) by (simp add: upd_res_def rec_def)
  obtain h' where d: "update_record hg (int k, int s) rec = Inr h'" "record_inv h'" "heap_geo h' = heap_geo hg"
    "heap_abs h' = A((k, s) \<mapsto> record_image rec)"
    using hp.upd_law [OF g(2), of k s rec] g(4) rid ag by (auto simp: rec_def)
  moreover have "hf_page_size h' = ps" "hf_slot_size h' = 1000" using d(3) g(3) o(4,5) by (auto simp: heap_geo_def)
  ultimately obtain f where "close_heapfile h' = Inr f"
    "holds_records ps 1000 (fcontents f) (length (heap_view h')) (A((k, s) \<mapsto> record_image rec))"
    using close_holds [OF d(2)] by auto
  then show ?thesis using argv o(1,2) ps g(1) u d(1)
    by (intro exI [of _ f] exI [of _ "length (heap_view h')"]) (simp add: update_main_def Let_def)
qed

text \<open>The scans.\<close>

definition rid_less :: "nat \<times> nat \<Rightarrow> nat \<times> nat \<Rightarrow> bool" where
  "rid_less a b \<longleftrightarrow> fst a < fst b \<or> (fst a = fst b \<and> snd a < snd b)"

lemma sorted_page_rids: "sorted_wrt rid_less (page_rids hf k)"
  by (auto simp: page_rids_def sorted_wrt_map rid_less_def intro!: sorted_wrt_filter)

lemma sorted_heap_rids: "sorted_wrt rid_less (heap_rids hf)"
proof -
  have "sorted_wrt rid_less (concat (map (page_rids hf) [0..<n]))" for n
  proof (induction n)
    case (Suc n)
    have "rid_less x y" if "x \<in> set (concat (map (page_rids hf) [0..<n]))" "y \<in> set (page_rids hf n)" for x y
      using that by (auto simp: page_rids_def rid_less_def split: if_splits)
    then show ?case using Suc sorted_page_rids by (simp add: sorted_wrt_append)
  qed simp
  then show ?thesis by (simp add: heap_rids_def)
qed

definition rids_of :: "(nat \<times> nat \<rightharpoonup> bytes) \<Rightarrow> (nat \<times> nat) list \<Rightarrow> bool" where
  "rids_of A ids \<longleftrightarrow> sorted_wrt rid_less ids \<and> set ids = dom A"

definition seen_in :: "(nat \<times> nat \<rightharpoonup> bytes) \<Rightarrow> nat \<times> nat \<Rightarrow> (int \<times> int) \<times> Record" where
  "seen_in A rid = ((int (fst rid), int (snd rid)), split_image (the (A rid)) 100)"

lemma rid_list_unique: "sorted_wrt rid_less xs \<Longrightarrow> sorted_wrt rid_less ys \<Longrightarrow> set xs = set ys \<Longrightarrow> xs = ys"
proof (induction xs arbitrary: ys)
  case (Cons x xs)
  have irr: "\<not> rid_less a a" "rid_less a b \<Longrightarrow> \<not> rid_less b a" for a b by (auto simp: rid_less_def)
  obtain y ys' where y: "ys = y # ys'" using Cons.prems(3) by (cases ys) auto
  have "x = y" using Cons.prems y irr by (metis list.set_intros(1) set_ConsD sorted_wrt.simps(2))
  moreover have "x \<notin> set xs" "y \<notin> set ys'" using Cons.prems(1,2) y irr(1) [of x] irr(1) [of y] by fastforce+
  ultimately have "set xs = set ys'" using Cons.prems(3) y by auto
  then show ?case using Cons.IH [of ys'] Cons.prems y \<open>x = y\<close> by simp
qed simp

lemma rids_of_ex: "holds_records ps ss F n A \<Longrightarrow> \<exists>ids. rids_of A ids"
proof -
  assume "holds_records ps ss F n A"
  then obtain hf where "heap_abs hf = A" unfolding holds_records_def by (metis cfile.select_convs(1))
  then show ?thesis using sorted_heap_rids [of hf] set_heap_rids [of hf] by (auto simp: rids_of_def)
qed

text \<open>Every reading tool: open, loop over the records, close.\<close>

lemma for_file_spec:
  assumes h: "holds_records ps 1000 (fcontents file) n A" and n: "n = 0 \<or> \<not> dir_cap ps dvd n"
  shows "\<exists>h1 hf ids hf' f. init_heapfile new_Heapfile ps 1000 = Inr h1 \<and> open_heapfile h1 (Some file) = Some (Inr hf) \<and> rids_of A ids
    \<and> for_heap body acc uninit hf = Some (bindR (run_body body acc (if uninit then map (seen_in A) ids else [])) (\<lambda>a. Inr (a, hf')))
    \<and> close_heapfile hf' = Inr f \<and> holds_records ps 1000 (fcontents f) n A"
proof -
  obtain h1 hf where o: "init_heapfile new_Heapfile ps 1000 = Inr h1" "open_heapfile h1 (Some file) = Some (Inr hf)" "record_inv hf"
    "hf_page_size hf = ps" "hf_slot_size hf = 1000" "length (heap_view hf) = n" "heap_abs hf = A"
    using holds_recordsD [OF h] by blast
  have inv: "heap_inv hf" using o(3) by (simp add: record_inv_def)
  have sp: "spare_entry hf" using n o(4,6) by (intro spare_entryI [OF inv]) simp
  have sn: "seen hf = seen_in A" using o(7) by (simp add: seen_def seen_in_def fun_eq_iff)
  have cl: "\<exists>f. close_heapfile hf' = Inr f \<and> holds_records ps 1000 (fcontents f) n A" if "same_heap hf hf'" for hf'
  proof -
    have "record_inv hf'" "hf_page_size hf' = ps" "hf_slot_size hf' = 1000" "heap_view hf' = heap_view hf" "heap_abs hf' = A"
      using that o sized_as_same(3) [of hf hf'] same_heap_eq(4) [OF that] by (auto simp: same_heap_def sized_as_def)
    then show ?thesis using close_holds [of hf'] o(6) by (auto simp del: length_heap_view)
  qed
  have "rids_of A (heap_rids hf)" using sorted_heap_rids set_heap_rids [of hf] o(7) by (simp add: rids_of_def)
  moreover obtain hf' where hf': "same_heap hf hf'"
    "for_heap body acc uninit hf = Some (bindR (run_body body acc (if uninit then map (seen_in A) (heap_rids hf) else [])) (\<lambda>a. Inr (a, hf')))"
    using for_heap_any [OF inv sp o(5), of body acc uninit] unfolding sn by blast
  moreover obtain f where "close_heapfile hf' = Inr f" "holds_records ps 1000 (fcontents f) n A" using cl [OF hf'(1)] by blast
  ultimately show ?thesis using o(1,2) by blast
qed

lemma run_body_total:
  assumes "\<And>acc x. x \<in> set xs \<Longrightarrow> body acc (fst x) (snd x) = Inr (False, acc @ out x)"
  shows "run_body body acc xs = Inr (acc @ concat (map out xs))"
  using assms by (induction xs arbitrary: acc) auto

lemma select_main_spec:
  assumes argv: "length argv = 6" "atoi (argv ! 5) = ps" "atoi (argv ! 2) = int i" "i < 100"
    and h: "holds_records ps 1000 (fcontents file) n A" "n = 0 \<or> \<not> dir_cap ps dvd n"
  shows "\<exists>f ids. rids_of A ids \<and> holds_records ps 1000 (fcontents f) n A \<and> select_main uninit argv (Some file) =
    Some (Inr (0, concat (map substring5 (filter (in_range (argv ! 3) (argv ! 4))
      (map (\<lambda>rid. split_image (the (A rid)) 100 ! i) (if uninit then ids else [])))), Some f))"
proof -
  let ?lo = "argv ! 3" and ?hi = "argv ! 4"
  let ?out = "\<lambda>x. if in_range ?lo ?hi (snd x ! i) then substring5 (snd x ! i) else []"
  obtain h1 hf ids hf' f where o: "init_heapfile new_Heapfile ps 1000 = Inr h1" "open_heapfile h1 (Some file) = Some (Inr hf)" "rids_of A ids"
    and l: "for_heap (select_body (int i) ?lo ?hi) [] uninit hf = Some (bindR (run_body (select_body (int i) ?lo ?hi) [] (if uninit then map (seen_in A) ids else [])) (\<lambda>a. Inr (a, hf')))"
    and c: "close_heapfile hf' = Inr f" "holds_records ps 1000 (fcontents f) n A"
    using for_file_spec [OF h, of "select_body (int i) ?lo ?hi" "[]" uninit] by blast
  let ?ids = "if uninit then ids else []"
  have "1001 < ps" using o(1) by (auto simp: init_heapfile_def assertR_def split: if_splits)
  have "run_body (select_body (int i) ?lo ?hi) [] (map (seen_in A) ?ids) = Inr ([] @ concat (map ?out (map (seen_in A) ?ids)))"
    using argv(4) by (intro run_body_total) (auto simp: select_body_def nth_res_def seen_in_def)
  moreover have "concat (map ?out (map (seen_in A) ids)) = concat (map substring5 (filter (in_range ?lo ?hi)
      (map (\<lambda>rid. split_image (the (A rid)) 100 ! i) ids)))" for ids
    by (induction ids) (auto simp: seen_in_def)
  ultimately have "for_heap (select_body (int i) ?lo ?hi) [] uninit hf =
      Some (Inr (concat (map substring5 (filter (in_range ?lo ?hi) (map (\<lambda>rid. split_image (the (A rid)) 100 ! i) ?ids))), hf'))"
    using l by (cases uninit) simp_all
  then show ?thesis using argv o c \<open>1001 < ps\<close> by (intro exI [of _ f] exI [of _ ids]) (simp add: select_main_def Let_def)
qed

definition scan_line :: "(int \<times> int) \<times> Record \<Rightarrow> bytes" where
  "scan_line x = bstr ''RID('' @ print_int (fst (fst x)) @ bstr '','' @ print_int (snd (fst x)) @ bstr '') ''
     @ join comma (map cstr (snd x)) @ [newline]"

lemma print_record_join: "rec \<noteq> [] \<Longrightarrow> print_record_as_csv rec = Inr (join comma (map cstr rec) @ [newline])"
proof -
  have "concat (map (\<lambda>a. cstr a @ [comma]) (butlast r)) @ cstr (last r) = join comma (map cstr r)" if "r \<noteq> []" for r
    using that
  proof (induction r)
    case (Cons a r)
    then show ?case by (cases r) auto
  qed simp
  then show ?thesis if "rec \<noteq> []" using that by (simp add: print_record_as_csv_def flip: append_assoc)
qed

lemma scan_main_spec:
  assumes argv: "length argv = 3" "atoi (argv ! 2) = ps"
    and h: "holds_records ps 1000 (fcontents file) n A" "n = 0 \<or> \<not> dir_cap ps dvd n"
  shows "\<exists>f ids. rids_of A ids \<and> holds_records ps 1000 (fcontents f) n A
    \<and> scan_main uninit argv (Some file) = Some (Inr (0, concat (map (scan_line \<circ> seen_in A) (if uninit then ids else [])), Some f))"
proof -
  obtain h1 hf ids hf' f where o: "init_heapfile new_Heapfile ps 1000 = Inr h1" "open_heapfile h1 (Some file) = Some (Inr hf)" "rids_of A ids"
    and l: "for_heap scan_body [] uninit hf = Some (bindR (run_body scan_body [] (if uninit then map (seen_in A) ids else [])) (\<lambda>a. Inr (a, hf')))"
    and c: "close_heapfile hf' = Inr f" "holds_records ps 1000 (fcontents f) n A"
    using for_file_spec [OF h, of scan_body "[]" uninit] by blast
  let ?ids = "if uninit then ids else []"
  have "1001 < ps" using o(1) by (auto simp: init_heapfile_def assertR_def split: if_splits)
  have "snd (seen_in A rid) \<noteq> []" for rid by (simp add: seen_in_def flip: length_0_conv)
  then have "run_body scan_body [] (map (seen_in A) ?ids) = Inr ([] @ concat (map scan_line (map (seen_in A) ?ids)))"
    by (intro run_body_total) (auto simp: scan_body_def scan_line_def print_record_join)
  then have "for_heap scan_body [] uninit hf = Some (Inr (concat (map (scan_line \<circ> seen_in A) ?ids), hf'))"
    using l by (cases uninit) simp_all
  then show ?thesis using argv o c \<open>1001 < ps\<close> by (intro exI [of _ f] exI [of _ ids]) (simp add: scan_main_def Let_def)
qed


end
