(* ===== verification/Page_Tools.thy ===== *)
theory Page_Tools
  imports Heap_Tools
begin

text \<open>
  \<^verbatim>\<open>a1/write_fixed_len_pages.cpp\<close> and \<^verbatim>\<open>a1/read_fixed_len_pages.cpp\<close>: a file that is a plain sequence of
  pages. Writing a CSV file and reading the pages back prints the records in their order.
\<close>

section \<open>Model\<close>

text \<open>\<^verbatim>\<open>load_record\<close> of \<^verbatim>\<open>write_fixed_len_pages\<close> has the text of \<^verbatim>\<open>load_csv_record\<close>.\<close>

definition load_record :: "Record \<Rightarrow> bytes \<Rightarrow> Record res" where
  "load_record record line =
     (let record' = record @ map mk_attribute (tokens comma (cstr line))
      in bindR (assertR (length record' = 100)) (\<lambda>_. Inr record'))"

record writer =
  wr_page :: "Page option"
  wr_file :: cfile
  num_records :: int
  num_pages :: int

definition write_page_to :: "int \<Rightarrow> Page \<Rightarrow> cfile \<Rightarrow> cfile res" where
  "write_page_to page_size page file =
     bindR (load_bytes (pg_data page) 0 (nat page_size)) (\<lambda>bs. Inr (fwrite file bs))"

text \<open>``Allocate a new page if necessary''.\<close>

definition next_page :: "int \<Rightarrow> writer \<Rightarrow> writer res" where
  "next_page page_size w =
     bindR (case wr_page w of None \<Rightarrow> Inr True
            | Some page \<Rightarrow> bindR (fixed_len_page_freeslots page) (\<lambda>free. Inr (free = 0))) (\<lambda>necessary.
     if necessary
     then bindR (case wr_page w of None \<Rightarrow> Inr (wr_file w) | Some page \<Rightarrow> write_page_to page_size page (wr_file w)) (\<lambda>file.
          bindR (init_fixed_len_page page_size 1000) (\<lambda>page.
          bindR (add_int (num_pages w) 1) (\<lambda>n.
          Inr (w\<lparr>wr_page := Some page, wr_file := file, num_pages := n\<rparr>))))
     else Inr w)"

definition write_line :: "int \<Rightarrow> bytes \<Rightarrow> writer \<Rightarrow> writer res" where
  "write_line page_size line w =
     bindR (load_record [] line) (\<lambda>rec.
     bindR (add_int (num_records w) 1) (\<lambda>n.
     bindR (next_page page_size (w\<lparr>num_records := n\<rparr>)) (\<lambda>w.
     bindR (deref (wr_page w)) (\<lambda>page.
     bindR (add_fixed_len_page page rec) (\<lambda>(_, page).
     Inr (w\<lparr>wr_page := Some page\<rparr>))))))"

fun write_lines :: "int \<Rightarrow> bytes list \<Rightarrow> writer \<Rightarrow> writer res" where
  "write_lines page_size [] w = Inr w"
| "write_lines page_size (line # lines) w =
     bindR (write_line page_size line w) (\<lambda>w. write_lines page_size lines w)"

definition write_main :: "bytes list \<Rightarrow> bytes option \<Rightarrow> cfile option \<Rightarrow> outcome res" where
  "write_main argv csv file =
     (if length argv \<noteq> 4 then Inr (1, [], None)
      else let page_size = atoi (argv ! 3) in
      (case (csv, file) of
         (Some text, Some page_file) \<Rightarrow>
           if \<not> 0 < page_size then Inr (1, [], None)
           else bindR (write_lines page_size (read_lines MAX_LINE_LEN text)
                  \<lparr>wr_page = None, wr_file = page_file, num_records = 0, num_pages = 0\<rparr>) (\<lambda>w.
                bindR (deref (wr_page w)) (\<lambda>page.
                bindR (write_page_to page_size page (wr_file w)) (\<lambda>file.
                Inr (0, bstr ''NUMBER OF RECORDS: '' @ print_int (num_records w) @ [newline]
                        @ bstr ''NUMBER OF PAGES: '' @ print_int (num_pages w) @ [newline], Some file))))
       | _ \<Rightarrow> Inr (1, [], None)))"

text \<open>
  \<^verbatim>\<open>read_fixed_len_pages\<close>: the buffer \<^verbatim>\<open>line\<close> is reused, so a short read leaves
  the end of the page before; \<open>junk\<close> is what it holds at first.
\<close>

fun print_slots :: "Page \<Rightarrow> nat \<Rightarrow> int \<Rightarrow> bytes res" where
  "print_slots page 0 i = Inr []"
| "print_slots page (Suc n) i =
     bindR (read_fixed_len_page page i 100) (\<lambda>rec.
     bindR (print_record_as_csv rec) (\<lambda>line.
     bindR (print_slots page n (i + 1)) (\<lambda>out. Inr (line @ out))))"

definition print_page :: "int \<Rightarrow> bytes \<Rightarrow> bytes res" where
  "print_page page_size line =
     bindR (init_fixed_len_page page_size 1000) (\<lambda>page.
     let page = page\<lparr>pg_data := line\<rparr> in
     bindR (fixed_len_page_freeslots page) (\<lambda>free.
     let numRecs = fixed_len_page_capacity page - free in
     print_slots page (nat numRecs) 0))"

function read_pages :: "int \<Rightarrow> bytes \<Rightarrow> cfile \<Rightarrow> bytes res" where
  "read_pages page_size line file =
     (let chunk = fst (fread file (nat page_size)); file' = snd (fread file (nat page_size)) in
      if chunk = [] then Inr []
      else let line = blit line 0 chunk in
           bindR (print_page page_size line) (\<lambda>out.
           bindR (read_pages page_size line file') (\<lambda>rest. Inr (out @ rest))))"
  by pat_completeness auto
termination
  by (relation "measure (\<lambda>(ps, line, file). length (fcontents file) - fpos file)") (auto simp: fread_def Let_def)

declare read_pages.simps [simp del]

definition read_main :: "(nat \<Rightarrow> byte) \<Rightarrow> bytes list \<Rightarrow> cfile option \<Rightarrow> outcome res" where
  "read_main junk argv file =
     (if length argv \<noteq> 3 then Inr (1, [], None)
      else let page_size = atoi (argv ! 2) in
      (case file of
         None \<Rightarrow> Inr (1, [], None)
       | Some page_file \<Rightarrow>
           if \<not> 0 < page_size then Inr (1, [], None)
           else bindR (read_pages page_size (map junk [0..<nat page_size]) page_file) (\<lambda>out. Inr (0, out, None))))"


section \<open>Page files: writing and reading back\<close>

text \<open>A page whose first slots hold the records of a list and whose other slots are free.\<close>

definition page_with :: "int \<Rightarrow> Record list \<Rightarrow> Page \<Rightarrow> bool" where
  "page_with ps rs p \<longleftrightarrow> wf_page p \<and> pg_page_size p = ps \<and> pg_slot_size p = 1000 \<and> length rs \<le> cap p
     \<and> page_abs p = (\<lambda>s. if s < length rs then Some (record_image (rs ! s)) else None)"

definition page_cap :: "int \<Rightarrow> nat" where
  "page_cap ps = cap \<lparr>pg_data = [], pg_page_size = ps, pg_slot_size = 1000\<rparr>"

lemma page_with_cap: "page_with ps rs p \<Longrightarrow> cap p = page_cap ps"
  unfolding page_cap_def page_with_def by (intro same_sizes) auto

lemma page_with_free:
  assumes "page_with ps rs p"
  shows "fixed_len_page_freeslots p = Inr (int (page_cap ps) - int (length rs))"
proof -
  have "dom (page_abs p) = {..<length rs}" using assms by (auto simp: page_with_def split: if_splits)
  then show ?thesis using freeslots_spec [of p] assms page_with_cap [OF assms] by (simp add: page_with_def)
qed

lemma page_with_add:
  assumes p: "page_with ps rs p" and n: "length rs < page_cap ps" and r: "length r = 100"
  shows "\<exists>s p'. add_fixed_len_page p r = Inr (s, p') \<and> page_with ps (rs @ [r]) p'"
proof -
  let ?n = "length rs"
  have wf: "wf_page p" and ss: "pg_slot_size p = 1000" and abs: "page_abs p = (\<lambda>s. if s < ?n then Some (record_image (rs ! s)) else None)"
    and c: "cap p = page_cap ps" using p page_with_cap [OF p] by (auto simp: page_with_def)
  have nc: "?n < cap p" "page_abs p ?n = None" using n c abs by auto
  have "first_free p = ?n" unfolding first_free_def using nc abs by (intro Least_equality) (auto split: if_splits)
  then obtain p' where p': "add_fixed_len_page p r = Inr (int ?n, p')" "wf_page p'" "pg_page_size p' = pg_page_size p"
    "pg_slot_size p' = 1000" "page_abs p' = (page_abs p)(?n \<mapsto> blit (slot_image p ?n) 0 (record_image r))"
    using add_fixed_len_page_free [OF wf nc, of r] ss r by auto
  have "blit (slot_image p ?n) 0 (record_image r) = record_image r"
    using length_slot_image [OF wf nc(1)] ss r by (intro blit_0_full) (simp add: length_record_image)
  moreover have "cap p' = cap p" using p'(3,4) ss by (intro same_sizes) auto
  ultimately have "page_with ps (rs @ [r]) p'"
    using p' p n c abs by (auto simp: page_with_def fun_eq_iff nth_append)
  then show ?thesis using p'(1) by blast
qed

lemma page_with_init: "1000 < ps \<Longrightarrow> \<exists>p. init_fixed_len_page ps 1000 = Inr p \<and> page_with ps [] p"
  using init_fixed_len_page_spec [of 1000 ps] by (auto simp: page_with_def)

lemma page_cap_pos: assumes "1000 < ps" shows "0 < page_cap ps"
proof -
  obtain p where "page_with ps [] p" using page_with_init [OF assms] by blast
  then show ?thesis using wf_page_cap [of p] page_with_cap [of ps "[]" p] by (simp add: page_with_def)
qed

text \<open>The invariant of the writer: full pages in the file, the rest of the records in the current page.\<close>

definition written :: "int \<Rightarrow> bytes \<Rightarrow> Record list list \<Rightarrow> bool" where
  "written ps F rss \<longleftrightarrow> (\<exists>pgs. list_all2 (page_with ps) rss pgs \<and> F = concat (map pg_data pgs))"

definition writer_inv :: "int \<Rightarrow> Record list \<Rightarrow> writer \<Rightarrow> bool" where
  "writer_inv ps rs w \<longleftrightarrow> (\<exists>rss. written ps (fcontents (wr_file w)) rss \<and> (\<forall>r \<in> set rss. length r = page_cap ps)
     \<and> fpos (wr_file w) = length (fcontents (wr_file w)) \<and> num_records w = int (length rs)
     \<and> (case wr_page w of None \<Rightarrow> rss = [] \<and> rs = [] \<and> num_pages w = 0
        | Some p \<Rightarrow> num_pages w = int (length rss) + 1
            \<and> (\<exists>cur. cur \<noteq> [] \<and> page_with ps cur p \<and> rs = concat rss @ cur)))"

lemma page_data_length: "page_with ps rs p \<Longrightarrow> length (pg_data p) = nat ps"
  by (simp add: page_with_def wf_page_def)

lemma write_page_spec:
  assumes "page_with ps rs p" and "0 < ps" and "written ps (fcontents f) rss" and "fpos f = length (fcontents f)"
  shows "\<exists>f'. write_page_to ps p f = Inr f' \<and> written ps (fcontents f') (rss @ [rs]) \<and> fpos f' = length (fcontents f')
    \<and> fcontents f' = fcontents f @ pg_data p"
proof -
  have l: "length (pg_data p) = nat ps" using page_data_length [OF assms(1)] .
  have "write_page_to ps p f = Inr (fwrite f (pg_data p))" using l assms(2) by (simp add: write_page_to_def load_bytes_def)
  moreover have "fwrite f (pg_data p) = f\<lparr>fcontents := fcontents f @ pg_data p, fpos := length (fcontents f @ pg_data p)\<rparr>"
    using assms(4) by (simp add: fwrite_def blit_def)
  moreover obtain pgs where "list_all2 (page_with ps) rss pgs" "fcontents f = concat (map pg_data pgs)"
    using assms(3) by (auto simp: written_def)
  then have "written ps (fcontents f @ pg_data p) (rss @ [rs])"
    unfolding written_def using assms(1) by (intro exI [of _ "pgs @ [p]"]) (simp add: list_all2_appendI)
  ultimately show ?thesis by simp
qed

lemma full_pages: "(\<forall>r \<in> set rss. length r = page_cap ps) \<Longrightarrow> 1000 < ps \<Longrightarrow> length rss \<le> length (concat rss)"
proof (induction rss)
  case (Cons r rss)
  then show ?case using page_cap_pos [of ps] by simp
qed simp

lemma write_line_spec:
  assumes inv: "writer_inv ps rs w" and ps: "1000 < ps" and l: "line_ok line" and few: "length rs + 1 < 2 ^ 31"
  shows "\<exists>w'. write_line ps line w = Inr w' \<and> writer_inv ps (rs @ [line_record line]) w'"
proof -
  let ?r = "line_record line"
  have ld: "load_record [] line = Inr ?r" using l by (simp add: load_record_def line_record_def line_ok_def)
  have lr: "length ?r = 100" using l by (rule length_line_record)
  obtain rss where w: "written ps (fcontents (wr_file w)) rss" "\<forall>r \<in> set rss. length r = page_cap ps"
     "fpos (wr_file w) = length (fcontents (wr_file w))" "num_records w = int (length rs)"
     "case wr_page w of None \<Rightarrow> rss = [] \<and> rs = [] \<and> num_pages w = 0
        | Some p \<Rightarrow> num_pages w = int (length rss) + 1 \<and> (\<exists>cur. cur \<noteq> [] \<and> page_with ps cur p \<and> rs = concat rss @ cur)"
    using inv unfolding writer_inv_def by blast
  let ?w = "w\<lparr>num_records := num_records w + 1\<rparr>"
  have nr: "add_int (num_records w) 1 = Inr (num_records w + 1)" using w(4) few by simp
  obtain p0 where p0: "init_fixed_len_page ps 1000 = Inr p0" "page_with ps [] p0" using page_with_init [OF ps] by blast
  have nx: "\<exists>rss' cur p f n. next_page ps ?w = Inr (?w\<lparr>wr_page := Some p, wr_file := f, num_pages := n\<rparr>)
    \<and> written ps (fcontents f) rss' \<and> (\<forall>r \<in> set rss'. length r = page_cap ps) \<and> fpos f = length (fcontents f)
    \<and> n = int (length rss') + 1 \<and> page_with ps cur p \<and> length cur < page_cap ps \<and> rs = concat rss' @ cur"
  proof (cases "wr_page w")
    case None
    then have "next_page ps ?w = Inr (?w\<lparr>wr_page := Some p0, wr_file := wr_file w, num_pages := 1\<rparr>)"
      using w(5) p0(1) by (simp add: next_page_def)
    then show ?thesis using None w p0(2) page_cap_pos [OF ps]
      by (intro exI [of _ "[]"] exI [of _ "[]"] exI [of _ p0] exI [of _ "wr_file w"] exI [of _ 1]) simp
  next
    case (Some p)
    then obtain cur where cur: "num_pages w = int (length rss) + 1" "cur \<noteq> []" "page_with ps cur p" "rs = concat rss @ cur"
      using w(5) by auto
    have le: "length cur \<le> page_cap ps" using cur(3) page_with_cap [OF cur(3)] by (simp add: page_with_def)
    show ?thesis
    proof (cases "length cur = page_cap ps")
      case True
      obtain f where f: "write_page_to ps p (wr_file w) = Inr f" "written ps (fcontents f) (rss @ [cur])" "fpos f = length (fcontents f)"
        using write_page_spec [OF cur(3) _ w(1,3)] ps by auto
      have "length rss + 1 \<le> length rs" using full_pages [OF w(2) ps] cur(2,4) by (cases cur) simp_all
      then have "add_int (num_pages w) 1 = Inr (num_pages w + 1)" using cur(1) few by (intro add_int_ok) simp
      then have "next_page ps ?w = Inr (?w\<lparr>wr_page := Some p0, wr_file := f, num_pages := num_pages w + 1\<rparr>)"
        using Some page_with_free [OF cur(3)] True f(1) p0(1) by (simp add: next_page_def)
      then show ?thesis using f(2,3) w(2) True cur(1,4) p0(2) page_cap_pos [OF ps]
        by (intro exI [of _ "rss @ [cur]"] exI [of _ "[]"] exI [of _ p0] exI [of _ f] exI [of _ "num_pages w + 1"]) simp
    next
      case False
      have "next_page ps ?w = Inr ?w"
        using Some page_with_free [OF cur(3)] False le by (simp add: next_page_def)
      then show ?thesis using w cur Some False le
        by (intro exI [of _ rss] exI [of _ cur] exI [of _ p] exI [of _ "wr_file w"] exI [of _ "num_pages w"]) simp
    qed
  qed
  then obtain rss' cur p f n where n: "next_page ps ?w = Inr (?w\<lparr>wr_page := Some p, wr_file := f, num_pages := n\<rparr>)"
    "written ps (fcontents f) rss'" "\<forall>r \<in> set rss'. length r = page_cap ps" "fpos f = length (fcontents f)"
    "n = int (length rss') + 1" "page_with ps cur p" "length cur < page_cap ps" "rs = concat rss' @ cur" by blast
  obtain s p' where a: "add_fixed_len_page p ?r = Inr (s, p')" "page_with ps (cur @ [?r]) p'"
    using page_with_add [OF n(6,7) lr] by blast
  let ?w' = "?w\<lparr>wr_page := Some p', wr_file := f, num_pages := n\<rparr>"
  have "write_line ps line w = Inr ?w'" using ld nr n(1) a(1) by (simp add: write_line_def deref_def)
  moreover have "writer_inv ps (rs @ [?r]) ?w'"
    unfolding writer_inv_def using n a(2) w(4) by (intro exI [of _ rss']) auto
  ultimately show ?thesis by blast
qed

lemma write_lines_spec:
  assumes "writer_inv ps rs w" and "1000 < ps" and "\<forall>l \<in> set ls. line_ok l" and "length rs + length ls < 2 ^ 31"
  shows "\<exists>w'. write_lines ps ls w = Inr w' \<and> writer_inv ps (rs @ map line_record ls) w'"
  using assms
proof (induction ls arbitrary: rs w)
  case (Cons l ls)
  obtain w1 where "write_line ps l w = Inr w1" "writer_inv ps (rs @ [line_record l]) w1"
    using write_line_spec [OF Cons.prems(1,2)] Cons.prems(3,4) by auto
  then show ?case using Cons.IH [of "rs @ [line_record l]" w1] Cons.prems by auto
qed simp

text \<open>Reading a page prints its records.\<close>

definition csv_line :: "Record \<Rightarrow> bytes" where
  "csv_line r = join comma (map cstr (map mk_attribute r)) @ [newline]"

lemma print_slots_spec:
  assumes p: "page_with ps rs p" and r: "\<forall>r \<in> set rs. length r = 100" and "s + n \<le> length rs"
  shows "print_slots p n (int s) = Inr (concat (map csv_line (take n (drop s rs))))"
  using assms(3)
proof (induction n arbitrary: s)
  case (Suc n)
  then have s: "s < length rs" and l: "length (rs ! s) = 100" using r by auto
  have "page_abs p s = Some (record_image (rs ! s))" using p s by (simp add: page_with_def)
  then have "read_fixed_len_page p (int s) 100 = Inr (map mk_attribute (rs ! s))"
    using fp.get_spec [of p s "record_image (rs ! s)" 100] p split_record_image [of "rs ! s"] l by (simp add: page_with_def)
  moreover have "rs ! s \<noteq> []" using l by auto
  then have "print_record_as_csv (map mk_attribute (rs ! s)) = Inr (csv_line (rs ! s))"
    by (simp add: print_record_join csv_line_def)
  moreover have "print_slots p n (int s + 1) = Inr (concat (map csv_line (take n (drop (Suc s) rs))))"
    using Suc.IH [of "Suc s"] Suc.prems by (simp add: add.commute)
  moreover have "take (Suc n) (drop s rs) = rs ! s # take n (drop (Suc s) rs)"
    using s by (metis Cons_nth_drop_Suc take_Suc_Cons)
  ultimately show ?case by simp
qed simp

lemma print_page_spec:
  assumes p: "page_with ps rs p" and r: "\<forall>r \<in> set rs. length r = 100" and ps: "1000 < ps"
  shows "print_page ps (pg_data p) = Inr (concat (map csv_line rs))"
proof -
  obtain q where q: "init_fixed_len_page ps 1000 = Inr q" "pg_page_size q = ps" "pg_slot_size q = 1000"
    using page_with_init [OF ps] by (auto simp: page_with_def)
  have e: "q\<lparr>pg_data := pg_data p\<rparr> = p" using q p by (simp add: page_with_def)
  have "fixed_len_page_capacity p = int (page_cap ps)"
    using wf_page_cap [of p] p page_with_cap [OF p] by (simp add: page_with_def)
  then show ?thesis
    using q(1) e page_with_free [OF p] print_slots_spec [OF p r, of 0 "length rs"] by (simp add: print_page_def Let_def)
qed

lemma read_pages_spec:
  assumes "list_all2 (page_with ps) rss pgs" and "\<forall>rs \<in> set rss. \<forall>r \<in> set rs. length r = 100" and "1000 < ps"
    and "length line = nat ps"
  shows "read_pages ps line \<lparr>fcontents = pre @ concat (map pg_data pgs), fpos = length pre\<rparr> = Inr (concat (map csv_line (concat rss)))"
  using assms
proof (induction rss pgs arbitrary: line pre rule: list_all2_induct)
  case Nil
  then show ?case by (subst read_pages.simps) (simp add: fread_def Let_def)
next
  case (Cons rs rss p pgs)
  have l: "length (pg_data p) = nat ps" using page_data_length [OF Cons.hyps(1)] .
  have ne: "pg_data p \<noteq> []" using l Cons.prems(2) by auto
  have IH: "read_pages ps (pg_data p) \<lparr>fcontents = (pre @ pg_data p) @ concat (map pg_data pgs), fpos = length (pre @ pg_data p)\<rparr>
    = Inr (concat (map csv_line (concat rss)))" using Cons.prems l by (intro Cons.IH) auto
  have "blit line 0 (pg_data p) = pg_data p" using l Cons.prems(3) by (intro blit_0_full) simp
  moreover have "print_page ps (pg_data p) = Inr (concat (map csv_line rs))"
    using Cons.prems by (intro print_page_spec [OF Cons.hyps(1)]) auto
  ultimately show ?case
    using l ne IH by (subst read_pages.simps) (simp add: fread_def Let_def)
qed

text \<open>\<^verbatim>\<open>write_fixed_len_pages\<close> and \<^verbatim>\<open>read_fixed_len_pages\<close> together: the CSV file comes back, field by field.\<close>

lemma write_read_spec:
  assumes w: "length argv = 4" "atoi (argv ! 3) = ps" "1000 < ps" and r: "length argv' = 3" "atoi (argv' ! 2) = ps"
    and ls: "ls = read_lines MAX_LINE_LEN text" "\<forall>l \<in> set ls. line_ok l" "ls \<noteq> []" "length ls < 2 ^ 31"
  shows "\<exists>f m. write_main argv (Some text) (Some \<lparr>fcontents = [], fpos = 0\<rparr>) =
      Inr (0, bstr ''NUMBER OF RECORDS: '' @ print_int (int (length ls)) @ [newline]
              @ bstr ''NUMBER OF PAGES: '' @ print_int (int m) @ [newline], Some f)
    \<and> length (fcontents f) = m * nat ps \<and> (m - 1) * page_cap ps < length ls \<and> length ls \<le> m * page_cap ps
    \<and> read_main junk argv' (Some (rewind f)) = Inr (0, concat (map (csv_line \<circ> line_record) ls), None)"
proof -
  let ?w0 = "\<lparr>wr_page = None, wr_file = \<lparr>fcontents = [], fpos = 0\<rparr>, num_records = 0, num_pages = 0\<rparr>"
  let ?rs = "map line_record ls"
  have "writer_inv ps [] ?w0" by (simp add: writer_inv_def written_def)
  then obtain w1 where w1: "write_lines ps ls ?w0 = Inr w1" "writer_inv ps ?rs w1"
    using write_lines_spec [OF _ w(3) ls(2), of "[]" ?w0] ls(4) by auto
  then obtain rss where i0: "written ps (fcontents (wr_file w1)) rss" "\<forall>r \<in> set rss. length r = page_cap ps"
     "fpos (wr_file w1) = length (fcontents (wr_file w1))" "num_records w1 = int (length ?rs)"
     "case wr_page w1 of None \<Rightarrow> rss = [] \<and> ?rs = [] \<and> num_pages w1 = 0
        | Some p \<Rightarrow> num_pages w1 = int (length rss) + 1 \<and> (\<exists>cur. cur \<noteq> [] \<and> page_with ps cur p \<and> ?rs = concat rss @ cur)"
    unfolding writer_inv_def by blast
  obtain p where p: "wr_page w1 = Some p" using i0(5) ls(3) by (cases "wr_page w1") auto
  then obtain cur where cur: "num_pages w1 = int (length rss) + 1" "cur \<noteq> []" "page_with ps cur p" "?rs = concat rss @ cur"
    using i0(5) by auto
  note i = i0(1-4) p cur
  obtain f where f: "write_page_to ps p (wr_file w1) = Inr f" "written ps (fcontents f) (rss @ [cur])"
    using write_page_spec [OF i(8) _ i(1,3)] w(3) by auto
  then obtain pgs where pgs: "list_all2 (page_with ps) (rss @ [cur]) pgs" "fcontents f = concat (map pg_data pgs)"
    by (auto simp: written_def)
  have len100: "\<forall>rs \<in> set (rss @ [cur]). \<forall>r \<in> set rs. length r = 100"
  proof -
    have "\<forall>r \<in> set ?rs. length r = 100" using ls(2) by (auto simp: length_line_record)
    then show ?thesis unfolding i(9) by auto
  qed
  let ?m = "length rss + 1"
  have "\<forall>p \<in> set pgs. length (pg_data p) = nat ps"
    using pgs(1) page_data_length by (metis in_set_conv_nth list_all2_conv_all_nth)
  then have "length (fcontents f) = length pgs * nat ps"
    unfolding pgs(2) by (induction pgs) auto
  then have lf: "length (fcontents f) = ?m * nat ps" using list_all2_lengthD [OF pgs(1)] by simp
  have "length (concat rss) = length rss * page_cap ps" using i(2) by (induction rss) auto
  then have "length ls = length rss * page_cap ps + length cur" using arg_cong [OF i(9), of length] by simp
  moreover have "length cur \<le> page_cap ps" "0 < length cur"
    using i(7,8) page_with_cap [OF i(8)] by (auto simp: page_with_def)
  ultimately have m: "(?m - 1) * page_cap ps < length ls" "length ls \<le> ?m * page_cap ps" by (simp_all add: algebra_simps)
  have "read_pages ps (map junk [0..<nat ps]) \<lparr>fcontents = [] @ concat (map pg_data pgs), fpos = length ([] :: bytes)\<rparr>
      = Inr (concat (map csv_line (concat (rss @ [cur]))))"
    using w(3) by (intro read_pages_spec [OF pgs(1) len100]) auto
  moreover have "rewind f = \<lparr>fcontents = concat (map pg_data pgs), fpos = 0\<rparr>" using pgs(2) by (simp add: rewind_def)
  moreover have "concat (map csv_line (concat (rss @ [cur]))) = concat (map (csv_line \<circ> line_record) ls)"
    using i(9) by (metis concat.simps concat_append append_Nil2 map_map)
  ultimately have "read_main junk argv' (Some (rewind f)) = Inr (0, concat (map (csv_line \<circ> line_record) ls), None)"
    using r w(3) by (simp add: read_main_def Let_def)
  moreover have "write_main argv (Some text) (Some \<lparr>fcontents = [], fpos = 0\<rparr>) =
      Inr (0, bstr ''NUMBER OF RECORDS: '' @ print_int (int (length ls)) @ [newline]
              @ bstr ''NUMBER OF PAGES: '' @ print_int (int ?m) @ [newline], Some f)"
    using w ls(1) w1(1) i(4-6) f(1) by (simp add: write_main_def Let_def deref_def add.commute)
  ultimately show ?thesis using lf m by (intro exI [of _ f] exI [of _ ?m]) simp
qed


end
