(* ===== verification/Heap_Properties.thy ===== *)
theory Heap_Properties
  imports Page_Tools
begin

text \<open>
  The properties of the heap file library \<^verbatim>\<open>a1/\<close> and of its tools, each with an input to which it applies.
\<close>

section \<open>Records and pages\<close>

text \<open>
  C14: serialising a record of fewer than 2^31 bytes (10 bytes for each attribute, so that the size fits in an \<open>int\<close>) at any place of a
  buffer where it fits and reading it back there with that size gives every attribute cut to ten bytes and terminated, and the write
  changes nothing outside the slot.
\<close>

theorem record_roundtrip:
  assumes "0 \<le> dest" and "dest + 10 * int (length r) \<le> int (length buf)" and "10 * int (length r) < 2 ^ 31"
  shows "\<exists>buf'. fixed_len_sizeof r = 10 * int (length r) \<and> fixed_len_write r buf dest = Inr buf' \<and> length buf' = length buf
    \<and> fixed_len_read buf' dest (fixed_len_sizeof r) (length r) = Inr (map mk_attribute r)
    \<and> take (nat dest) buf' = take (nat dest) buf
    \<and> drop (nat (dest + fixed_len_sizeof r)) buf' = drop (nat (dest + fixed_len_sizeof r)) buf"
proof -
  let ?b = "blit buf (nat dest) (record_image r)"
  note sz = fixed_len_sizeof_small [OF assms(3)]
  have fit: "nat dest + length (record_image r) \<le> length buf" using assms(1,2) by (simp add: length_record_image)
  have w: "fixed_len_write r buf dest = Inr ?b" using assms by (intro fixed_len_write_image) auto
  have "take (10 * length r) (drop (nat dest) ?b) = record_image r"
    using blit_same [OF fit] by (simp add: length_record_image)
  then have "fixed_len_read_loop ?b dest (length r) = Inr (map mk_attribute r)"
    using fixed_len_read_loop_split [of dest "length r" ?b] assms fit split_record_image [of r] by simp
  then have "fixed_len_read ?b dest (fixed_len_sizeof r) (length r) = Inr (map mk_attribute r)"
    by (simp add: fixed_len_read_ok sz)
  moreover have "nat (dest + fixed_len_sizeof r) = nat dest + length (record_image r)"
    using assms(1) by (simp add: sz length_record_image nat_add_distrib)
  then have "drop (nat (dest + fixed_len_sizeof r)) ?b = drop (nat (dest + fixed_len_sizeof r)) buf"
    using fit by (simp add: blit_def)
  ultimately show ?thesis using w fit sz by (intro exI [of _ ?b]) (simp add: take_blit_le)
qed

theorem record_roundtrip_witness:
  "\<exists>buf'. fixed_len_write [[104, 105, 0], []] (replicate 30 7) 5 = Inr buf'
    \<and> fixed_len_read buf' 5 20 2 = Inr [[104, 105, 0, 0, 0, 0, 0, 0, 0, 0, 0], replicate 11 0]"
proof -
  have m: "map mk_attribute [[104, 105, 0], []] = [[104, 105, 0, 0, 0, 0, 0, 0, 0, 0, 0], replicate 11 0]"
    by code_simp
  have z: "fixed_len_sizeof [[104, 105, 0], []] = 20" and l: "length [[104, 105, 0], [] :: bytes] = 2" by code_simp+
  show ?thesis using record_roundtrip [of 5 "[[104, 105, 0], []]" "replicate 30 7"] unfolding m z l by (simp del: fixed_len_write.simps) blast
qed

text \<open>
  A write that does not fit in the buffer runs past its end.
\<close>

theorem record_write_overflow:
  assumes "0 \<le> dest" and "dest \<le> int (length buf)" and "int (length buf) < dest + 10 * int (length r)"
  shows "fixed_len_write r buf dest = Inl Out_of_bounds"
  using assms fixed_len_write_oob [of dest buf r] by simp

theorem record_write_overflow_witness: "fixed_len_write [[1], [2]] (replicate 19 0) 0 = Inl Out_of_bounds"
  using record_write_overflow [of 0 "replicate 19 0" "[[1], [2]]"] by simp

text \<open>
  For every slot size that is smaller than the page, a page has room for at least one record, and the slots that the
  capacity counts end before the bytes of the bitmap begin.
\<close>

theorem page_capacity_layout:
  assumes "0 < pg_slot_size p" and "pg_slot_size p < pg_page_size p"
  shows "1 \<le> fixed_len_page_capacity p
    \<and> fixed_len_page_capacity p * pg_slot_size p \<le> pg_page_size p - ceil8 (fixed_len_page_capacity p)
    \<and> (\<forall>s. 0 \<le> s \<and> s < fixed_len_page_capacity p \<longrightarrow> pg_page_size p - ceil8 (fixed_len_page_capacity p) \<le> pg_page_size p - ceil8 (s + 1))"
  using capacity_bounds [OF assms] ceil8_mono [of "s + 1" "fixed_len_page_capacity p" for s] by auto

theorem page_capacity_layout_witness:
  "fixed_len_page_capacity \<lparr>pg_data = [], pg_page_size = 4096, pg_slot_size = 1000\<rparr> = 4
    \<and> 4 * 1000 \<le> 4096 - ceil8 4"
  using page_capacity_layout [of "\<lparr>pg_data = [], pg_page_size = 4096, pg_slot_size = 1000\<rparr>"]
  by (simp add: fixed_len_page_capacity_def ceil8_def)

text \<open>
  The capacity is not always the maximal number of records: on a page of 3220 bytes 160 records of 20 bytes and their
  bitmap fit, but the capacity is 159.
\<close>

theorem page_capacity_not_maximal:
  "fixed_len_page_capacity \<lparr>pg_data = [], pg_page_size = 3220, pg_slot_size = 20\<rparr> = 159 \<and> 160 * 20 + ceil8 160 \<le> 3220"
  by (simp add: fixed_len_page_capacity_def ceil8_def)

text \<open>
  C9: adding a record refines the insertion into the map of the page. When every slot is used it returns -1 and leaves the
  page as it is; otherwise it stores the image of the record in the lowest free slot, returns its number, keeps the
  other slots, and the number of free slots drops by one.
\<close>

theorem add_fixed_len_page_refines:
  assumes wf: "wf_page p" and r: "10 * int (length r) = pg_slot_size p"
  shows "if dom (page_abs p) = {..<cap p} then add_fixed_len_page p r = Inr (-1, p)
    else \<exists>s p'. add_fixed_len_page p r = Inr (int s, p') \<and> s < cap p \<and> page_abs p s = None \<and> (\<forall>t < s. page_abs p t \<noteq> None)
      \<and> wf_page p' \<and> page_abs p' = (page_abs p)(s \<mapsto> record_image r)
      \<and> fixed_len_page_freeslots p' = map_sum id (\<lambda>n. n - 1) (fixed_len_page_freeslots p)"
proof (cases "dom (page_abs p) = {..<cap p}")
  case True
  then have "\<forall>s<cap p. page_abs p s \<noteq> None" by blast
  then show ?thesis using True add_fixed_len_page_full [OF wf] by simp
next
  case False
  then obtain s0 where s0: "s0 < cap p" "page_abs p s0 = None" using dom_page_abs [of p] by blast
  note ff = first_free_props [OF s0]
  have sz: "10 * int (length r) \<le> pg_slot_size p" using r by simp
  have li: "length (slot_image p (first_free p)) = length (record_image r)"
    using length_slot_image [OF wf ff(1)] length_record_image [of r] r by linarith
  obtain p' where p': "add_fixed_len_page p r = Inr (int (first_free p), p')" "wf_page p'"
      "pg_page_size p' = pg_page_size p" "pg_slot_size p' = pg_slot_size p"
      "page_abs p' = (page_abs p)(first_free p \<mapsto> record_image r)"
    using add_fixed_len_page_free [OF wf s0 sz] li by (auto simp: blit_0_full)
  have c: "cap p' = cap p" using p'(3,4) by (simp add: cap_def fixed_len_page_capacity_def)
  have fin: "finite (dom (page_abs p))" using wf by (rule fp.finite_abs)
  have "first_free p \<notin> dom (page_abs p)" using ff(2) by blast
  then have "card (dom (page_abs p')) = Suc (card (dom (page_abs p)))" using fin by (simp add: p'(5))
  then have "fixed_len_page_freeslots p' = map_sum id (\<lambda>n. n - 1) (fixed_len_page_freeslots p)"
    using freeslots_spec [OF wf] freeslots_spec [OF p'(2)] c by simp
  then show ?thesis using False p' ff by auto
qed

theorem add_fixed_len_page_refines_witness:
  "\<exists>p s p'. init_fixed_len_page 64 20 = Inr p \<and> add_fixed_len_page p [[1], [2]] = Inr (int s, p')
    \<and> page_abs p' = (page_abs p)(s \<mapsto> record_image [[1], [2]])"
proof -
  obtain p where p: "init_fixed_len_page 64 20 = Inr p" "wf_page p" "pg_slot_size p = 20" "pg_page_size p = 64" "page_abs p = Map.empty"
    using init_fixed_len_page_spec [of 20 64] by auto
  have "cap p = 3" using p by (simp add: cap_def fixed_len_page_capacity_def ceil8_def)
  then have ne: "dom (page_abs p) \<noteq> {..<cap p}" using p(5) by (metis dom_empty lessThan_iff empty_iff zero_less_numeral)
  have z: "10 * int (length [[1], [2 :: byte]]) = pg_slot_size p" using p(3) by simp
  show ?thesis using add_fixed_len_page_refines [OF p(2) z] p(1) unfolding if_not_P [OF ne] by blast
qed

text \<open>
  The slot iterator returns the first used slot after the given one, and -1 when there is none.
\<close>

theorem next_filled_slot_first:
  assumes "wf_page p" and "-1 \<le> slot"
  shows "get_next_filled_slot p slot =
    Inr (if \<exists>t \<in> dom (page_abs p). slot < int t then int (LEAST t. t \<in> dom (page_abs p) \<and> slot < int t) else -1)"
proof (cases "\<exists>t \<in> dom (page_abs p). slot < int t")
  case True
  let ?t = "LEAST t. t \<in> dom (page_abs p) \<and> slot < int t"
  have "?t \<in> dom (page_abs p) \<and> slot < int ?t" using LeastI_ex [of "\<lambda>t. t \<in> dom (page_abs p) \<and> slot < int t"] True by blast
  moreover have "u \<notin> dom (page_abs p)" if "slot < int u" "u < ?t" for u
    using not_less_Least [OF that(2)] that(1) by blast
  ultimately have "get_next_filled_slot p slot = Inr (int ?t)"
    using get_next_filled_slot_found [OF assms, of ?t] by blast
  then show ?thesis unfolding if_P [OF True] .
next
  case False
  then show ?thesis using get_next_filled_slot_none [OF assms] by auto
qed

theorem next_filled_slot_first_witness: "\<exists>p. wf_page p \<and> pg_page_size p = 64 \<and> get_next_filled_slot p (-1) = Inr (-1)"
  using init_fixed_len_page_spec [of 20 64] next_filled_slot_first [of _ "-1"] by fastforce


section \<open>The heap file\<close>

text \<open>Heap files to apply the properties to: an empty one, and one with a record in it.\<close>

lemma fresh_heap:
  "\<exists>hf. record_inv hf \<and> hf_page_size hf = 4096 \<and> hf_slot_size hf = 1000 \<and> heap_abs hf = Map.empty \<and> heap_view hf = []
    \<and> length (hcontents hf) = 4096"
proof -
  obtain h1 where h1: "init_heapfile new_Heapfile 4096 1000 = Inr h1" by (simp add: init_heapfile_def)
  have "directory_buffer new_Heapfile = []" by (simp add: new_Heapfile_def)
  then show ?thesis
    using create_heapfile_spec [OF h1, of "\<lparr>fcontents = [], fpos = 0\<rparr>"] by (auto simp: record_inv_def)
qed

lemma filled_heap:
  "\<exists>hf k s. record_inv hf \<and> hf_page_size hf = 4096 \<and> hf_slot_size hf = 1000 \<and> heap_abs hf (k, s) = Some (record_image (replicate 100 []))
    \<and> length (heap_view hf) \<le> 1 \<and> length (hcontents hf) < 20000"
proof -
  obtain hf where hf: "record_inv hf" "hf_page_size hf = 4096" "hf_slot_size hf = 1000" "heap_view hf = []" "length (hcontents hf) = 4096"
    using fresh_heap by blast
  let ?r = "replicate 100 [] :: Record"
  have "heap_inv hf" using hf(1) by (simp add: record_inv_def)
  then obtain k s hf' where "heap_inv hf'" "sized_as hf hf'" "heap_abs hf' = (heap_abs hf)((k, s) \<mapsto> record_image ?r)"
      "length (heap_view hf') \<le> Suc (length (heap_view hf))"
      "int (length (hcontents hf')) \<le> int (length (hcontents hf)) + 2 * hf_page_size hf"
    using put_record_spec [of hf ?r] hf by auto
  then show ?thesis using hf by (intro exI [of _ hf'] exI [of _ k] exI [of _ s]) (auto simp: record_inv_def sized_as_def)
qed

text \<open>
  A heap file that was just created has no page and no record, and satisfies the invariant, for every page size over
  1001 bytes and every slot size below it.
\<close>

theorem create_heapfile_empty:
  assumes "1001 < ps" and "ps < 2 ^ 31" and "0 < ss" and "ss < ps" and "fcontents f = []"
  shows "\<exists>h hf. init_heapfile new_Heapfile ps ss = Inr h \<and> create_heapfile h (Some f) = Inr hf \<and> heap_inv hf
    \<and> heap_abs hf = Map.empty \<and> heap_view hf = [] \<and> length (fcontents (hf_file hf)) = nat ps"
proof -
  obtain h where h: "init_heapfile new_Heapfile ps ss = Inr h" using assms(1) by (simp add: init_heapfile_def)
  have "directory_buffer new_Heapfile = []" by (simp add: new_Heapfile_def)
  then show ?thesis using create_heapfile_spec [OF h _ assms(2-5)] h by blast
qed

theorem create_heapfile_empty_witness:
  "\<exists>h hf. init_heapfile new_Heapfile 2048 1000 = Inr h \<and> create_heapfile h (Some \<lparr>fcontents = [], fpos = 0\<rparr>) = Inr hf \<and> heap_inv hf"
  using create_heapfile_empty [of 2048 1000 "\<lparr>fcontents = [], fpos = 0\<rparr>"] by auto

text \<open>
  C2: as long as the file stays below 2 GB, storing a record succeeds, keeps the invariant, puts the record under an id that
  was free, changes no other record, and reading that id gives the record back with its attributes cut to ten bytes.
\<close>

theorem put_record_correct:
  assumes inv: "heap_inv hf" and len: "int (length (fcontents (hf_file hf))) + 2 * hf_page_size hf < 2 ^ 31"
    and r: "10 * int (length r) = hf_slot_size hf"
  shows "\<exists>k s hf' hf''. put_record hf r = Inr hf' \<and> heap_inv hf' \<and> heap_abs hf (k, s) = None
    \<and> heap_abs hf' = (heap_abs hf)((k, s) \<mapsto> record_image r)
    \<and> get_record hf' (int k, int s) (length r) = Inr (map mk_attribute r, hf'') \<and> heap_inv hf'' \<and> heap_abs hf'' = heap_abs hf'"
proof -
  note n = r
  obtain k s hf' where p: "put_record hf r = Inr hf'" "heap_inv hf'" "sized_as hf hf'" "heap_abs hf (k, s) = None"
      "heap_abs hf' = (heap_abs hf)((k, s) \<mapsto> record_image r)"
    using put_record_spec [OF inv len n] by blast
  have n': "10 * int (length r) = hf_slot_size hf'" using n p(3) by (simp add: sized_as_def)
  have g: "heap_abs hf' (k, s) = Some (record_image r)" using p(5) by simp
  obtain hf'' where "get_record hf' (int k, int s) (length r) = Inr (map mk_attribute r, hf'')" "heap_inv hf''" "heap_abs hf'' = heap_abs hf'"
    using get_record_spec [OF p(2) g n'] by (auto simp: split_record_image)
  then show ?thesis using p by blast
qed

theorem put_record_correct_witness:
  "\<exists>hf k s hf'. heap_inv hf \<and> heap_abs hf = Map.empty \<and> put_record hf (replicate 100 [65]) = Inr hf'
    \<and> heap_abs hf' = [(k, s) \<mapsto> record_image (replicate 100 [65])]"
proof -
  obtain hf where "heap_inv hf" "hf_page_size hf = 4096" "hf_slot_size hf = 1000" "heap_abs hf = Map.empty" "length (hcontents hf) = 4096"
    using fresh_heap by (auto simp: record_inv_def)
  then show ?thesis
    using put_record_correct [of hf "replicate 100 [65]"] by auto
qed

text \<open>
  C7: updating a record changes exactly the record with that id, to the new value, and deleting removes exactly it; both keep
  the invariant and the size of the file.
\<close>

theorem update_delete_record_correct:
  assumes inv: "heap_inv hf" and rid: "heap_abs hf (k, s) \<noteq> None" and r: "10 * int (length r) = hf_slot_size hf"
  shows "(\<exists>hf'. update_record hf (int k, int s) r = Inr hf' \<and> heap_inv hf'
      \<and> heap_abs hf' = (heap_abs hf)((k, s) \<mapsto> record_image r)
      \<and> length (fcontents (hf_file hf')) = length (fcontents (hf_file hf)))
    \<and> (\<exists>hf'. delete_record hf (int k, int s) = Inr hf' \<and> heap_inv hf'
      \<and> heap_abs hf' = (heap_abs hf)((k, s) := None)
      \<and> length (fcontents (hf_file hf')) = length (fcontents (hf_file hf)))"
proof -
  note n = r
  note h = has_slot_abs [OF rid]
  show ?thesis using update_record_spec [OF inv h n] delete_record_spec [OF inv h] by blast
qed

theorem update_delete_record_correct_witness:
  "\<exists>hf k s hf'. heap_inv hf \<and> heap_abs hf (k, s) \<noteq> None \<and> delete_record hf (int k, int s) = Inr hf' \<and> heap_abs hf' (k, s) = None"
proof -
  obtain hf k s where hf: "heap_inv hf" "hf_slot_size hf = 1000" "heap_abs hf (k, s) \<noteq> None"
    using filled_heap by (auto simp: record_inv_def)
  then obtain hf' where "delete_record hf (int k, int s) = Inr hf'" "heap_abs hf' = (heap_abs hf)((k, s) := None)"
    using update_delete_record_correct [of hf k s "replicate 100 []"] by auto
  moreover from this have "heap_abs hf' (k, s) = None" by simp
  ultimately show ?thesis using hf by blast
qed

text \<open>
  Reading, updating or deleting under a page number that was never allocated fails, by an assertion when the directory
  of that number exists and by an access outside the directory buffer when it does not.
\<close>

theorem record_ops_bad_page:
  assumes inv: "heap_inv hf" and k: "length (heap_view hf) \<le> k"
    and e: "e = (if k div dir_cap (hf_page_size hf) < length (directory_buffer hf) then Assert_failed else Out_of_bounds)"
  shows "get_record hf (int k, s) n = Inl e \<and> update_record hf (int k, s) r = Inl e \<and> delete_record hf (int k, s) = Inl e"
  using record_ops_invalid [OF inv k] unfolding e by blast

theorem record_ops_bad_page_witness:
  "\<exists>hf. heap_inv hf \<and> get_record hf (0, 0) 100 = Inl Assert_failed"
proof -
  obtain hf where hf: "heap_inv hf" "hf_page_size hf = 4096" "heap_view hf = []" using fresh_heap by (auto simp: record_inv_def)
  then have "directory_buffer hf \<noteq> []" using heap_invD(2) [OF hf(1)] by (simp add: dirs_ok_def)
  then show ?thesis using record_ops_bad_page [of hf 0 _ 0 100] hf by (auto simp del: length_heap_view)
qed

text \<open>
  C3: closing writes everything back: opening the file again, whatever the position of its handle, ends and gives a heap file
  with the same pages and records.
\<close>

theorem close_open_roundtrip:
  assumes inv: "heap_inv hf"
  shows "\<exists>g. close_heapfile hf = Inr g \<and>
    (\<forall>pos. \<exists>h hf'. init_heapfile new_Heapfile (hf_page_size hf) (hf_slot_size hf) = Inr h
      \<and> open_heapfile h (Some (g\<lparr>fpos := pos\<rparr>)) = Some (Inr hf') \<and> heap_inv hf'
      \<and> heap_view hf' = heap_view hf \<and> heap_abs hf' = heap_abs hf)"
proof -
  obtain g where g: "close_heapfile hf = Inr g" using close_heapfile_spec [OF inv] by blast
  have "1001 < hf_page_size hf" using heap_invD(1) [OF inv] by (simp add: geom_ok_def)
  then obtain h where h: "init_heapfile new_Heapfile (hf_page_size hf) (hf_slot_size hf) = Inr h" by (simp add: init_heapfile_def)
  have d: "directory_buffer new_Heapfile = []" by (simp add: new_Heapfile_def)
  have "\<exists>hf'. open_heapfile h (Some (g\<lparr>fpos := pos\<rparr>)) = Some (Inr hf') \<and> heap_inv hf'
      \<and> heap_view hf' = heap_view hf \<and> heap_abs hf' = heap_abs hf" for pos
  proof -
    have "fcontents (g\<lparr>fpos := pos\<rparr>) = fcontents g" by simp
    then show ?thesis using close_open_spec [OF inv g _ h d] heap_abs_cong by blast
  qed
  then show ?thesis using g h by blast
qed

theorem close_open_roundtrip_witness:
  "\<exists>hf g h hf'. heap_inv hf \<and> heap_abs hf \<noteq> Map.empty \<and> close_heapfile hf = Inr g
    \<and> init_heapfile new_Heapfile 4096 1000 = Inr h \<and> open_heapfile h (Some (g\<lparr>fpos := 0\<rparr>)) = Some (Inr hf') \<and> heap_abs hf' = heap_abs hf"
proof -
  obtain hf k s where hf: "heap_inv hf" "hf_page_size hf = 4096" "hf_slot_size hf = 1000" "heap_abs hf (k, s) \<noteq> None"
    using filled_heap by (auto simp: record_inv_def)
  then have "heap_abs hf \<noteq> Map.empty" by auto
  then show ?thesis using close_open_roundtrip [OF hf(1)] hf(1) unfolding hf(2,3) by blast
qed

text \<open>The states of a heap file under its operations.\<close>

inductive heap_reach :: "Heapfile \<Rightarrow> bool" where
  reach_create: "1001 < ps \<Longrightarrow> ps < 2 ^ 31 \<Longrightarrow> 0 < ss \<Longrightarrow> ss < ps \<Longrightarrow> fcontents f = [] \<Longrightarrow> init_heapfile new_Heapfile ps ss = Inr h \<Longrightarrow>
    create_heapfile h (Some f) = Inr hf \<Longrightarrow> heap_reach hf"
| reach_put: "heap_reach hf \<Longrightarrow> int (length (fcontents (hf_file hf))) + 2 * hf_page_size hf < 2 ^ 31 \<Longrightarrow> 10 * int (length r) = hf_slot_size hf \<Longrightarrow>
    put_record hf r = Inr hf' \<Longrightarrow> heap_reach hf'"
| reach_get: "heap_reach hf \<Longrightarrow> has_slot hf k s \<Longrightarrow> get_page hf (int k) = Inr hf' \<Longrightarrow> heap_reach hf'"
| reach_update: "heap_reach hf \<Longrightarrow> has_slot hf k s \<Longrightarrow> 10 * int (length r) = hf_slot_size hf \<Longrightarrow> update_record hf (int k, int s) r = Inr hf' \<Longrightarrow> heap_reach hf'"
| reach_delete: "heap_reach hf \<Longrightarrow> has_slot hf k s \<Longrightarrow> delete_record hf (int k, int s) = Inr hf' \<Longrightarrow> heap_reach hf'"
| reach_reopen: "heap_reach hf \<Longrightarrow> close_heapfile hf = Inr g \<Longrightarrow> init_heapfile new_Heapfile (hf_page_size hf) (hf_slot_size hf) = Inr h \<Longrightarrow>
    open_heapfile h (Some (g\<lparr>fpos := pos\<rparr>)) = Some (Inr hf') \<Longrightarrow> heap_reach hf'"

lemma heap_reach_inv: "heap_reach hf \<Longrightarrow> heap_inv hf"
proof (induction rule: heap_reach.induct)
  case (reach_create ps ss f h hf)
  have d: "directory_buffer new_Heapfile = []" by (simp add: new_Heapfile_def)
  show ?case using create_heapfile_spec [OF reach_create(6) d reach_create(2-5)] reach_create(7) by auto
next
  case (reach_put hf r hf')
  note n = reach_put(3)
  show ?case using put_record_spec [OF reach_put(5,2) n] reach_put(4) by auto
next
  case (reach_get hf k s hf')
  have k: "k < length (entries hf)" using reach_get(2) by (simp add: has_slot_def)
  obtain hf1 where "get_page hf (int k) = Inr hf1" "heap_inv hf1" using get_page_spec [OF reach_get(4) k] by blast
  then show ?case using reach_get(3) by simp
next
  case (reach_update hf k s r hf')
  note n = reach_update(3)
  show ?case using update_record_spec [OF reach_update(5,2) n] reach_update(4) by auto
next
  case (reach_delete hf k s hf')
  show ?case using delete_record_spec [OF reach_delete(4,2)] reach_delete(3) by auto
next
  case (reach_reopen hf g h pos hf')
  have d: "directory_buffer new_Heapfile = []" by (simp add: new_Heapfile_def)
  show ?case using close_open_spec [OF reach_reopen(5,2) _ reach_reopen(3) d, of "g\<lparr>fpos := pos\<rparr>"] reach_reopen(4) by auto
qed

text \<open>
  C1: in every state that creating, storing, reading, updating, deleting, closing and reopening can reach, the directory of a
  page tells the number of free slots that the page really has, no two pages or directories share a block of the file,
  every page is a well-formed page, and directories before the last are full.
\<close>

theorem heap_reach_consistent:
  assumes "heap_reach hf"
  shows "(\<forall>k < length (heap_view hf). wf_page (heap_view hf ! k)
      \<and> fixed_len_page_freeslots (heap_view hf ! k) = Inr (en_free_space (entries hf ! k)))
    \<and> distinct (map dir_offset (directory_buffer hf) @ map en_offset (entries hf))
    \<and> (\<forall>off \<in> set (map dir_offset (directory_buffer hf) @ map en_offset (entries hf)).
        0 \<le> off \<and> hf_page_size hf dvd off \<and> off + hf_page_size hf \<le> int (length (fcontents (hf_file hf))))
    \<and> (\<forall>i. Suc i < length (directory_buffer hf) \<longrightarrow> length (dir_list (directory_buffer hf ! i)) = dir_cap (hf_page_size hf))"
proof -
  have inv: "heap_inv hf" using assms by (rule heap_reach_inv)
  have "wf_page (heap_view hf ! k) \<and> fixed_len_page_freeslots (heap_view hf ! k) = Inr (en_free_space (entries hf ! k))"
    if "k < length (heap_view hf)" for k
    using view_page(1) [OF inv that] heap_invD(5) [OF inv] that by simp
  moreover have "distinct (heap_offsets hf)" "\<forall>off \<in> set (heap_offsets hf).
        0 \<le> off \<and> hf_page_size hf dvd off \<and> off + hf_page_size hf \<le> int (length (fcontents (hf_file hf)))"
    using heap_invD(3) [OF inv] by (simp_all add: offs_ok_def)
  ultimately show ?thesis using heap_invD(2) [OF inv] unfolding heap_offsets_def dirs_ok_def by blast
qed

theorem heap_reach_consistent_witness:
  "\<exists>hf. heap_reach hf \<and> distinct (map dir_offset (directory_buffer hf) @ map en_offset (entries hf))"
proof -
  obtain h where h: "init_heapfile new_Heapfile 4096 1000 = Inr h" by (simp add: init_heapfile_def)
  have d: "directory_buffer new_Heapfile = []" by (simp add: new_Heapfile_def)
  obtain hf where "create_heapfile h (Some \<lparr>fcontents = [], fpos = 0\<rparr>) = Inr hf"
    using create_heapfile_spec [OF h d, of "\<lparr>fcontents = [], fpos = 0\<rparr>"] by auto
  then have "heap_reach hf" using h by (intro reach_create [of 4096 1000 "\<lparr>fcontents = [], fpos = 0\<rparr>" h]) auto
  then show ?thesis using heap_reach_consistent by blast
qed


section \<open>The iterator and the command-line tools\<close>

text \<open>
  C8: in a heap file with slots of 1000 bytes that has a directory with an unused entry, the loop over a record iterator ends for
  both values that the uninitialised member \<open>has_next\<close> can have. When it is true, the loop runs its body once for every record of the
  heap file in the order of their ids with the record as it is stored, and stops when the body says so; when it is false it sees no
  record at all. Both leave the records as they are.
\<close>

theorem iterator_visits_all:
  assumes "heap_inv hf" and "spare_entry hf" and "hf_slot_size hf = 1000"
  shows "\<exists>hf' ids. for_heap body acc uninit hf = Some (bindR (run_body body acc (if uninit then map (seen hf) ids else [])) (\<lambda>a. Inr (a, hf')))
    \<and> set ids = dom (heap_abs hf) \<and> sorted_wrt rid_less ids \<and> distinct ids \<and> heap_inv hf' \<and> heap_abs hf' = heap_abs hf"
proof -
  obtain hf' where h: "same_heap hf hf'" "for_heap body acc uninit hf =
      Some (bindR (run_body body acc (if uninit then map (seen hf) (heap_rids hf) else [])) (\<lambda>a. Inr (a, hf')))"
    using for_heap_any [OF assms, of body acc uninit] by blast
  have v: "heap_inv hf'" "heap_view hf' = heap_view hf" using h(1) unfolding same_heap_def by blast+
  have "heap_abs hf' = heap_abs hf" using v(2) by (rule heap_abs_cong)
  then show ?thesis using v(1) h(2) set_heap_rids [of hf] sorted_heap_rids [of hf] distinct_heap_rids [of hf]
    by (intro exI [of _ hf'] exI [of _ "heap_rids hf"] conjI) assumption+
qed

theorem iterator_visits_all_witness:
  "\<exists>hf hf' hf'' ids. heap_abs hf \<noteq> Map.empty \<and> set ids = dom (heap_abs hf)
    \<and> for_heap scan_body [] True hf = Some (bindR (run_body scan_body [] (map (seen hf) ids)) (\<lambda>a. Inr (a, hf')))
    \<and> for_heap scan_body [] False hf = Some (Inr ([], hf''))"
proof -
  obtain hf k s where hf: "heap_inv hf" "hf_page_size hf = 4096" "hf_slot_size hf = 1000" "heap_abs hf (k, s) \<noteq> None"
      "length (heap_view hf) \<le> 1" using filled_heap by (auto simp: record_inv_def)
  have sp: "spare_entry hf"
  proof (rule spare_entryI [OF hf(1)])
    have "length (heap_view hf) = 0 \<or> length (heap_view hf) = 1" using hf(5) by linarith
    then show "length (heap_view hf) = 0 \<or> \<not> dir_cap (hf_page_size hf) dvd length (heap_view hf)" using hf(2) by (auto simp: dir_cap_def)
  qed
  have "heap_abs hf \<noteq> Map.empty" using hf(4) by auto
  moreover obtain hf' ids where "for_heap scan_body [] True hf = Some (bindR (run_body scan_body [] (map (seen hf) ids)) (\<lambda>a. Inr (a, hf')))"
      "set ids = dom (heap_abs hf)" using iterator_visits_all [OF hf(1) sp hf(3), of scan_body "[]" True] unfolding if_True by blast
  moreover obtain hf'' where "for_heap scan_body [] False hf = Some (Inr ([], hf''))"
    using iterator_visits_all [OF hf(1) sp hf(3), of scan_body "[]" False] by auto
  ultimately show ?thesis by blast
qed




text \<open>A CSV line of a hundred attributes, and a file that holds a record.\<close>

definition sample_line :: bytes where
  "sample_line = join comma (replicate 100 [97])"

lemma set_join: "set (join d ts) \<subseteq> insert d (\<Union> (set ` set ts))"
  by (induction d ts rule: join.induct) auto

lemma join_last: "ts \<noteq> [] \<Longrightarrow> join d ts @ [x] = join d (butlast ts @ [last ts @ [x]])"
proof (induction d ts rule: join.induct)
  case (3 d t t' ts)
  then show ?case by (cases ts) auto
qed auto

lemma sample_line_lines: "read_lines MAX_LINE_LEN (sample_line @ [newline]) = [sample_line @ [newline]]"
proof -
  have "length (join comma (replicate (Suc n) [97])) = 2 * n + 1" for n by (induction n) auto
  from this [of 99] have l: "length sample_line = 199" by (simp add: sample_line_def)
  have "newline \<notin> set sample_line" using set_join [of comma "replicate 100 [97]"] by (auto simp: sample_line_def)
  then show ?thesis using read_lines_concat [of "[sample_line]" MAX_LINE_LEN] l by (simp add: MAX_LINE_LEN_def)
qed

lemma sample_line_ok: "line_ok (sample_line @ [newline])"
proof -
  let ?ts = "replicate 99 [97] @ [[97, newline]] :: bytes list"
  have e: "sample_line @ [newline] = join comma ?ts"
    using join_last [of "replicate 100 [97]" comma newline] unfolding sample_line_def by (simp add: butlast_conv_take)
  have "0 \<notin> set (join comma ?ts)" using set_join [of comma ?ts] by auto
  moreover have "tokens comma (join comma ?ts) = ?ts" by (rule tokens_join) auto
  ultimately show ?thesis by (simp add: line_ok_def e cstr_id)
qed

lemma sample_file:
  "\<exists>(f :: cfile) A k s. holds_records 4096 1000 (fcontents f) 1 A \<and> A (k, s) = Some (record_image (replicate 100 [])) \<and> length (fcontents f) < 20000"
proof -
  obtain hf k s where hf: "record_inv hf" "hf_page_size hf = 4096" "hf_slot_size hf = 1000"
      "heap_abs hf (k, s) = Some (record_image (replicate 100 []))" "length (heap_view hf) \<le> 1" "length (hcontents hf) < 20000"
    using filled_heap by blast
  have "k < length (heap_view hf)" using hf(4) by (auto simp: heap_abs_def simp del: length_heap_view split: if_splits)
  then have "length (heap_view hf) = 1" using hf(5) by linarith
  then obtain g :: cfile where "length (fcontents g) = length (hcontents hf)" "holds_records 4096 1000 (fcontents g) 1 (heap_abs hf)"
    using close_holds [OF hf(1)] unfolding hf(2,3) by auto
  then show ?thesis using hf(4,6) by metis
qed



text \<open>
  Inserting a CSV file into an existing heap file adds exactly the records of its lines to the ones the file holds.
\<close>

theorem insert_main_adds:
  assumes argv: "length argv = 4" "atoi (argv ! 3) = ps"
    and ls: "ls = read_lines MAX_LINE_LEN text" "\<forall>l \<in> set ls. line_ok l"
    and h: "holds_records ps 1000 (fcontents file) n A"
    and room: "int (length ls) * (2 * ps) + int (length (fcontents file)) < 2 ^ 31"
  shows "\<exists>f n' A'. insert_main argv (Some file) (Some text) = Some (Inr (0, [], Some f)) \<and> holds_records ps 1000 (fcontents f) n' A'
    \<and> contents_of A' = contents_of A + image_mset record_image (mset (map line_record ls))"
  using insert_main_spec [OF argv ls h room] by blast

theorem insert_main_adds_witness:
  "\<exists>file f n A'. insert_main [[], [], [], dec_digits 4096] (Some file) (Some (sample_line @ [newline])) = Some (Inr (0, [], Some f))
    \<and> holds_records 4096 1000 (fcontents f) n A' \<and> record_image (line_record (sample_line @ [newline])) \<in># contents_of A'"
proof -
  have a: "atoi (dec_digits 4096) = 4096" by (simp add: atoi_dec_digits del: dec_digits.simps)
  obtain f :: cfile and A where f: "holds_records 4096 1000 (fcontents f) 1 A" "length (fcontents f) < 20000" using sample_file by blast
  have "\<exists>g n' A'. insert_main [[], [], [], dec_digits 4096] (Some f) (Some (sample_line @ [newline])) = Some (Inr (0, [], Some g))
    \<and> holds_records 4096 1000 (fcontents g) n' A' \<and> contents_of A' = contents_of A + image_mset record_image (mset (map line_record [sample_line @ [newline]]))"
    by (rule insert_main_adds [OF _ _ _ _ f(1)]) (use a sample_line_lines sample_line_ok f(2) in simp_all)
  then obtain g n' A' where g: "insert_main [[], [], [], dec_digits 4096] (Some f) (Some (sample_line @ [newline])) = Some (Inr (0, [], Some g))"
    "holds_records 4096 1000 (fcontents g) n' A'" "contents_of A' = contents_of A + image_mset record_image (mset (map line_record [sample_line @ [newline]]))"
    by blast
  have "record_image (line_record (sample_line @ [newline])) \<in># contents_of A'" unfolding g(3) by simp
  then show ?thesis using g(1,2) by blast
qed

text \<open>
  C11: \<open>delete\<close> given a record id as two decimal numbers removes exactly that record from the file, and \<open>update\<close> sets exactly the
  given attribute of exactly that record.
\<close>

theorem delete_update_main:
  assumes k: "k < 2 ^ 31" "s < 2 ^ 31" and ps: "ps = int m" "m < 2 ^ 31" and i: "i < 100"
    and h: "holds_records ps 1000 (fcontents file) n A" and rid: "A (k, s) = Some img"
  shows "(\<exists>f n'. delete_main jp js [prog, name, dec_digits k @ comma # dec_digits s, dec_digits m] (Some file) = Some (Inr (0, [], Some f))
      \<and> holds_records ps 1000 (fcontents f) n' (A((k, s) := None)))
    \<and> (\<exists>f n'. update_main jp js [prog, name, dec_digits k @ comma # dec_digits s, dec_digits i, v, dec_digits m] (Some file) = Some (Inr (0, [], Some f))
      \<and> holds_records ps 1000 (fcontents f) n' (A((k, s) \<mapsto> record_image ((split_image img 100)[i := mk_attribute v]))))"
proof -
  have r: "parse_rid jp js (dec_digits k @ comma # dec_digits s) = (int k, int s)" using k by (rule parse_rid_spec)
  have m: "atoi (dec_digits m) = ps" using ps atoi_dec_digits by simp
  have "atoi (dec_digits i) = int i" using i by (intro atoi_dec_digits) simp
  then show ?thesis
    using delete_main_spec [of "[prog, name, dec_digits k @ comma # dec_digits s, dec_digits m]", OF _ _ _ h] 
      update_main_spec [of "[prog, name, dec_digits k @ comma # dec_digits s, dec_digits i, v, dec_digits m]", OF _ _ _ _ i h rid] r m rid
    by (simp add: numeral_nat)
qed

theorem delete_update_main_witness:
  "\<exists>file f k s n. delete_main 0 0 [[], [], dec_digits k @ comma # dec_digits s, dec_digits 4096] (Some file) = Some (Inr (0, [], Some f))
    \<and> (\<exists>A. A (k, s) = None \<and> holds_records 4096 1000 (fcontents f) n A)"
proof -
  obtain f :: cfile and A k s where f: "holds_records 4096 1000 (fcontents f) 1 A" "A (k, s) = Some (record_image (replicate 100 []))" using sample_file by blast
  obtain hf where hf: "record_inv hf" "length (heap_view hf) = 1" "heap_abs hf = A" "hf_page_size hf = 4096" "hf_slot_size hf = 1000"
    using f(1) by (auto simp: holds_records_def)
  have "has_slot hf k s" using has_slot_abs [of hf k s] f(2) hf(3) by simp
  then have k: "k < 1" "s < cap (heap_view hf ! k)" using hf(2) by (auto simp: has_slot_def simp del: length_heap_view nth_heap_view)
  have "page_of hf (heap_view hf ! k)" using view_page [of hf k] hf(1,2) k(1) by (simp add: record_inv_def page_of_def del: length_heap_view nth_heap_view)
  then have "cap (heap_view hf ! k) = 4" using hf(4,5) by (simp add: page_of_def cap_def fixed_len_page_capacity_def ceil8_def)
  then have b: "k < 2 ^ 31" "s < 2 ^ 31" using k by auto
  obtain g n where "delete_main 0 0 [[], [], dec_digits k @ comma # dec_digits s, dec_digits 4096] (Some f) = Some (Inr (0, [], Some g))"
      "holds_records 4096 1000 (fcontents g) n (A((k, s) := None))"
    using delete_update_main [OF b _ _ _ f, of 4096 0 0 0 "[]" "[]" "[]"] by auto
  moreover have "(A((k, s) := None)) (k, s) = None" by simp
  ultimately show ?thesis by blast
qed

text \<open>
  C12: on a file that holds \<open>n\<close> pages of records, where \<open>n\<close> is 0 or no multiple of the number of entries of a directory, and for an
  attribute number below 100, \<open>select\<close> ends with status 0 and leaves the records as they are. With the uninitialised member \<open>has_next\<close>
  of the iterator true it prints, in the order of the record ids, the first five bytes of the chosen attribute of exactly the records
  whose attribute lies between the two bounds in the order of \<open>strcmp\<close>; with it false it prints nothing.
\<close>

theorem select_main_range:
  assumes argv: "length argv = 6" "atoi (argv ! 5) = ps" "atoi (argv ! 2) = int i" "i < 100"
    and h: "holds_records ps 1000 (fcontents file) n A" "n = 0 \<or> \<not> dir_cap ps dvd n"
  shows "\<exists>f ids. rids_of A ids \<and> holds_records ps 1000 (fcontents f) n A \<and> select_main uninit argv (Some file) =
    Some (Inr (0, concat (map substring5 (filter (in_range (argv ! 3) (argv ! 4))
      (map (\<lambda>rid. split_image (the (A rid)) 100 ! i) (if uninit then ids else [])))), Some f))"
  using select_main_spec [OF argv h] by blast

theorem select_main_range_witness:
  "\<exists>file f ids A. rids_of A ids \<and> select_main True [[], [], dec_digits 3, [], [255], dec_digits 4096] (Some file) =
    Some (Inr (0, concat (map substring5 (filter (in_range [] [255]) (map (\<lambda>rid. split_image (the (A rid)) 100 ! 3) ids))), Some f))"
proof -
  have a: "atoi (dec_digits 4096) = 4096" "atoi (dec_digits 3) = 3" by (simp_all add: atoi_dec_digits del: dec_digits.simps)
  obtain f :: cfile and A where f: "holds_records 4096 1000 (fcontents f) 1 A" using sample_file by blast
  let ?argv = "[[], [], dec_digits 3, [], [255], dec_digits 4096]"
  have v: "?argv ! 2 = dec_digits 3" "?argv ! 3 = []" "?argv ! 4 = [255]" "?argv ! 5 = dec_digits 4096" by (simp_all add: numeral_nat del: dec_digits.simps)
  have "\<exists>g ids. rids_of A ids \<and> holds_records 4096 1000 (fcontents g) 1 A \<and> select_main True ?argv (Some f) =
    Some (Inr (0, concat (map substring5 (filter (in_range (?argv ! 3) (?argv ! 4)) (map (\<lambda>rid. split_image (the (A rid)) 100 ! 3) (if True then ids else [])))), Some g))"
    by (rule select_main_range [OF _ _ _ _ f]) (use a in \<open>simp_all only: v, simp_all add: dir_cap_def\<close>)
  then show ?thesis unfolding v if_True by blast
qed


section \<open>Files of pages\<close>

text \<open>
  C13: for a CSV file with at least one and fewer than 2^31 lines, each of 100 attributes, and a page size above 1000: writing it as
  pages and reading the pages back prints every line in the order of the file with the attributes cut to ten bytes; the two counters of
  the writer do not overflow and are the number of records and of pages, and it uses no page more than needed.
\<close>

theorem write_read_pages:
  assumes w: "length argv = 4" "atoi (argv ! 3) = ps" "1000 < ps" and r: "length argv' = 3" "atoi (argv' ! 2) = ps"
    and ls: "ls = read_lines MAX_LINE_LEN text" "\<forall>l \<in> set ls. line_ok l" "ls \<noteq> []" "length ls < 2 ^ 31"
  shows "\<exists>f m. write_main argv (Some text) (Some \<lparr>fcontents = [], fpos = 0\<rparr>) =
      Inr (0, bstr ''NUMBER OF RECORDS: '' @ print_int (int (length ls)) @ [newline]
              @ bstr ''NUMBER OF PAGES: '' @ print_int (int m) @ [newline], Some f)
    \<and> length (fcontents f) = m * nat ps \<and> (m - 1) * page_cap ps < length ls \<and> length ls \<le> m * page_cap ps
    \<and> read_main junk argv' (Some (rewind f)) = Inr (0, concat (map (csv_line \<circ> line_record) ls), None)"
  using write_read_spec [OF w r ls] .

theorem write_read_pages_witness:
  "\<exists>f out. write_main [[], [], [], dec_digits 4096] (Some (sample_line @ [newline])) (Some \<lparr>fcontents = [], fpos = 0\<rparr>) = Inr (0, out, Some f)
    \<and> read_main (\<lambda>_. 0) [[], [], dec_digits 4096] (Some (rewind f)) = Inr (0, csv_line (line_record (sample_line @ [newline])), None)"
proof -
  have a: "atoi (dec_digits 4096) = 4096" by (simp add: atoi_dec_digits del: dec_digits.simps)
  have "\<exists>f m. write_main [[], [], [], dec_digits 4096] (Some (sample_line @ [newline])) (Some \<lparr>fcontents = [], fpos = 0\<rparr>) =
      Inr (0, bstr ''NUMBER OF RECORDS: '' @ print_int (int (length [sample_line @ [newline]])) @ [newline]
              @ bstr ''NUMBER OF PAGES: '' @ print_int (int m) @ [newline], Some f)
    \<and> length (fcontents f) = m * nat 4096 \<and> (m - 1) * page_cap 4096 < length [sample_line @ [newline]] \<and> length [sample_line @ [newline]] \<le> m * page_cap 4096
    \<and> read_main (\<lambda>_. 0) [[], [], dec_digits 4096] (Some (rewind f)) = Inr (0, concat (map (csv_line \<circ> line_record) [sample_line @ [newline]]), None)"
    by (rule write_read_pages) (use a sample_line_lines sample_line_ok in simp_all)
  then show ?thesis by auto
qed

text \<open>
  An empty CSV file makes the writer of pages use a page that was never made.
\<close>

theorem write_pages_empty:
  assumes "length argv = 4" and "0 < atoi (argv ! 3)"
  shows "write_main argv (Some []) (Some f) = Inl Null_deref"
  using assms by (simp add: write_main_def Let_def deref_def)

theorem write_pages_empty_witness: "write_main [[], [], [], dec_digits 4096] (Some []) (Some \<lparr>fcontents = [], fpos = 0\<rparr>) = Inl Null_deref"
  by (rule write_pages_empty) (simp_all add: atoi_dec_digits del: dec_digits.simps)


end
