(* ===== verification/Sort_Library.thy ===== *)
theory Sort_Library
  imports CLib Complex_Main
begin

text \<open>
  \<^verbatim>\<open>a2/library.h\<close> and \<^verbatim>\<open>a2/library.cc\<close>: schemas, the comparison of records, the making of sorted runs and the
  iterator over a run, shared by the two sorting programs. The order that the comparison defines is
  \<open>key_cmp\<close>; \<open>schema_ok\<close>, \<open>lengths_match\<close> and \<open>rec_ok\<close> say when the code computes it and when it is an order.
\<close>

section \<open>Model\<close>

datatype attr_type = T_INT | T_FLOAT | T_STRING

record Attribute =
  at_name :: bytes
  at_type :: attr_type
  at_length :: int

record Schema =
  attrs :: "Attribute list"
  sort_attrs :: "int list"
  data_offset :: "int list"
  record_size :: int

text \<open>The value of \<open>type\<close> when it is none of the three names is indeterminate: the argument \<open>junk\<close>.\<close>

definition type_integer :: bytes where "type_integer = map of_char ''integer''"
definition type_float :: bytes where "type_float = map of_char ''float''"
definition type_string :: bytes where "type_string = map of_char ''string''"

definition set_schema :: "attr_type \<Rightarrow> bytes \<Rightarrow> bytes \<Rightarrow> int \<Rightarrow> Schema \<Rightarrow> int \<times> Schema" where
  "set_schema junk name type len schema =
     (let t = (if type = type_integer then T_INT else if type = type_float then T_FLOAT
               else if type = type_string then T_STRING else junk)
      in (len, schema\<lparr>attrs := attrs schema @ [\<lparr>at_name = name, at_type = t, at_length = len\<rparr>]\<rparr>))"

text \<open>The search for one sort attribute: the first attribute of that name.\<close>

fun find_attr :: "bytes \<Rightarrow> Attribute list \<Rightarrow> int \<Rightarrow> int option" where
  "find_attr name [] i = None"
| "find_attr name (a # as) i = (if name = at_name a then Some i else find_attr name as (i + 1))"

fun push_sort_attrs :: "bytes list \<Rightarrow> Schema \<Rightarrow> Schema res" where
  "push_sort_attrs [] schema = Inr schema"
| "push_sort_attrs (token # ts) schema =
     (case find_attr token (attrs schema) 0 of
        None \<Rightarrow> Inl Exit_1
      | Some i \<Rightarrow> push_sort_attrs ts (schema\<lparr>sort_attrs := sort_attrs schema @ [i]\<rparr>))"

definition set_schema_sort_attr :: "Schema \<Rightarrow> bytes \<Rightarrow> Schema res" where
  "set_schema_sort_attr schema sorting_attr = push_sort_attrs (tokens comma (cstr sorting_attr)) schema"

text \<open>
  The schema that both programs build from the parsed JSON array, a list of names, types and lengths.
  \<open>total_length\<close>, an \<^verbatim>\<open>int\<close>, runs along as the offset of the next attribute; its overflow is an error.
\<close>

fun add_fields :: "attr_type \<Rightarrow> (bytes \<times> bytes \<times> int) list \<Rightarrow> int \<Rightarrow> Schema \<Rightarrow> Schema res" where
  "add_fields junk [] total_length schema = Inr schema"
| "add_fields junk ((name, type, len) # fs) total_length schema =
     (let (l, schema) = set_schema junk name type len schema in
      bindR (add_int l 1) (\<lambda>l1.
      bindR (add_int total_length l1) (\<lambda>total.
      add_fields junk fs total (schema\<lparr>data_offset := data_offset schema @ [total_length]\<rparr>))))"

definition sum_record_size :: "Schema \<Rightarrow> int" where
  "sum_record_size schema = sum_list (map (\<lambda>a. at_length a + 1) (attrs schema))"

text \<open>
  Comparison of two attribute strings. \<open>atof\<close> gives the value of a number as a \<^verbatim>\<open>float\<close>: \<open>None\<close> is a NaN,
  and the two infinities are numbers beyond all others. \<^verbatim>\<open>int_cmp\<close> subtracts, with wrap-around.
\<close>

type_synonym atof_fn = "bytes \<Rightarrow> real option"

definition int_cmp :: "bytes \<Rightarrow> bytes \<Rightarrow> int" where
  "int_cmp lhs rhs = to_s32 (atoi lhs - atoi rhs)"

definition float_gt :: "real option \<Rightarrow> real option \<Rightarrow> bool" where
  "float_gt a b = (case (a, b) of (Some x, Some y) \<Rightarrow> y < x | _ \<Rightarrow> False)"

definition float_cmp :: "atof_fn \<Rightarrow> bytes \<Rightarrow> bytes \<Rightarrow> int" where
  "float_cmp atof lhs rhs =
     (let fl = atof (cstr lhs); fr = atof (cstr rhs)
      in (if float_gt fl fr then 1 else 0) - (if float_gt fr fl then 1 else 0))"

definition string_cmp :: "bytes \<Rightarrow> bytes \<Rightarrow> int" where
  "string_cmp lhs rhs = strcmp lhs rhs"

definition cmp_fn :: "atof_fn \<Rightarrow> attr_type \<Rightarrow> bytes \<Rightarrow> bytes \<Rightarrow> int" where
  "cmp_fn atof t = (case t of T_INT \<Rightarrow> int_cmp | T_FLOAT \<Rightarrow> float_cmp atof | T_STRING \<Rightarrow> string_cmp)"

text \<open>The vector \<open>cmp_fns\<close> that the constructor of \<^verbatim>\<open>RecordComparator\<close> builds, as the types its entries are for.\<close>

fun mk_cmp_fns :: "Attribute list \<Rightarrow> int list \<Rightarrow> attr_type list res" where
  "mk_cmp_fns as [] = Inr []"
| "mk_cmp_fns as (i # is) = bindR (nth_res as i) (\<lambda>a. bindR (mk_cmp_fns as is) (\<lambda>ts. Inr (at_type a # ts)))"

record RecordComparator =
  cmp_fns :: "attr_type list"
  rc_schema :: Schema

definition mk_RecordComparator :: "Schema \<Rightarrow> RecordComparator res" where
  "mk_RecordComparator schema =
     bindR (mk_cmp_fns (attrs schema) (sort_attrs schema)) (\<lambda>ts. Inr \<lparr>cmp_fns = ts, rc_schema = schema\<rparr>)"

definition get_attr :: "int \<Rightarrow> Schema \<Rightarrow> int res" where
  "get_attr i schema = nth_res (data_offset schema) i"

text \<open>
  The buffer \<^verbatim>\<open>char lhs_attr[40]\<close> of round \<open>i\<close>: \<open>stack\<close> is what it holds at first. The attribute is copied
  with the length of attribute \<open>sort_idx\<close>, but the terminator is put at the length of attribute \<open>i\<close>. The length is
  an \<^verbatim>\<open>int\<close>; \<^verbatim>\<open>memcpy\<close> takes a \<^verbatim>\<open>size_t\<close>, so that a negative one becomes a huge one.
\<close>

definition attr_string :: "Schema \<Rightarrow> bytes \<Rightarrow> int \<Rightarrow> int \<Rightarrow> bytes \<Rightarrow> bytes res" where
  "attr_string schema stack i sort_idx rec =
     bindR (get_attr sort_idx schema) (\<lambda>offset.
     bindR (nth_res (attrs schema) sort_idx) (\<lambda>a.
     bindR (load_bytes rec offset (nat (at_length a mod 2 ^ 64))) (\<lambda>bs.
     bindR (store_bytes (take 40 stack) 0 bs) (\<lambda>buf.
     bindR (nth_res (attrs schema) i) (\<lambda>ai.
     upd_res buf (at_length ai) 0)))))"

text \<open>The loops of \<^verbatim>\<open>qsort_cmp\<close> and of \<^verbatim>\<open>RecordComparator::operator()\<close> from round \<open>i\<close> on.\<close>

type_synonym stacks = "nat \<Rightarrow> bytes \<times> bytes"

fun qsort_cmp_loop :: "atof_fn \<Rightarrow> RecordComparator \<Rightarrow> stacks \<Rightarrow> nat \<Rightarrow> int list \<Rightarrow> bytes \<Rightarrow> bytes \<Rightarrow> int res" where
  "qsort_cmp_loop atof rc stack i [] lhs rhs = Inr 0"
| "qsort_cmp_loop atof rc stack i (sort_idx # rest) lhs rhs =
     bindR (attr_string (rc_schema rc) (fst (stack i)) (int i) sort_idx lhs) (\<lambda>lhs_attr.
     bindR (attr_string (rc_schema rc) (snd (stack i)) (int i) sort_idx rhs) (\<lambda>rhs_attr.
     bindR (nth_res (cmp_fns rc) (int i)) (\<lambda>t.
     let cmp = cmp_fn atof t lhs_attr rhs_attr in
     if cmp \<noteq> 0 then Inr cmp else qsort_cmp_loop atof rc stack (Suc i) rest lhs rhs)))"

definition qsort_cmp :: "atof_fn \<Rightarrow> RecordComparator \<Rightarrow> stacks \<Rightarrow> bytes \<Rightarrow> bytes \<Rightarrow> int res" where
  "qsort_cmp atof rc stack lhs rhs = qsort_cmp_loop atof rc stack 0 (sort_attrs (rc_schema rc)) lhs rhs"

fun less_loop :: "atof_fn \<Rightarrow> RecordComparator \<Rightarrow> stacks \<Rightarrow> nat \<Rightarrow> int list \<Rightarrow> bytes \<Rightarrow> bytes \<Rightarrow> bool res" where
  "less_loop atof rc stack i [] lhs rhs = Inr False"
| "less_loop atof rc stack i (sort_idx # rest) lhs rhs =
     bindR (attr_string (rc_schema rc) (fst (stack i)) (int i) sort_idx lhs) (\<lambda>lhs_attr.
     bindR (attr_string (rc_schema rc) (snd (stack i)) (int i) sort_idx rhs) (\<lambda>rhs_attr.
     bindR (nth_res (cmp_fns rc) (int i)) (\<lambda>t.
     let cmp = cmp_fn atof t lhs_attr rhs_attr in
     if cmp \<noteq> 0 then Inr (cmp < 0) else less_loop atof rc stack (Suc i) rest lhs rhs)))"

definition record_less :: "atof_fn \<Rightarrow> RecordComparator \<Rightarrow> stacks \<Rightarrow> bytes \<Rightarrow> bytes \<Rightarrow> bool res" where
  "record_less atof rc stack lhs rhs = less_loop atof rc stack 0 (sort_attrs (rc_schema rc)) lhs rhs"

text \<open>
  \<^verbatim>\<open>fread(buf, size, n, fp)\<close> as the number of whole items and the bytes read, and a buffer as its records.
\<close>

definition fread_items :: "cfile \<Rightarrow> nat \<Rightarrow> nat \<Rightarrow> nat \<times> bytes \<times> cfile" where
  "fread_items f sz n =
     (let (bs, f') = fread f (sz * n) in (if sz = 0 then 0 else length bs div sz, bs, f'))"

fun split_recs :: "nat \<Rightarrow> nat \<Rightarrow> bytes \<Rightarrow> bytes list" where
  "split_recs sz 0 bs = []"
| "split_recs sz (Suc n) bs = take sz bs # split_recs sz n (drop sz bs)"

text \<open>
  \<^verbatim>\<open>mk_runs\<close>: \<open>qsort\<close> is the C library's sort on a list of blocks, with a comparison that may fail.
  One round of the loop, and the loop, which ends because each round reads at least one record.
\<close>

type_synonym qsort_fn = "(bytes \<Rightarrow> bytes \<Rightarrow> int res) \<Rightarrow> bytes list \<Rightarrow> bytes list res"

definition read_run :: "nat \<Rightarrow> nat \<Rightarrow> cfile \<Rightarrow> bytes list \<times> cfile" where
  "read_run rsize run_len in_fp =
     (let (rd, bs, in_fp) = fread_items in_fp rsize run_len in (split_recs rsize rd bs, in_fp))"

lemma read_run_shorter:
  assumes "fst (read_run sz n f) \<noteq> []"
  shows "length (fcontents (snd (read_run sz n f))) - fpos (snd (read_run sz n f)) < length (fcontents f) - fpos f"
proof -
  let ?m = "min (length (fcontents f) - fpos f) (sz * n)"
  have e: "snd (read_run sz n f) = f\<lparr>fpos := fpos f + ?m\<rparr>"
    by (simp add: read_run_def fread_items_def fread_def Let_def)
  have "?m \<noteq> 0"
    using assms by (cases "?m = 0") (auto simp: read_run_def fread_items_def fread_def Let_def split: if_splits)
  then have "0 < ?m" "?m \<le> length (fcontents f) - fpos f" by auto
  then show ?thesis unfolding e by (simp del: min_less_iff_conj min.bounded_iff)
qed

function mk_runs_loop :: "qsort_fn \<Rightarrow> (bytes \<Rightarrow> bytes \<Rightarrow> int res) \<Rightarrow> nat \<Rightarrow> nat \<Rightarrow> cfile \<Rightarrow> cfile \<Rightarrow> int \<Rightarrow> (int \<times> cfile \<times> cfile) res" where
  "mk_runs_loop qsort cmp sz run_len in_fp out_fp num_records =
     (if fst (read_run sz run_len in_fp) \<noteq> []
      then bindR (qsort cmp (fst (read_run sz run_len in_fp))) (\<lambda>sorted.
           mk_runs_loop qsort cmp sz run_len (snd (read_run sz run_len in_fp)) (fwrite out_fp (concat sorted))
             (to_s32 (num_records + int (length (fst (read_run sz run_len in_fp))))))
      else Inr (num_records, in_fp, out_fp))"
  by pat_completeness auto
termination
  by (relation "measure (\<lambda>(q, c, s, n, f, g, k). length (fcontents f) - fpos f)") (use read_run_shorter in auto)

declare mk_runs_loop.simps [simp del]

definition mk_runs :: "qsort_fn \<Rightarrow> (bytes \<Rightarrow> bytes \<Rightarrow> int res) \<Rightarrow> cfile \<Rightarrow> cfile \<Rightarrow> int \<Rightarrow> Schema \<Rightarrow> (int \<times> cfile \<times> cfile) res" where
  "mk_runs qsort cmp in_fp out_fp run_len schema =
     mk_runs_loop qsort cmp (nat (record_size schema)) (nat run_len) in_fp out_fp 0"

text \<open>The iterator over a run. The file it reads is passed along with it: every iterator seeks before it reads.\<close>

record RunIterator =
  start_pos :: int
  run_length :: int
  buf_size :: int
  ri_size :: int
  read_buf :: bytes
  pos :: int
  buf_no :: int
  rec_per_buf :: int

definition mk_RunIterator :: "bytes \<Rightarrow> int \<Rightarrow> int \<Rightarrow> int \<Rightarrow> Schema \<Rightarrow> RunIterator res" where
  "mk_RunIterator junk start len bsize schema =
     (if record_size schema = 0 then Inl Div_by_zero
      else if bsize div record_size schema < 1 then Inl Exit_1
      else Inr \<lparr>start_pos = start, run_length = len, buf_size = bsize, ri_size = record_size schema,
                read_buf = take (nat bsize) (junk @ replicate (nat bsize) 0), pos = 0, buf_no = 0,
                rec_per_buf = bsize div record_size schema\<rparr>)"

definition run_has_next :: "RunIterator \<Rightarrow> bool" where
  "run_has_next it \<longleftrightarrow> pos it < run_length it"

definition fill_buf :: "RunIterator \<Rightarrow> cfile \<Rightarrow> (RunIterator \<times> cfile) res" where
  "fill_buf it fp =
     (let offset = (start_pos it + buf_no it * rec_per_buf it) * ri_size it in
      if offset < 0 then Inl Exit_1
      else let (rd, bs, fp) = fread_items (fseek_set fp offset) (nat (ri_size it)) (nat (rec_per_buf it)) in
           bindR (store_bytes (read_buf it) 0 bs) (\<lambda>buf.
           Inr (it\<lparr>read_buf := buf, buf_no := buf_no it + 1\<rparr>, fp)))"

text \<open>The record is a pointer into \<open>read_buf\<close>; it is modelled by the bytes there, which stay until the next call for this iterator.\<close>

definition run_next :: "RunIterator \<Rightarrow> cfile \<Rightarrow> (bytes \<times> RunIterator \<times> cfile) res" where
  "run_next it fp =
     bindR (if pos it mod rec_per_buf it = 0 then fill_buf it fp else Inr (it, fp)) (\<lambda>(it, fp).
     bindR (load_bytes (read_buf it) (pos it mod rec_per_buf it * ri_size it) (nat (ri_size it))) (\<lambda>rec.
     Inr (rec, it\<lparr>pos := pos it + 1\<rparr>, fp)))"

partial_function (option) write_records :: "RunIterator \<Rightarrow> cfile \<Rightarrow> cfile \<Rightarrow> (cfile \<times> cfile) res option" where
  "write_records it fp out_fp =
     (if run_has_next it
      then (case run_next it fp of
          Inl e \<Rightarrow> Some (Inl e)
        | Inr r \<Rightarrow> write_records (fst (snd r)) (snd (snd r)) (fwrite out_fp (fst r)))
      else Some (Inr (fp, out_fp)))"


section \<open>The order on records\<close>

text \<open>The sort keys of a schema: type, offset and length of each sort attribute, and the order they define.\<close>

definition field :: "nat \<Rightarrow> nat \<Rightarrow> bytes \<Rightarrow> bytes" where
  "field off len rec = cstr (take len (drop off rec))"

type_synonym sort_key = "attr_type \<times> nat \<times> nat"

definition sort_key :: "Schema \<Rightarrow> int \<Rightarrow> sort_key" where
  "sort_key schema i = (at_type (attrs schema ! nat i), nat (data_offset schema ! nat i), nat (at_length (attrs schema ! nat i)))"

definition sort_keys :: "Schema \<Rightarrow> sort_key list" where
  "sort_keys schema = map (sort_key schema) (sort_attrs schema)"

fun key_cmp :: "atof_fn \<Rightarrow> sort_key list \<Rightarrow> bytes \<Rightarrow> bytes \<Rightarrow> int" where
  "key_cmp atof [] a b = 0"
| "key_cmp atof ((t, off, len) # ks) a b =
     (let c = cmp_fn atof t (field off len a) (field off len b) in if c \<noteq> 0 then c else key_cmp atof ks a b)"

text \<open>
  The schemas on which the comparison stays inside its buffers: indices in range, fields of at most 39 bytes
  inside the record, and in position \<open>i\<close> an attribute of at most 39 bytes.
\<close>

definition attr_ok :: "Schema \<Rightarrow> nat \<Rightarrow> int \<Rightarrow> bool" where
  "attr_ok schema i j \<longleftrightarrow> 0 \<le> j \<and> nat j < length (attrs schema) \<and> nat j < length (data_offset schema) \<and> i < length (attrs schema)
     \<and> 0 \<le> at_length (attrs schema ! i) \<and> at_length (attrs schema ! i) \<le> 39
     \<and> 0 \<le> at_length (attrs schema ! nat j) \<and> at_length (attrs schema ! nat j) \<le> 39
     \<and> 0 \<le> data_offset schema ! nat j \<and> data_offset schema ! nat j + at_length (attrs schema ! nat j) \<le> record_size schema"

definition schema_ok :: "Schema \<Rightarrow> bool" where
  "schema_ok schema \<longleftrightarrow> 0 < record_size schema
     \<and> list_all (\<lambda>i. attr_ok schema i (sort_attrs schema ! i)) [0..<length (sort_attrs schema)]"

text \<open>
  The terminator is put at the end of what was copied only when, for every \<open>i\<close>, the attribute in position \<open>i\<close> of the schema
  has the length of the \<open>i\<close>-th sort attribute.
\<close>

definition lengths_match :: "Schema \<Rightarrow> bool" where
  "lengths_match schema \<longleftrightarrow>
     list_all (\<lambda>i. at_length (attrs schema ! i) = at_length (attrs schema ! nat (sort_attrs schema ! i))) [0..<length (sort_attrs schema)]"

lemma cstr_terminated: "cstr (bs @ 0 # r) = cstr bs"
  by (induction bs) (auto simp: cstr_def)

lemma cmp_fn_cstr: "cmp_fn atof t (cstr a) (cstr b) = cmp_fn atof t a b"
  by (cases t) (simp_all add: cmp_fn_def int_cmp_def float_cmp_def string_cmp_def strcmp_def)

lemma cstr_update: "n < length bs \<Longrightarrow> cstr (bs[n := 0]) = cstr (take n bs)"
  by (simp add: upd_conv_take_nth_drop cstr_terminated)

text \<open>What the comparison reads of an attribute: \<open>l\<close> bytes of the buffer, in which the attribute covers the first \<open>len\<close>.\<close>

lemma attr_string_buffer:
  assumes ok: "attr_ok schema i j" and rec: "length rec = nat (record_size schema)" and st: "40 \<le> length stack"
    and key: "sort_key schema j = (t, off, len)" and l: "l = nat (at_length (attrs schema ! i))"
  shows "\<exists>buf. attr_string schema stack (int i) j rec = Inr buf \<and> cstr buf = cstr (take l (take len (drop off rec) @ drop len stack))"
proof -
  let ?bs = "take len (drop off rec)"
  have k: "data_offset schema ! nat j = int off" "at_length (attrs schema ! nat j) = int len" "at_length (attrs schema ! i) = int l"
    using key ok l by (auto simp: sort_key_def attr_ok_def)
  then have len0: "len \<le> 39" "l \<le> 39" "int off + int len \<le> record_size schema" using ok by (auto simp: attr_ok_def)
  then have len: "off + len \<le> length rec" "length ?bs = len" using rec by auto
  have "get_attr j schema = Inr (int off)" "nth_res (attrs schema) j = Inr (attrs schema ! nat j)"
    "nth_res (attrs schema) (int i) = Inr (attrs schema ! i)"
    using ok k by (auto simp: get_attr_def nth_res_def attr_ok_def)
  moreover have "load_bytes rec (int off) len = Inr ?bs" using len by (simp add: load_bytes_def)
  moreover have "store_bytes (take 40 stack) 0 ?bs = Inr (?bs @ drop len (take 40 stack))"
    using len len0 st by (simp add: store_bytes_def blit_def)
  moreover have "upd_res (?bs @ drop len (take 40 stack)) (int l) 0 = Inr ((?bs @ drop len (take 40 stack))[l := 0])"
    using len len0 st by (simp add: upd_res_def)
  moreover have "nat (int len mod 2 ^ 64) = len" using len0 by simp
  ultimately have "attr_string schema stack (int i) j rec = Inr ((?bs @ drop len (take 40 stack))[l := 0])"
    using k by (simp add: attr_string_def)
  moreover have "take l (?bs @ drop len (take 40 stack)) = take l (?bs @ drop len stack)"
    using len len0 by (simp add: drop_take)
  ultimately show ?thesis using len len0 st by (simp add: cstr_update)
qed

lemma attr_fits: "attr_ok schema i j \<Longrightarrow> sort_key schema j = (t, off, len) \<Longrightarrow> off + len \<le> nat (record_size schema)"
  by (auto simp: attr_ok_def sort_key_def nat_le_iff simp flip: nat_add_distrib)

lemma attr_string_spec:
  assumes ok: "attr_ok schema i j" and rec: "length rec = nat (record_size schema)" and st: "40 \<le> length stack"
    and key: "sort_key schema j = (t, off, len)" and eq: "at_length (attrs schema ! i) = at_length (attrs schema ! nat j)"
  shows "\<exists>buf. attr_string schema stack (int i) j rec = Inr buf \<and> cstr buf = field off len rec"
proof -
  have l: "len = nat (at_length (attrs schema ! i))" using key eq by (simp add: sort_key_def)
  have "length (take len (drop off rec)) = len" using attr_fits [OF ok key] rec by simp
  then show ?thesis using attr_string_buffer [OF ok rec st key l] by (simp add: field_def)
qed

lemma mk_cmp_fns_spec:
  "list_all (\<lambda>j. 0 \<le> j \<and> nat j < length as) js \<Longrightarrow> mk_cmp_fns as js = Inr (map (\<lambda>j. at_type (as ! nat j)) js)"
  by (induction js) (auto simp: nth_res_def nat_less_iff)

lemma mk_RecordComparator_spec:
  assumes "schema_ok schema"
  shows "mk_RecordComparator schema = Inr \<lparr>cmp_fns = map fst (sort_keys schema), rc_schema = schema\<rparr>"
proof -
  have "mk_cmp_fns (attrs schema) (sort_attrs schema) = Inr (map (\<lambda>j. at_type (attrs schema ! nat j)) (sort_attrs schema))"
    using assms by (intro mk_cmp_fns_spec) (auto simp: schema_ok_def attr_ok_def list_all_iff in_set_conv_nth)
  then show ?thesis by (simp add: mk_RecordComparator_def sort_keys_def sort_key_def o_def)
qed

lemma qsort_cmp_loop_spec:
  assumes ok: "schema_ok schema" "lengths_match schema" and len: "length a = nat (record_size schema)" "length b = nat (record_size schema)"
    and st: "\<And>i. 40 \<le> length (fst (stack i)) \<and> 40 \<le> length (snd (stack i))" and i: "i \<le> length (sort_attrs schema)"
  defines "rc \<equiv> \<lparr>cmp_fns = map fst (sort_keys schema), rc_schema = schema\<rparr>"
  shows "qsort_cmp_loop atof rc stack i (drop i (sort_attrs schema)) a b = Inr (key_cmp atof (drop i (sort_keys schema)) a b)
    \<and> less_loop atof rc stack i (drop i (sort_attrs schema)) a b = Inr (key_cmp atof (drop i (sort_keys schema)) a b < 0)"
  using i
proof (induction "length (sort_attrs schema) - i" arbitrary: i)
  case 0
  then show ?case by (simp add: sort_keys_def)
next
  case (Suc x)
  let ?j = "sort_attrs schema ! i"
  have i: "i < length (sort_attrs schema)" using Suc by simp
  obtain t off len where key: "sort_key schema ?j = (t, off, len)" by (cases "sort_key schema ?j") auto
  have ok': "attr_ok schema i ?j" "at_length (attrs schema ! i) = at_length (attrs schema ! nat ?j)"
    using ok i by (simp_all add: schema_ok_def lengths_match_def list_all_iff)
  obtain ba bb where buf: "attr_string schema (fst (stack i)) (int i) ?j a = Inr ba" "cstr ba = field off len a"
    "attr_string schema (snd (stack i)) (int i) ?j b = Inr bb" "cstr bb = field off len b"
    using attr_string_spec [OF ok'(1) _ _ key ok'(2)] len st by metis
  have t: "nth_res (cmp_fns rc) (int i) = Inr t" using i key by (simp add: rc_def nth_res_def sort_keys_def)
  have c: "cmp_fn atof t ba bb = cmp_fn atof t (field off len a) (field off len b)"
    using cmp_fn_cstr [of atof t ba bb] buf by simp
  have sk: "i < length (sort_keys schema)" "sort_keys schema ! i = (t, off, len)" using i key by (simp_all add: sort_keys_def)
  have d: "drop i (sort_attrs schema) = ?j # drop (Suc i) (sort_attrs schema)"
    "drop i (sort_keys schema) = (t, off, len) # drop (Suc i) (sort_keys schema)"
    using Cons_nth_drop_Suc [OF i] Cons_nth_drop_Suc [OF sk(1)] sk(2) by simp_all
  show ?case
    using Suc.hyps(1) [of "Suc i"] Suc.hyps(2) i buf t c unfolding d by (simp add: rc_def Let_def)
qed

lemma qsort_cmp_spec:
  assumes "schema_ok schema" and "lengths_match schema" and "mk_RecordComparator schema = Inr rc"
    and "length a = nat (record_size schema)" "length b = nat (record_size schema)"
    and "\<And>i. 40 \<le> length (fst (stack i)) \<and> 40 \<le> length (snd (stack i))"
  shows "qsort_cmp atof rc stack a b = Inr (key_cmp atof (sort_keys schema) a b)"
    and "record_less atof rc stack a b = Inr (key_cmp atof (sort_keys schema) a b < 0)"
  using qsort_cmp_loop_spec [OF assms(1,2,4,5,6), of 0] mk_RecordComparator_spec [OF assms(1)] assms(3)
  by (auto simp: qsort_cmp_def record_less_def)

text \<open>With one string to sort by, the comparators compare the two buffers.\<close>

lemma string_cmp_buffers:
  assumes sch: "schema_ok schema" "mk_RecordComparator schema = Inr rc" "sort_attrs schema = [j]" "sort_key schema j = (T_STRING, off, len)"
    and l: "l = nat (at_length (attrs schema ! 0))"
    and r: "length a = nat (record_size schema)" "length b = nat (record_size schema)"
    and st: "40 \<le> length (fst (stack 0))" "40 \<le> length (snd (stack 0))"
  defines "c \<equiv> strcmp (take l (take len (drop off a) @ drop len (fst (stack 0)))) (take l (take len (drop off b) @ drop len (snd (stack 0))))"
  shows "qsort_cmp atof rc stack a b = Inr c" and "record_less atof rc stack a b = Inr (c < 0)"
proof -
  have ok: "attr_ok schema 0 j" using sch(1,3) by (simp add: schema_ok_def)
  have rc: "rc = \<lparr>cmp_fns = [T_STRING], rc_schema = schema\<rparr>"
    using mk_RecordComparator_spec [OF sch(1)] sch(2-4) by (simp add: sort_keys_def)
  obtain ba bb where b: "attr_string schema (fst (stack 0)) 0 j a = Inr ba" "cstr ba = cstr (take l (take len (drop off a) @ drop len (fst (stack 0))))"
    "attr_string schema (snd (stack 0)) 0 j b = Inr bb" "cstr bb = cstr (take l (take len (drop off b) @ drop len (snd (stack 0))))"
    using attr_string_buffer [OF ok r(1) st(1) sch(4) l] attr_string_buffer [OF ok r(2) st(2) sch(4) l] by auto
  then have "cmp_fn atof T_STRING ba bb = c" by (simp add: cmp_fn_def string_cmp_def strcmp_def c_def)
  then show "qsort_cmp atof rc stack a b = Inr c" "record_less atof rc stack a b = Inr (c < 0)"
    using b(1,3) sch(3) by (simp_all add: rc qsort_cmp_def record_less_def nth_res_def Let_def)
qed

text \<open>
  The order is a three-way comparison on records whose integer fields are far enough from the ends of
  the range and whose floating-point fields are numbers.
\<close>

definition key_value_ok :: "atof_fn \<Rightarrow> attr_type \<Rightarrow> bytes \<Rightarrow> bool" where
  "key_value_ok atof t s = (case t of
     T_INT \<Rightarrow> - (2 ^ 30) \<le> atoi s \<and> atoi s < 2 ^ 30
   | T_FLOAT \<Rightarrow> atof (cstr s) \<noteq> None
   | T_STRING \<Rightarrow> True)"

definition rec_ok :: "atof_fn \<Rightarrow> sort_key list \<Rightarrow> bytes \<Rightarrow> bool" where
  "rec_ok atof ks rec \<longleftrightarrow> list_all (\<lambda>(t, off, len). key_value_ok atof t (field off len rec)) ks"

interpretation key_value: three_way "cmp_fn atof t" "key_value_ok atof t" for atof t
proof unfold_locales
  fix x y z
  assume x: "key_value_ok atof t x"
  show "cmp_fn atof t x x = 0"
    by (cases t) (simp_all add: cmp_fn_def int_cmp_def float_cmp_def string_cmp_def strcmp.cmp_refl to_s32_id)
  assume y: "key_value_ok atof t y"
  show "cmp_fn atof t x y < 0 \<longleftrightarrow> 0 < cmp_fn atof t y x"
    using x y strcmp.cmp_flip [of x y]
    by (cases t) (auto simp: cmp_fn_def int_cmp_def float_cmp_def string_cmp_def key_value_ok_def to_s32_id float_gt_def)
  assume z: "key_value_ok atof t z" and le: "cmp_fn atof t x y \<le> 0" "cmp_fn atof t y z \<le> 0"
  show "cmp_fn atof t x z \<le> 0"
    using x y z le strcmp.cmp_trans [of x y z]
    by (cases t) (auto simp: cmp_fn_def int_cmp_def float_cmp_def string_cmp_def key_value_ok_def to_s32_id float_gt_def split: if_splits)
qed

interpretation rec_order: three_way "key_cmp atof ks" "rec_ok atof ks" for atof ks
proof (induction ks)
  case Nil
  show ?case by unfold_locales simp_all
next
  case (Cons k ks)
  obtain t off len where k: "k = (t, off, len)" by (cases k) auto
  have c: "key_cmp atof (k # ks) = (\<lambda>x y. let c = cmp_fn atof t (field off len x) (field off len y) in if c \<noteq> 0 then c else key_cmp atof ks x y)"
    by (simp add: k fun_eq_iff)
  have o: "rec_ok atof (k # ks) = (\<lambda>x. key_value_ok atof t (field off len x) \<and> rec_ok atof ks x)"
    by (auto simp: k rec_ok_def fun_eq_iff)
  show ?case unfolding c o
    by (rule three_way_lex [where g = "field off len", OF key_value.three_way_axioms Cons.IH])
qed

section \<open>Files of records\<close>

definition recs :: "nat \<Rightarrow> bytes list \<Rightarrow> bool" where
  "recs sz R \<longleftrightarrow> 0 < sz \<and> (\<forall>r \<in> set R. length r = sz)"

lemma length_concat_recs: "recs sz R \<Longrightarrow> length (concat R) = length R * sz"
  by (induction R) (auto simp: recs_def)

lemma drop_concat_recs: "recs sz R \<Longrightarrow> drop (n * sz) (concat R) = concat (drop n R)"
proof (induction R arbitrary: n)
  case (Cons r R)
  then show ?case by (cases n) (auto simp: recs_def)
qed simp

lemma take_concat_recs: "recs sz R \<Longrightarrow> take (n * sz) (concat R) = concat (take n R)"
proof (induction R arbitrary: n)
  case (Cons r R)
  then show ?case by (cases n) (auto simp: recs_def)
qed simp

lemma recs_sub: "recs sz R \<Longrightarrow> set S \<subseteq> set R \<Longrightarrow> recs sz S"
  by (auto simp: recs_def)

lemma recs_take_drop [simp]: "recs sz R \<Longrightarrow> recs sz (take n R)" "recs sz R \<Longrightarrow> recs sz (drop n R)"
  by (auto simp: recs_def dest: in_set_takeD in_set_dropD)

lemma nth_concat_recs: "recs sz R \<Longrightarrow> n < length R \<Longrightarrow> take sz (drop (n * sz) (concat R)) = R ! n"
  using take_concat_recs [of sz "drop n R" 1] by (simp add: drop_concat_recs take_Suc hd_drop_conv_nth)

lemma split_recs_concat: "recs sz R \<Longrightarrow> split_recs sz (length R) (concat R @ t) = R"
  by (induction R) (auto simp: recs_def)

section \<open>Run iterators\<close>

lemma ceil_div:
  fixes p q :: nat
  assumes "0 < q" shows "(p + q - 1) div q = (if p mod q = 0 then p div q else p div q + 1)"
proof -
  have e: "p + q - 1 = (p mod q + q - 1) + p div q * q" using div_mult_mod_eq [of p q] assms by linarith
  have "(p mod q + q - 1) div q = (if p mod q = 0 then 0 else 1)"
  proof (cases "p mod q = 0")
    case False
    then show ?thesis using assms mod_less_divisor [OF assms, of p] by (simp add: div_nat_eqI)
  qed (use assms in simp)
  moreover have "(p + q - 1) div q = p div q + (p mod q + q - 1) div q" using assms by (subst e) (rule div_mult_self1, simp)
  ultimately show ?thesis by simp
qed

definition it_inv :: "nat \<Rightarrow> bytes list \<Rightarrow> RunIterator \<Rightarrow> nat \<Rightarrow> nat \<Rightarrow> nat \<Rightarrow> nat \<Rightarrow> bool" where
  "it_inv sz R it s l p rpb \<longleftrightarrow> start_pos it = int s \<and> run_length it = int l \<and> pos it = int p \<and> p \<le> l
     \<and> (l = 0 \<or> s + l \<le> length R) \<and> ri_size it = int sz \<and> rec_per_buf it = int rpb \<and> 0 < rpb \<and> rpb * sz \<le> length (read_buf it)
     \<and> buf_no it = int ((p + rpb - 1) div rpb)
     \<and> (p mod rpb \<noteq> 0 \<longrightarrow> (\<forall>j < rpb. p div rpb * rpb + j < l \<longrightarrow>
          take sz (drop (j * sz) (read_buf it)) = R ! (s + p div rpb * rpb + j)))"

text \<open>The records an iterator has still to give.\<close>

definition it_rest :: "bytes list \<Rightarrow> RunIterator \<Rightarrow> bytes list" where
  "it_rest R it = take (nat (run_length it - pos it)) (drop (nat (start_pos it + pos it)) R)"

lemma fill_buf_spec:
  assumes inv: "it_inv sz R it s l p rpb" and R: "recs sz R" and fp: "fcontents fp = concat R" and p: "p < l" "p mod rpb = 0"
  shows "\<exists>buf fp'. fill_buf it fp = Inr (it\<lparr>read_buf := buf, buf_no := int (p div rpb + 1)\<rparr>, fp') \<and> fcontents fp' = concat R
    \<and> length buf = length (read_buf it)
    \<and> (\<forall>j < rpb. p div rpb * rpb + j < l \<longrightarrow> take sz (drop (j * sz) buf) = R ! (s + p div rpb * rpb + j))"
proof -
  let ?o = "s + p div rpb * rpb"
  let ?S = "take rpb (drop ?o R)"
  have i: "start_pos it = int s" "ri_size it = int sz" "rec_per_buf it = int rpb" "0 < rpb" "rpb * sz \<le> length (read_buf it)"
    "s + l \<le> length R" using inv p by (auto simp: it_inv_def)
  have "buf_no it = int ((p + rpb - 1) div rpb)" using inv by (simp add: it_inv_def)
  moreover have "(p + rpb - 1) div rpb = p div rpb" using ceil_div [OF i(4), of p] p(2) by simp
  ultimately have bn: "buf_no it = int (p div rpb)" by simp
  have "(start_pos it + buf_no it * rec_per_buf it) * ri_size it = int (?o * sz)" using i bn by simp
  then have off: "fseek_set fp ((start_pos it + buf_no it * rec_per_buf it) * ri_size it) = fp\<lparr>fpos := ?o * sz\<rparr>"
    "\<not> (start_pos it + buf_no it * rec_per_buf it) * ri_size it < 0"
    by (simp_all add: fseek_set_def del: of_nat_mult of_nat_add)
  have S: "recs sz ?S" "length (concat ?S) \<le> rpb * sz" using R length_concat_recs [of sz ?S] by auto
  have bs: "take (sz * rpb) (drop (?o * sz) (concat R)) = concat ?S"
    unfolding drop_concat_recs [OF R] mult.commute [of sz rpb] using R by (intro take_concat_recs) simp
  let ?buf = "blit (read_buf it) 0 (concat ?S)"
  have "store_bytes (read_buf it) 0 (concat ?S) = Inr ?buf" using S(2) i(5) by (simp add: store_bytes_def)
  then have "fill_buf it fp = Inr (it\<lparr>read_buf := ?buf, buf_no := int (p div rpb + 1)\<rparr>, fp\<lparr>fpos := ?o * sz + length (concat ?S)\<rparr>)"
    using off bs i bn fp by (simp add: fill_buf_def fread_items_def fread_def Let_def add.commute)
  moreover have "length ?buf = length (read_buf it)" using S(2) i(5) by simp
  moreover have "take sz (drop (j * sz) ?buf) = R ! (?o + j)" if j: "j < rpb" "p div rpb * rpb + j < l" for j
  proof -
    have jS: "j < length ?S" using j i(6) by simp
    have "take sz (drop (j * sz) ?buf) = take sz (drop (j * sz) (concat ?S))"
    proof -
      have "(j + 1) * sz \<le> length ?S * sz" using jS by (intro mult_le_mono1) simp
      then have "j * sz + sz \<le> length (concat ?S)" using length_concat_recs [OF S(1)] by simp
      then show ?thesis by (simp add: blit_def)
    qed
    also have "\<dots> = ?S ! j" using nth_concat_recs [OF S(1) jS] .
    finally show ?thesis using j jS by simp
  qed
  ultimately show ?thesis using fp by (intro exI [of _ ?buf] exI [of _ "fp\<lparr>fpos := ?o * sz + length (concat ?S)\<rparr>"]) simp
qed

lemma run_next_spec:
  assumes inv: "it_inv sz R it s l p rpb" and R: "recs sz R" and fp: "fcontents fp = concat R" and p: "p < l"
  shows "\<exists>it' fp'. run_next it fp = Inr (R ! (s + p), it', fp') \<and> it_inv sz R it' s l (Suc p) rpb \<and> fcontents fp' = concat R"
proof -
  have i: "pos it = int p" "rec_per_buf it = int rpb" "ri_size it = int sz" "0 < rpb" "start_pos it = int s" "run_length it = int l"
    using inv by (auto simp: it_inv_def)
  have "\<exists>it1 fp1. (if pos it mod rec_per_buf it = 0 then fill_buf it fp else Inr (it, fp)) = Inr (it1, fp1) \<and> fcontents fp1 = concat R
    \<and> it1 = it\<lparr>read_buf := read_buf it1, buf_no := int (p div rpb + 1)\<rparr> \<and> length (read_buf it1) = length (read_buf it)
    \<and> (\<forall>j < rpb. p div rpb * rpb + j < l \<longrightarrow> take sz (drop (j * sz) (read_buf it1)) = R ! (s + p div rpb * rpb + j))"
  proof (cases "p mod rpb = 0")
    case True
    then have "pos it mod rec_per_buf it = 0" using i by (simp flip: zmod_int)
    then show ?thesis using fill_buf_spec [OF inv R fp p True] by fastforce
  next
    case False
    then have "pos it mod rec_per_buf it \<noteq> 0" using i by (simp flip: zmod_int)
    moreover have "(p + rpb - 1) div rpb = p div rpb + 1" using ceil_div [OF i(4), of p] False by simp
    ultimately show ?thesis using inv False fp by (intro exI [of _ it] exI [of _ fp]) (simp add: it_inv_def)
  qed
  then obtain it1 fp1 where f: "(if pos it mod rec_per_buf it = 0 then fill_buf it fp else Inr (it, fp)) = Inr (it1, fp1)"
    "fcontents fp1 = concat R" "it1 = it\<lparr>read_buf := read_buf it1, buf_no := int (p div rpb + 1)\<rparr>"
    "length (read_buf it1) = length (read_buf it)"
    "\<forall>j < rpb. p div rpb * rpb + j < l \<longrightarrow> take sz (drop (j * sz) (read_buf it1)) = R ! (s + p div rpb * rpb + j)" by blast
  obtain buf where e: "it1 = it\<lparr>read_buf := buf, buf_no := int (p div rpb + 1)\<rparr>" "buf = read_buf it1" using f(3) by blast
  have m: "p mod rpb < rpb" "p div rpb * rpb + p mod rpb = p" using i(4) by auto
  have "take sz (drop (p mod rpb * sz) buf) = R ! (s + p)" using f(5) m p e(2) by (metis add.assoc)
  moreover have "p mod rpb * sz + sz \<le> length buf"
  proof -
    have "(p mod rpb + 1) * sz \<le> rpb * sz" using m(1) by (intro mult_le_mono1) simp
    also have "\<dots> \<le> length buf" using inv f(4) e(2) by (simp add: it_inv_def)
    finally show ?thesis by simp
  qed
  moreover have "pos it mod rec_per_buf it * ri_size it = int (p mod rpb * sz)" using i by (simp add: zmod_int)
  ultimately have "run_next it fp = Inr (R ! (s + p), it1\<lparr>pos := int (Suc p)\<rparr>, fp1)"
    unfolding run_next_def f(1) using i e(1) by (simp add: load_bytes_def del: of_nat_mult)
  moreover have "it_inv sz R (it1\<lparr>pos := int (Suc p)\<rparr>) s l (Suc p) rpb"
  proof -
    have c1: "(Suc p + rpb - 1) div rpb = p div rpb + 1" using i(4) by simp
    have c2: "Suc p div rpb = p div rpb" if "Suc p mod rpb \<noteq> 0" using that i(4) by (simp add: div_Suc)
    have e1: "it1\<lparr>pos := int (Suc p)\<rparr> = it\<lparr>read_buf := buf, buf_no := int (p div rpb + 1), pos := int (Suc p)\<rparr>"
      using e(1) by simp
    have lb: "length buf = length (read_buf it)" using f(4) e(2) by simp
    have sl: "\<forall>j < rpb. p div rpb * rpb + j < l \<longrightarrow> take sz (drop (j * sz) buf) = R ! (s + p div rpb * rpb + j)"
      using f(5) e(2) by simp
    have old: "p \<le> l" "l = 0 \<or> s + l \<le> length R" "rpb * sz \<le> length (read_buf it)" using inv by (auto simp: it_inv_def)
    show ?thesis unfolding e1 it_inv_def using i old p lb sl c1 c2 by simp
  qed
  ultimately show ?thesis using f(2) by blast
qed

lemma it_rest_next:
  assumes "it_inv sz R it s l p rpb" "p < l" "it_inv sz R it' s l (Suc p) rpb"
  shows "it_rest R it = R ! (s + p) # it_rest R it'"
proof -
  have "s + p < length R" using assms by (auto simp: it_inv_def)
  then have "drop (s + p) R = R ! (s + p) # drop (Suc (s + p)) R" by (simp add: Cons_nth_drop_Suc)
  moreover have "nat (int l - int p) = Suc (nat (int l - int (Suc p)))" using assms(2) by simp
  moreover have "nat (int s + int p) = s + p" "nat (int s + int (Suc p)) = Suc (s + p)" by simp_all
  ultimately show ?thesis using assms by (simp add: it_rest_def it_inv_def)
qed

text \<open>What the users of an iterator need: it is either done, or gives the next record of the run.\<close>

definition it_ok :: "nat \<Rightarrow> bytes list \<Rightarrow> RunIterator \<Rightarrow> bool" where
  "it_ok sz R it \<longleftrightarrow> (\<exists>s l p rpb. it_inv sz R it s l p rpb)"

lemma it_done: "it_ok sz R it \<Longrightarrow> \<not> run_has_next it \<Longrightarrow> it_rest R it = []"
  by (auto simp: it_ok_def it_inv_def run_has_next_def it_rest_def)

lemma it_next:
  assumes "it_ok sz R it" and "recs sz R" and "fcontents fp = concat R" and "run_has_next it"
  shows "\<exists>r it' fp'. run_next it fp = Inr (r, it', fp') \<and> it_ok sz R it' \<and> fcontents fp' = concat R \<and> it_rest R it = r # it_rest R it'"
proof -
  obtain s l p rpb where inv: "it_inv sz R it s l p rpb" using assms(1) by (auto simp: it_ok_def)
  then have p: "p < l" using assms(4) by (simp add: run_has_next_def it_inv_def)
  then show ?thesis using run_next_spec [OF inv assms(2,3) p] it_rest_next [OF inv p] by (fastforce simp: it_ok_def)
qed

lemma mk_RunIterator_spec:
  assumes "record_size schema = int sz" and "0 < sz" and "int sz \<le> bsize" and "len = 0 \<or> s + len \<le> length R"
  shows "\<exists>it. mk_RunIterator junk (int s) (int len) bsize schema = Inr it \<and> it_ok sz R it \<and> it_rest R it = take len (drop s R)"
proof -
  let ?rpb = "nat bsize div sz"
  let ?it = "\<lparr>start_pos = int s, run_length = int len, buf_size = bsize, ri_size = int sz,
                read_buf = take (nat bsize) (junk @ replicate (nat bsize) 0), pos = 0, buf_no = 0, rec_per_buf = int ?rpb\<rparr>"
  have b: "bsize div int sz = int ?rpb" using assms(2,3) by (simp add: zdiv_int)
  have r: "0 < ?rpb" using assms(2,3) by (simp add: div_greater_zero_iff nat_le_iff le_nat_iff)
  have "mk_RunIterator junk (int s) (int len) bsize schema = Inr ?it"
    using assms(1,2) b r by (simp add: mk_RunIterator_def)
  moreover have "?rpb * sz \<le> length (take (nat bsize) (junk @ replicate (nat bsize) 0))" by (simp add: min_def)
  then have "it_inv sz R ?it s len 0 ?rpb" using r assms(4) by (auto simp: it_inv_def)
  ultimately show ?thesis by (intro exI [of _ ?it]) (auto simp: it_ok_def it_rest_def)
qed

text \<open>\<^verbatim>\<open>write_records\<close> copies the rest of a run.\<close>

lemma write_records_spec:
  assumes "it_ok sz R it" and "recs sz R" and "fcontents fp = concat R" and "fpos out = length (fcontents out)"
  shows "\<exists>fp' out'. write_records it fp out = Some (Inr (fp', out')) \<and> fcontents out' = fcontents out @ concat (it_rest R it)
    \<and> fcontents fp' = concat R \<and> fpos out' = length (fcontents out')"
  using assms
proof (induction "length (it_rest R it)" arbitrary: it fp out)
  case 0
  have "\<not> run_has_next it" using it_next [OF 0(2-4)] 0(1) by fastforce
  then show ?case using 0 by (intro exI [of _ fp] exI [of _ out]) (simp add: write_records.simps)
next
  case (Suc n)
  have "run_has_next it" using it_done [OF Suc.prems(1)] Suc.hyps(2) by force
  then obtain r it' fp' where n: "run_next it fp = Inr (r, it', fp')" "it_ok sz R it'" "fcontents fp' = concat R" "it_rest R it = r # it_rest R it'"
    using it_next [OF Suc.prems(1-3)] by blast
  have w: "fcontents (fwrite out r) = fcontents out @ r" "fpos (fwrite out r) = length (fcontents (fwrite out r))"
    using Suc.prems(4) by (simp_all add: fwrite_def blit_def)
  obtain fp'' out' where "write_records it' fp' (fwrite out r) = Some (Inr (fp'', out'))"
    "fcontents out' = fcontents (fwrite out r) @ concat (it_rest R it')" "fcontents fp'' = concat R" "fpos out' = length (fcontents out')"
    using Suc.hyps(1) [OF _ n(2) Suc.prems(2) n(3) w(2)] Suc.hyps(2) n(4) by auto
  then show ?case using \<open>run_has_next it\<close> n w
    by (intro exI [of _ fp''] exI [of _ out']) (simp add: write_records.simps [of it])
qed


section \<open>Making sorted runs\<close>

abbreviation sorted_by :: "('a \<Rightarrow> 'a \<Rightarrow> int) \<Rightarrow> 'a list \<Rightarrow> bool" where
  "sorted_by f \<equiv> sorted_wrt (\<lambda>a b. f a b \<le> 0)"

text \<open>A list in which every aligned segment of length \<open>m\<close> is sorted.\<close>

definition seg_sorted :: "('a \<Rightarrow> 'a \<Rightarrow> int) \<Rightarrow> nat \<Rightarrow> 'a list \<Rightarrow> bool" where
  "seg_sorted f m R \<longleftrightarrow> (\<forall>j. sorted_by f (take m (drop (j * m) R)))"

lemma seg_sorted_Nil [simp]: "seg_sorted f m []"
  by (simp add: seg_sorted_def)

lemma seg_sorted_all: "seg_sorted f m R \<Longrightarrow> length R \<le> m \<Longrightarrow> sorted_by f R"
  unfolding seg_sorted_def by (metis drop0 mult_0 take_all_iff)

lemma seg_sorted_append:
  assumes "sorted_by f S" and "seg_sorted f m R" and "length S = m \<or> length S \<le> m \<and> R = []"
  shows "seg_sorted f m (S @ R)"
  unfolding seg_sorted_def
proof
  fix j
  show "sorted_by f (take m (drop (j * m) (S @ R)))"
  proof (cases j)
    case 0
    then show ?thesis using assms by (auto simp: sorted_wrt_append)
  next
    case (Suc i)
    then have "drop (j * m) (S @ R) = drop (i * m) R" using assms(3) by auto
    then show ?thesis using assms(2) by (simp add: seg_sorted_def)
  qed
qed

text \<open>
  What the program relies on of the C library's \<^verbatim>\<open>qsort\<close>: with a comparison that does not fail and is
  consistent on the elements, the result is a sorted permutation. The order of equal elements is left open.
\<close>

definition qsort_spec :: "qsort_fn \<Rightarrow> bool" where
  "qsort_spec qsort \<longleftrightarrow> (\<forall>cmp f ok xs. three_way f ok \<longrightarrow> (\<forall>x \<in> set xs. ok x) \<longrightarrow>
     (\<forall>x \<in> set xs. \<forall>y \<in> set xs. cmp x y = Inr (f x y)) \<longrightarrow>
     (\<exists>ys. qsort cmp xs = Inr ys \<and> mset ys = mset xs \<and> sorted_by f ys))"

lemma read_run_spec:
  assumes d: "drop (fpos fp) (fcontents fp) = concat R @ t" and R: "recs sz R" and t: "length t < sz"
  shows "fst (read_run sz n fp) = take n R"
    and "\<exists>t'. drop (fpos (snd (read_run sz n fp))) (fcontents (snd (read_run sz n fp))) = concat (drop n R) @ t' \<and> length t' < sz"
proof -
  have sz: "0 < sz" using R by (simp add: recs_def)
  let ?bs = "take (sz * n) (concat R @ t)"
  have rr: "read_run sz n fp = (split_recs sz (length ?bs div sz) ?bs, fp\<lparr>fpos := fpos fp + length ?bs\<rparr>)"
    using sz d by (simp add: read_run_def fread_items_def fread_def Let_def)
  have lenR: "length (concat R) = length R * sz" using length_concat_recs [OF R] .
  have bs: "?bs = concat (take n R) @ (if n \<le> length R then [] else t)"
  proof (cases "n \<le> length R")
    case True
    then have "sz * n \<le> length (concat R)" using lenR by (simp add: mult.commute)
    then show ?thesis using True take_concat_recs [OF R, of n] by (simp add: mult.commute)
  next
    case False
    then have "Suc (length R) * sz \<le> n * sz" by (intro mult_le_mono1) simp
    then have "length (concat R @ t) \<le> sz * n" using lenR t by (simp add: mult.commute)
    then have "take (sz * n) (concat R @ t) = concat R @ t" by (rule take_all)
    then show ?thesis using False by simp
  qed
  have "length (concat (take n R)) = length (take n R) * sz" using R by (intro length_concat_recs) simp
  then have "length ?bs div sz = length (take n R)" unfolding bs using t sz by auto
  then show "fst (read_run sz n fp) = take n R"
    unfolding rr bs using split_recs_concat [of sz "take n R"] R by simp
  have "drop (fpos fp + length ?bs) (fcontents fp) = drop (length ?bs) (concat R @ t)"
    using d by (metis add.commute drop_drop)
  also have "\<dots> = concat (drop n R) @ (if n \<le> length R then t else [])"
  proof -
    have "concat R = concat (take n R) @ concat (drop n R)" by (metis append_take_drop_id concat_append)
    then show ?thesis unfolding bs by auto
  qed
  finally show "\<exists>t'. drop (fpos (snd (read_run sz n fp))) (fcontents (snd (read_run sz n fp))) = concat (drop n R) @ t' \<and> length t' < sz"
    unfolding rr using t sz by (intro exI [of _ "if n \<le> length R then t else []"]) simp
qed

lemma fwrite_append:
  "fpos f = length (fcontents f) \<Longrightarrow> fcontents (fwrite f bs) = fcontents f @ bs \<and> fpos (fwrite f bs) = length (fcontents f @ bs)"
  by (simp add: fwrite_def blit_def)

lemma mk_runs_loop_spec:
  assumes q: "qsort_spec qsort" and f: "three_way f ok" and n: "0 < n"
    and cmp: "\<And>a b. length a = sz \<Longrightarrow> length b = sz \<Longrightarrow> cmp a b = Inr (f a b)"
  shows "drop (fpos inp) (fcontents inp) = concat R @ t \<Longrightarrow> recs sz R \<Longrightarrow> length t < sz \<Longrightarrow> \<forall>r \<in> set R. ok r \<Longrightarrow>
    fpos out = length (fcontents out) \<Longrightarrow> 0 \<le> k \<Longrightarrow> k + int (length R) < 2 ^ 31 \<Longrightarrow>
    \<exists>inp' out' R'. mk_runs_loop qsort cmp sz n inp out k = Inr (k + int (length R), inp', out')
      \<and> fcontents out' = fcontents out @ concat R' \<and> fpos out' = length (fcontents out') \<and> mset R' = mset R \<and> seg_sorted f n R'"
proof (induction "length R" arbitrary: R t inp out k rule: less_induct)
  case less
  note rr = read_run_spec [OF less.prems(1-3), of n]
  show ?case
  proof (cases "R = []")
    case True
    then show ?thesis
      using rr(1) less.prems by (intro exI [of _ inp] exI [of _ out] exI [of _ "[]"]) (simp add: mk_runs_loop.simps)
  next
    case False
    let ?inp = "snd (read_run sz n inp)"
    obtain t' where t': "drop (fpos ?inp) (fcontents ?inp) = concat (drop n R) @ t'" "length t' < sz" using rr(2) by blast
    have "\<forall>x \<in> set (take n R). \<forall>y \<in> set (take n R). cmp x y = Inr (f x y)"
      using less.prems(2) cmp by (auto simp: recs_def dest: in_set_takeD)
    moreover have "\<forall>x \<in> set (take n R). ok x" using less.prems(4) by (auto dest: in_set_takeD)
    ultimately obtain S where S: "qsort cmp (take n R) = Inr S" "mset S = mset (take n R)" "sorted_by f S"
      using q f unfolding qsort_spec_def by blast
    let ?out = "fwrite out (concat S)"
    note w = fwrite_append [OF less.prems(5), of "concat S"]
    have "\<exists>inp' out' R'. mk_runs_loop qsort cmp sz n ?inp ?out (k + int (length (take n R))) =
        Inr (k + int (length (take n R)) + int (length (drop n R)), inp', out')
      \<and> fcontents out' = fcontents ?out @ concat R' \<and> fpos out' = length (fcontents out') \<and> mset R' = mset (drop n R) \<and> seg_sorted f n R'"
      using False n less.prems w by (intro less.hyps [OF _ t'(1) _ t'(2)]) (auto dest: in_set_dropD)
    then obtain inp' out' R' where i: "mk_runs_loop qsort cmp sz n ?inp ?out (k + int (length (take n R))) = Inr (k + int (length R), inp', out')"
      "fcontents out' = fcontents ?out @ concat R'" "fpos out' = length (fcontents out')" "mset R' = mset (drop n R)" "seg_sorted f n R'"
      by (auto simp flip: of_nat_add)
    have "to_s32 (k + int (length (take n R))) = k + int (length (take n R))"
      using less.prems(6,7) by (intro to_s32_id) auto
    then have "mk_runs_loop qsort cmp sz n inp out k = Inr (k + int (length R), inp', out')"
      using i(1) rr(1) False n S(1) by (subst mk_runs_loop.simps) simp
    moreover have "mset (S @ R') = mset R" using S(2) i(4) by (metis append_take_drop_id mset_append)
    moreover have "seg_sorted f n (S @ R')"
    proof (rule seg_sorted_append [OF S(3) i(5)])
      have l: "length S = length (take n R)" "length R' = length (drop n R)" using S(2) i(4) mset_eq_length by blast+
      show "length S = n \<or> length S \<le> n \<and> R' = []"
        using l by (cases "n \<le> length R") auto
    qed
    ultimately show ?thesis using i(2,3) w by (intro exI [of _ inp'] exI [of _ out'] exI [of _ "S @ R'"]) simp
  qed
qed

text \<open>A sort that satisfies the contract: insertion sort with a comparison that may fail.\<close>

fun insort_res :: "('a \<Rightarrow> 'a \<Rightarrow> int res) \<Rightarrow> 'a \<Rightarrow> 'a list \<Rightarrow> 'a list res" where
  "insort_res cmp x [] = Inr [x]"
| "insort_res cmp x (y # ys) =
     bindR (cmp x y) (\<lambda>c. if c \<le> 0 then Inr (x # y # ys) else bindR (insort_res cmp x ys) (\<lambda>zs. Inr (y # zs)))"

fun isort_res :: "('a \<Rightarrow> 'a \<Rightarrow> int res) \<Rightarrow> 'a list \<Rightarrow> 'a list res" where
  "isort_res cmp [] = Inr []"
| "isort_res cmp (x # xs) = bindR (isort_res cmp xs) (insort_res cmp x)"

lemma insort_res_spec:
  assumes f: "three_way f ok" and "sorted_by f ys" and "ok x" and "\<forall>y \<in> set ys. ok y" and "\<forall>y \<in> set ys. cmp x y = Inr (f x y)"
  shows "\<exists>zs. insort_res cmp x ys = Inr zs \<and> mset zs = add_mset x (mset ys) \<and> sorted_by f zs"
  using assms(2-)
proof (induction ys)
  case (Cons y ys)
  show ?case
  proof (cases "f x y \<le> 0")
    case True
    have "f x z \<le> 0" if "z \<in> set ys" for z
      using three_way.cmp_trans [OF f, of x y z] True Cons.prems that by auto
    then show ?thesis using True Cons.prems by auto
  next
    case False
    obtain zs where zs: "insort_res cmp x ys = Inr zs" "mset zs = add_mset x (mset ys)" "sorted_by f zs" using Cons by auto
    have "f y x \<le> 0" using False three_way.cmp_total [OF f, of x y] Cons.prems by auto
    then have "f y z \<le> 0" if "z \<in> set zs" for z
      using that mset_eq_setD [of zs "x # ys"] zs(2) Cons.prems(1) by auto
    then show ?thesis using False zs Cons.prems by auto
  qed
qed simp

lemma isort_res_qsort_spec: "qsort_spec isort_res"
  unfolding qsort_spec_def
proof (intro allI impI)
  fix cmp :: "bytes \<Rightarrow> bytes \<Rightarrow> int res" and f ok and xs :: "bytes list"
  assume f: "three_way f ok" and "\<forall>x \<in> set xs. ok x" and "\<forall>x \<in> set xs. \<forall>y \<in> set xs. cmp x y = Inr (f x y)"
  then show "\<exists>ys. isort_res cmp xs = Inr ys \<and> mset ys = mset xs \<and> sorted_by f ys"
  proof (induction xs)
    case (Cons x xs)
    then obtain ys where ys: "isort_res cmp xs = Inr ys" "mset ys = mset xs" "sorted_by f ys" by auto
    have "set ys = set xs" using ys(2) by (rule mset_eq_setD)
    then show ?case using insort_res_spec [OF f ys(3), of x cmp] Cons.prems ys by auto
  qed simp
qed


end
