(* ===== verification/Merge_Sort.thy ===== *)
theory Merge_Sort
  imports Sort_Library
begin

text \<open>
  \<^verbatim>\<open>a2/msort.cc\<close>: external merge sort. The loops that the code could run forever are partial functions
  (\<open>None\<close>: no result), with the \<^verbatim>\<open>int\<close> arithmetic of the passes checked; \<open>sort_file_spec\<close> shows that they end
  and that the output is a sorted permutation of the input. Reading the JSON schema file is the JSON
  library's; the model starts from the list of fields.
\<close>

section \<open>Model\<close>

definition chk :: "int \<Rightarrow> int res" where
  "chk i = (if int32_range i then Inr i else Inl Int_overflow)"

text \<open>\<^verbatim>\<open>it->has_next() ? it->next() : NULL\<close>.\<close>

definition advance :: "RunIterator \<Rightarrow> cfile \<Rightarrow> (bytes option \<times> RunIterator \<times> cfile) res" where
  "advance it fp =
     (if run_has_next it then bindR (run_next it fp) (\<lambda>(r, it, fp). Inr (Some r, it, fp)) else Inr (None, it, fp))"

fun first_recs :: "RunIterator list \<Rightarrow> cfile \<Rightarrow> (bytes option list \<times> RunIterator list \<times> cfile) res" where
  "first_recs [] fp = Inr ([], [], fp)"
| "first_recs (it # its) fp =
     bindR (advance it fp) (\<lambda>(b, it, fp).
     bindR (first_recs its fp) (\<lambda>(bs, its, fp). Inr (b # bs, it # its, fp)))"

text \<open>The loop that looks for the smallest of the buffered records; \<open>None\<close>: none found yet.\<close>

fun find_min :: "(bytes \<Rightarrow> bytes \<Rightarrow> bool res) \<Rightarrow> bytes option list \<Rightarrow> nat \<Rightarrow> (bytes \<times> nat) option \<Rightarrow> (bytes \<times> nat) option res" where
  "find_min lt [] i best = Inr best"
| "find_min lt (None # buf) i best = find_min lt buf (Suc i) best"
| "find_min lt (Some r # buf) i None = find_min lt buf (Suc i) (Some (r, i))"
| "find_min lt (Some r # buf) i (Some (m, j)) =
     bindR (lt r m) (\<lambda>b. find_min lt buf (Suc i) (if b then Some (r, i) else Some (m, j)))"

record merge_state =
  ms_buf :: "bytes option list"
  ms_its :: "RunIterator list"
  ms_in :: cfile
  ms_out :: cfile

definition merge_step :: "(bytes \<Rightarrow> bytes \<Rightarrow> bool res) \<Rightarrow> merge_state \<Rightarrow> merge_state res" where
  "merge_step lt st =
     bindR (find_min lt (ms_buf st) 0 None) (\<lambda>best.
     case best of
       None \<Rightarrow> Inl Null_deref
     | Some (min_rec, min_idx) \<Rightarrow>
         bindR (advance (ms_its st ! min_idx) (ms_in st)) (\<lambda>(b, it, fp).
         Inr \<lparr>ms_buf = (ms_buf st)[min_idx := b], ms_its = (ms_its st)[min_idx := it], ms_in = fp,
              ms_out = fwrite (ms_out st) min_rec\<rparr>))"

partial_function (option) merge_loop :: "(bytes \<Rightarrow> bytes \<Rightarrow> bool res) \<Rightarrow> merge_state \<Rightarrow> merge_state res option" where
  "merge_loop lt st =
     (if \<exists>b \<in> set (ms_buf st). b \<noteq> None
      then (case merge_step lt st of Inl e \<Rightarrow> Some (Inl e) | Inr st \<Rightarrow> merge_loop lt st)
      else Some (Inr st))"

definition kway_merge :: "(bytes \<Rightarrow> bytes \<Rightarrow> bool res) \<Rightarrow> RunIterator list \<Rightarrow> cfile \<Rightarrow> cfile \<Rightarrow> (cfile \<times> cfile) res option" where
  "kway_merge lt iterators in_fp fp =
     (case first_recs iterators in_fp of
        Inl e \<Rightarrow> Some (Inl e)
      | Inr (buf, its, in_fp) \<Rightarrow>
          map_option (\<lambda>r. bindR r (\<lambda>st. Inr (ms_in st, ms_out st)))
            (merge_loop lt \<lparr>ms_buf = buf, ms_its = its, ms_in = in_fp, ms_out = fp\<rparr>))"

text \<open>
  The \<open>k\<close> iterators of one group, from \<open>i\<close> on; \<open>unprocessed\<close> counts the records not yet given to one.
\<close>

fun mk_iterators :: "bytes \<Rightarrow> Schema \<Rightarrow> int \<Rightarrow> int \<Rightarrow> int \<Rightarrow> nat \<Rightarrow> int \<Rightarrow> int \<Rightarrow> (RunIterator list \<times> int) res" where
  "mk_iterators junk schema bsize n offset 0 i unprocessed = Inr ([], unprocessed)"
| "mk_iterators junk schema bsize n offset (Suc m) i unprocessed =
     (let len = (if unprocessed < n then unprocessed mod n else n);
          unprocessed = (if unprocessed < n then n else unprocessed) in
      bindR (chk (i * n)) (\<lambda>d.
      bindR (chk (offset + d)) (\<lambda>start.
      bindR (mk_RunIterator junk start len bsize schema) (\<lambda>it.
      bindR (mk_iterators junk schema bsize n offset m (i + 1) (unprocessed - n)) (\<lambda>(its, unprocessed).
      Inr (it # its, unprocessed))))))"

definition merge_group ::
  "bytes \<Rightarrow> (bytes \<Rightarrow> bytes \<Rightarrow> bool res) \<Rightarrow> Schema \<Rightarrow> int \<Rightarrow> int \<Rightarrow> int \<Rightarrow> int \<times> int \<times> cfile \<times> cfile \<Rightarrow> (int \<times> int \<times> cfile \<times> cfile) res option" where
  "merge_group junk lt schema bsize n k s = (case s of (offset, unprocessed, in_fp, out_fp) \<Rightarrow>
     (case mk_iterators junk schema bsize n offset (nat k) 0 unprocessed of
        Inl e \<Rightarrow> Some (Inl e)
      | Inr (its, unprocessed) \<Rightarrow>
          map_option (\<lambda>r.
            bindR r (\<lambda>(in_fp, out_fp).
            bindR (chk (n * k)) (\<lambda>nk.
            bindR (chk (offset + nk)) (\<lambda>offset. Inr (offset, unprocessed, in_fp, out_fp)))))
            (kway_merge lt its in_fp out_fp)))"

partial_function (option) merge_groups ::
  "bytes \<Rightarrow> (bytes \<Rightarrow> bytes \<Rightarrow> bool res) \<Rightarrow> Schema \<Rightarrow> int \<Rightarrow> int \<Rightarrow> int \<Rightarrow> int \<Rightarrow> int \<times> int \<times> cfile \<times> cfile \<Rightarrow> (cfile \<times> cfile) res option" where
  "merge_groups junk lt schema bsize num_records n k s =
     (if fst s < num_records
      then (case merge_group junk lt schema bsize n k s of
          None \<Rightarrow> None
        | Some res \<Rightarrow> (case res of Inl e \<Rightarrow> Some (Inl e)
            | Inr s \<Rightarrow> merge_groups junk lt schema bsize num_records n k s))
      else Some (Inr (snd (snd s))))"

text \<open>The passes: each reads one temporary file and overwrites the other, then the two are swapped.\<close>

partial_function (option) merge_passes ::
  "bytes \<Rightarrow> (bytes \<Rightarrow> bytes \<Rightarrow> bool res) \<Rightarrow> Schema \<Rightarrow> int \<Rightarrow> int \<Rightarrow> int \<Rightarrow> int \<Rightarrow> cfile \<Rightarrow> cfile \<Rightarrow> cfile res option" where
  "merge_passes junk lt schema bsize num_records k n tmp_in tmp_out =
     (case chk (num_records * k) of Inl e \<Rightarrow> Some (Inl e)
      | Inr bound \<Rightarrow>
          if n < bound
          then (case merge_groups junk lt schema bsize num_records n k (0, num_records, tmp_in, tmp_out) of
              None \<Rightarrow> None
            | Some res \<Rightarrow> (case res of Inl e \<Rightarrow> Some (Inl e)
                | Inr fs \<Rightarrow> (case chk (n * k) of Inl e \<Rightarrow> Some (Inl e)
                    | Inr n' \<Rightarrow> merge_passes junk lt schema bsize num_records k n'
                        (rewind (snd fs)) (rewind (fst fs)))))
          else Some (Inr tmp_in))"

text \<open>
  \<^verbatim>\<open>main\<close>: \<open>flds\<close> is what the JSON reader makes of the schema file (\<open>None\<close>: it does not parse), \<open>inp\<close> the
  input file and \<open>tmp1\<close>, \<open>tmp2\<close> the temporary files as they open. The result is the output file.
\<close>

definition empty_schema :: Schema where
  "empty_schema = \<lparr>attrs = [], sort_attrs = [], data_offset = [], record_size = 0\<rparr>"

definition read_schema :: "attr_type \<Rightarrow> (bytes \<times> bytes \<times> int) list \<Rightarrow> bytes \<Rightarrow> Schema res" where
  "read_schema junk flds sorting =
     bindR (add_fields junk flds 0 empty_schema) (\<lambda>schema.
     set_schema_sort_attr (schema\<lparr>record_size := sum_record_size schema mod 2 ^ 64\<rparr>) sorting)"

definition sort_file ::
  "atof_fn \<Rightarrow> qsort_fn \<Rightarrow> stacks \<Rightarrow> bytes \<Rightarrow> RecordComparator \<Rightarrow> Schema \<Rightarrow> int \<Rightarrow> int \<Rightarrow> cfile \<Rightarrow> cfile \<Rightarrow> cfile \<Rightarrow> bytes res option" where
  "sort_file atof qsort stack junk rc schema mem_capacity k in_fp tmp1 tmp2 =
     (if record_size schema = 0 then Some (Inl Div_by_zero) else
      let run_len = mem_capacity div record_size schema in
     (case mk_runs qsort (qsort_cmp atof rc stack) in_fp tmp1 run_len schema of Inl e \<Rightarrow> Some (Inl e)
      | Inr (num_records, in_fp, tmp1) \<Rightarrow>
     (case chk (k + 1) of Inl e \<Rightarrow> Some (Inl e)
      | Inr k1 \<Rightarrow>
          map_option (\<lambda>r. bindR r (\<lambda>f. Inr (fcontents f)))
            (merge_passes junk (record_less atof rc stack) schema (to_s32 (mem_capacity div k1)) num_records k
               (to_s32 run_len) tmp1 tmp2))))"

definition msort_main ::
  "atof_fn \<Rightarrow> qsort_fn \<Rightarrow> stacks \<Rightarrow> bytes \<Rightarrow> attr_type \<Rightarrow> bytes list \<Rightarrow> (bytes \<times> bytes \<times> int) list option \<Rightarrow>
   cfile option \<Rightarrow> cfile option \<Rightarrow> cfile option \<Rightarrow> bytes res option" where
  "msort_main atof qsort stack junk jtype argv flds inp tmp1 tmp2 =
     (if length argv < 7 then Some (Inl Exit_1)
      else let mem_capacity = strtol10 (argv ! 4); k = atoi (argv ! 5) in
      if \<not> 0 < mem_capacity \<or> \<not> 1 < k then Some (Inl Assert_failed)
      else (case flds of None \<Rightarrow> Some (Inl Exit_1)
        | Some fs \<Rightarrow>
           (case read_schema jtype fs (argv ! 6) of Inl e \<Rightarrow> Some (Inl e)
            | Inr schema \<Rightarrow>
           (case mk_RecordComparator schema of Inl e \<Rightarrow> Some (Inl e)
            | Inr rc \<Rightarrow>
                (case (inp, tmp1, tmp2) of
                   (Some in_fp, Some t1, Some t2) \<Rightarrow> sort_file atof qsort stack junk rc schema mem_capacity k in_fp t1 t2
                 | _ \<Rightarrow> Some (Inl Exit_1))))))"


section \<open>Writing over a file\<close>

text \<open>The bytes \<open>ws\<close> have been written from the start of a file that held \<open>F\<close>.\<close>

definition wrote :: "bytes \<Rightarrow> bytes \<Rightarrow> cfile \<Rightarrow> bool" where
  "wrote F ws f \<longleftrightarrow> fpos f = length ws \<and> fcontents f = ws @ drop (length ws) F"

lemma wrote_fwrite: "wrote F ws f \<Longrightarrow> wrote F (ws @ bs) (fwrite f bs)"
  by (simp add: wrote_def fwrite_def blit_def add.commute)

lemma wrote_all: "wrote F ws f \<Longrightarrow> length F \<le> length ws \<Longrightarrow> fcontents f = ws"
  by (simp add: wrote_def)

lemma wrote_rewind: "wrote (fcontents f) [] (rewind f)"
  by (simp add: wrote_def rewind_def)

section \<open>Merging\<close>

lemma advance_spec:
  assumes "it_ok sz R it" and "recs sz R" and "fcontents fp = concat R"
  shows "\<exists>b it' fp'. advance it fp = Inr (b, it', fp') \<and> it_ok sz R it' \<and> fcontents fp' = concat R
    \<and> (case b of None \<Rightarrow> it_rest R it = [] | Some r \<Rightarrow> it_rest R it = r # it_rest R it')"
proof (cases "run_has_next it")
  case True
  then show ?thesis using it_next [OF assms True] by (auto simp: advance_def)
next
  case False
  then show ?thesis using it_done [OF assms(1) False] assms by (auto simp: advance_def)
qed

text \<open>The state of a merge and the lists of records still to be merged.\<close>

definition slot_ok :: "nat \<Rightarrow> bytes list \<Rightarrow> bytes option \<Rightarrow> RunIterator \<Rightarrow> bytes list \<Rightarrow> bool" where
  "slot_ok sz R b it rs \<longleftrightarrow> it_ok sz R it \<and> (case b of None \<Rightarrow> rs = [] | Some r \<Rightarrow> rs = r # it_rest R it)"

definition ms_ok :: "nat \<Rightarrow> bytes list \<Rightarrow> merge_state \<Rightarrow> bytes list list \<Rightarrow> bool" where
  "ms_ok sz R st rss \<longleftrightarrow> length (ms_buf st) = length rss \<and> length (ms_its st) = length rss \<and> fcontents (ms_in st) = concat R
     \<and> (\<forall>i < length rss. slot_ok sz R (ms_buf st ! i) (ms_its st ! i) (rss ! i))"

lemma first_recs_spec:
  assumes "\<forall>it \<in> set its. it_ok sz R it" and "recs sz R" and "fcontents fp = concat R"
  shows "\<exists>buf its' fp'. first_recs its fp = Inr (buf, its', fp')
    \<and> ms_ok sz R \<lparr>ms_buf = buf, ms_its = its', ms_in = fp', ms_out = out\<rparr> (map (it_rest R) its)"
  using assms
proof (induction its arbitrary: fp)
  case Nil
  then show ?case by (simp add: ms_ok_def)
next
  case (Cons it its)
  have ok: "it_ok sz R it" using Cons.prems(1) by simp
  obtain b it' fp' where a: "advance it fp = Inr (b, it', fp')" "it_ok sz R it'" "fcontents fp' = concat R"
    "case b of None \<Rightarrow> it_rest R it = [] | Some r \<Rightarrow> it_rest R it = r # it_rest R it'"
    using advance_spec [OF ok Cons.prems(2,3)] by blast
  obtain buf its' fp'' where i: "first_recs its fp' = Inr (buf, its', fp'')"
    "ms_ok sz R \<lparr>ms_buf = buf, ms_its = its', ms_in = fp'', ms_out = out\<rparr> (map (it_rest R) its)"
    using Cons.IH [OF _ Cons.prems(2) a(3)] Cons.prems(1) by auto
  have "slot_ok sz R b it' (it_rest R it)" using a by (simp add: slot_ok_def)
  then show ?case using a(1) i by (auto simp: ms_ok_def nth_Cons split: nat.split)
qed

text \<open>The search for the smallest buffered record.\<close>

lemma find_min_best:
  assumes f: "three_way f ok" and lt: "\<And>a b. a \<in> A \<Longrightarrow> b \<in> A \<Longrightarrow> lt a b = Inr (f a b < 0)" and A: "\<forall>a \<in> A. ok a"
    and "m \<in> A" and "\<forall>r. Some r \<in> set buf \<longrightarrow> r \<in> A"
  shows "\<exists>m' j'. find_min lt buf i (Some (m, j)) = Inr (Some (m', j')) \<and> m' \<in> A \<and> f m' m \<le> 0 \<and> (\<forall>r. Some r \<in> set buf \<longrightarrow> f m' r \<le> 0)
    \<and> ((m', j') = (m, j) \<or> i \<le> j' \<and> j' < i + length buf \<and> buf ! (j' - i) = Some m')"
  using assms(4,5)
proof (induction buf arbitrary: i m j)
  case Nil
  then show ?case using three_way.cmp_refl [OF f] A by auto
next
  case (Cons b buf)
  show ?case
  proof (cases b)
    case None
    obtain m' j' where "find_min lt buf (Suc i) (Some (m, j)) = Inr (Some (m', j'))" "m' \<in> A" "f m' m \<le> 0"
      "\<forall>r. Some r \<in> set buf \<longrightarrow> f m' r \<le> 0"
      "(m', j') = (m, j) \<or> Suc i \<le> j' \<and> j' < Suc i + length buf \<and> buf ! (j' - Suc i) = Some m'"
      using Cons.IH [of m "Suc i" j] Cons.prems by auto
    then show ?thesis using None by (intro exI [of _ m'] exI [of _ j']) (auto simp: nth_Cons')
  next
    case (Some r)
    have r: "r \<in> A" "ok r" "ok m" using Cons.prems Some A by auto
    let ?m = "if f r m < 0 then r else m" and ?j = "if f r m < 0 then i else j"
    obtain m' j' where h: "find_min lt buf (Suc i) (Some (?m, ?j)) = Inr (Some (m', j'))" "m' \<in> A" "f m' ?m \<le> 0"
      "\<forall>r. Some r \<in> set buf \<longrightarrow> f m' r \<le> 0"
      "(m', j') = (?m, ?j) \<or> Suc i \<le> j' \<and> j' < Suc i + length buf \<and> buf ! (j' - Suc i) = Some m'"
    proof -
      have "?m \<in> A" "\<forall>r. Some r \<in> set buf \<longrightarrow> r \<in> A" using Cons.prems r by auto
      from Cons.IH [OF this, of "Suc i" ?j] show thesis using that by blast
    qed
    have ok: "ok m'" using h(2) A by blast
    have "f ?m r \<le> 0" "f ?m m \<le> 0"
      using three_way.cmp_refl [OF f] three_way.cmp_not_le [OF f, of r m] r by auto
    then have "f m' r \<le> 0" "f m' m \<le> 0"
      using three_way.cmp_trans [OF f ok _ _ h(3)] r by (auto split: if_splits)
    moreover have "find_min lt (b # buf) i (Some (m, j)) = Inr (Some (m', j'))"
      using h(1) lt [OF r(1) Cons.prems(1)] Some by (auto split: if_splits)
    ultimately show ?thesis using h(2,4,5) Some
      by (intro exI [of _ m'] exI [of _ j']) (auto simp: nth_Cons' split: if_splits)
  qed
qed

lemma find_min_spec:
  assumes f: "three_way f ok" and lt: "\<And>a b. a \<in> A \<Longrightarrow> b \<in> A \<Longrightarrow> lt a b = Inr (f a b < 0)" and A: "\<forall>a \<in> A. ok a"
    and "\<exists>b \<in> set buf. b \<noteq> None" and "\<forall>r. Some r \<in> set buf \<longrightarrow> r \<in> A"
  shows "\<exists>m j. find_min lt buf i None = Inr (Some (m, i + j)) \<and> j < length buf \<and> buf ! j = Some m \<and> (\<forall>r. Some r \<in> set buf \<longrightarrow> f m r \<le> 0)"
  using assms(4,5)
proof (induction buf arbitrary: i)
  case (Cons b buf)
  show ?case
  proof (cases b)
    case None
    then obtain m j where "find_min lt buf (Suc i) None = Inr (Some (m, Suc i + j))" "j < length buf" "buf ! j = Some m"
      "\<forall>r. Some r \<in> set buf \<longrightarrow> f m r \<le> 0" using Cons.IH [of "Suc i"] Cons.prems by auto
    then show ?thesis using None by (intro exI [of _ m] exI [of _ "Suc j"]) auto
  next
    case (Some r)
    then have r: "r \<in> A" using Cons.prems by auto
    obtain m j where h: "find_min lt buf (Suc i) (Some (r, i)) = Inr (Some (m, j))" "m \<in> A" "f m r \<le> 0" "\<forall>r. Some r \<in> set buf \<longrightarrow> f m r \<le> 0"
      "(m, j) = (r, i) \<or> Suc i \<le> j \<and> j < Suc i + length buf \<and> buf ! (j - Suc i) = Some m"
      using find_min_best [OF f lt A r, of buf "Suc i" i] Cons.prems by auto
    have "i \<le> j" using h(5) by auto
    moreover have "j - i < length (b # buf)" "(b # buf) ! (j - i) = Some m"
      using h(5) Some by (auto simp: nth_Cons' Suc_diff_le)
    ultimately show ?thesis using h(1,3,4) Some by (intro exI [of _ m] exI [of _ "j - i"]) auto
  qed
qed simp

lemma merge_step_spec:
  assumes f: "three_way f ok" and lt: "\<And>a b. a \<in> set R \<Longrightarrow> b \<in> set R \<Longrightarrow> lt a b = Inr (f a b < 0)" and okR: "\<forall>a \<in> set R. ok a"
    and R: "recs sz R" and st: "ms_ok sz R st rss" and sub: "\<forall>rs \<in> set rss. set rs \<subseteq> set R" and ne: "\<exists>b \<in> set (ms_buf st). b \<noteq> None"
  shows "\<exists>j r rs st'. j < length rss \<and> rss ! j = r # rs \<and> merge_step lt st = Inr st' \<and> ms_ok sz R st' (rss[j := rs])
    \<and> ms_out st' = fwrite (ms_out st) r \<and> (\<forall>i < length rss. rss ! i \<noteq> [] \<longrightarrow> f r (hd (rss ! i)) \<le> 0)"
proof -
  have len: "length (ms_buf st) = length rss" "length (ms_its st) = length rss" and fp: "fcontents (ms_in st) = concat R"
    and sl: "\<And>i. i < length rss \<Longrightarrow> slot_ok sz R (ms_buf st ! i) (ms_its st ! i) (rss ! i)" using st by (auto simp: ms_ok_def)
  have inR: "\<forall>r. Some r \<in> set (ms_buf st) \<longrightarrow> r \<in> set R"
  proof (intro allI impI)
    fix r assume "Some r \<in> set (ms_buf st)"
    then obtain i where i: "i < length rss" "ms_buf st ! i = Some r" using len by (metis in_set_conv_nth)
    then have "r \<in> set (rss ! i)" using sl [OF i(1)] by (simp add: slot_ok_def)
    then show "r \<in> set R" using sub i(1) by (meson nth_mem subsetD)
  qed
  obtain r j where m: "find_min lt (ms_buf st) 0 None = Inr (Some (r, 0 + j))" "j < length (ms_buf st)" "ms_buf st ! j = Some r"
    "\<forall>x. Some x \<in> set (ms_buf st) \<longrightarrow> f r x \<le> 0" using find_min_spec [OF f lt okR ne inR, of 0] by blast
  have j: "j < length rss" using m(2) len by simp
  have it: "it_ok sz R (ms_its st ! j)" "rss ! j = r # it_rest R (ms_its st ! j)" using sl [OF j] m(3) by (auto simp: slot_ok_def)
  obtain b it' fp' where a: "advance (ms_its st ! j) (ms_in st) = Inr (b, it', fp')" "it_ok sz R it'" "fcontents fp' = concat R"
    "case b of None \<Rightarrow> it_rest R (ms_its st ! j) = [] | Some x \<Rightarrow> it_rest R (ms_its st ! j) = x # it_rest R it'"
    using advance_spec [OF it(1) R fp] by blast
  let ?st = "\<lparr>ms_buf = (ms_buf st)[j := b], ms_its = (ms_its st)[j := it'], ms_in = fp', ms_out = fwrite (ms_out st) r\<rparr>"
  let ?rs = "it_rest R (ms_its st ! j)"
  have "merge_step lt st = Inr ?st" using m(1) a(1) by (simp add: merge_step_def)
  moreover have "ms_ok sz R ?st (rss[j := ?rs])"
    using len a(2-4) sl j by (auto simp: ms_ok_def nth_list_update slot_ok_def)
  moreover have "f r (hd (rss ! i)) \<le> 0" if i: "i < length rss" "rss ! i \<noteq> []" for i
  proof -
    obtain x where "ms_buf st ! i = Some x" "hd (rss ! i) = x" using sl [OF i(1)] i(2) by (auto simp: slot_ok_def split: option.splits)
    then show ?thesis using m(4) len i(1) by (metis nth_mem)
  qed
  ultimately show ?thesis using j it(2) by (intro exI [of _ j] exI [of _ r] exI [of _ ?rs] exI [of _ ?st]) simp
qed

lemma mset_concat_update:
  "j < length rss \<Longrightarrow> rss ! j = r # rs \<Longrightarrow> mset (concat rss) = add_mset r (mset (concat (rss[j := rs])))"
proof (induction rss arbitrary: j)
  case (Cons a rss)
  then show ?case by (cases j) auto
qed simp

lemma merge_loop_spec:
  assumes f: "three_way f ok" and lt: "\<And>a b. a \<in> set R \<Longrightarrow> b \<in> set R \<Longrightarrow> lt a b = Inr (f a b < 0)" and okR: "\<forall>a \<in> set R. ok a"
    and R: "recs sz R"
  shows "ms_ok sz R st rss \<Longrightarrow> \<forall>rs \<in> set rss. set rs \<subseteq> set R \<Longrightarrow> wrote F ws (ms_out st) \<Longrightarrow> \<forall>rs \<in> set rss. sorted_by f rs \<Longrightarrow>
    \<exists>st' ys. merge_loop lt st = Some (Inr st') \<and> fcontents (ms_in st') = concat R \<and> wrote F (ws @ concat ys) (ms_out st')
      \<and> mset ys = mset (concat rss) \<and> sorted_by f ys"
proof (induction "length (concat rss)" arbitrary: st rss ws)
  case 0
  then have "\<forall>rs \<in> set rss. rs = []" by simp
  then have e: "rss ! i = []" if "i < length rss" for i using that by simp
  have "ms_buf st ! i = None" if i: "i < length rss" for i
    using 0(2) i e [OF i] by (cases "ms_buf st ! i") (auto simp: ms_ok_def slot_ok_def)
  moreover have "length (ms_buf st) = length rss" using 0(2) by (simp add: ms_ok_def)
  ultimately have "\<forall>b \<in> set (ms_buf st). b = None" by (simp add: all_set_conv_all_nth)
  then have "merge_loop lt st = Some (Inr st)" by (subst merge_loop.simps) simp
  then show ?case using 0 by (intro exI [of _ st] exI [of _ "[]"]) (simp add: ms_ok_def)
next
  case (Suc n)
  have ne: "\<exists>b \<in> set (ms_buf st). b \<noteq> None"
  proof (rule ccontr)
    assume none: "\<not> (\<exists>b \<in> set (ms_buf st). b \<noteq> None)"
    have "rs = []" if "rs \<in> set rss" for rs
    proof -
      obtain i where i: "i < length rss" "rss ! i = rs" using \<open>rs \<in> set rss\<close> by (meson in_set_conv_nth)
      then have "ms_buf st ! i = None" using none Suc.prems(1) by (metis ms_ok_def nth_mem)
      then show ?thesis using Suc.prems(1) i by (auto simp: ms_ok_def slot_ok_def)
    qed
    then have "length (concat rss) = 0" by simp
    then show False using Suc.hyps(2) by linarith
  qed
  obtain j r rs st1 where s: "j < length rss" "rss ! j = r # rs" "merge_step lt st = Inr st1" "ms_ok sz R st1 (rss[j := rs])"
    "ms_out st1 = fwrite (ms_out st) r" "\<And>i. i < length rss \<Longrightarrow> rss ! i \<noteq> [] \<Longrightarrow> f r (hd (rss ! i)) \<le> 0"
    using merge_step_spec [OF f lt okR R Suc.prems(1,2) ne] by blast
  have sub: "\<forall>x \<in> set (rss[j := rs]). set x \<subseteq> set R \<and> sorted_by f x"
  proof
    fix x assume "x \<in> set (rss[j := rs])"
    then have "x = rs \<or> x \<in> set rss" using set_update_subset_insert [of rss j rs] by auto
    moreover have "set (r # rs) \<subseteq> set R" "sorted_by f (r # rs)" using Suc.prems(2,4) s(1,2) by (metis nth_mem)+
    ultimately show "set x \<subseteq> set R \<and> sorted_by f x" using Suc.prems(2,4) by auto
  qed
  have mc: "mset (concat rss) = add_mset r (mset (concat (rss[j := rs])))" using mset_concat_update [OF s(1,2)] .
  have "n = length (concat (rss[j := rs]))"
    using arg_cong [OF mc, of size] Suc.hyps(2) unfolding size_add_mset size_mset by linarith
  moreover have "wrote F (ws @ r) (ms_out st1)" using wrote_fwrite [OF Suc.prems(3)] s(5) by simp
  ultimately obtain st' ys where i: "merge_loop lt st1 = Some (Inr st')" "fcontents (ms_in st') = concat R"
    "wrote F ((ws @ r) @ concat ys) (ms_out st')" "mset ys = mset (concat (rss[j := rs]))" "sorted_by f ys"
    using Suc.hyps(1) [of "rss[j := rs]" st1 "ws @ r"] s(4) sub by blast
  have "f r y \<le> 0" if y: "y \<in> set ys" for y
  proof -
    have "y \<in> set (concat (rss[j := rs]))" using i(4) y by (metis set_mset_mset)
    then have "y \<in> set (concat rss)" using mc by (metis insert_iff set_mset_add_mset_insert set_mset_mset)
    then obtain x where "x \<in> set rss" "y \<in> set x" by auto
    then obtain i where i: "i < length rss" "y \<in> set (rss ! i)" by (metis in_set_conv_nth)
    then have ne: "rss ! i \<noteq> []" by auto
    then obtain h t where ht: "rss ! i = h # t" by (cases "rss ! i") auto
    have so: "sorted_by f (rss ! i)" "set (rss ! i) \<subseteq> set R" using Suc.prems(2,4) i(1) by auto
    have rh: "f r h \<le> 0" using s(6) [OF i(1) ne] ht by simp
    have "set (rss ! j) \<subseteq> set R" using Suc.prems(2) s(1) by simp
    then have "ok r" "ok h" "ok y" using okR so(2) ht i(2) s(2) by auto
    moreover have "y = h \<or> f h y \<le> 0" using so(1) ht i(2) by auto
    ultimately show ?thesis using rh three_way.cmp_trans [OF f, of r h y] by auto
  qed
  then have "sorted_by f (r # ys)" using i(5) by simp
  moreover have "mset (r # ys) = mset (concat rss)" using mc i(4) by simp
  moreover have "merge_loop lt st = Some (Inr st')" using ne s(3) i(1) by (subst merge_loop.simps) simp
  ultimately show ?case using i(2,3) by (intro exI [of _ st'] exI [of _ "r # ys"]) simp
qed

lemma kway_merge_spec:
  assumes "three_way f ok" and "\<And>a b. a \<in> set R \<Longrightarrow> b \<in> set R \<Longrightarrow> lt a b = Inr (f a b < 0)" and "\<forall>a \<in> set R. ok a"
    and "recs sz R" and its: "\<forall>it \<in> set its. it_ok sz R it \<and> sorted_by f (it_rest R it)" and "fcontents inp = concat R" and "wrote F ws out"
  shows "\<exists>inp' out' ys. kway_merge lt its inp out = Some (Inr (inp', out')) \<and> fcontents inp' = concat R \<and> wrote F (ws @ concat ys) out'
    \<and> mset ys = mset (concat (map (it_rest R) its)) \<and> sorted_by f ys"
proof -
  obtain buf its' fp where fr: "first_recs its inp = Inr (buf, its', fp)"
    "ms_ok sz R \<lparr>ms_buf = buf, ms_its = its', ms_in = fp, ms_out = out\<rparr> (map (it_rest R) its)"
    using first_recs_spec [of its sz R inp out] assms by blast
  have "set (it_rest R it) \<subseteq> set R" for it by (auto simp: it_rest_def dest: in_set_takeD in_set_dropD)
  then have "\<exists>st' ys. merge_loop lt \<lparr>ms_buf = buf, ms_its = its', ms_in = fp, ms_out = out\<rparr> = Some (Inr st')
      \<and> fcontents (ms_in st') = concat R \<and> wrote F (ws @ concat ys) (ms_out st')
      \<and> mset ys = mset (concat (map (it_rest R) its)) \<and> sorted_by f ys"
    using assms its by (intro merge_loop_spec [OF assms(1-4) fr(2)]) auto
  then obtain st' ys where "merge_loop lt \<lparr>ms_buf = buf, ms_its = its', ms_in = fp, ms_out = out\<rparr> = Some (Inr st')"
    "fcontents (ms_in st') = concat R" "wrote F (ws @ concat ys) (ms_out st')"
    "mset ys = mset (concat (map (it_rest R) its))" "sorted_by f ys" by blast
  then show ?thesis using fr(1) by (intro exI [of _ "ms_in st'"] exI [of _ "ms_out st'"] exI [of _ ys]) (simp add: kway_merge_def)
qed


section \<open>The passes\<close>

lemma chk_ok [simp]: "int32_range i \<Longrightarrow> chk i = Inr i"
  by (simp add: chk_def)

lemma mk_iterators_spec:
  assumes sz: "record_size schema = int sz" "0 < sz" "int sz \<le> bsize" and n: "0 < n"
  shows "o' + (i + m) * n < 2 ^ 31 \<Longrightarrow> u = length R - (o' + i * n) \<Longrightarrow>
    \<exists>its. mk_iterators junk schema bsize (int n) (int o') m (int i) (int u) = Inr (its, int (u - m * n))
      \<and> (\<forall>it \<in> set its. it_ok sz R it) \<and> map (it_rest R) its = map (\<lambda>j. take n (drop (o' + (i + j) * n) R)) [0..<m]"
proof (induction m arbitrary: i u)
  case (Suc m)
  let ?s = "o' + i * n" and ?len = "min u n"
  have "u mod n = u" if "u < n" using that by simp
  then have len: "(if int u < int n then int u mod int n else int n) = int ?len" by (auto simp flip: zmod_int)
  have u': "(if int u < int n then int n else int u) - int n = int (u - n)" by (auto simp: of_nat_diff)
  have "i * n \<le> o' + (i + Suc m) * n" "?s \<le> o' + (i + Suc m) * n" by (simp_all add: algebra_simps)
  then have "i * n < 2 ^ 31" "?s < 2 ^ 31" using Suc.prems(1) by linarith+
  then have r: "chk (int i * int n) = Inr (int (i * n))" "chk (int o' + int (i * n)) = Inr (int ?s)"
    by (simp_all flip: of_nat_mult of_nat_add)
  have "?len = 0 \<or> ?s + ?len \<le> length R" using Suc.prems(2) by auto
  then obtain it where it: "mk_RunIterator junk (int ?s) (int ?len) bsize schema = Inr it" "it_ok sz R it" "it_rest R it = take ?len (drop ?s R)"
    using mk_RunIterator_spec [OF sz] by blast
  have rest: "it_rest R it = take n (drop ?s R)" unfolding it(3) using Suc.prems(2) by (auto simp: min_def)
  have "u - n = length R - (o' + Suc i * n)" using Suc.prems(2) by (simp add: algebra_simps)
  then obtain its where its: "mk_iterators junk schema bsize (int n) (int o') m (int (Suc i)) (int (u - n)) = Inr (its, int (u - n - m * n))"
    "\<forall>it \<in> set its. it_ok sz R it" "map (it_rest R) its = map (\<lambda>j. take n (drop (o' + (Suc i + j) * n) R)) [0..<m]"
    using Suc.IH [of "Suc i" "u - n"] Suc.prems(1) by (auto simp: algebra_simps)
  have "mk_iterators junk schema bsize (int n) (int o') (Suc m) (int i) (int u) = Inr (it # its, int (u - Suc m * n))"
    using r it(1) its(1) len u' by (simp add: Let_def add.commute del: of_nat_mult of_nat_add)
  moreover have "map (\<lambda>j. take n (drop (o' + (i + j) * n) R)) [0..<Suc m] =
      take n (drop ?s R) # map (\<lambda>j. take n (drop (o' + (Suc i + j) * n) R)) [0..<m]"
    by (subst map_upt_Suc) simp
  ultimately show ?case using it(2) its rest by (intro exI [of _ "it # its"]) simp
qed simp

lemma concat_segments: "concat (map (\<lambda>j. take n (drop (s + j * n) R)) [0..<m]) = take (m * n) (drop s R)"
proof (induction m)
  case (Suc m)
  have "take (m * n + n) (drop s R) = take (m * n) (drop s R) @ take n (drop (s + m * n) R)"
    by (simp only: take_add drop_drop) (simp add: add.commute)
  moreover have "Suc m * n = m * n + n" by simp
  ultimately show ?case using Suc by (simp only: upt_Suc map_append concat_append) simp
qed simp

lemma merge_groups_spec:
  assumes f: "three_way f ok" and lt: "\<And>a b. a \<in> set R \<Longrightarrow> b \<in> set R \<Longrightarrow> lt a b = Inr (f a b < 0)" and okR: "\<forall>a \<in> set R. ok a"
    and R: "recs sz R" and sz: "record_size schema = int sz" "int sz \<le> bsize" and n: "0 < n" "0 < k"
    and seg: "seg_sorted f n R" and bound: "length R + n * k < 2 ^ 31"
  shows "o' = q * (n * k) \<Longrightarrow> fcontents inp = concat R \<Longrightarrow> wrote F ws out \<Longrightarrow>
    \<exists>inp' out' Y. merge_groups junk lt schema bsize (int (length R)) (int n) (int k) (int o', int (length R - o'), inp, out) = Some (Inr (inp', out'))
      \<and> fcontents inp' = concat R \<and> wrote F (ws @ concat Y) out' \<and> mset Y = mset (drop o' R) \<and> seg_sorted f (n * k) Y"
proof (induction "length R - o'" arbitrary: o' q inp out ws rule: less_induct)
  case less
  show ?case
  proof (cases "o' < length R")
    case False
    then have "merge_groups junk lt schema bsize (int (length R)) (int n) (int k) (int o', int (length R - o'), inp, out) = Some (Inr (inp, out))"
      by (subst merge_groups.simps) simp
    moreover have "wrote F (ws @ concat []) out" "mset [] = mset (drop o' R)" using less.prems(3) False by simp_all
    ultimately show ?thesis using less.prems(2) seg_sorted_Nil by blast
  next
    case True
    have sz0: "0 < sz" using R by (simp add: recs_def)
    have nk: "0 < n * k" using n by simp
    have "o' + (0 + k) * n < 2 ^ 31" using True bound by (simp add: mult.commute)
    then obtain its where its: "mk_iterators junk schema bsize (int n) (int o') k (int 0) (int (length R - o')) = Inr (its, int (length R - o' - k * n))"
      "\<forall>it \<in> set its. it_ok sz R it" "map (it_rest R) its = map (\<lambda>j. take n (drop (o' + (0 + j) * n) R)) [0..<k]"
      using mk_iterators_spec [OF sz(1) sz0 sz(2) n(1), of o' 0 k "length R - o'" R junk] by auto
    have "sorted_by f (take n (drop (o' + j * n) R))" for j
    proof -
      have "o' + j * n = (q * k + j) * n" using less.prems(1) by (simp add: algebra_simps)
      then show ?thesis using seg unfolding seg_sorted_def by metis
    qed
    then have "\<forall>r \<in> set (map (it_rest R) its). sorted_by f r" unfolding its(3) by auto
    then have so: "\<forall>it \<in> set its. it_ok sz R it \<and> sorted_by f (it_rest R it)" using its(2) by auto
    obtain inp1 out1 S where m: "kway_merge lt its inp out = Some (Inr (inp1, out1))" "fcontents inp1 = concat R" "wrote F (ws @ concat S) out1"
      "mset S = mset (concat (map (it_rest R) its))" "sorted_by f S"
      using kway_merge_spec [OF f lt okR R so less.prems(2,3)] by blast
    have S: "mset S = mset (take (k * n) (drop o' R))" using m(4) unfolding its(3) by (simp only: concat_segments add_0)
    have c: "chk (int n * int k) = Inr (int (n * k))" "chk (int o' + int (n * k)) = Inr (int (o' + n * k))"
      using True bound by (simp_all flip: of_nat_mult of_nat_add)
    have u: "length R - o' - k * n = length R - (o' + n * k)" by (simp add: mult.commute)
    have step: "merge_group junk lt schema bsize (int n) (int k) (int o', int (length R - o'), inp, out) =
        Some (Inr (int (o' + n * k), int (length R - (o' + n * k)), inp1, out1))"
      using its(1) m(1) c u by (simp add: merge_group_def del: of_nat_mult of_nat_add)
    have "length R - (o' + n * k) < length R - o'" using True nk by linarith
    moreover have "o' + n * k = Suc q * (n * k)" using less.prems(1) by simp
    ultimately obtain inp' out' Y where i: "merge_groups junk lt schema bsize (int (length R)) (int n) (int k)
        (int (o' + n * k), int (length R - (o' + n * k)), inp1, out1) = Some (Inr (inp', out'))"
      "fcontents inp' = concat R" "wrote F ((ws @ concat S) @ concat Y) out'" "mset Y = mset (drop (o' + n * k) R)" "seg_sorted f (n * k) Y"
      using less.hyps [of "o' + n * k" "Suc q" inp1 "ws @ concat S" out1] m(2,3) by blast
    have "merge_groups junk lt schema bsize (int (length R)) (int n) (int k) (int o', int (length R - o'), inp, out) = Some (Inr (inp', out'))"
      using True step i(1) by (subst merge_groups.simps) (simp del: of_nat_mult of_nat_add)
    moreover have "mset (S @ Y) = mset (drop o' R)"
    proof -
      have "mset (S @ Y) = mset (take (n * k) (drop o' R) @ drop (n * k) (drop o' R))"
        using S i(4) by (simp add: mult.commute add.commute)
      then show ?thesis by (simp only: append_take_drop_id)
    qed
    moreover have "seg_sorted f (n * k) (S @ Y)"
    proof (rule seg_sorted_append [OF m(5) i(5)])
      have l: "length S = min (n * k) (length R - o')" "length Y = length R - (o' + n * k)"
        using mset_eq_length [OF S] mset_eq_length [OF i(4)] by (simp_all add: mult.commute min.commute)
      show "length S = n * k \<or> length S \<le> n * k \<and> Y = []"
      proof (cases "n * k \<le> length R - o'")
        case False
        then have "length Y = 0" using l(2) by linarith
        then show ?thesis using l(1) False by simp
      qed (use l(1) in simp)
    qed
    moreover have "wrote F (ws @ concat (S @ Y)) out'" using i(3) by simp
    ultimately show ?thesis using i(2) by blast
  qed
qed

lemma merge_passes_spec:
  assumes f: "three_way f ok" and lt: "\<And>a b. length a = sz \<Longrightarrow> length b = sz \<Longrightarrow> lt a b = Inr (f a b < 0)"
    and sz: "record_size schema = int sz" "int sz \<le> bsize" and k: "1 < k" and bound: "l * k * k + l < 2 ^ 31"
  shows "length R = l \<Longrightarrow> recs sz R \<Longrightarrow> \<forall>a \<in> set R. ok a \<Longrightarrow> 0 < n \<Longrightarrow> seg_sorted f n R \<Longrightarrow> fcontents inp = concat R \<Longrightarrow>
    wrote F [] out \<Longrightarrow> length F \<le> length (concat R) \<Longrightarrow>
    \<exists>g R'. merge_passes junk lt schema bsize (int l) (int k) (int n) inp out = Some (Inr g)
      \<and> fcontents g = concat R' \<and> mset R' = mset R \<and> sorted_by f R'"
proof (induction "l * k - n" arbitrary: R n inp out F rule: less_induct)
  case less
  have "l * k \<le> l * k * k" using k by simp
  then have "l * k < 2 ^ 31" using bound by linarith
  then have c: "chk (int l * int k) = Inr (int (l * k))" by (simp flip: of_nat_mult)
  show ?case
  proof (cases "n < l * k")
    case False
    have "l \<le> l * k" using k by simp
    then have "length R \<le> n" using False less.prems(1) by linarith
    with less.prems(5) have "sorted_by f R" by (rule seg_sorted_all)
    moreover have "merge_passes junk lt schema bsize (int l) (int k) (int n) inp out = Some (Inr inp)"
      using c False by (subst merge_passes.simps) (simp del: of_nat_mult)
    ultimately show ?thesis using less.prems(6) by blast
  next
    case True
    have "n * k \<le> l * k * k" using True by (intro mult_le_mono1) simp
    then have nb: "length R + n * k < 2 ^ 31" using bound less.prems(1) by linarith
    have ltR: "\<And>a b. a \<in> set R \<Longrightarrow> b \<in> set R \<Longrightarrow> lt a b = Inr (f a b < 0)" using lt less.prems(2) by (simp add: recs_def)
    have k0: "0 < k" using k by simp
    obtain inp1 out1 Y where g: "merge_groups junk lt schema bsize (int l) (int n) (int k) (0, int l, inp, out) = Some (Inr (inp1, out1))"
      "fcontents inp1 = concat R" "wrote F ([] @ concat Y) out1" "mset Y = mset (drop 0 R)" "seg_sorted f (n * k) Y"
      using merge_groups_spec [OF f ltR less.prems(3,2) sz less.prems(4) k0 less.prems(5) nb _ less.prems(6,7), of 0 0 junk] less.prems(1) by auto
    have Y: "mset Y = mset R" "set Y = set R" "length Y = l" using g(4) less.prems(1) mset_eq_setD mset_eq_length by auto
    then have rY: "recs sz Y" using less.prems(2) by (simp add: recs_def)
    have lY: "length (concat Y) = length (concat R)"
      using length_concat_recs [OF rY] length_concat_recs [OF less.prems(2)] Y(3) less.prems(1) by simp
    have cY: "fcontents out1 = concat Y" using wrote_all [OF g(3)] less.prems(8) lY by simp
    have c2: "chk (int n * int k) = Inr (int (n * k))" using nb by (simp flip: of_nat_mult)
    have "n * k > n" using k less.prems(4) by simp
    then have "l * k - n * k < l * k - n" using True by linarith
    then obtain g' R' where i: "merge_passes junk lt schema bsize (int l) (int k) (int (n * k)) (rewind out1) (rewind inp1) = Some (Inr g')"
      "fcontents g' = concat R'" "mset R' = mset Y" "sorted_by f R'"
      using less.hyps [of "n * k" Y "rewind out1" "concat R" "rewind inp1"] Y rY less.prems(3,4) k0 g(2,5) cY lY wrote_rewind [of inp1]
      by (auto simp: rewind_def)
    have "merge_passes junk lt schema bsize (int l) (int k) (int n) inp out = Some (Inr g')"
      using c c2 True g(1) i(1) by (subst merge_passes.simps) (simp del: of_nat_mult)
    then show ?thesis using i Y(1) by auto
  qed
qed

text \<open>
  The whole sort: the output is a sorted permutation of the records of the input. The memory must hold
  \<open>k + 1\<close> records, and \<open>k\<close> and the number of records must keep the arithmetic of the passes in range.
\<close>

lemma sort_file_spec:
  assumes q: "qsort_spec qsort" and sch: "schema_ok schema" "lengths_match schema" "mk_RecordComparator schema = Inr rc" "record_size schema = int sz"
    and st: "\<And>i. 40 \<le> length (fst (stack i)) \<and> 40 \<le> length (snd (stack i))"
    and R: "recs sz R" "\<forall>r \<in> set R. rec_ok atof (sort_keys schema) r"
    and inp: "fcontents in_fp = concat R @ t" "length t < sz" "fpos in_fp = 0"
    and tmp: "tmp1 = \<lparr>fcontents = [], fpos = 0\<rparr>" "tmp2 = \<lparr>fcontents = [], fpos = 0\<rparr>"
    and k: "1 < k" and mem: "(k + 1) * sz \<le> mem" "mem < 2 ^ 31" and bound: "length R * k * k + length R < 2 ^ 31"
  shows "\<exists>R'. sort_file atof qsort stack junk rc schema (int mem) (int k) in_fp tmp1 tmp2 = Some (Inr (concat R'))
    \<and> mset R' = mset R \<and> sorted_by (key_cmp atof (sort_keys schema)) R'"
proof -
  let ?f = "key_cmp atof (sort_keys schema)" and ?ok = "rec_ok atof (sort_keys schema)"
  have tw: "three_way ?f ?ok" by (rule rec_order.three_way_axioms)
  have sz0: "0 < sz" using R(1) by (simp add: recs_def)
  have cmp: "qsort_cmp atof rc stack a b = Inr (?f a b)" "record_less atof rc stack a b = Inr (?f a b < 0)"
    if "length a = sz" "length b = sz" for a b
    using qsort_cmp_spec [OF sch(1-3) _ _ st] that sch(4) by simp_all
  let ?n = "mem div sz"
  have "sz \<le> mem" using mem(1) by (metis le_trans le_add2 mult_eq_if mult_Suc add.commute Suc_eq_plus1 le_add1)
  then have n: "0 < ?n" using sz0 by (simp add: div_greater_zero_iff)
  have "length R \<le> length R * k * k + length R" by simp
  then have lR: "length R < 2 ^ 31" using bound by linarith
  have "\<exists>inp' out' R'. mk_runs_loop qsort (qsort_cmp atof rc stack) sz ?n in_fp tmp1 0 = Inr (0 + int (length R), inp', out')
      \<and> fcontents out' = fcontents tmp1 @ concat R' \<and> fpos out' = length (fcontents out') \<and> mset R' = mset R \<and> seg_sorted ?f ?n R'"
    using inp R tmp lR cmp(1) by (intro mk_runs_loop_spec [OF q tw n]) auto
  then obtain inp' out' R1 where r: "mk_runs_loop qsort (qsort_cmp atof rc stack) sz ?n in_fp tmp1 0 = Inr (int (length R), inp', out')"
    "fcontents out' = concat R1" "mset R1 = mset R" "seg_sorted ?f ?n R1" using tmp by auto
  have R1: "set R1 = set R" "length R1 = length R" using r(3) mset_eq_setD mset_eq_length by blast+
  have kk: "length R * k * k + length R < 2 ^ 31" "k < mem"
  proof -
    have "(k + 1) * 1 \<le> (k + 1) * sz" using sz0 by (intro mult_le_mono2) simp
    then show "k < mem" using mem(1) by simp
  qed (rule bound)
  have c: "chk (int k + 1) = Inr (int k + 1)" using kk(2) mem(2) by simp
  have b: "int mem div (int k + 1) = int (mem div (k + 1))" by (simp add: zdiv_int add.commute)
  have "sz \<le> mem div (k + 1)" using mem(1) by (simp add: less_eq_div_iff_mult_less_eq mult.commute)
  moreover have "mem div (k + 1) < 2 ^ 31" using mem(2) div_le_dividend [of mem "k + 1"] by linarith
  ultimately have bs: "to_s32 (int (mem div (k + 1))) = int (mem div (k + 1))" "int sz \<le> int (mem div (k + 1))"
    by (auto intro!: to_s32_id)
  have "?n < 2 ^ 31" using mem(2) div_le_dividend [of mem sz] by linarith
  then have nn: "to_s32 (int ?n) = int ?n" by (intro to_s32_id) auto
  have "\<exists>g R'. merge_passes junk (record_less atof rc stack) schema (int (mem div (k + 1))) (int (length R)) (int k) (int ?n) out' tmp2 = Some (Inr g)
      \<and> fcontents g = concat R' \<and> mset R' = mset R1 \<and> sorted_by ?f R'"
    using R1 R r n tmp(2) cmp(2) by (intro merge_passes_spec [OF tw _ sch(4) bs(2) k bound, where F = "[]"]) (auto simp: recs_def wrote_def)
  then obtain g R' where p: "merge_passes junk (record_less atof rc stack) schema (int (mem div (k + 1))) (int (length R)) (int k) (int ?n) out' tmp2 = Some (Inr g)"
    "fcontents g = concat R'" "mset R' = mset R1" "sorted_by ?f R'" by blast
  have "int mem div int sz = int ?n" by (simp add: zdiv_int)
  then have "sort_file atof qsort stack junk rc schema (int mem) (int k) in_fp tmp1 tmp2 = Some (Inr (concat R'))"
    using r(1) c b bs(1) nn p(1,2) sch(4) sz0 by (simp add: sort_file_def mk_runs_def Let_def)
  then show ?thesis using p(3,4) r(3) by auto
qed


section \<open>The layout of a schema\<close>

definition field_attr :: "attr_type \<Rightarrow> bytes \<times> bytes \<times> int \<Rightarrow> Attribute" where
  "field_attr junk fld = (case fld of (name, type, len) \<Rightarrow>
     \<lparr>at_name = name, at_type = (if type = type_integer then T_INT else if type = type_float then T_FLOAT
        else if type = type_string then T_STRING else junk), at_length = len\<rparr>)"

fun offsets :: "int \<Rightarrow> (bytes \<times> bytes \<times> int) list \<Rightarrow> int list" where
  "offsets tot [] = []"
| "offsets tot (fld # fs) = tot # offsets (tot + snd (snd fld) + 1) fs"

text \<open>When the fields are read, all offsets are right and their sum has not overflowed.\<close>

lemma add_fields_eq:
  assumes "add_fields junk fs tot schema = Inr schema'" and "int32_range tot"
  shows "schema' = schema\<lparr>attrs := attrs schema @ map (field_attr junk) fs, data_offset := data_offset schema @ offsets tot fs\<rparr>
    \<and> int32_range (tot + sum_list (map (\<lambda>fld. snd (snd fld) + 1) fs))"
  using assms
proof (induction junk fs tot schema rule: add_fields.induct)
  case (2 junk name type len fs tot schema)
  obtain s where s: "set_schema junk name type len schema = (len, s)" by (simp add: set_schema_def Let_def)
  have l: "int32_range (len + 1)" "int32_range (tot + (len + 1))"
    and r: "add_fields junk fs (tot + (len + 1)) (s\<lparr>data_offset := data_offset s @ [tot]\<rparr>) = Inr schema'"
    using 2(2) s by (auto simp: add_int_def split: if_splits)
  note IH = "2.IH" [OF refl s [symmetric] add_int_ok [OF l(1)] add_int_ok [OF l(2)] r l(2)]
  have "s = schema\<lparr>attrs := attrs schema @ [field_attr junk (name, type, len)]\<rparr>"
    using s by (auto simp: set_schema_def field_attr_def Let_def)
  then show ?case using IH by (simp add: add.assoc)
qed simp

lemma add_fields_overflow:
  assumes "\<forall>fld \<in> set fs. 0 \<le> snd (snd fld)" and "0 \<le> tot" and "tot < 2 ^ 31"
  shows "if tot + sum_list (map (\<lambda>fld. snd (snd fld) + 1) fs) < 2 ^ 31 then \<exists>s. add_fields junk fs tot schema = Inr s
    else add_fields junk fs tot schema = Inl Int_overflow"
  using assms
proof (induction junk fs tot schema rule: add_fields.induct)
  case (2 junk name type len fs tot schema)
  obtain s where s: "set_schema junk name type len schema = (len, s)" by (simp add: set_schema_def Let_def)
  have nn: "0 \<le> sum_list (map (\<lambda>fld. snd (snd fld) + 1) fs)" using 2(2) by (intro sum_list_nonneg) auto
  have "0 \<le> len" using 2(2) by simp
  note nn = nn this
  show ?case
  proof (cases "tot + (len + 1) < 2 ^ 31")
    case True
    have l: "int32_range (len + 1)" "int32_range (tot + (len + 1))" using True nn 2(3) by auto
    show ?thesis
      using "2.IH" [OF refl s [symmetric] add_int_ok [OF l(1)] add_int_ok [OF l(2)]] 2(2,3) l nn s by (simp add: add.assoc)
  next
    case False
    then show ?thesis using nn s by (auto simp: add_int_def)
  qed
qed simp

lemma length_offsets [simp]: "length (offsets tot fs) = length fs"
  by (induction tot fs rule: offsets.induct) auto

text \<open>The fields lie one after the other, each followed by a byte for its terminator.\<close>

lemma offsets_bounds:
  assumes "\<forall>fld \<in> set fs. 0 \<le> snd (snd fld)" and "i < length fs"
  shows "tot \<le> offsets tot fs ! i \<and> offsets tot fs ! i + snd (snd (fs ! i)) + 1 \<le> tot + sum_list (map (\<lambda>fld. snd (snd fld) + 1) fs)"
  using assms
proof (induction tot fs arbitrary: i rule: offsets.induct)
  case (2 tot fld fs)
  have s: "0 \<le> sum_list (map (\<lambda>fld. snd (snd fld) + 1) fs)" using 2(2) by (intro sum_list_nonneg) auto
  show ?case
  proof (cases i)
    case 0
    then show ?thesis using s by simp
  next
    case (Suc j)
    then show ?thesis using "2.IH" [of j] 2(2,3) by auto
  qed
qed simp

lemma offsets_increasing:
  assumes "\<forall>fld \<in> set fs. 0 \<le> snd (snd fld)" and "i < j" and "j < length fs"
  shows "offsets tot fs ! i + snd (snd (fs ! i)) < offsets tot fs ! j"
  using assms
proof (induction tot fs arbitrary: i j rule: offsets.induct)
  case (2 tot fld fs)
  obtain j' where j: "j = Suc j'" using 2(3) by (cases j) auto
  show ?case
  proof (cases i)
    case 0
    then show ?thesis using offsets_bounds [of fs j' "tot + snd (snd fld) + 1"] 2(2,4) j by simp
  next
    case (Suc i')
    then show ?thesis using "2.IH" [of i' j'] 2(2-4) j by auto
  qed
qed simp

lemma at_length_field_attr [simp]: "at_length (field_attr junk fld) = snd (snd fld)"
  by (cases fld) (simp add: field_attr_def)

lemma read_schema_parts:
  assumes "read_schema junk fs sorting = Inr schema" and "\<forall>fld \<in> set fs. 0 \<le> snd (snd fld)"
  shows "set_schema_sort_attr (empty_schema\<lparr>attrs := map (field_attr junk) fs, data_offset := offsets 0 fs,
      record_size := sum_list (map (\<lambda>fld. snd (snd fld) + 1) fs)\<rparr>) sorting = Inr schema"
    and "sum_list (map (\<lambda>fld. snd (snd fld) + 1) fs) < 2 ^ 31"
proof -
  let ?sum = "sum_list (map (\<lambda>fld. snd (snd fld) + 1) fs)"
  obtain s where s: "add_fields junk fs 0 empty_schema = Inr s"
      "set_schema_sort_attr (s\<lparr>record_size := sum_record_size s mod 2 ^ 64\<rparr>) sorting = Inr schema"
    using assms(1) by (auto simp: read_schema_def res_simps)
  have e: "s = empty_schema\<lparr>attrs := map (field_attr junk) fs, data_offset := offsets 0 fs\<rparr>" "?sum < 2 ^ 31"
    using add_fields_eq [OF s(1)] by (simp_all add: empty_schema_def)
  have "0 \<le> ?sum" using assms(2) by (intro sum_list_nonneg) auto
  then have "sum_record_size s mod 2 ^ 64 = ?sum" using e by (simp add: sum_record_size_def comp_def)
  then show "set_schema_sort_attr (empty_schema\<lparr>attrs := map (field_attr junk) fs, data_offset := offsets 0 fs,
      record_size := ?sum\<rparr>) sorting = Inr schema" using s(2) e(1) by simp
  show "?sum < 2 ^ 31" by (rule e(2))
qed

lemma find_attr_spec:
  "find_attr name as i = Some j \<Longrightarrow> \<exists>n < length as. j = i + int n \<and> at_name (as ! n) = name \<and> (\<forall>m < n. at_name (as ! m) \<noteq> name)"
proof (induction as arbitrary: i)
  case (Cons a as)
  show ?case
  proof (cases "name = at_name a")
    case True
    then show ?thesis using Cons.prems by auto
  next
    case False
    then obtain n where "n < length as" "j = i + 1 + int n" "at_name (as ! n) = name" "\<forall>m < n. at_name (as ! m) \<noteq> name"
      using Cons.IH [of "i + 1"] Cons.prems by auto
    then show ?thesis using False by (intro exI [of _ "Suc n"]) (auto simp: less_Suc_eq_0_disj)
  qed
qed simp

lemma find_attr_None: "find_attr name as i = None \<longleftrightarrow> (\<forall>a \<in> set as. at_name a \<noteq> name)"
  by (induction as arbitrary: i) auto

lemma push_sort_attrs_spec:
  "push_sort_attrs ts schema =
    (if \<forall>t \<in> set ts. \<exists>a \<in> set (attrs schema). at_name a = t
     then Inr (schema\<lparr>sort_attrs := sort_attrs schema @ map (\<lambda>t. the (find_attr t (attrs schema) 0)) ts\<rparr>)
     else Inl Exit_1)"
proof (induction ts arbitrary: schema)
  case (Cons t ts)
  then show ?case using find_attr_None [of t "attrs schema" 0] by (cases "find_attr t (attrs schema) 0") auto
qed simp

lemma read_schema_fails:
  assumes "read_schema junk fs sorting = Inl e" and len: "\<forall>fld \<in> set fs. 0 \<le> snd (snd fld)"
  shows "if 2 ^ 31 \<le> sum_list (map (\<lambda>fld. snd (snd fld) + 1) fs) then e = Int_overflow
    else e = Exit_1 \<and> (\<exists>t \<in> set (tokens comma (cstr sorting)). \<forall>fld \<in> set fs. fst fld \<noteq> t)"
proof (cases "sum_list (map (\<lambda>fld. snd (snd fld) + 1) fs) < 2 ^ 31")
  case True
  then obtain s where s: "add_fields junk fs 0 empty_schema = Inr s" using add_fields_overflow [OF len, of 0 junk empty_schema] by auto
  then have a: "attrs s = map (field_attr junk) fs" using add_fields_eq [OF s] by (simp add: empty_schema_def)
  have n: "at_name (field_attr junk fld) = fst fld" for fld by (cases fld) (simp add: field_attr_def)
  show ?thesis
    using assms(1) True a by (auto simp: read_schema_def s set_schema_sort_attr_def push_sort_attrs_spec n split: if_splits)
next
  case False
  then show ?thesis using assms(1) add_fields_overflow [OF len, of 0 junk empty_schema] by (simp add: read_schema_def)
qed

lemma read_schema_result:
  assumes r: "read_schema junk fs sorting = Inr schema" and len: "\<forall>fld \<in> set fs. 0 \<le> snd (snd fld)"
  shows "attrs schema = map (field_attr junk) fs" and "data_offset schema = offsets 0 fs"
    and "record_size schema = sum_list (map (\<lambda>fld. snd (snd fld) + 1) fs)" and "sum_list (map (\<lambda>fld. snd (snd fld) + 1) fs) < 2 ^ 31"
    and "map (\<lambda>j. at_name (attrs schema ! nat j)) (sort_attrs schema) = tokens comma (cstr sorting)"
    and "\<forall>j \<in> set (sort_attrs schema). 0 \<le> j \<and> j < int (length fs)"
proof -
  let ?as = "map (field_attr junk) fs" and ?ts = "tokens comma (cstr sorting)"
  show small: "sum_list (map (\<lambda>fld. snd (snd fld) + 1) fs) < 2 ^ 31" using read_schema_parts [OF r len] by simp
  have all: "\<forall>t \<in> set ?ts. \<exists>a \<in> set ?as. at_name a = t"
    and s: "schema = empty_schema\<lparr>attrs := ?as, data_offset := offsets 0 fs, record_size := sum_list (map (\<lambda>fld. snd (snd fld) + 1) fs),
      sort_attrs := map (\<lambda>t. the (find_attr t ?as 0)) ?ts\<rparr>"
    using read_schema_parts [OF r len]
    by (auto simp: set_schema_sort_attr_def push_sort_attrs_spec empty_schema_def split: if_splits)
  show "attrs schema = ?as" "data_offset schema = offsets 0 fs" "record_size schema = sum_list (map (\<lambda>fld. snd (snd fld) + 1) fs)"
    unfolding s by simp_all
  have f: "\<exists>n < length fs. the (find_attr t ?as 0) = int n \<and> at_name (?as ! n) = t" if "t \<in> set ?ts" for t
  proof -
    have "find_attr t ?as 0 \<noteq> None" unfolding find_attr_None using all that by blast
    then obtain j where "find_attr t ?as 0 = Some j" by blast
    then show ?thesis using find_attr_spec [of t ?as 0 j] by auto
  qed
  have "at_name (?as ! nat (the (find_attr t ?as 0))) = t" if "t \<in> set ?ts" for t using f [OF that] by auto
  then show "map (\<lambda>j. at_name (attrs schema ! nat j)) (sort_attrs schema) = ?ts"
    unfolding s by (simp add: map_idI comp_def)
  show "\<forall>j \<in> set (sort_attrs schema). 0 \<le> j \<and> j < int (length fs)" unfolding s using f by fastforce
qed

text \<open>
  A schema read from fields of length at most 39 is one on which the comparison is defined, provided
  it does not have more sort attributes than attributes.
\<close>

lemma read_schema_ok:
  assumes r: "read_schema junk fs sorting = Inr schema" and len: "\<forall>fld \<in> set fs. 0 \<le> snd (snd fld) \<and> snd (snd fld) \<le> 39"
    and ne: "fs \<noteq> []" and pos: "length (sort_attrs schema) \<le> length fs"
  shows "schema_ok schema"
proof -
  have nn: "\<forall>fld \<in> set fs. 0 \<le> snd (snd fld)" using len by simp
  note a = read_schema_result [OF r nn]
  have b: "0 \<le> offsets 0 fs ! n \<and> offsets 0 fs ! n + snd (snd (fs ! n)) + 1 \<le> record_size schema" if "n < length fs" for n
    using offsets_bounds [OF nn that, of 0] a(3) by simp
  have l: "0 \<le> snd (snd (fs ! n)) \<and> snd (snd (fs ! n)) \<le> 39" if "n < length fs" for n using len that by simp
  have "attr_ok schema i (sort_attrs schema ! i)" if i: "i < length (sort_attrs schema)" for i
  proof -
    have "0 \<le> sort_attrs schema ! i" "nat (sort_attrs schema ! i) < length fs" using a(6) i by (auto simp: nat_less_iff)
    then show ?thesis using b [of "nat (sort_attrs schema ! i)"] l [of "nat (sort_attrs schema ! i)"] l [of i] i pos
      by (simp add: attr_ok_def a(1,2))
  qed
  moreover have "0 < record_size schema" using b [of 0] l [of 0] ne by simp
  ultimately show ?thesis by (simp add: schema_ok_def list_all_iff)
qed


end
