(* ===== verification/Btree_Sort.thy ===== *)
theory Btree_Sort
  imports Sort_Library
begin

text \<open>
  \<^verbatim>\<open>a2/bsort.cc\<close>: sorting with a LevelDB database that is opened with the comparator of the sort attributes.
  Every line is to be put under the key made of its sort attributes and its number, and an iterator is to give the
  lines back in order. The database is a parameter. The code has two memory errors, which the model keeps: making a key
  writes one byte past a block, and the comparator reads its arguments through pointers into destroyed strings.
\<close>

section \<open>Model\<close>

text \<open>
  \<^verbatim>\<open>SortComparator::Compare\<close>. The pointers \<^verbatim>\<open>a_buf\<close> and \<^verbatim>\<open>b_buf\<close> are taken from temporary strings, which are destroyed at the end of
  the declarations: what is read through them later is not determined. The argument \<open>freed\<close> gives the memory behind the two
  pointers after that, from the bytes of the two strings (each with the NUL of \<^verbatim>\<open>c_str()\<close>). A string is read from an offset up to a NUL.
\<close>

definition c_string_at :: "bytes \<Rightarrow> int \<Rightarrow> bytes res" where
  "c_string_at m p = (if 0 \<le> p \<and> 0 \<in> set (drop (nat p) m) then Inr (cstr (drop (nat p) m)) else Inl Out_of_bounds)"

definition sign_cmp :: "atof_fn \<Rightarrow> attr_type \<Rightarrow> bytes \<Rightarrow> bytes \<Rightarrow> int" where
  "sign_cmp atof t a b = (case t of
     T_INT \<Rightarrow> (if atoi a < atoi b then -1 else if atoi b < atoi a then 1 else 0)
   | T_FLOAT \<Rightarrow> (if float_gt (atof b) (atof a) then -1 else if float_gt (atof a) (atof b) then 1 else 0)
   | T_STRING \<Rightarrow> (let cmp = strcmp a b in if cmp < 0 then -1 else if 0 < cmp then 1 else 0))"

fun compare_loop :: "atof_fn \<Rightarrow> Schema \<Rightarrow> int list \<Rightarrow> bytes \<Rightarrow> bytes \<Rightarrow> int \<Rightarrow> int res" where
  "compare_loop atof schema [] a b p =
     bindR (c_string_at a p) (\<lambda>last_a.
     bindR (c_string_at b p) (\<lambda>last_b.
     Inr (if atoi last_a < atoi last_b then -1 else if atoi last_b < atoi last_a then 1 else 0)))"
| "compare_loop atof schema (attrs_idx # rest) a b p =
     bindR (nth_res (attrs schema) attrs_idx) (\<lambda>attr.
     bindR (c_string_at a p) (\<lambda>a_buf.
     bindR (c_string_at b p) (\<lambda>b_buf.
     let c = sign_cmp atof (at_type attr) a_buf b_buf in
     if c \<noteq> 0 then Inr c else compare_loop atof schema rest a b (p + at_length attr + 1))))"

definition sort_compare :: "atof_fn \<Rightarrow> Schema \<Rightarrow> (bytes \<Rightarrow> bytes \<Rightarrow> bytes \<times> bytes) \<Rightarrow> bytes \<Rightarrow> bytes \<Rightarrow> int res" where
  "sort_compare atof schema freed a b =
     (let (a_mem, b_mem) = freed (a @ [0]) (b @ [0]) in compare_loop atof schema (sort_attrs schema) a_mem b_mem 0)"

text \<open>\<^verbatim>\<open>get_key\<close>: the block \<^verbatim>\<open>new char[attr_len]\<close>, which \<^verbatim>\<open>strncpy\<close> fills, is written at index \<^verbatim>\<open>attr_len\<close>.\<close>

definition read_attribute :: "bytes \<Rightarrow> int \<Rightarrow> int \<Rightarrow> bytes res" where
  "read_attribute line offset attr_len =
     bindR (strncpy_from line offset (nat attr_len)) (\<lambda>bs.
     bindR (store_bytes (replicate (nat attr_len) 0) 0 bs) (\<lambda>block.
     bindR (upd_res block attr_len 0) (\<lambda>block. Inr (cstr block))))"

fun get_key_loop :: "Schema \<Rightarrow> bytes \<Rightarrow> nat \<Rightarrow> int list \<Rightarrow> bytes \<Rightarrow> bytes res" where
  "get_key_loop schema line i [] key = Inr key"
| "get_key_loop schema line i (attrs_idx # rest) key =
     bindR (nth_res (data_offset schema) attrs_idx) (\<lambda>offset.
     bindR (nth_res (attrs schema) attrs_idx) (\<lambda>attr.
     bindR (read_attribute line offset (at_length attr)) (\<lambda>attribute.
     get_key_loop schema line (Suc i) rest (if 0 < i then key @ [0] @ attribute else attribute))))"

definition print_counter :: "int \<Rightarrow> bytes" where
  "print_counter i = (if i < 0 then 45 # dec_digits (nat (- i)) else dec_digits (nat i))"

definition get_key :: "Schema \<Rightarrow> bytes \<Rightarrow> int \<Rightarrow> bytes res" where
  "get_key schema line unique_counter =
     bindR (get_key_loop schema line 0 (sort_attrs schema) []) (\<lambda>key.
     Inr (key @ [0] @ print_counter (to_s32 unique_counter)))"

text \<open>
  The loop of \<^verbatim>\<open>insert_tree\<close> over the lines \<^verbatim>\<open>fgets\<close> gives; \<open>buf\<close> is the array \<^verbatim>\<open>line\<close>. The database is a
  parameter: \<open>put\<close> is \<^verbatim>\<open>DB::Put\<close> and \<open>scan\<close> what an iterator gives from \<^verbatim>\<open>SeekToFirst\<close> on.
\<close>

fun insert_lines :: "('db \<Rightarrow> bytes \<Rightarrow> bytes \<Rightarrow> 'db) \<Rightarrow> Schema \<Rightarrow> bytes \<Rightarrow> bytes list \<Rightarrow> int \<Rightarrow> 'db \<Rightarrow> 'db res" where
  "insert_lines put schema buf [] unique_counter db = Inr db"
| "insert_lines put schema buf (l # ls) unique_counter db =
     bindR (store_bytes buf 0 (l @ [0])) (\<lambda>line.
     bindR (get_key schema line unique_counter) (\<lambda>key.
     insert_lines put schema line ls (unique_counter + 1) (put db key (cstr line))))"

definition insert_tree :: "('db \<Rightarrow> bytes \<Rightarrow> bytes \<Rightarrow> 'db) \<Rightarrow> Schema \<Rightarrow> bytes \<Rightarrow> bytes \<Rightarrow> 'db \<Rightarrow> 'db res" where
  "insert_tree put schema junk in_file db =
     insert_lines put schema (take 10000 (junk @ replicate 10000 0)) (read_lines 10000 in_file) 0 db"

definition retrieve_tree :: "('db \<Rightarrow> (bytes \<times> bytes) list) \<Rightarrow> 'db \<Rightarrow> bytes" where
  "retrieve_tree scan db = concat (map (\<lambda>(key, val). val @ [0]) (scan db))"

text \<open>\<^verbatim>\<open>main\<close>: \<open>opened\<close> is the new database, \<open>None\<close> when it does not open (it must not exist); \<open>flds\<close> the parsed schema.\<close>

definition bsort_main ::
  "('db \<Rightarrow> bytes \<Rightarrow> bytes \<Rightarrow> 'db) \<Rightarrow> ('db \<Rightarrow> (bytes \<times> bytes) list) \<Rightarrow> bytes \<Rightarrow> attr_type \<Rightarrow> bytes list \<Rightarrow>
   (bytes \<times> bytes \<times> int) list option \<Rightarrow> 'db option \<Rightarrow> bytes option \<Rightarrow> bool \<Rightarrow> bytes res" where
  "bsort_main put scan junk jtype argv flds opened inp out_opens =
     (if length argv \<noteq> 5 then Inl Exit_1
      else case flds of None \<Rightarrow> Inl Exit_1
      | Some fs \<Rightarrow>
          bindR (add_fields jtype fs 0 \<lparr>attrs = [], sort_attrs = [], data_offset = [], record_size = 0\<rparr>) (\<lambda>schema.
          bindR (set_schema_sort_attr schema (argv ! 4)) (\<lambda>schema.
          case opened of None \<Rightarrow> Inl Exit_1
          | Some db \<Rightarrow>
              (case inp of None \<Rightarrow> Inl Exit_1
               | Some in_file \<Rightarrow>
                   bindR (insert_tree put schema junk in_file db) (\<lambda>db.
                   if \<not> out_opens then Inl Exit_1 else Inr (retrieve_tree scan db))))))"

section \<open>Making keys\<close>

lemma read_attribute_overruns: "read_attribute line offset attr_len = Inl Out_of_bounds"
proof (cases "strncpy_from line offset (nat attr_len)")
  case (Inl e)
  then show ?thesis by (auto simp: read_attribute_def strncpy_from_def split: if_splits)
next
  case (Inr bs)
  then have "length bs = nat attr_len" by (auto simp: strncpy_from_def length_strncpy split: if_splits)
  then have "store_bytes (replicate (nat attr_len) 0) 0 bs = Inr bs" by (simp add: store_bytes_def blit_def)
  moreover have "upd_res bs attr_len 0 = Inl Out_of_bounds" using \<open>length bs = nat attr_len\<close> by (auto simp: upd_res_def)
  ultimately show ?thesis using Inr by (simp add: read_attribute_def)
qed

definition bschema_ok :: "Schema \<Rightarrow> bool" where
  "bschema_ok schema \<longleftrightarrow> sort_attrs schema \<noteq> [] \<and> list_all (\<lambda>j. 0 \<le> j \<and> nat j < length (attrs schema) \<and> nat j < length (data_offset schema)
     \<and> 0 \<le> at_length (attrs schema ! nat j) \<and> 0 \<le> data_offset schema ! nat j) (sort_attrs schema)"

lemma get_key_overruns:
  assumes "bschema_ok schema" shows "get_key schema line unique_counter = Inl Out_of_bounds"
  using assms by (cases "sort_attrs schema") (auto simp: bschema_ok_def get_key_def nth_res_def read_attribute_overruns nat_less_iff)

lemma insert_tree_overruns:
  assumes "bschema_ok schema"
  shows "insert_tree put schema junk in_file db = (if in_file = [] then Inr db else Inl Out_of_bounds)"
proof (cases "read_lines 10000 in_file")
  case Nil
  then have "in_file = []" using concat_read_lines [of 10000 in_file] by simp
  then show ?thesis using Nil by (simp add: insert_tree_def)
next
  case (Cons l ls)
  then have "in_file \<noteq> []" by auto
  moreover have "length l < 10000" using length_read_lines [of l 10000 in_file] Cons by simp
  ultimately show ?thesis
    using Cons get_key_overruns [OF assms] by (simp add: insert_tree_def store_bytes_def)
qed

section \<open>The keys meant\<close>

text \<open>The key of a line as it is meant: the sort attributes and the number of the line, separated by NUL bytes.\<close>


definition key_field :: "bytes \<Rightarrow> sort_key \<Rightarrow> bytes" where
  "key_field line k = (case k of (t, off, len) \<Rightarrow> field off len line)"

definition mk_key :: "sort_key list \<Rightarrow> bytes \<Rightarrow> nat \<Rightarrow> bytes" where
  "mk_key ks line c = concat (map (\<lambda>k. key_field line k @ [0]) ks) @ dec_digits c"

text \<open>A line on which every sort attribute is there in its full length.\<close>

definition line_fits :: "sort_key list \<Rightarrow> bytes \<Rightarrow> bool" where
  "line_fits ks line \<longleftrightarrow> 0 \<notin> set line \<and> list_all (\<lambda>(t, off, len). off + len \<le> length line) ks"

lemma field_full: "off + len \<le> length line \<Longrightarrow> 0 \<notin> set line \<Longrightarrow> field off len line = take len (drop off line) \<and> length (field off len line) = len"
proof -
  assume a: "off + len \<le> length line" "0 \<notin> set line"
  then have "0 \<notin> set (take len (drop off line))" by (meson in_set_dropD in_set_takeD)
  then have "field off len line = take len (drop off line)" by (simp add: field_def cstr_id)
  then show ?thesis using a by simp
qed

section \<open>Comparing keys\<close>

fun sign_key_cmp :: "atof_fn \<Rightarrow> sort_key list \<Rightarrow> bytes \<Rightarrow> bytes \<Rightarrow> int" where
  "sign_key_cmp atof [] a b = 0"
| "sign_key_cmp atof (k # ks) a b =
     (let c = sign_cmp atof (fst k) (key_field a k) (key_field b k) in if c \<noteq> 0 then c else sign_key_cmp atof ks a b)"

text \<open>The order of the entries: by the sort attributes, then by the position in the input.\<close>

definition entry_cmp :: "atof_fn \<Rightarrow> sort_key list \<Rightarrow> bytes \<times> nat \<Rightarrow> bytes \<times> nat \<Rightarrow> int" where
  "entry_cmp atof ks x y =
     (let c = sign_key_cmp atof ks (fst x) (fst y) in
      if c \<noteq> 0 then c else if snd x < snd y then -1 else if snd y < snd x then 1 else 0)"

lemma c_string_at_field:
  assumes "0 \<notin> set f" shows "c_string_at (pre @ f @ 0 # rest) (int (length pre)) = Inr f"
  using assms by (simp add: c_string_at_def cstr_terminated cstr_id)

lemma compare_loop_spec:
  assumes fit: "line_fits (sort_keys schema) a" "line_fits (sort_keys schema) b" and c: "ca < 2 ^ 31" "cb < 2 ^ 31"
    and ok: "list_all (\<lambda>j. 0 \<le> j \<and> nat j < length (attrs schema) \<and> nat j < length (data_offset schema)
       \<and> 0 \<le> at_length (attrs schema ! nat j) \<and> 0 \<le> data_offset schema ! nat j) js"
    and sub: "set (map (sort_key schema) js) \<subseteq> set (sort_keys schema)" and pre: "length pa = length pb"
  shows "compare_loop atof schema js (pa @ mk_key (map (sort_key schema) js) a ca @ [0]) (pb @ mk_key (map (sort_key schema) js) b cb @ [0]) (int (length pa))
    = Inr (entry_cmp atof (map (sort_key schema) js) (a, ca) (b, cb))"
  using ok sub pre
proof (induction js arbitrary: pa pb)
  case Nil
  have z: "0 \<notin> set (dec_digits n)" for n using dec_digits_digits isdigit_simps(1) by blast
  have "c_string_at (pa @ dec_digits ca @ [0]) (int (length pa)) = Inr (dec_digits ca)" using z by (rule c_string_at_field)
  moreover have "c_string_at (pb @ dec_digits cb @ [0]) (int (length pa)) = Inr (dec_digits cb)"
    using c_string_at_field [OF z, of pb cb "[]"] Nil.prems(3) by simp
  ultimately show ?case using c by (simp add: mk_key_def entry_cmp_def atoi_dec_digits)
next
  case (Cons j js)
  let ?k = "sort_key schema j"
  obtain t off len where k: "?k = (t, off, len)" by (cases ?k) auto
  have "?k \<in> set (sort_keys schema)" using Cons.prems(2) by simp
  then have off: "off + len \<le> length a" "off + len \<le> length b" "0 \<notin> set a" "0 \<notin> set b"
    using fit k by (auto simp: line_fits_def list_all_iff)
  have "length (key_field a ?k) = len" "length (key_field b ?k) = len"
    using field_full off by (simp_all add: key_field_def k)
  moreover have "0 \<notin> set (key_field x ?k)" for x by (simp add: key_field_def k field_def)
  ultimately have fl: "length (key_field a ?k) = len" "length (key_field b ?k) = len" "0 \<notin> set (key_field a ?k)" "0 \<notin> set (key_field b ?k)"
    by blast+
  have at: "nth_res (attrs schema) j = Inr (attrs schema ! nat j)" "at_type (attrs schema ! nat j) = t" "at_length (attrs schema ! nat j) = int len"
    using Cons.prems(1) k by (auto simp: nth_res_def sort_key_def)
  let ?ra = "mk_key (map (sort_key schema) js) a ca" and ?rb = "mk_key (map (sort_key schema) js) b cb"
  have m: "mk_key (map (sort_key schema) (j # js)) a ca = key_field a ?k @ 0 # ?ra" "mk_key (map (sort_key schema) (j # js)) b cb = key_field b ?k @ 0 # ?rb"
    by (simp_all add: mk_key_def)
  have cs: "c_string_at (pa @ key_field a ?k @ 0 # ?ra @ [0]) (int (length pa)) = Inr (key_field a ?k)"
    "c_string_at (pb @ key_field b ?k @ 0 # ?rb @ [0]) (int (length pa)) = Inr (key_field b ?k)"
    using c_string_at_field [OF fl(3), of pa "?ra @ [0]"] c_string_at_field [OF fl(4), of pb "?rb @ [0]"] Cons.prems(3) by simp_all
  have IH: "compare_loop atof schema js ((pa @ key_field a ?k @ [0]) @ ?ra @ [0]) ((pb @ key_field b ?k @ [0]) @ ?rb @ [0]) (int (length (pa @ key_field a ?k @ [0])))
    = Inr (entry_cmp atof (map (sort_key schema) js) (a, ca) (b, cb))"
    using Cons.prems fl by (intro Cons.IH) auto
  have p: "int (length (pa @ key_field a ?k @ [0])) = int (length pa) + int len + 1" using fl by simp
  show ?case using at cs IH k unfolding m p by (simp add: entry_cmp_def Let_def)
qed

text \<open>
  With the strings still in place the comparator computes the order meant; when the second string took the memory of the first,
  it takes any two keys for equal.
\<close>

lemma sort_compare_kept:
  assumes "line_fits (sort_keys schema) a" "line_fits (sort_keys schema) b" "ca < 2 ^ 31" "cb < 2 ^ 31" "bschema_ok schema"
  shows "sort_compare atof schema Pair (mk_key (sort_keys schema) a ca) (mk_key (sort_keys schema) b cb)
    = Inr (entry_cmp atof (sort_keys schema) (a, ca) (b, cb))"
  using compare_loop_spec [OF assms(1-4), of "sort_attrs schema" "[]" "[]" atof] assms(5)
  by (simp add: sort_compare_def sort_keys_def bschema_ok_def)

lemma sign_key_cmp_refl: "sign_key_cmp atof ks a a = 0"
proof (induction ks)
  case (Cons k ks)
  have "sign_cmp atof t x x = 0" for t x
    by (cases t) (auto simp: sign_cmp_def strcmp.cmp_refl float_gt_def split: option.splits)
  then show ?case using Cons by simp
qed simp

lemma sort_compare_shared:
  assumes "line_fits (sort_keys schema) b" "cb < 2 ^ 31" "bschema_ok schema"
  shows "sort_compare atof schema (\<lambda>x y. (y, y)) key (mk_key (sort_keys schema) b cb) = Inr 0"
  using compare_loop_spec [OF assms(1,1,2,2), of "sort_attrs schema" "[]" "[]" atof] assms(3) sign_key_cmp_refl
  by (simp add: sort_compare_def sort_keys_def bschema_ok_def entry_cmp_def)


section \<open>The order of the entries\<close>

definition line_values :: "atof_fn \<Rightarrow> sort_key list \<Rightarrow> bytes \<Rightarrow> bool" where
  "line_values atof ks line \<longleftrightarrow> list_all (\<lambda>k. fst k = T_FLOAT \<longrightarrow> atof (key_field line k) \<noteq> None) ks"

interpretation sign: three_way "sign_cmp atof t" "\<lambda>s. t = T_FLOAT \<longrightarrow> atof s \<noteq> None" for atof t
proof
  fix x y z
  assume x: "t = T_FLOAT \<longrightarrow> atof x \<noteq> None"
  then show "sign_cmp atof t x x = 0"
    by (cases t) (auto simp: sign_cmp_def strcmp.cmp_refl float_gt_def)
  assume y: "t = T_FLOAT \<longrightarrow> atof y \<noteq> None"
  show "sign_cmp atof t x y < 0 \<longleftrightarrow> 0 < sign_cmp atof t y x"
    using x y strcmp.cmp_flip [of x y] strcmp.cmp_flip [of y x]
    by (cases t) (auto simp: sign_cmp_def float_gt_def Let_def)
  assume z: "t = T_FLOAT \<longrightarrow> atof z \<noteq> None" and le: "sign_cmp atof t x y \<le> 0" "sign_cmp atof t y z \<le> 0"
  show "sign_cmp atof t x z \<le> 0"
    using x y z le strcmp.cmp_trans [of x y z]
    by (cases t) (auto simp: sign_cmp_def float_gt_def Let_def split: if_splits)
qed

interpretation sign_keys: three_way "sign_key_cmp atof ks" "line_values atof ks" for atof ks
proof (induction ks)
  case Nil
  show ?case by unfold_locales simp_all
next
  case (Cons k ks)
  have c: "sign_key_cmp atof (k # ks) =
      (\<lambda>x y. let c = sign_cmp atof (fst k) (key_field x k) (key_field y k) in if c \<noteq> 0 then c else sign_key_cmp atof ks x y)"
    by (simp add: fun_eq_iff)
  have o: "line_values atof (k # ks) = (\<lambda>x. (fst k = T_FLOAT \<longrightarrow> atof (key_field x k) \<noteq> None) \<and> line_values atof ks x)"
    by (auto simp: line_values_def fun_eq_iff)
  show ?case unfolding c o
    by (rule three_way_lex [where g = "\<lambda>x. key_field x k", OF sign.three_way_axioms Cons.IH])
qed

interpretation entry: three_way "entry_cmp atof ks" "\<lambda>x. line_values atof ks (fst x)" for atof ks
proof -
  have b: "three_way (\<lambda>x y :: bytes \<times> nat. if snd x < snd y then -1 else if snd y < snd x then 1 else 0) (\<lambda>_. True)"
    by unfold_locales (auto split: if_splits)
  have "entry_cmp atof ks = (\<lambda>x y. let c = sign_key_cmp atof ks (fst x) (fst y) in
      if c \<noteq> 0 then c else if snd x < snd y then -1 else if snd y < snd x then 1 else 0)"
    by (simp add: entry_cmp_def fun_eq_iff)
  then show "three_way (entry_cmp atof ks) (\<lambda>x. line_values atof ks (fst x))"
    using three_way_lex [where g = fst, OF sign_keys.three_way_axioms b] by simp
qed

text \<open>On values that the comparator of the merge sort orders, both programs use the same order.\<close>

lemma sign_cmp_sgn:
  assumes "key_value_ok atof t a" and "key_value_ok atof t b" and "0 \<notin> set a" and "0 \<notin> set b"
  shows "sign_cmp atof t a b = sgn (cmp_fn atof t a b)"
  using assms by (cases t)
    (auto simp: sign_cmp_def cmp_fn_def int_cmp_def float_cmp_def string_cmp_def key_value_ok_def to_s32_id float_gt_def cstr_id Let_def)

lemma sign_key_cmp_sgn:
  "rec_ok atof ks a \<Longrightarrow> rec_ok atof ks b \<Longrightarrow> sign_key_cmp atof ks a b = sgn (key_cmp atof ks a b)"
proof (induction ks)
  case (Cons k ks)
  obtain t off len where k: "k = (t, off, len)" by (cases k) auto
  have "sign_cmp atof t (field off len a) (field off len b) = sgn (cmp_fn atof t (field off len a) (field off len b))"
    using Cons.prems k by (intro sign_cmp_sgn) (auto simp: rec_ok_def field_def)
  then show ?case using Cons k by (auto simp: rec_ok_def key_field_def Let_def sgn_0_0)
qed simp



end
