(* ===== verification/Sort_Properties.thy ===== *)
theory Sort_Properties
  imports Merge_Sort Btree_Sort
begin

text \<open>
  The properties of the sorting programs \<^verbatim>\<open>a2/msort.cc\<close> and \<^verbatim>\<open>a2/bsort.cc\<close>, each with an input to which it applies.
\<close>

section \<open>Comparing records\<close>

text \<open>A schema of one string of two bytes, and stack contents.\<close>

definition pair_schema :: Schema where
  "pair_schema = \<lparr>attrs = [\<lparr>at_name = [97], at_type = T_STRING, at_length = 2\<rparr>], sort_attrs = [0], data_offset = [0], record_size = 3\<rparr>"

definition zero_stack :: stacks where
  "zero_stack = (\<lambda>_. (replicate 40 0, replicate 40 0))"

lemma pair_schema_ok: "schema_ok pair_schema" "lengths_match pair_schema" "bschema_ok pair_schema" "sort_keys pair_schema = [(T_STRING, 0, 2)]"
  "mk_RecordComparator pair_schema = Inr \<lparr>cmp_fns = [T_STRING], rc_schema = pair_schema\<rparr>" "record_size pair_schema = 3"
  by code_simp+

text \<open>
  C15: for a schema whose attributes fit the 40-byte buffers and in which, for every \<open>i\<close>, the attribute in position \<open>i\<close> has the length of
  the \<open>i\<close>-th sort attribute (the terminator is put at the former, \<^verbatim>\<open>library.h:164\<close>), and on records of the schema's size whose sort
  attributes hold integers from -2^30 below 2^30 and floats that parse, the two comparators agree with each other and with the
  lexicographic order of the sort attributes, and that order is a total preorder: the sign flips with the arguments, and it is transitive.
\<close>

theorem comparators_total_preorder:
  assumes sch: "schema_ok schema" "lengths_match schema" "mk_RecordComparator schema = Inr rc"
    and st: "\<And>i. 40 \<le> length (fst (stack i)) \<and> 40 \<le> length (snd (stack i))"
    and r: "\<forall>r \<in> {a, b, c}. length r = nat (record_size schema) \<and> rec_ok atof (sort_keys schema) r"
  shows "\<exists>ab ba bc ac. qsort_cmp atof rc stack a b = Inr ab \<and> record_less atof rc stack a b = Inr (ab < 0) \<and> ab = key_cmp atof (sort_keys schema) a b
    \<and> qsort_cmp atof rc stack b a = Inr ba \<and> (ab < 0 \<longleftrightarrow> 0 < ba)
    \<and> qsort_cmp atof rc stack b c = Inr bc \<and> qsort_cmp atof rc stack a c = Inr ac \<and> (ab \<le> 0 \<and> bc \<le> 0 \<longrightarrow> ac \<le> 0)"
proof -
  let ?f = "key_cmp atof (sort_keys schema)"
  have q: "qsort_cmp atof rc stack x y = Inr (?f x y)" "record_less atof rc stack x y = Inr (?f x y < 0)"
    if "x \<in> {a, b, c}" "y \<in> {a, b, c}" for x y
    using qsort_cmp_spec [OF sch _ _ st, of x y atof] bspec [OF r that(1)] bspec [OF r that(2)] by simp_all
  have ok: "rec_ok atof (sort_keys schema) a" "rec_ok atof (sort_keys schema) b" "rec_ok atof (sort_keys schema) c" using r by blast+
  have fl: "?f a b < 0 \<longleftrightarrow> 0 < ?f b a" using ok(1,2) by (rule rec_order.cmp_flip)
  have tr: "?f a b \<le> 0 \<and> ?f b c \<le> 0 \<longrightarrow> ?f a c \<le> 0" using rec_order.cmp_trans [OF ok] by blast
  show ?thesis using q [of a b] q [of b a] q [of b c] q [of a c] fl tr by blast
qed

theorem comparators_total_preorder_witness:
  "\<exists>ab. qsort_cmp (\<lambda>_. Some 0) \<lparr>cmp_fns = [T_STRING], rc_schema = pair_schema\<rparr> zero_stack [97, 98, 10] [97, 99, 10] = Inr ab
    \<and> ab = key_cmp (\<lambda>_. Some 0) (sort_keys pair_schema) [97, 98, 10] [97, 99, 10]"
proof -
  have st: "\<And>i. 40 \<le> length (fst (zero_stack i)) \<and> 40 \<le> length (snd (zero_stack i))" by (simp add: zero_stack_def)
  have r: "\<forall>r \<in> {[97, 98, 10], [97, 99, 10], [97, 99, 10]}.
      length r = nat (record_size pair_schema) \<and> rec_ok (\<lambda>_. Some 0) (sort_keys pair_schema) r"
    by (auto simp: pair_schema_ok rec_ok_def key_value_ok_def)
  show ?thesis using comparators_total_preorder [where stack = zero_stack, OF pair_schema_ok(1,2,5) st r] by (elim exE conjE) (intro exI conjI)
qed





section \<open>The merge sort\<close>

text \<open>
  Making the runs reads the whole records of the input, sorts each group of \<open>run_len\<close> of them and writes the groups one after the
  other: the output is a permutation of the records in which every group is sorted, and the count is the number of records.
\<close>

theorem mk_runs_sorted_groups:
  assumes q: "qsort_spec qsort" and f: "three_way f ok" and n: "0 < run_len"
    and cmp: "\<And>a b. length a = nat (record_size schema) \<Longrightarrow> length b = nat (record_size schema) \<Longrightarrow> cmp a b = Inr (f a b)"
    and inp: "drop (fpos in_fp) (fcontents in_fp) = concat R @ t" "recs (nat (record_size schema)) R" "length t < nat (record_size schema)"
    and R: "\<forall>r \<in> set R. ok r" "length R < 2 ^ 31"
  shows "\<exists>in' out' R'. mk_runs qsort cmp in_fp \<lparr>fcontents = [], fpos = 0\<rparr> run_len schema = Inr (int (length R), in', out')
    \<and> fcontents out' = concat R' \<and> mset R' = mset R \<and> seg_sorted f (nat run_len) R'"
proof -
  have n': "0 < nat run_len" using n by simp
  let ?out = "\<lparr>fcontents = [], fpos = 0\<rparr> :: cfile"
  have o: "fpos ?out = length (fcontents ?out)" and b: "0 + int (length R) < 2 ^ 31" using R(2) by simp_all
  obtain inp' out' R' where m: "mk_runs_loop qsort cmp (nat (record_size schema)) (nat run_len) in_fp ?out 0 = Inr (0 + int (length R), inp', out')"
      "fcontents out' = fcontents ?out @ concat R'" "mset R' = mset R" "seg_sorted f (nat run_len) R'"
    using mk_runs_loop_spec [OF q f n' cmp inp R(1) o order_refl b] by blast
  then have "mk_runs qsort cmp in_fp ?out run_len schema = Inr (int (length R), inp', out')" "fcontents out' = concat R'"
    by (simp_all add: mk_runs_def)
  then show ?thesis using m(3,4) by blast
qed

theorem mk_runs_sorted_groups_witness:
  "\<exists>in' out' R'. mk_runs isort_res (\<lambda>a b. Inr (strcmp a b)) \<lparr>fcontents = [98, 98, 10, 97, 97, 10, 1], fpos = 0\<rparr> \<lparr>fcontents = [], fpos = 0\<rparr> 2 pair_schema = Inr (2, in', out')
    \<and> fcontents out' = concat R' \<and> mset R' = {#[98, 98, 10], [97, 97, 10]#} \<and> seg_sorted strcmp 2 R'"
proof -
  have "\<exists>in' out' R'. mk_runs isort_res (\<lambda>a b. Inr (strcmp a b)) \<lparr>fcontents = [98, 98, 10, 97, 97, 10, 1], fpos = 0\<rparr> \<lparr>fcontents = [], fpos = 0\<rparr> 2 pair_schema
      = Inr (int (length [[98, 98, 10], [97, 97, 10 :: byte]]), in', out')
    \<and> fcontents out' = concat R' \<and> mset R' = mset [[98, 98, 10], [97, 97, 10]] \<and> seg_sorted strcmp (nat 2) R'"
    by (rule mk_runs_sorted_groups [OF isort_res_qsort_spec strcmp.three_way_axioms, where t = "[1]"]) (simp_all add: pair_schema_ok recs_def)
  then show ?thesis by simp
qed

text \<open>
  C10: merging any number of sorted runs ends, and writes a sorted permutation of all their records behind what was written before.
\<close>

theorem kway_merge_sorted:
  assumes "three_way f ok" and "\<And>a b. a \<in> set R \<Longrightarrow> b \<in> set R \<Longrightarrow> lt a b = Inr (f a b < 0)" and "\<forall>a \<in> set R. ok a"
    and "recs sz R" and "\<forall>it \<in> set its. it_ok sz R it \<and> sorted_by f (it_rest R it)" and "fcontents inp = concat R"
    and out: "fpos out = length (fcontents out)"
  shows "\<exists>inp' out' ys. kway_merge lt its inp out = Some (Inr (inp', out')) \<and> fcontents out' = fcontents out @ concat ys
    \<and> mset ys = mset (concat (map (it_rest R) its)) \<and> sorted_by f ys"
proof -
  have w: "wrote [] (fcontents out) out" using out by (simp add: wrote_def)
  obtain inp' out' ys where "kway_merge lt its inp out = Some (Inr (inp', out'))" "wrote [] (fcontents out @ concat ys) out'"
      "mset ys = mset (concat (map (it_rest R) its))" "sorted_by f ys"
    using kway_merge_spec [OF assms(1-6) w] by blast
  then show ?thesis using wrote_all [of "[]" "fcontents out @ concat ys" out'] by auto
qed

lemma sample_run: "\<exists>it. mk_RunIterator [] 0 2 6 pair_schema = Inr it \<and> it_ok 3 [[97, 97, 10], [98, 98, 10]] it
    \<and> it_rest [[97, 97, 10], [98, 98, 10]] it = [[97, 97, 10], [98, 98, 10]]"
  using mk_RunIterator_spec [of pair_schema 3 6 2 0 "[[97, 97, 10], [98, 98, 10]]" "[]"] by (auto simp: pair_schema_ok)

theorem kway_merge_sorted_witness:
  "\<exists>it inp' out' ys. mk_RunIterator [] 0 2 6 pair_schema = Inr it
    \<and> kway_merge (\<lambda>a b. Inr (strcmp a b < 0)) [it, it] \<lparr>fcontents = [97, 97, 10, 98, 98, 10], fpos = 0\<rparr> \<lparr>fcontents = [], fpos = 0\<rparr> = Some (Inr (inp', out'))
    \<and> fcontents out' = concat ys \<and> length ys = 4 \<and> sorted_by strcmp ys"
proof -
  let ?R = "[[97, 97, 10], [98, 98, 10]] :: bytes list"
  obtain it where it: "mk_RunIterator [] 0 2 6 pair_schema = Inr it" "it_ok 3 ?R it" "it_rest ?R it = ?R" using sample_run by blast
  have s: "sorted_by strcmp ?R" by code_simp
  have "\<exists>inp' out' ys. kway_merge (\<lambda>a b. Inr (strcmp a b < 0)) [it, it] \<lparr>fcontents = [97, 97, 10, 98, 98, 10], fpos = 0\<rparr> \<lparr>fcontents = [], fpos = 0\<rparr> = Some (Inr (inp', out'))
    \<and> fcontents out' = fcontents \<lparr>fcontents = [], fpos = 0\<rparr> @ concat ys \<and> mset ys = mset (concat (map (it_rest ?R) [it, it])) \<and> sorted_by strcmp ys"
    by (rule kway_merge_sorted [OF strcmp.three_way_axioms, where sz = 3]) (use it s in \<open>simp_all add: recs_def\<close>)
  then obtain inp' out' ys where m: "kway_merge (\<lambda>a b. Inr (strcmp a b < 0)) [it, it] \<lparr>fcontents = [97, 97, 10, 98, 98, 10], fpos = 0\<rparr> \<lparr>fcontents = [], fpos = 0\<rparr> = Some (Inr (inp', out'))"
    "fcontents out' = concat ys" "mset ys = mset (concat (map (it_rest ?R) [it, it]))" "sorted_by strcmp ys" by auto
  have "length ys = 4" using arg_cong [OF m(3), of size] it(3) by simp
  then show ?thesis using it(1) m(1,2,4) by blast
qed

text \<open>
  C4: the external merge sort ends and sorts: with memory for \<open>k + 1\<close> records at least, whatever the number of runs and of
  passes, the result file holds a permutation of the whole records of the input, sorted by the sort attributes. It holds for schemas whose
  attributes fit the 40-byte buffers and in which, for every \<open>i\<close>, the attribute in position \<open>i\<close> has the length of the \<open>i\<close>-th sort attribute
  (otherwise the comparator reads stack bytes or stops short, \<^verbatim>\<open>library.h:164\<close>), and for records whose sort attributes hold integers from
  -2^30 below 2^30 (\<^verbatim>\<open>int_cmp\<close> subtracts) and floats that parse. The bound on the number of records keeps the counters of the passes,
  which are computed as \<^verbatim>\<open>int\<close>, from overflowing.
\<close>

theorem merge_sort_sorts:
  assumes q: "qsort_spec qsort" and sch: "schema_ok schema" "lengths_match schema" "mk_RecordComparator schema = Inr rc" "record_size schema = int sz"
    and st: "\<And>i. 40 \<le> length (fst (stack i)) \<and> 40 \<le> length (snd (stack i))"
    and R: "recs sz R" "\<forall>r \<in> set R. rec_ok atof (sort_keys schema) r"
    and inp: "fcontents in_fp = concat R @ t" "length t < sz" "fpos in_fp = 0"
    and k: "1 < k" and mem: "(k + 1) * sz \<le> mem" "mem < 2 ^ 31" and bound: "length R * k * k + length R < 2 ^ 31"
  shows "\<exists>R'. sort_file atof qsort stack junk rc schema (int mem) (int k) in_fp \<lparr>fcontents = [], fpos = 0\<rparr> \<lparr>fcontents = [], fpos = 0\<rparr>
      = Some (Inr (concat R')) \<and> mset R' = mset R \<and> sorted_by (key_cmp atof (sort_keys schema)) R'"
  using sort_file_spec [OF q sch st R inp refl refl k mem bound] .

theorem merge_sort_sorts_witness:
  "\<exists>R'. sort_file (\<lambda>_. None) isort_res zero_stack [] \<lparr>cmp_fns = [T_STRING], rc_schema = pair_schema\<rparr> pair_schema 9 2
      \<lparr>fcontents = [99, 98, 10, 98, 98, 10, 97, 98, 10, 97, 97, 10], fpos = 0\<rparr> \<lparr>fcontents = [], fpos = 0\<rparr> \<lparr>fcontents = [], fpos = 0\<rparr> = Some (Inr (concat R'))
    \<and> mset R' = {#[99, 98, 10], [98, 98, 10], [97, 98, 10], [97, 97, 10]#} \<and> sorted_by (key_cmp (\<lambda>_. None) [(T_STRING, 0, 2)]) R'"
proof -
  let ?R = "[[99, 98, 10], [98, 98, 10], [97, 98, 10], [97, 97, 10]] :: bytes list"
  have "\<exists>R'. sort_file (\<lambda>_. None) isort_res zero_stack [] \<lparr>cmp_fns = [T_STRING], rc_schema = pair_schema\<rparr> pair_schema (int 9) (int 2)
      \<lparr>fcontents = [99, 98, 10, 98, 98, 10, 97, 98, 10, 97, 97, 10], fpos = 0\<rparr> \<lparr>fcontents = [], fpos = 0\<rparr> \<lparr>fcontents = [], fpos = 0\<rparr> = Some (Inr (concat R'))
    \<and> mset R' = mset ?R \<and> sorted_by (key_cmp (\<lambda>_. None) (sort_keys pair_schema)) R'"
    by (rule merge_sort_sorts [where sz = 3 and t = "[]", OF isort_res_qsort_spec pair_schema_ok(1,2,5)])
       (simp_all add: pair_schema_ok zero_stack_def recs_def rec_ok_def key_value_ok_def)
  then show ?thesis unfolding pair_schema_ok(4) by (simp add: add_mset_commute)
qed

text \<open>
  When the memory is smaller than one record, the merge sort reports no error: it reads nothing and writes an empty result.
\<close>

theorem merge_sort_no_memory:
  assumes "mk_RecordComparator schema = Inr rc" and "0 < record_size schema" and "mem < record_size schema" and "0 \<le> mem" and "1 < k" and "k < 2 ^ 30"
  shows "sort_file atof qsort stack junk rc schema mem k in_fp \<lparr>fcontents = [], fpos = 0\<rparr> \<lparr>fcontents = [], fpos = 0\<rparr> = Some (Inr [])"
proof -
  have rl: "mem div record_size schema = 0" using assms by (simp add: div_pos_pos_trivial)
  have r: "fst (read_run sz 0 f) = []" for sz f by (simp add: read_run_def fread_items_def fread_def Let_def)
  have m: "mk_runs qsort cmp in_fp \<lparr>fcontents = [], fpos = 0\<rparr> 0 schema = Inr (0, in_fp, \<lparr>fcontents = [], fpos = 0\<rparr>)" for cmp
    unfolding mk_runs_def by (subst mk_runs_loop.simps) (simp add: r)
  show ?thesis using assms rl m
    by (simp add: sort_file_def Let_def merge_passes.simps to_s32_id)
qed

theorem merge_sort_no_memory_witness:
  "sort_file (\<lambda>_. None) isort_res zero_stack [] \<lparr>cmp_fns = [T_STRING], rc_schema = pair_schema\<rparr> pair_schema 2 2
      \<lparr>fcontents = [99, 98, 10], fpos = 0\<rparr> \<lparr>fcontents = [], fpos = 0\<rparr> \<lparr>fcontents = [], fpos = 0\<rparr> = Some (Inr [])"
  by (rule merge_sort_no_memory) (simp_all add: pair_schema_ok)

text \<open>
  C16: the schema is read from the fields of the schema file, for lengths that are not negative, unless the total length overflows \<^verbatim>\<open>int\<close> (exactly when the sum of
  the lengths and separators reaches 2^31) or a sort attribute is not a name of the schema. Then every attribute lies inside the record: the
  offsets are in order and do not overlap, the size of a record is the sum of the lengths with one byte each for a
  separator, and below 2^31, and the sort attributes are indices of attributes.
\<close>

theorem read_schema_layout:
  assumes len: "\<forall>fld \<in> set fs. 0 \<le> snd (snd fld)"
  shows "case read_schema junk fs sorting of
      Inl e \<Rightarrow> (if 2 ^ 31 \<le> sum_list (map (\<lambda>fld. snd (snd fld) + 1) fs) then e = Int_overflow
        else e = Exit_1 \<and> (\<exists>t \<in> set (tokens comma (cstr sorting)). \<forall>fld \<in> set fs. fst fld \<noteq> t))
    | Inr schema \<Rightarrow> record_size schema = sum_list (map (\<lambda>fld. snd (snd fld) + 1) fs) \<and> record_size schema < 2 ^ 31
        \<and> length (attrs schema) = length fs \<and> length (data_offset schema) = length fs
        \<and> (\<forall>i < length fs. 0 \<le> data_offset schema ! i \<and> data_offset schema ! i + at_length (attrs schema ! i) < record_size schema)
        \<and> (\<forall>i j. i < j \<and> j < length fs \<longrightarrow> data_offset schema ! i + at_length (attrs schema ! i) < data_offset schema ! j)
        \<and> map (\<lambda>j. at_name (attrs schema ! nat j)) (sort_attrs schema) = tokens comma (cstr sorting)
        \<and> (\<forall>j \<in> set (sort_attrs schema). 0 \<le> j \<and> j < int (length fs))"
proof (cases "read_schema junk fs sorting")
  case (Inl e)
  then show ?thesis using read_schema_fails [OF Inl len] by simp
next
  case (Inr schema)
  let ?sum = "sum_list (map (\<lambda>fld. snd (snd fld) + 1) fs)"
  have a: "attrs schema = map (field_attr junk) fs" "data_offset schema = offsets 0 fs" "record_size schema = ?sum" "?sum < 2 ^ 31"
    and s: "map (\<lambda>j. at_name (attrs schema ! nat j)) (sort_attrs schema) = tokens comma (cstr sorting)"
      "\<forall>j \<in> set (sort_attrs schema). 0 \<le> j \<and> j < int (length fs)"
    using read_schema_result [OF Inr len] by simp_all
  have "offsets 0 fs ! i + snd (snd (fs ! i)) < ?sum" "0 \<le> offsets 0 fs ! i" if "i < length fs" for i
    using offsets_bounds [OF len that, of 0] by auto
  then have "\<forall>i < length fs. 0 \<le> data_offset schema ! i \<and> data_offset schema ! i + at_length (attrs schema ! i) < record_size schema"
    unfolding a by simp
  moreover have "\<forall>i j. i < j \<and> j < length fs \<longrightarrow> data_offset schema ! i + at_length (attrs schema ! i) < data_offset schema ! j"
    using offsets_increasing [OF len, of _ _ 0] unfolding a by auto
  ultimately show ?thesis using Inr a s by simp
qed

theorem read_schema_layout_witness:
  "\<exists>schema. read_schema T_INT [([97], type_string, 2), ([98], type_integer, 4)] [98] = Inr schema \<and> record_size schema = 8
    \<and> data_offset schema ! 0 + at_length (attrs schema ! 0) < data_offset schema ! 1"
proof -
  have s: "read_schema T_INT [([97], type_string, 2), ([98], type_integer, 4)] [98] = Inr \<lparr>attrs = [\<lparr>at_name = [97], at_type = T_STRING, at_length = 2\<rparr>,
      \<lparr>at_name = [98], at_type = T_INT, at_length = 4\<rparr>], sort_attrs = [1], data_offset = [0, 3], record_size = 8\<rparr>" by code_simp
  then show ?thesis
    using read_schema_layout [where fs = "[([97], type_string, 2), ([98], type_integer, 4)]" and junk = T_INT and sorting = "[98]"] by (fastforce simp: less_Suc_eq)
qed

section \<open>The B-tree sort\<close>



text \<open>
  The comparator that the database is opened with reads its two keys through pointers into temporary strings that are destroyed before
  the first comparison (\<^verbatim>\<open>bsort.cc:28\<close>). On keys of the form the program means to build, from lines that hold every sort attribute in full, with integers
  from -2^30 below 2^30 and floats that parse: if the memory still holds the two strings, the result is the order of the merge
  sort, and the line numbers among equals; if the second string was put where the first one was, any two keys are equal.
\<close>

theorem sort_compare_dangling:
  assumes "bschema_ok schema" and "line_fits (sort_keys schema) a" "line_fits (sort_keys schema) b" and "ca < 2 ^ 31" "cb < 2 ^ 31"
    and "rec_ok atof (sort_keys schema) a" "rec_ok atof (sort_keys schema) b"
  shows "sort_compare atof schema Pair (mk_key (sort_keys schema) a ca) (mk_key (sort_keys schema) b cb)
      = Inr (if key_cmp atof (sort_keys schema) a b \<noteq> 0 then sgn (key_cmp atof (sort_keys schema) a b) else sgn (int ca - int cb))
    \<and> sort_compare atof schema (\<lambda>x y. (y, y)) (mk_key (sort_keys schema) a ca) (mk_key (sort_keys schema) b cb) = Inr 0"
  using sort_compare_kept [OF assms(2-5,1), of atof] sort_compare_shared [OF assms(3,5,1)] sign_key_cmp_sgn [OF assms(6,7)]
  by (auto simp: entry_cmp_def Let_def sgn_0_0)

theorem sort_compare_dangling_witness:
  "sort_compare (\<lambda>_. None) pair_schema Pair [97, 98, 0, 48] [97, 99, 0, 49] = Inr (- 1)
    \<and> sort_compare (\<lambda>_. None) pair_schema (\<lambda>x y. (y, y)) [97, 98, 0, 48] [97, 99, 0, 49] = Inr 0"
proof -
  have k: "mk_key (sort_keys pair_schema) [97, 98, 10] 0 = [97, 98, 0, 48]" "mk_key (sort_keys pair_schema) [97, 99, 10] 1 = [97, 99, 0, 49]"
    "key_cmp (\<lambda>_. None) (sort_keys pair_schema) [97, 98, 10] [97, 99, 10] = - 1"
    "line_fits (sort_keys pair_schema) [97, 98, 10]" "line_fits (sort_keys pair_schema) [97, 99, 10]" by code_simp+
  show ?thesis
    using sort_compare_dangling [OF pair_schema_ok(3) k(4,5), of 0 1 "\<lambda>_. None"] k(1-3) by (simp add: pair_schema_ok(4) rec_ok_def key_value_ok_def)
qed


end
