(* ===== verification/Ldb_Coding.thy ===== *)
theory Ldb_Coding
  imports CLib
begin

text \<open>
  \<^verbatim>\<open>util/coding.cc\<close> of LevelDB: fixed-length integers, variable-length integers and length-prefixed slices.
  A \<^verbatim>\<open>Slice\<close> and a \<^verbatim>\<open>std::string\<close> are byte lists; an integer is a word of its length. The functions that
  append to a string take it and return it.
\<close>

unbundle bit_operations_syntax

section \<open>Model\<close>

type_synonym u32 = "32 word"
type_synonym u64 = "64 word"
type_synonym slice = bytes

text \<open>The branch for a machine that is not little endian, and the copy of the bytes of the integer for one that is.\<close>

definition EncodeFixed32 :: "u32 \<Rightarrow> bytes" where
  "EncodeFixed32 value = [ucast (value AND 255), ucast (drop_bit 8 value AND 255),
     ucast (drop_bit 16 value AND 255), ucast (drop_bit 24 value AND 255)]"

definition EncodeFixed64 :: "u64 \<Rightarrow> bytes" where
  "EncodeFixed64 value = [ucast (value AND 255), ucast (drop_bit 8 value AND 255),
     ucast (drop_bit 16 value AND 255), ucast (drop_bit 24 value AND 255),
     ucast (drop_bit 32 value AND 255), ucast (drop_bit 40 value AND 255),
     ucast (drop_bit 48 value AND 255), ucast (drop_bit 56 value AND 255)]"

definition PutFixed32 :: "bytes \<Rightarrow> u32 \<Rightarrow> bytes" where
  "PutFixed32 dst value = dst @ EncodeFixed32 value"

definition PutFixed64 :: "bytes \<Rightarrow> u64 \<Rightarrow> bytes" where
  "PutFixed64 dst value = dst @ EncodeFixed64 value"

text \<open>Decoding reads without a check of the bounds: running out of bytes is an error.\<close>

definition DecodeFixed32 :: "bytes \<Rightarrow> u32 res" where
  "DecodeFixed32 p =
     bindR (load_bytes p 0 4) (\<lambda>b.
     Inr (ucast (b ! 0) OR push_bit 8 (ucast (b ! 1)) OR push_bit 16 (ucast (b ! 2)) OR push_bit 24 (ucast (b ! 3))))"

definition DecodeFixed64 :: "bytes \<Rightarrow> u64 res" where
  "DecodeFixed64 p =
     bindR (DecodeFixed32 p) (\<lambda>lo.
     bindR (DecodeFixed32 (drop 4 p)) (\<lambda>hi.
     Inr (push_bit 32 (ucast hi) OR ucast lo)))"

text \<open>Writing a \<open>uint32_t\<close> through \<open>unsigned char*\<close> stores its low byte.\<close>

definition EncodeVarint32 :: "u32 \<Rightarrow> bytes" where
  "EncodeVarint32 v =
     (if v < push_bit 7 1 then [ucast v]
      else if v < push_bit 14 1 then [ucast (v OR 128), ucast (drop_bit 7 v)]
      else if v < push_bit 21 1 then [ucast (v OR 128), ucast (drop_bit 7 v OR 128), ucast (drop_bit 14 v)]
      else if v < push_bit 28 1 then
        [ucast (v OR 128), ucast (drop_bit 7 v OR 128), ucast (drop_bit 14 v OR 128), ucast (drop_bit 21 v)]
      else [ucast (v OR 128), ucast (drop_bit 7 v OR 128), ucast (drop_bit 14 v OR 128), ucast (drop_bit 21 v OR 128),
        ucast (drop_bit 28 v)])"

definition PutVarint32 :: "bytes \<Rightarrow> u32 \<Rightarrow> bytes" where
  "PutVarint32 dst v = dst @ EncodeVarint32 v"

lemma unat_shift7: "unat (drop_bit 7 v) = unat v div 128" for v :: "'a::len word"
  unfolding unat_drop_bit_eq by (simp add: drop_bit_eq_div)

function EncodeVarint64 :: "u64 \<Rightarrow> bytes" where
  "EncodeVarint64 v =
     (if 128 \<le> v then ucast ((v AND 127) OR 128) # EncodeVarint64 (drop_bit 7 v) else [ucast v])"
  by pat_completeness auto
termination
  by (relation "measure unat") (auto simp: unat_shift7 word_le_nat_alt)

declare EncodeVarint64.simps [simp del]

definition PutVarint64 :: "bytes \<Rightarrow> u64 \<Rightarrow> bytes" where
  "PutVarint64 dst v = dst @ EncodeVarint64 v"

text \<open>The size of a slice is cut to 32 bits.\<close>

definition PutLengthPrefixedSlice :: "bytes \<Rightarrow> slice \<Rightarrow> bytes" where
  "PutLengthPrefixedSlice dst val = PutVarint32 dst (of_nat (length val)) @ val"

function VarintLength_loop :: "u64 \<Rightarrow> int \<Rightarrow> int" where
  "VarintLength_loop v len = (if 128 \<le> v then VarintLength_loop (drop_bit 7 v) (len + 1) else len)"
  by pat_completeness auto
termination
  by (relation "measure (\<lambda>(v, len). unat v)") (auto simp: unat_shift7 word_le_nat_alt)

declare VarintLength_loop.simps [simp del]

definition VarintLength :: "u64 \<Rightarrow> int" where
  "VarintLength v = VarintLength_loop v 1"

text \<open>
  The pointers \<open>p\<close> and \<open>limit\<close> are the bytes between them; the result is the value and the bytes from the returned
  pointer on, \<open>None\<close> the null pointer.
\<close>

fun varint32_loop :: "bytes \<Rightarrow> nat \<Rightarrow> u32 \<Rightarrow> (u32 \<times> bytes) option" where
  "varint32_loop [] shift result = None"
| "varint32_loop (b # p) shift result =
     (if shift \<le> 28
      then let byte = ucast b in
           if byte AND 128 \<noteq> 0 then varint32_loop p (shift + 7) (result OR push_bit shift (byte AND 127))
           else Some (result OR push_bit shift byte, p)
      else None)"

definition GetVarint32PtrFallback :: "bytes \<Rightarrow> (u32 \<times> bytes) option" where
  "GetVarint32PtrFallback p = varint32_loop p 0 0"

definition GetVarint32Ptr :: "bytes \<Rightarrow> (u32 \<times> bytes) option" where
  "GetVarint32Ptr p =
     (case p of
        b # q \<Rightarrow> let result = ucast b in if result AND 128 = 0 then Some (result, q) else GetVarint32PtrFallback p
      | [] \<Rightarrow> GetVarint32PtrFallback p)"

definition GetVarint32 :: "slice \<Rightarrow> (u32 \<times> slice) option" where
  "GetVarint32 input = GetVarint32Ptr input"

fun varint64_loop :: "bytes \<Rightarrow> nat \<Rightarrow> u64 \<Rightarrow> (u64 \<times> bytes) option" where
  "varint64_loop [] shift result = None"
| "varint64_loop (b # p) shift result =
     (if shift \<le> 63
      then let byte = ucast b in
           if byte AND 128 \<noteq> 0 then varint64_loop p (shift + 7) (result OR push_bit shift (byte AND 127))
           else Some (result OR push_bit shift byte, p)
      else None)"

definition GetVarint64Ptr :: "bytes \<Rightarrow> (u64 \<times> bytes) option" where
  "GetVarint64Ptr p = varint64_loop p 0 0"

definition GetVarint64 :: "slice \<Rightarrow> (u64 \<times> slice) option" where
  "GetVarint64 input = GetVarint64Ptr input"

text \<open>The two versions of \<open>GetLengthPrefixedSlice\<close>: on pointers, and on a slice that is moved on.\<close>

definition GetLengthPrefixedSlicePtr :: "bytes \<Rightarrow> (slice \<times> bytes) option" where
  "GetLengthPrefixedSlicePtr p =
     (case GetVarint32Ptr p of
        None \<Rightarrow> None
      | Some (len, p) \<Rightarrow> if length p < unat len then None else Some (take (unat len) p, drop (unat len) p))"

definition GetLengthPrefixedSlice :: "slice \<Rightarrow> (slice \<times> slice) option" where
  "GetLengthPrefixedSlice input =
     (case GetVarint32 input of
        None \<Rightarrow> None
      | Some (len, input) \<Rightarrow> if unat len \<le> length input then Some (take (unat len) input, drop (unat len) input) else None)"

section \<open>Fixed-length integers\<close>

lemma low_byte: "(ucast (drop_bit n v AND 255) :: byte) = word_of_int (uint v div 2 ^ n)" for v :: "'a::len word"
proof (rule bit_word_eqI)
  fix i assume i: "i < LENGTH(8)"
  have m: "(255 :: 'a word) = mask 8" by (simp add: mask_eq_exp_minus_1)
  have "uint v div 2 ^ n = drop_bit n (uint v)" by (simp add: drop_bit_eq_div)
  then show "bit (ucast (drop_bit n v AND 255) :: byte) i \<longleftrightarrow> bit (word_of_int (uint v div 2 ^ n) :: byte) i"
    using i unfolding m by (auto simp: bit_simps dest: bit_imp_le_length)
qed

lemma EncodeFixed_le_bytes: "EncodeFixed32 v = le_bytes 4 (uint v)" "EncodeFixed64 w = le_bytes 8 (uint w)"
  using low_byte [of 0 v] low_byte [of 0 w]
  by (simp_all add: EncodeFixed32_def EncodeFixed64_def eval_nat_numeral low_byte zdiv_zmult2_eq [symmetric])

lemma length_EncodeFixed [simp]: "length (EncodeFixed32 v) = 4" "length (EncodeFixed64 w) = 8"
  by (simp_all add: EncodeFixed32_def EncodeFixed64_def)


lemma Decode_Encode32 [simp]: "DecodeFixed32 (EncodeFixed32 v @ rest) = Inr v"
proof -
  have m: "(255 :: u32) = mask 8" by (simp add: mask_eq_exp_minus_1)
  let ?b = "\<lambda>n. ucast (drop_bit n v AND 255) :: byte"
  have "(ucast (?b 0) OR push_bit 8 (ucast (?b 8)) OR push_bit 16 (ucast (?b 16)) OR push_bit 24 (ucast (?b 24)) :: u32) = v"
    unfolding m
  proof (rule bit_word_eqI)
    fix i assume "i < LENGTH(32)"
    then consider "i < 8" | "8 \<le> i" "i < 16" | "16 \<le> i" "i < 24" | "24 \<le> i" "i < 32" by fastforce
    then show "bit (ucast (ucast (drop_bit 0 v AND mask 8) :: byte) OR push_bit 8 (ucast (ucast (drop_bit 8 v AND mask 8) :: byte))
       OR push_bit 16 (ucast (ucast (drop_bit 16 v AND mask 8) :: byte)) OR push_bit 24 (ucast (ucast (drop_bit 24 v AND mask 8) :: byte)) :: u32) i \<longleftrightarrow> bit v i"
      by cases (auto simp: bit_simps)
  qed
  then show ?thesis by (simp add: DecodeFixed32_def EncodeFixed32_def load_bytes_def)
qed

lemma Decode_Encode64 [simp]: "DecodeFixed64 (EncodeFixed64 v @ rest) = Inr v"
proof -
  let ?lo = "ucast v :: u32" and ?hi = "ucast (drop_bit 32 v) :: u32"
  have "EncodeFixed64 v = EncodeFixed32 ?lo @ EncodeFixed32 ?hi"
  proof -
    have m: "(255 :: u32) = mask 8" "(255 :: u64) = mask 8" by (simp_all add: mask_eq_exp_minus_1)
    have "(ucast (drop_bit n v AND 255) :: byte) = ucast (drop_bit n (ucast v :: u32) AND 255)" if "n + 8 \<le> 32" for n
      unfolding m using that by (intro bit_word_eqI) (auto simp: bit_simps)
    moreover have "(ucast (drop_bit (32 + n) v AND 255) :: byte) = ucast (drop_bit n (ucast (drop_bit 32 v) :: u32) AND 255)" if "n + 8 \<le> 32" for n
      unfolding m using that by (intro bit_word_eqI) (auto simp: bit_simps ac_simps)
    from this [of 0] this [of 8] this [of 16] this [of 24] calculation [of 0] calculation [of 8] calculation [of 16] calculation [of 24]
    show ?thesis by (simp add: EncodeFixed64_def EncodeFixed32_def)
  qed
  then have "DecodeFixed32 (EncodeFixed64 v @ rest) = Inr ?lo" "DecodeFixed32 (drop 4 (EncodeFixed64 v @ rest)) = Inr ?hi" by simp_all
  moreover have "push_bit 32 (ucast ?hi) OR ucast ?lo = v" by (intro bit_word_eqI) (auto simp: bit_simps)
  ultimately show ?thesis by (simp add: DecodeFixed64_def)
qed

lemma DecodeFixed_short: "length p < 4 \<Longrightarrow> DecodeFixed32 p = Inl Out_of_bounds"
  by (simp add: DecodeFixed32_def load_bytes_def)

section \<open>Varints\<close>

text \<open>The reference: seven bits per byte, the low ones first, the top bit set on all bytes but the last.\<close>

fun varint :: "nat \<Rightarrow> bytes" where
  "varint n = (if n < 128 then [of_nat n] else of_nat (n mod 128 + 128) # varint (n div 128))"

declare varint.simps [simp del]

lemma varint_small: "n < 128 \<Longrightarrow> varint n = [of_nat n]"
  by (simp add: varint.simps)

lemma varint_big: "128 \<le> n \<Longrightarrow> varint n = of_nat (n mod 128 + 128) # varint (n div 128)"
  by (simp add: varint.simps)

lemma bit_128: "bit (128 :: int) n \<longleftrightarrow> n = 7"
  using bit_exp_iff [of 7 n, where 'a = int] by simp

lemma bit_127: "bit (127 :: int) n \<longleftrightarrow> n < 7"
  using bit_mask_iff [of 7 n, where 'a = int] by (simp add: mask_eq_exp_minus_1)

lemma or_128_byte: "((b :: byte) AND 127) OR 128 = of_nat (unat b mod 128 + 128)"
proof -
  have z: "(b AND 127) AND 128 = 0" by (intro bit_word_eqI) (simp add: bit_simps bit_127 bit_128)
  have "(b AND 127) OR 128 = (b AND 127) + 128" using disjunctive_add_eq_or [OF z] by simp
  moreover have "b AND 127 = of_nat (unat b mod 128)"
  proof -
    have "b AND 127 = take_bit 7 (of_nat (unat b))" by (simp add: take_bit_eq_mask mask_eq_exp_minus_1)
    also have "\<dots> = of_nat (take_bit 7 (unat b))" by (simp only: of_nat_take_bit)
    finally show ?thesis by (simp add: take_bit_eq_mod)
  qed
  ultimately show ?thesis by simp
qed

lemma low7_or:
  fixes v :: "'a::len word"
  assumes "8 \<le> LENGTH('a)"
  shows "(ucast ((v AND 127) OR 128) :: byte) = of_nat (unat v mod 128 + 128)"
    and "(ucast (v OR 128) :: byte) = of_nat (unat v mod 128 + 128)"
proof -
  have u: "unat (ucast v :: byte) mod 128 = unat v mod 128"
    by (simp add: unsigned_ucast_eq take_bit_eq_mod mod_mod_cancel)
  have "(ucast ((v AND 127) OR 128) :: byte) = (ucast v AND 127) OR 128"
    using assms by (intro bit_word_eqI) (auto simp: bit_simps bit_127 bit_128)
  then show "(ucast ((v AND 127) OR 128) :: byte) = of_nat (unat v mod 128 + 128)" using u by (simp only: or_128_byte)
  have "(ucast (v OR 128) :: byte) = (ucast v AND 127) OR 128"
    using assms by (intro bit_word_eqI) (auto simp: bit_simps bit_127 bit_128)
  then show "(ucast (v OR 128) :: byte) = of_nat (unat v mod 128 + 128)" using u by (simp only: or_128_byte)
qed

lemma EncodeVarint64_varint: "EncodeVarint64 v = varint (unat v)"
proof (induction v rule: EncodeVarint64.induct)
  case (1 v)
  show ?case
  proof (cases "128 \<le> v")
    case True
    then have "128 \<le> unat v" by (simp add: word_le_nat_alt)
    moreover have "(ucast ((v AND 127) OR 128) :: byte) = of_nat (unat v mod 128 + 128)" by (rule low7_or(1)) simp
    ultimately show ?thesis using 1 True by (subst EncodeVarint64.simps) (simp only: if_True varint_big unat_shift7)
  next
    case False
    then have "unat v < 128" by (simp add: word_le_nat_alt)
    then show ?thesis using False by (subst EncodeVarint64.simps) (simp add: varint_small)
  qed
qed

lemma unat_drop: "unat (drop_bit n v) = unat v div 2 ^ n" for v :: "'a::len word"
  unfolding unat_drop_bit_eq by (simp add: drop_bit_eq_div)

lemma EncodeVarint32_varint: "EncodeVarint32 v = varint (unat v)"
proof -
  have lt: "v < 128 \<longleftrightarrow> unat v < 128" "v < 16384 \<longleftrightarrow> unat v < 16384" "v < 2097152 \<longleftrightarrow> unat v < 2097152" "v < 268435456 \<longleftrightarrow> unat v < 268435456"
    by (simp_all add: word_less_nat_alt)
  have d: "unat v div 128 div 128 = unat v div 16384" "unat v div 16384 div 128 = unat v div 2097152" "unat v div 2097152 div 128 = unat v div 268435456"
    by (simp_all add: div_mult2_eq [symmetric])
  have u: "unat v < 4294967296" using unsigned_less [of v, where 'a = nat] by simp
  have b: "(ucast (drop_bit k v OR 128) :: byte) = of_nat (unat v div 2 ^ k mod 128 + 128)" for k
    using low7_or(2) [of "drop_bit k v"] by (simp add: unat_drop)
  have e: "(ucast (v OR 128) :: byte) = of_nat (unat v mod 128 + 128)" by (rule low7_or(2)) simp
  have c: "(ucast (drop_bit k v) :: byte) = of_nat (unat v div 2 ^ k)" for k
    using arg_cong [OF unat_drop [of k v], of "of_nat :: nat \<Rightarrow> byte"] by simp
  note rules = EncodeVarint32_def varint_big varint_small lt d e b [of 7, simplified] b [of 14, simplified] b [of 21, simplified]
    c [of 7, simplified] c [of 14, simplified] c [of 21, simplified] c [of 28, simplified]
  consider "unat v < 128" | "128 \<le> unat v" "unat v < 16384" | "16384 \<le> unat v" "unat v < 2097152" | "2097152 \<le> unat v" "unat v < 268435456" | "268435456 \<le> unat v"
    by linarith
  then show ?thesis
  proof cases
    case 1
    then show ?thesis by (simp add: rules)
  next
    case 2
    then have "unat v div 128 < 128" by linarith
    then show ?thesis using 2 by (simp add: rules)
  next
    case 3
    then have "unat v div 16384 < 128" "128 \<le> unat v div 128" by linarith+
    then show ?thesis using 3 by (simp add: rules)
  next
    case 4
    then have "unat v div 2097152 < 128" "128 \<le> unat v div 16384" "128 \<le> unat v div 128" by linarith+
    then show ?thesis using 4 by (simp add: rules)
  next
    case 5
    then have "unat v div 268435456 < 128" "128 \<le> unat v div 2097152" "128 \<le> unat v div 16384" "128 \<le> unat v div 128" using u by linarith+
    then show ?thesis using 5 by (simp add: rules)
  qed
qed


text \<open>Both decoders are instances of one loop over words of any length.\<close>

fun vloop :: "nat \<Rightarrow> bytes \<Rightarrow> nat \<Rightarrow> 'a::len word \<Rightarrow> ('a word \<times> bytes) option" where
  "vloop lim [] shift result = None"
| "vloop lim (b # p) shift result =
     (if shift \<le> lim
      then let byte = ucast b in
           if byte AND 128 \<noteq> 0 then vloop lim p (shift + 7) (result OR push_bit shift (byte AND 127))
           else Some (result OR push_bit shift byte, p)
      else None)"

lemma varint_loops_vloop: "varint32_loop p s r = vloop 28 p s r" "varint64_loop p s q = vloop 63 p s q"
proof -
  show "varint32_loop p s r = vloop 28 p s r" by (induction p arbitrary: s r) (simp_all add: Let_def)
  show "varint64_loop p s q = vloop 63 p s q" by (induction p arbitrary: s q) (simp_all add: Let_def)
qed

lemma or_shift:
  assumes "r < 2 ^ s"
  shows "(of_nat r OR push_bit s (of_nat m) :: 'a::len word) = of_nat (r + m * 2 ^ s)"
proof -
  have "r = take_bit s r" using assms by (simp add: take_bit_nat_eq_self)
  then have "bit r n \<Longrightarrow> n < s" for n by (metis bit_take_bit_iff)
  then have "\<not> (bit r n \<and> bit (push_bit s m) n)" for n using bit_push_bit_iff_nat [of s m n] linorder_not_less by blast
  then have "r AND push_bit s m = 0" by (intro bit_eqI) (simp add: bit_and_iff)
  then have "r + m * 2 ^ s = r OR push_bit s m" using disjunctive_add_eq_or [of r "push_bit s m"] by (simp add: push_bit_eq_mult)
  then show ?thesis by (simp only: of_nat_or_eq push_bit_of_nat)
qed

lemma and_128_bit: "8 \<le> LENGTH('a) \<Longrightarrow> x AND 128 = 0 \<longleftrightarrow> \<not> bit x 7" for x :: "'a::len word"
proof -
  assume a: "8 \<le> LENGTH('a)"
  have "x AND 128 = 0 \<longleftrightarrow> (\<forall>n. \<not> bit (x AND 128) n)" by (metis bit_eqI bit_0_eq bot_apply bot_bool_def)
  moreover have "bit (x AND 128) n \<longleftrightarrow> bit x n \<and> n = 7" for n using a by (auto simp: bit_simps bit_128)
  moreover have "(\<forall>n. \<not> (bit x n \<and> n = 7)) \<longleftrightarrow> \<not> bit x 7" by auto
  ultimately show ?thesis by simp
qed

lemma byte_facts:
  assumes "8 \<le> LENGTH('a)" and "k < 256"
  shows "(ucast (of_nat k :: byte) :: 'a::len word) = of_nat k"
    and "(of_nat k :: 'a word) AND 128 = 0 \<longleftrightarrow> k < 128" and "(of_nat k :: 'a word) AND 127 = of_nat (k mod 128)"
proof -
  show "(ucast (of_nat k :: byte) :: 'a word) = of_nat k" using assms(2) by (simp add: unsigned_of_nat take_bit_nat_eq_self)
  have "bit (of_nat k :: 'a word) 7 \<longleftrightarrow> bit k 7" using assms(1) by (simp add: bit_of_nat_iff)
  moreover have "bit k 7 \<longleftrightarrow> \<not> k < 128"
  proof -
    have "k div 128 < 2" using assms(2) by linarith
    then have "odd (k div 128) \<longleftrightarrow> 1 \<le> k div 128" by (cases "k div 128" rule: nat.exhaust) auto
    then show ?thesis by (auto simp: bit_iff_odd)
  qed
  ultimately show "(of_nat k :: 'a word) AND 128 = 0 \<longleftrightarrow> k < 128" using and_128_bit [OF assms(1), of "of_nat k"] by simp
  have "(of_nat k :: 'a word) AND 127 = take_bit 7 (of_nat k)" by (simp add: take_bit_eq_mask mask_eq_exp_minus_1)
  then show "(of_nat k :: 'a word) AND 127 = of_nat (k mod 128)" unfolding take_bit_of_nat by (simp add: take_bit_eq_mod)
qed

lemma vloop_varint:
  assumes "8 \<le> LENGTH('a)"
  shows "r < 2 ^ s \<Longrightarrow> s + 7 * (length (varint n) - 1) \<le> lim \<Longrightarrow>
    vloop lim (varint n @ rest) s (of_nat r :: 'a::len word) = Some (of_nat (r + n * 2 ^ s), rest)"
proof (induction n arbitrary: r s rule: varint.induct)
  case (1 n)
  show ?case
  proof (cases "n < 128")
    case True
    then show ?thesis using 1 byte_facts [OF assms, of n] or_shift [OF 1(2), of n, where 'a = 'a] by (simp add: varint_small)
  next
    case False
    let ?k = "n mod 128 + 128" and ?r = "r + n mod 128 * 2 ^ s"
    have v: "varint n = of_nat ?k # varint (n div 128)" using False by (simp add: varint_big)
    have len: "1 \<le> length (varint (n div 128))" by (subst varint.simps) simp
    have lim: "s + 7 + 7 * (length (varint (n div 128)) - 1) \<le> lim" using 1(3) len unfolding v by simp
    have "n mod 128 + 1 \<le> 128" by (simp add: Suc_leI)
    then have "(n mod 128 + 1) * 2 ^ s \<le> 128 * 2 ^ s" by (rule mult_le_mono1)
    moreover have "(n mod 128 + 1) * 2 ^ s = n mod 128 * 2 ^ s + 2 ^ s" "(2 :: nat) ^ (s + 7) = 128 * 2 ^ s" by (simp_all add: power_add)
    ultimately have r: "?r < 2 ^ (s + 7)" using 1(2) by linarith
    have k: "?k < 256" "\<not> ?k < 128" "?k mod 128 = n mod 128" by simp_all
    have e: "?r + n div 128 * 2 ^ (s + 7) = r + n * 2 ^ s"
    proof -
      have "n mod 128 * 2 ^ s + n div 128 * 2 ^ (s + 7) = (n mod 128 + 128 * (n div 128)) * 2 ^ s" unfolding power_add add_mult_distrib by simp
      moreover have "n mod 128 + 128 * (n div 128) = n" by simp
      ultimately show ?thesis by (metis add.assoc)
    qed
    have "vloop lim (varint (n div 128) @ rest) (s + 7) (of_nat ?r :: 'a word) = Some (of_nat (?r + n div 128 * 2 ^ (s + 7)), rest)"
      using 1(1) [OF False r lim] .
    then show ?thesis
      unfolding v e using lim byte_facts [OF assms k(1)] k or_shift [OF 1(2), of "n mod 128", where 'a = 'a] by (simp add: Let_def)
  qed
qed

lemma length_varint: "n < 128 ^ k \<Longrightarrow> 0 < k \<Longrightarrow> length (varint n) \<le> k"
proof (induction n arbitrary: k rule: varint.induct)
  case (1 n)
  show ?case
  proof (cases "n < 128")
    case False
    then obtain j where j: "k = Suc j" "0 < j" using 1(2,3) by (cases k; cases "k - 1") auto
    then have "n div 128 < 128 ^ j" using 1(2) by (simp add: less_mult_imp_div_less mult.commute)
    then show ?thesis using 1(1) [OF False] False j by (simp add: varint_big)
  qed (use 1 in \<open>simp add: varint_small\<close>)
qed

lemma GetVarint64_varint: "n < 2 ^ 64 \<Longrightarrow> GetVarint64 (varint n @ rest) = Some (of_nat n, rest)"
proof -
  assume n: "n < 2 ^ 64"
  have "length (varint n) \<le> 10" using n by (intro length_varint) auto
  then show ?thesis
    using vloop_varint [of 0 0 n 63 rest, where 'a = 64] by (simp add: GetVarint64_def GetVarint64Ptr_def varint_loops_vloop)
qed

lemma GetVarint32_fallback: "GetVarint32 p = GetVarint32PtrFallback p"
  by (auto simp: GetVarint32_def GetVarint32Ptr_def GetVarint32PtrFallback_def Let_def split: list.splits)

lemma GetVarint32_varint: "n < 2 ^ 32 \<Longrightarrow> GetVarint32 (varint n @ rest) = Some (of_nat n, rest)"
proof -
  assume n: "n < 2 ^ 32"
  have "length (varint n) \<le> 5" using n by (intro length_varint) auto
  then show ?thesis
    using vloop_varint [of 0 0 n 28 rest, where 'a = 32] by (simp add: GetVarint32_fallback GetVarint32PtrFallback_def varint_loops_vloop)
qed

lemma GetVarint_Put [simp]: "GetVarint32 (EncodeVarint32 v @ rest) = Some (v, rest)" "GetVarint64 (EncodeVarint64 w @ rest) = Some (w, rest)"
  using GetVarint32_varint [of "unat v" rest] GetVarint64_varint [of "unat w" rest] unsigned_less [of v, where 'a = nat] unsigned_less [of w, where 'a = nat]
  by (simp_all add: EncodeVarint32_varint EncodeVarint64_varint)

text \<open>A truncated encoding is rejected.\<close>

lemma varint_init: "i < length (varint n) - 1 \<Longrightarrow> \<exists>k. 128 \<le> k \<and> k < 256 \<and> varint n ! i = of_nat k"
proof (induction n arbitrary: i rule: varint.induct)
  case (1 n)
  then have big: "\<not> n < 128" by (auto simp: varint_small)
  show ?case
  proof (cases i)
    case 0
    then show ?thesis using big by (intro exI [of _ "n mod 128 + 128"]) (simp add: varint_big)
  next
    case (Suc j)
    then show ?thesis using 1 big by (simp add: varint_big)
  qed
qed

lemma vloop_truncated:
  assumes "8 \<le> LENGTH('a)"
  shows "\<forall>b \<in> set p. \<exists>k. 128 \<le> k \<and> k < 256 \<and> b = of_nat k \<Longrightarrow> vloop lim p s (r :: 'a::len word) = None"
proof (induction lim p s r rule: vloop.induct)
  case (2 lim b p s r)
  then obtain k where k: "128 \<le> k" "k < 256" "b = of_nat k" by auto
  show ?case using 2 k byte_facts [OF assms k(2)] by (simp add: Let_def)
qed simp

lemma varint_truncated:
  assumes "i < length (varint n)"
  shows "GetVarint32 (take i (varint n)) = None" and "GetVarint64 (take i (varint n)) = None"
proof -
  have c: "\<forall>b \<in> set (take i (varint n)). \<exists>k. 128 \<le> k \<and> k < 256 \<and> b = of_nat k"
    using varint_init [of _ n] assms by (auto simp: in_set_conv_nth)
  show "GetVarint32 (take i (varint n)) = None"
    using vloop_truncated [OF _ c, where 'a = 32] by (simp add: GetVarint32_fallback GetVarint32PtrFallback_def varint_loops_vloop)
  show "GetVarint64 (take i (varint n)) = None"
    using vloop_truncated [OF _ c, where 'a = 64] by (simp add: GetVarint64_def GetVarint64Ptr_def varint_loops_vloop)
qed

lemma VarintLength_eq: "VarintLength v = int (length (EncodeVarint64 v))"
proof -
  have "VarintLength_loop v l = l - 1 + int (length (EncodeVarint64 v))" for l
  proof (induction v arbitrary: l rule: EncodeVarint64.induct)
    case (1 v)
    show ?case using 1 by (subst VarintLength_loop.simps, subst EncodeVarint64.simps) auto
  qed
  then show ?thesis by (simp add: VarintLength_def)
qed

section \<open>Length-prefixed slices\<close>

lemma GetLengthPrefixedSlice_Put:
  assumes "length val < 2 ^ 32"
  shows "GetLengthPrefixedSlice (PutLengthPrefixedSlice [] val @ rest) = Some (val, rest)"
    and "GetLengthPrefixedSlicePtr (PutLengthPrefixedSlice [] val @ rest) = Some (val, rest)"
proof -
  have u: "unat (of_nat (length val) :: u32) = length val" using assms by (simp add: unat_of_nat)
  show "GetLengthPrefixedSlice (PutLengthPrefixedSlice [] val @ rest) = Some (val, rest)"
    by (simp add: GetLengthPrefixedSlice_def PutLengthPrefixedSlice_def PutVarint32_def u)
  have "GetVarint32Ptr (EncodeVarint32 (of_nat (length val)) @ val @ rest) = Some (of_nat (length val), val @ rest)"
    using GetVarint_Put(1) by (simp add: GetVarint32_def)
  then show "GetLengthPrefixedSlicePtr (PutLengthPrefixedSlice [] val @ rest) = Some (val, rest)"
    by (simp add: GetLengthPrefixedSlicePtr_def PutLengthPrefixedSlice_def PutVarint32_def u)
qed

text \<open>Reading moves on by at least one byte.\<close>

lemma varint32_shorter: "GetVarint32 p = Some (x, q) \<Longrightarrow> length q < length p"
proof -
  have v: "varint32_loop p sh r = Some (x, q) \<Longrightarrow> length q < length p" for p sh r x q
    by (induction p sh r rule: varint32_loop.induct) (auto simp: Let_def split: if_splits)
  show "GetVarint32 p = Some (x, q) \<Longrightarrow> length q < length p"
    by (auto simp: GetVarint32_def GetVarint32Ptr_def GetVarint32PtrFallback_def Let_def split: list.splits if_splits dest!: v)
qed

lemma varint64_shorter: "GetVarint64 p = Some (x, q) \<Longrightarrow> length q < length p"
proof -
  have v: "varint64_loop p sh r = Some (x, q) \<Longrightarrow> length q < length p" for p sh r x q
    by (induction p sh r rule: varint64_loop.induct) (auto simp: Let_def split: if_splits)
  show "GetVarint64 p = Some (x, q) \<Longrightarrow> length q < length p"
    by (auto simp: GetVarint64_def GetVarint64Ptr_def dest!: v)
qed

lemma prefixed_shorter: "GetLengthPrefixedSlice p = Some (x, q) \<Longrightarrow> length q < length p"
  by (auto simp: GetLengthPrefixedSlice_def split: option.splits if_splits dest!: varint32_shorter)

end
