(* ===== verification/Ldb_Comparator.thy ===== *)
theory Ldb_Comparator
  imports Ldb_Coding
begin

text \<open>
  Byte strings of LevelDB and their order: \<^verbatim>\<open>include/leveldb/slice.h\<close> and the comparator of
  \<^verbatim>\<open>util/comparator.cc\<close>. A comparator object is a record of its virtual functions. The order is shown to be the
  lexicographic one, which interprets the contract \<open>three_way\<close>, and the two shortening functions are shown to return keys in
  the promised place.
\<close>

section \<open>Model\<close>

text \<open>\<open>memcmp\<close> of two blocks of the same length: the difference of the first bytes that differ, as unsigned characters.\<close>

fun memcmp :: "bytes \<Rightarrow> bytes \<Rightarrow> int" where
  "memcmp (x # xs) (y # ys) = (if x = y then memcmp xs ys else uint x - uint y)"
| "memcmp _ _ = 0"

text \<open>\<open>compare\<close> keeps the shorter size in an \<open>int\<close>; the sizes are below 2 GB here.\<close>

definition slice_compare :: "slice \<Rightarrow> slice \<Rightarrow> int" where
  "slice_compare a b =
     (let min_len = min (length a) (length b); r = memcmp (take min_len a) (take min_len b) in
      if r = 0 then (if length a < length b then -1 else if length b < length a then 1 else 0) else r)"

definition starts_with :: "slice \<Rightarrow> slice \<Rightarrow> bool" where
  "starts_with s x \<longleftrightarrow> length x \<le> length s \<and> memcmp (take (length x) s) x = 0"

text \<open>A comparator object: its three virtual functions that the library calls.\<close>

record Comparator =
  cmp_Compare :: "slice \<Rightarrow> slice \<Rightarrow> int res"
  cmp_FindShortestSeparator :: "bytes \<Rightarrow> slice \<Rightarrow> bytes res"
  cmp_FindShortSuccessor :: "bytes \<Rightarrow> bytes res"

fun diff_index_loop :: "nat \<Rightarrow> bytes \<Rightarrow> bytes \<Rightarrow> nat \<Rightarrow> nat" where
  "diff_index_loop 0 start limit diff_index = diff_index"
| "diff_index_loop (Suc k) start limit diff_index =
     (if start ! diff_index = limit ! diff_index then diff_index_loop k start limit (diff_index + 1) else diff_index)"

definition bytewise_FindShortestSeparator :: "bytes \<Rightarrow> slice \<Rightarrow> bytes res" where
  "bytewise_FindShortestSeparator start limit =
     (let min_length = min (length start) (length limit);
          diff_index = diff_index_loop min_length start limit 0 in
      if min_length \<le> diff_index then Inr start
      else let diff_byte = start ! diff_index in
           if diff_byte < 255 \<and> unat diff_byte + 1 < unat (limit ! diff_index)
           then let start = take (diff_index + 1) (start[diff_index := diff_byte + 1]) in
                bindR (assertR (slice_compare start limit < 0)) (\<lambda>_. Inr start)
           else Inr start)"

fun short_successor_loop :: "nat \<Rightarrow> nat \<Rightarrow> bytes \<Rightarrow> bytes" where
  "short_successor_loop 0 i key = key"
| "short_successor_loop (Suc k) i key =
     (let byte = key ! i in
      if byte \<noteq> 255 then take (i + 1) (key[i := byte + 1]) else short_successor_loop k (i + 1) key)"

definition bytewise_FindShortSuccessor :: "bytes \<Rightarrow> bytes res" where
  "bytewise_FindShortSuccessor key = Inr (short_successor_loop (length key) 0 key)"

definition BytewiseComparator :: Comparator where
  "BytewiseComparator = \<lparr>cmp_Compare = (\<lambda>a b. Inr (slice_compare a b)),
     cmp_FindShortestSeparator = bytewise_FindShortestSeparator, cmp_FindShortSuccessor = bytewise_FindShortSuccessor\<rparr>"

section \<open>The order of byte strings\<close>

abbreviation byte_lex :: "(bytes \<times> bytes) set" where
  "byte_lex \<equiv> lexord {(x, y). x < y}"

lemma memcmp_take: "memcmp (take (min (length a) (length b)) a) (take (min (length a) (length b)) b) = memcmp a b"
  by (induction a b rule: memcmp.induct) simp_all

lemma uint_eq [simp]: "uint x = uint y \<longleftrightarrow> x = y" for x y :: byte
  by (simp add: word_uint_eq_iff)

lemma byte_Suc: "b \<noteq> 255 \<Longrightarrow> unat (b + 1) = unat b + 1" for b :: byte
proof -
  assume "b \<noteq> 255"
  then have "unat b \<noteq> 255" by (simp add: word_unat_eq_iff)
  moreover have "unat b < 256" using unsigned_less [of b, where 'a = nat] by simp
  ultimately show ?thesis by (simp add: unat_word_ariths)
qed

lemma uint_less: "uint x < uint y \<longleftrightarrow> x < y" for x y :: byte
  by (simp add: word_less_def)

lemma slice_compare_Cons: "slice_compare (x # a) (y # b) = (if x = y then slice_compare a b else uint x - uint y)"
proof -
  have "uint x - uint y = 0 \<longleftrightarrow> x = y" using uint_eq [of x y] by linarith
  then show ?thesis by (simp add: slice_compare_def Let_def)
qed

lemma slice_compare_Nil: "slice_compare [] b = (if b = [] then 0 else -1)" "slice_compare a [] = (if a = [] then 0 else 1)"
  by (auto simp: slice_compare_def)

lemma slice_compare_less: "slice_compare a b < 0 \<longleftrightarrow> (a, b) \<in> byte_lex"
proof (induction a b rule: memcmp.induct)
  case (1 x xs y ys)
  then show ?case using uint_less [of x y] by (auto simp: slice_compare_Cons)
qed (auto simp: slice_compare_Nil neq_Nil_conv)

lemma slice_compare_eq: "slice_compare a b = 0 \<longleftrightarrow> a = b"
proof (induction a b rule: memcmp.induct)
  case (1 x xs y ys)
  then show ?case by (auto simp: slice_compare_Cons)
qed (auto simp: slice_compare_Nil)

lemma slice_compare_flip: "slice_compare b a < 0 \<longleftrightarrow> 0 < slice_compare a b"
proof (induction a b rule: memcmp.induct)
  case (1 x xs y ys)
  then show ?case using uint_less [of x y] uint_less [of y x] by (auto simp: slice_compare_Cons)
qed (auto simp: slice_compare_Nil)

lemma byte_lex_trans: "(a, b) \<in> byte_lex \<Longrightarrow> (b, c) \<in> byte_lex \<Longrightarrow> (a, c) \<in> byte_lex"
  by (rule lexord_trans) (auto simp: trans_def)

interpretation bytewise: three_way slice_compare "\<lambda>_. True"
proof
  fix x y z :: bytes
  show "slice_compare x x = 0" by (simp add: slice_compare_eq)
  show "slice_compare x y < 0 \<longleftrightarrow> 0 < slice_compare y x" using slice_compare_flip [of x y] by simp
  assume "slice_compare x y \<le> 0" "slice_compare y z \<le> 0"
  then have "(x, y) \<in> byte_lex \<or> x = y" "(y, z) \<in> byte_lex \<or> y = z"
    using slice_compare_less slice_compare_eq by (metis order_le_less)+
  then have "(x, z) \<in> byte_lex \<or> x = z" using byte_lex_trans [of x y z] by blast
  then show "slice_compare x z \<le> 0" using slice_compare_less [of x z] slice_compare_eq [of x z] by auto
qed

lemma memcmp_eq: "length a = length b \<Longrightarrow> memcmp a b = 0 \<longleftrightarrow> a = b"
  by (induction a b rule: memcmp.induct) auto

lemma starts_with_prefix: "starts_with s x \<longleftrightarrow> (\<exists>t. s = x @ t)"
proof
  assume "starts_with s x"
  then have "length (take (length x) s) = length x" "memcmp (take (length x) s) x = 0" by (simp_all add: starts_with_def)
  then have "take (length x) s = x" using memcmp_eq by blast
  then show "\<exists>t. s = x @ t" by (metis append_take_drop_id)
next
  assume "\<exists>t. s = x @ t"
  then show "starts_with s x" by (auto simp: starts_with_def memcmp_eq)
qed

section \<open>Short separators and successors\<close>

lemma diff_index_loop_spec:
  assumes "d + k = min (length a) (length b)"
  shows "let i = diff_index_loop k a b d in d \<le> i \<and> i \<le> d + k \<and> (\<forall>j. d \<le> j \<and> j < i \<longrightarrow> a ! j = b ! j) \<and> (i < d + k \<longrightarrow> a ! i \<noteq> b ! i)"
  using assms
proof (induction k arbitrary: d)
  case (Suc k)
  have "let i = diff_index_loop k a b (d + 1) in d + 1 \<le> i \<and> i \<le> d + 1 + k \<and> (\<forall>j. d + 1 \<le> j \<and> j < i \<longrightarrow> a ! j = b ! j) \<and> (i < d + 1 + k \<longrightarrow> a ! i \<noteq> b ! i)"
    using Suc.IH [of "d + 1"] Suc.prems by simp
  moreover have "a ! j = b ! j" if "a ! d = b ! d" "\<forall>j. Suc d \<le> j \<and> j < i \<longrightarrow> a ! j = b ! j" "d \<le> j" "j < i" for i j
    using that by (cases "j = d") auto
  ultimately show ?case by (simp add: Let_def) blast
qed (auto simp: Let_def)

lemma lex_at:
  assumes "i < length a" "i < length b" "\<forall>j < i. a ! j = b ! j" "a ! i < b ! i"
  shows "(a, b) \<in> byte_lex"
proof -
  have "take i a = take i b" using assms by (intro nth_equalityI) auto
  moreover have "a = take i a @ a ! i # drop (Suc i) a" "b = take i b @ b ! i # drop (Suc i) b"
    using assms(1,2) by (simp_all add: id_take_nth_drop)
  ultimately show ?thesis using assms(4) by (metis (mono_tags, lifting) case_prodI lexord_append_left_rightI mem_Collect_eq)
qed

lemma separator_spec:
  "\<exists>s. bytewise_FindShortestSeparator start limit = Inr s \<and> length s \<le> length start
    \<and> (s = start \<or> (start, s) \<in> byte_lex \<and> (s, limit) \<in> byte_lex)"
proof -
  let ?m = "min (length start) (length limit)"
  define i where "i = diff_index_loop ?m start limit 0"
  have i: "i \<le> ?m" "\<forall>j < i. start ! j = limit ! j" "i < ?m \<longrightarrow> start ! i \<noteq> limit ! i"
    using diff_index_loop_spec [of 0 ?m start limit] by (auto simp: i_def Let_def)
  show ?thesis
  proof (cases "i < ?m \<and> start ! i < 255 \<and> unat (start ! i) + 1 < unat (limit ! i)")
    case True
    let ?s = "take (i + 1) (start[i := start ! i + 1])"
    have len: "length ?s = i + 1" "i < length start" "i < length limit" using True by auto
    have "start ! i \<noteq> 255" using True by force
    then have u: "unat (start ! i + 1) = unat (start ! i) + 1" by (rule byte_Suc)
    have s: "?s ! j = start ! j" if "j < i" for j using that len by simp
    have si: "?s ! i = start ! i + 1" using len by simp
    have "(start, ?s) \<in> byte_lex"
      using len s si u by (intro lex_at [of i]) (simp_all add: word_less_nat_alt)
    moreover have "(?s, limit) \<in> byte_lex"
      using len s si u i(2) True by (intro lex_at [of i]) (simp_all add: word_less_nat_alt)
    moreover from this have "slice_compare ?s limit < 0" by (simp add: slice_compare_less)
    moreover from this have "bytewise_FindShortestSeparator start limit = Inr ?s"
      using True unfolding bytewise_FindShortestSeparator_def Let_def i_def [symmetric] by (simp add: min_le_iff_disj)
    ultimately show ?thesis using len by (intro exI [of _ ?s]) simp
  next
    case False
    then show ?thesis by (intro exI [of _ start]) (auto simp: bytewise_FindShortestSeparator_def Let_def i_def)
  qed
qed

lemma successor_loop_spec:
  assumes "i + k = length key"
  shows "let s = short_successor_loop k i key in length s \<le> length key \<and> (s = key \<or> (key, s) \<in> byte_lex)"
  using assms
proof (induction k arbitrary: i)
  case (Suc k)
  show ?case
  proof (cases "key ! i = 255")
    case True
    then show ?thesis using Suc.IH [of "i + 1"] Suc.prems by simp
  next
    case False
    let ?s = "take (i + 1) (key[i := key ! i + 1])"
    have i: "i < length key" "length ?s = i + 1" using Suc.prems by auto
    have u: "unat (key ! i + 1) = unat (key ! i) + 1" using False byte_Suc by blast
    have "(key, ?s) \<in> byte_lex" using i u by (intro lex_at [of i]) (simp_all add: word_less_nat_alt)
    then show ?thesis using False i by simp
  qed
qed simp

lemma short_successor_spec:
  "\<exists>s. bytewise_FindShortSuccessor key = Inr s \<and> length s \<le> length key \<and> (s = key \<or> (key, s) \<in> byte_lex)"
  using successor_loop_spec [of 0 "length key" key] by (simp add: bytewise_FindShortSuccessor_def Let_def)


end
