(* ===== verification/Ldb_Format.thy ===== *)
theory Ldb_Format
  imports Ldb_Comparator
begin

text \<open>
  Internal keys (\<^verbatim>\<open>db/dbformat.h\<close> and \<^verbatim>\<open>db/dbformat.cc\<close>): a user key with a sequence number and a type behind it.
  The locale \<open>key_comparator\<close> is the contract of a comparator; \<open>user_comparator\<close> is its case for user keys, and a
  \<open>sublocale\<close> shows that the comparator of internal keys meets the same contract whenever the one of user keys does. Both are
  interpreted for the bytewise comparator.
\<close>

section \<open>Internal keys: model\<close>

text \<open>\<open>ValueType\<close> is the byte stored in the key: \<open>kTypeDeletion\<close> is 0 and \<open>kTypeValue\<close> is 1.\<close>

definition kTypeDeletion :: byte where "kTypeDeletion = 0"
definition kTypeValue :: byte where "kTypeValue = 1"
definition kValueTypeForSeek :: byte where "kValueTypeForSeek = kTypeValue"

definition kMaxSequenceNumber :: u64 where
  "kMaxSequenceNumber = push_bit 56 1 - 1"

record ParsedInternalKey =
  pik_user_key :: slice
  pik_sequence :: u64
  pik_type :: byte

definition PackSequenceAndType :: "u64 \<Rightarrow> byte \<Rightarrow> u64 res" where
  "PackSequenceAndType seq t =
     bindR (assertR (seq \<le> kMaxSequenceNumber)) (\<lambda>_.
     bindR (assertR (t \<le> kValueTypeForSeek)) (\<lambda>_.
     Inr (push_bit 8 seq OR ucast t)))"

definition InternalKeyEncodingLength :: "ParsedInternalKey \<Rightarrow> nat" where
  "InternalKeyEncodingLength key = length (pik_user_key key) + 8"

definition AppendInternalKey :: "bytes \<Rightarrow> ParsedInternalKey \<Rightarrow> bytes res" where
  "AppendInternalKey result key =
     bindR (PackSequenceAndType (pik_sequence key) (pik_type key)) (\<lambda>num. Inr (PutFixed64 (result @ pik_user_key key) num))"

text \<open>The result is the returned flag with the fields that were stored; \<open>None\<close> when nothing was stored.\<close>

definition ParseInternalKey :: "slice \<Rightarrow> (bool \<times> ParsedInternalKey option) res" where
  "ParseInternalKey internal_key =
     (let n = length internal_key in
      if n < 8 then Inr (False, None)
      else bindR (DecodeFixed64 (drop (n - 8) internal_key)) (\<lambda>num.
           let c = ucast (num AND 255) in
           Inr (c \<le> kTypeValue,
                Some \<lparr>pik_user_key = take (n - 8) internal_key, pik_sequence = drop_bit 8 num, pik_type = c\<rparr>)))"

definition ExtractUserKey :: "slice \<Rightarrow> slice res" where
  "ExtractUserKey internal_key =
     bindR (assertR (8 \<le> length internal_key)) (\<lambda>_. Inr (take (length internal_key - 8) internal_key))"

definition ExtractValueType :: "slice \<Rightarrow> byte res" where
  "ExtractValueType internal_key =
     bindR (assertR (8 \<le> length internal_key)) (\<lambda>_.
     bindR (DecodeFixed64 (drop (length internal_key - 8) internal_key)) (\<lambda>num. Inr (ucast (num AND 255))))"

definition internal_Compare :: "Comparator \<Rightarrow> slice \<Rightarrow> slice \<Rightarrow> int res" where
  "internal_Compare user_comparator akey bkey =
     bindR (ExtractUserKey akey) (\<lambda>a.
     bindR (ExtractUserKey bkey) (\<lambda>b.
     bindR (cmp_Compare user_comparator a b) (\<lambda>r.
     if r = 0
     then bindR (DecodeFixed64 (drop (length akey - 8) akey)) (\<lambda>anum.
          bindR (DecodeFixed64 (drop (length bkey - 8) bkey)) (\<lambda>bnum.
          Inr (if bnum < anum then -1 else if anum < bnum then 1 else r)))
     else Inr r)))"

definition internal_FindShortestSeparator :: "Comparator \<Rightarrow> bytes \<Rightarrow> slice \<Rightarrow> bytes res" where
  "internal_FindShortestSeparator user_comparator start limit =
     bindR (ExtractUserKey start) (\<lambda>user_start.
     bindR (ExtractUserKey limit) (\<lambda>user_limit.
     bindR (cmp_FindShortestSeparator user_comparator user_start user_limit) (\<lambda>tmp.
     if length tmp < length user_start
     then bindR (cmp_Compare user_comparator user_start tmp) (\<lambda>r.
          if r < 0
          then bindR (PackSequenceAndType kMaxSequenceNumber kValueTypeForSeek) (\<lambda>num.
               let tmp = PutFixed64 tmp num in
               bindR (internal_Compare user_comparator start tmp) (\<lambda>c.
               bindR (assertR (c < 0)) (\<lambda>_.
               bindR (internal_Compare user_comparator tmp limit) (\<lambda>c.
               bindR (assertR (c < 0)) (\<lambda>_. Inr tmp)))))
          else Inr start)
     else Inr start)))"

definition internal_FindShortSuccessor :: "Comparator \<Rightarrow> bytes \<Rightarrow> bytes res" where
  "internal_FindShortSuccessor user_comparator key =
     bindR (ExtractUserKey key) (\<lambda>user_key.
     bindR (cmp_FindShortSuccessor user_comparator user_key) (\<lambda>tmp.
     if length tmp < length user_key
     then bindR (cmp_Compare user_comparator user_key tmp) (\<lambda>r.
          if r < 0
          then bindR (PackSequenceAndType kMaxSequenceNumber kValueTypeForSeek) (\<lambda>num.
               let tmp = PutFixed64 tmp num in
               bindR (internal_Compare user_comparator key tmp) (\<lambda>c.
               bindR (assertR (c < 0)) (\<lambda>_. Inr tmp)))
          else Inr key)
     else Inr key))"

definition InternalKeyComparator :: "Comparator \<Rightarrow> Comparator" where
  "InternalKeyComparator c = \<lparr>cmp_Compare = internal_Compare c,
     cmp_FindShortestSeparator = internal_FindShortestSeparator c, cmp_FindShortSuccessor = internal_FindShortSuccessor c\<rparr>"

text \<open>The class \<open>InternalKey\<close> is its string \<open>rep_\<close>; the empty string marks an invalid key.\<close>

type_synonym InternalKey = bytes

definition InternalKey_of :: "slice \<Rightarrow> u64 \<Rightarrow> byte \<Rightarrow> InternalKey res" where
  "InternalKey_of k s t = AppendInternalKey [] \<lparr>pik_user_key = k, pik_sequence = s, pik_type = t\<rparr>"

definition InternalKey_Encode :: "InternalKey \<Rightarrow> slice res" where
  "InternalKey_Encode rep = bindR (assertR (rep \<noteq> [])) (\<lambda>_. Inr rep)"

definition InternalKey_Compare :: "Comparator \<Rightarrow> InternalKey \<Rightarrow> InternalKey \<Rightarrow> int res" where
  "InternalKey_Compare c a b =
     bindR (InternalKey_Encode a) (\<lambda>a. bindR (InternalKey_Encode b) (\<lambda>b. internal_Compare c a b))"

text \<open>
  A \<open>LookupKey\<close>: the block that \<open>start_\<close> points to (the array \<open>space_\<close> or an allocated one) and the offsets of
  \<open>kstart_\<close> and \<open>end_\<close> in it. The argument \<open>fresh n\<close> is the uninitialised content of a new block of \<open>n\<close> bytes.
\<close>

record LookupKey =
  lk_block :: bytes
  lk_kstart :: nat
  lk_end :: nat

definition LookupKey_new :: "(nat \<Rightarrow> bytes) \<Rightarrow> slice \<Rightarrow> u64 \<Rightarrow> LookupKey res" where
  "LookupKey_new fresh user_key s =
     (let usize = length user_key; needed = usize + 13;
          block = (if needed \<le> 200 then fresh 200 else fresh needed);
          klength = EncodeVarint32 (of_nat (usize + 8)) in
      bindR (store_bytes block 0 klength) (\<lambda>block.
      let kstart = length klength in
      bindR (store_bytes block (int kstart) user_key) (\<lambda>block.
      bindR (PackSequenceAndType s kValueTypeForSeek) (\<lambda>num.
      bindR (store_bytes block (int (kstart + usize)) (EncodeFixed64 num)) (\<lambda>block.
      Inr \<lparr>lk_block = block, lk_kstart = kstart, lk_end = kstart + usize + 8\<rparr>)))))"

definition memtable_key :: "LookupKey \<Rightarrow> slice" where
  "memtable_key k = take (lk_end k) (lk_block k)"

definition internal_key :: "LookupKey \<Rightarrow> slice" where
  "internal_key k = take (lk_end k - lk_kstart k) (drop (lk_kstart k) (lk_block k))"

definition lookup_user_key :: "LookupKey \<Rightarrow> slice" where
  "lookup_user_key k = take (lk_end k - lk_kstart k - 8) (drop (lk_kstart k) (lk_block k))"

section \<open>Packing and parsing\<close>

lemma Pack_eq:
  "seq \<le> kMaxSequenceNumber \<Longrightarrow> t \<le> 1 \<Longrightarrow> PackSequenceAndType seq t = Inr (push_bit 8 seq OR ucast t)"
  by (simp add: PackSequenceAndType_def kValueTypeForSeek_def kTypeValue_def)

lemma Pack_fails:
  "\<not> (seq \<le> kMaxSequenceNumber \<and> t \<le> 1) \<Longrightarrow> PackSequenceAndType seq t = Inl Assert_failed"
  by (auto simp: PackSequenceAndType_def kValueTypeForSeek_def kTypeValue_def assertR_def)

lemma max_seq_bits: "seq \<le> kMaxSequenceNumber \<longleftrightarrow> unat seq < 2 ^ 56"
  by (simp add: kMaxSequenceNumber_def word_le_nat_alt) linarith

lemma pack_type: "ucast ((push_bit 8 seq OR ucast t) AND 255) = t" for t :: byte and seq :: u64
proof (rule bit_word_eqI)
  fix n assume n: "n < LENGTH(8)"
  have 255: "(255 :: u64) = mask 8" by (simp add: mask_eq_exp_minus_1)
  show "bit (ucast ((push_bit 8 seq OR ucast t) AND 255) :: byte) n = bit t n"
    using n unfolding 255 by (simp add: bit_simps)
qed

lemma pack_seq:
  fixes t :: byte and seq :: u64
  assumes "unat seq < 2 ^ 56"
  shows "drop_bit 8 (push_bit 8 seq OR ucast t) = seq"
proof (rule bit_word_eqI)
  fix n assume n: "n < LENGTH(64)"
  have "bit seq n \<Longrightarrow> n < 56"
  proof (rule ccontr)
    assume b: "bit seq n" "\<not> n < 56"
    then have "bit (unat seq) n" using n by (simp add: bit_unsigned_iff)
    then have "unat seq div 2 ^ n \<noteq> 0" by (metis bit_iff_odd even_zero)
    then have "2 ^ n \<le> unat seq" by (metis div_less not_le)
    then show False using assms b power_increasing [of 56 n "2::nat"] by simp
  qed
  moreover have "\<not> bit t (8 + n)" using bit_imp_le_length [of t "8 + n"] by auto
  ultimately show "bit (drop_bit 8 (push_bit 8 seq OR ucast t)) n = bit seq n"
    using n by (auto simp: bit_simps)
qed

abbreviation pack :: "u64 \<Rightarrow> byte \<Rightarrow> u64" where
  "pack seq t \<equiv> push_bit 8 seq OR ucast t"

lemma unat_pack:
  fixes t :: byte
  assumes "s \<le> kMaxSequenceNumber"
  shows "unat (pack s t) = 256 * unat s + unat t"
proof -
  have s: "unat s < 2 ^ 56" using assms by (simp add: max_seq_bits)
  have "push_bit 8 s AND ucast t = 0" by (rule bit_word_eqI) (auto simp: bit_simps dest: bit_imp_le_length)
  then have "pack s t = push_bit 8 s + ucast t" by (rule disjunctive_add_eq_or [symmetric])
  moreover have "unat (push_bit 8 s) = 256 * unat s" using s by (simp add: push_bit_eq_mult unat_word_ariths)
  moreover have "unat (ucast t :: u64) = unat t" by (simp add: unsigned_ucast_eq take_bit_nat_eq_self order.strict_trans [OF unsigned_less])
  moreover have "unat t < 256" using unsigned_less [of t, where 'a = nat] by simp
  ultimately show ?thesis using s by (simp add: unat_word_ariths)
qed

lemma length_Encode64 [simp]: "length (EncodeFixed64 n) = 8"
  by (simp add: EncodeFixed64_def)

lemma AppendInternalKey_eq:
  "pik_sequence k \<le> kMaxSequenceNumber \<Longrightarrow> pik_type k \<le> 1 \<Longrightarrow>
   AppendInternalKey r k = Inr (r @ pik_user_key k @ EncodeFixed64 (pack (pik_sequence k) (pik_type k)))"
  by (simp add: AppendInternalKey_def Pack_eq PutFixed64_def)

lemma ParseInternalKey_append:
  "ParseInternalKey (u @ EncodeFixed64 num) =
    Inr (ucast (num AND 255) \<le> (1 :: byte), Some \<lparr>pik_user_key = u, pik_sequence = drop_bit 8 num, pik_type = ucast (num AND 255)\<rparr>)"
  using Decode_Encode64 [of num "[]"] by (simp add: ParseInternalKey_def Let_def kTypeValue_def)

text \<open>Every key with at least eight bytes is a user key with a packed number behind it.\<close>

definition key_tag :: "slice \<Rightarrow> u64" where
  "key_tag k = (case DecodeFixed64 (drop (length k - 8) k) of Inr n \<Rightarrow> n | Inl _ \<Rightarrow> 0)"

definition key_user :: "slice \<Rightarrow> slice" where
  "key_user k = take (length k - 8) k"

lemma key_parts_append [simp]: "key_user (u @ EncodeFixed64 n) = u" "key_tag (u @ EncodeFixed64 n) = n"
  using Decode_Encode64 [of n "[]"] by (simp_all add: key_user_def key_tag_def)

lemma DecodeFixed64_long: "8 \<le> length p \<Longrightarrow> \<exists>n. DecodeFixed64 p = Inr n"
  by (simp add: DecodeFixed64_def DecodeFixed32_def load_bytes_in)

lemma Decode_tag: "8 \<le> length k \<Longrightarrow> DecodeFixed64 (drop (length k - 8) k) = Inr (key_tag k)"
  using DecodeFixed64_long [of "drop (length k - 8) k"] by (auto simp: key_tag_def)

lemma Extract_key: "8 \<le> length k \<Longrightarrow> ExtractUserKey k = Inr (key_user k)"
  by (simp add: ExtractUserKey_def key_user_def)

lemma Extract_short: "length k < 8 \<Longrightarrow> ExtractUserKey k = Inl Assert_failed"
  by (simp add: ExtractUserKey_def)


section \<open>The contract of a comparator\<close>

text \<open>
  What the library relies on: on the keys of a domain \<open>ok\<close>, \<open>Compare\<close> returns the sign of a total preorder, and the two
  shortening functions return a key of the domain that is the old one or lies where the header of the class says.
\<close>

locale key_comparator = three_way cmp ok for cmp :: "slice \<Rightarrow> slice \<Rightarrow> int" and ok +
  fixes C :: Comparator
  assumes Compare_eq: "ok a \<Longrightarrow> ok b \<Longrightarrow> cmp_Compare C a b = Inr (cmp a b)"
    and separator: "ok a \<Longrightarrow> ok b \<Longrightarrow> \<exists>s. cmp_FindShortestSeparator C a b = Inr s \<and> ok s
          \<and> (s = a \<or> cmp a s \<le> 0 \<and> cmp s b < 0)"
    and successor: "ok a \<Longrightarrow> \<exists>s. cmp_FindShortSuccessor C a = Inr s \<and> ok s \<and> cmp a s \<le> 0"
begin

lemma separator_between:
  assumes "ok a" "ok b" "cmp a b < 0" "cmp_FindShortestSeparator C a b = Inr s"
  shows "ok s \<and> cmp a s \<le> 0 \<and> cmp s b < 0"
proof -
  obtain s' where "cmp_FindShortestSeparator C a b = Inr s'" "ok s'" "s' = a \<or> cmp a s' \<le> 0 \<and> cmp s' b < 0"
    using separator [OF assms(1,2)] by blast
  then show ?thesis using assms cmp_refl [of a] by auto
qed

end

text \<open>The order of internal keys: by user key, then by falling number.\<close>

definition internal_cmp :: "(slice \<Rightarrow> slice \<Rightarrow> int) \<Rightarrow> slice \<Rightarrow> slice \<Rightarrow> int" where
  "internal_cmp cmp a b = (let r = cmp (key_user a) (key_user b) in
     if r \<noteq> 0 then r else if key_tag b < key_tag a then -1 else if key_tag a < key_tag b then 1 else 0)"

definition shortened :: "slice \<Rightarrow> bytes" where
  "shortened u = u @ EncodeFixed64 (pack kMaxSequenceNumber kValueTypeForSeek)"

lemma shortened_simps [simp]: "key_user (shortened u) = u" "8 \<le> length (shortened u)"
  by (simp_all add: shortened_def)

lemma Pack_max: "PackSequenceAndType kMaxSequenceNumber kValueTypeForSeek = Inr (pack kMaxSequenceNumber kValueTypeForSeek)"
  by (simp add: Pack_eq kValueTypeForSeek_def kTypeValue_def)

text \<open>A comparator for user keys accepts every byte string.\<close>

locale user_comparator = key_comparator cmp "\<lambda>_. True" C for cmp C
begin

lemma internal_Compare_eq:
  "8 \<le> length a \<Longrightarrow> 8 \<le> length b \<Longrightarrow> internal_Compare C a b = Inr (internal_cmp cmp a b)"
  by (simp add: internal_Compare_def Extract_key Decode_tag Compare_eq internal_cmp_def Let_def)

lemma three_way_tag: "three_way (\<lambda>a b. if key_tag b < key_tag a then -1 else if key_tag a < key_tag b then 1 else 0) (\<lambda>_. True)"
  by unfold_locales (auto split: if_splits)

lemma three_way_icmp: "three_way (internal_cmp cmp) (\<lambda>k. 8 \<le> length k)"
proof -
  have "three_way (\<lambda>x y. let c = cmp (key_user x) (key_user y) in
     if c \<noteq> 0 then c else (\<lambda>a b. if key_tag b < key_tag a then -1 else if key_tag a < key_tag b then 1 else 0) x y) (\<lambda>x. True \<and> True)"
    by (rule three_way_lex [OF _ three_way_tag]) unfold_locales
  then have "three_way (internal_cmp cmp) (\<lambda>_. True)" by (simp add: internal_cmp_def [abs_def])
  then show ?thesis by (simp add: three_way_def)
qed

lemma icmp_less_user: "cmp (key_user a) (key_user b) < 0 \<Longrightarrow> internal_cmp cmp a b < 0"
  by (simp add: internal_cmp_def Let_def)

lemma icmp_user_le: "internal_cmp cmp a b \<le> 0 \<Longrightarrow> cmp (key_user a) (key_user b) \<le> 0"
  by (simp add: internal_cmp_def Let_def split: if_splits)

lemma internal_separator:
  assumes "8 \<le> length a" "8 \<le> length b"
  shows "\<exists>s. internal_FindShortestSeparator C a b = Inr s \<and> 8 \<le> length s \<and> length s \<le> length a \<and> (s = a \<or> internal_cmp cmp a s \<le> 0 \<and> internal_cmp cmp s b < 0)"
proof -
  obtain u where u: "cmp_FindShortestSeparator C (key_user a) (key_user b) = Inr u"
      "u = key_user a \<or> cmp (key_user a) u \<le> 0 \<and> cmp u (key_user b) < 0"
    using separator by blast
  show ?thesis
  proof (cases "length u < length (key_user a) \<and> cmp (key_user a) u < 0")
    case True
    then have b: "cmp u (key_user b) < 0" using u(2) by auto
    have i: "internal_cmp cmp a (shortened u) < 0" "internal_cmp cmp (shortened u) b < 0"
      using True b by (auto intro: icmp_less_user)
    have "internal_FindShortestSeparator C a b = Inr (shortened u)"
      using i assms u(1) True internal_Compare_eq [of a "shortened u"] internal_Compare_eq [of "shortened u" b]
      by (simp add: internal_FindShortestSeparator_def Extract_key Compare_eq Pack_max PutFixed64_def shortened_def [symmetric])
    moreover have "length (shortened u) \<le> length a" using True assms by (auto simp: shortened_def key_user_def)
    ultimately show ?thesis using i by (intro exI [of _ "shortened u"]) simp
  next
    case False
    then have "internal_FindShortestSeparator C a b = Inr a"
      using assms u(1) by (auto simp: internal_FindShortestSeparator_def Extract_key Compare_eq)
    then show ?thesis using assms by blast
  qed
qed

lemma internal_successor:
  assumes "8 \<le> length a"
  shows "\<exists>s. internal_FindShortSuccessor C a = Inr s \<and> 8 \<le> length s \<and> length s \<le> length a \<and> internal_cmp cmp a s \<le> 0"
proof -
  obtain u where u: "cmp_FindShortSuccessor C (key_user a) = Inr u" "cmp (key_user a) u \<le> 0"
    using successor by blast
  show ?thesis
  proof (cases "length u < length (key_user a) \<and> cmp (key_user a) u < 0")
    case True
    then have i: "internal_cmp cmp a (shortened u) < 0" by (auto intro: icmp_less_user)
    have "internal_FindShortSuccessor C a = Inr (shortened u)"
      using i assms u(1) True internal_Compare_eq [of a "shortened u"]
      by (simp add: internal_FindShortSuccessor_def Extract_key Compare_eq Pack_max PutFixed64_def shortened_def [symmetric])
    moreover have "length (shortened u) \<le> length a" using True assms by (auto simp: shortened_def key_user_def)
    ultimately show ?thesis using i by (intro exI [of _ "shortened u"]) simp
  next
    case False
    then have "internal_FindShortSuccessor C a = Inr a"
      using assms u(1) by (auto simp: internal_FindShortSuccessor_def Extract_key Compare_eq)
    then show ?thesis using assms three_way.cmp_refl [OF three_way_icmp, of a] by auto
  qed
qed

end

sublocale user_comparator \<subseteq> internal: key_comparator "internal_cmp cmp" "\<lambda>k. 8 \<le> length k" "InternalKeyComparator C"
proof (intro key_comparator.intro three_way_icmp key_comparator_axioms.intro)
  fix a b :: slice assume a: "8 \<le> length a"
  show "\<exists>s. cmp_FindShortSuccessor (InternalKeyComparator C) a = Inr s \<and> 8 \<le> length s \<and> internal_cmp cmp a s \<le> 0"
    using internal_successor [OF a] by (auto simp: InternalKeyComparator_def)
  assume b: "8 \<le> length b"
  show "cmp_Compare (InternalKeyComparator C) a b = Inr (internal_cmp cmp a b)"
    using a b by (simp add: InternalKeyComparator_def internal_Compare_eq)
  show "\<exists>s. cmp_FindShortestSeparator (InternalKeyComparator C) a b = Inr s \<and> 8 \<le> length s \<and> (s = a \<or> internal_cmp cmp a s \<le> 0 \<and> internal_cmp cmp s b < 0)"
    using internal_separator [OF a b] by (auto simp: InternalKeyComparator_def)
qed

interpretation bytewise_user: user_comparator slice_compare BytewiseComparator
proof
  fix a b :: slice
  show "cmp_Compare BytewiseComparator a b = Inr (slice_compare a b)" by (simp add: BytewiseComparator_def)
  show "\<exists>s. cmp_FindShortestSeparator BytewiseComparator a b = Inr s \<and> True \<and> (s = a \<or> slice_compare a s \<le> 0 \<and> slice_compare s b < 0)"
    using separator_spec [of a b] by (auto simp: BytewiseComparator_def slice_compare_less [symmetric] intro: less_imp_le)
  show "\<exists>s. cmp_FindShortSuccessor BytewiseComparator a = Inr s \<and> True \<and> slice_compare a s \<le> 0"
    using short_successor_spec [of a] slice_compare_eq [of a a]
    by (auto simp: BytewiseComparator_def slice_compare_less [symmetric] intro: less_imp_le)
qed

lemma bytewise_internal_eq:
  assumes "8 \<le> length a" "8 \<le> length b"
  shows "internal_cmp slice_compare a b = 0 \<longleftrightarrow> key_user a = key_user b \<and> key_tag a = key_tag b"
  using slice_compare_eq [of "key_user a" "key_user b"] by (auto simp: internal_cmp_def Let_def)

section \<open>Lookup keys\<close>

lemma store_bytes_at: "i + length bs \<le> length m \<Longrightarrow> store_bytes m (int i) bs = Inr (blit m i bs)"
  by (simp add: store_bytes_in)

lemma LookupKey_layout:
  assumes fresh: "\<And>n. length (fresh n) = n" and s: "s \<le> kMaxSequenceNumber"
  shows "\<exists>k rest. LookupKey_new fresh u s = Inr k
    \<and> lk_block k = EncodeVarint32 (of_nat (length u + 8)) @ u @ EncodeFixed64 (pack s kValueTypeForSeek) @ rest
    \<and> lk_kstart k = length (EncodeVarint32 (of_nat (length u + 8))) \<and> lk_end k = lk_kstart k + length u + 8"
proof -
  let ?v = "EncodeVarint32 (of_nat (length u + 8))" and ?t = "EncodeFixed64 (pack s kValueTypeForSeek)"
  define block where "block = (if length u + 13 \<le> 200 then fresh 200 else fresh (length u + 13))"
  have v: "length ?v \<le> 5" by (simp add: EncodeVarint32_def)
  have len: "length ?v + length u + 8 \<le> length block" using v fresh by (auto simp: block_def)
  have t: "length ?t = 8" by simp
  have st: "store_bytes block 0 ?v = Inr (blit block 0 ?v)"
    "store_bytes (blit block 0 ?v) (int (length ?v)) u = Inr (blit block 0 (?v @ u))"
    "store_bytes (blit block 0 (?v @ u)) (int (length ?v + length u)) ?t = Inr (blit block 0 (?v @ u @ ?t))"
    using len blit_append [of 0 ?v u block] blit_append [of 0 "?v @ u" ?t block]
      store_bytes_at [of 0 ?v block] store_bytes_at [of "length ?v" u "blit block 0 ?v"]
      store_bytes_at [of "length ?v + length u" ?t "blit block 0 (?v @ u)"]
    by simp_all
  have p: "PackSequenceAndType s kValueTypeForSeek = Inr (pack s kValueTypeForSeek)"
    using s by (simp add: Pack_eq kValueTypeForSeek_def kTypeValue_def)
  have "LookupKey_new fresh u s = Inr \<lparr>lk_block = blit block 0 (?v @ u @ ?t), lk_kstart = length ?v, lk_end = length ?v + length u + 8\<rparr>"
    unfolding LookupKey_new_def Let_def block_def [symmetric] by (simp only: st p bindR_Inr)
  moreover have "blit block 0 (?v @ u @ ?t) = ?v @ u @ ?t @ drop (length (?v @ u @ ?t)) block"
    by (simp add: blit_def)
  ultimately show ?thesis by (metis LookupKey.select_convs)
qed


end
