(* ===== verification/Ldb_Names.thy ===== *)
theory Ldb_Names
  imports Ldb_Format
begin

text \<open>
  Statuses, numbers and file names of LevelDB: \<^verbatim>\<open>include/leveldb/status.h\<close>, \<^verbatim>\<open>util/status.cc\<close>,
  \<^verbatim>\<open>util/logging.cc\<close> and \<^verbatim>\<open>db/filename.cc\<close>. A status is the block its pointer \<open>state_\<close> points to. Printed numbers
  are shown to be read back, numbers that do not fit 64 bits to be refused, and every file name to be parsed to its number and type.
\<close>

section \<open>Status: model\<close>

datatype Code = kOk | kNotFound | kCorruption | kNotSupported | kInvalidArgument | kIOError

fun code_byte :: "Code \<Rightarrow> byte" where
  "code_byte kOk = 0" | "code_byte kNotFound = 1" | "code_byte kCorruption = 2"
| "code_byte kNotSupported = 3" | "code_byte kInvalidArgument = 4" | "code_byte kIOError = 5"

text \<open>A \<open>Status\<close> is its pointer \<open>state_\<close>: null for success, otherwise a block with the length, the code and the message.\<close>

type_synonym Status = "bytes option"

text \<open>The constructor on the new block, whose uninitialised content is \<open>fresh n\<close>; the sizes are 32-bit numbers.\<close>

definition Status_new :: "(nat \<Rightarrow> bytes) \<Rightarrow> Code \<Rightarrow> slice \<Rightarrow> slice \<Rightarrow> Status res" where
  "Status_new fresh c msg msg2 =
     bindR (assertR (c \<noteq> kOk)) (\<lambda>_.
     let len1 = of_nat (length msg) :: u32; len2 = of_nat (length msg2) :: u32;
         size = len1 + (if len2 \<noteq> 0 then 2 + len2 else 0);
         result = fresh (unat (size + 5)) in
     bindR (store_bytes result 0 (EncodeFixed32 size)) (\<lambda>result.
     bindR (store_bytes result 4 [code_byte c]) (\<lambda>result.
     bindR (store_bytes result 5 (take (unat len1) msg)) (\<lambda>result.
     if len2 \<noteq> 0
     then bindR (store_bytes result (int (5 + unat len1)) (bstr '':'')) (\<lambda>result.
          bindR (store_bytes result (int (6 + unat len1)) (bstr '' '')) (\<lambda>result.
          bindR (store_bytes result (int (7 + unat len1)) (take (unat len2) msg2)) (\<lambda>result. Inr (Some result))))
     else Inr (Some result)))))"

text \<open>The block the constructor fills when the message is shorter than 4 GB, as every message of the library is.\<close>

definition status_block :: "Code \<Rightarrow> slice \<Rightarrow> slice \<Rightarrow> bytes" where
  "status_block c msg msg2 =
     (let m = msg @ (if msg2 = [] then [] else bstr '': '' @ msg2) in
      EncodeFixed32 (of_nat (length m)) @ [code_byte c] @ m)"

definition Status_OK :: Status where "Status_OK = None"
definition NotFound :: "slice \<Rightarrow> slice \<Rightarrow> Status" where "NotFound msg msg2 = Some (status_block kNotFound msg msg2)"
definition Corruption :: "slice \<Rightarrow> slice \<Rightarrow> Status" where "Corruption msg msg2 = Some (status_block kCorruption msg msg2)"
definition NotSupported :: "slice \<Rightarrow> slice \<Rightarrow> Status" where "NotSupported msg msg2 = Some (status_block kNotSupported msg msg2)"
definition InvalidArgument :: "slice \<Rightarrow> slice \<Rightarrow> Status" where "InvalidArgument msg msg2 = Some (status_block kInvalidArgument msg msg2)"
definition IOError :: "slice \<Rightarrow> slice \<Rightarrow> Status" where "IOError msg msg2 = Some (status_block kIOError msg msg2)"

definition Status_ok :: "Status \<Rightarrow> bool" where "Status_ok s \<longleftrightarrow> s = None"

definition Status_code :: "Status \<Rightarrow> byte res" where
  "Status_code s = (case s of None \<Rightarrow> Inr (code_byte kOk) | Some state \<Rightarrow> nth_res state 4)"

definition IsNotFound :: "Status \<Rightarrow> bool res" where
  "IsNotFound s = bindR (Status_code s) (\<lambda>c. Inr (c = code_byte kNotFound))"

definition IsCorruption :: "Status \<Rightarrow> bool res" where
  "IsCorruption s = bindR (Status_code s) (\<lambda>c. Inr (c = code_byte kCorruption))"

definition IsIOError :: "Status \<Rightarrow> bool res" where
  "IsIOError s = bindR (Status_code s) (\<lambda>c. Inr (c = code_byte kIOError))"

definition CopyState :: "bytes \<Rightarrow> bytes res" where
  "CopyState state =
     bindR (DecodeFixed32 state) (\<lambda>size. load_bytes state 0 (unat (size + 5)))"

text \<open>Assignment and copying: a copy of the block; assigning a status to itself, or two successes, changes nothing.\<close>

definition Status_copy :: "Status \<Rightarrow> Status res" where
  "Status_copy s = (case s of None \<Rightarrow> Inr None | Some state \<Rightarrow> bindR (CopyState state) (\<lambda>b. Inr (Some b)))"

definition Status_ToString :: "Status \<Rightarrow> bytes res" where
  "Status_ToString s =
     (case s of
        None \<Rightarrow> Inr (bstr ''OK'')
      | Some state \<Rightarrow>
          bindR (Status_code s) (\<lambda>c.
          let type = (if c = 0 then bstr ''OK'' else if c = 1 then bstr ''NotFound: '' else if c = 2 then bstr ''Corruption: ''
                else if c = 3 then bstr ''Not implemented: '' else if c = 4 then bstr ''Invalid argument: ''
                else if c = 5 then bstr ''IO error: ''
                else take 29 (bstr ''Unknown code('' @ (if sint c < 0 then bstr ''-'' @ dec_digits (nat (- sint c)) else dec_digits (nat (sint c))) @ bstr ''): '')) in
          bindR (DecodeFixed32 state) (\<lambda>len.
          bindR (load_bytes state 5 (unat len)) (\<lambda>m. Inr (type @ m)))))"

section \<open>Numbers and escapes: model\<close>

text \<open>\<^verbatim>\<open>snprintf\<close> into a buffer of \<open>n\<close> bytes keeps the first \<open>n - 1\<close> characters.\<close>

definition snprintf :: "nat \<Rightarrow> bytes \<Rightarrow> bytes" where
  "snprintf n s = take (n - 1) s"

definition AppendNumberTo :: "bytes \<Rightarrow> u64 \<Rightarrow> bytes" where
  "AppendNumberTo str num = str @ snprintf 30 (dec_digits (unat num))"

definition hex_digit :: "nat \<Rightarrow> byte" where
  "hex_digit n = of_nat (if n < 10 then 48 + n else 87 + n)"

fun AppendEscapedStringTo :: "bytes \<Rightarrow> slice \<Rightarrow> bytes" where
  "AppendEscapedStringTo str [] = str"
| "AppendEscapedStringTo str (c # value) =
     AppendEscapedStringTo
       (if 32 \<le> c \<and> c \<le> 126 then str @ [c]
        else str @ snprintf 10 ([92, 120, hex_digit (unat c div 16), hex_digit (unat c mod 16)])) value"

definition NumberToString :: "u64 \<Rightarrow> bytes" where
  "NumberToString num = AppendNumberTo [] num"

definition EscapeString :: "slice \<Rightarrow> bytes" where
  "EscapeString value = AppendEscapedStringTo [] value"

definition ConsumeChar :: "slice \<Rightarrow> byte \<Rightarrow> bool \<times> slice" where
  "ConsumeChar inp c = (if inp \<noteq> [] \<and> hd inp = c then (True, tl inp) else (False, inp))"

text \<open>The result: the returned flag, the value stored in \<open>*val\<close> if one is, and what is left of the input.\<close>

fun consume_loop :: "slice \<Rightarrow> u64 \<Rightarrow> int \<Rightarrow> bool \<times> u64 option \<times> slice" where
  "consume_loop [] v digits = (digits > 0, Some v, [])"
| "consume_loop (c # inp) v digits =
     (if 48 \<le> c \<and> c \<le> 57
      then let delta = ucast (c - 48); kMaxUint64 = NOT 0 :: u64 in
           if kMaxUint64 div 10 < v \<or> (v = kMaxUint64 div 10 \<and> kMaxUint64 mod 10 < delta) then (False, None, c # inp)
           else consume_loop inp (v * 10 + delta) (digits + 1)
      else (digits > 0, Some v, c # inp))"

definition ConsumeDecimalNumber :: "slice \<Rightarrow> bool \<times> u64 option \<times> slice" where
  "ConsumeDecimalNumber inp = consume_loop inp 0 0"

section \<open>File names: model\<close>

datatype FileType = kLogFile | kDBLockFile | kTableFile | kDescriptorFile | kCurrentFile | kTempFile | kInfoLogFile

text \<open>The conversion \<^verbatim>\<open>%06llu\<close>.\<close>

definition pad6 :: "u64 \<Rightarrow> bytes" where
  "pad6 n = (let d = dec_digits (unat n) in replicate (6 - length d) 48 @ d)"

definition MakeFileName :: "bytes \<Rightarrow> u64 \<Rightarrow> bytes \<Rightarrow> bytes" where
  "MakeFileName name number suffix = name @ snprintf 100 (bstr ''/'' @ pad6 number @ bstr ''.'' @ suffix)"

definition LogFileName :: "bytes \<Rightarrow> u64 \<Rightarrow> bytes res" where
  "LogFileName name number = bindR (assertR (number > 0)) (\<lambda>_. Inr (MakeFileName name number (bstr ''log'')))"

definition TableFileName :: "bytes \<Rightarrow> u64 \<Rightarrow> bytes res" where
  "TableFileName name number = bindR (assertR (number > 0)) (\<lambda>_. Inr (MakeFileName name number (bstr ''ldb'')))"

definition SSTTableFileName :: "bytes \<Rightarrow> u64 \<Rightarrow> bytes res" where
  "SSTTableFileName name number = bindR (assertR (number > 0)) (\<lambda>_. Inr (MakeFileName name number (bstr ''sst'')))"

definition DescriptorFileName :: "bytes \<Rightarrow> u64 \<Rightarrow> bytes res" where
  "DescriptorFileName dbname number =
     bindR (assertR (number > 0)) (\<lambda>_. Inr (dbname @ snprintf 100 (bstr ''/MANIFEST-'' @ pad6 number)))"

definition CurrentFileName :: "bytes \<Rightarrow> bytes" where
  "CurrentFileName dbname = dbname @ bstr ''/CURRENT''"

definition LockFileName :: "bytes \<Rightarrow> bytes" where
  "LockFileName dbname = dbname @ bstr ''/LOCK''"

definition TempFileName :: "bytes \<Rightarrow> u64 \<Rightarrow> bytes res" where
  "TempFileName dbname number = bindR (assertR (number > 0)) (\<lambda>_. Inr (MakeFileName dbname number (bstr ''dbtmp'')))"

definition InfoLogFileName :: "bytes \<Rightarrow> bytes" where
  "InfoLogFileName dbname = dbname @ bstr ''/LOG''"

definition OldInfoLogFileName :: "bytes \<Rightarrow> bytes" where
  "OldInfoLogFileName dbname = dbname @ bstr ''/LOG.old''"

definition ParseFileName :: "bytes \<Rightarrow> (u64 \<times> FileType) option" where
  "ParseFileName rest =
     (if rest = bstr ''CURRENT'' then Some (0, kCurrentFile)
      else if rest = bstr ''LOCK'' then Some (0, kDBLockFile)
      else if rest = bstr ''LOG'' \<or> rest = bstr ''LOG.old'' then Some (0, kInfoLogFile)
      else if starts_with rest (bstr ''MANIFEST-'')
      then (case ConsumeDecimalNumber (drop 9 rest) of
              (True, Some num, rest) \<Rightarrow> if rest \<noteq> [] then None else Some (num, kDescriptorFile)
            | _ \<Rightarrow> None)
      else (case ConsumeDecimalNumber rest of
              (True, Some num, suffix) \<Rightarrow>
                if suffix = bstr ''.log'' then Some (num, kLogFile)
                else if suffix = bstr ''.sst'' \<or> suffix = bstr ''.ldb'' then Some (num, kTableFile)
                else if suffix = bstr ''.dbtmp'' then Some (num, kTempFile)
                else None
            | _ \<Rightarrow> None))"


section \<open>Statuses\<close>

abbreviation status_message :: "slice \<Rightarrow> slice \<Rightarrow> bytes" where
  "status_message msg msg2 \<equiv> msg @ (if msg2 = [] then [] else bstr '': '' @ msg2)"

lemma bstr_lits: "bstr '': '' = bstr '':'' @ bstr '' ''" "length (bstr '':'') = 1" "length (bstr '' '') = 1"
  by (simp_all add: bstr_def)

lemma length_Encode32 [simp]: "length (EncodeFixed32 n) = 4"
  by (simp add: EncodeFixed32_def)

lemma store_next: "length ps + length bs \<le> length m \<Longrightarrow> store_bytes (blit m 0 ps) (int (length ps)) bs = Inr (blit m 0 (ps @ bs))"
  using blit_append [of 0 ps bs m] by (simp add: store_bytes_at)

lemma blit_full: "length bs = length m \<Longrightarrow> blit m 0 bs = bs"
  by (simp add: blit_def)

lemma Status_new_block:
  assumes fresh: "\<And>n. length (fresh n) = n" and c: "c \<noteq> kOk" and len: "length msg + length msg2 + 7 < 2 ^ 32"
  shows "Status_new fresh c msg msg2 = Inr (Some (status_block c msg msg2))"
proof -
  let ?m = "status_message msg msg2"
  let ?b = "fresh (5 + length ?m)" and ?s = "of_nat (length ?m) :: u32"
  have u: "unat (of_nat (length msg) :: u32) = length msg" "unat (of_nat (length msg2) :: u32) = length msg2"
    "(of_nat (length msg2) :: u32) = 0 \<longleftrightarrow> msg2 = []"
    using len by (auto simp: unat_of_nat word_unat_eq_iff)
  have sz: "of_nat (length msg) + (if (of_nat (length msg2) :: u32) \<noteq> 0 then 2 + of_nat (length msg2) else 0) = ?s"
    by (simp add: u(3) bstr_def)
  have s5: "unat (?s + 5) = 5 + length ?m"
  proof -
    have "?s + 5 = of_nat (length ?m + 5)" by simp
    moreover have "length ?m + 5 < 2 ^ 32" using len by (simp add: bstr_def)
    ultimately show ?thesis by (simp only: unat_of_nat) simp
  qed
  have b: "length ?b = 5 + length ?m" by (simp add: fresh)
  let ?h = "EncodeFixed32 ?s"
  have h: "length ?h = 4" by simp
  have 1: "store_bytes ?b 0 ?h = Inr (blit ?b 0 ?h)"
    "store_bytes (blit ?b 0 ?h) 4 [code_byte c] = Inr (blit ?b 0 (?h @ [code_byte c]))"
    "store_bytes (blit ?b 0 (?h @ [code_byte c])) 5 msg = Inr (blit ?b 0 ((?h @ [code_byte c]) @ msg))"
    using store_next [of "[]" ?h ?b] store_next [of ?h "[code_byte c]" ?b] store_next [of "?h @ [code_byte c]" msg ?b] b h by simp_all
  show ?thesis
  proof (cases "msg2 = []")
    case True
    have "blit ?b 0 ((?h @ [code_byte c]) @ msg) = (?h @ [code_byte c]) @ msg" using True b h by (intro blit_full) simp
    then show ?thesis using c 1 u s5 sz True by (simp add: Status_new_def Let_def status_block_def)
  next
    case False
    have 2: "store_bytes (blit ?b 0 ((?h @ [code_byte c]) @ msg)) (int (5 + length msg)) (bstr '':'') = Inr (blit ?b 0 (((?h @ [code_byte c]) @ msg) @ bstr '':''))"
      "store_bytes (blit ?b 0 (((?h @ [code_byte c]) @ msg) @ bstr '':'')) (int (6 + length msg)) (bstr '' '') = Inr (blit ?b 0 ((((?h @ [code_byte c]) @ msg) @ bstr '':'') @ bstr '' ''))"
      "store_bytes (blit ?b 0 ((((?h @ [code_byte c]) @ msg) @ bstr '':'') @ bstr '' '')) (int (7 + length msg)) msg2 = Inr (blit ?b 0 (((((?h @ [code_byte c]) @ msg) @ bstr '':'') @ bstr '' '') @ msg2))"
      using store_next [of "(?h @ [code_byte c]) @ msg" "bstr '':''" ?b] store_next [of "((?h @ [code_byte c]) @ msg) @ bstr '':''" "bstr '' ''" ?b]
        store_next [of "(((?h @ [code_byte c]) @ msg) @ bstr '':'') @ bstr '' ''" msg2 ?b] b h False by (simp_all add: bstr_lits)
    have "blit ?b 0 (((((?h @ [code_byte c]) @ msg) @ bstr '':'') @ bstr '' '') @ msg2) = ((((?h @ [code_byte c]) @ msg) @ bstr '':'') @ bstr '' '') @ msg2"
      using False b h by (intro blit_full) (simp add: bstr_lits)
    then have "Status_new fresh c msg msg2 = Inr (Some (((((?h @ [code_byte c]) @ msg) @ bstr '':'') @ bstr '' '') @ msg2))"
      unfolding Status_new_def Let_def sz s5 using c 1 2 u False by simp
    then show ?thesis using False by (simp add: status_block_def bstr_lits)
  qed
qed


lemma status_block_parts:
  assumes "length (status_message msg msg2) < 2 ^ 32 - 5"
  shows "DecodeFixed32 (status_block c msg msg2) = Inr (of_nat (length (status_message msg msg2)))"
    and "unat (of_nat (length (status_message msg msg2)) :: u32) = length (status_message msg msg2)"
    and "unat (of_nat (length (status_message msg msg2)) + 5 :: u32) = length (status_message msg msg2) + 5"
    and "length (status_block c msg msg2) = length (status_message msg msg2) + 5"
    and "nth_res (status_block c msg msg2) 4 = Inr (code_byte c)"
    and "load_bytes (status_block c msg msg2) 5 (length (status_message msg msg2)) = Inr (status_message msg msg2)"
proof -
  let ?m = "status_message msg msg2"
  show "DecodeFixed32 (status_block c msg msg2) = Inr (of_nat (length ?m))"
    by (simp only: status_block_def Let_def Decode_Encode32)
  show u: "unat (of_nat (length ?m) :: u32) = length ?m" using assms by (simp only: unat_of_nat) simp
  have "(of_nat (length ?m) + 5 :: u32) = of_nat (length ?m + 5)" by simp
  then show "unat (of_nat (length ?m) + 5 :: u32) = length ?m + 5" using assms by (simp only: unat_of_nat) simp
  show l: "length (status_block c msg msg2) = length ?m + 5" by (simp add: status_block_def)
  have 4: "EncodeFixed32 x @ [code_byte c] @ ?m = (EncodeFixed32 x @ [code_byte c]) @ ?m" for x by simp
  show "nth_res (status_block c msg msg2) 4 = Inr (code_byte c)"
    unfolding nth_res_def l by (simp add: status_block_def nth_append)
  have "drop 5 (status_block c msg msg2) = ?m" by (simp add: status_block_def Let_def)
  then show "load_bytes (status_block c msg msg2) 5 (length ?m) = Inr ?m"
    using l by (simp add: load_bytes_def)
qed

fun code_prefix :: "Code \<Rightarrow> bytes" where
  "code_prefix kOk = bstr ''OK''" | "code_prefix kNotFound = bstr ''NotFound: ''" | "code_prefix kCorruption = bstr ''Corruption: ''"
| "code_prefix kNotSupported = bstr ''Not implemented: ''" | "code_prefix kInvalidArgument = bstr ''Invalid argument: ''"
| "code_prefix kIOError = bstr ''IO error: ''"

lemma Status_ToString_block:
  assumes "length (status_message msg msg2) < 2 ^ 32 - 5"
  shows "Status_ToString (Some (status_block c msg msg2)) = Inr (code_prefix c @ status_message msg msg2)"
  using status_block_parts [OF assms] by (cases c) (simp_all add: Status_ToString_def Status_code_def)

lemma Status_copy_block:
  assumes "length (status_message msg msg2) < 2 ^ 32 - 5"
  shows "Status_copy (Some (status_block c msg msg2)) = Inr (Some (status_block c msg msg2))"
proof -
  have "load_bytes b 0 (length b) = Inr b" for b by (simp add: load_bytes_def)
  then show ?thesis
    unfolding Status_copy_def CopyState_def option.case status_block_parts(1) [OF assms] bindR_Inr status_block_parts(3) [OF assms]
    by (metis bindR_Inr status_block_parts(4) [OF assms])
qed

lemma code_byte_inj: "code_byte c = code_byte d \<longleftrightarrow> c = d"
  by (cases c; cases d) simp_all

section \<open>Decimal numbers\<close>

lemma length_dec_digits: "0 < k \<Longrightarrow> n < 10 ^ k \<Longrightarrow> length (dec_digits n) \<le> k"
proof (induction k arbitrary: n)
  case (Suc k)
  show ?case
  proof (cases "n < 10")
    case False
    then have "0 < k" using Suc.prems by (cases k) auto
    moreover have "n div 10 < 10 ^ k" using Suc.prems by auto
    ultimately show ?thesis using Suc.IH [of "n div 10"] False by (subst dec_digits.simps) simp
  qed (subst dec_digits.simps, simp)
qed simp

lemma length_dec_u64: "length (dec_digits (unat (n :: u64))) \<le> 20"
  using unsigned_less [of n, where 'a = nat] by (intro length_dec_digits) simp_all

lemma NumberToString_eq: "NumberToString n = dec_digits (unat n)"
  using length_dec_u64 [of n] by (simp add: NumberToString_def AppendNumberTo_def snprintf_def)

lemma dec_val_ge: "0 \<le> a \<Longrightarrow> (\<forall>b \<in> set ds. isdigit b) \<Longrightarrow> a \<le> dec_val a ds"
proof (induction ds arbitrary: a)
  case (Cons b ds)
  then have "48 \<le> uint b" by (simp add: isdigit_def word_le_def)
  then have "a \<le> 10 * a + (uint b - 48)" "0 \<le> 10 * a + (uint b - 48)" using Cons.prems(1) by simp_all
  then show ?case using Cons.IH [of "10 * a + (uint b - 48)"] Cons.prems(2) by auto
qed simp

lemma digit_delta:
  assumes "isdigit c"
  shows "uint (ucast (c - 48) :: u64) = uint c - 48" and "uint c - 48 \<le> 9" and "0 \<le> uint c - 48"
proof -
  have c: "48 \<le> uint c" "uint c \<le> 57" using assms by (auto simp: isdigit_def word_le_def)
  then show "uint c - 48 \<le> 9" "0 \<le> uint c - 48" by simp_all
  have "uint (c - 48) = (uint c - 48) mod 2 ^ 8" by (simp add: uint_word_ariths)
  then have "uint (c - 48) = uint c - 48" using c by simp
  moreover have "uint (ucast (c - 48) :: u64) = uint (c - 48)" using take_bit_int_eq_self [of "uint (c - 48)" 64] uint_lt2p [of "c - 48"] by (simp add: unsigned_ucast_eq)
  ultimately show "uint (ucast (c - 48) :: u64) = uint c - 48" by simp
qed

lemma overflow_check:
  fixes v d :: u64
  assumes "uint d \<le> 9"
  shows "(NOT 0 div 10 < v \<or> v = NOT 0 div 10 \<and> NOT 0 mod 10 < d) \<longleftrightarrow> 2 ^ 64 \<le> 10 * uint v + uint d"
    and "10 * uint v + uint d < 2 ^ 64 \<Longrightarrow> uint (v * 10 + d) = 10 * uint v + uint d"
proof -
  have "uint (NOT 0 div 10 :: u64) = 1844674407370955161" "uint (NOT 0 mod 10 :: u64) = 5"
    by (simp_all add: uint_div uint_mod)
  moreover have "(1844674407370955161 < a \<or> a = 1844674407370955161 \<and> 5 < b) = (18446744073709551616 \<le> 10 * a + b)"
    if "0 \<le> b" "b \<le> 9" for a b :: int using that by presburger
  ultimately show "(NOT 0 div 10 < v \<or> v = NOT 0 div 10 \<and> NOT 0 mod 10 < d) \<longleftrightarrow> 2 ^ 64 \<le> 10 * uint v + uint d"
    using assms uint_nonnegative [of d] unfolding word_less_def word_uint_eq_iff by simp
  assume "10 * uint v + uint d < 2 ^ 64"
  then show "uint (v * 10 + d) = 10 * uint v + uint d"
    by (simp add: uint_word_ariths mod_add_left_eq)
qed

lemma consume_loop_spec:
  "0 \<le> digits \<Longrightarrow> let ds = takeWhile isdigit inp in
    if dec_val (uint v) ds < 2 ^ 64
    then consume_loop inp v digits = (0 < digits \<or> ds \<noteq> [], Some (word_of_int (dec_val (uint v) ds)), dropWhile isdigit inp)
    else \<exists>r. consume_loop inp v digits = (False, None, r)"
proof (induction inp arbitrary: v digits)
  case Nil
  then show ?case using uint_lt2p [of v] by simp
next
  case (Cons c inp)
  show ?case
  proof (cases "isdigit c")
    case False
    then have "\<not> (48 \<le> c \<and> c \<le> 57)" by (simp add: isdigit_def)
    then show ?thesis using False uint_lt2p [of v] by auto
  next
    case True
    let ?d = "ucast (c - 48) :: u64" and ?ds = "takeWhile isdigit inp"
    have d: "uint ?d = uint c - 48" "uint ?d \<le> 9" "0 \<le> uint ?d" using digit_delta [OF True] by simp_all
    have T: "takeWhile isdigit (c # inp) = c # ?ds" "dropWhile isdigit (c # inp) = dropWhile isdigit inp" using True by simp_all
    have 48: "48 \<le> c \<and> c \<le> 57" using True by (simp add: isdigit_def)
    show ?thesis
    proof (cases "2 ^ 64 \<le> 10 * uint v + uint ?d")
      case o: True
      have "0 \<le> 10 * uint v + uint ?d" by simp
      then have "2 ^ 64 \<le> dec_val (10 * uint v + uint ?d) ?ds"
        using o dec_val_ge [of "10 * uint v + uint ?d" ?ds] set_takeWhileD by fastforce
      moreover have "consume_loop (c # inp) v digits = (False, None, c # inp)"
        using 48 o overflow_check(1) [OF d(2), of v] by (simp add: Let_def)
      ultimately show ?thesis unfolding T Let_def using d(1) by (simp del: consume_loop.simps)
    next
      case False
      then have u: "uint (v * 10 + ?d) = 10 * uint v + uint ?d" using overflow_check(2) [OF d(2)] by simp
      have "consume_loop (c # inp) v digits = consume_loop inp (v * 10 + ?d) (digits + 1)"
        using 48 False overflow_check(1) [OF d(2), of v] by (simp only: consume_loop.simps Let_def if_True if_False simp_thms)
      then show ?thesis using Cons.IH [of "digits + 1" "v * 10 + ?d"] Cons.prems unfolding T Let_def u
        using d(1) by (simp del: consume_loop.simps)
    qed
  qed
qed

lemma ConsumeDecimalNumber_spec:
  "let ds = takeWhile isdigit inp in
    if dec_val 0 ds < 2 ^ 64
    then ConsumeDecimalNumber inp = (ds \<noteq> [], Some (word_of_int (dec_val 0 ds)), dropWhile isdigit inp)
    else \<exists>r. ConsumeDecimalNumber inp = (False, None, r)"
  using consume_loop_spec [of 0 inp 0] by (simp add: ConsumeDecimalNumber_def Let_def)


section \<open>File names\<close>

lemma dec_val_zeros: "dec_val 0 (replicate k 48 @ ds) = dec_val 0 ds"
  by (induction k) simp_all

lemma isdigit_48: "isdigit 48"
  by (simp add: isdigit_def)

lemma pad6_props:
  shows "\<forall>b \<in> set (pad6 n). isdigit b" "pad6 n \<noteq> []" "length (pad6 n) \<le> 20" "dec_val 0 (pad6 n) = uint n"
proof -
  show "\<forall>b \<in> set (pad6 n). isdigit b" using dec_digits_digits isdigit_48 by (auto simp: pad6_def Let_def)
  show "pad6 n \<noteq> []" using dec_digits_nonempty by (simp add: pad6_def Let_def)
  show "length (pad6 n) \<le> 20" using length_dec_u64 [of n] by (simp add: pad6_def Let_def)
  show "dec_val 0 (pad6 n) = uint n" by (simp add: pad6_def Let_def dec_val_zeros dec_val_dec_digits)
qed

lemma consume_pad6:
  assumes "suffix = [] \<or> \<not> isdigit (hd suffix)"
  shows "ConsumeDecimalNumber (pad6 n @ suffix) = (True, Some n, suffix)"
proof -
  have d: "takeWhile isdigit suffix = []" "dropWhile isdigit suffix = suffix" using assms by (cases suffix; simp)+
  have t: "takeWhile isdigit (pad6 n @ suffix) = pad6 n" "dropWhile isdigit (pad6 n @ suffix) = suffix"
    using pad6_props(1) [of n] d by (simp_all add: takeWhile_append2 dropWhile_append2)
  show ?thesis using ConsumeDecimalNumber_spec [of "pad6 n @ suffix"] pad6_props(2,4) [of n] uint_lt2p [of n]
    unfolding t Let_def by simp
qed

lemma consume_dec:
  assumes "suffix = [] \<or> \<not> isdigit (hd suffix)"
  shows "ConsumeDecimalNumber (NumberToString n @ suffix) = (True, Some n, suffix)"
proof -
  have d: "takeWhile isdigit suffix = []" "dropWhile isdigit suffix = suffix" using assms by (cases suffix; simp)+
  have t: "takeWhile isdigit (dec_digits (unat n) @ suffix) = dec_digits (unat n)" "dropWhile isdigit (dec_digits (unat n) @ suffix) = suffix"
    using dec_digits_digits d by (simp_all add: takeWhile_append2 dropWhile_append2)
  show ?thesis using ConsumeDecimalNumber_spec [of "NumberToString n @ suffix"] uint_lt2p [of n] dec_digits_nonempty
    unfolding NumberToString_eq t Let_def by (simp add: dec_val_dec_digits)
qed

lemma digit_first:
  assumes "xs \<noteq> []" "\<forall>b \<in> set xs. isdigit b" "\<not> isdigit (hd ys)"
  shows "xs @ s \<noteq> ys"
  using assms by (cases xs) auto

lemma bstr_not_digit: "\<not> isdigit (hd (bstr ''CURRENT''))" "\<not> isdigit (hd (bstr ''LOCK''))" "\<not> isdigit (hd (bstr ''LOG''))"
  "\<not> isdigit (hd (bstr ''LOG.old''))" "\<not> isdigit (hd (bstr ''MANIFEST-'' @ t))"
  "\<not> isdigit (hd (bstr ''.log''))" "\<not> isdigit (hd (bstr ''.sst''))" "\<not> isdigit (hd (bstr ''.ldb''))" "\<not> isdigit (hd (bstr ''.dbtmp''))"
  by (simp_all add: bstr_def isdigit_def)

lemma ParseFileName_number:
  assumes "\<not> isdigit (hd suffix)" "suffix \<noteq> []"
  shows "ParseFileName (pad6 n @ suffix) =
    (if suffix = bstr ''.log'' then Some (n, kLogFile) else if suffix = bstr ''.sst'' \<or> suffix = bstr ''.ldb'' then Some (n, kTableFile)
     else if suffix = bstr ''.dbtmp'' then Some (n, kTempFile) else None)"
proof -
  note f = digit_first [OF pad6_props(2,1) [of n], where s = suffix]
  have "\<not> starts_with (pad6 n @ suffix) (bstr ''MANIFEST-'')"
    unfolding starts_with_prefix using f [OF bstr_not_digit(5)] by blast
  then show ?thesis
    using f [OF bstr_not_digit(1)] f [OF bstr_not_digit(2)] f [OF bstr_not_digit(3)] f [OF bstr_not_digit(4)] consume_pad6 [of suffix n] assms(1)
    by (simp add: ParseFileName_def)
qed

lemma MakeFileName_eq: "length suffix \<le> 5 \<Longrightarrow> MakeFileName name n suffix = name @ bstr ''/'' @ pad6 n @ bstr ''.'' @ suffix"
  using pad6_props(3) [of n] by (simp add: MakeFileName_def snprintf_def bstr_def)

lemma drop_name: "drop (Suc (length name)) (name @ bstr ''/'' @ s) = s"
  by (simp add: bstr_def)

lemma dot_append: "bstr ''.'' @ bstr s = bstr (CHR ''.'' # s)"
  by (simp add: bstr_def)

text \<open>The parser sees a name without its directory.\<close>

abbreviation base_name :: "bytes \<Rightarrow> bytes \<Rightarrow> bytes" where
  "base_name dbname fname \<equiv> drop (length dbname + 1) fname"

lemma numbered_names:
  assumes "0 < n"
  shows "\<exists>f. LogFileName db n = Inr f \<and> ParseFileName (base_name db f) = Some (n, kLogFile)"
    and "\<exists>f. TableFileName db n = Inr f \<and> ParseFileName (base_name db f) = Some (n, kTableFile)"
    and "\<exists>f. SSTTableFileName db n = Inr f \<and> ParseFileName (base_name db f) = Some (n, kTableFile)"
    and "\<exists>f. TempFileName db n = Inr f \<and> ParseFileName (base_name db f) = Some (n, kTempFile)"
proof -
  have l: "length (bstr ''log'') \<le> 5" "length (bstr ''ldb'') \<le> 5" "length (bstr ''sst'') \<le> 5" "length (bstr ''dbtmp'') \<le> 5"
    by (simp_all add: bstr_def)
  have ne: "bstr ''.log'' \<noteq> []" "bstr ''.ldb'' \<noteq> []" "bstr ''.sst'' \<noteq> []" "bstr ''.dbtmp'' \<noteq> []"
    by (simp_all add: bstr_def)
  have d: "bstr ''.ldb'' \<noteq> bstr ''.log''" "bstr ''.sst'' \<noteq> bstr ''.log''" "bstr ''.dbtmp'' \<noteq> bstr ''.log''" "bstr ''.dbtmp'' \<noteq> bstr ''.sst''" "bstr ''.dbtmp'' \<noteq> bstr ''.ldb''"
    by (simp_all add: bstr_def)
  note parse = ParseFileName_number [OF bstr_not_digit(6) ne(1)] ParseFileName_number [OF bstr_not_digit(8) ne(2)]
    ParseFileName_number [OF bstr_not_digit(7) ne(3)] ParseFileName_number [OF bstr_not_digit(9) ne(4)]
  note eqs = drop_name MakeFileName_eq [OF l(1)] MakeFileName_eq [OF l(2)] MakeFileName_eq [OF l(3)] MakeFileName_eq [OF l(4)]
  show "\<exists>f. LogFileName db n = Inr f \<and> ParseFileName (base_name db f) = Some (n, kLogFile)"
    using assms parse by (simp add: LogFileName_def eqs dot_append del: drop_append)
  show "\<exists>f. TableFileName db n = Inr f \<and> ParseFileName (base_name db f) = Some (n, kTableFile)"
    using assms parse d by (simp add: TableFileName_def eqs dot_append del: drop_append)
  show "\<exists>f. SSTTableFileName db n = Inr f \<and> ParseFileName (base_name db f) = Some (n, kTableFile)"
    using assms parse d by (simp add: SSTTableFileName_def eqs dot_append del: drop_append)
  show "\<exists>f. TempFileName db n = Inr f \<and> ParseFileName (base_name db f) = Some (n, kTempFile)"
    using assms parse d by (simp add: TempFileName_def eqs dot_append del: drop_append)
qed

lemma descriptor_name:
  assumes "0 < n"
  shows "\<exists>f. DescriptorFileName db n = Inr f \<and> ParseFileName (base_name db f) = Some (n, kDescriptorFile)"
proof -
  let ?m = "bstr ''MANIFEST-''"
  have e: "bstr ''/MANIFEST-'' = bstr ''/'' @ ?m" "length ?m = 9" by (simp_all add: bstr_def)
  have "snprintf 100 (bstr ''/MANIFEST-'' @ pad6 n) = bstr ''/'' @ ?m @ pad6 n"
    using pad6_props(3) [of n] by (simp add: snprintf_def bstr_def)
  moreover have "?m @ pad6 n \<noteq> bstr ''CURRENT''" "?m @ pad6 n \<noteq> bstr ''LOCK''" "?m @ pad6 n \<noteq> bstr ''LOG''" "?m @ pad6 n \<noteq> bstr ''LOG.old''"
    by (simp_all add: bstr_def)
  moreover have "starts_with (?m @ pad6 n) ?m" by (simp add: starts_with_prefix)
  moreover have "ConsumeDecimalNumber (drop 9 (?m @ pad6 n)) = (True, Some n, [])" using consume_pad6 [of "[]" n] e(2) by simp
  ultimately have "ParseFileName (?m @ pad6 n) = Some (n, kDescriptorFile)" "DescriptorFileName db n = Inr (db @ bstr ''/'' @ ?m @ pad6 n)"
    using assms by (simp_all add: DescriptorFileName_def ParseFileName_def del: drop_append)
  then show ?thesis by (simp add: drop_name del: drop_append)
qed

lemma fixed_names:
  "ParseFileName (base_name db (CurrentFileName db)) = Some (0, kCurrentFile)"
  "ParseFileName (base_name db (LockFileName db)) = Some (0, kDBLockFile)"
  "ParseFileName (base_name db (InfoLogFileName db)) = Some (0, kInfoLogFile)"
  "ParseFileName (base_name db (OldInfoLogFileName db)) = Some (0, kInfoLogFile)"
  by (simp_all add: CurrentFileName_def LockFileName_def InfoLogFileName_def OldInfoLogFileName_def ParseFileName_def bstr_def)


end
