(* ===== verification/Ldb_Filter.thy ===== *)
theory Ldb_Filter
  imports Ldb_Crc
begin

text \<open>
  Filters of LevelDB: \<^verbatim>\<open>util/hash.cc\<close>, the Bloom filter of \<^verbatim>\<open>util/bloom.cc\<close>, \<open>InternalFilterPolicy\<close> of
  \<^verbatim>\<open>db/dbformat.cc\<close> and the filter blocks of \<^verbatim>\<open>table/filter_block.cc\<close>. The locale \<open>filter_policy\<close> is the
  contract of a policy: no false negatives. It is interpreted for the Bloom filter, passes on to internal keys by a
  \<open>sublocale\<close>, and the proofs about filter blocks are made inside it.
\<close>

section \<open>Hash: model\<close>

text \<open>The remaining bytes are characters with a sign, shifted as integers.\<close>

definition signed_byte :: "byte \<Rightarrow> u32" where
  "signed_byte b = scast b"

definition hash_m :: u32 where "hash_m = 0xc6a4a793"

function hash_loop :: "u32 \<Rightarrow> bytes \<Rightarrow> (u32 \<times> bytes) res" where
  "hash_loop h data =
     (if 4 \<le> length data
      then bindR (DecodeFixed32 data) (\<lambda>w.
           let h = (h + w) * hash_m; h = h XOR drop_bit 16 h in
           hash_loop h (drop 4 data))
      else Inr (h, data))"
  by pat_completeness auto
termination
  by (relation "measure (\<lambda>(h, data). length data)") auto

declare hash_loop.simps [simp del]

definition Hash :: "bytes \<Rightarrow> u32 \<Rightarrow> u32 res" where
  "Hash data seed =
     bindR (hash_loop (seed XOR of_nat (length data) * hash_m) data) (\<lambda>(h, data).
     let n = length data;
         h = (if n = 3 then h + push_bit 16 (signed_byte (data ! 2)) else h);
         h = (if n = 3 \<or> n = 2 then h + push_bit 8 (signed_byte (data ! 1)) else h) in
     if n = 3 \<or> n = 2 \<or> n = 1
     then let h = (h + signed_byte (data ! 0)) * hash_m in Inr (h XOR drop_bit 24 h)
     else Inr h)"

section \<open>Filter policies: model\<close>

text \<open>A filter policy object: its two virtual functions. \<open>CreateFilter\<close> appends to the string \<open>dst\<close>.\<close>

record FilterPolicy =
  fp_CreateFilter :: "slice list \<Rightarrow> bytes \<Rightarrow> bytes res"
  fp_KeyMayMatch :: "slice \<Rightarrow> slice \<Rightarrow> bool res"

definition BloomHash :: "slice \<Rightarrow> u32 res" where
  "BloomHash key = Hash key 0xbc9f1d34"

text \<open>The constructor: \<open>product\<close> is the truncated product \<^verbatim>\<open>bits_per_key * 0.69\<close> of floating-point numbers.\<close>

definition bloom_k :: "nat \<Rightarrow> nat" where
  "bloom_k product = (let k = (if product < 1 then 1 else product) in if k > 30 then 30 else k)"

definition bloom_delta :: "u32 \<Rightarrow> u32" where
  "bloom_delta h = drop_bit 17 h OR push_bit 15 h"

primrec bloom_add :: "nat \<Rightarrow> nat \<Rightarrow> u32 \<Rightarrow> u32 \<Rightarrow> bytes \<Rightarrow> bytes res" where
  "bloom_add 0 bits h delta array = Inr array"
| "bloom_add (Suc j) bits h delta array =
     (let bitpos = unat h mod bits in
      bindR (nth_res array (int (bitpos div 8))) (\<lambda>b.
      bindR (upd_res array (int (bitpos div 8)) (b OR push_bit (bitpos mod 8) 1)) (\<lambda>array.
      bloom_add j bits (h + delta) delta array)))"

primrec bloom_keys :: "nat \<Rightarrow> nat \<Rightarrow> slice list \<Rightarrow> bytes \<Rightarrow> bytes res" where
  "bloom_keys k bits [] array = Inr array"
| "bloom_keys k bits (key # keys) array =
     bindR (BloomHash key) (\<lambda>h.
     bindR (bloom_add k bits h (bloom_delta h) array) (\<lambda>array.
     bloom_keys k bits keys array))"

definition bloom_CreateFilter :: "nat \<Rightarrow> nat \<Rightarrow> slice list \<Rightarrow> bytes \<Rightarrow> bytes res" where
  "bloom_CreateFilter bits_per_key k keys dst =
     (let bits = length keys * bits_per_key;
          bits = (if bits < 64 then 64 else bits);
          bytes = (bits + 7) div 8; bits = bytes * 8;
          init_size = length dst;
          dst = dst @ replicate bytes 0 @ [of_nat k] in
      bindR (bloom_keys k bits keys (drop init_size dst)) (\<lambda>array.
      Inr (take init_size dst @ array)))"

primrec bloom_probe :: "nat \<Rightarrow> nat \<Rightarrow> u32 \<Rightarrow> u32 \<Rightarrow> bytes \<Rightarrow> bool res" where
  "bloom_probe 0 bits h delta array = Inr True"
| "bloom_probe (Suc j) bits h delta array =
     (let bitpos = unat h mod bits in
      bindR (nth_res array (int (bitpos div 8))) (\<lambda>b.
      if b AND push_bit (bitpos mod 8) 1 = 0 then Inr False
      else bloom_probe j bits (h + delta) delta array))"

definition bloom_KeyMayMatch :: "slice \<Rightarrow> slice \<Rightarrow> bool res" where
  "bloom_KeyMayMatch key bloom_filter =
     (let len = length bloom_filter in
      if len < 2 then Inr False
      else let bits = (len - 1) * 8; k = unat (scast (bloom_filter ! (len - 1)) :: u64) in
           if k > 30 then Inr True
           else bindR (BloomHash key) (\<lambda>h. bloom_probe k bits h (bloom_delta h) bloom_filter))"

definition BloomFilterPolicy :: "nat \<Rightarrow> nat \<Rightarrow> FilterPolicy" where
  "BloomFilterPolicy bits_per_key product =
     \<lparr>fp_CreateFilter = bloom_CreateFilter bits_per_key (bloom_k product), fp_KeyMayMatch = bloom_KeyMayMatch\<rparr>"

text \<open>\<open>InternalFilterPolicy\<close> replaces the keys in place by their user keys.\<close>

primrec extract_all :: "slice list \<Rightarrow> slice list res" where
  "extract_all [] = Inr []"
| "extract_all (k # ks) = bindR (ExtractUserKey k) (\<lambda>u. bindR (extract_all ks) (\<lambda>us. Inr (u # us)))"

definition internal_CreateFilter :: "FilterPolicy \<Rightarrow> slice list \<Rightarrow> bytes \<Rightarrow> bytes res" where
  "internal_CreateFilter user_policy keys dst = bindR (extract_all keys) (\<lambda>mkey. fp_CreateFilter user_policy mkey dst)"

definition internal_KeyMayMatch :: "FilterPolicy \<Rightarrow> slice \<Rightarrow> slice \<Rightarrow> bool res" where
  "internal_KeyMayMatch user_policy key f = bindR (ExtractUserKey key) (\<lambda>u. fp_KeyMayMatch user_policy u f)"

definition InternalFilterPolicy :: "FilterPolicy \<Rightarrow> FilterPolicy" where
  "InternalFilterPolicy p = \<lparr>fp_CreateFilter = internal_CreateFilter p, fp_KeyMayMatch = internal_KeyMayMatch p\<rparr>"

section \<open>The hash function is total\<close>

lemma DecodeFixed32_long: "4 \<le> length p \<Longrightarrow> \<exists>n. DecodeFixed32 p = Inr n"
  by (simp add: DecodeFixed32_def load_bytes_in)

lemma hash_loop_total: "\<exists>h' r. hash_loop h data = Inr (h', r) \<and> length r < 4"
proof (induction "length data" arbitrary: h data rule: less_induct)
  case less
  show ?case
  proof (cases "4 \<le> length data")
    case True
    then obtain w where w: "DecodeFixed32 data = Inr w" using DecodeFixed32_long by blast
    let ?h = "(h + w) * hash_m XOR drop_bit 16 ((h + w) * hash_m)"
    have "hash_loop h data = hash_loop ?h (drop 4 data)" using True w by (subst hash_loop.simps) (simp add: Let_def)
    then show ?thesis using less [of "drop 4 data" ?h] True by simp
  qed (subst hash_loop.simps, simp)
qed

lemma Hash_total: "\<exists>h. Hash data seed = Inr h"
  using hash_loop_total [of "seed XOR of_nat (length data) * hash_m" data] by (fastforce simp: Hash_def Let_def)


section \<open>Bloom filters have no false negatives\<close>

definition probe_set :: "nat \<Rightarrow> u32 \<Rightarrow> bytes \<Rightarrow> bool" where
  "probe_set bits h a \<longleftrightarrow> bit (a ! (unat h mod bits div 8)) (unat h mod bits mod 8)"

definition keeps_bits :: "nat \<Rightarrow> bytes \<Rightarrow> bytes \<Rightarrow> bool" where
  "keeps_bits n a a' \<longleftrightarrow> length a' = length a \<and> drop n a' = drop n a \<and> (\<forall>i m. i < length a \<longrightarrow> bit (a ! i) m \<longrightarrow> bit (a' ! i) m)"

lemma keeps_bits_trans: "keeps_bits n a b \<Longrightarrow> keeps_bits n b c \<Longrightarrow> keeps_bits n a c"
  by (simp add: keeps_bits_def)

lemma keeps_bits_refl: "keeps_bits n a a"
  by (simp add: keeps_bits_def)

lemma probe_index: "0 < n \<Longrightarrow> n \<le> length a \<Longrightarrow> unat h mod (n * 8) div 8 < n"
  by (simp add: div_less_iff_less_mult)

lemma keeps_probe: "keeps_bits n a a' \<Longrightarrow> 0 < n \<Longrightarrow> n \<le> length a \<Longrightarrow> probe_set (n * 8) h a \<Longrightarrow> probe_set (n * 8) h a'"
  using probe_index [of n a h] by (auto simp: keeps_bits_def probe_set_def)

lemma set_bit_keeps:
  assumes "0 < n" "n \<le> length a" and p: "p = unat h mod (n * 8)"
  defines "a' \<equiv> a[p div 8 := a ! (p div 8) OR push_bit (p mod 8) 1]"
  shows "keeps_bits n a a' \<and> probe_set (n * 8) h a'"
proof -
  have i: "p div 8 < n" "p div 8 < length a" using probe_index [OF assms(1,2), of h] assms(2) p by auto
  have "bit (a' ! (p div 8)) (p mod 8)" using i by (simp add: a'_def bit_or_iff bit_exp_iff)
  moreover have "bit (a ! j) m \<Longrightarrow> bit (a' ! j) m" if "j < length a" for j m
    using that by (cases "j = p div 8") (simp_all add: a'_def bit_or_iff)
  ultimately show ?thesis using i p by (simp add: keeps_bits_def probe_set_def a'_def)
qed

lemma bloom_add_spec:
  assumes "0 < n" "n \<le> length a"
  shows "\<exists>a'. bloom_add k (n * 8) h d a = Inr a' \<and> keeps_bits n a a' \<and> (\<forall>j < k. probe_set (n * 8) (h + of_nat j * d) a')"
  using assms(2)
proof (induction k arbitrary: h a)
  case (Suc k)
  define p where "p = unat h mod (n * 8)"
  define a1 where "a1 = a[p div 8 := a ! (p div 8) OR push_bit (p mod 8) 1]"
  have 1: "keeps_bits n a a1" "probe_set (n * 8) h a1" using set_bit_keeps [OF assms(1) Suc.prems p_def] by (simp_all add: a1_def)
  have i: "p div 8 < length a" using probe_index [OF assms(1) Suc.prems, of h] Suc.prems by (simp add: p_def)
  have "n \<le> length a1" using Suc.prems by (simp add: a1_def)
  then obtain a' where a': "bloom_add k (n * 8) (h + d) d a1 = Inr a'" "keeps_bits n a1 a'" "\<forall>j < k. probe_set (n * 8) (h + d + of_nat j * d) a'"
    using Suc.IH by blast
  have "bloom_add (Suc k) (n * 8) h d a = Inr a'"
    using a'(1) i by (simp add: Let_def p_def [symmetric] nth_res_Inr upd_res_in a1_def)
  moreover have "probe_set (n * 8) (h + of_nat j * d) a'" if "j < Suc k" for j
  proof (cases j)
    case 0
    then show ?thesis using keeps_probe [OF a'(2) assms(1) \<open>n \<le> length a1\<close> 1(2)] by simp
  next
    case (Suc i)
    then have "h + of_nat j * d = h + d + of_nat i * d" by (simp add: algebra_simps)
    then show ?thesis using a'(3) Suc that by (metis Suc_less_eq)
  qed
  ultimately show ?case using keeps_bits_trans [OF 1(1) a'(2)] by blast
qed (auto simp: keeps_bits_refl)

lemma bloom_keys_spec:
  assumes "0 < n" "n \<le> length a"
  shows "\<exists>a'. bloom_keys k (n * 8) keys a = Inr a' \<and> keeps_bits n a a'
    \<and> (\<forall>key \<in> set keys. \<forall>h. BloomHash key = Inr h \<longrightarrow> (\<forall>j < k. probe_set (n * 8) (h + of_nat j * bloom_delta h) a'))"
  using assms(2)
proof (induction keys arbitrary: a)
  case (Cons key keys)
  obtain h where h: "BloomHash key = Inr h" using Hash_total by (auto simp: BloomHash_def)
  obtain a1 where a1: "bloom_add k (n * 8) h (bloom_delta h) a = Inr a1" "keeps_bits n a a1" "\<forall>j < k. probe_set (n * 8) (h + of_nat j * bloom_delta h) a1"
    using bloom_add_spec [OF assms(1) Cons.prems] by blast
  have len: "n \<le> length a1" using a1(2) Cons.prems by (simp add: keeps_bits_def)
  obtain a' where a': "bloom_keys k (n * 8) keys a1 = Inr a'" "keeps_bits n a1 a'"
      "\<forall>key \<in> set keys. \<forall>h. BloomHash key = Inr h \<longrightarrow> (\<forall>j < k. probe_set (n * 8) (h + of_nat j * bloom_delta h) a')"
    using Cons.IH [OF len] by blast
  have "\<forall>j < k. probe_set (n * 8) (h + of_nat j * bloom_delta h) a'" using a1(3) keeps_probe [OF a'(2) assms(1) len] by blast
  then show ?case using h a1(1) a' keeps_bits_trans [OF a1(2) a'(2)] by auto
qed (auto simp: keeps_bits_refl)

lemma and_push_bit: "n < 8 \<Longrightarrow> b AND push_bit n 1 = 0 \<longleftrightarrow> \<not> bit b n" for b :: byte
proof
  assume "b AND push_bit n 1 = 0" "n < 8"
  moreover from \<open>n < 8\<close> have "bit (b AND push_bit n 1) n = bit b n" by (simp add: bit_and_iff bit_exp_iff)
  ultimately show "\<not> bit b n" by (metis bit_0_eq bot_apply bot_bool_def)
next
  assume "\<not> bit b n"
  then show "b AND push_bit n 1 = 0" by (intro bit_word_eqI) (auto simp: bit_simps bit_1_iff)
qed

lemma bloom_probe_spec:
  assumes "0 < n" "n \<le> length a" "\<forall>j < k. probe_set (n * 8) (h + of_nat j * d) a"
  shows "bloom_probe k (n * 8) h d a = Inr True"
  using assms(3)
proof (induction k arbitrary: h)
  case (Suc k)
  let ?p = "unat h mod (n * 8)"
  have i: "?p div 8 < length a" using probe_index [OF assms(1,2), of h] assms(2) by simp
  have "bit (a ! (?p div 8)) (?p mod 8)" using Suc.prems [rule_format, of 0] by (simp add: probe_set_def)
  then have "\<not> (a ! (?p div 8) AND push_bit (?p mod 8) 1 = 0)" by (subst and_push_bit) simp_all
  moreover have "\<forall>j < k. probe_set (n * 8) (h + d + of_nat j * d) a"
    using Suc.prems [rule_format, of "Suc j" for j] by (simp add: algebra_simps)
  ultimately show ?case using Suc.IH [of "h + d"] i by (simp add: Let_def nth_res_Inr)
qed simp

lemma bloom_k_range: "1 \<le> bloom_k p" "bloom_k p \<le> 30"
  by (auto simp: bloom_k_def Let_def)

lemma small_byte: "k \<le> 30 \<Longrightarrow> unat (scast (of_nat k :: byte) :: u64) = k"
proof -
  assume "k \<le> 30"
  then have "k \<in> set [0..<31]" by simp
  then show ?thesis by (auto simp: upt_rec)
qed


section \<open>The contract of a filter policy\<close>

text \<open>What the filter blocks rely on: a filter is appended to the string, and it matches every key it was made of.\<close>

locale filter_policy =
  fixes P :: FilterPolicy and ok :: "slice \<Rightarrow> bool"
  assumes create: "list_all ok keys \<Longrightarrow>
    \<exists>f. fp_CreateFilter P keys dst = Inr (dst @ f) \<and> (\<forall>k \<in> set keys. fp_KeyMayMatch P k f = Inr True)"

locale user_policy = filter_policy P "\<lambda>_. True" for P

lemma extract_all_ok: "list_all (\<lambda>k. 8 \<le> length k) keys \<Longrightarrow> extract_all keys = Inr (map key_user keys)"
  by (induction keys) (simp_all add: Extract_key)

sublocale user_policy \<subseteq> internal: filter_policy "InternalFilterPolicy P" "\<lambda>k. 8 \<le> length k"
proof
  fix keys :: "slice list" and dst :: bytes
  assume ok: "list_all (\<lambda>k. 8 \<le> length k) keys"
  obtain f where f: "fp_CreateFilter P (map key_user keys) dst = Inr (dst @ f)" "\<forall>k \<in> set (map key_user keys). fp_KeyMayMatch P k f = Inr True"
    using create [of "map key_user keys" dst] by (auto simp: list_all_iff)
  then show "\<exists>f. fp_CreateFilter (InternalFilterPolicy P) keys dst = Inr (dst @ f) \<and> (\<forall>k \<in> set keys. fp_KeyMayMatch (InternalFilterPolicy P) k f = Inr True)"
    using ok by (intro exI [of _ f])
      (auto simp: InternalFilterPolicy_def internal_CreateFilter_def internal_KeyMayMatch_def extract_all_ok Extract_key list_all_iff)
qed

lemma bloom_create:
  "\<exists>f. bloom_CreateFilter b (bloom_k p) keys dst = Inr (dst @ f) \<and> (\<forall>k \<in> set keys. bloom_KeyMayMatch k f = Inr True)"
proof -
  let ?k = "bloom_k p"
  define n where "n = ((if length keys * b < 64 then 64 else length keys * b) + 7) div 8"
  have "8 \<le> (if m < 64 then 64 else m) + 7" for m :: nat by simp
  then have n: "0 < n" unfolding n_def by (simp only: div_greater_zero_iff) simp
  let ?a = "replicate n 0 @ [of_nat ?k] :: bytes"
  obtain a where a: "bloom_keys ?k (n * 8) keys ?a = Inr a" "keeps_bits n ?a a"
      "\<forall>key \<in> set keys. \<forall>h. BloomHash key = Inr h \<longrightarrow> (\<forall>j < ?k. probe_set (n * 8) (h + of_nat j * bloom_delta h) a)"
    using bloom_keys_spec [OF n, of ?a ?k keys] by auto
  have len: "length a = n + 1" and last: "a ! n = of_nat ?k"
  proof -
    show "length a = n + 1" using a(2) by (simp add: keeps_bits_def)
    moreover have "drop n a = [of_nat ?k]" using a(2) by (simp add: keeps_bits_def)
    ultimately show "a ! n = of_nat ?k" by (metis add_gr_0 hd_drop_conv_nth less_add_one list.sel(1))
  qed
  have "bloom_CreateFilter b ?k keys dst = Inr (dst @ a)"
    unfolding bloom_CreateFilter_def Let_def n_def [symmetric] using a(1) by simp
  moreover have "bloom_KeyMayMatch key a = Inr True" if "key \<in> set keys" for key
  proof -
    obtain h where h: "BloomHash key = Inr h" using Hash_total by (auto simp: BloomHash_def)
    then have "bloom_probe ?k (n * 8) h (bloom_delta h) a = Inr True"
      using a(3) that n len by (intro bloom_probe_spec) auto
    then show ?thesis using h len last n small_byte [OF bloom_k_range(2) [of p]] bloom_k_range(2) [of p]
      by (simp add: bloom_KeyMayMatch_def Let_def)
  qed
  ultimately show ?thesis by blast
qed

interpretation bloom: user_policy "BloomFilterPolicy b p" for b p
proof
  fix keys :: "slice list" and dst :: bytes
  show "\<exists>f. fp_CreateFilter (BloomFilterPolicy b p) keys dst = Inr (dst @ f) \<and> (\<forall>k \<in> set keys. fp_KeyMayMatch (BloomFilterPolicy b p) k f = Inr True)"
    using bloom_create [of b p keys dst] by (simp add: BloomFilterPolicy_def)
qed

section \<open>Filter blocks: model\<close>

text \<open>\<open>tmp_keys_\<close> is empty between the calls and is the local list of \<open>GenerateFilter\<close> here.\<close>

record FilterBlockBuilder =
  fb_keys :: bytes
  fb_start :: "nat list"
  fb_result :: bytes
  fb_offsets :: "u32 list"

definition new_FilterBlockBuilder :: FilterBlockBuilder where
  "new_FilterBlockBuilder = \<lparr>fb_keys = [], fb_start = [], fb_result = [], fb_offsets = []\<rparr>"

definition GenerateFilter :: "FilterPolicy \<Rightarrow> FilterBlockBuilder \<Rightarrow> FilterBlockBuilder res" where
  "GenerateFilter policy b =
     (let num_keys = length (fb_start b); offsets = fb_offsets b @ [of_nat (length (fb_result b))] in
      if num_keys = 0 then Inr (b\<lparr>fb_offsets := offsets\<rparr>)
      else let start = fb_start b @ [length (fb_keys b)];
               tmp_keys = map (\<lambda>i. take (start ! (i + 1) - start ! i) (drop (start ! i) (fb_keys b))) [0..<num_keys] in
           bindR (fp_CreateFilter policy tmp_keys (fb_result b)) (\<lambda>result.
           Inr \<lparr>fb_keys = [], fb_start = [], fb_result = result, fb_offsets = offsets\<rparr>))"

lemma GenerateFilter_offsets: "GenerateFilter policy b = Inr b' \<Longrightarrow> length (fb_offsets b') = length (fb_offsets b) + 1"
  by (auto simp: GenerateFilter_def Let_def bindR_eq_Inr split: if_splits)

function generate_until :: "FilterPolicy \<Rightarrow> nat \<Rightarrow> FilterBlockBuilder \<Rightarrow> FilterBlockBuilder res" where
  "generate_until policy filter_index b =
     (if length (fb_offsets b) < filter_index
      then bindR (GenerateFilter policy b) (\<lambda>b. generate_until policy filter_index b)
      else Inr b)"
  by pat_completeness auto
termination
  by (relation "measure (\<lambda>(policy, n, b). n - length (fb_offsets b))") (auto dest!: GenerateFilter_offsets)

declare generate_until.simps [simp del]

definition kFilterBaseLg :: nat where "kFilterBaseLg = 11"
definition kFilterBase :: u64 where "kFilterBase = push_bit kFilterBaseLg 1"

definition StartBlock :: "FilterPolicy \<Rightarrow> u64 \<Rightarrow> FilterBlockBuilder \<Rightarrow> FilterBlockBuilder res" where
  "StartBlock policy block_offset b =
     (let filter_index = unat (block_offset div kFilterBase) in
      bindR (assertR (length (fb_offsets b) \<le> filter_index)) (\<lambda>_. generate_until policy filter_index b))"

definition AddKey :: "slice \<Rightarrow> FilterBlockBuilder \<Rightarrow> FilterBlockBuilder" where
  "AddKey key b = b\<lparr>fb_start := fb_start b @ [length (fb_keys b)], fb_keys := fb_keys b @ key\<rparr>"

definition filter_Finish :: "FilterPolicy \<Rightarrow> FilterBlockBuilder \<Rightarrow> bytes res" where
  "filter_Finish policy b =
     bindR (if fb_start b \<noteq> [] then GenerateFilter policy b else Inr b) (\<lambda>b.
     let array_offset = of_nat (length (fb_result b));
         result = foldl PutFixed32 (fb_result b) (fb_offsets b);
         result = PutFixed32 result array_offset in
     Inr (result @ [of_nat kFilterBaseLg]))"

text \<open>The reader: \<open>data_\<close> is the block with \<open>offset_\<close> as an index into it; both are null together.\<close>

record FilterBlockReader =
  fr_data :: "bytes option"
  fr_offset :: nat
  fr_num :: nat
  fr_base_lg :: nat

definition new_FilterBlockReader :: "slice \<Rightarrow> FilterBlockReader res" where
  "new_FilterBlockReader contents =
     (let n = length contents; r = \<lparr>fr_data = None, fr_offset = 0, fr_num = 0, fr_base_lg = 0\<rparr> in
      if n < 5 then Inr r
      else let r = r\<lparr>fr_base_lg := unat (scast (contents ! (n - 1)) :: u64)\<rparr> in
           bindR (DecodeFixed32 (drop (n - 5) contents)) (\<lambda>last_word.
           if n - 5 < unat last_word then Inr r
           else Inr (r\<lparr>fr_data := Some contents, fr_offset := unat last_word, fr_num := (n - 5 - unat last_word) div 4\<rparr>)))"

text \<open>Shifting by the width of the number or more is undefined.\<close>

definition reader_KeyMayMatch :: "FilterPolicy \<Rightarrow> FilterBlockReader \<Rightarrow> u64 \<Rightarrow> slice \<Rightarrow> bool res" where
  "reader_KeyMayMatch policy r block_offset key =
     (if 64 \<le> fr_base_lg r then Inl Int_overflow
      else let index = unat (drop_bit (fr_base_lg r) block_offset) in
           if index < fr_num r
           then (case fr_data r of
                   None \<Rightarrow> Inl Null_deref
                 | Some data \<Rightarrow>
                     bindR (DecodeFixed32 (drop (fr_offset r + index * 4) data)) (\<lambda>start.
                     bindR (DecodeFixed32 (drop (fr_offset r + index * 4 + 4) data)) (\<lambda>limit.
                     if start \<le> limit \<and> unat limit \<le> fr_offset r
                     then fp_KeyMayMatch policy key (take (unat limit - unat start) (drop (unat start) data))
                     else if start = limit then Inr False
                     else Inr True)))
           else Inr True)"


section \<open>The invariant of the builder\<close>

text \<open>The positions of the parts in their concatenation.\<close>

fun starts :: "nat \<Rightarrow> 'a list list \<Rightarrow> nat list" where
  "starts n [] = []"
| "starts n (x # xs) = n # starts (n + length x) xs"

lemma length_starts [simp]: "length (starts n xs) = length xs"
  by (induction n xs rule: starts.induct) simp_all

lemma starts_snoc: "starts n (xs @ [x]) = starts n xs @ [n + length (concat xs)]"
  by (induction n xs rule: starts.induct) simp_all

lemma starts_nth: "i < length xs \<Longrightarrow> starts n xs ! i = n + length (concat (take i xs))"
  by (induction n xs arbitrary: i rule: starts.induct) (simp_all add: nth_Cons take_Cons split: nat.splits)

lemma starts_end: "i \<le> length xs \<Longrightarrow> (starts n xs @ [n + length (concat xs)]) ! i = n + length (concat (take i xs))"
  by (cases "i = length xs") (simp_all add: nth_append starts_nth)

lemma part_of_concat:
  assumes "i < length xs"
  shows "take (length (concat (take (Suc i) xs)) - length (concat (take i xs))) (drop (length (concat (take i xs))) (concat xs)) = xs ! i"
proof -
  have "concat xs = concat (take i xs) @ xs ! i @ concat (drop (Suc i) xs)"
    using assms by (metis append_take_drop_id concat.simps(2) concat_append Cons_nth_drop_Suc)
  then show ?thesis using assms by (simp add: take_Suc_conv_app_nth)
qed

lemma slices_of_concat:
  assumes "s = starts 0 xs @ [length (concat xs)]"
  shows "map (\<lambda>i. take (s ! (i + 1) - s ! i) (drop (s ! i) (concat xs))) [0..<length xs] = xs"
proof (rule nth_equalityI)
  fix i assume "i < length (map (\<lambda>i. take (s ! (i + 1) - s ! i) (drop (s ! i) (concat xs))) [0..<length xs])"
  then have i: "i < length xs" by simp
  have s: "s ! j = length (concat (take j xs))" if "j \<le> length xs" for j
    using starts_end [OF that, of 0] assms by simp
  show "map (\<lambda>i. take (s ! (i + 1) - s ! i) (drop (s ! i) (concat xs))) [0..<length xs] ! i = xs ! i"
    using i part_of_concat [OF i] s [of i] s [of "Suc i"] by simp
qed simp

text \<open>The filters that are finished were made of the key lists \<open>ks\<close>; the keys \<open>pend\<close> wait for the next filter.\<close>

definition fb_inv :: "FilterPolicy \<Rightarrow> (slice \<Rightarrow> bool) \<Rightarrow> slice list list \<Rightarrow> slice list \<Rightarrow> FilterBlockBuilder \<Rightarrow> bool" where
  "fb_inv P ok ks pend b \<longleftrightarrow>
     list_all ok pend \<and> fb_keys b = concat pend \<and> fb_start b = starts 0 pend \<and>
     (\<exists>fs. length fs = length ks \<and> fb_result b = concat fs \<and> fb_offsets b = map of_nat (starts 0 fs) \<and>
        (\<forall>i < length ks. \<forall>k \<in> set (ks ! i). fp_KeyMayMatch P k (fs ! i) = Inr True))"

lemma fb_inv_new: "fb_inv P ok [] [] new_FilterBlockBuilder"
  by (simp add: fb_inv_def new_FilterBlockBuilder_def)

lemma fb_inv_AddKey: "fb_inv P ok ks pend b \<Longrightarrow> ok k \<Longrightarrow> fb_inv P ok ks (pend @ [k]) (AddKey k b)"
  by (auto simp: fb_inv_def AddKey_def starts_snoc)

lemma fb_inv_offsets: "fb_inv P ok ks pend b \<Longrightarrow> length (fb_offsets b) = length ks"
  by (auto simp: fb_inv_def)

context filter_policy
begin

lemma GenerateFilter_inv:
  assumes "fb_inv P ok ks pend b"
  shows "\<exists>b'. GenerateFilter P b = Inr b' \<and> fb_inv P ok (ks @ [pend]) [] b'"
proof -
  obtain fs where fs: "length fs = length ks" "fb_result b = concat fs" "fb_offsets b = map of_nat (starts 0 fs)"
      "\<forall>i < length ks. \<forall>k \<in> set (ks ! i). fp_KeyMayMatch P k (fs ! i) = Inr True"
    using assms by (auto simp: fb_inv_def)
  have p: "list_all ok pend" "fb_keys b = concat pend" "fb_start b = starts 0 pend" using assms by (auto simp: fb_inv_def)
  define f' where "f' = (if pend = [] then Inr (fb_result b) else fp_CreateFilter P pend (fb_result b))"
  obtain f where f: "f' = Inr (fb_result b @ f)" "\<forall>k \<in> set pend. fp_KeyMayMatch P k f = Inr True"
  proof (cases "pend = []")
    case True
    then show ?thesis using that [of "[]"] by (simp add: f'_def)
  next
    case False
    then show ?thesis using create [OF p(1), of "fb_result b"] that by (auto simp: f'_def)
  qed
  have tmp: "map (\<lambda>i. take ((fb_start b @ [length (fb_keys b)]) ! (i + 1) - (fb_start b @ [length (fb_keys b)]) ! i)
        (drop ((fb_start b @ [length (fb_keys b)]) ! i) (fb_keys b))) [0..<length (fb_start b)] = pend"
    using slices_of_concat [of _ pend, OF refl] p by simp
  have "GenerateFilter P b = bindR f' (\<lambda>result. Inr \<lparr>fb_keys = [], fb_start = [], fb_result = result, fb_offsets = fb_offsets b @ [of_nat (length (fb_result b))]\<rparr>)"
    unfolding GenerateFilter_def Let_def tmp f'_def using p by (cases "pend = []") auto
  moreover have "\<forall>i < length (ks @ [pend]). \<forall>k \<in> set ((ks @ [pend]) ! i). fp_KeyMayMatch P k ((fs @ [f]) ! i) = Inr True"
    using fs(1,4) f(2) by (auto simp: nth_append less_Suc_eq)
  ultimately show ?thesis using fs f(1)
    by (auto simp: fb_inv_def starts_snoc intro!: exI [of _ "fs @ [f]"])
qed

lemma generate_until_inv:
  assumes "fb_inv P ok ks pend b" "length ks \<le> n"
  shows "\<exists>b' ks' pend'. generate_until P n b = Inr b' \<and> fb_inv P ok ks' pend' b' \<and> length ks' = n
    \<and> (\<exists>zs. (ks' @ [pend']) = (ks @ [pend]) @ zs)"
  using assms
proof (induction "n - length ks" arbitrary: ks pend b)
  case 0
  then show ?case using fb_inv_offsets [OF 0(2)] by (subst generate_until.simps) auto
next
  case (Suc d)
  obtain b1 where b1: "GenerateFilter P b = Inr b1" "fb_inv P ok (ks @ [pend]) [] b1" using GenerateFilter_inv [OF Suc.prems(1)] by blast
  have n: "d = n - length (ks @ [pend])" "length (ks @ [pend]) \<le> n" using Suc.hyps(2) by auto
  obtain b' ks' pend' zs where r: "generate_until P n b1 = Inr b'" "fb_inv P ok ks' pend' b'" "length ks' = n"
      "ks' @ [pend'] = ((ks @ [pend]) @ [[]]) @ zs"
    using Suc.hyps(1) [OF n(1) b1(2) n(2)] by blast
  have "generate_until P n b = generate_until P n b1"
    using fb_inv_offsets [OF Suc.prems(1)] n(2) b1(1) by (subst generate_until.simps) simp
  then show ?case using r by (metis append.assoc)
qed


lemma filter_Finish_inv:
  assumes "fb_inv P ok ks pend b"
  shows "\<exists>fs ks'. filter_Finish P b = Inr (concat fs @ concat (map (\<lambda>n. EncodeFixed32 (of_nat n)) (starts 0 fs)) @ EncodeFixed32 (of_nat (length (concat fs))) @ [11])
    \<and> (ks' = ks \<and> pend = [] \<or> ks' = ks @ [pend]) \<and> length fs = length ks' \<and> (\<forall>i < length ks'. \<forall>k \<in> set (ks' ! i). fp_KeyMayMatch P k (fs ! i) = Inr True)"
proof -
  define r where "r = (if fb_start b \<noteq> [] then GenerateFilter P b else Inr b)"
  obtain b' ks' where b': "r = Inr b'" "fb_inv P ok ks' [] b'" "ks' = ks \<and> pend = [] \<or> ks' = ks @ [pend]"
  proof (cases "pend = []")
    case True
    then have "fb_start b = []" using assms by (simp add: fb_inv_def)
    then show ?thesis using that [of b ks] assms True by (simp add: r_def)
  next
    case False
    then have "fb_start b \<noteq> []" using assms by (cases pend) (simp_all add: fb_inv_def)
    then show ?thesis using that GenerateFilter_inv [OF assms] by (auto simp: r_def)
  qed
  then obtain fs where fs: "length fs = length ks'" "fb_result b' = concat fs" "fb_offsets b' = map of_nat (starts 0 fs)"
      "\<forall>i < length ks'. \<forall>k \<in> set (ks' ! i). fp_KeyMayMatch P k (fs ! i) = Inr True"
    by (auto simp: fb_inv_def)
  have put: "foldl PutFixed32 r (map of_nat ns) = r @ concat (map (\<lambda>n. EncodeFixed32 (of_nat n)) ns)" for r ns
    by (induction ns arbitrary: r) (simp_all add: PutFixed32_def)
  have "filter_Finish P b = Inr (concat fs @ concat (map (\<lambda>n. EncodeFixed32 (of_nat n)) (starts 0 fs)) @ EncodeFixed32 (of_nat (length (concat fs))) @ [11])"
    unfolding filter_Finish_def r_def [symmetric] b'(1) bindR_Inr Let_def fs(2,3) put by (simp add: PutFixed32_def kFilterBaseLg_def)
  then show ?thesis using fs b'(3) by blast
qed

end

section \<open>Reading a filter block\<close>

lemma concat_encode_nth:
  assumes "i < length ns"
  shows "DecodeFixed32 (drop (i * 4) (concat (map (\<lambda>n. EncodeFixed32 (of_nat n)) ns) @ rest)) = Inr (of_nat (ns ! i))"
  using assms
proof (induction ns arbitrary: i)
  case (Cons n ns)
  then show ?case by (cases i) simp_all
qed simp

lemma length_concat_encode: "length (concat (map (\<lambda>n. EncodeFixed32 (of_nat n)) ns)) = 4 * length ns"
  by (induction ns) simp_all

lemma reader_of_block:
  fixes fs :: "bytes list"
  assumes c: "contents = concat fs @ concat (map (\<lambda>n. EncodeFixed32 (of_nat n)) (starts 0 fs)) @ EncodeFixed32 (of_nat (length (concat fs))) @ [11]"
    and small: "length contents < 2 ^ 32"
  shows "new_FilterBlockReader contents = Inr \<lparr>fr_data = Some contents, fr_offset = length (concat fs), fr_num = length fs, fr_base_lg = 11\<rparr>"
proof -
  let ?e = "concat (map (\<lambda>n. EncodeFixed32 (of_nat n)) (starts 0 fs))"
  have len: "length contents = length (concat fs) + 4 * length fs + 5" by (simp only: c length_append length_concat_encode) simp
  have "contents ! (length contents - 1) = last contents" by (subst last_conv_nth) (simp_all add: c)
  then have base: "contents ! (length contents - 1) = 11" by (simp add: c)
  have "contents = (concat fs @ ?e) @ EncodeFixed32 (of_nat (length (concat fs))) @ [11]" by (simp add: c)
  moreover have "length contents - 5 = length (concat fs @ ?e)" by (simp only: len length_append length_concat_encode) simp
  ultimately have "drop (length contents - 5) contents = EncodeFixed32 (of_nat (length (concat fs))) @ [11]" by (metis append_eq_conv_conj)
  then have d: "DecodeFixed32 (drop (length contents - 5) contents) = Inr (of_nat (length (concat fs)))" by simp
  have u: "unat (of_nat (length (concat fs)) :: u32) = length (concat fs)" using small len by (simp add: unat_of_nat)
  have s: "unat (scast (11 :: byte) :: u64) = 11" by simp
  show ?thesis unfolding new_FilterBlockReader_def Let_def d bindR_Inr u base s using len by simp
qed

lemma reader_finds:
  fixes fs :: "bytes list"
  assumes c: "contents = concat fs @ concat (map (\<lambda>n. EncodeFixed32 (of_nat n)) (starts 0 fs)) @ EncodeFixed32 (of_nat (length (concat fs))) @ [11]"
    and small: "length contents < 2 ^ 32"
    and r: "r = \<lparr>fr_data = Some contents, fr_offset = length (concat fs), fr_num = length fs, fr_base_lg = 11\<rparr>"
    and i: "unat (drop_bit 11 off) = i" "i < length fs"
  shows "reader_KeyMayMatch P r off key = fp_KeyMayMatch P key (fs ! i)"
proof -
  let ?ns = "starts 0 fs @ [length (concat fs)]"
  have c': "contents = concat fs @ concat (map (\<lambda>n. EncodeFixed32 (of_nat n)) ?ns) @ [11]" by (simp add: c)
  have ns: "?ns ! j = length (concat (take j fs))" "length (concat (take j fs)) \<le> length (concat fs)" if "j \<le> length fs" for j
  proof -
    show "?ns ! j = length (concat (take j fs))" using starts_end [OF that, of 0] by simp
    show "length (concat (take j fs)) \<le> length (concat fs)" by (metis append_take_drop_id concat_append le_add1 length_append)
  qed
  have d: "DecodeFixed32 (drop (length (concat fs) + j * 4) contents) = Inr (of_nat (length (concat (take j fs))))" if "j \<le> length fs" for j
  proof -
    have "j < length ?ns" using that by simp
    then show ?thesis unfolding c' drop_append
      using concat_encode_nth [of j ?ns "[11]"] ns(1) [OF that] by simp
  qed
  have u: "unat (of_nat (length (concat (take j fs))) :: u32) = length (concat (take j fs))" if "j \<le> length fs" for j
    using ns(2) [OF that] small by (simp add: unat_of_nat c)
  have le: "length (concat (take i fs)) \<le> length (concat (take (Suc i) fs))" using i by (simp add: take_Suc_conv_app_nth)
  have j: "i \<le> length fs" "Suc i \<le> length fs" using i by simp_all
  have e: "length (concat fs) + i * 4 + 4 = length (concat fs) + Suc i * 4" by simp
  have "take (length (concat (take (Suc i) fs)) - length (concat (take i fs))) (drop (length (concat (take i fs))) contents) = fs ! i"
    using part_of_concat [OF i(2)] ns(2) [OF j(2)] ns(2) [OF j(1)] le by (simp add: c)
  moreover have "(of_nat (length (concat (take i fs))) :: u32) \<le> of_nat (length (concat (take (Suc i) fs)))"
    using le by (simp only: word_le_nat_alt u [OF j(1)] u [OF j(2)])
  ultimately show ?thesis
    using i ns(2) [OF j(2)] unfolding r reader_KeyMayMatch_def Let_def
    by (simp add: d [OF j(1)] e d [OF j(2)] u [OF j(1)] u [OF j(2)] del: mult_Suc)
qed


section \<open>Building a filter block and reading it\<close>

text \<open>The calls the header of the class allows: \<open>(StartBlock AddKey*)* Finish\<close>, for blocks at some offsets with their keys.\<close>

fun add_blocks :: "FilterPolicy \<Rightarrow> (u64 \<times> slice list) list \<Rightarrow> FilterBlockBuilder \<Rightarrow> FilterBlockBuilder res" where
  "add_blocks P [] b = Inr b"
| "add_blocks P ((off, keys) # blocks) b =
     bindR (StartBlock P off b) (\<lambda>b. add_blocks P blocks (foldl (\<lambda>b k. AddKey k b) b keys))"

definition build_filter_block :: "FilterPolicy \<Rightarrow> (u64 \<times> slice list) list \<Rightarrow> bytes res" where
  "build_filter_block P blocks = bindR (add_blocks P blocks new_FilterBlockBuilder) (filter_Finish P)"

definition filter_index :: "u64 \<Rightarrow> nat" where
  "filter_index off = unat (off div kFilterBase)"

lemma filter_index_eq: "filter_index off = unat (drop_bit 11 off)" "filter_index off = unat off div 2048"
  unfolding filter_index_def kFilterBase_def kFilterBaseLg_def
  by (simp_all add: unat_div unat_drop_bit_eq drop_bit_eq_div)

definition in_filter :: "slice list list \<Rightarrow> slice list \<Rightarrow> nat \<Rightarrow> slice \<Rightarrow> bool" where
  "in_filter ks pend i k \<longleftrightarrow> i < length (ks @ [pend]) \<and> k \<in> set ((ks @ [pend]) ! i)"

lemma in_filter_more: "ks' @ [pend'] = (ks @ [pend]) @ zs \<Longrightarrow> in_filter ks pend i k \<Longrightarrow> in_filter ks' pend' i k"
  unfolding in_filter_def by (metis length_append nth_append trans_less_add1)

lemma in_filter_pend: "in_filter ks pend i k \<Longrightarrow> set pend \<subseteq> set pend' \<Longrightarrow> in_filter ks pend' i k"
  by (auto simp: in_filter_def nth_append split: if_splits)

lemma foldl_AddKey_inv:
  "fb_inv P ok ks pend b \<Longrightarrow> list_all ok keys \<Longrightarrow> fb_inv P ok ks (pend @ keys) (foldl (\<lambda>b k. AddKey k b) b keys)"
proof (induction keys arbitrary: pend b)
  case (Cons k keys)
  have "fb_inv P ok ks (pend @ [k]) (AddKey k b)" using Cons.prems by (simp add: fb_inv_AddKey)
  then show ?case using Cons.IH [of "pend @ [k]" "AddKey k b"] Cons.prems(2) by simp
qed simp

context filter_policy
begin

lemma add_blocks_inv:
  assumes "fb_inv P ok ks pend b" "sorted (map fst blocks)" "\<forall>x \<in> set blocks. length ks \<le> filter_index (fst x) \<and> list_all ok (snd x)"
  shows "\<exists>b' ks' pend'. add_blocks P blocks b = Inr b' \<and> fb_inv P ok ks' pend' b'
    \<and> (\<forall>i k. in_filter ks pend i k \<longrightarrow> in_filter ks' pend' i k)
    \<and> (\<forall>x \<in> set blocks. \<forall>k \<in> set (snd x). in_filter ks' pend' (filter_index (fst x)) k)"
  using assms
proof (induction blocks arbitrary: ks pend b)
  case (Cons x blocks)
  obtain off keys where x: "x = (off, keys)" by fastforce
  have le: "length ks \<le> filter_index off" "list_all ok keys" using Cons.prems(3) x by auto
  obtain b1 ks1 pend1 zs where b1: "generate_until P (filter_index off) b = Inr b1" "fb_inv P ok ks1 pend1 b1" "length ks1 = filter_index off"
      "ks1 @ [pend1] = (ks @ [pend]) @ zs"
    using generate_until_inv [OF Cons.prems(1) le(1)] by blast
  have start: "StartBlock P off b = Inr b1"
    using b1(1) le(1) fb_inv_offsets [OF Cons.prems(1)] by (simp add: StartBlock_def Let_def filter_index_def)
  let ?b2 = "foldl (\<lambda>b k. AddKey k b) b1 keys"
  have inv2: "fb_inv P ok ks1 (pend1 @ keys) ?b2" using foldl_AddKey_inv [OF b1(2) le(2)] .
  have "\<forall>y \<in> set blocks. length ks1 \<le> filter_index (fst y) \<and> list_all ok (snd y)"
  proof
    fix y assume y: "y \<in> set blocks"
    then have "off \<le> fst y" using Cons.prems(2) x by simp
    then have "filter_index off \<le> filter_index (fst y)" by (simp add: filter_index_eq(2) word_le_nat_alt div_le_mono)
    then show "length ks1 \<le> filter_index (fst y) \<and> list_all ok (snd y)" using b1(3) Cons.prems(3) y by simp
  qed
  then obtain b' ks' pend' where r: "add_blocks P blocks ?b2 = Inr b'" "fb_inv P ok ks' pend' b'"
      "\<forall>i k. in_filter ks1 (pend1 @ keys) i k \<longrightarrow> in_filter ks' pend' i k"
      "\<forall>x \<in> set blocks. \<forall>k \<in> set (snd x). in_filter ks' pend' (filter_index (fst x)) k"
    using Cons.IH [OF inv2] Cons.prems(2) by auto
  have "in_filter ks1 (pend1 @ keys) i k" if "in_filter ks pend i k" for i k
    using in_filter_pend [OF in_filter_more [OF b1(4) that]] by simp
  moreover have "in_filter ks1 (pend1 @ keys) (filter_index off) k" if "k \<in> set keys" for k
    using that b1(3) by (simp add: in_filter_def nth_append)
  ultimately have "\<forall>i k. in_filter ks pend i k \<longrightarrow> in_filter ks' pend' i k" "\<forall>y \<in> set (x # blocks). \<forall>k \<in> set (snd y). in_filter ks' pend' (filter_index (fst y)) k"
    using r(3,4) x by auto
  moreover have "add_blocks P (x # blocks) b = Inr b'" using start r(1) x by simp
  ultimately show ?case using r(2) by blast
qed auto

lemma filter_block_complete:
  assumes "sorted (map fst blocks)" "\<forall>x \<in> set blocks. list_all ok (snd x)"
  shows "\<exists>contents. build_filter_block P blocks = Inr contents \<and>
    (length contents < 2 ^ 32 \<longrightarrow> (\<exists>r. new_FilterBlockReader contents = Inr r \<and>
      (\<forall>x \<in> set blocks. \<forall>k \<in> set (snd x). reader_KeyMayMatch P r (fst x) k = Inr True)))"
proof -
  obtain b ks pend where b: "add_blocks P blocks new_FilterBlockBuilder = Inr b" "fb_inv P ok ks pend b"
      "\<forall>x \<in> set blocks. \<forall>k \<in> set (snd x). in_filter ks pend (filter_index (fst x)) k"
    using add_blocks_inv [OF fb_inv_new assms(1)] assms(2) by auto
  obtain fs ks' where f: "filter_Finish P b = Inr (concat fs @ concat (map (\<lambda>n. EncodeFixed32 (of_nat n)) (starts 0 fs)) @ EncodeFixed32 (of_nat (length (concat fs))) @ [11])"
      "ks' = ks \<and> pend = [] \<or> ks' = ks @ [pend]" "length fs = length ks'" "\<forall>i < length ks'. \<forall>k \<in> set (ks' ! i). fp_KeyMayMatch P k (fs ! i) = Inr True"
    using filter_Finish_inv [OF b(2)] by blast
  define contents where "contents = concat fs @ concat (map (\<lambda>n. EncodeFixed32 (of_nat n)) (starts 0 fs)) @ EncodeFixed32 (of_nat (length (concat fs))) @ [11]"
  let ?r = "\<lparr>fr_data = Some contents, fr_offset = length (concat fs), fr_num = length fs, fr_base_lg = 11\<rparr>"
  have "reader_KeyMayMatch P ?r (fst x) k = Inr True" if "length contents < 2 ^ 32" "x \<in> set blocks" "k \<in> set (snd x)" for x k
  proof -
    let ?i = "filter_index (fst x)"
    have "in_filter ks pend ?i k" using b(3) that by blast
    then have i: "?i < length ks'" "k \<in> set (ks' ! ?i)"
      using f(2) by (auto simp: in_filter_def nth_append split: if_splits)
    then show ?thesis
      using reader_finds [OF contents_def that(1) refl, of "fst x" ?i] f(3,4) by (simp add: filter_index_eq(1))
  qed
  then have "length contents < 2 ^ 32 \<longrightarrow> (\<exists>r. new_FilterBlockReader contents = Inr r \<and>
      (\<forall>x \<in> set blocks. \<forall>k \<in> set (snd x). reader_KeyMayMatch P r (fst x) k = Inr True))"
    using reader_of_block [OF contents_def] by blast
  moreover have "build_filter_block P blocks = Inr contents" using b(1) f(1) by (simp add: build_filter_block_def contents_def)
  ultimately show ?thesis by blast
qed

end


end
