(* ===== verification/Ldb_Write_Batch.thy ===== *)
theory Ldb_Write_Batch
  imports Ldb_Filter
begin

text \<open>
  Write batches (\<^verbatim>\<open>db/write_batch.cc\<close>): a header with a sequence number and a count, and records behind it. A batch is related
  to the list of its operations; replaying it calls the handler with exactly these operations, in order.
\<close>

section \<open>Model\<close>

text \<open>A \<open>WriteBatch\<close> is its string \<open>rep_\<close>.\<close>

type_synonym WriteBatch = bytes

definition kHeader :: nat where "kHeader = 12"

definition wb_Clear :: WriteBatch where
  "wb_Clear = replicate kHeader 0"

definition wb_Count :: "WriteBatch \<Rightarrow> int res" where
  "wb_Count rep = bindR (DecodeFixed32 (drop 8 rep)) (\<lambda>n. Inr (sint n))"

definition wb_SetCount :: "WriteBatch \<Rightarrow> int \<Rightarrow> WriteBatch res" where
  "wb_SetCount rep n = store_bytes rep 8 (EncodeFixed32 (of_int n))"

definition wb_Sequence :: "WriteBatch \<Rightarrow> u64 res" where
  "wb_Sequence rep = DecodeFixed64 rep"

definition wb_SetSequence :: "WriteBatch \<Rightarrow> u64 \<Rightarrow> WriteBatch res" where
  "wb_SetSequence rep seq = store_bytes rep 0 (EncodeFixed64 seq)"

definition wb_Put :: "slice \<Rightarrow> slice \<Rightarrow> WriteBatch \<Rightarrow> WriteBatch res" where
  "wb_Put key value rep =
     bindR (wb_Count rep) (\<lambda>c. bindR (add_int c 1) (\<lambda>n.
     bindR (wb_SetCount rep n) (\<lambda>rep.
     Inr (PutLengthPrefixedSlice (PutLengthPrefixedSlice (rep @ [kTypeValue]) key) value))))"

definition wb_Delete :: "slice \<Rightarrow> WriteBatch \<Rightarrow> WriteBatch res" where
  "wb_Delete key rep =
     bindR (wb_Count rep) (\<lambda>c. bindR (add_int c 1) (\<lambda>n.
     bindR (wb_SetCount rep n) (\<lambda>rep.
     Inr (PutLengthPrefixedSlice (rep @ [kTypeDeletion]) key))))"

text \<open>A handler: its two virtual functions on its state.\<close>

record 'h Handler =
  h_Put :: "slice \<Rightarrow> slice \<Rightarrow> 'h \<Rightarrow> 'h"
  h_Delete :: "slice \<Rightarrow> 'h \<Rightarrow> 'h"

text \<open>
  The loop returns the status with which \<open>Iterate\<close> returns early, or success with the number of records found. \<open>found\<close> is an \<^verbatim>\<open>int\<close>; its
  overflow is an error.
\<close>

function iterate_loop :: "'h Handler \<Rightarrow> slice \<Rightarrow> int \<Rightarrow> 'h \<Rightarrow> (Status \<times> int \<times> 'h) res" where
  "iterate_loop handler [] found h = Inr (Status_OK, found, h)"
| "iterate_loop handler (tag # input) found h =
     bindR (add_int found 1) (\<lambda>found.
      if tag = kTypeValue
      then (case GetLengthPrefixedSlice input of
              Some (key, input) \<Rightarrow>
                (case GetLengthPrefixedSlice input of
                   Some (value, input) \<Rightarrow> iterate_loop handler input found (h_Put handler key value h)
                 | None \<Rightarrow> Inr (Corruption (bstr ''bad WriteBatch Put'') [], found, h))
            | None \<Rightarrow> Inr (Corruption (bstr ''bad WriteBatch Put'') [], found, h))
      else if tag = kTypeDeletion
      then (case GetLengthPrefixedSlice input of
              Some (key, input) \<Rightarrow> iterate_loop handler input found (h_Delete handler key h)
            | None \<Rightarrow> Inr (Corruption (bstr ''bad WriteBatch Delete'') [], found, h))
      else Inr (Corruption (bstr ''unknown WriteBatch tag'') [], found, h))"
  by pat_completeness auto
termination
  by (relation "measure (\<lambda>(handler, input, found, h). length input)") (auto dest!: prefixed_shorter)

definition wb_Iterate :: "'h Handler \<Rightarrow> WriteBatch \<Rightarrow> 'h \<Rightarrow> (Status \<times> 'h) res" where
  "wb_Iterate handler rep h =
     (if length rep < kHeader then Inr (Corruption (bstr ''malformed WriteBatch (too small)'') [], h)
      else bindR (iterate_loop handler (drop kHeader rep) 0 h) (\<lambda>(s, found, h).
           if \<not> Status_ok s then Inr (s, h)
           else bindR (wb_Count rep) (\<lambda>c.
                if found \<noteq> c then Inr (Corruption (bstr ''WriteBatch has wrong count'') [], h)
                else Inr (Status_OK, h))))"

text \<open>\<open>MemTableInserter\<close> on a table with the operation \<open>Add\<close>: the sequence number goes up with every record.\<close>

definition MemTableInserter :: "(u64 \<Rightarrow> byte \<Rightarrow> slice \<Rightarrow> slice \<Rightarrow> 'm \<Rightarrow> 'm) \<Rightarrow> (u64 \<times> 'm) Handler" where
  "MemTableInserter Add = \<lparr>h_Put = (\<lambda>key value (s, m). (s + 1, Add s kTypeValue key value m)),
     h_Delete = (\<lambda>key (s, m). (s + 1, Add s kTypeDeletion key [] m))\<rparr>"

definition wb_InsertInto :: "(u64 \<Rightarrow> byte \<Rightarrow> slice \<Rightarrow> slice \<Rightarrow> 'm \<Rightarrow> 'm) \<Rightarrow> WriteBatch \<Rightarrow> 'm \<Rightarrow> (Status \<times> 'm) res" where
  "wb_InsertInto Add rep memtable =
     bindR (wb_Sequence rep) (\<lambda>seq.
     bindR (wb_Iterate (MemTableInserter Add) rep (seq, memtable)) (\<lambda>(s, _, m). Inr (s, m)))"

definition wb_SetContents :: "slice \<Rightarrow> WriteBatch res" where
  "wb_SetContents contents = bindR (assertR (kHeader \<le> length contents)) (\<lambda>_. Inr contents)"

definition wb_Append :: "WriteBatch \<Rightarrow> WriteBatch \<Rightarrow> WriteBatch res" where
  "wb_Append dst src =
     bindR (wb_Count dst) (\<lambda>a. bindR (wb_Count src) (\<lambda>b. bindR (add_int a b) (\<lambda>n.
     bindR (wb_SetCount dst n) (\<lambda>dst.
     bindR (assertR (kHeader \<le> length src)) (\<lambda>_. Inr (dst @ drop kHeader src))))))"


section \<open>The batch as a list of operations\<close>

datatype batch_op = BPut slice slice | BDelete slice

fun op_bytes :: "batch_op \<Rightarrow> bytes" where
  "op_bytes (BPut k v) = kTypeValue # PutLengthPrefixedSlice (PutLengthPrefixedSlice [] k) v"
| "op_bytes (BDelete k) = kTypeDeletion # PutLengthPrefixedSlice [] k"

fun op_small :: "batch_op \<Rightarrow> bool" where
  "op_small (BPut k v) \<longleftrightarrow> length k < 2 ^ 32 \<and> length v < 2 ^ 32"
| "op_small (BDelete k) \<longleftrightarrow> length k < 2 ^ 32"

fun apply_op :: "'h Handler \<Rightarrow> 'h \<Rightarrow> batch_op \<Rightarrow> 'h" where
  "apply_op handler h (BPut k v) = h_Put handler k v h"
| "apply_op handler h (BDelete k) = h_Delete handler k h"

definition batch_of :: "u64 \<Rightarrow> batch_op list \<Rightarrow> WriteBatch" where
  "batch_of seq ops = EncodeFixed64 seq @ EncodeFixed32 (of_nat (length ops)) @ concat (map op_bytes ops)"

lemma Put_dst: "PutLengthPrefixedSlice dst v = dst @ PutLengthPrefixedSlice [] v"
  by (simp add: PutLengthPrefixedSlice_def PutVarint32_def)

lemma wb_Clear_batch: "wb_Clear = batch_of 0 []"
  by (simp add: wb_Clear_def kHeader_def batch_of_def EncodeFixed64_def EncodeFixed32_def numeral_eq_Suc)

lemma header_facts:
  fixes n :: u32
  assumes "rep = EncodeFixed64 seq @ EncodeFixed32 n @ d"
  shows "wb_Sequence rep = Inr seq" "wb_Count rep = Inr (sint n)" "wb_SetCount rep i = Inr (EncodeFixed64 seq @ EncodeFixed32 (of_int i) @ d)"
    "wb_SetSequence rep s = Inr (EncodeFixed64 s @ EncodeFixed32 n @ d)" "drop kHeader rep = d" "kHeader \<le> length rep"
  using assms by (simp_all add: wb_Sequence_def wb_Count_def wb_SetCount_def wb_SetSequence_def store_bytes_def blit_def kHeader_def)

lemma sint_count: "n < 2 ^ 31 \<Longrightarrow> sint (of_nat n :: u32) = int n"
  by (simp add: sint_uint signed_take_bit_eq_if_positive bit_iff_odd unsigned_of_nat take_bit_eq_mod)

lemma batch_facts:
  assumes "length ops < 2 ^ 31"
  shows "wb_Count (batch_of seq ops) = Inr (int (length ops))" "wb_Sequence (batch_of seq ops) = Inr seq"
    "wb_SetSequence (batch_of seq ops) s = Inr (batch_of s ops)" "drop kHeader (batch_of seq ops) = concat (map op_bytes ops)" "kHeader \<le> length (batch_of seq ops)"
  using header_facts [of "batch_of seq ops" seq "of_nat (length ops)" "concat (map op_bytes ops)"] sint_count [OF assms]
  by (simp_all add: batch_of_def)

lemma add_one: "n < 2 ^ 31 - 1 \<Longrightarrow> add_int (int n) 1 = Inr (int (Suc n))"
  by (simp add: add_int_def)

lemma wb_Put_batch:
  assumes "length ops < 2 ^ 31 - 1"
  shows "wb_Put k v (batch_of seq ops) = Inr (batch_of seq (ops @ [BPut k v]))"
proof -
  have "length ops < 2 ^ 31" using assms by simp
  then have c: "wb_Count (batch_of seq ops) = Inr (int (length ops))" by (rule batch_facts(1))
  have s: "wb_SetCount (batch_of seq ops) (int (Suc (length ops))) = Inr (EncodeFixed64 seq @ EncodeFixed32 (of_int (int (Suc (length ops)))) @ concat (map op_bytes ops))"
    using header_facts(3) [OF batch_of_def] .
  show ?thesis unfolding wb_Put_def c bindR_Inr add_one [OF assms] s
    by (simp add: batch_of_def Put_dst [of "_ @ _"] Put_dst [of "PutLengthPrefixedSlice [] k"])
qed

lemma wb_Delete_batch:
  assumes "length ops < 2 ^ 31 - 1"
  shows "wb_Delete k (batch_of seq ops) = Inr (batch_of seq (ops @ [BDelete k]))"
proof -
  have "length ops < 2 ^ 31" using assms by simp
  then have c: "wb_Count (batch_of seq ops) = Inr (int (length ops))" by (rule batch_facts(1))
  have s: "wb_SetCount (batch_of seq ops) (int (Suc (length ops))) = Inr (EncodeFixed64 seq @ EncodeFixed32 (of_int (int (Suc (length ops)))) @ concat (map op_bytes ops))"
    using header_facts(3) [OF batch_of_def] .
  show ?thesis unfolding wb_Delete_def c bindR_Inr add_one [OF assms] s
    by (simp add: batch_of_def Put_dst [of "_ @ _"])
qed

lemma wb_Append_batch:
  assumes "length ops + length ops' < 2 ^ 31"
  shows "wb_Append (batch_of seq ops) (batch_of seq' ops') = Inr (batch_of seq (ops @ ops'))"
proof -
  have l: "length ops < 2 ^ 31" "length ops' < 2 ^ 31" using assms by auto
  have a: "add_int (int (length ops)) (int (length ops')) = Inr (int (length ops) + int (length ops'))"
    using assms by (simp add: add_int_def)
  have s: "wb_SetCount (batch_of seq ops) i = Inr (EncodeFixed64 seq @ EncodeFixed32 (of_int i) @ concat (map op_bytes ops))" for i
    using header_facts(3) [OF batch_of_def] .
  show ?thesis unfolding wb_Append_def batch_facts(1) [OF l(1)] batch_facts(1) [OF l(2)] bindR_Inr a s batch_facts(4) [OF l(2)]
    using batch_facts(5) [OF l(2)] by (simp add: batch_of_def)
qed

section \<open>Replaying a batch\<close>

lemma type_tags: "kTypeDeletion \<noteq> kTypeValue"
  by (simp add: kTypeDeletion_def kTypeValue_def)

lemma iterate_op:
  assumes "op_small op" and "int32_range (found + 1)"
  shows "iterate_loop handler (op_bytes op @ rest) found h = iterate_loop handler rest (found + 1) (apply_op handler h op)"
proof (cases op)
  case (BPut k v)
  then show ?thesis using assms
    by (simp add: Put_dst [of "PutLengthPrefixedSlice [] k"] GetLengthPrefixedSlice_Put)
next
  case (BDelete k)
  then show ?thesis using assms type_tags by (simp add: GetLengthPrefixedSlice_Put)
qed

lemma iterate_ops:
  "list_all op_small ops \<Longrightarrow> 0 \<le> found \<Longrightarrow> found + int (length ops) < 2 ^ 31 \<Longrightarrow> iterate_loop handler (concat (map op_bytes ops) @ rest) found h =
    iterate_loop handler rest (found + int (length ops)) (foldl (apply_op handler) h ops)"
  by (induction ops arbitrary: found h) (simp_all add: iterate_op algebra_simps)

lemma wb_Iterate_records:
  assumes "list_all op_small ops" "length ops < 2 ^ 31" "rep = EncodeFixed64 seq @ EncodeFixed32 n @ concat (map op_bytes ops)"
  shows "wb_Iterate handler rep h = Inr (if sint n = int (length ops) then Status_OK else Corruption (bstr ''WriteBatch has wrong count'') [], foldl (apply_op handler) h ops)"
proof -
  note f = header_facts [OF assms(3)]
  have "iterate_loop handler (concat (map op_bytes ops)) 0 h = Inr (Status_OK, int (length ops), foldl (apply_op handler) h ops)"
    using iterate_ops [OF assms(1), of 0 handler "[]" h] assms(2) by simp
  then show ?thesis using f by (simp add: wb_Iterate_def Status_ok_def Status_OK_def)
qed

lemma wb_Iterate_batch:
  assumes "list_all op_small ops" "length ops < 2 ^ 31"
  shows "wb_Iterate handler (batch_of seq ops) h = Inr (Status_OK, foldl (apply_op handler) h ops)"
  using wb_Iterate_records [OF assms batch_of_def] sint_count [OF assms(2)] by simp

text \<open>What the memory table gets: the operations in order with consecutive sequence numbers.\<close>

fun insert_ops :: "(u64 \<Rightarrow> byte \<Rightarrow> slice \<Rightarrow> slice \<Rightarrow> 'm \<Rightarrow> 'm) \<Rightarrow> u64 \<Rightarrow> batch_op list \<Rightarrow> 'm \<Rightarrow> 'm" where
  "insert_ops Add s [] m = m"
| "insert_ops Add s (BPut k v # ops) m = insert_ops Add (s + 1) ops (Add s kTypeValue k v m)"
| "insert_ops Add s (BDelete k # ops) m = insert_ops Add (s + 1) ops (Add s kTypeDeletion k [] m)"

lemma inserter_ops: "foldl (apply_op (MemTableInserter Add)) (s, m) ops = (s + of_nat (length ops), insert_ops Add s ops m)"
  by (induction Add s ops m rule: insert_ops.induct) (simp_all add: MemTableInserter_def algebra_simps)

lemma wb_InsertInto_batch:
  assumes "list_all op_small ops" "length ops < 2 ^ 31"
  shows "wb_InsertInto Add (batch_of seq ops) m = Inr (Status_OK, insert_ops Add seq ops m)"
  using wb_Iterate_batch [OF assms, of "MemTableInserter Add" seq "(seq, m)"] batch_facts(2) [OF assms(2), of seq]
  by (simp add: wb_InsertInto_def inserter_ops)

text \<open>Replaying stops at the first record that is not complete or has an unknown tag.\<close>

lemma wb_Iterate_stops:
  assumes "list_all op_small ops" "length ops < 2 ^ 31" and rep: "rep = EncodeFixed64 seq @ EncodeFixed32 n @ concat (map op_bytes ops) @ bad"
    and "\<And>h. iterate_loop handler bad (int (length ops)) h = Inr (Corruption msg [], found, h)"
  shows "wb_Iterate handler rep h = Inr (Corruption msg [], foldl (apply_op handler) h ops)"
  using header_facts [OF rep] iterate_ops [OF assms(1), of 0 handler bad h] assms(2,4)
  by (simp add: wb_Iterate_def Status_ok_def Corruption_def)

lemma prefixed_truncated:
  assumes "length v < 2 ^ 32" "i < length (PutLengthPrefixedSlice [] v)"
  shows "GetLengthPrefixedSlice (take i (PutLengthPrefixedSlice [] v)) = None"
proof -
  let ?n = "varint (length v)"
  have u: "unat (of_nat (length v) :: u32) = length v" using assms(1) by (simp add: unsigned_of_nat take_bit_nat_eq_self)
  have p: "PutLengthPrefixedSlice [] v = ?n @ v"
    using u by (simp add: PutLengthPrefixedSlice_def PutVarint32_def EncodeVarint32_varint)
  show ?thesis
  proof (cases "i < length ?n")
    case True
    then show ?thesis using varint_truncated(1) [OF True] by (simp add: p GetLengthPrefixedSlice_def)
  next
    case False
    then have "take i (?n @ v) = ?n @ take (i - length ?n) v" "i - length ?n < length v" using assms(2) p by auto
    then show ?thesis using GetVarint32_varint [OF assms(1), of "take (i - length ?n) v"] u by (simp add: p GetLengthPrefixedSlice_def)
  qed
qed

definition bad_record :: "batch_op \<Rightarrow> bytes" where
  "bad_record op = (case op of BPut _ _ \<Rightarrow> bstr ''bad WriteBatch Put'' | BDelete _ \<Rightarrow> bstr ''bad WriteBatch Delete'')"

lemma iterate_truncated:
  assumes "op_small op" "0 < i" "i < length (op_bytes op)" "int32_range (found + 1)"
  shows "iterate_loop handler (take i (op_bytes op)) found h = Inr (Corruption (bad_record op) [], found + 1, h)"
proof (cases op)
  case (BPut k v)
  let ?k = "PutLengthPrefixedSlice [] k" and ?v = "PutLengthPrefixedSlice [] v"
  obtain j where j: "i = Suc j" using assms(2) by (cases i) auto
  have t: "take i (op_bytes op) = kTypeValue # take j (?k @ ?v)" using BPut j by (simp add: Put_dst [of ?k])
  have l: "length k < 2 ^ 32" "length v < 2 ^ 32" "j < length ?k + length ?v" using BPut assms(1,3) j by (simp_all add: Put_dst [of ?k])
  show ?thesis
  proof (cases "j < length ?k")
    case True
    show ?thesis unfolding t using prefixed_truncated [OF l(1) True] True assms(4) by (simp add: bad_record_def BPut)
  next
    case False
    then have tk: "take j (?k @ ?v) = ?k @ take (j - length ?k) ?v" and "j - length ?k < length ?v" using l(3) by auto
    then show ?thesis unfolding t tk using prefixed_truncated [OF l(2)] GetLengthPrefixedSlice_Put(1) [OF l(1)] assms(4) by (simp add: bad_record_def BPut)
  qed
next
  case (BDelete k)
  obtain j where j: "i = Suc j" using assms(2) by (cases i) auto
  then have "length k < 2 ^ 32" "j < length (PutLengthPrefixedSlice [] k)" using BDelete assms(1,3) by simp_all
  then show ?thesis using prefixed_truncated assms(4) type_tags BDelete j by (simp add: bad_record_def)
qed

lemma wb_Iterate_truncated:
  assumes "list_all op_small ops" "op_small op" "0 < i" "i < length (op_bytes op)" "length ops + 1 < 2 ^ 31"
  shows "wb_Iterate handler (EncodeFixed64 seq @ EncodeFixed32 n @ concat (map op_bytes ops) @ take i (op_bytes op)) h
    = Inr (Corruption (bad_record op) [], foldl (apply_op handler) h ops)"
proof (rule wb_Iterate_stops [OF assms(1) _ refl])
  show "length ops < 2 ^ 31" using assms(5) by simp
  show "\<And>h. iterate_loop handler (take i (op_bytes op)) (int (length ops)) h = Inr (Corruption (bad_record op) [], int (length ops) + 1, h)"
    using assms(5) by (intro iterate_truncated [OF assms(2-4)]) auto
qed

lemma wb_Iterate_unknown_tag:
  assumes "list_all op_small ops" "tag \<noteq> kTypeValue" "tag \<noteq> kTypeDeletion" "length ops + 1 < 2 ^ 31"
  shows "wb_Iterate handler (EncodeFixed64 seq @ EncodeFixed32 n @ concat (map op_bytes ops) @ tag # rest) h
    = Inr (Corruption (bstr ''unknown WriteBatch tag'') [], foldl (apply_op handler) h ops)"
proof (rule wb_Iterate_stops [OF assms(1) _ refl])
  show "length ops < 2 ^ 31" using assms(4) by simp
  show "\<And>h. iterate_loop handler (tag # rest) (int (length ops)) h = Inr (Corruption (bstr ''unknown WriteBatch tag'') [], int (length ops) + 1, h)"
    using assms(2-4) by simp
qed


end
