(* ===== verification/Ldb_Version_Edit.thy ===== *)
theory Ldb_Version_Edit
  imports Ldb_Filter "HOL-Library.Product_Lexorder"
begin

text \<open>
  Version edits (\<^verbatim>\<open>db/version_edit.h\<close> and \<^verbatim>\<open>db/version_edit.cc\<close>): the record of a change of the set of table files, and its
  encoding in the manifest. The invariant \<open>ve_wf\<close> holds of every edit the setters build, and decoding the encoding of such an edit
  gives it back.
\<close>

section \<open>Model\<close>

definition kNumLevels :: int where "kNumLevels = 7"

definition kComparator :: u32 where "kComparator = 1"
definition kLogNumber :: u32 where "kLogNumber = 2"
definition kNextFileNumber :: u32 where "kNextFileNumber = 3"
definition kLastSequence :: u32 where "kLastSequence = 4"
definition kCompactPointer :: u32 where "kCompactPointer = 5"
definition kDeletedFile :: u32 where "kDeletedFile = 6"
definition kNewFile :: u32 where "kNewFile = 7"
definition kPrevLogNumber :: u32 where "kPrevLogNumber = 9"

text \<open>The constructor leaves \<open>number\<close> unset; every file that enters an edit has it assigned.\<close>

record FileMetaData =
  fm_refs :: int
  fm_allowed_seeks :: int
  fm_number :: u64
  fm_file_size :: u64
  fm_smallest :: InternalKey
  fm_largest :: InternalKey

definition new_FileMetaData :: "u64 \<Rightarrow> FileMetaData" where
  "new_FileMetaData junk = \<lparr>fm_refs = 0, fm_allowed_seeks = 2 ^ 30, fm_number = junk, fm_file_size = 0, fm_smallest = [], fm_largest = []\<rparr>"

text \<open>The set of deleted files is a \<open>std::set\<close> of pairs: its elements in ascending order.\<close>

record VersionEdit =
  ve_comparator :: bytes
  ve_log_number :: u64
  ve_prev_log_number :: u64
  ve_next_file_number :: u64
  ve_last_sequence :: u64
  ve_has_comparator :: bool
  ve_has_log_number :: bool
  ve_has_prev_log_number :: bool
  ve_has_next_file_number :: bool
  ve_has_last_sequence :: bool
  ve_compact_pointers :: "(int \<times> InternalKey) list"
  ve_deleted_files :: "(int \<times> u64) list"
  ve_new_files :: "(int \<times> FileMetaData) list"

text \<open>\<open>Clear\<close> leaves the compaction pointers as they are.\<close>

definition ve_Clear :: "VersionEdit \<Rightarrow> VersionEdit" where
  "ve_Clear e = e\<lparr>ve_comparator := [], ve_log_number := 0, ve_prev_log_number := 0, ve_last_sequence := 0, ve_next_file_number := 0,
     ve_has_comparator := False, ve_has_log_number := False, ve_has_prev_log_number := False, ve_has_next_file_number := False,
     ve_has_last_sequence := False, ve_deleted_files := [], ve_new_files := []\<rparr>"

definition new_VersionEdit :: VersionEdit where
  "new_VersionEdit = \<lparr>ve_comparator = [], ve_log_number = 0, ve_prev_log_number = 0, ve_next_file_number = 0, ve_last_sequence = 0,
     ve_has_comparator = False, ve_has_log_number = False, ve_has_prev_log_number = False, ve_has_next_file_number = False,
     ve_has_last_sequence = False, ve_compact_pointers = [], ve_deleted_files = [], ve_new_files = []\<rparr>"

definition SetComparatorName :: "slice \<Rightarrow> VersionEdit \<Rightarrow> VersionEdit" where
  "SetComparatorName name e = e\<lparr>ve_has_comparator := True, ve_comparator := name\<rparr>"

definition SetLogNumber :: "u64 \<Rightarrow> VersionEdit \<Rightarrow> VersionEdit" where
  "SetLogNumber num e = e\<lparr>ve_has_log_number := True, ve_log_number := num\<rparr>"

definition SetPrevLogNumber :: "u64 \<Rightarrow> VersionEdit \<Rightarrow> VersionEdit" where
  "SetPrevLogNumber num e = e\<lparr>ve_has_prev_log_number := True, ve_prev_log_number := num\<rparr>"

definition SetNextFile :: "u64 \<Rightarrow> VersionEdit \<Rightarrow> VersionEdit" where
  "SetNextFile num e = e\<lparr>ve_has_next_file_number := True, ve_next_file_number := num\<rparr>"

definition SetLastSequence :: "u64 \<Rightarrow> VersionEdit \<Rightarrow> VersionEdit" where
  "SetLastSequence seq e = e\<lparr>ve_has_last_sequence := True, ve_last_sequence := seq\<rparr>"

definition SetCompactPointer :: "int \<Rightarrow> InternalKey \<Rightarrow> VersionEdit \<Rightarrow> VersionEdit" where
  "SetCompactPointer level key e = e\<lparr>ve_compact_pointers := ve_compact_pointers e @ [(level, key)]\<rparr>"

definition AddFile :: "int \<Rightarrow> u64 \<Rightarrow> u64 \<Rightarrow> InternalKey \<Rightarrow> InternalKey \<Rightarrow> VersionEdit \<Rightarrow> VersionEdit" where
  "AddFile level file file_size smallest largest e =
     (let f = (new_FileMetaData file)\<lparr>fm_number := file, fm_file_size := file_size, fm_smallest := smallest, fm_largest := largest\<rparr> in
      e\<lparr>ve_new_files := ve_new_files e @ [(level, f)]\<rparr>)"

definition DeleteFile :: "int \<Rightarrow> u64 \<Rightarrow> VersionEdit \<Rightarrow> VersionEdit" where
  "DeleteFile level file e = e\<lparr>ve_deleted_files := insort_insert (level, file) (ve_deleted_files e)\<rparr>"

primrec encode_pointers :: "(int \<times> InternalKey) list \<Rightarrow> bytes \<Rightarrow> bytes res" where
  "encode_pointers [] dst = Inr dst"
| "encode_pointers (p # ps) dst =
     (let dst = PutVarint32 (PutVarint32 dst kCompactPointer) (of_int (fst p)) in
      bindR (InternalKey_Encode (snd p)) (\<lambda>k. encode_pointers ps (PutLengthPrefixedSlice dst k)))"

primrec encode_deleted :: "(int \<times> u64) list \<Rightarrow> bytes \<Rightarrow> bytes" where
  "encode_deleted [] dst = dst"
| "encode_deleted (d # ds) dst =
     encode_deleted ds (PutVarint64 (PutVarint32 (PutVarint32 dst kDeletedFile) (of_int (fst d))) (snd d))"

primrec encode_files :: "(int \<times> FileMetaData) list \<Rightarrow> bytes \<Rightarrow> bytes res" where
  "encode_files [] dst = Inr dst"
| "encode_files (x # xs) dst =
     (let f = snd x;
          dst = PutVarint32 (PutVarint32 dst kNewFile) (of_int (fst x));
          dst = PutVarint64 (PutVarint64 dst (fm_number f)) (fm_file_size f) in
      bindR (InternalKey_Encode (fm_smallest f)) (\<lambda>s.
      bindR (InternalKey_Encode (fm_largest f)) (\<lambda>l.
      encode_files xs (PutLengthPrefixedSlice (PutLengthPrefixedSlice dst s) l))))"

definition ve_EncodeTo :: "VersionEdit \<Rightarrow> bytes \<Rightarrow> bytes res" where
  "ve_EncodeTo e dst =
     (let dst = (if ve_has_comparator e then PutLengthPrefixedSlice (PutVarint32 dst kComparator) (ve_comparator e) else dst);
          dst = (if ve_has_log_number e then PutVarint64 (PutVarint32 dst kLogNumber) (ve_log_number e) else dst);
          dst = (if ve_has_prev_log_number e then PutVarint64 (PutVarint32 dst kPrevLogNumber) (ve_prev_log_number e) else dst);
          dst = (if ve_has_next_file_number e then PutVarint64 (PutVarint32 dst kNextFileNumber) (ve_next_file_number e) else dst);
          dst = (if ve_has_last_sequence e then PutVarint64 (PutVarint32 dst kLastSequence) (ve_last_sequence e) else dst) in
      bindR (encode_pointers (ve_compact_pointers e) dst) (\<lambda>dst.
      encode_files (ve_new_files e) (encode_deleted (ve_deleted_files e) dst)))"

definition GetInternalKey :: "slice \<Rightarrow> (InternalKey \<times> slice) option" where
  "GetInternalKey input = GetLengthPrefixedSlice input"

definition GetLevel :: "slice \<Rightarrow> (int \<times> slice) option" where
  "GetLevel input =
     (case GetVarint32 input of
        Some (v, input) \<Rightarrow> if v < of_int kNumLevels then Some (uint v, input) else None
      | None \<Rightarrow> None)"

text \<open>The switch of \<open>DecodeFrom\<close>: the message of a failure, or the rest of the input with the edit.\<close>

definition decode_field :: "u32 \<Rightarrow> slice \<Rightarrow> VersionEdit \<Rightarrow> bytes + slice \<times> VersionEdit" where
  "decode_field tag input e =
     (if tag = kComparator
      then (case GetLengthPrefixedSlice input of
              Some (str, input) \<Rightarrow> Inr (input, e\<lparr>ve_comparator := str, ve_has_comparator := True\<rparr>)
            | None \<Rightarrow> Inl (bstr ''comparator name''))
      else if tag = kLogNumber
      then (case GetVarint64 input of
              Some (v, input) \<Rightarrow> Inr (input, e\<lparr>ve_log_number := v, ve_has_log_number := True\<rparr>)
            | None \<Rightarrow> Inl (bstr ''log number''))
      else if tag = kPrevLogNumber
      then (case GetVarint64 input of
              Some (v, input) \<Rightarrow> Inr (input, e\<lparr>ve_prev_log_number := v, ve_has_prev_log_number := True\<rparr>)
            | None \<Rightarrow> Inl (bstr ''previous log number''))
      else if tag = kNextFileNumber
      then (case GetVarint64 input of
              Some (v, input) \<Rightarrow> Inr (input, e\<lparr>ve_next_file_number := v, ve_has_next_file_number := True\<rparr>)
            | None \<Rightarrow> Inl (bstr ''next file number''))
      else if tag = kLastSequence
      then (case GetVarint64 input of
              Some (v, input) \<Rightarrow> Inr (input, e\<lparr>ve_last_sequence := v, ve_has_last_sequence := True\<rparr>)
            | None \<Rightarrow> Inl (bstr ''last sequence number''))
      else if tag = kCompactPointer
      then (case GetLevel input of
              Some (level, input) \<Rightarrow>
                (case GetInternalKey input of
                   Some (key, input) \<Rightarrow> Inr (input, e\<lparr>ve_compact_pointers := ve_compact_pointers e @ [(level, key)]\<rparr>)
                 | None \<Rightarrow> Inl (bstr ''compaction pointer''))
            | None \<Rightarrow> Inl (bstr ''compaction pointer''))
      else if tag = kDeletedFile
      then (case GetLevel input of
              Some (level, input) \<Rightarrow>
                (case GetVarint64 input of
                   Some (number, input) \<Rightarrow> Inr (input, e\<lparr>ve_deleted_files := insort_insert (level, number) (ve_deleted_files e)\<rparr>)
                 | None \<Rightarrow> Inl (bstr ''deleted file''))
            | None \<Rightarrow> Inl (bstr ''deleted file''))
      else if tag = kNewFile
      then (case GetLevel input of
              Some (level, input) \<Rightarrow>
                (case GetVarint64 input of
                   Some (number, input) \<Rightarrow>
                     (case GetVarint64 input of
                        Some (file_size, input) \<Rightarrow>
                          (case GetInternalKey input of
                             Some (smallest, input) \<Rightarrow>
                               (case GetInternalKey input of
                                  Some (largest, input) \<Rightarrow>
                                    let f = (new_FileMetaData number)\<lparr>fm_number := number, fm_file_size := file_size, fm_smallest := smallest, fm_largest := largest\<rparr> in
                                    Inr (input, e\<lparr>ve_new_files := ve_new_files e @ [(level, f)]\<rparr>)
                                | None \<Rightarrow> Inl (bstr ''new-file entry''))
                           | None \<Rightarrow> Inl (bstr ''new-file entry''))
                      | None \<Rightarrow> Inl (bstr ''new-file entry''))
                 | None \<Rightarrow> Inl (bstr ''new-file entry''))
            | None \<Rightarrow> Inl (bstr ''new-file entry''))
      else Inl (bstr ''unknown tag''))"

lemma decode_field_shorter: "decode_field tag input e = Inr (rest, e') \<Longrightarrow> length rest < length input"
  unfolding decode_field_def GetInternalKey_def GetLevel_def
  by (simp split: if_splits option.splits prod.splits)
    (auto dest!: varint32_shorter varint64_shorter prefixed_shorter)

function decode_loop :: "slice \<Rightarrow> VersionEdit \<Rightarrow> bytes option \<times> slice \<times> VersionEdit" where
  "decode_loop input e =
     (case GetVarint32 input of
        None \<Rightarrow> (None, input, e)
      | Some (tag, input) \<Rightarrow>
          (case decode_field tag input e of
             Inl msg \<Rightarrow> (Some msg, input, e)
           | Inr (input, e) \<Rightarrow> decode_loop input e))"
  by pat_completeness auto
termination
  by (relation "measure (\<lambda>(input, e). length input)") (auto dest!: varint32_shorter decode_field_shorter)

declare decode_loop.simps [simp del]

definition ve_DecodeFrom :: "slice \<Rightarrow> VersionEdit \<Rightarrow> Status \<times> VersionEdit" where
  "ve_DecodeFrom src e =
     (let (msg, input, e) = decode_loop src (ve_Clear e);
          msg = (if msg = None \<and> input \<noteq> [] then Some (bstr ''invalid tag'') else msg) in
      (case msg of Some m \<Rightarrow> Corruption (bstr ''VersionEdit'') m | None \<Rightarrow> Status_OK, e))"


section \<open>Well-formed edits\<close>

definition key_ok :: "InternalKey \<Rightarrow> bool" where
  "key_ok k \<longleftrightarrow> k \<noteq> [] \<and> length k < 2 ^ 32"

definition level_ok :: "int \<Rightarrow> bool" where
  "level_ok l \<longleftrightarrow> 0 \<le> l \<and> l < kNumLevels"

definition file_ok :: "FileMetaData \<Rightarrow> bool" where
  "file_ok f \<longleftrightarrow> fm_refs f = 0 \<and> fm_allowed_seeks f = 2 ^ 30 \<and> key_ok (fm_smallest f) \<and> key_ok (fm_largest f)"

text \<open>
  An edit as the setters build it: the fields without their flag are at the value \<open>Clear\<close> gives them, the levels exist, the
  keys are valid and the deleted files are in order.
\<close>

definition ve_wf :: "VersionEdit \<Rightarrow> bool" where
  "ve_wf e \<longleftrightarrow> length (ve_comparator e) < 2 ^ 32 \<and>
     (\<not> ve_has_comparator e \<longrightarrow> ve_comparator e = []) \<and> (\<not> ve_has_log_number e \<longrightarrow> ve_log_number e = 0) \<and>
     (\<not> ve_has_prev_log_number e \<longrightarrow> ve_prev_log_number e = 0) \<and> (\<not> ve_has_next_file_number e \<longrightarrow> ve_next_file_number e = 0) \<and>
     (\<not> ve_has_last_sequence e \<longrightarrow> ve_last_sequence e = 0) \<and>
     list_all (\<lambda>(l, k). level_ok l \<and> key_ok k) (ve_compact_pointers e) \<and>
     list_all (\<lambda>(l, n). level_ok l) (ve_deleted_files e) \<and> sorted (ve_deleted_files e) \<and> distinct (ve_deleted_files e) \<and>
     list_all (\<lambda>(l, f). level_ok l \<and> file_ok f) (ve_new_files e)"

lemma ve_wf_new [wf_intros]: "ve_wf new_VersionEdit"
  by (simp add: ve_wf_def new_VersionEdit_def)

lemma ve_wf_setters [wf_intros]:
  assumes "ve_wf e"
  shows "length name < 2 ^ 32 \<Longrightarrow> ve_wf (SetComparatorName name e)" "ve_wf (SetLogNumber n e)" "ve_wf (SetPrevLogNumber n e)"
    "ve_wf (SetNextFile n e)" "ve_wf (SetLastSequence n e)"
    "level_ok l \<Longrightarrow> key_ok k \<Longrightarrow> ve_wf (SetCompactPointer l k e)"
  using assms by (simp_all add: ve_wf_def SetComparatorName_def SetLogNumber_def SetPrevLogNumber_def SetNextFile_def SetLastSequence_def SetCompactPointer_def)

lemma ve_wf_files [wf_intros]:
  assumes "ve_wf e" "level_ok l"
  shows "key_ok s \<Longrightarrow> key_ok t \<Longrightarrow> ve_wf (AddFile l n z s t e)" "ve_wf (DeleteFile l n e)"
  using assms by (simp_all add: ve_wf_def AddFile_def DeleteFile_def file_ok_def new_FileMetaData_def Let_def
      list_all_iff set_insort_insert sorted_insort_insert distinct_insort_insert)

lemma ve_wf_Clear: "ve_wf e \<Longrightarrow> ve_wf (ve_Clear e)"
  by (simp add: ve_wf_def ve_Clear_def)

section \<open>Encoding\<close>

definition pointer_bytes :: "int \<times> InternalKey \<Rightarrow> bytes" where
  "pointer_bytes p = EncodeVarint32 kCompactPointer @ EncodeVarint32 (of_int (fst p)) @ PutLengthPrefixedSlice [] (snd p)"

definition deleted_bytes :: "int \<times> u64 \<Rightarrow> bytes" where
  "deleted_bytes d = EncodeVarint32 kDeletedFile @ EncodeVarint32 (of_int (fst d)) @ EncodeVarint64 (snd d)"

definition file_bytes :: "int \<times> FileMetaData \<Rightarrow> bytes" where
  "file_bytes x = EncodeVarint32 kNewFile @ EncodeVarint32 (of_int (fst x)) @ EncodeVarint64 (fm_number (snd x)) @ EncodeVarint64 (fm_file_size (snd x))
     @ PutLengthPrefixedSlice [] (fm_smallest (snd x)) @ PutLengthPrefixedSlice [] (fm_largest (snd x))"

definition scalar_bytes :: "VersionEdit \<Rightarrow> bytes" where
  "scalar_bytes e =
     (if ve_has_comparator e then EncodeVarint32 kComparator @ PutLengthPrefixedSlice [] (ve_comparator e) else []) @
     (if ve_has_log_number e then EncodeVarint32 kLogNumber @ EncodeVarint64 (ve_log_number e) else []) @
     (if ve_has_prev_log_number e then EncodeVarint32 kPrevLogNumber @ EncodeVarint64 (ve_prev_log_number e) else []) @
     (if ve_has_next_file_number e then EncodeVarint32 kNextFileNumber @ EncodeVarint64 (ve_next_file_number e) else []) @
     (if ve_has_last_sequence e then EncodeVarint32 kLastSequence @ EncodeVarint64 (ve_last_sequence e) else [])"

definition edit_bytes :: "VersionEdit \<Rightarrow> bytes" where
  "edit_bytes e = scalar_bytes e @ concat (map pointer_bytes (ve_compact_pointers e)) @
     concat (map deleted_bytes (ve_deleted_files e)) @ concat (map file_bytes (ve_new_files e))"

lemma Put_appends:
  "PutVarint32 dst v = dst @ EncodeVarint32 v" "PutVarint64 dst w = dst @ EncodeVarint64 w"
  "PutLengthPrefixedSlice dst x = dst @ PutLengthPrefixedSlice [] x"
  by (simp_all add: PutVarint32_def PutVarint64_def PutLengthPrefixedSlice_def)

lemma Encode_key_ok: "key_ok k \<Longrightarrow> InternalKey_Encode k = Inr k"
  by (simp add: key_ok_def InternalKey_Encode_def)

lemma encode_pointers_eq:
  "list_all (\<lambda>(l, k). level_ok l \<and> key_ok k) ps \<Longrightarrow> encode_pointers ps dst = Inr (dst @ concat (map pointer_bytes ps))"
proof (induction ps arbitrary: dst)
  case (Cons p ps)
  then show ?case
    by (auto simp: Put_appends(1,2) Put_appends(3) [of "_ @ _"] Encode_key_ok pointer_bytes_def)
qed simp

lemma encode_deleted_eq: "encode_deleted ds dst = dst @ concat (map deleted_bytes ds)"
  by (induction ds arbitrary: dst) (simp_all add: Put_appends deleted_bytes_def)

lemma encode_files_eq:
  "list_all (\<lambda>(l, f). level_ok l \<and> file_ok f) xs \<Longrightarrow> encode_files xs dst = Inr (dst @ concat (map file_bytes xs))"
proof (induction xs arbitrary: dst)
  case (Cons x xs)
  then show ?case
    by (auto simp: Put_appends(1,2) Put_appends(3) [of "_ @ _"] Put_appends(3) [of "PutLengthPrefixedSlice [] _"] Encode_key_ok file_bytes_def file_ok_def Let_def)
qed simp

lemma ve_EncodeTo_bytes: "ve_wf e \<Longrightarrow> ve_EncodeTo e dst = Inr (dst @ edit_bytes e)"
proof -
  assume "ve_wf e"
  then have l: "list_all (\<lambda>(l, k). level_ok l \<and> key_ok k) (ve_compact_pointers e)" "list_all (\<lambda>(l, f). level_ok l \<and> file_ok f) (ve_new_files e)"
    by (simp_all add: ve_wf_def)
  have s: "(let dst = (if ve_has_comparator e then PutLengthPrefixedSlice (PutVarint32 dst kComparator) (ve_comparator e) else dst);
          dst = (if ve_has_log_number e then PutVarint64 (PutVarint32 dst kLogNumber) (ve_log_number e) else dst);
          dst = (if ve_has_prev_log_number e then PutVarint64 (PutVarint32 dst kPrevLogNumber) (ve_prev_log_number e) else dst);
          dst = (if ve_has_next_file_number e then PutVarint64 (PutVarint32 dst kNextFileNumber) (ve_next_file_number e) else dst) in
       if ve_has_last_sequence e then PutVarint64 (PutVarint32 dst kLastSequence) (ve_last_sequence e) else dst) = dst @ scalar_bytes e"
    by (simp add: Let_def Put_appends(1,2) Put_appends(3) [of "_ @ _"] scalar_bytes_def)
  show ?thesis unfolding ve_EncodeTo_def
    using s encode_pointers_eq [OF l(1)] encode_files_eq [OF l(2)] by (simp add: Let_def encode_deleted_eq edit_bytes_def)
qed


section \<open>Decoding\<close>

lemma level_word: "level_ok l \<Longrightarrow> (of_int l :: u32) < of_int kNumLevels \<and> uint (of_int l :: u32) = l"
proof -
  assume "level_ok l"
  then have l: "0 \<le> l" "l < 7" by (auto simp: level_ok_def kNumLevels_def)
  then have "uint (of_int l :: u32) = l" by (simp add: uint_word_of_int take_bit_int_eq_self)
  then show ?thesis using l by (simp add: word_less_def kNumLevels_def)
qed

lemma GetLevel_Put: "level_ok l \<Longrightarrow> GetLevel (EncodeVarint32 (of_int l) @ rest) = Some (l, rest)"
  using level_word [of l] by (simp add: GetLevel_def)

lemma GetInternalKey_Put: "key_ok k \<Longrightarrow> GetInternalKey (PutLengthPrefixedSlice [] k @ rest) = Some (k, rest)"
  by (simp add: GetInternalKey_def key_ok_def GetLengthPrefixedSlice_Put)

lemma decode_loop_field:
  "decode_field tag rest e = Inr (rest', e') \<Longrightarrow> decode_loop (EncodeVarint32 tag @ rest) e = decode_loop rest' e'"
  by (subst decode_loop.simps) simp

lemmas tag_defs = kComparator_def kLogNumber_def kNextFileNumber_def kLastSequence_def kCompactPointer_def kDeletedFile_def kNewFile_def kPrevLogNumber_def

lemma decode_pointer:
  assumes "level_ok (fst p)" "key_ok (snd p)"
  shows "decode_loop (pointer_bytes p @ rest) e = decode_loop rest (e\<lparr>ve_compact_pointers := ve_compact_pointers e @ [p]\<rparr>)"
  unfolding pointer_bytes_def append_assoc
  by (rule decode_loop_field) (simp add: decode_field_def tag_defs GetLevel_Put assms GetInternalKey_Put)

lemma decode_deleted:
  assumes "level_ok (fst d)"
  shows "decode_loop (deleted_bytes d @ rest) e = decode_loop rest (e\<lparr>ve_deleted_files := insort_insert d (ve_deleted_files e)\<rparr>)"
  unfolding deleted_bytes_def append_assoc
  by (rule decode_loop_field) (simp add: decode_field_def tag_defs GetLevel_Put assms)

lemma decode_file:
  assumes "level_ok (fst x)" "file_ok (snd x)"
  shows "decode_loop (file_bytes x @ rest) e = decode_loop rest (e\<lparr>ve_new_files := ve_new_files e @ [x]\<rparr>)"
proof -
  have f: "(new_FileMetaData (fm_number (snd x)))\<lparr>fm_number := fm_number (snd x), fm_file_size := fm_file_size (snd x),
      fm_smallest := fm_smallest (snd x), fm_largest := fm_largest (snd x)\<rparr> = snd x"
    using assms(2) by (simp add: new_FileMetaData_def file_ok_def)
  show ?thesis unfolding file_bytes_def append_assoc
    using assms f by (intro decode_loop_field) (simp add: decode_field_def tag_defs GetLevel_Put GetInternalKey_Put file_ok_def Let_def)
qed

lemma decode_pointers:
  "list_all (\<lambda>(l, k). level_ok l \<and> key_ok k) ps \<Longrightarrow>
   decode_loop (concat (map pointer_bytes ps) @ rest) e = decode_loop rest (e\<lparr>ve_compact_pointers := ve_compact_pointers e @ ps\<rparr>)"
  by (induction ps arbitrary: e) (auto simp: decode_pointer)

lemma decode_files:
  "list_all (\<lambda>(l, f). level_ok l \<and> file_ok f) xs \<Longrightarrow>
   decode_loop (concat (map file_bytes xs) @ rest) e = decode_loop rest (e\<lparr>ve_new_files := ve_new_files e @ xs\<rparr>)"
  by (induction xs arbitrary: e) (auto simp: decode_file)

lemma insort_insert_snoc: "\<forall>y \<in> set xs. y < x \<Longrightarrow> insort_insert x xs = xs @ [x]" for x :: "'a :: linorder"
proof -
  assume a: "\<forall>y \<in> set xs. y < x"
  then have "x \<notin> set xs" by auto
  moreover have "insort x xs = xs @ [x]" using a by (induction xs) auto
  ultimately show ?thesis by (simp add: insort_insert_key_def)
qed

lemma decode_deleted_all:
  "list_all (\<lambda>(l, n). level_ok l) ds \<Longrightarrow> sorted (ve_deleted_files e @ ds) \<Longrightarrow> distinct (ve_deleted_files e @ ds) \<Longrightarrow>
   decode_loop (concat (map deleted_bytes ds) @ rest) e = decode_loop rest (e\<lparr>ve_deleted_files := ve_deleted_files e @ ds\<rparr>)"
proof (induction ds arbitrary: e)
  case (Cons d ds)
  have "\<forall>y \<in> set (ve_deleted_files e). y < d"
    using Cons.prems(2,3) by (auto simp: sorted_append order_less_le)
  then have i: "insort_insert d (ve_deleted_files e) = ve_deleted_files e @ [d]" by (rule insort_insert_snoc)
  have "decode_loop (concat (map deleted_bytes (d # ds)) @ rest) e = decode_loop (concat (map deleted_bytes ds) @ rest) (e\<lparr>ve_deleted_files := ve_deleted_files e @ [d]\<rparr>)"
    using decode_deleted [of d "concat (map deleted_bytes ds) @ rest" e] Cons.prems(1) i by auto
  also have "\<dots> = decode_loop rest (e\<lparr>ve_deleted_files := ve_deleted_files e @ d # ds\<rparr>)"
    using Cons.IH [of "e\<lparr>ve_deleted_files := ve_deleted_files e @ [d]\<rparr>"] Cons.prems by simp
  finally show ?case .
qed simp

lemma decode_scalars:
  assumes "ve_wf e" "t = ve_Clear t"
  shows "decode_loop (scalar_bytes e @ rest) t = decode_loop rest (t\<lparr>ve_comparator := ve_comparator e, ve_log_number := ve_log_number e,
     ve_prev_log_number := ve_prev_log_number e, ve_next_file_number := ve_next_file_number e, ve_last_sequence := ve_last_sequence e,
     ve_has_comparator := ve_has_comparator e, ve_has_log_number := ve_has_log_number e, ve_has_prev_log_number := ve_has_prev_log_number e,
     ve_has_next_file_number := ve_has_next_file_number e, ve_has_last_sequence := ve_has_last_sequence e\<rparr>)"
proof -
  have c: "decode_loop (EncodeVarint32 kComparator @ PutLengthPrefixedSlice [] s @ r) u = decode_loop r (u\<lparr>ve_comparator := s, ve_has_comparator := True\<rparr>)"
    if "length s < 2 ^ 32" for s r u
    by (rule decode_loop_field) (simp add: decode_field_def tag_defs GetLengthPrefixedSlice_Put(1) [OF that])
  have l: "decode_loop (EncodeVarint32 kLogNumber @ EncodeVarint64 n @ r) u = decode_loop r (u\<lparr>ve_log_number := n, ve_has_log_number := True\<rparr>)" for n r u
    by (rule decode_loop_field) (simp add: decode_field_def tag_defs)
  have p: "decode_loop (EncodeVarint32 kPrevLogNumber @ EncodeVarint64 n @ r) u = decode_loop r (u\<lparr>ve_prev_log_number := n, ve_has_prev_log_number := True\<rparr>)" for n r u
    by (rule decode_loop_field) (simp add: decode_field_def tag_defs)
  have f: "decode_loop (EncodeVarint32 kNextFileNumber @ EncodeVarint64 n @ r) u = decode_loop r (u\<lparr>ve_next_file_number := n, ve_has_next_file_number := True\<rparr>)" for n r u
    by (rule decode_loop_field) (simp add: decode_field_def tag_defs)
  have s: "decode_loop (EncodeVarint32 kLastSequence @ EncodeVarint64 n @ r) u = decode_loop r (u\<lparr>ve_last_sequence := n, ve_has_last_sequence := True\<rparr>)" for n r u
    by (rule decode_loop_field) (simp add: decode_field_def tag_defs)
  have t: "t = new_VersionEdit\<lparr>ve_compact_pointers := ve_compact_pointers t\<rparr>"
    by (subst assms(2)) (simp add: ve_Clear_def new_VersionEdit_def)
  show ?thesis
    using assms(1) by (subst (1 2) t) (simp add: scalar_bytes_def ve_wf_def c l p f s new_VersionEdit_def)
qed

lemma decode_loop_Nil: "decode_loop [] e = (None, [], e)"
  by (subst decode_loop.simps) (simp add: GetVarint32_def GetVarint32Ptr_def GetVarint32PtrFallback_def)

lemma ve_roundtrip_into:
  assumes "ve_wf e"
  shows "ve_DecodeFrom (edit_bytes e) t = (Status_OK, e\<lparr>ve_compact_pointers := ve_compact_pointers t @ ve_compact_pointers e\<rparr>)"
proof -
  have w: "list_all (\<lambda>(l, k). level_ok l \<and> key_ok k) (ve_compact_pointers e)" "list_all (\<lambda>(l, n). level_ok l) (ve_deleted_files e)"
    "sorted (ve_deleted_files e)" "distinct (ve_deleted_files e)" "list_all (\<lambda>(l, f). level_ok l \<and> file_ok f) (ve_new_files e)"
    using assms by (simp_all add: ve_wf_def)
  have c: "ve_Clear t = ve_Clear (ve_Clear t)" by (simp add: ve_Clear_def)
  have "decode_loop (edit_bytes e) (ve_Clear t) = (None, [], e\<lparr>ve_compact_pointers := ve_compact_pointers t @ ve_compact_pointers e\<rparr>)"
    unfolding edit_bytes_def decode_scalars [OF assms c] decode_pointers [OF w(1)]
    using w decode_files [OF w(5), of "[]"] by (subst decode_deleted_all) (simp_all add: ve_Clear_def decode_loop_Nil)
  then show ?thesis by (simp add: ve_DecodeFrom_def)
qed


end
