(* ===== verification/Ldb_Properties.thy ===== *)
theory Ldb_Properties
  imports Ldb_Write_Batch Ldb_Version_Edit
begin

text \<open>
  The properties of the LevelDB components, each with an input to which it applies.
\<close>

section \<open>Coding\<close>

text \<open>
  C26: every number and slice that is appended to a string is read back, whatever follows it, and the encodings have the sizes the
  headers promise: a 32-bit varint at most five bytes, a 64-bit one at most ten, as many as \<open>VarintLength\<close> says.
\<close>

theorem coding_roundtrip:
  assumes "length s < 2 ^ 32"
  shows "DecodeFixed32 (PutFixed32 [] a @ rest) = Inr a \<and> DecodeFixed64 (PutFixed64 [] b @ rest) = Inr b
    \<and> GetVarint32 (PutVarint32 [] a @ rest) = Some (a, rest) \<and> GetVarint64 (PutVarint64 [] b @ rest) = Some (b, rest)
    \<and> GetLengthPrefixedSlice (PutLengthPrefixedSlice [] s @ rest) = Some (s, rest)
    \<and> length (EncodeVarint32 a) \<le> 5 \<and> int (length (EncodeVarint64 b)) = VarintLength b \<and> VarintLength b \<le> 10"
proof -
  have "unat b < 128 ^ 10" using unsigned_less [of b, where 'a = nat] by simp
  moreover have "length (EncodeVarint32 a) \<le> 5" by (simp add: EncodeVarint32_def)
  ultimately have "length (EncodeVarint64 b) \<le> 10" using length_varint [of "unat b" 10] by (simp add: EncodeVarint64_varint)
  then show ?thesis using GetLengthPrefixedSlice_Put(1) [OF assms, of rest] VarintLength_eq [of b] \<open>length (EncodeVarint32 a) \<le> 5\<close>
    by (simp add: PutFixed32_def PutFixed64_def PutVarint32_def PutVarint64_def)
qed

theorem coding_roundtrip_witness:
  "GetLengthPrefixedSlice (PutLengthPrefixedSlice [] [1, 2, 3] @ [9]) = Some ([1, 2, 3], [9]) \<and> GetVarint32 (PutVarint32 [] 300 @ []) = Some (300, [])"
  using coding_roundtrip [of "[1, 2, 3]" 0 "[9]" 0] coding_roundtrip [of "[1, 2, 3]" 300 "[]" 0] by simp

text \<open>
  A varint that ends too early is refused: no proper prefix of the encoding of a number is read as a number.
\<close>

theorem varint_prefix_refused:
  assumes "i < length (EncodeVarint32 a)" "j < length (EncodeVarint64 b)"
  shows "GetVarint32 (take i (EncodeVarint32 a)) = None \<and> GetVarint64 (take j (EncodeVarint64 b)) = None"
  using varint_truncated(1) [of i "unat a"] varint_truncated(2) [of j "unat b"] assms by (simp add: EncodeVarint32_varint EncodeVarint64_varint)

theorem varint_prefix_refused_witness:
  "GetVarint32 (take 1 (EncodeVarint32 300)) = None \<and> GetVarint64 (take 0 (EncodeVarint64 5)) = None"
proof -
  have "1 < length (EncodeVarint32 300)" "0 < length (EncodeVarint64 5)" by (simp_all add: EncodeVarint32_def EncodeVarint64.simps [of 5])
  then show ?thesis by (rule varint_prefix_refused)
qed

section \<open>Keys\<close>

text \<open>
  C24: an internal key is read back from its encoding, and two internal keys compare by user key in the lexicographic order of bytes,
  then by falling sequence number, then by falling type; only equal keys compare as equal.
\<close>

theorem internal_key_order:
  assumes "pik_sequence x \<le> kMaxSequenceNumber" "pik_type x \<le> 1" "pik_sequence y \<le> kMaxSequenceNumber" "pik_type y \<le> 1"
  shows "\<exists>a b r. AppendInternalKey [] x = Inr a \<and> AppendInternalKey [] y = Inr b \<and> ParseInternalKey a = Inr (True, Some x)
    \<and> internal_Compare BytewiseComparator a b = Inr r
    \<and> (r < 0 \<longleftrightarrow> (pik_user_key x, pik_user_key y) \<in> lexord {(c, d). c < d} \<or>
          pik_user_key x = pik_user_key y \<and> (pik_sequence y < pik_sequence x \<or> pik_sequence y = pik_sequence x \<and> pik_type y < pik_type x))
    \<and> (r = 0 \<longleftrightarrow> x = y)"
proof -
  let ?p = "\<lambda>k. pack (pik_sequence k) (pik_type k)"
  let ?a = "pik_user_key x @ EncodeFixed64 (?p x)" and ?b = "pik_user_key y @ EncodeFixed64 (?p y)"
  have ab: "AppendInternalKey [] x = Inr ?a" "AppendInternalKey [] y = Inr ?b"
    using AppendInternalKey_eq assms by simp_all
  have parse: "ParseInternalKey ?a = Inr (True, Some x)"
    using assms(1,2) pack_seq [of "pik_sequence x" "pik_type x"] by (simp add: ParseInternalKey_append pack_type max_seq_bits)
  have len: "8 \<le> length ?a" "8 \<le> length ?b" by simp_all
  let ?r = "internal_cmp slice_compare ?a ?b"
  have cmp: "internal_Compare BytewiseComparator ?a ?b = Inr ?r" using bytewise_user.internal_Compare_eq [OF len] .
  have bounds: "unat (pik_type x) < 256" "unat (pik_type y) < 256"
    using unsigned_less [of "pik_type x", where 'a = nat] unsigned_less [of "pik_type y", where 'a = nat] by simp_all
  have lex: "256 * c + d < 256 * a + b \<longleftrightarrow> c < a \<or> c = a \<and> d < b" if "b < 256" "d < 256" for a b c d :: nat
    using that by (cases c a rule: linorder_cases) auto
  have lex_eq: "256 * c + d = 256 * a + b \<longleftrightarrow> c = a \<and> d = b" if "b < 256" "d < 256" for a b c d :: nat
    using that by (cases c a rule: linorder_cases) auto
  have less: "?p y < ?p x \<longleftrightarrow> pik_sequence y < pik_sequence x \<or> pik_sequence y = pik_sequence x \<and> pik_type y < pik_type x"
    unfolding word_less_nat_alt word_unat_eq_iff unat_pack [OF assms(1)] unat_pack [OF assms(3)] using bounds by (rule lex)
  have eq: "?p y = ?p x \<longleftrightarrow> pik_sequence y = pik_sequence x \<and> pik_type y = pik_type x"
    unfolding word_unat_eq_iff unat_pack [OF assms(1)] unat_pack [OF assms(3)] using bounds by (rule lex_eq)
  have x: "x = y \<longleftrightarrow> pik_user_key x = pik_user_key y \<and> pik_sequence x = pik_sequence y \<and> pik_type x = pik_type y" by auto
  have "?r < 0 \<longleftrightarrow> (pik_user_key x, pik_user_key y) \<in> byte_lex \<or> pik_user_key x = pik_user_key y \<and> ?p y < ?p x"
    using slice_compare_less [of "pik_user_key x" "pik_user_key y"] slice_compare_eq [of "pik_user_key x" "pik_user_key y"]
    by (auto simp: internal_cmp_def Let_def)
  moreover have "?r = 0 \<longleftrightarrow> pik_user_key x = pik_user_key y \<and> ?p y = ?p x"
    using bytewise_internal_eq [OF len] by auto
  ultimately show ?thesis using ab parse cmp less eq x by metis
qed

theorem internal_key_order_witness:
  "\<exists>a b r. AppendInternalKey [] \<lparr>pik_user_key = [97], pik_sequence = 5, pik_type = 1\<rparr> = Inr a
    \<and> AppendInternalKey [] \<lparr>pik_user_key = [97], pik_sequence = 3, pik_type = 0\<rparr> = Inr b
    \<and> internal_Compare BytewiseComparator a b = Inr r \<and> r < 0"
proof -
  let ?x = "\<lparr>pik_user_key = [97], pik_sequence = 5, pik_type = 1\<rparr>" and ?y = "\<lparr>pik_user_key = [97], pik_sequence = 3, pik_type = 0\<rparr>"
  have "pik_sequence ?x \<le> kMaxSequenceNumber" "pik_type ?x \<le> 1" "pik_sequence ?y \<le> kMaxSequenceNumber" "pik_type ?y \<le> 1"
    by (simp_all add: max_seq_bits)
  from internal_key_order [OF this] show ?thesis by (elim exE conjE) (intro exI conjI, assumption+, simp)
qed

text \<open>
  C25: for internal keys \<open>a\<close> before \<open>b\<close> the comparator's short separator is a key that is not longer than \<open>a\<close> and lies between them,
  \<open>a\<close> included and \<open>b\<close> excluded, and the short successor of \<open>a\<close> is not before \<open>a\<close>; none of the assertions on the way fails.
\<close>

theorem internal_separator_between:
  assumes "8 \<le> length a" "8 \<le> length b" "internal_Compare BytewiseComparator a b = Inr r" "r < 0"
  shows "\<exists>s t as sb at. internal_FindShortestSeparator BytewiseComparator a b = Inr s \<and> length s \<le> length a
    \<and> internal_Compare BytewiseComparator a s = Inr as \<and> as \<le> 0 \<and> internal_Compare BytewiseComparator s b = Inr sb \<and> sb < 0
    \<and> internal_FindShortSuccessor BytewiseComparator a = Inr t \<and> length t \<le> length a \<and> internal_Compare BytewiseComparator a t = Inr at \<and> at \<le> 0"
proof -
  note C = bytewise_user.internal_Compare_eq
  have ab: "internal_cmp slice_compare a b < 0" using assms C [OF assms(1,2)] by simp
  obtain s where s: "internal_FindShortestSeparator BytewiseComparator a b = Inr s" "8 \<le> length s" "length s \<le> length a"
      "s = a \<or> internal_cmp slice_compare a s \<le> 0 \<and> internal_cmp slice_compare s b < 0"
    using bytewise_user.internal_separator [OF assms(1,2)] by blast
  obtain t where t: "internal_FindShortSuccessor BytewiseComparator a = Inr t" "8 \<le> length t" "length t \<le> length a" "internal_cmp slice_compare a t \<le> 0"
    using bytewise_user.internal_successor [OF assms(1)] by blast
  have "internal_cmp slice_compare a s \<le> 0" "internal_cmp slice_compare s b < 0"
    using s(4) ab three_way.cmp_refl [OF bytewise_user.three_way_icmp, of a] assms(1) by auto
  then show ?thesis
    using s t C [OF assms(1) s(2)] C [OF s(2) assms(2)] C [OF assms(1) t(2)] by blast
qed

theorem internal_separator_between_witness:
  "\<exists>s as sb. internal_FindShortestSeparator BytewiseComparator ([97, 98, 99] @ EncodeFixed64 257) ([97, 101] @ EncodeFixed64 257) = Inr s
    \<and> internal_Compare BytewiseComparator ([97, 98, 99] @ EncodeFixed64 257) s = Inr as \<and> as \<le> 0
    \<and> internal_Compare BytewiseComparator s ([97, 101] @ EncodeFixed64 257) = Inr sb \<and> sb < 0"
proof -
  let ?a = "[97, 98, 99] @ EncodeFixed64 257" and ?b = "[97, 101] @ EncodeFixed64 257"
  have 8: "8 \<le> length ?a" "8 \<le> length ?b" by simp_all
  have "internal_cmp slice_compare ?a ?b < 0"
    unfolding internal_cmp_def key_parts_append by (simp add: slice_compare_def)
  then show ?thesis using internal_separator_between [OF 8 bytewise_user.internal_Compare_eq [OF 8]] by blast
qed

text \<open>
  A lookup key is built inside its block, the array of 200 bytes or the allocated one, and its three slices are the
  length-prefixed internal key, the internal key with the highest type, and the user key.
\<close>

theorem lookup_key_layout:
  assumes "\<And>n. length (fresh n) = n" "s \<le> kMaxSequenceNumber" "length u + 8 < 2 ^ 32"
  shows "\<exists>k ik. LookupKey_new fresh u s = Inr k \<and> lk_end k \<le> length (lk_block k)
    \<and> AppendInternalKey [] \<lparr>pik_user_key = u, pik_sequence = s, pik_type = kValueTypeForSeek\<rparr> = Inr ik
    \<and> memtable_key k = PutLengthPrefixedSlice [] ik \<and> internal_key k = ik \<and> lookup_user_key k = u"
proof -
  obtain k rest where k: "LookupKey_new fresh u s = Inr k"
      "lk_block k = EncodeVarint32 (of_nat (length u + 8)) @ u @ EncodeFixed64 (pack s kValueTypeForSeek) @ rest"
      "lk_kstart k = length (EncodeVarint32 (of_nat (length u + 8)))" "lk_end k = lk_kstart k + length u + 8"
    using LookupKey_layout [of fresh s u] assms(1,2) by blast
  let ?ik = "u @ EncodeFixed64 (pack s kValueTypeForSeek)"
  have "AppendInternalKey [] \<lparr>pik_user_key = u, pik_sequence = s, pik_type = kValueTypeForSeek\<rparr> = Inr ?ik"
    using AppendInternalKey_eq [of "\<lparr>pik_user_key = u, pik_sequence = s, pik_type = kValueTypeForSeek\<rparr>" "[]"] assms(2)
    by (simp add: kValueTypeForSeek_def kTypeValue_def)
  moreover have "memtable_key k = PutLengthPrefixedSlice [] ?ik" "internal_key k = ?ik" "lookup_user_key k = u" "lk_end k \<le> length (lk_block k)"
    using k by (simp_all add: memtable_key_def internal_key_def lookup_user_key_def PutLengthPrefixedSlice_def PutVarint32_def)
  ultimately show ?thesis using k(1) by blast
qed

theorem lookup_key_layout_witness:
  "\<exists>k ik. LookupKey_new (\<lambda>n. replicate n 0) [107] 7 = Inr k \<and> internal_key k = ik \<and> lookup_user_key k = [107] \<and> lk_end k \<le> length (lk_block k)"
proof -
  have "\<And>n. length (replicate n 0 :: bytes) = n" "(7 :: u64) \<le> kMaxSequenceNumber" "length [107 :: byte] + 8 < 2 ^ 32"
    by (simp_all add: max_seq_bits)
  from lookup_key_layout [OF this] show ?thesis by blast
qed


section \<open>Names and checksums\<close>

text \<open>
  The name of every file of a database is parsed back, without its directory, to its type and its number, and a name with a
  number that does not fit 64 bits is refused.
\<close>

theorem filename_roundtrip:
  assumes n: "0 < n" and ds: "\<forall>b \<in> set ds. isdigit b" "2 ^ 64 \<le> dec_val 0 ds"
  shows "(\<exists>f. LogFileName db n = Inr f \<and> ParseFileName (drop (length db + 1) f) = Some (n, kLogFile))
    \<and> (\<exists>f. TableFileName db n = Inr f \<and> ParseFileName (drop (length db + 1) f) = Some (n, kTableFile))
    \<and> (\<exists>f. SSTTableFileName db n = Inr f \<and> ParseFileName (drop (length db + 1) f) = Some (n, kTableFile))
    \<and> (\<exists>f. TempFileName db n = Inr f \<and> ParseFileName (drop (length db + 1) f) = Some (n, kTempFile))
    \<and> (\<exists>f. DescriptorFileName db n = Inr f \<and> ParseFileName (drop (length db + 1) f) = Some (n, kDescriptorFile))
    \<and> ParseFileName (drop (length db + 1) (CurrentFileName db)) = Some (0, kCurrentFile)
    \<and> ParseFileName (drop (length db + 1) (LockFileName db)) = Some (0, kDBLockFile)
    \<and> ParseFileName (drop (length db + 1) (InfoLogFileName db)) = Some (0, kInfoLogFile)
    \<and> ParseFileName (drop (length db + 1) (OldInfoLogFileName db)) = Some (0, kInfoLogFile)
    \<and> ParseFileName (ds @ bstr ''.log'') = None"
proof -
  have ne: "ds \<noteq> []" using ds(2) by auto
  note f = digit_first [OF ne ds(1), where s = "bstr ''.log''"]
  have m: "\<not> starts_with (ds @ bstr ''.log'') (bstr ''MANIFEST-'')" unfolding starts_with_prefix using f [OF bstr_not_digit(5)] by blast
  have "takeWhile isdigit (ds @ bstr ''.log'') = ds"
    using ds(1) bstr_not_digit(6) by (subst takeWhile_append2) (simp_all add: bstr_def isdigit_def)
  then have "\<exists>r. ConsumeDecimalNumber (ds @ bstr ''.log'') = (False, None, r)"
    using ConsumeDecimalNumber_spec [of "ds @ bstr ''.log''"] ds(2) by (simp add: Let_def)
  then have "ParseFileName (ds @ bstr ''.log'') = None"
    using f [OF bstr_not_digit(1)] f [OF bstr_not_digit(2)] f [OF bstr_not_digit(3)] f [OF bstr_not_digit(4)] m
    by (auto simp: ParseFileName_def)
  then show ?thesis using numbered_names [OF n, of db] descriptor_name [OF n, of db] fixed_names [of db] by blast
qed

theorem filename_roundtrip_witness:
  "(\<exists>f. LogFileName (bstr ''db'') 7 = Inr f \<and> ParseFileName (drop (length (bstr ''db'') + 1) f) = Some (7, kLogFile))
    \<and> ParseFileName (dec_digits (2 ^ 64) @ bstr ''.log'') = None"
proof -
  have "(0 :: u64) < 7" "\<forall>b \<in> set (dec_digits (2 ^ 64)). isdigit b" "2 ^ 64 \<le> dec_val 0 (dec_digits (2 ^ 64))"
    using dec_digits_digits dec_val_dec_digits [of "2 ^ 64"] by simp_all
  from filename_roundtrip [OF this, of "bstr ''db''"] show ?thesis by blast
qed

text \<open>
  C20: the checksum loop with its four tables computes the CRC-32C of its definition, division by the polynomial bit by bit, for every
  length and every alignment of the buffer; extending a checksum is the checksum of the concatenation, and a masked checksum is unmasked.
\<close>

theorem crc_is_crc32c:
  "crc_Extend pval crc buf = Inr (crc_ref crc buf)
    \<and> crc_Extend pval' (crc_Value a) b = Inr (crc_Value (a @ b)) \<and> crc_Unmask (crc_Mask crc) = crc"
  by (simp add: crc_Extend_ref crc_Value_ref crc_ref_append)

section \<open>Filters\<close>

text \<open>
  C21: a filter block has no false negatives: for data blocks at rising offsets with any internal keys, the block that is built of them
  with Bloom filters is built without an error and, when it is smaller than 4 GB, its reader answers yes for every key at the offset of its block.
\<close>

theorem filter_block_no_false_negatives:
  assumes "sorted (map fst blocks)" "\<forall>x \<in> set blocks. \<forall>k \<in> set (snd x). 8 \<le> length k"
  shows "\<exists>contents. build_filter_block (InternalFilterPolicy (BloomFilterPolicy bits_per_key product)) blocks = Inr contents \<and>
    (length contents < 2 ^ 32 \<longrightarrow> (\<exists>r. new_FilterBlockReader contents = Inr r \<and>
      (\<forall>x \<in> set blocks. \<forall>k \<in> set (snd x). reader_KeyMayMatch (InternalFilterPolicy (BloomFilterPolicy bits_per_key product)) r (fst x) k = Inr True)))"
  using bloom.internal.filter_block_complete [OF assms(1), of bits_per_key product] assms(2) by (simp add: list_all_iff)

theorem filter_block_no_false_negatives_witness:
  "\<exists>contents. build_filter_block (InternalFilterPolicy (BloomFilterPolicy 10 6)) [(0, [[107] @ EncodeFixed64 257]), (5000, [EncodeFixed64 1])] = Inr contents \<and>
    (length contents < 2 ^ 32 \<longrightarrow> (\<exists>r. new_FilterBlockReader contents = Inr r \<and>
      reader_KeyMayMatch (InternalFilterPolicy (BloomFilterPolicy 10 6)) r 5000 (EncodeFixed64 1) = Inr True))"
proof -
  let ?b = "[(0, [[107] @ EncodeFixed64 257]), (5000, [EncodeFixed64 1])] :: (u64 \<times> slice list) list"
  have "sorted (map fst ?b)" "\<forall>x \<in> set ?b. \<forall>k \<in> set (snd x). 8 \<le> length k" by simp_all
  from filter_block_no_false_negatives [OF this, of 10 6] show ?thesis by (elim exE) (rule exI, auto)
qed

section \<open>Write batches\<close>

text \<open>
  C23: a batch is the list of its operations: clearing gives none, \<open>Put\<close>, \<open>Delete\<close> and \<open>Append\<close> add theirs at the end, and replaying it
  calls the handler with exactly these operations in order and succeeds; inserted into a memory table they get consecutive sequence numbers.
\<close>

theorem write_batch_replays:
  assumes "list_all op_small (ops @ ops')" "length ops + length ops' + 1 < 2 ^ 31"
  shows "wb_Clear = batch_of 0 [] \<and> wb_Put k v (batch_of seq ops) = Inr (batch_of seq (ops @ [BPut k v]))
    \<and> wb_Delete k (batch_of seq ops) = Inr (batch_of seq (ops @ [BDelete k]))
    \<and> wb_Append (batch_of seq ops) (batch_of seq' ops') = Inr (batch_of seq (ops @ ops'))
    \<and> wb_SetSequence (batch_of seq ops) seq' = Inr (batch_of seq' ops)
    \<and> wb_Iterate handler (batch_of seq (ops @ ops')) h = Inr (Status_OK, foldl (apply_op handler) h (ops @ ops'))
    \<and> wb_InsertInto Add (batch_of seq (ops @ ops')) m = Inr (Status_OK, insert_ops Add seq (ops @ ops') m)"
proof -
  have l: "length ops < 2 ^ 31 - 1" "length ops < 2 ^ 31" "length ops + length ops' < 2 ^ 31" "length (ops @ ops') < 2 ^ 31" using assms(2) by simp_all
  show ?thesis
    by (intro conjI wb_Clear_batch wb_Put_batch [OF l(1)] wb_Delete_batch [OF l(1)] wb_Append_batch [OF l(3)] batch_facts(3) [OF l(2)]
      wb_Iterate_batch [OF assms(1) l(4)] wb_InsertInto_batch [OF assms(1) l(4)])
qed

theorem write_batch_replays_witness:
  "wb_Iterate \<lparr>h_Put = (\<lambda>k v h. h @ [(k, v)]), h_Delete = (\<lambda>k h. filter (\<lambda>e. fst e \<noteq> k) h)\<rparr> (batch_of 9 ([BPut [1] [2], BPut [3] [4]] @ [BDelete [1]])) []
    = Inr (Status_OK, [([3], [4])])"
proof -
  have "list_all op_small ([BPut [1] [2], BPut [3] [4]] @ [BDelete [1]])" "length [BPut [1] [2], BPut [3] [4]] + length [BDelete [1]] + 1 < 2 ^ 31"
    by simp_all
  from write_batch_replays [OF this, of "[]" "[]" 9 0 "\<lparr>h_Put = (\<lambda>k v h. h @ [(k, v)]), h_Delete = (\<lambda>k h. filter (\<lambda>e. fst e \<noteq> k) h)\<rparr>" "[]" "\<lambda>_ _ _ _ m. m" "()"]
  show ?thesis by simp
qed



section \<open>Version edits\<close>

text \<open>A concrete edit.\<close>

definition sample_edit :: VersionEdit where
  "sample_edit = DeleteFile 0 3 (AddFile 1 7 100 [1] [2] (SetCompactPointer 2 [5] (SetLogNumber 9 new_VersionEdit)))"

lemma sample_edit_wf: "ve_wf sample_edit"
  unfolding sample_edit_def by (intro wf_intros) (simp_all add: level_ok_def key_ok_def kNumLevels_def)

text \<open>
  C22: an edit that the setters build, with levels that exist and valid keys, is encoded, and decoding the bytes into a new edit succeeds
  and gives the same edit with all its fields, compaction pointers, deleted and new files.
\<close>

theorem version_edit_roundtrip:
  assumes "ve_wf e"
  shows "\<exists>bs. ve_EncodeTo e [] = Inr bs \<and> ve_DecodeFrom bs new_VersionEdit = (Status_OK, e)"
  using ve_EncodeTo_bytes [OF assms, of "[]"] ve_roundtrip_into [OF assms, of new_VersionEdit] by (simp add: new_VersionEdit_def)

theorem version_edit_roundtrip_witness:
  "\<exists>bs. ve_EncodeTo sample_edit [] = Inr bs \<and> ve_DecodeFrom bs new_VersionEdit = (Status_OK, sample_edit)"
  by (rule version_edit_roundtrip [OF sample_edit_wf])

text \<open>
  Every operation of an edit keeps it well formed, from the empty edit on: the invariant under which it is encoded and decoded.
\<close>

theorem version_edit_invariant:
  assumes "ve_wf e" "level_ok l" "key_ok k" "key_ok k'" "length name < 2 ^ 32"
  shows "ve_wf new_VersionEdit \<and> ve_wf (SetComparatorName name e) \<and> ve_wf (SetLogNumber n e) \<and> ve_wf (SetPrevLogNumber n e)
    \<and> ve_wf (SetNextFile n e) \<and> ve_wf (SetLastSequence n e) \<and> ve_wf (SetCompactPointer l k e)
    \<and> ve_wf (AddFile l n z k k' e) \<and> ve_wf (DeleteFile l n e) \<and> ve_wf (ve_Clear e)"
  using assms by (intro conjI wf_intros ve_wf_Clear)

theorem version_edit_invariant_witness:
  "ve_wf (AddFile 6 4 5 [1] [2] sample_edit) \<and> ve_wf (ve_Clear sample_edit)"
proof -
  have "level_ok 6" "key_ok [1]" "key_ok [2]" "length ([] :: bytes) < 2 ^ 32" by (simp_all add: level_ok_def key_ok_def kNumLevels_def)
  from version_edit_invariant [OF sample_edit_wf this, of 4 5] show ?thesis by blast
qed

text \<open>
  C28: \<open>Clear\<close> does not clear the compaction pointers, so decoding into an edit that was used before adds the decoded pointers to the old
  ones; every other field is replaced.
\<close>

theorem version_edit_keeps_pointers:
  assumes "ve_wf e"
  shows "\<exists>bs. ve_EncodeTo e [] = Inr bs
    \<and> ve_DecodeFrom bs t = (Status_OK, e\<lparr>ve_compact_pointers := ve_compact_pointers t @ ve_compact_pointers e\<rparr>)"
  using ve_EncodeTo_bytes [OF assms, of "[]"] ve_roundtrip_into [OF assms, of t] by simp

theorem version_edit_keeps_pointers_witness:
  "\<exists>bs r. ve_EncodeTo new_VersionEdit [] = Inr bs \<and> ve_DecodeFrom bs sample_edit = (Status_OK, r) \<and> ve_compact_pointers r = [(2, [5])]"
  using version_edit_keeps_pointers [OF ve_wf_new, of sample_edit]
  by (auto simp: sample_edit_def new_VersionEdit_def DeleteFile_def AddFile_def SetCompactPointer_def SetLogNumber_def Let_def)


end
