(* ===== verification/Ldb_Env.thy ===== *)
theory Ldb_Env
  imports Ldb_Filter
begin

text \<open>
  Files: the interfaces of \<^verbatim>\<open>include/leveldb/env.h\<close> as records of operations, their contracts as the locales \<open>writable_file\<close>,
  \<open>sequential_file\<close> and \<open>random_file\<close>, and the environment that keeps files in memory (\<^verbatim>\<open>helpers/memenv/memenv.cc\<close>) with its
  objects, reference counts and names. Its files meet the three contracts, and the environment refines a map from names to bytes.
\<close>

section \<open>Files: interfaces\<close>

text \<open>
  The abstract classes of files, as records of their operations on a state \<open>'f\<close>. A read returns the status, the bytes and whether
  they are in the caller's buffer; the bytes are empty when the status is not OK.
\<close>

record 'f SequentialFile =
  sf_Read :: "nat \<Rightarrow> 'f \<Rightarrow> (Status \<times> slice \<times> 'f) res"
  sf_Skip :: "u64 \<Rightarrow> 'f \<Rightarrow> (Status \<times> 'f) res"

record 'f RandomAccessFile =
  rf_Read :: "u64 \<Rightarrow> nat \<Rightarrow> 'f \<Rightarrow> (Status \<times> slice \<times> bool) res"

record 'f WritableFile =
  wf_Append :: "slice \<Rightarrow> 'f \<Rightarrow> (Status \<times> 'f) res"
  wf_Close :: "'f \<Rightarrow> (Status \<times> 'f) res"
  wf_Flush :: "'f \<Rightarrow> (Status \<times> 'f) res"
  wf_Sync :: "'f \<Rightarrow> (Status \<times> 'f) res"

section \<open>Files in memory: model\<close>

record FileState =
  fs_refs :: int
  fs_blocks :: "bytes list"
  fs_size :: nat

definition fs_kBlockSize :: nat where "fs_kBlockSize = 8 * 1024"

definition FileState_new :: FileState where
  "FileState_new = \<lparr>fs_refs = 0, fs_blocks = [], fs_size = 0\<rparr>"

function fs_read_loop :: "bytes list \<Rightarrow> nat \<Rightarrow> nat \<Rightarrow> nat \<Rightarrow> bytes res" where
  "fs_read_loop blocks block block_offset bytes_to_copy =
     (if bytes_to_copy = 0 then Inr []
      else let avail = fs_kBlockSize - block_offset;
               avail = (if bytes_to_copy < avail then bytes_to_copy else avail) in
           bindR (nth_res blocks (int block)) (\<lambda>b.
           bindR (load_bytes b (int block_offset) avail) (\<lambda>chunk.
           bindR (fs_read_loop blocks (block + 1) 0 (bytes_to_copy - avail)) (\<lambda>rest. Inr (chunk @ rest)))))"
  by pat_completeness auto
termination
  by (relation "measure (\<lambda>(_, _, off, n). n + (if off < fs_kBlockSize then 0 else 1))")
    (auto simp: fs_kBlockSize_def split: if_splits)

declare fs_read_loop.simps [simp del]

definition fs_Read :: "FileState \<Rightarrow> nat \<Rightarrow> nat \<Rightarrow> (Status \<times> slice \<times> bool) res" where
  "fs_Read f offset n =
     (if fs_size f < offset then Inr (IOError (bstr ''Offset greater than file size.'') [], [], False)
      else let available = fs_size f - offset;
               n = (if available < n then available else n) in
           if n = 0 then Inr (Status_OK, [], False)
           else let block = offset div fs_kBlockSize;
                    block_offset = offset mod fs_kBlockSize in
                if n \<le> fs_kBlockSize - block_offset
                then bindR (nth_res (fs_blocks f) (int block)) (\<lambda>b.
                     bindR (load_bytes b (int block_offset) n) (\<lambda>data. Inr (Status_OK, data, False)))
                else bindR (fs_read_loop (fs_blocks f) block block_offset n) (\<lambda>data. Inr (Status_OK, data, True)))"

text \<open>The bytes of a new block are not set; \<open>unset i j\<close> is what byte \<open>j\<close> of block \<open>i\<close> happens to be.\<close>

function fs_Append_loop :: "(nat \<Rightarrow> nat \<Rightarrow> byte) \<Rightarrow> bytes \<Rightarrow> FileState \<Rightarrow> FileState res" where
  "fs_Append_loop unset src f =
     (if src = [] then Inr f
      else let offset = fs_size f mod fs_kBlockSize;
               (f, avail) = (if offset \<noteq> 0 then (f, fs_kBlockSize - offset)
                 else (f\<lparr>fs_blocks := fs_blocks f @ [map (unset (length (fs_blocks f))) [0..<fs_kBlockSize]]\<rparr>, fs_kBlockSize));
               avail = (if length src < avail then length src else avail) in
           bindR (nth_res (fs_blocks f) (int (length (fs_blocks f)) - 1)) (\<lambda>b.
           bindR (store_bytes b (int offset) (take avail src)) (\<lambda>b.
           fs_Append_loop unset (drop avail src)
             (f\<lparr>fs_blocks := (fs_blocks f)[length (fs_blocks f) - 1 := b], fs_size := fs_size f + avail\<rparr>))))"
  by pat_completeness auto
termination
  by (relation "measure (\<lambda>(_, src, _). length src)")
    (auto simp: fs_kBlockSize_def Let_def split: if_splits)

declare fs_Append_loop.simps [simp del]

definition fs_Append :: "(nat \<Rightarrow> nat \<Rightarrow> byte) \<Rightarrow> slice \<Rightarrow> FileState \<Rightarrow> (Status \<times> FileState) res" where
  "fs_Append unset data f = bindR (fs_Append_loop unset data f) (\<lambda>f. Inr (Status_OK, f))"

text \<open>The objects the environment has allocated, by address; \<open>0\<close> is \<open>NULL\<close>.\<close>

type_synonym file_heap = "nat \<Rightarrow> FileState option"

definition deref :: "file_heap \<Rightarrow> nat \<Rightarrow> FileState res" where
  "deref h a = (if a = 0 then Inl Null_deref else case h a of None \<Rightarrow> Inl Dangling | Some f \<Rightarrow> Inr f)"

text \<open>The counter of references is an \<^verbatim>\<open>int\<close>; its overflow is an error.\<close>

definition fs_Ref :: "nat \<Rightarrow> file_heap \<Rightarrow> file_heap res" where
  "fs_Ref a h = bindR (deref h a) (\<lambda>f. bindR (add_int (fs_refs f) 1) (\<lambda>refs. Inr (h(a \<mapsto> f\<lparr>fs_refs := refs\<rparr>))))"

definition fs_Unref :: "nat \<Rightarrow> file_heap \<Rightarrow> file_heap res" where
  "fs_Unref a h =
     bindR (deref h a) (\<lambda>f.
     let refs = fs_refs f - 1 in
     bindR (assertR (0 \<le> refs)) (\<lambda>_.
     Inr (if refs \<le> 0 then h(a := None) else h(a \<mapsto> f\<lparr>fs_refs := refs\<rparr>))))"

record SequentialFileImpl =
  sq_file :: nat
  sq_pos :: nat

definition SequentialFileImpl_new :: "nat \<Rightarrow> file_heap \<Rightarrow> (SequentialFileImpl \<times> file_heap) res" where
  "SequentialFileImpl_new a h = bindR (fs_Ref a h) (\<lambda>h. Inr (\<lparr>sq_file = a, sq_pos = 0\<rparr>, h))"

definition SequentialFileImpl_delete :: "SequentialFileImpl \<Rightarrow> file_heap \<Rightarrow> file_heap res" where
  "SequentialFileImpl_delete s h = fs_Unref (sq_file s) h"

definition sq_Read :: "nat \<Rightarrow> file_heap \<times> SequentialFileImpl \<Rightarrow> (Status \<times> slice \<times> file_heap \<times> SequentialFileImpl) res" where
  "sq_Read n = (\<lambda>(h, s).
     bindR (deref h (sq_file s)) (\<lambda>f.
     bindR (fs_Read f (sq_pos s) n) (\<lambda>(st, result, _).
     Inr (st, result, h, if Status_ok st then s\<lparr>sq_pos := sq_pos s + length result\<rparr> else s))))"

definition sq_Skip :: "u64 \<Rightarrow> file_heap \<times> SequentialFileImpl \<Rightarrow> (Status \<times> file_heap \<times> SequentialFileImpl) res" where
  "sq_Skip n = (\<lambda>(h, s).
     bindR (deref h (sq_file s)) (\<lambda>f.
     if fs_size f < sq_pos s then Inr (IOError (bstr ''pos_ > file_->Size()'') [], h, s)
     else let available = fs_size f - sq_pos s;
              n = (if available < unat n then available else unat n) in
          Inr (Status_OK, h, s\<lparr>sq_pos := sq_pos s + n\<rparr>)))"

definition ra_Read :: "u64 \<Rightarrow> nat \<Rightarrow> file_heap \<times> nat \<Rightarrow> (Status \<times> slice \<times> bool) res" where
  "ra_Read offset n = (\<lambda>(h, a). bindR (deref h a) (\<lambda>f. fs_Read f (unat offset) n))"

definition wr_Append :: "(nat \<Rightarrow> nat \<Rightarrow> byte) \<Rightarrow> slice \<Rightarrow> file_heap \<times> nat \<Rightarrow> (Status \<times> file_heap \<times> nat) res" where
  "wr_Append unset data = (\<lambda>(h, a).
     bindR (deref h a) (\<lambda>f.
     bindR (fs_Append unset data f) (\<lambda>(s, f). Inr (s, h(a \<mapsto> f), a))))"

definition MemSequentialFile :: "(file_heap \<times> SequentialFileImpl) SequentialFile" where
  "MemSequentialFile = \<lparr>sf_Read = sq_Read, sf_Skip = sq_Skip\<rparr>"

definition MemRandomAccessFile :: "(file_heap \<times> nat) RandomAccessFile" where
  "MemRandomAccessFile = \<lparr>rf_Read = ra_Read\<rparr>"

definition MemWritableFile :: "(nat \<Rightarrow> nat \<Rightarrow> byte) \<Rightarrow> (file_heap \<times> nat) WritableFile" where
  "MemWritableFile unset =
     \<lparr>wf_Append = wr_Append unset, wf_Close = (\<lambda>w. Inr (Status_OK, w)), wf_Flush = (\<lambda>w. Inr (Status_OK, w)),
      wf_Sync = (\<lambda>w. Inr (Status_OK, w))\<rparr>"


section \<open>Files in memory: the bytes of a file\<close>

lemma length_concat_uniform: "\<forall>b \<in> set bs. length b = n \<Longrightarrow> length (concat bs) = length bs * n"
  by (induction bs) auto

lemma concat_at_block:
  assumes "\<forall>b \<in> set bs. length b = n" "i < length bs"
  shows "drop (i * n) (concat bs) = bs ! i @ concat (drop (Suc i) bs)"
proof -
  have "concat bs = concat (take i bs) @ bs ! i @ concat (drop (Suc i) bs)"
    using id_take_nth_drop [OF assms(2)] by (metis concat.simps(2) concat_append)
  moreover have "length (concat (take i bs)) = i * n"
  proof -
    have "\<forall>b \<in> set (take i bs). length b = n" using assms(1) by (auto dest: in_set_takeD)
    from length_concat_uniform [OF this] show ?thesis using assms(2) by simp
  qed
  ultimately show ?thesis by simp
qed

definition fs_inv :: "FileState \<Rightarrow> bool" where
  "fs_inv f \<longleftrightarrow> (\<forall>b \<in> set (fs_blocks f). length b = fs_kBlockSize) \<and>
     fs_size f \<le> length (fs_blocks f) * fs_kBlockSize \<and> length (fs_blocks f) * fs_kBlockSize < fs_size f + fs_kBlockSize"

definition fs_contents :: "FileState \<Rightarrow> bytes" where
  "fs_contents f = take (fs_size f) (concat (fs_blocks f))"

lemma kBlockSize_pos: "0 < fs_kBlockSize"
  by (simp add: fs_kBlockSize_def)

lemma fs_contents_length: "fs_inv f \<Longrightarrow> length (fs_contents f) = fs_size f"
  using length_concat_uniform [of "fs_blocks f" fs_kBlockSize] by (simp add: fs_inv_def fs_contents_def)

lemma fs_inv_new: "fs_inv FileState_new" "fs_contents FileState_new = []"
  by (simp_all add: fs_inv_def FileState_new_def fs_contents_def fs_kBlockSize_def)

lemma fs_read_loop_spec:
  assumes "\<forall>b \<in> set bs. length b = fs_kBlockSize" "off < fs_kBlockSize" "block * fs_kBlockSize + off + n \<le> length bs * fs_kBlockSize"
  shows "fs_read_loop bs block off n = Inr (take n (drop (block * fs_kBlockSize + off) (concat bs)))"
  using assms
proof (induction n arbitrary: block off rule: less_induct)
  case (less n)
  show ?case
  proof (cases "n = 0")
    case True
    then show ?thesis by (subst fs_read_loop.simps) simp
  next
    case False
    define a where "a = (if n < fs_kBlockSize - off then n else fs_kBlockSize - off)"
    have blk: "block < length bs"
    proof (rule ccontr)
      assume "\<not> block < length bs"
      then have "length bs * fs_kBlockSize \<le> block * fs_kBlockSize" by simp
      then show False using less.prems(3) False by linarith
    qed
    have len: "length (bs ! block) = fs_kBlockSize" using less.prems(1) blk by simp
    have a: "a \<le> n" "off + a \<le> fs_kBlockSize" "n - a < n" using less.prems(2) False by (auto simp: a_def)
    have ld: "load_bytes (bs ! block) (int off) a = Inr (take a (drop off (bs ! block)))" using a len by (simp add: load_bytes_def)
    have bound: "(block + 1) * fs_kBlockSize + 0 + (n - a) \<le> length bs * fs_kBlockSize"
    proof (cases "n - a = 0")
      case True
      then show ?thesis using blk by (metis Suc_eq_plus1 Suc_leI add.right_neutral mult_le_mono1)
    next
      case False
      then have "off + a = fs_kBlockSize" using less.prems(2) by (auto simp: a_def)
      then show ?thesis using less.prems(3) a(1) by simp
    qed
    have rest: "fs_read_loop bs (block + 1) 0 (n - a) = Inr (take (n - a) (drop ((block + 1) * fs_kBlockSize + 0) (concat bs)))"
      using a(3) less.prems(1) bound kBlockSize_pos by (intro less.IH) simp_all
    have split: "take n (drop (block * fs_kBlockSize + off) (concat bs)) =
        take a (drop off (bs ! block)) @ take (n - a) (drop ((block + 1) * fs_kBlockSize + 0) (concat bs))"
    proof -
      have d: "drop (block * fs_kBlockSize + off) (concat bs) = drop off (bs ! block) @ concat (drop (Suc block) bs)"
        using concat_at_block [OF less.prems(1) blk] len less.prems(2) by (simp add: drop_drop [symmetric] add.commute [of _ off])
      have e: "drop ((block + 1) * fs_kBlockSize + 0) (concat bs) = concat (drop (Suc block) bs)"
        using concat_at_block [OF less.prems(1) blk] len by (simp add: drop_drop [symmetric] add.commute)
      show ?thesis unfolding d e using len by (auto simp: a_def)
    qed
    show ?thesis
      unfolding split using False ld rest blk by (subst fs_read_loop.simps) (simp add: a_def [symmetric] nth_res_Inr Let_def del: mult_Suc)
  qed
qed

lemma fs_Read_spec:
  assumes "fs_inv f"
  shows "offset \<le> fs_size f \<Longrightarrow> \<exists>copied. fs_Read f offset n = Inr (Status_OK, take n (drop offset (fs_contents f)), copied)"
    and "fs_size f < offset \<Longrightarrow> fs_Read f offset n = Inr (IOError (bstr ''Offset greater than file size.'') [], [], False)"
proof -
  show "fs_Read f offset n = Inr (IOError (bstr ''Offset greater than file size.'') [], [], False)" if "fs_size f < offset"
    using that by (simp add: fs_Read_def)
  assume off: "offset \<le> fs_size f"
  have inv: "\<forall>b \<in> set (fs_blocks f). length b = fs_kBlockSize" "fs_size f \<le> length (fs_blocks f) * fs_kBlockSize"
    using assms by (auto simp: fs_inv_def)
  define m where "m = (if fs_size f - offset < n then fs_size f - offset else n)"
  have data: "take n (drop offset (fs_contents f)) = take m (drop offset (concat (fs_blocks f)))"
    using off by (auto simp: fs_contents_def m_def drop_take min_def)
  let ?b = "offset div fs_kBlockSize" and ?o = "offset mod fs_kBlockSize"
  have bo: "?b * fs_kBlockSize + ?o = offset" "?o < fs_kBlockSize" using kBlockSize_pos by simp_all
  have fin: "offset + m \<le> fs_size f" using off by (cases "fs_size f - offset < n") (simp_all add: m_def)
  show "\<exists>copied. fs_Read f offset n = Inr (Status_OK, take n (drop offset (fs_contents f)), copied)"
  proof (cases "m = 0")
    case True
    then show ?thesis using off data by (auto simp: fs_Read_def m_def Let_def)
  next
    case False
    have loop: "fs_read_loop (fs_blocks f) ?b ?o m = Inr (take m (drop offset (concat (fs_blocks f))))"
      using fs_read_loop_spec [OF inv(1) bo(2), of ?b m] bo(1) fin inv(2) by simp
    show ?thesis
    proof (cases "m \<le> fs_kBlockSize - ?o")
      case True
      have "offset < length (fs_blocks f) * fs_kBlockSize" using fin inv(2) False by linarith
      then have blk: "?b < length (fs_blocks f)" using kBlockSize_pos by (simp add: div_less_iff_less_mult)
      have len: "length (fs_blocks f ! ?b) = fs_kBlockSize" using inv(1) blk by simp
      have "drop offset (concat (fs_blocks f)) = drop ?o (fs_blocks f ! ?b) @ concat (drop (Suc ?b) (fs_blocks f))"
        using concat_at_block [OF inv(1) blk] len bo by (metis drop_append drop_drop add.commute diff_is_0_eq' drop0 less_imp_le)
      then have "take m (drop offset (concat (fs_blocks f))) = take m (drop ?o (fs_blocks f ! ?b))" using True len by simp
      then have "load_bytes (fs_blocks f ! ?b) (int ?o) m = Inr (take m (drop offset (concat (fs_blocks f))))"
        using True len bo(2) by (simp add: load_bytes_def)
      then show ?thesis unfolding data fs_Read_def Let_def m_def [symmetric] using off False True blk by (auto simp: nth_res_Inr)
    next
      case copy: False
      then show ?thesis unfolding data fs_Read_def Let_def m_def [symmetric] using off False loop by auto
    qed
  qed
qed

lemma last_block:
  assumes "fs_inv f" "length nb = fs_kBlockSize"
  shows "\<exists>bs b. (if fs_size f mod fs_kBlockSize \<noteq> 0 then fs_blocks f else fs_blocks f @ [nb]) = bs @ [b] \<and> length b = fs_kBlockSize
     \<and> (\<forall>b \<in> set bs. length b = fs_kBlockSize) \<and> fs_size f = length bs * fs_kBlockSize + fs_size f mod fs_kBlockSize
     \<and> fs_contents f = take (fs_size f) (concat (bs @ [b]))"
proof -
  let ?B = fs_kBlockSize and ?L = "length (fs_blocks f)"
  have inv: "\<forall>b \<in> set (fs_blocks f). length b = ?B" "fs_size f \<le> ?L * ?B" "?L * ?B < fs_size f + ?B"
    using assms(1) by (simp_all add: fs_inv_def)
  have dm: "fs_size f = fs_size f div ?B * ?B + fs_size f mod ?B" by simp
  show ?thesis
  proof (cases "fs_size f mod ?B = 0")
    case True
    have k: "fs_size f = fs_size f div ?B * ?B" using dm True by simp
    have "fs_size f div ?B * ?B \<le> ?L * ?B" using inv(2) k by simp
    moreover have "?L * ?B < Suc (fs_size f div ?B) * ?B" using inv(3) k by simp
    ultimately have "?L = fs_size f div ?B" using kBlockSize_pos by (meson le_antisym less_Suc_eq_le mult_le_cancel2 mult_less_cancel2)
    then have "fs_size f = ?L * ?B" using k by simp
    then show ?thesis using True assms(2) inv(1) length_concat_uniform [OF inv(1)]
      by (intro exI [of _ "fs_blocks f"] exI [of _ nb]) (simp add: fs_contents_def)
  next
    case False
    then have "fs_blocks f \<noteq> []" using inv(2) by (intro notI) simp
    then obtain bs b where bb: "fs_blocks f = bs @ [b]" by (metis rev_exhaust)
    have "fs_size f \<noteq> Suc (length bs) * ?B" using False by (metis mod_mult_self2_is_0)
    then have "?B * length bs \<le> fs_size f" "fs_size f < ?B * Suc (length bs)" using inv(2,3) bb by (simp_all add: algebra_simps)
    then have "fs_size f div ?B = length bs" by (rule div_nat_eqI)
    then show ?thesis using False bb inv(1) dm by (intro exI [of _ bs] exI [of _ b]) (simp add: fs_contents_def)
  qed
qed

lemma fs_Append_loop_spec:
  assumes "fs_inv f"
  shows "\<exists>f'. fs_Append_loop unset src f = Inr f' \<and> fs_inv f' \<and> fs_contents f' = fs_contents f @ src \<and> fs_refs f' = fs_refs f"
  using assms
proof (induction src arbitrary: f rule: length_induct)
  case (1 src f)
  show ?case
  proof (cases "src = []")
    case True
    then show ?thesis using "1.prems" by (subst fs_Append_loop.simps) simp
  next
    case False
    let ?B = fs_kBlockSize
    define off where "off = fs_size f mod ?B"
    define g where "g = (if off \<noteq> 0 then f else f\<lparr>fs_blocks := fs_blocks f @ [map (unset (length (fs_blocks f))) [0..<?B]]\<rparr>)"
    define a where "a = (if length src < ?B - off then length src else ?B - off)"
    have off: "off < ?B" using kBlockSize_pos by (simp add: off_def)
    have a: "0 < a" "a \<le> length src" "off + a \<le> ?B" using off False by (auto simp: a_def)
    have inv: "\<forall>b \<in> set (fs_blocks f). length b = ?B" "fs_size f \<le> length (fs_blocks f) * ?B" "length (fs_blocks f) * ?B < fs_size f + ?B"
      using "1.prems" by (simp_all add: fs_inv_def)
    obtain bs b where g: "fs_blocks g = bs @ [b]" "length b = ?B" "\<forall>b \<in> set bs. length b = ?B" "fs_size f = length bs * ?B + off"
        "fs_contents f = take (fs_size f) (concat (bs @ [b]))"
      using last_block [OF "1.prems", of "map (unset (length (fs_blocks f))) [0..<?B]", folded off_def] by (auto simp: g_def split: if_splits)
    have gf: "fs_size g = fs_size f" "fs_refs g = fs_refs f" by (simp_all add: g_def)
    let ?b = "blit b off (take a src)"
    let ?f = "g\<lparr>fs_blocks := bs @ [?b], fs_size := fs_size f + a\<rparr>"
    have b: "length ?b = ?B" using a g(2) by simp
    have st: "store_bytes b (int off) (take a src) = Inr ?b" using a g(2) by (simp add: store_bytes_def)
    have step: "fs_Append_loop unset src f = fs_Append_loop unset (drop a src) ?f"
    proof -
      have "(if off \<noteq> 0 then (f, ?B - off) else (f\<lparr>fs_blocks := fs_blocks f @ [map (unset (length (fs_blocks f))) [0..<?B]]\<rparr>, ?B)) = (g, ?B - off)"
        by (simp add: g_def)
      then show ?thesis
        using False st g(1) gf by (subst fs_Append_loop.simps) (simp add: off_def [symmetric] a_def [symmetric] Let_def nth_res_def)
    qed
    have "fs_inv ?f" using b g(3,4) a off by (auto simp: fs_inv_def)
    moreover have "fs_contents ?f = fs_contents f @ take a src"
    proof -
      have "fs_contents f = concat bs @ take off b" using g(2-5) length_concat_uniform [OF g(3)] by simp
      moreover have "fs_contents ?f = concat bs @ take (off + a) ?b" using g(4) length_concat_uniform [OF g(3)] by (simp add: fs_contents_def)
      moreover have "take (off + a) ?b = take off b @ take a src" using a g(2) by (simp add: blit_def)
      ultimately show ?thesis by simp
    qed
    moreover have "length (drop a src) < length src" using a by simp
    ultimately obtain f' where "fs_Append_loop unset (drop a src) ?f = Inr f'" "fs_inv f'"
        "fs_contents f' = (fs_contents f @ take a src) @ drop a src" "fs_refs f' = fs_refs f"
      using "1.IH" [rule_format, of "drop a src" ?f] gf by auto
    then show ?thesis using step by simp
  qed
qed


section \<open>The contracts of files\<close>

text \<open>
  What \<^verbatim>\<open>include/leveldb/env.h\<close> promises of files on which every operation succeeds: what is appended is at the end of the file, a
  sequential read returns the next bytes and stops only at the end of the file, and a read at an offset returns the bytes there.
\<close>

locale writable_file =
  fixes W :: "'f WritableFile" and ok :: "'f \<Rightarrow> bool" and contents :: "'f \<Rightarrow> bytes"
  assumes append_file: "ok f \<Longrightarrow> \<exists>f'. wf_Append W d f = Inr (Status_OK, f') \<and> ok f' \<and> contents f' = contents f @ d"
    and flush_file: "ok f \<Longrightarrow> \<exists>f'. wf_Flush W f = Inr (Status_OK, f') \<and> ok f' \<and> contents f' = contents f"

locale sequential_file =
  fixes S :: "'f SequentialFile" and ok :: "'f \<Rightarrow> bool" and remaining :: "'f \<Rightarrow> bytes"
  assumes read_next: "ok f \<Longrightarrow> \<exists>f'. sf_Read S n f = Inr (Status_OK, take n (remaining f), f') \<and> ok f' \<and> remaining f' = drop n (remaining f)"
    and skip_next: "ok f \<Longrightarrow> \<exists>f'. sf_Skip S k f = Inr (Status_OK, f') \<and> ok f' \<and> remaining f' = drop (unat k) (remaining f)"

locale random_file =
  fixes R :: "'f RandomAccessFile" and ok :: "'f \<Rightarrow> bool" and contents :: "'f \<Rightarrow> bytes"
  assumes read_at: "ok f \<Longrightarrow> unat offset \<le> length (contents f) \<Longrightarrow>
      \<exists>copied. rf_Read R offset n f = Inr (Status_OK, take n (drop (unat offset) (contents f)), copied)"

text \<open>The files in memory meet them.\<close>

definition live :: "file_heap \<Rightarrow> nat \<Rightarrow> bool" where
  "live h a \<longleftrightarrow> a \<noteq> 0 \<and> (\<exists>f. h a = Some f \<and> fs_inv f)"

definition bytes_at :: "file_heap \<Rightarrow> nat \<Rightarrow> bytes" where
  "bytes_at h a = (case h a of None \<Rightarrow> [] | Some f \<Rightarrow> fs_contents f)"

definition seq_ok :: "file_heap \<times> SequentialFileImpl \<Rightarrow> bool" where
  "seq_ok = (\<lambda>(h, s). live h (sq_file s) \<and> sq_pos s \<le> length (bytes_at h (sq_file s)))"

definition seq_remaining :: "file_heap \<times> SequentialFileImpl \<Rightarrow> bytes" where
  "seq_remaining = (\<lambda>(h, s). drop (sq_pos s) (bytes_at h (sq_file s)))"

lemma liveE:
  assumes "live h a"
  obtains f where "h a = Some f" "fs_inv f" "deref h a = Inr f" "bytes_at h a = fs_contents f" "fs_size f = length (fs_contents f)"
  using assms by (auto simp: live_def deref_def bytes_at_def fs_contents_length)

interpretation mem_writable: writable_file "MemWritableFile unset" "\<lambda>(h, a). live h a" "\<lambda>(h, a). bytes_at h a" for unset
proof
  fix f d assume "case f of (h, a) \<Rightarrow> live h a"
  then obtain h a where f: "f = (h, a)" "live h a" by (cases f) auto
  obtain g where g: "h a = Some g" "fs_inv g" "deref h a = Inr g" "bytes_at h a = fs_contents g" by (rule liveE [OF f(2)])
  obtain g' where "fs_Append_loop unset d g = Inr g'" "fs_inv g'" "fs_contents g' = fs_contents g @ d" using fs_Append_loop_spec [OF g(2)] by blast
  then show "\<exists>f'. wf_Append (MemWritableFile unset) d f = Inr (Status_OK, f') \<and> (case f' of (h, a) \<Rightarrow> live h a)
      \<and> (case f' of (h, a) \<Rightarrow> bytes_at h a) = (case f of (h, a) \<Rightarrow> bytes_at h a) @ d"
    using f g by (auto simp: MemWritableFile_def wr_Append_def fs_Append_def live_def bytes_at_def)
qed (auto simp: MemWritableFile_def)

interpretation mem_sequential: sequential_file MemSequentialFile seq_ok seq_remaining
proof
  fix st :: "file_heap \<times> SequentialFileImpl" and n :: nat and k :: u64 assume "seq_ok st"
  then obtain h s where st: "st = (h, s)" "live h (sq_file s)" "sq_pos s \<le> length (bytes_at h (sq_file s))" by (auto simp: seq_ok_def)
  obtain g where g: "h (sq_file s) = Some g" "fs_inv g" "deref h (sq_file s) = Inr g" "bytes_at h (sq_file s) = fs_contents g" "fs_size g = length (fs_contents g)"
    by (rule liveE [OF st(2)])
  obtain copied where "fs_Read g (sq_pos s) n = Inr (Status_OK, take n (drop (sq_pos s) (fs_contents g)), copied)"
    using fs_Read_spec(1) [OF g(2), of "sq_pos s" n] st(3) g(4,5) by auto
  then show "\<exists>f'. sf_Read MemSequentialFile n st = Inr (Status_OK, take n (seq_remaining st), f') \<and> seq_ok f' \<and> seq_remaining f' = drop n (seq_remaining st)"
    using st g by (auto simp: MemSequentialFile_def sq_Read_def Status_ok_def Status_OK_def seq_ok_def seq_remaining_def min_def add.commute)
  show "\<exists>f'. sf_Skip MemSequentialFile k st = Inr (Status_OK, f') \<and> seq_ok f' \<and> seq_remaining f' = drop (unat k) (seq_remaining st)"
    using st g by (auto simp: MemSequentialFile_def sq_Skip_def seq_ok_def seq_remaining_def Let_def add.commute)
qed

interpretation mem_random: random_file MemRandomAccessFile "\<lambda>(h, a). live h a" "\<lambda>(h, a). bytes_at h a"
proof
  fix f :: "file_heap \<times> nat" and offset :: u64 and n assume a: "case f of (h, a) \<Rightarrow> live h a" "unat offset \<le> length (case f of (h, a) \<Rightarrow> bytes_at h a)"
  then obtain h a where f: "f = (h, a)" "live h a" by (cases f) auto
  obtain g where g: "h a = Some g" "fs_inv g" "deref h a = Inr g" "bytes_at h a = fs_contents g" "fs_size g = length (fs_contents g)" by (rule liveE [OF f(2)])
  then show "\<exists>copied. rf_Read MemRandomAccessFile offset n f = Inr (Status_OK, take n (drop (unat offset) (case f of (h, a) \<Rightarrow> bytes_at h a)), copied)"
    using fs_Read_spec(1) [OF g(2), of "unat offset" n] f a(2) by (simp add: MemRandomAccessFile_def ra_Read_def)
qed


section \<open>The environment in memory: model\<close>

text \<open>\<open>std::map\<close> from names to objects, as the list of its pairs in the order of the names.\<close>

fun map_set :: "bytes \<Rightarrow> 'v \<Rightarrow> (bytes \<times> 'v) list \<Rightarrow> (bytes \<times> 'v) list" where
  "map_set k v [] = [(k, v)]"
| "map_set k v ((k', v') # m) =
     (if slice_compare k k' < 0 then (k, v) # (k', v') # m
      else if k = k' then (k, v) # m else (k', v') # map_set k v m)"

definition map_erase :: "bytes \<Rightarrow> (bytes \<times> 'v) list \<Rightarrow> (bytes \<times> 'v) list" where
  "map_erase k m = filter (\<lambda>(k', _). k' \<noteq> k) m"

record InMemoryEnv =
  me_heap :: file_heap
  me_next :: nat
  me_files :: "(bytes \<times> nat) list"

definition file_not_found :: "bytes \<Rightarrow> Status" where
  "file_not_found fname = IOError fname (bstr ''File not found'')"

definition me_NewSequentialFile :: "bytes \<Rightarrow> InMemoryEnv \<Rightarrow> (Status \<times> SequentialFileImpl option \<times> InMemoryEnv) res" where
  "me_NewSequentialFile fname E =
     (case map_of (me_files E) fname of
        None \<Rightarrow> Inr (file_not_found fname, None, E)
      | Some a \<Rightarrow> bindR (SequentialFileImpl_new a (me_heap E)) (\<lambda>(s, h). Inr (Status_OK, Some s, E\<lparr>me_heap := h\<rparr>)))"

definition me_NewRandomAccessFile :: "bytes \<Rightarrow> InMemoryEnv \<Rightarrow> (Status \<times> nat option \<times> InMemoryEnv) res" where
  "me_NewRandomAccessFile fname E =
     (case map_of (me_files E) fname of
        None \<Rightarrow> Inr (file_not_found fname, None, E)
      | Some a \<Rightarrow> bindR (fs_Ref a (me_heap E)) (\<lambda>h. Inr (Status_OK, Some a, E\<lparr>me_heap := h\<rparr>)))"

definition me_DeleteFileInternal :: "bytes \<Rightarrow> InMemoryEnv \<Rightarrow> InMemoryEnv res" where
  "me_DeleteFileInternal fname E =
     (case map_of (me_files E) fname of
        None \<Rightarrow> Inr E
      | Some a \<Rightarrow> bindR (fs_Unref a (me_heap E)) (\<lambda>h. Inr (E\<lparr>me_heap := h, me_files := map_erase fname (me_files E)\<rparr>)))"

definition me_NewWritableFile :: "bytes \<Rightarrow> InMemoryEnv \<Rightarrow> (Status \<times> nat \<times> InMemoryEnv) res" where
  "me_NewWritableFile fname E =
     bindR (if map_of (me_files E) fname \<noteq> None then me_DeleteFileInternal fname E else Inr E) (\<lambda>E.
     let a = me_next E; E = E\<lparr>me_heap := (me_heap E)(a \<mapsto> FileState_new), me_next := a + 1\<rparr> in
     bindR (fs_Ref a (me_heap E)) (\<lambda>h.
     let E = E\<lparr>me_heap := h, me_files := map_set fname a (me_files E)\<rparr> in
     bindR (fs_Ref a (me_heap E)) (\<lambda>h. Inr (Status_OK, a, E\<lparr>me_heap := h\<rparr>))))"

definition me_FileExists :: "bytes \<Rightarrow> InMemoryEnv \<Rightarrow> bool" where
  "me_FileExists fname E \<longleftrightarrow> map_of (me_files E) fname \<noteq> None"

definition me_GetChildren :: "bytes \<Rightarrow> InMemoryEnv \<Rightarrow> Status \<times> bytes list" where
  "me_GetChildren dir E =
     (Status_OK, map (drop (length dir + 1)) (filter (\<lambda>filename.
        length dir + 1 \<le> length filename \<and> filename ! length dir = 0x2F \<and> starts_with filename dir) (map fst (me_files E))))"

definition me_DeleteFile :: "bytes \<Rightarrow> InMemoryEnv \<Rightarrow> (Status \<times> InMemoryEnv) res" where
  "me_DeleteFile fname E =
     (if map_of (me_files E) fname = None then Inr (file_not_found fname, E)
      else bindR (me_DeleteFileInternal fname E) (\<lambda>E. Inr (Status_OK, E)))"

definition me_GetFileSize :: "bytes \<Rightarrow> InMemoryEnv \<Rightarrow> (Status \<times> nat option) res" where
  "me_GetFileSize fname E =
     (case map_of (me_files E) fname of
        None \<Rightarrow> Inr (file_not_found fname, None)
      | Some a \<Rightarrow> bindR (deref (me_heap E) a) (\<lambda>f. Inr (Status_OK, Some (fs_size f))))"

text \<open>The assignment in \<open>RenameFile\<close> reads \<open>file_map_[src]\<close>, which enters \<open>NULL\<close> when there is no such name any more.\<close>

definition me_RenameFile :: "bytes \<Rightarrow> bytes \<Rightarrow> InMemoryEnv \<Rightarrow> (Status \<times> InMemoryEnv) res" where
  "me_RenameFile src target E =
     (if map_of (me_files E) src = None then Inr (file_not_found src, E)
      else bindR (me_DeleteFileInternal target E) (\<lambda>E.
           let (a, files) = (case map_of (me_files E) src of
                 Some a \<Rightarrow> (a, me_files E) | None \<Rightarrow> (0, map_set src 0 (me_files E)));
               files = map_set target a files;
               files = map_erase src files in
           Inr (Status_OK, E\<lparr>me_files := files\<rparr>)))"

section \<open>The environment refines a map from names to bytes\<close>

definition me_abs :: "InMemoryEnv \<Rightarrow> bytes \<Rightarrow> bytes option" where
  "me_abs E fname = map_option (bytes_at (me_heap E)) (map_of (me_files E) fname)"

lemma map_of_map_set [simp]: "map_of (map_set k v m) = (map_of m)(k \<mapsto> v)"
  by (induction k v m rule: map_set.induct) auto

lemma map_of_map_erase [simp]: "map_of (map_erase k m) = (map_of m)(k := None)"
  by (induction m) (auto simp: map_erase_def)

lemma set_map_set_new: "map_of m k = None \<Longrightarrow> mset (map_set k v m) = add_mset (k, v) (mset m)"
  by (induction k v m rule: map_set.induct) (auto split: if_splits)


text \<open>
  The invariant: the number of references of an object is the number of names and of open files that refer to it. \<open>H\<close> is the list of
  the objects of the open files.
\<close>

definition refs_ok :: "file_heap \<Rightarrow> nat \<Rightarrow> nat multiset \<Rightarrow> bool" where
  "refs_ok h n A \<longleftrightarrow> 0 < n \<and> (\<forall>a \<in># A. h a \<noteq> None) \<and>
     (\<forall>a f. h a = Some f \<longrightarrow> 0 < a \<and> a < n \<and> fs_inv f \<and> a \<in># A \<and> fs_refs f = int (count A a))"

lemma refs_ok_live: "refs_ok h n A \<Longrightarrow> a \<in># A \<Longrightarrow> live h a"
  by (force simp: refs_ok_def live_def)

lemma refs_ok_Ref:
  assumes "refs_ok h n A" "a \<in># A" "count A a + 1 < 2 ^ 31"
  shows "\<exists>h'. fs_Ref a h = Inr h' \<and> refs_ok h' n (add_mset a A) \<and> bytes_at h' = bytes_at h"
proof -
  obtain f where f: "h a = Some f" "fs_inv f" "deref h a = Inr f" by (rule liveE [OF refs_ok_live [OF assms(1,2)]])
  have "fs_refs f = int (count A a)" using assms(1) f(1) by (simp add: refs_ok_def)
  then have r: "add_int (fs_refs f) 1 = Inr (fs_refs f + 1)" using assms(3) by simp
  have "bytes_at (h(a \<mapsto> f\<lparr>fs_refs := fs_refs f + 1\<rparr>)) = bytes_at h" using f(1) by (auto simp: bytes_at_def fs_contents_def)
  moreover have "refs_ok (h(a \<mapsto> f\<lparr>fs_refs := fs_refs f + 1\<rparr>)) n (add_mset a A)" using assms(1,2) f by (auto simp: refs_ok_def fs_inv_def)
  ultimately show ?thesis using f r by (simp add: fs_Ref_def)
qed

lemma refs_ok_Unref:
  assumes "refs_ok h n (add_mset a A)"
  shows "\<exists>h'. fs_Unref a h = Inr h' \<and> refs_ok h' n A \<and> (\<forall>b \<in># A. bytes_at h' b = bytes_at h b)"
proof -
  have "a \<in># add_mset a A" by simp
  then obtain f where f: "h a = Some f" "fs_inv f" "deref h a = Inr f" by (rule liveE [OF refs_ok_live [OF assms]])
  have refs: "fs_refs f = int (count A a) + 1" using assms f(1) by (simp add: refs_ok_def)
  let ?h = "if fs_refs f - 1 \<le> 0 then h(a := None) else h(a \<mapsto> f\<lparr>fs_refs := fs_refs f - 1\<rparr>)"
  have zero: "fs_refs f - 1 \<le> 0 \<longleftrightarrow> a \<notin># A" using refs by (simp add: not_in_iff)
  have "refs_ok ?h n A" using assms f refs zero by (auto simp: refs_ok_def fs_inv_def)
  moreover have "\<forall>b \<in># A. bytes_at ?h b = bytes_at h b" using f(1) zero by (auto simp: bytes_at_def fs_contents_def)
  moreover have "fs_Unref a h = Inr ?h" using f(3) refs by (simp add: fs_Unref_def Let_def)
  ultimately show ?thesis by blast
qed

lemma refs_ok_alloc:
  assumes "refs_ok h n A"
  shows "refs_ok (h(n \<mapsto> FileState_new\<lparr>fs_refs := 1\<rparr>)) (n + 1) (add_mset n A)" "n \<notin># A" "n \<noteq> 0"
proof -
  show n: "n \<notin># A" "n \<noteq> 0" using assms by (fastforce simp: refs_ok_def)+
  show "refs_ok (h(n \<mapsto> FileState_new\<lparr>fs_refs := 1\<rparr>)) (n + 1) (add_mset n A)"
    using assms n fs_inv_new(1) by (fastforce simp: refs_ok_def fs_inv_def not_in_iff)
qed

lemma erase_mset: "distinct (map fst m) \<Longrightarrow> map_of m k = Some v \<Longrightarrow> mset m = add_mset (k, v) (mset (map_erase k m))"
proof (induction m)
  case (Cons p m)
  then show ?case
  proof (cases "fst p = k")
    case True
    then have "map_erase k m = m" using Cons.prems(1) by (auto simp: map_erase_def filter_id_conv image_iff)
    then show ?thesis using True Cons.prems by (cases p) (auto simp: map_erase_def)
  next
    case False
    then have "map_erase k (p # m) = p # map_erase k m" by (cases p) (simp add: map_erase_def)
    then show ?thesis using Cons.IH Cons.prems False by (cases p) (simp add: add_mset_commute)
  qed
qed simp

definition names_ok :: "(bytes \<times> nat) list \<Rightarrow> bool" where
  "names_ok m \<longleftrightarrow> distinct (map fst m) \<and> distinct (map snd m)"

definition me_inv :: "InMemoryEnv \<Rightarrow> nat list \<Rightarrow> bool" where
  "me_inv E H \<longleftrightarrow> names_ok (me_files E) \<and> refs_ok (me_heap E) (me_next E) (mset (map snd (me_files E)) + mset H)"

lemma me_inv_live: "me_inv E H \<Longrightarrow> a \<in> set H \<Longrightarrow> live (me_heap E) a" "me_inv E H \<Longrightarrow> map_of (me_files E) f = Some a \<Longrightarrow> live (me_heap E) a"
  by (auto simp: me_inv_def dest!: map_of_SomeD intro!: refs_ok_live) force

lemma names_ok_erase: "names_ok m \<Longrightarrow> names_ok (map_erase k m)"
  by (simp add: names_ok_def map_erase_def distinct_map_filter)

lemma names_ok_mset:
  assumes "mset m = mset m'"
  shows "names_ok m = names_ok m'" "mset (map snd m) = mset (map snd m')"
proof -
  have mf: "mset (map fst m) = mset (map fst m')" and ms: "mset (map snd m) = mset (map snd m')" by (simp_all only: mset_map assms)
  show "names_ok m = names_ok m'" using mset_eq_imp_distinct_iff [OF mf] mset_eq_imp_distinct_iff [OF ms] by (simp add: names_ok_def)
  show "mset (map snd m) = mset (map snd m')" by (rule ms)
qed

lemma names_ok_set:
  assumes "names_ok m" "map_of m k = None" "v \<notin> snd ` set m"
  shows "names_ok (map_set k v m)" "mset (map snd (map_set k v m)) = add_mset v (mset (map snd m))"
proof -
  have m: "mset (map_set k v m) = mset ((k, v) # m)" using set_map_set_new [OF assms(2)] by simp
  have "k \<notin> fst ` set m" using assms(2) by (simp add: map_of_eq_None_iff)
  then show "names_ok (map_set k v m)" using names_ok_mset(1) [OF m] assms(1,3) by (simp add: names_ok_def)
  show "mset (map snd (map_set k v m)) = add_mset v (mset (map snd m))" using names_ok_mset(2) [OF m] by simp
qed

lemma bytes_at_alloc: "bytes_at (h(n \<mapsto> FileState_new\<lparr>fs_refs := 1\<rparr>)) = (bytes_at h)(n := [])"
  by (auto simp: bytes_at_def FileState_new_def fs_contents_def)

lemma names_not_shared:
  assumes "names_ok m" "map_of m f = Some a" "map_of m g = Some a"
  shows "f = g"
  using assms eq_key_imp_eq_value [of m] by (metis (no_types, lifting) distinct_map inj_onD map_of_SomeD names_ok_def prod.inject snd_conv)

text \<open>Each operation on names.\<close>

lemma me_DeleteFileInternal_spec:
  assumes "me_inv E H"
  shows "\<exists>E'. me_DeleteFileInternal f E = Inr E' \<and> me_inv E' H \<and> me_abs E' = (me_abs E)(f := None) \<and> (\<forall>a \<in> set H. bytes_at (me_heap E') a = bytes_at (me_heap E) a)
     \<and> me_files E' = map_erase f (me_files E)"
proof (cases "map_of (me_files E) f")
  case None
  then have "map_erase f (me_files E) = me_files E" by (force simp: map_erase_def filter_id_conv map_of_eq_None_iff)
  then show ?thesis using assms None by (auto simp: me_DeleteFileInternal_def me_abs_def)
next
  case (Some a)
  have n: "names_ok (me_files E)" using assms by (simp add: me_inv_def)
  let ?A = "mset (map snd (map_erase f (me_files E))) + mset H"
  have "mset (map snd (me_files E)) + mset H = add_mset a ?A"
    using erase_mset [OF _ Some] n by (simp add: names_ok_def)
  then obtain h where h: "fs_Unref a (me_heap E) = Inr h" "refs_ok h (me_next E) ?A" "\<forall>b \<in># ?A. bytes_at h b = bytes_at (me_heap E) b"
    using refs_ok_Unref [of "me_heap E" "me_next E" a ?A] assms by (auto simp: me_inv_def)
  let ?E = "E\<lparr>me_heap := h, me_files := map_erase f (me_files E)\<rparr>"
  have "me_abs ?E = (me_abs E)(f := None)"
  proof
    fix g
    show "me_abs ?E g = ((me_abs E)(f := None)) g"
    proof (cases "g = f \<or> map_of (me_files E) g = None")
      case False
      then obtain b where b: "map_of (me_files E) g = Some b" "map_of (map_erase f (me_files E)) g = Some b" by auto
      have "b \<in> snd ` set (map_erase f (me_files E))" using map_of_SomeD [OF b(2)] by force
      then have "b \<in># ?A" by simp
      then show ?thesis using b h(3) False by (simp add: me_abs_def)
    qed (auto simp: me_abs_def)
  qed
  then show ?thesis using h n names_ok_erase Some by (simp add: me_DeleteFileInternal_def me_inv_def)
qed

lemma me_NewWritableFile_spec:
  assumes "me_inv E H"
  shows "\<exists>a E'. me_NewWritableFile f E = Inr (Status_OK, a, E') \<and> me_inv E' (a # H) \<and> me_abs E' = (me_abs E)(f \<mapsto> []) \<and> map_of (me_files E') f = Some a
     \<and> (\<forall>b \<in> set H. bytes_at (me_heap E') b = bytes_at (me_heap E) b)"
proof -
  obtain E1 where E1: "(if map_of (me_files E) f \<noteq> None then me_DeleteFileInternal f E else Inr E) = Inr E1" "me_inv E1 H" "map_of (me_files E1) f = None"
      "me_abs E1 = (me_abs E)(f := None)" "\<forall>b \<in> set H. bytes_at (me_heap E1) b = bytes_at (me_heap E) b"
  proof (cases "map_of (me_files E) f")
    case None
    then have "me_abs E = (me_abs E)(f := None)" by (auto simp: me_abs_def fun_eq_iff)
    then show ?thesis using that [of E] assms None by simp
  next
    case (Some a)
    then show ?thesis using me_DeleteFileInternal_spec [OF assms, of f] that by auto
  qed
  let ?a = "me_next E1" and ?A = "mset (map snd (me_files E1)) + mset H"
  let ?h = "(me_heap E1)(?a \<mapsto> FileState_new\<lparr>fs_refs := 1\<rparr>)"
  have r: "refs_ok (me_heap E1) ?a ?A" "names_ok (me_files E1)" using E1(2) by (simp_all add: me_inv_def)
  note al = refs_ok_alloc [OF r(1)]
  have new: "?a \<notin> snd ` set (me_files E1)" "?a \<notin> set H" using al(2) by auto
  have ref: "fs_Ref ?a ((me_heap E1)(?a \<mapsto> FileState_new)) = Inr ?h" using al(3) by (simp add: fs_Ref_def deref_def FileState_new_def)
  have "count ?A ?a = 0" using al(2) by (simp only: not_in_iff)
  then have c: "count (add_mset ?a ?A) ?a + 1 < 2 ^ 31" by (simp del: count_union)
  obtain h where h: "fs_Ref ?a ?h = Inr h" "refs_ok h (?a + 1) (add_mset ?a (add_mset ?a ?A))" "bytes_at h = bytes_at ?h"
    using refs_ok_Ref [OF al(1) _ c] by auto
  let ?E = "E1\<lparr>me_heap := h, me_next := ?a + 1, me_files := map_set f ?a (me_files E1)\<rparr>"
  have "me_NewWritableFile f E = Inr (Status_OK, ?a, ?E)"
    unfolding me_NewWritableFile_def E1(1) using ref h(1) by (simp add: Let_def)
  moreover have "me_inv ?E (?a # H)" using h(2) names_ok_set [OF r(2) E1(3) new(1)] by (simp add: me_inv_def)
  moreover have "me_abs ?E = (me_abs E)(f \<mapsto> [])"
  proof
    fix g
    have "me_abs E1 g = me_abs E g" if "g \<noteq> f" using E1(4) that by simp
    moreover have "b \<noteq> ?a" if "map_of (me_files E1) g = Some b" for b using new(1) map_of_SomeD [OF that] by force
    ultimately show "me_abs ?E g = ((me_abs E)(f \<mapsto> [])) g"
      by (cases "g = f"; cases "map_of (me_files E1) g") (simp_all add: me_abs_def h(3) bytes_at_alloc)
  qed
  moreover have "\<forall>b \<in> set H. bytes_at h b = bytes_at (me_heap E) b" using E1(5) new(2) by (simp add: h(3) bytes_at_alloc)
  ultimately show ?thesis by (intro exI [of _ ?a] exI [of _ ?E]) simp
qed

lemma me_DeleteFile_spec:
  assumes "me_inv E H"
  shows "\<exists>E'. me_DeleteFile f E = Inr (if me_abs E f = None then file_not_found f else Status_OK, E') \<and> me_inv E' H \<and> me_abs E' = (me_abs E)(f := None)"
  using me_DeleteFileInternal_spec [OF assms, of f] assms
  by (cases "map_of (me_files E) f") (auto simp: me_DeleteFile_def me_abs_def)

lemma me_RenameFile_spec:
  assumes "me_inv E H" "src \<noteq> target"
  shows "\<exists>E'. me_RenameFile src target E = Inr (if me_abs E src = None then file_not_found src else Status_OK, E') \<and> me_inv E' H
     \<and> me_abs E' = (if me_abs E src = None then me_abs E else (me_abs E)(src := None, target := me_abs E src))"
proof (cases "map_of (me_files E) src")
  case None
  then show ?thesis using assms by (auto simp: me_RenameFile_def me_abs_def)
next
  case (Some a)
  obtain E1 where E1: "me_DeleteFileInternal target E = Inr E1" "me_inv E1 H" "me_abs E1 = (me_abs E)(target := None)" "me_files E1 = map_erase target (me_files E)"
    using me_DeleteFileInternal_spec [OF assms(1), of target] by blast
  have n: "names_ok (me_files E1)" using E1(2) by (simp add: me_inv_def)
  have m: "map_of (me_files E1) src = Some a" "map_of (me_files E1) target = None" using Some assms(2) E1(4) by simp_all
  let ?m = "map_erase src (map_set target a (me_files E1))"
  have me: "mset ?m = mset ((target, a) # map_erase src (me_files E1))"
    using set_map_set_new [OF m(2), of a] assms(2) by (simp add: map_erase_def)
  have er: "mset (me_files E1) = mset ((src, a) # map_erase src (me_files E1))" using erase_mset [OF _ m(1)] n by (simp add: names_ok_def)
  have "target \<notin> fst ` set (map_erase src (me_files E1))" using m(2) by (auto simp: map_of_eq_None_iff map_erase_def)
  then have names: "names_ok ?m" "mset (map snd ?m) = mset (map snd (me_files E1))"
    using names_ok_mset [OF me] names_ok_mset [OF er] n by (simp_all add: names_ok_def)
  have "me_RenameFile src target E = Inr (Status_OK, E1\<lparr>me_files := ?m\<rparr>)" using Some E1(1) m(1) by (simp add: me_RenameFile_def)
  moreover have "me_inv (E1\<lparr>me_files := ?m\<rparr>) H" using names E1(2) by (simp add: me_inv_def)
  moreover have "me_abs (E1\<lparr>me_files := ?m\<rparr>) = (me_abs E)(src := None, target := me_abs E src)"
  proof -
    have "me_abs E src = Some (bytes_at (me_heap E1) a)" using E1(3) assms(2) m(1) by (metis fun_upd_other me_abs_def option.map(2))
    moreover have "me_abs (E1\<lparr>me_files := ?m\<rparr>) = (me_abs E1)(src := None, target \<mapsto> bytes_at (me_heap E1) a)"
      using assms(2) by (auto simp: me_abs_def fun_eq_iff)
    ultimately show ?thesis using E1(3) assms(2) by (auto simp: fun_eq_iff)
  qed
  moreover have "me_abs E src \<noteq> None" using Some by (simp add: me_abs_def)
  ultimately show ?thesis by (intro exI [of _ "E1\<lparr>me_files := ?m\<rparr>"]) auto
qed

text \<open>A file that is renamed to its own name is lost.\<close>

lemma erase_set [simp]: "map_erase k (map_set k v m) = map_erase k m"
  by (induction k v m rule: map_set.induct) (auto simp: map_erase_def)

lemma erase_erase [simp]: "map_erase k (map_erase k m) = map_erase k m"
  by (simp add: map_erase_def)

lemma me_RenameFile_self:
  assumes "me_inv E H" "me_abs E f \<noteq> None"
  shows "\<exists>E'. me_RenameFile f f E = Inr (Status_OK, E') \<and> me_inv E' H \<and> me_abs E' = (me_abs E)(f := None)"
proof -
  obtain E1 where E1: "me_DeleteFileInternal f E = Inr E1" "me_inv E1 H" "me_abs E1 = (me_abs E)(f := None)" "me_files E1 = map_erase f (me_files E)"
    using me_DeleteFileInternal_spec [OF assms(1), of f] by blast
  then have "me_RenameFile f f E = Inr (Status_OK, E1\<lparr>me_files := map_erase f (me_files E)\<rparr>)"
    using assms(2) by (auto simp: me_RenameFile_def me_abs_def)
  moreover have "E1\<lparr>me_files := map_erase f (me_files E)\<rparr> = E1" using E1(4) by (cases E1) simp
  ultimately show ?thesis using E1(2,3) by auto
qed

lemma me_RenameFile_cases:
  assumes "me_inv E H"
  shows "\<exists>E'. me_RenameFile src target E = Inr (if me_abs E src = None then file_not_found src else Status_OK, E') \<and> me_inv E' H
     \<and> me_abs E' = (if me_abs E src = None then me_abs E else if src = target then (me_abs E)(src := None)
          else (me_abs E)(src := None, target := me_abs E src))"
proof (cases "src = target \<and> me_abs E src \<noteq> None")
  case True
  then show ?thesis using me_RenameFile_self [OF assms, of src] by auto
next
  case False
  show ?thesis
  proof (cases "me_abs E src")
    case None
    then show ?thesis using assms by (auto simp: me_RenameFile_def me_abs_def)
  next
    case (Some d)
    then show ?thesis using False me_RenameFile_spec [OF assms, of src target] by auto
  qed
qed

text \<open>A name has one object, so that an object has at most one reference more than it is opened.\<close>

lemma me_refs_bound:
  assumes "me_inv E H" shows "count (mset (map snd (me_files E)) + mset H) a \<le> length H + 1"
proof -
  have "distinct (map snd (me_files E))" using assms by (simp add: me_inv_def names_ok_def)
  then have "count (mset (map snd (me_files E))) a \<le> 1" unfolding distinct_count_atmost_1 by (metis order_refl zero_le_one)
  moreover have "count (mset H) a \<le> length H" using count_le_length [of H a] by (simp add: count_mset)
  ultimately show ?thesis by simp
qed

lemma me_New_read_spec:
  assumes "me_inv E H" and small: "length H + 2 < 2 ^ 31"
  shows "me_abs E f = None \<Longrightarrow> me_NewSequentialFile f E = Inr (file_not_found f, None, E) \<and> me_NewRandomAccessFile f E = Inr (file_not_found f, None, E)"
    and "me_abs E f = Some d \<Longrightarrow> \<exists>a E'. me_NewSequentialFile f E = Inr (Status_OK, Some \<lparr>sq_file = a, sq_pos = 0\<rparr>, E')
         \<and> me_NewRandomAccessFile f E = Inr (Status_OK, Some a, E') \<and> me_inv E' (a # H) \<and> me_abs E' = me_abs E \<and> bytes_at (me_heap E') a = d"
proof -
  show "me_NewSequentialFile f E = Inr (file_not_found f, None, E) \<and> me_NewRandomAccessFile f E = Inr (file_not_found f, None, E)" if "me_abs E f = None"
    using that by (simp add: me_abs_def me_NewSequentialFile_def me_NewRandomAccessFile_def)
  assume "me_abs E f = Some d"
  then obtain a where a: "map_of (me_files E) f = Some a" "bytes_at (me_heap E) a = d" by (auto simp: me_abs_def)
  have "count (mset (map snd (me_files E)) + mset H) a + 1 < 2 ^ 31" using me_refs_bound [OF assms(1), of a] small by linarith
  moreover have "a \<in> snd ` set (me_files E)" using map_of_SomeD [OF a(1)] by force
  ultimately obtain h where h: "fs_Ref a (me_heap E) = Inr h" "refs_ok h (me_next E) (add_mset a (mset (map snd (me_files E)) + mset H))" "bytes_at h = bytes_at (me_heap E)"
    using refs_ok_Ref [of "me_heap E" "me_next E" "mset (map snd (me_files E)) + mset H" a] assms(1) by (auto simp: me_inv_def)
  have "me_inv (E\<lparr>me_heap := h\<rparr>) (a # H)" using h(2) assms(1) by (simp add: me_inv_def)
  moreover have "me_abs (E\<lparr>me_heap := h\<rparr>) = me_abs E" by (simp add: me_abs_def h(3) fun_eq_iff)
  ultimately show "\<exists>a E'. me_NewSequentialFile f E = Inr (Status_OK, Some \<lparr>sq_file = a, sq_pos = 0\<rparr>, E')
         \<and> me_NewRandomAccessFile f E = Inr (Status_OK, Some a, E') \<and> me_inv E' (a # H) \<and> me_abs E' = me_abs E \<and> bytes_at (me_heap E') a = d"
    using a h(1,3) by (intro exI [of _ a] exI [of _ "E\<lparr>me_heap := h\<rparr>"]) (simp add: me_NewSequentialFile_def me_NewRandomAccessFile_def SequentialFileImpl_new_def)
qed


section \<open>Runs of the environment\<close>

text \<open>
  Operations by name and through open files, which are numbered in the order they were opened, the last one first. A number with no
  open file changes nothing.
\<close>

datatype EnvOp =
  Op_NewWritableFile bytes | Op_NewSequentialFile bytes | Op_NewRandomAccessFile bytes | Op_DeleteFile bytes | Op_RenameFile bytes bytes
| Op_Append nat bytes | Op_Close nat

definition drop_nth :: "nat \<Rightarrow> 'a list \<Rightarrow> 'a list" where
  "drop_nth i xs = take i xs @ drop (Suc i) xs"

definition me_step :: "(nat \<Rightarrow> nat \<Rightarrow> byte) \<Rightarrow> EnvOp \<Rightarrow> InMemoryEnv \<times> nat list \<Rightarrow> (InMemoryEnv \<times> nat list) res" where
  "me_step unset op = (\<lambda>(E, H).
     case op of
       Op_NewWritableFile f \<Rightarrow> bindR (me_NewWritableFile f E) (\<lambda>(_, a, E). Inr (E, a # H))
     | Op_NewSequentialFile f \<Rightarrow> bindR (me_NewSequentialFile f E) (\<lambda>(_, s, E). Inr (E, case s of None \<Rightarrow> H | Some s \<Rightarrow> sq_file s # H))
     | Op_NewRandomAccessFile f \<Rightarrow> bindR (me_NewRandomAccessFile f E) (\<lambda>(_, a, E). Inr (E, case a of None \<Rightarrow> H | Some a \<Rightarrow> a # H))
     | Op_DeleteFile f \<Rightarrow> bindR (me_DeleteFile f E) (\<lambda>(_, E). Inr (E, H))
     | Op_RenameFile f g \<Rightarrow> bindR (me_RenameFile f g E) (\<lambda>(_, E). Inr (E, H))
     | Op_Append i d \<Rightarrow>
         if i < length H then bindR (wr_Append unset d (me_heap E, H ! i)) (\<lambda>(_, h, _). Inr (E\<lparr>me_heap := h\<rparr>, H)) else Inr (E, H)
     | Op_Close i \<Rightarrow>
         if i < length H then bindR (fs_Unref (H ! i) (me_heap E)) (\<lambda>h. Inr (E\<lparr>me_heap := h\<rparr>, drop_nth i H)) else Inr (E, H))"

fun me_run :: "(nat \<Rightarrow> nat \<Rightarrow> byte) \<Rightarrow> EnvOp list \<Rightarrow> InMemoryEnv \<times> nat list \<Rightarrow> (InMemoryEnv \<times> nat list) res" where
  "me_run unset [] st = Inr st"
| "me_run unset (op # ops) st = bindR (me_step unset op st) (me_run unset ops)"

definition InMemoryEnv_new :: InMemoryEnv where
  "InMemoryEnv_new = \<lparr>me_heap = (\<lambda>_. None), me_next = 1, me_files = []\<rparr>"

lemma me_inv_new: "me_inv InMemoryEnv_new []"
  by (simp add: me_inv_def names_ok_def refs_ok_def InMemoryEnv_new_def)

lemma mset_drop_nth: "i < length xs \<Longrightarrow> mset xs = add_mset (xs ! i) (mset (drop_nth i xs))"
  unfolding drop_nth_def by (metis id_take_nth_drop mset.simps(2) mset_append union_mset_add_mset_right)

lemma Append_spec:
  assumes "me_inv E H" "a \<in> set H"
  shows "\<exists>h. wr_Append unset d (me_heap E, a) = Inr (Status_OK, h, a) \<and> me_inv (E\<lparr>me_heap := h\<rparr>) H \<and> bytes_at h = (bytes_at (me_heap E))(a := bytes_at (me_heap E) a @ d)"
proof -
  obtain f where f: "me_heap E a = Some f" "fs_inv f" "deref (me_heap E) a = Inr f" "bytes_at (me_heap E) a = fs_contents f" by (rule liveE [OF me_inv_live(1) [OF assms]])
  obtain f' where f': "fs_Append_loop unset d f = Inr f'" "fs_inv f'" "fs_contents f' = fs_contents f @ d" "fs_refs f' = fs_refs f"
    using fs_Append_loop_spec [OF f(2)] by blast
  have "refs_ok ((me_heap E)(a \<mapsto> f')) (me_next E) A" if "refs_ok (me_heap E) (me_next E) A" for A
    using that f(1) f'(2,4) by (auto simp: refs_ok_def)
  then have "me_inv (E\<lparr>me_heap := (me_heap E)(a \<mapsto> f')\<rparr>) H" using assms(1) by (simp add: me_inv_def)
  moreover have "bytes_at ((me_heap E)(a \<mapsto> f')) = (bytes_at (me_heap E))(a := bytes_at (me_heap E) a @ d)"
    using f(4) f'(3) by (auto simp: bytes_at_def fun_eq_iff)
  moreover have "wr_Append unset d (me_heap E, a) = Inr (Status_OK, (me_heap E)(a \<mapsto> f'), a)" using f(3) f'(1) by (simp add: wr_Append_def fs_Append_def)
  ultimately show ?thesis by blast
qed

lemma Close_spec:
  assumes "me_inv E H" "i < length H"
  shows "\<exists>h. fs_Unref (H ! i) (me_heap E) = Inr h \<and> me_inv (E\<lparr>me_heap := h\<rparr>) (drop_nth i H) \<and> me_abs (E\<lparr>me_heap := h\<rparr>) = me_abs E"
proof -
  let ?A = "mset (map snd (me_files E)) + mset (drop_nth i H)"
  have "refs_ok (me_heap E) (me_next E) (add_mset (H ! i) ?A)" using assms mset_drop_nth [OF assms(2)] by (simp add: me_inv_def)
  then obtain h where h: "fs_Unref (H ! i) (me_heap E) = Inr h" "refs_ok h (me_next E) ?A" "\<forall>b \<in># ?A. bytes_at h b = bytes_at (me_heap E) b"
    using refs_ok_Unref by blast
  have "me_abs (E\<lparr>me_heap := h\<rparr>) g = me_abs E g" for g
  proof (cases "map_of (me_files E) g")
    case (Some b)
    have "b \<in> snd ` set (me_files E)" using map_of_SomeD [OF Some] by force
    then show ?thesis using h(3) Some by (simp add: me_abs_def)
  qed (simp add: me_abs_def)
  then show ?thesis using h(1,2) assms(1) by (auto simp: me_inv_def)
qed

lemma length_drop_nth: "length (drop_nth i xs) \<le> length xs"
  by (simp add: drop_nth_def)

lemma me_step_inv:
  assumes "me_inv E H" and small: "length H + 2 < 2 ^ 31"
  shows "\<exists>E' H'. me_step unset op (E, H) = Inr (E', H') \<and> me_inv E' H' \<and> length H' \<le> length H + 1"
proof (cases op)
  case (Op_NewWritableFile f)
  then show ?thesis using me_NewWritableFile_spec [OF assms(1), of f] by (auto simp: me_step_def)
next
  case (Op_NewSequentialFile f)
  then show ?thesis using me_New_read_spec [OF assms, of f] assms(1) by (cases "me_abs E f") (auto simp: me_step_def)
next
  case (Op_NewRandomAccessFile f)
  then show ?thesis using me_New_read_spec [OF assms, of f] assms(1) by (cases "me_abs E f") (auto simp: me_step_def)
next
  case (Op_DeleteFile f)
  then show ?thesis using me_DeleteFile_spec [OF assms(1), of f] by (auto simp: me_step_def)
next
  case (Op_RenameFile f g)
  then show ?thesis using me_RenameFile_cases [OF assms(1), of f g] by (auto simp: me_step_def)
next
  case (Op_Append i d)
  then show ?thesis using Append_spec [OF assms(1), of "H ! i" unset d] assms(1) by (auto simp: me_step_def)
next
  case (Op_Close i)
  then show ?thesis using Close_spec [OF assms(1), of i] assms(1) length_drop_nth [of i H] by (auto simp: me_step_def)
qed

lemma me_run_inv: "me_inv E H \<Longrightarrow> length H + length ops + 1 < 2 ^ 31 \<Longrightarrow> \<exists>E' H'. me_run unset ops (E, H) = Inr (E', H') \<and> me_inv E' H'"
proof (induction ops arbitrary: E H)
  case (Cons op ops)
  have "length H + 2 < 2 ^ 31" using Cons.prems(2) by simp
  then obtain E' H' where s: "me_step unset op (E, H) = Inr (E', H')" "me_inv E' H'" "length H' \<le> length H + 1"
    using me_step_inv [OF Cons.prems(1)] by blast
  then show ?case using Cons.IH [OF s(2)] Cons.prems(2) by simp
qed simp

lemma me_queries:
  assumes "me_inv E H"
  shows "me_FileExists f E \<longleftrightarrow> me_abs E f \<noteq> None"
    and "me_GetFileSize f E = Inr (case me_abs E f of None \<Rightarrow> (file_not_found f, None) | Some d \<Rightarrow> (Status_OK, Some (length d)))"
    and "set (snd (me_GetChildren dir E)) = {n. me_abs E (dir @ 0x2F # n) \<noteq> None}"
proof -
  show "me_FileExists f E \<longleftrightarrow> me_abs E f \<noteq> None" by (simp add: me_FileExists_def me_abs_def)
  show "me_GetFileSize f E = Inr (case me_abs E f of None \<Rightarrow> (file_not_found f, None) | Some d \<Rightarrow> (Status_OK, Some (length d)))"
  proof (cases "map_of (me_files E) f")
    case (Some a)
    obtain g where "deref (me_heap E) a = Inr g" "bytes_at (me_heap E) a = fs_contents g" "fs_size g = length (fs_contents g)"
      by (rule liveE [OF me_inv_live(2) [OF assms Some]])
    then show ?thesis using Some by (simp add: me_GetFileSize_def me_abs_def)
  qed (simp add: me_GetFileSize_def me_abs_def)
  have child: "(length dir + 1 \<le> length n \<and> n ! length dir = 0x2F \<and> starts_with n dir) \<longleftrightarrow> (\<exists>m. n = dir @ 0x2F # m)" for n
  proof
    assume a: "length dir + 1 \<le> length n \<and> n ! length dir = 0x2F \<and> starts_with n dir"
    then obtain t where "n = dir @ t" by (auto simp: starts_with_prefix)
    then show "\<exists>m. n = dir @ 0x2F # m" using a by (cases t) auto
  qed (auto simp: starts_with_prefix nth_append)
  have "n \<in> set (snd (me_GetChildren dir E)) \<longleftrightarrow> dir @ 0x2F # n \<in> fst ` set (me_files E)" for n
    unfolding me_GetChildren_def child by force
  then show "set (snd (me_GetChildren dir E)) = {n. me_abs E (dir @ 0x2F # n) \<noteq> None}"
    by (auto simp: me_abs_def map_of_eq_None_iff)
qed

text \<open>The destructor of the environment gives up the reference of every name; files that are still open stay.\<close>

fun unref_files :: "(bytes \<times> nat) list \<Rightarrow> file_heap \<Rightarrow> file_heap res" where
  "unref_files [] h = Inr h"
| "unref_files ((_, a) # m) h = bindR (fs_Unref a h) (unref_files m)"

definition InMemoryEnv_delete :: "InMemoryEnv \<Rightarrow> file_heap res" where
  "InMemoryEnv_delete E = unref_files (me_files E) (me_heap E)"

lemma unref_files_spec: "refs_ok h n (mset (map snd m) + A) \<Longrightarrow> \<exists>h'. unref_files m h = Inr h' \<and> refs_ok h' n A \<and> (\<forall>b \<in># A. bytes_at h' b = bytes_at h b)"
proof (induction m arbitrary: h)
  case (Cons x m)
  obtain f a where x: "x = (f, a)" by (cases x)
  have "refs_ok h n (add_mset a (mset (map snd m) + A))" using Cons.prems x by simp
  then obtain h1 where h1: "fs_Unref a h = Inr h1" "refs_ok h1 n (mset (map snd m) + A)" "\<forall>b \<in># mset (map snd m) + A. bytes_at h1 b = bytes_at h b"
    using refs_ok_Unref by blast
  then show ?case using Cons.IH [OF h1(2)] x by auto
qed simp

lemma InMemoryEnv_delete_spec:
  assumes "me_inv E H"
  shows "\<exists>h. InMemoryEnv_delete E = Inr h \<and> (\<forall>a. h a \<noteq> None \<longleftrightarrow> a \<in> set H) \<and> (\<forall>a \<in> set H. bytes_at h a = bytes_at (me_heap E) a)"
proof -
  obtain h where h: "unref_files (me_files E) (me_heap E) = Inr h" "refs_ok h (me_next E) (mset H)" "\<forall>b \<in># mset H. bytes_at h b = bytes_at (me_heap E) b"
    using assms unref_files_spec [of "me_heap E" "me_next E" "me_files E" "mset H"] by (auto simp: me_inv_def)
  then have "h a \<noteq> None \<longleftrightarrow> a \<in> set H" for a by (auto simp: refs_ok_def)
  then show ?thesis using h by (auto simp: InMemoryEnv_delete_def)
qed

end
