(* ===== verification/Ldb_Log.thy ===== *)
theory Ldb_Log
  imports Ldb_Env
begin

text \<open>
  The log: \<^verbatim>\<open>db/log_format.h\<close>, \<open>log::Writer\<close> (\<^verbatim>\<open>db/log_writer.cc\<close>) and \<open>log::Reader\<close> (\<^verbatim>\<open>db/log_reader.cc\<close>) over the files of
  \<^verbatim>\<open>Ldb_Env\<close>. The layout of a log as frames in blocks of 32768 bytes; inside \<open>writable_file\<close> the writer produces it, inside
  \<open>sequential_file\<close> the reader returns the records of it, of a cut-off log exactly the records that are complete, and of an arbitrary
  file the reader returns after finitely many steps.
\<close>

section \<open>Log format\<close>

definition kZeroType :: u32 where "kZeroType = 0"
definition kFullType :: u32 where "kFullType = 1"
definition kFirstType :: u32 where "kFirstType = 2"
definition kMiddleType :: u32 where "kMiddleType = 3"
definition kLastType :: u32 where "kLastType = 4"
definition kMaxRecordType :: nat where "kMaxRecordType = 4"
definition kEof :: u32 where "kEof = of_nat kMaxRecordType + 1"
definition kBadRecord :: u32 where "kBadRecord = of_nat kMaxRecordType + 2"

definition log_kBlockSize :: int where "log_kBlockSize = 32768"
definition log_kHeaderSize :: int where "log_kHeaderSize = 4 + 1 + 2"

lemmas log_types = kZeroType_def kFullType_def kFirstType_def kMiddleType_def kLastType_def kEof_def kBadRecord_def kMaxRecordType_def

section \<open>Writing a log: model\<close>

text \<open>The file is written through \<open>W\<close>, its state is passed along. The checksum does not depend on the address of the bytes.\<close>

record Writer =
  w_block_offset :: int
  w_type_crc :: "u32 list"

definition Writer_new :: Writer where
  "Writer_new = \<lparr>w_block_offset = 0, w_type_crc = map (\<lambda>i. crc_Value [of_nat i]) [0..<kMaxRecordType + 1]\<rparr>"

definition EmitPhysicalRecord :: "'f WritableFile \<Rightarrow> u32 \<Rightarrow> bytes \<Rightarrow> Writer \<Rightarrow> 'f \<Rightarrow> (Status \<times> Writer \<times> 'f) res" where
  "EmitPhysicalRecord W t data w f =
     (let n = length data in
      bindR (assertR (n \<le> 0xffff)) (\<lambda>_.
      bindR (assertR (w_block_offset w + log_kHeaderSize + int n \<le> log_kBlockSize)) (\<lambda>_.
      bindR (nth_res (w_type_crc w) (int (unat t))) (\<lambda>type_crc.
      bindR (crc_Extend 0 type_crc data) (\<lambda>crc.
      let crc = crc_Mask crc;
          buf = EncodeFixed32 crc @ [of_nat n AND 0xff, of_nat (drop_bit 8 n), ucast t] in
      bindR (wf_Append W buf f) (\<lambda>(s, f).
      bindR (if Status_ok s
             then bindR (wf_Append W data f) (\<lambda>(s, f). if Status_ok s then wf_Flush W f else Inr (s, f))
             else Inr (s, f)) (\<lambda>(s, f).
      Inr (s, w\<lparr>w_block_offset := w_block_offset w + log_kHeaderSize + int n\<rparr>, f))))))))"

function AddRecord_loop :: "'f WritableFile \<Rightarrow> bool \<Rightarrow> bytes \<Rightarrow> Writer \<Rightarrow> 'f \<Rightarrow> (Status \<times> Writer \<times> 'f) res" where
  "AddRecord_loop W begin ptr w f =
     (let leftover = log_kBlockSize - w_block_offset w in
      bindR (assertR (0 \<le> leftover)) (\<lambda>_.
      bindR (if leftover < log_kHeaderSize
             then bindR (if 0 < leftover then bindR (wf_Append W (replicate (nat leftover) 0) f) (\<lambda>(_, f). Inr f) else Inr f) (\<lambda>f.
                  Inr (w\<lparr>w_block_offset := 0\<rparr>, f))
             else Inr (w, f)) (\<lambda>(w, f).
      bindR (assertR (0 \<le> log_kBlockSize - w_block_offset w - log_kHeaderSize)) (\<lambda>_.
      let avail = nat (log_kBlockSize - w_block_offset w - log_kHeaderSize);
          fragment_length = (if length ptr < avail then length ptr else avail);
          end' = (length ptr = fragment_length);
          type = (if begin \<and> end' then kFullType else if begin then kFirstType else if end' then kLastType else kMiddleType) in
      bindR (EmitPhysicalRecord W type (take fragment_length ptr) w f) (\<lambda>(s, w, f).
      if Status_ok s \<and> length ptr - fragment_length > 0
      then AddRecord_loop W False (drop fragment_length ptr) w f
      else Inr (s, w, f))))))"
  by pat_completeness auto
termination
  by (relation "measure (\<lambda>(W, begin, ptr, w, f). 2 * length ptr + (if w_block_offset w = log_kBlockSize - log_kHeaderSize then 1 else 0))")
    (auto simp: EmitPhysicalRecord_def log_kBlockSize_def log_kHeaderSize_def bindR_eq_Inr Let_def split: if_splits prod.splits)

declare AddRecord_loop.simps [simp del]

definition AddRecord :: "'f WritableFile \<Rightarrow> slice \<Rightarrow> Writer \<Rightarrow> 'f \<Rightarrow> (Status \<times> Writer \<times> 'f) res" where
  "AddRecord W data w f = AddRecord_loop W True data w f"

section \<open>Reading a log: model\<close>

text \<open>\<open>rd_reports\<close> collects the calls of the reporter; \<open>rd_reporter\<close> tells whether there is one.\<close>

record 'f Reader =
  rd_file :: 'f
  rd_reporter :: bool
  rd_reports :: "(u64 \<times> Status) list"
  rd_checksum :: bool
  rd_buffer :: bytes
  rd_eof :: bool
  rd_last_record_offset :: u64
  rd_end_of_buffer_offset :: u64
  rd_initial_offset :: u64

definition Reader_new :: "'f \<Rightarrow> bool \<Rightarrow> bool \<Rightarrow> u64 \<Rightarrow> 'f Reader" where
  "Reader_new file reporter checksum initial_offset =
     \<lparr>rd_file = file, rd_reporter = reporter, rd_reports = [], rd_checksum = checksum, rd_buffer = [], rd_eof = False,
      rd_last_record_offset = 0, rd_end_of_buffer_offset = 0, rd_initial_offset = initial_offset\<rparr>"

definition buffer_start :: "'f Reader \<Rightarrow> u64" where
  "buffer_start r = rd_end_of_buffer_offset r - of_nat (length (rd_buffer r))"

definition ReportDrop :: "u64 \<Rightarrow> Status \<Rightarrow> 'f Reader \<Rightarrow> 'f Reader" where
  "ReportDrop bytes reason r =
     (if rd_reporter r \<and> rd_initial_offset r \<le> buffer_start r - bytes
      then r\<lparr>rd_reports := rd_reports r @ [(bytes, reason)]\<rparr> else r)"

definition ReportCorruption :: "nat \<Rightarrow> bytes \<Rightarrow> 'f Reader \<Rightarrow> 'f Reader" where
  "ReportCorruption bytes reason r = ReportDrop (of_nat bytes) (Corruption reason []) r"

definition SkipToInitialBlock :: "'f SequentialFile \<Rightarrow> 'f Reader \<Rightarrow> (bool \<times> 'f Reader) res" where
  "SkipToInitialBlock S r =
     (let offset_in_block = rd_initial_offset r mod 32768;
          block_start_location = rd_initial_offset r - offset_in_block;
          block_start_location = (if 32768 - 6 < offset_in_block then block_start_location + 32768 else block_start_location);
          r = r\<lparr>rd_end_of_buffer_offset := block_start_location\<rparr> in
      if 0 < block_start_location
      then bindR (sf_Skip S block_start_location (rd_file r)) (\<lambda>(skip_status, f).
           let r = r\<lparr>rd_file := f\<rparr> in
           if \<not> Status_ok skip_status then Inr (False, ReportDrop block_start_location skip_status r) else Inr (True, r))
      else Inr (True, r))"

definition header_length :: "bytes \<Rightarrow> nat" where
  "header_length header =
     (let a = ucast (header ! 4) AND (0xff :: u32);
          b = ucast (header ! 5) AND (0xff :: u32) in
      unat (a OR push_bit 8 b))"

function ReadPhysicalRecord :: "'f SequentialFile \<Rightarrow> 'f Reader \<Rightarrow> (u32 \<times> slice \<times> 'f Reader) res" where
  "ReadPhysicalRecord S r =
     (if length (rd_buffer r) < 7
      then if \<not> rd_eof r
           then bindR (sf_Read S 32768 (rd_file r)) (\<lambda>(status, buffer, f).
                let r = r\<lparr>rd_file := f, rd_buffer := buffer, rd_end_of_buffer_offset := rd_end_of_buffer_offset r + of_nat (length buffer)\<rparr> in
                if \<not> Status_ok status
                then Inr (kEof, [], (ReportDrop 32768 status (r\<lparr>rd_buffer := []\<rparr>))\<lparr>rd_eof := True\<rparr>)
                else ReadPhysicalRecord S (if length buffer < 32768 then r\<lparr>rd_eof := True\<rparr> else r))
           else if rd_buffer r = [] then Inr (kEof, [], r)
           else Inr (kEof, [], ReportCorruption (length (rd_buffer r)) (bstr ''truncated record at end of file'') (r\<lparr>rd_buffer := []\<rparr>))
      else let header = rd_buffer r;
               type = (scast (header ! 6) :: u32);
               len = header_length header in
           if length (rd_buffer r) < 7 + len
           then Inr (kBadRecord, [], ReportCorruption (length (rd_buffer r)) (bstr ''bad record length'') (r\<lparr>rd_buffer := []\<rparr>))
           else if type = kZeroType \<and> len = 0 then Inr (kBadRecord, [], r\<lparr>rd_buffer := []\<rparr>)
           else bindR (if rd_checksum r
                       then bindR (DecodeFixed32 header) (\<lambda>crc. Inr (crc_Value (take (1 + len) (drop 6 header)) = crc_Unmask crc))
                       else Inr True) (\<lambda>good.
                if \<not> good
                then Inr (kBadRecord, [], ReportCorruption (length (rd_buffer r)) (bstr ''checksum mismatch'') (r\<lparr>rd_buffer := []\<rparr>))
                else let r = r\<lparr>rd_buffer := drop (7 + len) (rd_buffer r)\<rparr> in
                     if buffer_start r - 7 - of_nat len < rd_initial_offset r then Inr (kBadRecord, [], r)
                     else Inr (type, take len (drop 7 header), r)))"
  by pat_completeness auto
termination
  by (relation "measure (\<lambda>(S, r). (if rd_eof r then 0 else 1) + (if length (rd_buffer r) < 7 then 1 else 0))") (auto simp: Let_def)

declare ReadPhysicalRecord.simps [simp del]

definition unknown_type :: "u32 \<Rightarrow> bytes" where
  "unknown_type t = bstr ''unknown record type '' @ NumberToString (ucast t)"

text \<open>The loop of \<open>ReadRecord\<close>; \<open>None\<close> when it does not end. The result has the record, or \<open>None\<close> at the end of the input.\<close>

partial_function (option) ReadRecord_loop ::
  "'f SequentialFile \<Rightarrow> bool \<Rightarrow> u64 \<Rightarrow> bytes \<Rightarrow> 'f Reader \<Rightarrow> (slice option \<times> 'f Reader) res option" where
  "ReadRecord_loop S in_fragmented_record prospective_record_offset scratch r =
     (let physical_record_offset = buffer_start r in
      case ReadPhysicalRecord S r of
        Inl e \<Rightarrow> Some (Inl e)
      | Inr (record_type, fragment, r) \<Rightarrow>
          if record_type = kFullType
          then let r = (if in_fragmented_record \<and> scratch \<noteq> [] then ReportCorruption (length scratch) (bstr ''partial record without end(1)'') r else r) in
               Some (Inr (Some fragment, r\<lparr>rd_last_record_offset := physical_record_offset\<rparr>))
          else if record_type = kFirstType
          then let r = (if in_fragmented_record \<and> scratch \<noteq> [] then ReportCorruption (length scratch) (bstr ''partial record without end(2)'') r else r) in
               ReadRecord_loop S True physical_record_offset fragment r
          else if record_type = kMiddleType
          then if \<not> in_fragmented_record
               then ReadRecord_loop S in_fragmented_record prospective_record_offset scratch
                      (ReportCorruption (length fragment) (bstr ''missing start of fragmented record(1)'') r)
               else ReadRecord_loop S in_fragmented_record prospective_record_offset (scratch @ fragment) r
          else if record_type = kLastType
          then if \<not> in_fragmented_record
               then ReadRecord_loop S in_fragmented_record prospective_record_offset scratch
                      (ReportCorruption (length fragment) (bstr ''missing start of fragmented record(2)'') r)
               else Some (Inr (Some (scratch @ fragment), r\<lparr>rd_last_record_offset := prospective_record_offset\<rparr>))
          else if record_type = kEof
          then Some (Inr (None, if in_fragmented_record then ReportCorruption (length scratch) (bstr ''partial record without end(3)'') r else r))
          else if record_type = kBadRecord
          then if in_fragmented_record
               then ReadRecord_loop S False prospective_record_offset []
                      (ReportCorruption (length scratch) (bstr ''error in middle of record'') r)
               else ReadRecord_loop S in_fragmented_record prospective_record_offset scratch r
          else ReadRecord_loop S False prospective_record_offset []
                 (ReportCorruption (length fragment + (if in_fragmented_record then length scratch else 0)) (unknown_type record_type) r))"

definition ReadRecord :: "'f SequentialFile \<Rightarrow> 'f Reader \<Rightarrow> (slice option \<times> 'f Reader) res option" where
  "ReadRecord S r =
     (case (if rd_last_record_offset r < rd_initial_offset r then SkipToInitialBlock S r else Inr (True, r)) of
        Inl e \<Rightarrow> Some (Inl e)
      | Inr (skipped, r) \<Rightarrow> if \<not> skipped then Some (Inr (None, r)) else ReadRecord_loop S False 0 [] r)"

definition LastRecordOffset :: "'f Reader \<Rightarrow> u64" where
  "LastRecordOffset r = rd_last_record_offset r"


section \<open>The layout of a log\<close>

text \<open>
  A physical record is a frame with its type and its bytes. Frames are at an offset of their block; where fewer bytes than a header are
  left, zeros fill the block and the frame starts the next one. Offset 32768 is the end of a block.
\<close>

type_synonym frame = "u32 \<times> bytes"

definition pad :: "nat \<Rightarrow> bytes" where
  "pad off = (if 32768 - off < 7 then replicate (32768 - off) 0 else [])"

definition start :: "nat \<Rightarrow> nat" where
  "start off = (if 32768 - off < 7 then 0 else off)"

definition phys :: "frame \<Rightarrow> bytes" where
  "phys = (\<lambda>(t, d). EncodeFixed32 (crc_Mask (crc_ref 0 (ucast t # d))) @ [of_nat (length d) AND 0xff, of_nat (drop_bit 8 (length d)), ucast t] @ d)"

fun frames_bytes :: "nat \<Rightarrow> frame list \<Rightarrow> bytes" where
  "frames_bytes off [] = []"
| "frames_bytes off (x # xs) = pad off @ phys x @ frames_bytes (start off + 7 + length (snd x)) xs"

fun frames_end :: "nat \<Rightarrow> frame list \<Rightarrow> nat" where
  "frames_end off [] = off"
| "frames_end off (x # xs) = frames_end (start off + 7 + length (snd x)) xs"

text \<open>The frames of one record.\<close>

function fragments :: "bool \<Rightarrow> nat \<Rightarrow> bytes \<Rightarrow> frame list" where
  "fragments begin off d =
     (let avail = 32761 - start off in
      if length d \<le> avail then [(if begin then kFullType else kLastType, d)]
      else (if begin then kFirstType else kMiddleType, take avail d) # fragments False 32768 (drop avail d))"
  by pat_completeness auto
termination
  by (relation "measure (\<lambda>(begin, off, d). 2 * length d + (if off = 32768 then 0 else 1))")
    (auto simp: start_def split: if_splits)

declare fragments.simps [simp del]

fun log_bytes :: "nat \<Rightarrow> bytes list \<Rightarrow> bytes" where
  "log_bytes off [] = []"
| "log_bytes off (d # ds) = frames_bytes off (fragments True off d) @ log_bytes (frames_end off (fragments True off d)) ds"

fun log_end :: "nat \<Rightarrow> bytes list \<Rightarrow> nat" where
  "log_end off [] = off"
| "log_end off (d # ds) = log_end (frames_end off (fragments True off d)) ds"

lemma start_le: "off \<le> 32768 \<Longrightarrow> start off \<le> 32761"
  by (auto simp: start_def)

lemma start_end [simp]: "start 32768 = 0" "pad 32768 = []" "start 0 = 0" "pad 0 = []"
  by (simp_all add: start_def pad_def)

lemma fragments_long:
  "32761 - start off < length d \<Longrightarrow>
   fragments b off d = (if b then kFirstType else kMiddleType, take (32761 - start off) d) # fragments False 32768 (drop (32761 - start off) d)"
  by (subst fragments.simps) (simp add: Let_def)

lemma full_block: "off \<le> 32768 \<Longrightarrow> start off + 7 + (32761 - start off) = 32768"
  using start_le [of off] by simp

lemma fragments_short: "length d \<le> 32761 - start off \<Longrightarrow> fragments b off d = [(if b then kFullType else kLastType, d)]"
  by (subst fragments.simps) simp

lemma frames_end_fragments: "off \<le> 32768 \<Longrightarrow> frames_end off (fragments b off d) \<le> 32768"
proof (induction b off d rule: fragments.induct)
  case (1 b off d)
  show ?case
  proof (cases "length d \<le> 32761 - start off")
    case True
    then show ?thesis using start_le [OF "1.prems"] by (simp add: fragments_short)
  next
    case False
    then show ?thesis using "1.IH" [OF refl False] by (simp add: fragments_long full_block [OF "1.prems"])
  qed
qed

lemma frames_bytes_fragments_nonempty: "frames_bytes off (fragments b off d) \<noteq> []"
  by (subst fragments.simps) (simp add: Let_def phys_def EncodeFixed32_def)

section \<open>The writer writes this layout\<close>

definition type_crcs :: "u32 list" where
  "type_crcs = map (\<lambda>i. crc_Value [of_nat i]) [0..<kMaxRecordType + 1]"

lemma type_crcs_nth: "unat t \<le> 4 \<Longrightarrow> nth_res type_crcs (int (unat t)) = Inr (crc_ref 0 [ucast t])"
proof -
  assume "unat t \<le> 4"
  then have lt: "unat t < length [0..<kMaxRecordType + 1]" by (simp add: kMaxRecordType_def)
  then have "type_crcs ! unat t = crc_Value [of_nat ([0..<kMaxRecordType + 1] ! unat t)]" unfolding type_crcs_def by (rule nth_map)
  then have "type_crcs ! unat t = crc_ref 0 [ucast t]" using lt by (simp add: crc_Value_ref del: upt_Suc)
  moreover have "unat t < length type_crcs" using lt by (simp add: type_crcs_def)
  ultimately show ?thesis by (simp only: nth_res_Inr)
qed

context writable_file
begin

lemma EmitPhysicalRecord_spec:
  assumes "ok f" "w_block_offset w = int off" "w_type_crc w = type_crcs" "off + 7 + length d \<le> 32768" "unat t \<le> 4"
  shows "\<exists>f'. EmitPhysicalRecord W t d w f = Inr (Status_OK, w\<lparr>w_block_offset := int (off + 7 + length d)\<rparr>, f') \<and> ok f' \<and> contents f' = contents f @ phys (t, d)"
proof -
  let ?h = "EncodeFixed32 (crc_Mask (crc_ref 0 (ucast t # d))) @ [of_nat (length d) AND 0xff, of_nat (drop_bit 8 (length d)), ucast t]"
  obtain f1 where 1: "wf_Append W ?h f = Inr (Status_OK, f1)" "ok f1" "contents f1 = contents f @ ?h" using append_file [OF assms(1)] by blast
  obtain f2 where 2: "wf_Append W d f1 = Inr (Status_OK, f2)" "ok f2" "contents f2 = contents f1 @ d" using append_file [OF 1(2)] by blast
  obtain f3 where 3: "wf_Flush W f2 = Inr (Status_OK, f3)" "ok f3" "contents f3 = contents f2" using flush_file [OF 2(2)] by blast
  have crc: "crc_Extend 0 (crc_ref 0 [ucast t]) d = Inr (crc_ref 0 (ucast t # d))" using crc_ref_append [of 0 "[ucast t]" d] by (simp add: crc_Extend_ref)
  have ok: "Status_ok Status_OK" by (simp add: Status_ok_def Status_OK_def)
  have "EmitPhysicalRecord W t d w f = Inr (Status_OK, w\<lparr>w_block_offset := int (off + 7 + length d)\<rparr>, f3)"
    unfolding EmitPhysicalRecord_def Let_def using assms type_crcs_nth [OF assms(5)] crc 1(1) 2(1) 3(1) ok
    by (simp add: log_kHeaderSize_def log_kBlockSize_def)
  then show ?thesis using 1 2 3 by (simp add: phys_def)
qed

lemma AddRecord_loop_spec:
  assumes "ok f" "w_block_offset w = int off" "w_type_crc w = type_crcs" "off \<le> 32768"
  shows "\<exists>w' f'. AddRecord_loop W b d w f = Inr (Status_OK, w', f') \<and> ok f' \<and> contents f' = contents f @ frames_bytes off (fragments b off d)
     \<and> w_block_offset w' = int (frames_end off (fragments b off d)) \<and> w_type_crc w' = type_crcs"
  using assms
proof (induction b off d arbitrary: w f rule: fragments.induct)
  case (1 b off d)
  let ?s = "start off" and ?w = "w\<lparr>w_block_offset := int (start off)\<rparr>"
  let ?avail = "32761 - start off"
  define n where "n = (if length d < ?avail then length d else ?avail)"
  define t where "t = (if b \<and> length d = n then kFullType else if b then kFirstType else if length d = n then kLastType else kMiddleType)"
  have s: "?s \<le> 32761" by (rule start_le [OF "1.prems"(4)])
  obtain f1 where f1: "(if log_kBlockSize - w_block_offset w < log_kHeaderSize
             then bindR (if 0 < log_kBlockSize - w_block_offset w then bindR (wf_Append W (replicate (nat (log_kBlockSize - w_block_offset w)) 0) f) (\<lambda>(_, f). Inr f) else Inr f) (\<lambda>f.
                  Inr (w\<lparr>w_block_offset := 0\<rparr>, f))
             else Inr (w, f)) = Inr (?w, f1)" "ok f1" "contents f1 = contents f @ pad off"
  proof (cases "32768 - off < 7")
    case True
    have nat: "nat (log_kBlockSize - w_block_offset w) = 32768 - off" "log_kBlockSize - w_block_offset w < log_kHeaderSize"
        "0 < log_kBlockSize - w_block_offset w \<longleftrightarrow> off \<noteq> 32768"
      using True "1.prems"(2,4) by (auto simp: log_kBlockSize_def log_kHeaderSize_def)
    have sp: "start off = 0" "pad off = replicate (32768 - off) 0" using True by (simp_all add: start_def pad_def)
    obtain g where g: "wf_Append W (replicate (32768 - off) 0) f = Inr (Status_OK, g)" "ok g" "contents g = contents f @ replicate (32768 - off) 0"
      using append_file [OF "1.prems"(1)] by blast
    show ?thesis
    proof (cases "off = 32768")
      case end': True
      then show ?thesis using that [of f] "1.prems"(1) nat by (simp only: nat sp if_True if_False bindR_Inr) simp
    next
      case False
      then show ?thesis using that [of g] g nat by (simp only: nat sp if_True if_False bindR_Inr prod.case) simp
    qed
  next
    case False
    then have c: "\<not> log_kBlockSize - w_block_offset w < log_kHeaderSize" "start off = off" "pad off = []"
      using "1.prems"(2) by (auto simp: log_kBlockSize_def log_kHeaderSize_def start_def pad_def)
    have "w\<lparr>w_block_offset := int off\<rparr> = w" using "1.prems"(2) by (cases w) simp
    then show ?thesis using "1.prems"(1) that [of f] by (simp only: c if_False) simp
  qed
  have t: "unat t \<le> 4" by (simp add: t_def log_types)
  have bound: "?s + 7 + length (take n d) \<le> 32768" using s by (auto simp: n_def)
  obtain f2 where f2: "EmitPhysicalRecord W t (take n d) ?w f1 = Inr (Status_OK, ?w\<lparr>w_block_offset := int (?s + 7 + length (take n d))\<rparr>, f2)" "ok f2"
      "contents f2 = contents f1 @ phys (t, take n d)"
    using EmitPhysicalRecord_spec [OF f1(2), of ?w ?s "take n d" t] t bound "1.prems"(3) by auto
  have av: "nat (log_kBlockSize - int ?s - log_kHeaderSize) = ?avail" "0 \<le> log_kBlockSize - int ?s - log_kHeaderSize"
    using s by (simp_all add: log_kBlockSize_def log_kHeaderSize_def)
  have lo: "0 \<le> log_kBlockSize - w_block_offset w" using "1.prems"(2,4) by (simp add: log_kBlockSize_def)
  have ok: "Status_ok Status_OK" by (simp add: Status_ok_def Status_OK_def)
  let ?w2 = "?w\<lparr>w_block_offset := int (?s + 7 + length (take n d))\<rparr>"
  have step: "AddRecord_loop W b d w f = (if length d - n > 0 then AddRecord_loop W False (drop n d) ?w2 f2 else Inr (Status_OK, ?w2, f2))"
  proof -
    have a: "assertR (0 \<le> log_kBlockSize - w_block_offset w) = Inr ()" "assertR (0 \<le> log_kBlockSize - int ?s - log_kHeaderSize) = Inr ()" using lo av(2) by simp_all
    have sel: "w_block_offset ?w = int ?s" by simp
    show ?thesis
      by (subst AddRecord_loop.simps) (simp only: Let_def a f1(1) bindR_Inr prod.case sel av n_def [symmetric] t_def [symmetric] f2(1) ok simp_thms assertR_True)
  qed
  show ?case
  proof (cases "length d \<le> ?avail")
    case True
    then have "n = length d" "t = (if b then kFullType else kLastType)" by (auto simp: n_def t_def)
    then show ?thesis using step f2 f1(3) "1.prems"(3) True by (simp add: fragments_short)
  next
    case False
    then have n: "n = ?avail" "t = (if b then kFirstType else kMiddleType)" by (auto simp: n_def t_def)
    have e: "?s + 7 + length (take ?avail d) = 32768" using False by (simp add: full_block [OF "1.prems"(4)])
    have "\<exists>w' f'. AddRecord_loop W False (drop ?avail d) ?w2 f2 = Inr (Status_OK, w', f') \<and> ok f' \<and> contents f' = contents f2 @ frames_bytes 32768 (fragments False 32768 (drop ?avail d))
       \<and> w_block_offset w' = int (frames_end 32768 (fragments False 32768 (drop ?avail d))) \<and> w_type_crc w' = type_crcs"
      using f2(2) "1.prems"(3) e by (intro "1.IH" [OF refl False]) (simp_all add: n del: length_take)
    then show ?thesis using step False f2(3) f1(3) fragments_long [of off d b] by (simp add: n e del: length_take)
  qed
qed

lemma AddRecord_spec:
  assumes "ok f" "w_block_offset w = int off" "w_type_crc w = type_crcs" "off \<le> 32768"
  shows "\<exists>w' f'. AddRecord W d w f = Inr (Status_OK, w', f') \<and> ok f' \<and> contents f' = contents f @ log_bytes off [d]
     \<and> w_block_offset w' = int (log_end off [d]) \<and> w_type_crc w' = type_crcs"
  using AddRecord_loop_spec [OF assms, of True d] by (simp add: AddRecord_def)

end


section \<open>The reader reads this layout\<close>

lemma length_bytes:
  assumes "n < 65536"
  shows "unat (ucast (of_nat n AND 0xff :: byte) AND (0xff :: u32) OR push_bit 8 (ucast (of_nat (drop_bit 8 n) :: byte) AND (0xff :: u32))) = n"
proof -
  have small: "\<not> bit n i" if "16 \<le> i" for i
  proof -
    have "n < 2 ^ i" using assms power_increasing [OF that, of "2 :: nat"] by simp
    then show ?thesis by (simp add: bit_iff_odd)
  qed
  have m: "(0xff :: u32) = mask 8" "(0xff :: byte) = mask 8" by (simp_all add: mask_eq_exp_minus_1)
  have "ucast (of_nat n AND 0xff :: byte) AND (0xff :: u32) OR push_bit 8 (ucast (of_nat (drop_bit 8 n) :: byte) AND (0xff :: u32)) = of_nat n"
  proof (rule bit_word_eqI)
    fix i assume "i < LENGTH(32)"
    then show "bit (ucast (of_nat n AND 0xff :: byte) AND (0xff :: u32) OR push_bit 8 (ucast (of_nat (drop_bit 8 n) :: byte) AND (0xff :: u32))) i = bit (of_nat n :: u32) i"
      using small [of i] unfolding m by (cases "i < 8"; cases "i < 16") (auto simp: bit_simps)
  qed
  then show ?thesis using assms by (simp add: unat_of_nat)
qed

lemma phys_length [simp]: "length (phys (t, d)) = 7 + length d"
  by (simp add: phys_def EncodeFixed32_def)

lemma phys_parts:
  fixes t :: u32
  shows "take 4 (phys (t, d)) = EncodeFixed32 (crc_Mask (crc_ref 0 (ucast t # d)))" "phys (t, d) ! 4 = of_nat (length d) AND 0xff"
    "phys (t, d) ! 5 = of_nat (drop_bit 8 (length d))" "phys (t, d) ! 6 = ucast t" "drop 6 (phys (t, d)) = ucast t # d" "drop 7 (phys (t, d)) = d"
proof -
  have l: "length (EncodeFixed32 x) = 4" for x by (simp add: EncodeFixed32_def)
  show "take 4 (phys (t, d)) = EncodeFixed32 (crc_Mask (crc_ref 0 (ucast t # d)))" "phys (t, d) ! 4 = of_nat (length d) AND 0xff"
    "phys (t, d) ! 5 = of_nat (drop_bit 8 (length d))" "phys (t, d) ! 6 = ucast t" "drop 6 (phys (t, d)) = ucast t # d" "drop 7 (phys (t, d)) = d"
    by (simp_all add: phys_def nth_append l)
qed

text \<open>A whole frame at the start of the buffer, and the first bytes of one.\<close>

lemma small_type:
  fixes t :: u32
  assumes "t \<in> {kFullType, kFirstType, kMiddleType, kLastType}"
  shows "(scast (ucast t :: byte) :: u32) = t" "t \<noteq> kZeroType" "t \<noteq> kEof" "t \<noteq> kBadRecord"
proof -
  have "t = 1 \<or> t = 2 \<or> t = 3 \<or> t = 4" using assms by (auto simp: log_types)
  then show "(scast (ucast t :: byte) :: u32) = t" by (elim disjE) simp_all
  show "t \<noteq> kZeroType" "t \<noteq> kEof" "t \<noteq> kBadRecord" using assms by (auto simp: log_types)
qed

lemma parse_frame:
  assumes "rd_buffer r = phys (t, d) @ rest" "length d < 65536" "t \<in> {kFullType, kFirstType, kMiddleType, kLastType}" "rd_initial_offset r = 0"
  shows "ReadPhysicalRecord S r = Inr (t, d, r\<lparr>rd_buffer := rest\<rparr>)"
proof -
  let ?b = "rd_buffer r"
  have nth: "?b ! 4 = of_nat (length d) AND 0xff" "?b ! 5 = of_nat (drop_bit 8 (length d))" "?b ! 6 = ucast t"
    using phys_parts(2-4) [of t d] by (simp_all add: assms(1) nth_append)
  have len: "header_length ?b = length d" unfolding header_length_def Let_def nth by (rule length_bytes [OF assms(2)])
  have dr: "drop 6 ?b = (ucast t # d) @ rest" "drop 7 ?b = d @ rest" "length ?b = 7 + length d + length rest"
    using phys_parts(5,6) [of t d] by (simp_all add: assms(1))
  have "?b = EncodeFixed32 (crc_Mask (crc_ref 0 (ucast t # d))) @ drop 4 (phys (t, d)) @ rest"
    using phys_parts(1) [of t d] append_take_drop_id [of 4 "phys (t, d)"] by (simp add: assms(1))
  then have crc: "DecodeFixed32 ?b = Inr (crc_Mask (crc_ref 0 (ucast t # d)))" by (metis Decode_Encode32)
  have dn: "drop (7 + length d) ?b = rest" by (simp add: assms(1))
  show ?thesis
    by (subst ReadPhysicalRecord.simps)
      (simp add: Let_def nth len small_type [OF assms(3)] dr crc crc_Value_ref dn assms(4))
qed

lemma parse_cut_frame:
  assumes "rd_buffer r = take k (phys (t, d))" "k < 7 + length d" "7 \<le> k" "length d < 65536"
  shows "ReadPhysicalRecord S r = Inr (kBadRecord, [], ReportCorruption k (bstr ''bad record length'') (r\<lparr>rd_buffer := []\<rparr>))"
proof -
  let ?b = "rd_buffer r"
  have nth: "?b ! 4 = of_nat (length d) AND 0xff" "?b ! 5 = of_nat (drop_bit 8 (length d))"
    using phys_parts(2-4) [of t d] assms(2,3) by (simp_all add: assms(1))
  have len: "header_length ?b = length d" unfolding header_length_def Let_def nth by (rule length_bytes [OF assms(4)])
  have "length ?b = k" using assms(1,2) by simp
  then show ?thesis using assms(2,3)
    by (subst ReadPhysicalRecord.simps) (simp add: Let_def len)
qed

lemma ReportDrop_simps [simp]:
  "rd_buffer (ReportDrop n s r) = rd_buffer r" "rd_eof (ReportDrop n s r) = rd_eof r" "rd_file (ReportDrop n s r) = rd_file r"
  "rd_initial_offset (ReportDrop n s r) = rd_initial_offset r" "rd_checksum (ReportDrop n s r) = rd_checksum r"
  by (simp_all add: ReportDrop_def)

lemma ReportCorruption_simps [simp]:
  "rd_buffer (ReportCorruption n s r) = rd_buffer r" "rd_eof (ReportCorruption n s r) = rd_eof r" "rd_file (ReportCorruption n s r) = rd_file r"
  "rd_initial_offset (ReportCorruption n s r) = rd_initial_offset r" "rd_checksum (ReportCorruption n s r) = rd_checksum r"
  by (simp_all add: ReportCorruption_def)

text \<open>A read of a physical record that finds the end of the input, or a bad record with nothing behind it.\<close>

definition ends :: "'f SequentialFile \<Rightarrow> 'f Reader \<Rightarrow> bool" where
  "ends S r \<longleftrightarrow> (\<exists>r'. ReadPhysicalRecord S r = Inr (kEof, [], r') \<or>
     ReadPhysicalRecord S r = Inr (kBadRecord, [], r') \<and> rd_eof r' \<and> rd_buffer r' = [])"

lemma ends_at_eof: "rd_eof r \<Longrightarrow> length (rd_buffer r) < 7 \<Longrightarrow> \<exists>r'. ReadPhysicalRecord S r = Inr (kEof, [], r')"
  by (subst ReadPhysicalRecord.simps) simp

lemma ends_cut_frame:
  assumes "rd_eof r" "rd_buffer r = take k (phys (t, d))" "k < 7 + length d" "length d < 65536"
  shows "ends S r"
proof (cases "k < 7")
  case True
  then show ?thesis using ends_at_eof [of r S] assms(1,2) by (auto simp: ends_def)
next
  case False
  then have "ReadPhysicalRecord S r = Inr (kBadRecord, [], ReportCorruption k (bstr ''bad record length'') (r\<lparr>rd_buffer := []\<rparr>))"
    by (intro parse_cut_frame [OF assms(2,3) _ assms(4)]) simp
  moreover have "rd_eof (ReportCorruption k (bstr ''bad record length'') (r\<lparr>rd_buffer := []\<rparr>))" using assms(1) by simp
  moreover have "rd_buffer (ReportCorruption k (bstr ''bad record length'') (r\<lparr>rd_buffer := []\<rparr>)) = []" by simp
  ultimately show ?thesis unfolding ends_def by blast
qed

lemma loop_at_eof:
  assumes "ReadPhysicalRecord S r = Inr (kEof, [], r')"
  shows "\<exists>r'. ReadRecord_loop S b po sc r = Some (Inr (None, r'))"
  using assms by (subst ReadRecord_loop.simps) (simp add: log_types)

lemma loop_ends:
  assumes "ends S r"
  shows "\<exists>r'. ReadRecord_loop S b po sc r = Some (Inr (None, r'))"
proof -
  obtain r' where "ReadPhysicalRecord S r = Inr (kEof, [], r') \<or> ReadPhysicalRecord S r = Inr (kBadRecord, [], r') \<and> rd_eof r' \<and> rd_buffer r' = []"
    using assms by (auto simp: ends_def)
  then show ?thesis
  proof (elim disjE conjE)
    assume bad: "ReadPhysicalRecord S r = Inr (kBadRecord, [], r')" "rd_eof r'" "rd_buffer r' = []"
    have l: "\<exists>r''. ReadRecord_loop S b' po' sc' (ReportCorruption n m r') = Some (Inr (None, r''))"
      "\<exists>r''. ReadRecord_loop S b' po' sc' r' = Some (Inr (None, r''))" for b' po' sc' n m
      using ends_at_eof [of "ReportCorruption n m r'" S] ends_at_eof [of r' S] bad(2,3) loop_at_eof by (metis ReportCorruption_simps(1,2) list.size(3) zero_less_numeral)+
    show ?thesis using bad(1) l by (subst ReadRecord_loop.simps) (simp add: log_types)
  qed (rule loop_at_eof)
qed


section \<open>Reading back what was written\<close>

text \<open>The reader is at position \<open>p\<close> of the file \<open>F\<close>, which is at offset \<open>off\<close> of its block; the buffer has the rest of the block.\<close>

definition rd_at :: "('f \<Rightarrow> bool) \<Rightarrow> ('f \<Rightarrow> bytes) \<Rightarrow> bytes \<Rightarrow> nat \<Rightarrow> nat \<Rightarrow> 'f Reader \<Rightarrow> bool" where
  "rd_at ok remaining F off p r \<longleftrightarrow> off \<le> 32768 \<and> p \<le> length F \<and> ok (rd_file r) \<and> rd_buffer r = take (32768 - off) (drop p F) \<and>
     remaining (rd_file r) = drop (p + (32768 - off)) F \<and> (rd_eof r \<longleftrightarrow> length F < p + (32768 - off)) \<and> rd_initial_offset r = 0"

definition frame_fits :: "nat \<Rightarrow> frame \<Rightarrow> bool" where
  "frame_fits off = (\<lambda>(t, d). start off + 7 + length d \<le> 32768 \<and> t \<in> {kFullType, kFirstType, kMiddleType, kLastType})"

lemma pad_start: "off \<le> 32768 \<Longrightarrow> length (pad off) = (if 32768 - off < 7 then 32768 - off else 0)"
  by (simp add: pad_def)

lemma rd_at_report: "rd_at ok remaining F off p (ReportCorruption n s r) = rd_at ok remaining F off p r"
  by (simp add: rd_at_def)

lemma drop_front: "drop p F = a @ b \<Longrightarrow> drop (p + length a) F = b"
  by (metis add.commute append_eq_conv_conj drop_drop)

text \<open>The next \<open>n\<close> records, which must be there.\<close>

fun read_records :: "'f SequentialFile \<Rightarrow> nat \<Rightarrow> 'f Reader \<Rightarrow> (bytes list \<times> 'f Reader) res option" where
  "read_records S 0 r = Some (Inr ([], r))"
| "read_records S (Suc n) r =
     (case ReadRecord S r of
        Some (Inr (Some d, r)) \<Rightarrow>
          (case read_records S n r of Some (Inr (ds, r)) \<Rightarrow> Some (Inr (d # ds, r)) | x \<Rightarrow> x)
      | Some (Inr (None, r)) \<Rightarrow> Some (Inl Assert_failed)
      | Some (Inl e) \<Rightarrow> Some (Inl e)
      | None \<Rightarrow> None)"

context sequential_file
begin

text \<open>At the end of a block the next one is read.\<close>

lemma refill:
  assumes "rd_at ok remaining F off p r" "32768 - off < 7" "p + (32768 - off) \<le> length F"
  shows "\<exists>r'. ReadPhysicalRecord S r = ReadPhysicalRecord S r' \<and> rd_at ok remaining F 0 (p + (32768 - off)) r' \<and> rd_reports r' = rd_reports r"
proof -
  have r: "ok (rd_file r)" "remaining (rd_file r) = drop (p + (32768 - off)) F" "\<not> rd_eof r" "length (rd_buffer r) < 7" "rd_initial_offset r = 0"
    using assms by (auto simp: rd_at_def)
  obtain f where f: "sf_Read S 32768 (rd_file r) = Inr (Status_OK, take 32768 (remaining (rd_file r)), f)" "ok f" "remaining f = drop 32768 (remaining (rd_file r))"
    using read_next [OF r(1)] by blast
  let ?b = "take 32768 (remaining (rd_file r))"
  let ?r = "r\<lparr>rd_file := f, rd_buffer := ?b, rd_end_of_buffer_offset := rd_end_of_buffer_offset r + of_nat (length ?b)\<rparr>"
  let ?r' = "if length ?b < 32768 then ?r\<lparr>rd_eof := True\<rparr> else ?r"
  have "ReadPhysicalRecord S r = ReadPhysicalRecord S ?r'"
    by (subst ReadPhysicalRecord.simps) (simp only: r(3,4) f(1) if_True bindR_Inr prod.case Let_def Status_ok_def Status_OK_def not_True_eq_False if_False simp_thms)
  moreover have "rd_at ok remaining F 0 (p + (32768 - off)) ?r'"
    using r f assms(3) by (auto simp: rd_at_def min_def add.commute split: if_splits)
  moreover have "rd_reports ?r' = rd_reports r" by simp
  ultimately show ?thesis by blast
qed

lemma read_frame:
  assumes at: "rd_at ok remaining F off p r" and F: "drop p F = pad off @ phys x @ rest" and fits: "frame_fits off x"
  shows "\<exists>r'. ReadPhysicalRecord S r = Inr (fst x, snd x, r') \<and> rd_at ok remaining F (start off + 7 + length (snd x)) (p + length (pad off @ phys x)) r' \<and> rd_reports r' = rd_reports r"
proof -
  obtain t d where x: "x = (t, d)" by (cases x)
  have off: "off \<le> 32768" "p \<le> length F" using at by (auto simp: rd_at_def)
  obtain q r1 where r1: "ReadPhysicalRecord S r = ReadPhysicalRecord S r1" "rd_at ok remaining F (start off) q r1" "rd_reports r1 = rd_reports r"
      "q = p + length (pad off)" "drop q F = phys x @ rest"
  proof (cases "32768 - off < 7")
    case True
    have pl: "length (pad off) = 32768 - off" using True off by (simp add: pad_start)
    have "length (drop p F) \<ge> length (pad off)" unfolding F by simp
    then have le: "p + (32768 - off) \<le> length F" using pl off(2) by simp
    have dr: "drop (p + (32768 - off)) F = phys x @ rest" using drop_front [OF F] pl by simp
    obtain r2 where r2: "ReadPhysicalRecord S r = ReadPhysicalRecord S r2" "rd_at ok remaining F 0 (p + (32768 - off)) r2" "rd_reports r2 = rd_reports r"
      using refill [OF at True le] by blast
    have s0: "start off = 0" using True by (simp add: start_def)
    show ?thesis by (rule that [OF r2(1) r2(2) [folded s0] r2(3) _ dr]) (simp only: pl)
  next
    case False
    then show ?thesis using that [of r p] at F by (simp add: start_def pad_def)
  qed
  have s: "start off + 7 + length d \<le> 32768" "length d < 65536" "t \<in> {kFullType, kFirstType, kMiddleType, kLastType}" using fits x by (auto simp: frame_fits_def)
  have buf: "rd_buffer r1 = phys (t, d) @ take (32768 - start off - (7 + length d)) rest"
    using r1(2,5) s(1) x by (simp add: rd_at_def)
  have "ReadPhysicalRecord S r = Inr (t, d, r1\<lparr>rd_buffer := take (32768 - start off - (7 + length d)) rest\<rparr>)"
    using parse_frame [OF buf s(2,3)] r1(1,2) by (simp add: rd_at_def)
  moreover have "rd_at ok remaining F (start off + 7 + length d) (q + (7 + length d)) (r1\<lparr>rd_buffer := take (32768 - start off - (7 + length d)) rest\<rparr>)"
  proof -
    have "drop (q + (7 + length d)) F = rest" using drop_front [OF r1(5)] x by simp
    moreover have "q + (7 + length d) \<le> length F" using arg_cong [OF r1(5), of length] x r1(2) by (auto simp: rd_at_def)
    moreover have "q + (7 + length d) + (32768 - (start off + 7 + length d)) = q + (32768 - start off)" using s(1) by simp
    ultimately show ?thesis using r1(2) s(1) by (simp add: rd_at_def)
  qed
  ultimately show ?thesis using r1(3,4) x by (auto simp: add.assoc)
qed

text \<open>Where the file ends before the frame does, the reader comes to the end of the input.\<close>

lemma read_cut_frame:
  assumes at: "rd_at ok remaining F off p r" and F: "drop p F = take k (pad off @ phys x)" and k: "k < length (pad off @ phys x)" and fits: "frame_fits off x"
  shows "ends S r"
proof -
  obtain t d where x: "x = (t, d)" by (cases x)
  have off: "off \<le> 32768" "p \<le> length F" using at by (auto simp: rd_at_def)
  have s: "start off + 7 + length d \<le> 32768" "length d < 65536" using fits x by (auto simp: frame_fits_def)
  have len: "length F = p + k" using arg_cong [OF F, of length] k off(2) by simp
  have here: "ends S r1" if "rd_at ok remaining F (start off) q r1" "q + k' = length F" "drop q F = take k' (phys (t, d))" "k' < 7 + length d" for q k' r1
    using that s by (intro ends_cut_frame [of r1 k' t d]) (simp_all add: rd_at_def)
  show ?thesis
  proof (cases "32768 - off < 7")
    case True
    have pl: "length (pad off) = 32768 - off" "start off = 0" using True off by (simp_all add: pad_start start_def)
    show ?thesis
    proof (cases "k < 32768 - off")
      case short: True
      then have "rd_eof r" "length (rd_buffer r) < 7" using at True len by (simp_all add: rd_at_def)
      then show ?thesis using ends_at_eof [of r S] by (auto simp: ends_def)
    next
      case False
      obtain r1 where r1: "ReadPhysicalRecord S r = ReadPhysicalRecord S r1" "rd_at ok remaining F 0 (p + (32768 - off)) r1"
        using refill [OF at True] False len by auto
      have "drop (p + (32768 - off)) F = drop (32768 - off) (drop p F)" by (simp add: add.commute)
      also have "\<dots> = take (k - (32768 - off)) (phys (t, d))" unfolding F x using pl False by (simp add: drop_take)
      finally have "ends S r1" using here [of "p + (32768 - off)" r1 "k - (32768 - off)"] r1(2) pl len False k x by simp
      then show ?thesis using r1(1) by (simp add: ends_def)
    qed
  next
    case False
    then show ?thesis using here [of p r k] at F len k x by (simp add: pad_def start_def)
  qed
qed

lemma read_end:
  assumes "rd_at ok remaining F off (length F) r"
  shows "ends S r"
proof (cases "off = 32768")
  case True
  obtain r1 where r1: "ReadPhysicalRecord S r = ReadPhysicalRecord S r1" "rd_at ok remaining F 0 (length F) r1"
    using refill [OF assms] True by auto
  then have "rd_eof r1" "rd_buffer r1 = []" by (simp_all add: rd_at_def)
  then show ?thesis using ends_at_eof [of r1 S] r1(1) by (auto simp: ends_def)
next
  case False
  then have "rd_eof r" "rd_buffer r = []" using assms by (auto simp: rd_at_def)
  then show ?thesis using ends_at_eof [of r S] by (auto simp: ends_def)
qed

text \<open>A whole record, and a record that is cut off.\<close>

lemma fragments_fit:
  assumes "off \<le> 32768"
  shows "length d \<le> 32761 - start off \<Longrightarrow> frame_fits off (if b then kFullType else kLastType, d)"
    and "frame_fits off (if b then kFirstType else kMiddleType, take (32761 - start off) d)"
  using start_le [OF assms] by (auto simp: frame_fits_def)

lemma read_fragments:
  assumes "rd_at ok remaining F off p r" "drop p F = frames_bytes off (fragments b off d) @ rest" "b \<longrightarrow> sc = []"
  shows "\<exists>r'. ReadRecord_loop S (\<not> b) po sc r = Some (Inr (Some (sc @ d), r')) \<and> rd_reports r' = rd_reports r
     \<and> rd_at ok remaining F (frames_end off (fragments b off d)) (p + length (frames_bytes off (fragments b off d))) r'"
  using assms
proof (induction b off d arbitrary: p r sc po rule: fragments.induct)
  case (1 b off d)
  have off: "off \<le> 32768" using "1.prems"(1) by (simp add: rd_at_def)
  show ?case
  proof (cases "length d \<le> 32761 - start off")
    case True
    let ?x = "(if b then kFullType else kLastType, d)"
    obtain r1 where r1: "ReadPhysicalRecord S r = Inr (fst ?x, d, r1)" "rd_at ok remaining F (start off + 7 + length d) (p + length (pad off @ phys ?x)) r1" "rd_reports r1 = rd_reports r"
      using read_frame [OF "1.prems"(1) _ fragments_fit(1) [OF off True, of b]] "1.prems"(2) by (auto simp: fragments_short [OF True])
    have up: "rd_at ok remaining F o' p' (r1\<lparr>rd_last_record_offset := x\<rparr>) = rd_at ok remaining F o' p' r1" for o' p' x by (simp add: rd_at_def)
    show ?thesis using r1 "1.prems"(3) up fragments_short [OF True, of b]
      by (subst ReadRecord_loop.simps) (cases b, simp_all add: log_types)
  next
    case False
    then have long: "32761 - start off < length d" by simp
    let ?x = "(if b then kFirstType else kMiddleType, take (32761 - start off) d)"
    note fl = fragments_long [OF long, of b]
    obtain r1 where r1: "ReadPhysicalRecord S r = Inr (fst ?x, snd ?x, r1)" "rd_at ok remaining F (start off + 7 + length (snd ?x)) (p + length (pad off @ phys ?x)) r1" "rd_reports r1 = rd_reports r"
      using read_frame [OF "1.prems"(1) _ fragments_fit(2) [OF off, of b d]] "1.prems"(2) by (auto simp: fl)
    have e: "start off + 7 + length (snd ?x) = 32768" using long by (simp add: full_block [OF off])
    let ?d = "drop (32761 - start off) d"
    have "drop (p + length (pad off @ phys ?x)) F = frames_bytes 32768 (fragments False 32768 ?d) @ rest"
      using drop_front [of p F "pad off @ phys ?x"] "1.prems"(2) e unfolding fl by (simp only: frames_bytes.simps append_assoc snd_conv)
    note IH = "1.IH" [OF refl False r1(2) [unfolded e] this, of "sc @ snd ?x"]
    have L: "ReadRecord_loop S (\<not> b) po sc r = ReadRecord_loop S True (if b then buffer_start r else po) (sc @ snd ?x) r1"
      using r1(1) "1.prems"(3) by (subst ReadRecord_loop.simps) (cases b, simp_all add: log_types)
    have P: "p + length (frames_bytes off (fragments b off d)) = p + length (pad off @ phys ?x) + length (frames_bytes 32768 (fragments False 32768 ?d))"
        "frames_end off (fragments b off d) = frames_end 32768 (fragments False 32768 ?d)"
      unfolding fl frames_bytes.simps frames_end.simps e by simp_all
    have D: "(sc @ snd ?x) @ ?d = sc @ d" by simp
    show ?thesis unfolding L P using IH [of "if b then buffer_start r else po"] by (simp only: D r1(3) simp_thms)
  qed
qed

lemma read_cut_fragments:
  assumes "rd_at ok remaining F off p r" "drop p F = take k (frames_bytes off (fragments b off d))" "k < length (frames_bytes off (fragments b off d))" "b \<longrightarrow> sc = []"
  shows "\<exists>r'. ReadRecord_loop S (\<not> b) po sc r = Some (Inr (None, r'))"
  using assms
proof (induction b off d arbitrary: p r sc po k rule: fragments.induct)
  case (1 b off d)
  have off: "off \<le> 32768" using "1.prems"(1) by (simp add: rd_at_def)
  show ?case
  proof (cases "length d \<le> 32761 - start off")
    case True
    then show ?thesis using loop_ends [OF read_cut_frame [OF "1.prems"(1) _ _ fragments_fit(1) [OF off True, of b]]] "1.prems"(2,3) fragments_short [OF True, of b] by simp
  next
    case False
    then have long: "32761 - start off < length d" by simp
    let ?x = "(if b then kFirstType else kMiddleType, take (32761 - start off) d)" and ?d = "drop (32761 - start off) d"
    note fl = fragments_long [OF long, of b]
    have e: "start off + 7 + length (snd ?x) = 32768" using long by (simp add: full_block [OF off])
    let ?n = "length (pad off @ phys ?x)" and ?rest = "frames_bytes 32768 (fragments False 32768 ?d)"
    have B: "frames_bytes off (fragments b off d) = (pad off @ phys ?x) @ ?rest" unfolding fl frames_bytes.simps e by simp
    show ?thesis
    proof (cases "k < ?n")
      case True
      then have "drop p F = take k (pad off @ phys ?x)" using "1.prems"(2) unfolding B by simp
      then show ?thesis using loop_ends [OF read_cut_frame [OF "1.prems"(1) _ True fragments_fit(2) [OF off]]] by simp
    next
      case k: False
      then have cut: "drop p F = (pad off @ phys ?x) @ take (k - ?n) ?rest" using "1.prems"(2) unfolding B take_append [of k "pad off @ phys ?x"] by simp
      obtain r1 where r1: "ReadPhysicalRecord S r = Inr (fst ?x, snd ?x, r1)" "rd_at ok remaining F (start off + 7 + length (snd ?x)) (p + ?n) r1"
        using read_frame [OF "1.prems"(1) cut [unfolded append_assoc] fragments_fit(2) [OF off]] by blast
      have "k - ?n < length ?rest" using "1.prems"(3) k unfolding B length_append by linarith
      note IH = "1.IH" [OF refl False r1(2) [unfolded e] drop_front [OF cut] this, of "sc @ snd ?x"]
      have L: "ReadRecord_loop S (\<not> b) po sc r = ReadRecord_loop S True (if b then buffer_start r else po) (sc @ snd ?x) r1"
        using r1(1) "1.prems"(4) by (subst ReadRecord_loop.simps) (cases b, simp_all add: log_types)
      show ?thesis unfolding L using IH [of "if b then buffer_start r else po"] by (simp only: simp_thms)
    qed
  qed
qed

text \<open>Reading the records of a log one after the other.\<close>

lemma read_log:
  assumes "rd_at ok remaining F off p r" "drop p F = log_bytes off ds @ rest"
  shows "\<exists>r'. read_records S (length ds) r = Some (Inr (ds, r')) \<and> rd_reports r' = rd_reports r
     \<and> rd_at ok remaining F (log_end off ds) (p + length (log_bytes off ds)) r'"
  using assms
proof (induction ds arbitrary: off p r)
  case (Cons d ds)
  let ?n = "length (frames_bytes off (fragments True off d))"
  have F: "drop p F = frames_bytes off (fragments True off d) @ (log_bytes (frames_end off (fragments True off d)) ds @ rest)" using Cons.prems(2) by simp
  obtain r1 where r1: "ReadRecord_loop S False 0 [] r = Some (Inr (Some d, r1))" "rd_reports r1 = rd_reports r" "rd_at ok remaining F (frames_end off (fragments True off d)) (p + ?n) r1"
    using read_fragments [OF Cons.prems(1) F, of "[]" 0] by auto
  have "rd_initial_offset r = 0" using Cons.prems(1) by (simp add: rd_at_def)
  then have "ReadRecord S r = Some (Inr (Some d, r1))" using r1(1) by (simp add: ReadRecord_def)
  then show ?case using Cons.IH [OF r1(3) drop_front [OF F]] r1(2) by (auto simp: add.assoc)
qed simp

lemma read_log_end:
  assumes "rd_at ok remaining F off p r" "drop p F = take k (log_bytes off [d])" "k < length (log_bytes off [d])"
  shows "\<exists>r'. ReadRecord S r = Some (Inr (None, r'))"
proof -
  have "rd_initial_offset r = 0" using assms(1) by (simp add: rd_at_def)
  then show ?thesis using read_cut_fragments [of F off p r k True d "[]" 0] assms by (simp add: ReadRecord_def)
qed

end


section \<open>Reading an arbitrary file\<close>

text \<open>The bytes the reader has not used.\<close>

definition unread :: "('f \<Rightarrow> bytes) \<Rightarrow> 'f Reader \<Rightarrow> nat" where
  "unread remaining r = length (rd_buffer r) + length (remaining (rd_file r))"

lemma unread_report [simp]: "unread remaining (ReportCorruption n s r) = unread remaining r"
  by (simp add: unread_def)

text \<open>A call returns, and a record it returns has used up bytes.\<close>

definition returns :: "('f \<Rightarrow> bool) \<Rightarrow> ('f \<Rightarrow> bytes) \<Rightarrow> nat \<Rightarrow> (slice option \<times> 'f Reader) res option \<Rightarrow> bool" where
  "returns ok remaining n res \<longleftrightarrow> (\<exists>x r'. res = Some (Inr (x, r')) \<and> ok (rd_file r') \<and> (x \<noteq> None \<longrightarrow> unread remaining r' < n))"

context sequential_file
begin

lemma parse_progress:
  assumes "ok (rd_file r)" "7 \<le> length (rd_buffer r)"
  shows "\<exists>t d r'. ReadPhysicalRecord S r = Inr (t, d, r') \<and> ok (rd_file r') \<and> unread remaining r' < unread remaining r"
proof -
  have "\<exists>x. DecodeFixed32 (rd_buffer r) = Inr x" using assms(2) by (simp add: DecodeFixed32_def load_bytes_def)
  then obtain x where "DecodeFixed32 (rd_buffer r) = Inr x" by blast
  moreover have "rd_buffer r \<noteq> []" "0 < length (rd_buffer r)" using assms(2) by auto
  ultimately show ?thesis using assms by (subst ReadPhysicalRecord.simps) (simp add: Let_def unread_def)
qed

lemma read_progress:
  assumes "ok (rd_file r)"
  shows "\<exists>t d r'. ReadPhysicalRecord S r = Inr (t, d, r') \<and> ok (rd_file r') \<and> (t = kEof \<or> unread remaining r' < unread remaining r)"
proof (cases "7 \<le> length (rd_buffer r)")
  case True
  then show ?thesis using parse_progress [OF assms] by blast
next
  case short: False
  show ?thesis
  proof (cases "rd_eof r")
    case True
    then show ?thesis using short assms by (subst ReadPhysicalRecord.simps) simp
  next
    case False
    obtain f where f: "sf_Read S 32768 (rd_file r) = Inr (Status_OK, take 32768 (remaining (rd_file r)), f)" "ok f" "remaining f = drop 32768 (remaining (rd_file r))"
      using read_next [OF assms] by blast
    let ?b = "take 32768 (remaining (rd_file r))"
    let ?r = "r\<lparr>rd_file := f, rd_buffer := ?b, rd_end_of_buffer_offset := rd_end_of_buffer_offset r + of_nat (length ?b)\<rparr>"
    let ?r' = "if length ?b < 32768 then ?r\<lparr>rd_eof := True\<rparr> else ?r"
    have lt: "length (rd_buffer r) < 7" using short by simp
    have step: "ReadPhysicalRecord S r = ReadPhysicalRecord S ?r'"
      by (subst ReadPhysicalRecord.simps) (simp only: lt False f(1) if_True bindR_Inr prod.case Let_def Status_ok_def Status_OK_def not_True_eq_False not_False_eq_True if_False simp_thms)
    have ok': "ok (rd_file ?r')" "unread remaining ?r' \<le> unread remaining r" "rd_buffer ?r' = ?b" using f by (simp_all add: unread_def)
    show ?thesis
    proof (cases "7 \<le> length ?b")
      case True
      then have "7 \<le> length (rd_buffer ?r')" by (simp only: ok'(3))
      from parse_progress [OF ok'(1) this] show ?thesis unfolding step using ok'(2) less_le_trans by blast
    next
      case False
      then have "rd_eof ?r'" by simp
      then show ?thesis unfolding step using False ok' by (subst ReadPhysicalRecord.simps) simp
    qed
  qed
qed

lemma loop_returns:
  assumes "ok (rd_file r)"
  shows "returns ok remaining (unread remaining r) (ReadRecord_loop S b po sc r)"
  using assms
proof (induction "unread remaining r" arbitrary: r b po sc rule: less_induct)
  case less
  obtain t d r1 where r1: "ReadPhysicalRecord S r = Inr (t, d, r1)" "ok (rd_file r1)" "t = kEof \<or> unread remaining r1 < unread remaining r"
    using read_progress [OF less.prems] by blast
  show ?case
  proof (cases "t = kEof")
    case True
    then show ?thesis using r1 by (subst ReadRecord_loop.simps) (simp add: log_types returns_def)
  next
    case False
    then have lt: "unread remaining r1 < unread remaining r" using r1(3) by simp
    have go1: "returns ok remaining (unread remaining r) (ReadRecord_loop S b' po' sc' r1)" for b' po' sc'
      using less.hyps [OF lt r1(2), of b' po' sc'] lt by (fastforce simp: returns_def)
    have go2: "returns ok remaining (unread remaining r) (ReadRecord_loop S b' po' sc' (ReportCorruption n m r1))" for b' po' sc' n m
      using less.hyps [of "ReportCorruption n m r1" b' po' sc'] lt r1(2) by (fastforce simp: returns_def)
    have up: "returns ok remaining (unread remaining r) (Some (Inr (x, r2\<lparr>rd_last_record_offset := y\<rparr>)))" if "r2 = r1 \<or> (\<exists>n m. r2 = ReportCorruption n m r1)" for x r2 y
      using that lt r1(2) by (auto simp: returns_def unread_def)
    show ?thesis using False by (subst ReadRecord_loop.simps) (auto simp: r1(1) Let_def go1 go2 intro!: up)
  qed
qed

lemma ReadRecord_returns:
  assumes "ok (rd_file r)"
  shows "returns ok remaining (unread remaining r) (ReadRecord S r)"
proof -
  obtain r1 where r1: "(if rd_last_record_offset r < rd_initial_offset r then SkipToInitialBlock S r else Inr (True, r)) = Inr (True, r1)"
      "ok (rd_file r1)" "unread remaining r1 \<le> unread remaining r"
  proof (cases "rd_last_record_offset r < rd_initial_offset r")
    case True
    have "\<exists>r1. SkipToInitialBlock S r = Inr (True, r1) \<and> ok (rd_file r1) \<and> unread remaining r1 \<le> unread remaining r"
    proof -
      let ?o = "rd_initial_offset r mod 32768"
      let ?s = "if 32768 - 6 < ?o then rd_initial_offset r - ?o + 32768 else rd_initial_offset r - ?o"
      obtain f where f: "sf_Skip S ?s (rd_file r) = Inr (Status_OK, f)" "ok f" "remaining f = drop (unat ?s) (remaining (rd_file r))"
        using skip_next [OF assms] by blast
      show ?thesis
      proof (cases "0 < ?s")
        case True
        then show ?thesis unfolding SkipToInitialBlock_def Let_def using f
          by (simp add: unread_def Status_ok_def Status_OK_def split del: if_split)
      next
        case False
        then show ?thesis unfolding SkipToInitialBlock_def Let_def using assms by (simp add: unread_def split del: if_split)
      qed
    qed
    then show ?thesis using that True by auto
  next
    case False
    then show ?thesis using that [of r] assms by simp
  qed
  show ?thesis unfolding ReadRecord_def r1(1) using loop_returns [OF r1(2), of False 0 "[]"] r1(3) by (fastforce simp: returns_def)
qed

end


section \<open>From the writer to the reader\<close>

fun add_records :: "'f WritableFile \<Rightarrow> bytes list \<Rightarrow> Writer \<Rightarrow> 'f \<Rightarrow> (Status \<times> Writer \<times> 'f) res" where
  "add_records W [] w f = Inr (Status_OK, w, f)"
| "add_records W (d # ds) w f = bindR (AddRecord W d w f) (\<lambda>(s, w, f). if Status_ok s then add_records W ds w f else Inr (s, w, f))"

lemma log_bytes_snoc: "log_bytes off (ds @ [d]) = log_bytes off ds @ log_bytes (log_end off ds) [d]"
  by (induction ds arbitrary: off) simp_all

lemma log_end_le: "off \<le> 32768 \<Longrightarrow> log_end off ds \<le> 32768"
  by (induction ds arbitrary: off) (simp_all add: frames_end_fragments)

text \<open>A log starts at the start of a block, which is the end of the block before it.\<close>

lemma fragments_start: "fragments b 0 d = fragments b 32768 d"
  by (subst (1 2) fragments.simps) simp

lemma frames_start: "frames_bytes 0 xs = frames_bytes 32768 xs" "xs \<noteq> [] \<Longrightarrow> frames_end 0 xs = frames_end 32768 xs"
  by (cases xs; simp)+

lemma fragments_nonempty: "fragments b off d \<noteq> []"
  by (subst fragments.simps) (simp add: Let_def)

lemma log_start: "log_bytes 0 ds = log_bytes 32768 ds" "log_bytes (log_end 0 ds) [d] = log_bytes (log_end 32768 ds) [d]"
  by (cases ds; simp add: fragments_start frames_start fragments_nonempty)+

context writable_file
begin

lemma add_records_spec:
  assumes "ok f" "w_block_offset w = int off" "w_type_crc w = type_crcs" "off \<le> 32768"
  shows "\<exists>w' f'. add_records W ds w f = Inr (Status_OK, w', f') \<and> ok f' \<and> contents f' = contents f @ log_bytes off ds
     \<and> w_block_offset w' = int (log_end off ds) \<and> w_type_crc w' = type_crcs"
  using assms
proof (induction ds arbitrary: w f off)
  case (Cons d ds)
  obtain w1 f1 where 1: "AddRecord W d w f = Inr (Status_OK, w1, f1)" "ok f1" "contents f1 = contents f @ log_bytes off [d]"
      "w_block_offset w1 = int (log_end off [d])" "w_type_crc w1 = type_crcs"
    using AddRecord_spec [OF Cons.prems] by blast
  have "Status_ok Status_OK" by (simp add: Status_ok_def Status_OK_def)
  then show ?case using Cons.IH [OF 1(2,4,5) log_end_le [OF Cons.prems(4)]] 1(1,3) by simp
qed simp

end

context sequential_file
begin

lemma rd_at_new:
  assumes "ok f"
  shows "rd_at ok remaining (remaining f) 32768 0 (Reader_new f reporter checksum 0)"
  using assms by (simp add: rd_at_def Reader_new_def)

lemma log_read_back:
  assumes "ok f" "remaining f = log_bytes 0 ds @ take k (log_bytes (log_end 0 ds) [d])" "k < length (log_bytes (log_end 0 ds) [d])"
  shows "\<exists>r r'. read_records S (length ds) (Reader_new f reporter checksum 0) = Some (Inr (ds, r)) \<and> rd_reports r = [] \<and> ReadRecord S r = Some (Inr (None, r'))"
proof -
  let ?F = "remaining f"
  have F: "drop 0 ?F = log_bytes 32768 ds @ take k (log_bytes (log_end 32768 ds) [d])" using assms(2) by (simp only: log_start drop0)
  obtain r where r: "read_records S (length ds) (Reader_new f reporter checksum 0) = Some (Inr (ds, r))" "rd_reports r = []"
      "rd_at ok remaining ?F (log_end 32768 ds) (0 + length (log_bytes 32768 ds)) r"
    using read_log [OF rd_at_new [OF assms(1)] F, of reporter checksum] by (auto simp: Reader_new_def)
  then show ?thesis using read_log_end [OF r(3) drop_front [OF F] assms(3) [unfolded log_start]] by blast
qed

end

lemma mem_log_read_back:
  assumes "live h a" "bytes_at h a = []"
  shows "\<exists>w f1 w2 f2. add_records (MemWritableFile unset) ds Writer_new (h, a) = Inr (Status_OK, w, f1) \<and> AddRecord (MemWritableFile unset) d w f1 = Inr (Status_OK, w2, f2) \<and>
     length (bytes_at (fst f1) (snd f1)) < length (bytes_at (fst f2) (snd f2)) \<and>
     (\<forall>k h' s reporter checksum. length (bytes_at (fst f1) (snd f1)) \<le> k \<and> k < length (bytes_at (fst f2) (snd f2)) \<and>
        live h' (sq_file s) \<and> sq_pos s = 0 \<and> bytes_at h' (sq_file s) = take k (bytes_at (fst f2) (snd f2)) \<longrightarrow>
        (\<exists>r r'. read_records MemSequentialFile (length ds) (Reader_new (h', s) reporter checksum 0) = Some (Inr (ds, r)) \<and> rd_reports r = [] \<and>
                ReadRecord MemSequentialFile r = Some (Inr (None, r'))))"
proof -
  obtain w f1 where 1: "add_records (MemWritableFile unset) ds Writer_new (h, a) = Inr (Status_OK, w, f1)" "case f1 of (h, a) \<Rightarrow> live h a"
      "bytes_at (fst f1) (snd f1) = log_bytes 0 ds" "w_block_offset w = int (log_end 0 ds)" "w_type_crc w = type_crcs"
    using mem_writable.add_records_spec [of "(h, a)" Writer_new 0 unset ds] assms by (auto simp: Writer_new_def type_crcs_def case_prod_beta)
  obtain w2 f2 where 2: "AddRecord (MemWritableFile unset) d w f1 = Inr (Status_OK, w2, f2)"
      "bytes_at (fst f2) (snd f2) = bytes_at (fst f1) (snd f1) @ log_bytes (log_end 0 ds) [d]"
    using mem_writable.AddRecord_spec [OF 1(2,4,5) log_end_le, of unset d] by (auto simp: case_prod_beta)
  have "\<exists>r r'. read_records MemSequentialFile (length ds) (Reader_new (h', s) reporter checksum 0) = Some (Inr (ds, r)) \<and> rd_reports r = [] \<and>
      ReadRecord MemSequentialFile r = Some (Inr (None, r'))"
    if k: "length (bytes_at (fst f1) (snd f1)) \<le> k" "k < length (bytes_at (fst f2) (snd f2))" "live h' (sq_file s)" "sq_pos s = 0" "bytes_at h' (sq_file s) = take k (bytes_at (fst f2) (snd f2))"
    for k h' s reporter checksum
  proof -
    let ?k = "k - length (log_bytes 0 ds)"
    have "seq_remaining (h', s) = log_bytes 0 ds @ take ?k (log_bytes (log_end 0 ds) [d])"
      using k(1,4,5) unfolding 2(2) 1(3) by (simp add: seq_remaining_def)
    moreover have "?k < length (log_bytes (log_end 0 ds) [d])" using k(1,2) unfolding 2(2) 1(3) length_append by linarith
    moreover have "seq_ok (h', s)" using k(3,4) by (simp add: seq_ok_def)
    ultimately show ?thesis using mem_sequential.log_read_back by blast
  qed
  moreover have "length (bytes_at (fst f1) (snd f1)) < length (bytes_at (fst f2) (snd f2))"
    unfolding 2(2) using frames_bytes_fragments_nonempty by simp
  ultimately show ?thesis using 1(1) 2(1) by blast
qed


end
