(* ===== verification/Ldb_Block.thy ===== *)
theory Ldb_Block
  imports Ldb_Filter
begin

text \<open>
  Blocks of a table: \<open>BlockBuilder\<close> (\<^verbatim>\<open>table/block_builder.cc\<close>), which shares the start of a key with the key before it and notes a
  restart point after every \<open>block_restart_interval\<close> entries, and \<open>Block\<close> with its iterator (\<^verbatim>\<open>table/block.cc\<close>). The last part
  gives the layout of a block as a list of entries with the indices of its restart points and shows that the builder produces it.
\<close>

section \<open>Building a block: model\<close>

text \<open>The fields of \<open>Options\<close> that blocks use.\<close>

record BlockOptions =
  opt_comparator :: Comparator
  opt_restart_interval :: int

record BlockBuilder =
  bb_buffer :: bytes
  bb_restarts :: "u32 list"
  bb_counter :: int
  bb_finished :: bool
  bb_last_key :: bytes

definition BlockBuilder_new :: "BlockOptions \<Rightarrow> BlockBuilder res" where
  "BlockBuilder_new options =
     bindR (assertR (1 \<le> opt_restart_interval options)) (\<lambda>_.
     Inr \<lparr>bb_buffer = [], bb_restarts = [0], bb_counter = 0, bb_finished = False, bb_last_key = []\<rparr>)"

definition bb_Reset :: "BlockBuilder \<Rightarrow> BlockBuilder" where
  "bb_Reset b = b\<lparr>bb_buffer := [], bb_restarts := [0], bb_counter := 0, bb_finished := False, bb_last_key := []\<rparr>"

definition bb_CurrentSizeEstimate :: "BlockBuilder \<Rightarrow> nat" where
  "bb_CurrentSizeEstimate b = length (bb_buffer b) + length (bb_restarts b) * 4 + 4"

definition bb_empty :: "BlockBuilder \<Rightarrow> bool" where
  "bb_empty b \<longleftrightarrow> bb_buffer b = []"

definition bb_Finish :: "BlockBuilder \<Rightarrow> bytes \<times> BlockBuilder" where
  "bb_Finish b =
     (let buffer = foldl PutFixed32 (bb_buffer b) (bb_restarts b);
          buffer = PutFixed32 buffer (of_nat (length (bb_restarts b))) in
      (buffer, b\<lparr>bb_buffer := buffer, bb_finished := True\<rparr>))"

fun shared_loop :: "bytes \<Rightarrow> bytes \<Rightarrow> nat" where
  "shared_loop (x # xs) (y # ys) = (if x = y then Suc (shared_loop xs ys) else 0)"
| "shared_loop _ _ = 0"

definition bb_Add :: "BlockOptions \<Rightarrow> slice \<Rightarrow> slice \<Rightarrow> BlockBuilder \<Rightarrow> BlockBuilder res" where
  "bb_Add options key value b =
     bindR (assertR (\<not> bb_finished b)) (\<lambda>_.
     bindR (assertR (bb_counter b \<le> opt_restart_interval options)) (\<lambda>_.
     bindR (if bb_buffer b = [] then Inr True
            else bindR (cmp_Compare (opt_comparator options) key (bb_last_key b)) (\<lambda>c. Inr (0 < c))) (\<lambda>ordered.
     bindR (assertR ordered) (\<lambda>_.
     let (shared, b) =
           (if bb_counter b < opt_restart_interval options then (shared_loop (bb_last_key b) key, b)
            else (0, b\<lparr>bb_restarts := bb_restarts b @ [of_nat (length (bb_buffer b))], bb_counter := 0\<rparr>));
         non_shared = length key - shared;
         buffer = PutVarint32 (bb_buffer b) (of_nat shared);
         buffer = PutVarint32 buffer (of_nat non_shared);
         buffer = PutVarint32 buffer (of_nat (length value));
         buffer = buffer @ take non_shared (drop shared key) @ value;
         last_key = take shared (bb_last_key b) @ take non_shared (drop shared key) in
     bindR (assertR (last_key = key)) (\<lambda>_.
     Inr (b\<lparr>bb_buffer := buffer, bb_last_key := last_key, bb_counter := bb_counter b + 1\<rparr>))))))"

section \<open>Reading a block: model\<close>

text \<open>\<open>restart_offset_\<close> is not set when the contents are refused.\<close>

record Block =
  blk_data :: bytes
  blk_size :: nat
  blk_restart_offset :: u32

definition NumRestarts :: "bytes \<Rightarrow> nat \<Rightarrow> u32 res" where
  "NumRestarts data sz = bindR (assertR (4 \<le> sz)) (\<lambda>_. DecodeFixed32 (drop (sz - 4) data))"

definition Block_new :: "u32 \<Rightarrow> bytes \<Rightarrow> Block res" where
  "Block_new unset contents =
     (let sz = length contents in
      if sz < 4 then Inr \<lparr>blk_data = contents, blk_size = 0, blk_restart_offset = unset\<rparr>
      else bindR (NumRestarts contents sz) (\<lambda>n.
           if (sz - 4) div 4 < unat n then Inr \<lparr>blk_data = contents, blk_size = 0, blk_restart_offset = unset\<rparr>
           else Inr \<lparr>blk_data = contents, blk_size = sz, blk_restart_offset = of_nat (sz - unat (1 + n) * 4)\<rparr>))"

text \<open>
  The bytes from \<open>p\<close> to \<open>limit\<close>; the result has the three numbers and the bytes after them. The sum of the sizes is a 32-bit number.
\<close>

definition DecodeEntry :: "bytes \<Rightarrow> (u32 \<times> u32 \<times> u32 \<times> bytes) option" where
  "DecodeEntry p =
     (if length p < 3 then None
      else let s = ucast (p ! 0); n = ucast (p ! 1); v = ucast (p ! 2);
               header = (if s OR n OR v < (128 :: u32) then Some (s, n, v, drop 3 p)
                 else (case GetVarint32Ptr p of None \<Rightarrow> None | Some (s, p) \<Rightarrow>
                      (case GetVarint32Ptr p of None \<Rightarrow> None | Some (n, p) \<Rightarrow>
                      (case GetVarint32Ptr p of None \<Rightarrow> None | Some (v, p) \<Rightarrow> Some (s, n, v, p))))) in
           (case header of
              None \<Rightarrow> None
            | Some (s, n, v, p) \<Rightarrow> if of_nat (length p) < n + v then None else Some (s, n, v, p)))"

text \<open>
  The iterator. \<open>value_\<close> is an offset into the block with a length; \<open>None\<close> is the slice that points nowhere.
\<close>

record BlockIter =
  it_comparator :: Comparator
  it_data :: bytes
  it_restarts :: u32
  it_num_restarts :: u32
  it_current :: u32
  it_restart_index :: u32
  it_key :: bytes
  it_value :: "(nat \<times> nat) option"
  it_status :: Status

definition NextEntryOffset :: "BlockIter \<Rightarrow> u32 res" where
  "NextEntryOffset it = (case it_value it of None \<Rightarrow> Inl Uninitialised | Some (off, len) \<Rightarrow> Inr (of_nat (off + len)))"

definition GetRestartPoint :: "BlockIter \<Rightarrow> u32 \<Rightarrow> u32 res" where
  "GetRestartPoint it index =
     bindR (assertR (index < it_num_restarts it)) (\<lambda>_.
     DecodeFixed32 (drop (unat (it_restarts it) + unat index * 4) (it_data it)))"

definition SeekToRestartPoint :: "u32 \<Rightarrow> BlockIter \<Rightarrow> BlockIter res" where
  "SeekToRestartPoint index it =
     bindR (GetRestartPoint it index) (\<lambda>offset.
     Inr (it\<lparr>it_key := [], it_restart_index := index, it_value := Some (unat offset, 0)\<rparr>))"

definition BlockIter_new :: "Comparator \<Rightarrow> bytes \<Rightarrow> u32 \<Rightarrow> u32 \<Rightarrow> BlockIter res" where
  "BlockIter_new comparator data restarts num_restarts =
     bindR (assertR (num_restarts > 0)) (\<lambda>_.
     Inr \<lparr>it_comparator = comparator, it_data = data, it_restarts = restarts, it_num_restarts = num_restarts,
       it_current = restarts, it_restart_index = num_restarts, it_key = [], it_value = None, it_status = Status_OK\<rparr>)"

definition it_Valid :: "BlockIter \<Rightarrow> bool" where
  "it_Valid it \<longleftrightarrow> it_current it < it_restarts it"

definition iter_key :: "BlockIter \<Rightarrow> slice res" where
  "iter_key it = bindR (assertR (it_Valid it)) (\<lambda>_. Inr (it_key it))"

definition iter_value :: "BlockIter \<Rightarrow> slice res" where
  "iter_value it =
     bindR (assertR (it_Valid it)) (\<lambda>_.
     case it_value it of None \<Rightarrow> Inr [] | Some (off, len) \<Rightarrow> load_bytes (it_data it) (int off) len)"

definition CorruptionError :: "BlockIter \<Rightarrow> BlockIter" where
  "CorruptionError it = it\<lparr>it_current := it_restarts it, it_restart_index := it_num_restarts it,
     it_status := Corruption (bstr ''bad entry in block'') [], it_key := [], it_value := None\<rparr>"

lemma unat_Suc_below: "unat (i + 1) = Suc (unat i)" if "i < n" for i n :: u32
proof -
  have "unat i < unat n" "unat n < 2 ^ 32" using that unsigned_less [of n, where 'a = nat] by (simp_all add: word_less_nat_alt)
  then show ?thesis by (simp add: unat_word_ariths)
qed

lemma unat_next_less: "unat (i + 1) < unat n \<Longrightarrow> unat (i + 1) < unat (2 + i)" for i n :: u32
  using unat_Suc_below [of "i + 1" n] by (simp add: word_less_nat_alt add.commute add.left_commute)

function restart_loop :: "BlockIter \<Rightarrow> u32 \<Rightarrow> u32 res" where
  "restart_loop it restart_index =
     (if restart_index + 1 < it_num_restarts it
      then bindR (GetRestartPoint it (restart_index + 1)) (\<lambda>r.
           if r < it_current it then restart_loop it (restart_index + 1) else Inr restart_index)
      else Inr restart_index)"
  by pat_completeness auto
termination
  by (relation "measure (\<lambda>(it, i). unat (it_num_restarts it) - unat (i + 1))")
    (auto dest: unat_next_less simp: word_less_nat_alt intro!: diff_less_mono2)

declare restart_loop.simps [simp del]

definition ParseNextKey :: "BlockIter \<Rightarrow> (bool \<times> BlockIter) res" where
  "ParseNextKey it =
     bindR (NextEntryOffset it) (\<lambda>off.
     let it = it\<lparr>it_current := off\<rparr> in
     if it_restarts it \<le> it_current it
     then Inr (False, it\<lparr>it_current := it_restarts it, it_restart_index := it_num_restarts it\<rparr>)
     else (case DecodeEntry (take (unat (it_restarts it) - unat (it_current it)) (drop (unat (it_current it)) (it_data it))) of
             None \<Rightarrow> Inr (False, CorruptionError it)
           | Some (shared, non_shared, value_length, p) \<Rightarrow>
               if length (it_key it) < unat shared then Inr (False, CorruptionError it)
               else let p_off = unat (it_restarts it) - length p in
                    bindR (load_bytes (it_data it) (int p_off) (unat non_shared)) (\<lambda>delta.
                    let it = it\<lparr>it_key := take (unat shared) (it_key it) @ delta,
                               it_value := Some (p_off + unat non_shared, unat value_length)\<rparr> in
                    bindR (restart_loop it (it_restart_index it)) (\<lambda>i.
                    Inr (True, it\<lparr>it_restart_index := i\<rparr>)))))"

text \<open>Every entry that is read moves the end of the current entry on, whatever the block holds: the loops below end.\<close>

definition entry_end :: "BlockIter \<Rightarrow> nat" where
  "entry_end it = (case it_value it of None \<Rightarrow> 0 | Some (off, len) \<Rightarrow> unat (it_restarts it) - unat (of_nat (off + len) :: u32))"

lemma GetVarint32Ptr_shorter: "GetVarint32Ptr p = Some (x, q) \<Longrightarrow> length q < length p"
  using varint32_shorter [of p x q] by (simp add: GetVarint32_def)

lemma DecodeEntry_shorter:
  assumes "DecodeEntry p = Some (s, n, v, q)"
  shows "length q + 3 \<le> length p" and "n + v \<le> of_nat (length q)"
proof -
  show "n + v \<le> of_nat (length q)" using assms by (auto simp: DecodeEntry_def Let_def split: if_splits option.splits)
  consider "q = drop 3 p" "3 \<le> length p"
    | p1 p2 where "GetVarint32Ptr p = Some (s, p1)" "GetVarint32Ptr p1 = Some (n, p2)" "GetVarint32Ptr p2 = Some (v, q)"
    using assms by (auto simp: DecodeEntry_def Let_def split: if_splits option.splits)
  then show "length q + 3 \<le> length p"
  proof cases
    case 2
    then show ?thesis using GetVarint32Ptr_shorter [of p] GetVarint32Ptr_shorter [of p1] GetVarint32Ptr_shorter [of p2] by fastforce
  qed simp
qed

lemma ParseNextKey_progress:
  assumes "ParseNextKey it = Inr (True, it')"
  shows "entry_end it' < entry_end it"
proof -
  obtain off len where val: "it_value it = Some (off, len)" using assms
    by (cases "it_value it") (auto simp: ParseNextKey_def NextEntryOffset_def)
  let ?c = "of_nat (off + len) :: u32" and ?R = "unat (it_restarts it)"
  have c: "\<not> it_restarts it \<le> ?c" using assms val by (auto simp: ParseNextKey_def NextEntryOffset_def Let_def)
  obtain s n v p where d: "DecodeEntry (take (?R - unat ?c) (drop (unat ?c) (it_data it))) = Some (s, n, v, p)"
    using assms c val by (auto simp: ParseNextKey_def NextEntryOffset_def Let_def split: option.splits)
  have it': "it_value it' = Some (?R - length p + unat n, unat v)" "it_restarts it' = it_restarts it"
    using assms c val d by (auto simp: ParseNextKey_def NextEntryOffset_def Let_def bindR_eq_Inr split: if_splits)
  have lp: "length p + 3 \<le> ?R - unat ?c" using DecodeEntry_shorter(1) [OF d] by simp
  have R: "?R < 2 ^ 32" using unsigned_less [of "it_restarts it", where 'a = nat] by simp
  have w: "unat (n + v) \<le> length p"
    using DecodeEntry_shorter(2) [OF d] lp R by (simp add: word_le_nat_alt unat_of_nat)
  have "unat (of_nat (?R - length p + unat n + unat v) :: u32) = (?R - length p + (unat n + unat v)) mod 2 ^ 32"
    unfolding unat_of_nat add.assoc by simp
  also have "\<dots> = (?R - length p + unat (n + v)) mod 2 ^ 32" by (simp add: unat_word_ariths mod_add_right_eq)
  also have "\<dots> = ?R - length p + unat (n + v)" using w lp R by (intro mod_less) linarith
  finally have "unat (of_nat (?R - length p + unat n + unat v) :: u32) = ?R - length p + unat (n + v)" .
  then have "entry_end it' = ?R - (?R - length p + unat (n + v))" using it' by (simp only: entry_end_def option.case prod.case)
  moreover have "entry_end it = ?R - unat ?c" using val by (simp only: entry_end_def option.case prod.case)
  ultimately show ?thesis using c lp w unfolding word_le_nat_alt by linarith
qed

function parse_until :: "u32 \<Rightarrow> BlockIter \<Rightarrow> BlockIter res" where
  "parse_until limit it =
     bindR (ParseNextKey it) (\<lambda>(more, it').
     if more
     then bindR (NextEntryOffset it') (\<lambda>off. if off < limit then parse_until limit it' else Inr it')
     else Inr it')"
  by pat_completeness auto
termination
  by (relation "measure (\<lambda>(limit, it). entry_end it)") (auto dest: ParseNextKey_progress)

function seek_linear :: "slice \<Rightarrow> BlockIter \<Rightarrow> BlockIter res" where
  "seek_linear target it =
     bindR (ParseNextKey it) (\<lambda>(more, it').
     if \<not> more then Inr it'
     else bindR (cmp_Compare (it_comparator it') (it_key it') target) (\<lambda>c.
          if 0 \<le> c then Inr it' else seek_linear target it'))"
  by pat_completeness auto
termination
  by (relation "measure (\<lambda>(target, it). entry_end it)") (auto dest: ParseNextKey_progress)

declare parse_until.simps [simp del] seek_linear.simps [simp del]

definition iter_Next :: "BlockIter \<Rightarrow> BlockIter res" where
  "iter_Next it = bindR (assertR (it_Valid it)) (\<lambda>_. bindR (ParseNextKey it) (\<lambda>(_, it). Inr it))"

text \<open>The scan over the restart points; \<open>None\<close> when there is no entry before the current one.\<close>

function prev_scan :: "BlockIter \<Rightarrow> u32 \<Rightarrow> u32 \<Rightarrow> u32 option res" where
  "prev_scan it original restart_index =
     bindR (GetRestartPoint it restart_index) (\<lambda>r.
     if original \<le> r
     then if restart_index = 0 then Inr None else prev_scan it original (restart_index - 1)
     else Inr (Some restart_index))"
  by pat_completeness auto
termination
  by (relation "measure (\<lambda>(it, original, i). unat i)") (auto intro: measure_unat)

declare prev_scan.simps [simp del]

definition iter_Prev :: "BlockIter \<Rightarrow> BlockIter res" where
  "iter_Prev it =
     bindR (assertR (it_Valid it)) (\<lambda>_.
     let original = it_current it in
     bindR (prev_scan it original (it_restart_index it)) (\<lambda>i.
     case i of
       None \<Rightarrow> Inr (it\<lparr>it_current := it_restarts it, it_restart_index := it_num_restarts it\<rparr>)
     | Some restart_index \<Rightarrow> bindR (SeekToRestartPoint restart_index it) (\<lambda>it. parse_until original it)))"

text \<open>One probe of the binary search: whether the key at restart point \<open>mid\<close> is smaller than the target; \<open>None\<close> for a bad entry.\<close>

definition seek_probe :: "BlockIter \<Rightarrow> slice \<Rightarrow> u32 \<Rightarrow> bool option res" where
  "seek_probe it target mid =
     bindR (GetRestartPoint it mid) (\<lambda>region_offset.
     case DecodeEntry (take (unat (it_restarts it) - unat region_offset) (drop (unat region_offset) (it_data it))) of
       None \<Rightarrow> Inr None
     | Some (shared, non_shared, value_length, p) \<Rightarrow>
         if shared \<noteq> 0 then Inr None
         else bindR (load_bytes (it_data it) (int (unat (it_restarts it) - length p)) (unat non_shared)) (\<lambda>mid_key.
              bindR (cmp_Compare (it_comparator it) mid_key target) (\<lambda>c. Inr (Some (c < 0)))))"

text \<open>The binary search, whose sum of indices is a 32-bit number; \<open>None\<close> when it does not end.\<close>

partial_function (option) seek_search :: "BlockIter \<Rightarrow> slice \<Rightarrow> u32 \<Rightarrow> u32 \<Rightarrow> u32 option res option" where
  "seek_search it target left right =
     (if left < right
      then let mid = (left + right + 1) div 2 in
           (case seek_probe it target mid of
              Inl e \<Rightarrow> Some (Inl e)
            | Inr None \<Rightarrow> Some (Inr None)
            | Inr (Some smaller) \<Rightarrow>
                if smaller then seek_search it target mid right else seek_search it target left (mid - 1))
      else Some (Inr (Some left)))"

definition iter_Seek :: "slice \<Rightarrow> BlockIter \<Rightarrow> BlockIter res option" where
  "iter_Seek target it =
     (case seek_search it target 0 (it_num_restarts it - 1) of
        None \<Rightarrow> None
      | Some (Inl e) \<Rightarrow> Some (Inl e)
      | Some (Inr None) \<Rightarrow> Some (Inr (CorruptionError it))
      | Some (Inr (Some left)) \<Rightarrow> Some (bindR (SeekToRestartPoint left it) (seek_linear target)))"

definition iter_SeekToFirst :: "BlockIter \<Rightarrow> BlockIter res" where
  "iter_SeekToFirst it = bindR (SeekToRestartPoint 0 it) (\<lambda>it. bindR (ParseNextKey it) (\<lambda>(_, it). Inr it))"

definition iter_SeekToLast :: "BlockIter \<Rightarrow> BlockIter res" where
  "iter_SeekToLast it =
     bindR (SeekToRestartPoint (it_num_restarts it - 1) it) (\<lambda>it. parse_until (it_restarts it) it)"

text \<open>The iterator of a block: an error, the empty one, or one over the entries.\<close>

datatype BlockIterator = ErrorIterator Status | EmptyIterator | EntryIterator BlockIter

definition NewIterator :: "Comparator \<Rightarrow> Block \<Rightarrow> BlockIterator res" where
  "NewIterator cmp b =
     (if blk_size b < 4 then Inr (ErrorIterator (Corruption (bstr ''bad block contents'') []))
      else bindR (NumRestarts (blk_data b) (blk_size b)) (\<lambda>num_restarts.
           if num_restarts = 0 then Inr EmptyIterator
           else bindR (BlockIter_new cmp (blk_data b) (blk_restart_offset b) num_restarts) (\<lambda>it. Inr (EntryIterator it))))"


section \<open>The layout of a block\<close>

text \<open>An entry: how many bytes its key shares with the key before it, the key and the value.\<close>

type_synonym entry = "nat \<times> bytes \<times> bytes"

fun entry_bytes :: "entry \<Rightarrow> bytes" where
  "entry_bytes (s, k, v) = EncodeVarint32 (of_nat s) @ EncodeVarint32 (of_nat (length k - s)) @ EncodeVarint32 (of_nat (length v)) @ drop s k @ v"

abbreviation entries_bytes :: "entry list \<Rightarrow> bytes" where
  "entries_bytes xs \<equiv> concat (map entry_bytes xs)"

abbreviation entry_key :: "entry \<Rightarrow> bytes" where "entry_key e \<equiv> fst (snd e)"
abbreviation entry_value :: "entry \<Rightarrow> bytes" where "entry_value e \<equiv> snd (snd e)"

fun chain :: "bytes \<Rightarrow> entry list \<Rightarrow> bool" where
  "chain p [] \<longleftrightarrow> True"
| "chain p ((s, k, v) # xs) \<longleftrightarrow> s \<le> length p \<and> s \<le> length k \<and> take s p = take s k \<and> chain k xs"

definition entry_off :: "entry list \<Rightarrow> nat \<Rightarrow> nat" where
  "entry_off xs i = length (entries_bytes (take i xs))"

definition last_key :: "bytes \<Rightarrow> entry list \<Rightarrow> bytes" where
  "last_key p xs = (if xs = [] then p else entry_key (last xs))"

text \<open>Entries with the indices of the restart points among them.\<close>

definition block_ok :: "entry list \<Rightarrow> nat list \<Rightarrow> bool" where
  "block_ok xs rs \<longleftrightarrow> chain [] xs \<and> rs \<noteq> [] \<and> rs ! 0 = 0 \<and> sorted_wrt (<) rs \<and>
     (\<forall>r \<in> set rs. if xs = [] then r = 0 else r < length xs \<and> fst (xs ! r) = 0)"

definition block_bytes :: "entry list \<Rightarrow> nat list \<Rightarrow> bytes" where
  "block_bytes xs rs = entries_bytes xs @ concat (map (\<lambda>n. EncodeFixed32 (of_nat n)) (map (entry_off xs) rs)) @ EncodeFixed32 (of_nat (length rs))"

lemma chain_append: "chain p (xs @ ys) \<longleftrightarrow> chain p xs \<and> chain (last_key p xs) ys"
  by (induction p xs rule: chain.induct) (auto simp: last_key_def)

lemma EncodeVarint32_nonempty: "EncodeVarint32 v \<noteq> []"
  by (simp add: EncodeVarint32_def)

lemma entry_bytes_length: "3 \<le> length (entry_bytes e)"
proof -
  obtain s k v where e: "e = (s, k, v)" by (cases e)
  have "0 < length (EncodeVarint32 x)" for x using EncodeVarint32_nonempty by simp
  from this [of "of_nat s"] this [of "of_nat (length k - s)"] this [of "of_nat (length v)"] show ?thesis
    unfolding e entry_bytes.simps length_append by linarith
qed

lemma entry_off_0 [simp]: "entry_off xs 0 = 0"
  by (simp add: entry_off_def)

lemma entry_off_Suc: "i < length xs \<Longrightarrow> entry_off xs (Suc i) = entry_off xs i + length (entry_bytes (xs ! i))"
  by (simp add: entry_off_def take_Suc_conv_app_nth)

lemma entry_off_step: "i < length xs \<Longrightarrow> entry_off xs i + 3 \<le> entry_off xs (Suc i)"
  using entry_bytes_length [of "xs ! i"] by (simp add: entry_off_Suc)

lemma entry_off_mono: "i \<le> j \<Longrightarrow> entry_off xs i \<le> entry_off xs j"
proof -
  assume "i \<le> j"
  then have "take j xs = take i xs @ drop i (take j xs)" by (metis append_take_drop_id min.absorb1 take_take)
  then show ?thesis by (metis entry_off_def concat_append le_add1 length_append map_append)
qed

lemma entry_off_less: "i < j \<Longrightarrow> j \<le> length xs \<Longrightarrow> entry_off xs i < entry_off xs j"
  using entry_off_step [of i xs] entry_off_mono [of "Suc i" j xs] by simp

lemma entry_off_less_iff: "i \<le> length xs \<Longrightarrow> j \<le> length xs \<Longrightarrow> entry_off xs i < entry_off xs j \<longleftrightarrow> i < j"
  using entry_off_less [of i j xs] entry_off_mono [of j i xs] by (metis not_le)

lemma entry_off_append: "i \<le> length xs \<Longrightarrow> entry_off (xs @ ys) i = entry_off xs i"
  by (simp add: entry_off_def)

lemma entry_off_all: "entry_off xs (length xs) = length (entries_bytes xs)"
  by (simp add: entry_off_def)

lemma entries_bytes_Nil_iff: "entries_bytes xs = [] \<longleftrightarrow> xs = []"
  using entry_bytes_length [of "hd xs"] by (cases xs) auto

section \<open>The builder builds this layout\<close>

lemma shared_loop_spec: "shared_loop a b \<le> length a \<and> shared_loop a b \<le> length b \<and> take (shared_loop a b) a = take (shared_loop a b) b"
  by (induction a b rule: shared_loop.induct) auto

definition bb_inv :: "int \<Rightarrow> BlockBuilder \<Rightarrow> entry list \<Rightarrow> nat list \<Rightarrow> bool" where
  "bb_inv interval b xs rs \<longleftrightarrow> block_ok xs rs \<and> \<not> bb_finished b \<and> bb_counter b \<le> interval \<and> (xs = [] \<longrightarrow> bb_counter b = 0) \<and>
     bb_buffer b = entries_bytes xs \<and> bb_restarts b = map (\<lambda>i. of_nat (entry_off xs i)) rs \<and> bb_last_key b = last_key [] xs"

lemma bb_inv_new: "1 \<le> interval \<Longrightarrow> bb_inv interval \<lparr>bb_buffer = [], bb_restarts = [0], bb_counter = 0, bb_finished = False, bb_last_key = []\<rparr> [] [0]"
  by (simp add: bb_inv_def block_ok_def last_key_def)

lemma bb_inv_Reset: "1 \<le> interval \<Longrightarrow> bb_inv interval (bb_Reset b) [] [0]"
  by (simp add: bb_inv_def block_ok_def last_key_def bb_Reset_def)

lemma block_ok_snoc:
  assumes "block_ok xs rs" "s \<le> length (last_key [] xs)" "s \<le> length k" "take s (last_key [] xs) = take s k"
    and "rs' = rs \<and> (xs = [] \<longrightarrow> s = 0) \<or> rs' = rs @ [length xs] \<and> s = 0 \<and> xs \<noteq> []"
  shows "block_ok (xs @ [(s, k, v)]) rs'"
proof -
  have b: "chain [] xs" "rs \<noteq> []" "rs ! 0 = 0" "sorted_wrt (<) rs" "\<forall>r \<in> set rs. if xs = [] then r = 0 else r < length xs \<and> fst (xs ! r) = 0"
    using assms(1) by (auto simp: block_ok_def)
  have r: "\<forall>r \<in> set rs. xs \<noteq> [] \<longrightarrow> r < length xs" using b(5) by (auto split: if_splits)
  have "chain [] (xs @ [(s, k, v)])" using assms(2-4) b(1) by (simp add: chain_append)
  moreover have "rs' \<noteq> []" "rs' ! 0 = 0" using assms(5) b(2,3) by (auto simp: nth_append)
  moreover have "sorted_wrt (<) rs'" using assms(5) b(4) r by (auto simp: sorted_wrt_append)
  moreover have "\<forall>r \<in> set rs'. r < length (xs @ [(s, k, v)]) \<and> fst ((xs @ [(s, k, v)]) ! r) = 0"
    using assms(5) b(5) by (cases "xs = []") (auto simp: nth_append)
  ultimately show ?thesis by (simp add: block_ok_def)
qed

lemma bb_Add_inv:
  assumes inv: "bb_inv (opt_restart_interval opts) b xs rs" and int: "1 \<le> opt_restart_interval opts"
    and ord: "xs \<noteq> [] \<longrightarrow> (\<exists>c. cmp_Compare (opt_comparator opts) k (last_key [] xs) = Inr c \<and> 0 < c)"
  shows "\<exists>b' s rs'. bb_Add opts k v b = Inr b' \<and> bb_inv (opt_restart_interval opts) b' (xs @ [(s, k, v)]) rs'"
proof -
  let ?n = "opt_restart_interval opts"
  have b: "block_ok xs rs" "\<not> bb_finished b" "bb_counter b \<le> ?n" "xs = [] \<longrightarrow> bb_counter b = 0" "bb_buffer b = entries_bytes xs"
      "bb_restarts b = map (\<lambda>i. of_nat (entry_off xs i)) rs" "bb_last_key b = last_key [] xs"
    using inv by (auto simp: bb_inv_def)
  have ordered: "(if bb_buffer b = [] then Inr True else bindR (cmp_Compare (opt_comparator opts) k (bb_last_key b)) (\<lambda>c. Inr (0 < c))) = Inr True"
    using ord b(5,7) entries_bytes_Nil_iff [of xs] by auto
  define s where "s = (if bb_counter b < ?n then shared_loop (bb_last_key b) k else 0)"
  define rs' where "rs' = (if bb_counter b < ?n then rs else rs @ [length xs])"
  have s: "s \<le> length (last_key [] xs)" "s \<le> length k" "take s (last_key [] xs) = take s k"
    using shared_loop_spec [of "bb_last_key b" k] b(7) by (auto simp: s_def)
  have "xs = [] \<longrightarrow> s = 0" using s(1) by (auto simp: last_key_def)
  moreover have "\<not> bb_counter b < ?n \<Longrightarrow> xs \<noteq> []" using b(4) int by auto
  ultimately have ok: "block_ok (xs @ [(s, k, v)]) rs'"
    using block_ok_snoc [OF b(1) s, of rs' v] by (auto simp: s_def rs'_def)
  have rlen: "\<forall>r \<in> set rs. r \<le> length xs" using b(1) by (auto simp: block_ok_def split: if_splits intro: less_imp_le)
  have lk: "take s (bb_last_key b) @ take (length k - s) (drop s k) = k" using s b(7) by simp
  let ?b' = "\<lparr>bb_buffer = entries_bytes (xs @ [(s, k, v)]), bb_restarts = map (\<lambda>i. of_nat (entry_off (xs @ [(s, k, v)]) i)) rs',
     bb_counter = (if bb_counter b < ?n then bb_counter b else 0) + 1, bb_finished = False, bb_last_key = k\<rparr>"
  have rest: "map (\<lambda>i. of_nat (entry_off (xs @ [(s, k, v)]) i)) rs' = (if bb_counter b < ?n then bb_restarts b else bb_restarts b @ [of_nat (length (bb_buffer b))])"
    using rlen b(5,6) by (simp add: rs'_def entry_off_append entry_off_all)
  have "bb_Add opts k v b = Inr ?b'"
    unfolding bb_Add_def ordered using b(2,3,5) lk rest
    by (cases "bb_counter b < ?n") (simp_all add: s_def PutVarint32_def)
  moreover have "bb_inv ?n ?b' (xs @ [(s, k, v)]) rs'"
    using ok int b(3) by (simp add: bb_inv_def last_key_def)
  ultimately show ?thesis by blast
qed


end
