(* ===== verification/Ldb_Block_Iter.thy ===== *)
theory Ldb_Block_Iter
  imports Ldb_Block
begin

text \<open>
  The iterator of a block (\<^verbatim>\<open>table/block.cc\<close>) on the layout of \<^verbatim>\<open>Ldb_Block\<close>: where it stands, what each movement does, the binary
  search of \<open>Seek\<close> for every comparator that meets \<open>key_comparator\<close>, and the refinement of a cursor over the list of pairs that were
  added. The last part is about blocks with arbitrary contents: every operation ends, and one check of sizes wraps around.
\<close>

section \<open>Reading entries\<close>

definition readable :: "entry list \<Rightarrow> nat list \<Rightarrow> bool" where
  "readable xs rs \<longleftrightarrow> block_ok xs rs \<and> length (block_bytes xs rs) < 2 ^ 32"

abbreviation data_end :: "entry list \<Rightarrow> nat" where
  "data_end xs \<equiv> entry_off xs (length xs)"

lemma block_bytes_length: "length (block_bytes xs rs) = data_end xs + 4 * length rs + 4"
  using length_concat_encode [of "map (entry_off xs) rs"] by (simp add: block_bytes_def entry_off_all)

lemma readable_bounds:
  assumes "readable xs rs"
  shows "data_end xs + 4 * length rs + 4 < 2 ^ 32" "0 < length rs"
    and "i \<le> length xs \<Longrightarrow> unat (of_nat (entry_off xs i) :: u32) = entry_off xs i"
    and "j \<le> length rs \<Longrightarrow> unat (of_nat j :: u32) = j"
proof -
  show b: "data_end xs + 4 * length rs + 4 < 2 ^ 32" "0 < length rs"
    using assms by (simp_all add: readable_def block_bytes_length block_ok_def)
  show "unat (of_nat (entry_off xs i) :: u32) = entry_off xs i" if "i \<le> length xs"
    using entry_off_mono [OF that, of xs] b(1) by (simp add: unat_of_nat)
  show "unat (of_nat j :: u32) = j" if "j \<le> length rs" using that b(1) by (simp add: unat_of_nat)
qed

lemma restart_points:
  assumes "readable xs rs" "j < length rs"
  shows "rs ! j \<le> length xs" "xs \<noteq> [] \<Longrightarrow> rs ! j < length xs \<and> fst (xs ! (rs ! j)) = 0" "rs ! 0 = 0"
    and "j' < length rs \<Longrightarrow> rs ! j < rs ! j' \<longleftrightarrow> j < j'"
proof -
  have ok: "block_ok xs rs" using assms(1) by (simp add: readable_def)
  have m: "rs ! j \<in> set rs" using assms(2) by simp
  show "rs ! j \<le> length xs" using ok m by (auto simp: block_ok_def split: if_splits intro: less_imp_le)
  show "rs ! j < length xs \<and> fst (xs ! (rs ! j)) = 0" if "xs \<noteq> []" using ok m that by (simp add: block_ok_def)
  show "rs ! 0 = 0" using ok by (simp add: block_ok_def)
  have s: "sorted_wrt (<) rs" using ok by (simp add: block_ok_def)
  show "rs ! j < rs ! j' \<longleftrightarrow> j < j'" if "j' < length rs"
    using sorted_wrt_nth_less [OF s] that assms(2) by (metis linorder_cases order_less_asym order_less_irrefl)
qed

definition reads :: "BlockIter \<Rightarrow> Comparator \<Rightarrow> entry list \<Rightarrow> nat list \<Rightarrow> bool" where
  "reads it C xs rs \<longleftrightarrow> readable xs rs \<and> it_comparator it = C \<and> it_data it = block_bytes xs rs \<and>
     it_restarts it = of_nat (data_end xs) \<and> it_num_restarts it = of_nat (length rs)"

lemma reads_readable: "reads it C xs rs \<Longrightarrow> readable xs rs"
  by (simp add: reads_def)

lemma GetRestartPoint_at:
  assumes "reads it C xs rs" "j < length rs"
  shows "GetRestartPoint it (of_nat j) = Inr (of_nat (entry_off xs (rs ! j)))"
proof -
  note b = readable_bounds [OF reads_readable [OF assms(1)]]
  have lt: "(of_nat j :: u32) < it_num_restarts it" using assms b(4) [of j] b(4) [of "length rs"] by (simp add: reads_def word_less_nat_alt)
  have off: "unat (it_restarts it) + unat (of_nat j :: u32) * 4 = length (entries_bytes xs) + j * 4"
    using assms b(3) [of "length xs"] b(4) [of j] by (simp add: reads_def entry_off_all)
  have "DecodeFixed32 (drop (length (entries_bytes xs) + j * 4) (block_bytes xs rs)) = Inr (of_nat (entry_off xs (rs ! j)))"
    using concat_encode_nth [of j "map (entry_off xs) rs" "EncodeFixed32 (of_nat (length rs))"] assms(2)
    unfolding block_bytes_def drop_append by simp
  then show ?thesis unfolding GetRestartPoint_def off using lt assms(1) by (simp add: reads_def)
qed

lemma DecodeEntry_slow:
  assumes "3 \<le> length p"
  shows "DecodeEntry p = (case GetVarint32Ptr p of None \<Rightarrow> None | Some (s, p) \<Rightarrow>
           (case GetVarint32Ptr p of None \<Rightarrow> None | Some (n, p) \<Rightarrow>
           (case GetVarint32Ptr p of None \<Rightarrow> None | Some (v, p) \<Rightarrow> if of_nat (length p) < n + v then None else Some (s, n, v, p))))"
proof -
  obtain a b c q where p: "p = a # b # c # q"
    using assms by (metis Suc_le_length_iff numeral_3_eq_3)
  show ?thesis
  proof (cases "ucast a OR ucast b OR ucast c < (128 :: u32)")
    case True
    have small: "x AND 128 = 0" if "x < 128" for x :: u32
    proof (rule bit_word_eqI)
      fix n assume "n < LENGTH(32)"
      have "\<not> bit (unat x) 7" using that by (simp add: word_less_nat_alt bit_iff_odd)
      then have "\<not> bit x 7" by (simp add: bit_unsigned_iff)
      with bit_exp_iff [of 7 n, where 'a = "32 word"] show "bit (x AND 128) n = bit 0 n" by (auto simp: bit_and_iff)
    qed
    have le: "x \<le> x OR y" for x y :: u32 by (rule le_word_or2)
    have "ucast a < (128 :: u32)" "ucast b < (128 :: u32)" "ucast c < (128 :: u32)"
      using True le [of "ucast a" "ucast b OR ucast c"] le [of "ucast b" "ucast a OR ucast c"] le [of "ucast c" "ucast a OR ucast b"]
      by (auto simp: or.left_commute or.commute or.assoc intro: order_le_less_trans)
    then show ?thesis using True small by (simp add: p DecodeEntry_def GetVarint32Ptr_def)
  next
    case False
    then show ?thesis by (simp add: p DecodeEntry_def split: option.splits)
  qed
qed


text \<open>The entry with index \<open>i\<close>, decoded where it starts.\<close>

lemma split_entries:
  assumes "i < length xs"
  shows "entries_bytes xs = entries_bytes (take i xs) @ entry_bytes (xs ! i) @ entries_bytes (drop (Suc i) xs)"
proof -
  have "xs = take i xs @ xs ! i # drop (Suc i) xs" using assms by (rule id_take_nth_drop)
  then show ?thesis by (metis concat.simps(2) concat_append list.map(2) map_append)
qed

lemma chain_nth:
  assumes "chain p xs" "i < length xs" "xs ! i = (s, k, v)"
  shows "let q = (if i = 0 then p else entry_key (xs ! (i - 1))) in s \<le> length q \<and> s \<le> length k \<and> take s q = take s k"
  using assms
proof (induction p xs arbitrary: i rule: chain.induct)
  case (2 p s' k' v' xs)
  show ?case
  proof (cases i)
    case 0
    then show ?thesis using "2.prems" by simp
  next
    case (Suc j)
    then show ?thesis using "2.IH" [of j] "2.prems" by (cases j) (simp_all add: Let_def)
  qed
qed simp

lemma key_bound:
  assumes "chain [] xs" "i < length xs"
  shows "length (entry_key (xs ! i)) \<le> entry_off xs (Suc i) \<and> fst (xs ! i) \<le> length (entry_key (xs ! i))"
  using assms(2)
proof (induction i)
  case 0
  then obtain s k v ys where xs: "xs = (s, k, v) # ys" by (cases xs) auto
  then show ?case using assms(1) by (simp add: entry_off_Suc)
next
  case (Suc i)
  obtain s k v where e: "xs ! Suc i = (s, k, v)" by (cases "xs ! Suc i")
  have "s \<le> length (entry_key (xs ! i))" "s \<le> length k" using chain_nth [OF assms(1) Suc.prems e] by (simp_all add: Let_def)
  moreover have "entry_off xs (Suc (Suc i)) = entry_off xs (Suc i) + length (entry_bytes (s, k, v))"
    using entry_off_Suc [OF Suc.prems] e by (simp only:)
  moreover have "length k - s \<le> length (entry_bytes (s, k, v))" by simp
  ultimately show ?case using Suc.IH Suc.prems unfolding e fst_conv snd_conv by linarith
qed

lemma DecodeEntry_at:
  assumes r: "readable xs rs" and i: "i < length xs" and e: "xs ! i = (s, k, v)" and s: "s \<le> length k"
  defines "p \<equiv> drop s k @ v @ entries_bytes (drop (Suc i) xs)"
  shows "DecodeEntry (take (data_end xs - entry_off xs i) (drop (entry_off xs i) (block_bytes xs rs))) =
      Some (of_nat s, of_nat (length k - s), of_nat (length v), p)
    \<and> unat (of_nat s :: u32) = s \<and> unat (of_nat (length k - s) :: u32) = length k - s \<and> unat (of_nat (length v) :: u32) = length v
    \<and> data_end xs - length p + (length k - s) + length v = entry_off xs (Suc i) \<and> length p \<le> data_end xs
    \<and> load_bytes (block_bytes xs rs) (int (data_end xs - length p)) (length k - s) = Inr (drop s k)"
proof -
  let ?d = "entries_bytes (drop (Suc i) xs)" and ?t = "concat (map (\<lambda>n. EncodeFixed32 (of_nat n)) (map (entry_off xs) rs)) @ EncodeFixed32 (of_nat (length rs))"
  let ?h = "EncodeVarint32 (of_nat s) @ EncodeVarint32 (of_nat (length k - s)) @ EncodeVarint32 (of_nat (length v))"
  have B: "block_bytes xs rs = entries_bytes (take i xs) @ (?h @ p) @ ?t"
    unfolding block_bytes_def split_entries [OF i] e p_def by simp
  have D: "data_end xs = entry_off xs i + length (?h @ p)"
    unfolding entry_off_all split_entries [OF i] e p_def by (simp add: entry_off_def)
  have off: "length (entries_bytes (take i xs)) = entry_off xs i" by (simp add: entry_off_def)
  have region: "take (data_end xs - entry_off xs i) (drop (entry_off xs i) (block_bytes xs rs)) = ?h @ p"
    unfolding B D off [symmetric] by simp
  note b = readable_bounds(1) [OF r]
  have "chain [] xs" using r by (simp add: readable_def block_ok_def)
  then have "length k < 2 ^ 32" using key_bound [of xs i] e i entry_off_mono [of "Suc i" "length xs" xs] b by simp
  moreover have "length v < 2 ^ 32" using D b by (simp add: p_def)
  ultimately have u: "unat (of_nat s :: u32) = s" "unat (of_nat (length k - s) :: u32) = length k - s" "unat (of_nat (length v) :: u32) = length v"
    using s by (simp_all add: unat_of_nat del: of_nat_diff)
  have "3 \<le> length (?h @ p)" using entry_bytes_length [of "(s, k, v)"] by (simp add: p_def)
  moreover have V: "GetVarint32Ptr (EncodeVarint32 x @ q) = Some (x, q)" for x q using GetVarint_Put(1) [of x q] by (simp add: GetVarint32_def)
  moreover have "\<not> of_nat (length p) < (of_nat (length k - s) + of_nat (length v) :: u32)"
  proof -
    have "(of_nat (length k - s) + of_nat (length v) :: u32) = of_nat (length k - s + length v)" by simp
    moreover have "length k - s + length v \<le> length p" "length p < 2 ^ 32" using D b by (simp_all add: p_def)
    ultimately show ?thesis by (simp add: word_less_nat_alt unat_of_nat del: of_nat_add of_nat_diff)
  qed
  ultimately have "DecodeEntry (?h @ p) = Some (of_nat s, of_nat (length k - s), of_nat (length v), p)"
    by (simp add: DecodeEntry_slow)
  moreover have "data_end xs - length p + (length k - s) + length v = entry_off xs (Suc i)" "length p \<le> data_end xs"
    using D e entry_off_Suc [OF i] by (simp_all add: p_def)
  moreover have "load_bytes (block_bytes xs rs) (int (data_end xs - length p)) (length k - s) = Inr (drop s k)"
  proof -
    have "block_bytes xs rs = (entries_bytes (take i xs) @ ?h) @ p @ ?t" unfolding B by simp
    moreover have "data_end xs - length p = length (entries_bytes (take i xs) @ ?h)" using D by (simp add: off)
    ultimately show ?thesis by (simp only: load_bytes_def) (simp add: p_def)
  qed
  ultimately show ?thesis using region u by simp
qed


section \<open>Positions of the iterator\<close>

text \<open>The iterator stands on entry \<open>i\<close>; it is about to parse entry \<open>i\<close>; it has come to the end.\<close>

definition at_entry :: "BlockIter \<Rightarrow> Comparator \<Rightarrow> entry list \<Rightarrow> nat list \<Rightarrow> nat \<Rightarrow> bool" where
  "at_entry it C xs rs i \<longleftrightarrow> reads it C xs rs \<and> i < length xs \<and> it_current it = of_nat (entry_off xs i) \<and> it_key it = entry_key (xs ! i) \<and>
     it_value it = Some (entry_off xs (Suc i) - length (entry_value (xs ! i)), length (entry_value (xs ! i))) \<and>
     (\<exists>j < length rs. it_restart_index it = of_nat j \<and> rs ! j \<le> i \<and> (Suc j < length rs \<longrightarrow> i \<le> rs ! Suc j))"

definition before_entry :: "BlockIter \<Rightarrow> Comparator \<Rightarrow> entry list \<Rightarrow> nat list \<Rightarrow> nat \<Rightarrow> bool" where
  "before_entry it C xs rs i \<longleftrightarrow> reads it C xs rs \<and> i \<le> length xs \<and> (\<exists>off len. it_value it = Some (off, len) \<and> off + len = entry_off xs i) \<and>
     (i < length xs \<longrightarrow> fst (xs ! i) \<le> length (it_key it) \<and> take (fst (xs ! i)) (it_key it) = take (fst (xs ! i)) (entry_key (xs ! i))) \<and>
     (\<exists>j < length rs. it_restart_index it = of_nat j \<and> rs ! j \<le> i)"

definition exhausted :: "BlockIter \<Rightarrow> Comparator \<Rightarrow> entry list \<Rightarrow> nat list \<Rightarrow> bool" where
  "exhausted it C xs rs \<longleftrightarrow> reads it C xs rs \<and> \<not> it_Valid it"

lemma readable_chain: "readable xs rs \<Longrightarrow> chain [] xs"
  by (simp add: readable_def block_ok_def)

lemma entry_value_end: "i < length xs \<Longrightarrow> length (entry_value (xs ! i)) \<le> entry_off xs (Suc i)"
  by (cases "xs ! i") (simp add: entry_off_Suc)

lemma at_before: "at_entry it C xs rs i \<Longrightarrow> before_entry it C xs rs (Suc i)"
proof -
  assume a: "at_entry it C xs rs i"
  then have r: "reads it C xs rs" and i: "i < length xs" by (simp_all add: at_entry_def)
  have "fst (xs ! Suc i) \<le> length (it_key it) \<and> take (fst (xs ! Suc i)) (it_key it) = take (fst (xs ! Suc i)) (entry_key (xs ! Suc i))"
    if "Suc i < length xs"
  proof -
    obtain s k v where e: "xs ! Suc i = (s, k, v)" by (cases "xs ! Suc i")
    then show ?thesis using chain_nth [OF readable_chain [OF reads_readable [OF r]] that e] a by (simp add: Let_def at_entry_def)
  qed
  then show ?thesis using a entry_value_end [OF i] by (auto simp: before_entry_def at_entry_def)
qed

lemma SeekToRestartPoint_at:
  assumes "reads it C xs rs" "j < length rs"
  shows "\<exists>it'. SeekToRestartPoint (of_nat j) it = Inr it' \<and> before_entry it' C xs rs (rs ! j) \<and> it_status it' = it_status it"
proof -
  note r = reads_readable [OF assms(1)]
  let ?it = "it\<lparr>it_key := [], it_restart_index := of_nat j, it_value := Some (unat (of_nat (entry_off xs (rs ! j)) :: u32), 0)\<rparr>"
  have "SeekToRestartPoint (of_nat j) it = Inr ?it" using GetRestartPoint_at [OF assms] by (simp add: SeekToRestartPoint_def)
  moreover have "before_entry ?it C xs rs (rs ! j)"
    using assms restart_points(1,2) [OF r assms(2)] readable_bounds(3) [OF r, of "rs ! j"]
    by (cases "xs = []") (auto simp: before_entry_def reads_def)
  ultimately show ?thesis by auto
qed

lemma of_nat_Suc_less:
  assumes "readable xs rs" "j < length rs"
  shows "(of_nat j + 1 < (of_nat (length rs) :: u32)) \<longleftrightarrow> Suc j < length rs"
proof -
  have "(of_nat j + 1 :: u32) = of_nat (Suc j)" by simp
  moreover have "unat (of_nat (Suc j) :: u32) = Suc j" "unat (of_nat (length rs) :: u32) = length rs"
    using readable_bounds(4) [OF assms(1)] assms(2) by (simp_all del: of_nat_Suc)
  ultimately show ?thesis by (simp only: word_less_nat_alt)
qed

lemma restart_loop_at:
  assumes "reads it C xs rs" "it_current it = of_nat (entry_off xs i)" "i < length xs" "j < length rs" "rs ! j \<le> i"
  shows "\<exists>j' < length rs. restart_loop it (of_nat j) = Inr (of_nat j') \<and> rs ! j' \<le> i \<and> (Suc j' < length rs \<longrightarrow> i \<le> rs ! Suc j')"
  using assms(4,5)
proof (induction "length rs - j" arbitrary: j)
  case (Suc d)
  note r = reads_readable [OF assms(1)]
  have e: "(of_nat j + 1 :: u32) = of_nat (Suc j)" by simp
  show ?case
  proof (cases "Suc j < length rs")
    case True
    have off: "(of_nat (entry_off xs (rs ! Suc j)) :: u32) < of_nat (entry_off xs i) \<longleftrightarrow> rs ! Suc j < i"
      using entry_off_less_iff [OF restart_points(1) [OF r True], of i] assms(3) readable_bounds(3) [OF r] restart_points(1) [OF r True]
      by (simp add: word_less_nat_alt)
    have step: "restart_loop it (of_nat j) = (if rs ! Suc j < i then restart_loop it (of_nat (Suc j)) else Inr (of_nat j))"
      using GetRestartPoint_at [OF assms(1) True] of_nat_Suc_less [OF r Suc.prems(1)] True off assms(1,2)
      by (subst restart_loop.simps) (simp add: reads_def e del: of_nat_Suc)
    show ?thesis
    proof (cases "rs ! Suc j < i")
      case less: True
      then show ?thesis using Suc.hyps(1) [of "Suc j"] Suc.hyps(2) True step by simp
    next
      case False
      then show ?thesis using step Suc.prems by (intro exI [of _ j]) simp
    qed
  next
    case False
    then have "restart_loop it (of_nat j) = Inr (of_nat j)"
      using of_nat_Suc_less [OF r Suc.prems(1)] assms(1) by (subst restart_loop.simps) (simp add: reads_def)
    then show ?thesis using Suc.prems False by (intro exI [of _ j]) simp
  qed
qed simp

lemma ParseNextKey_entry:
  assumes "before_entry it C xs rs i" "i < length xs"
  shows "\<exists>it'. ParseNextKey it = Inr (True, it') \<and> at_entry it' C xs rs i \<and> it_status it' = it_status it"
proof -
  obtain s k v where e: "xs ! i = (s, k, v)" by (cases "xs ! i")
  have rd: "reads it C xs rs" using assms(1) by (simp add: before_entry_def)
  note r = reads_readable [OF rd]
  obtain off len where val: "it_value it = Some (off, len)" "off + len = entry_off xs i" using assms(1) by (auto simp: before_entry_def)
  obtain j where j: "j < length rs" "it_restart_index it = of_nat j" "rs ! j \<le> i" using assms(1) by (auto simp: before_entry_def)
  have key: "s \<le> length (it_key it)" "take s (it_key it) = take s k" using assms e by (auto simp: before_entry_def)
  have s: "s \<le> length k" using key_bound [OF readable_chain [OF r] assms(2)] e by simp
  define p where "p = drop s k @ v @ entries_bytes (drop (Suc i) xs)"
  note d = DecodeEntry_at [OF r assms(2) e s, folded p_def]
  have R: "it_restarts it = of_nat (data_end xs)" "unat (it_restarts it) = data_end xs" "it_data it = block_bytes xs rs"
    using rd readable_bounds(3) [OF r, of "length xs"] by (simp_all add: reads_def)
  have o: "unat (of_nat (entry_off xs i) :: u32) = entry_off xs i" using readable_bounds(3) [OF r, of i] assms(2) by simp
  have lt: "\<not> it_restarts it \<le> (of_nat (entry_off xs i) :: u32)"
    using entry_off_less [OF assms(2), of xs] R(2) o by (simp add: word_le_nat_alt not_le)
  let ?it = "it\<lparr>it_current := of_nat (entry_off xs i), it_key := k, it_value := Some (data_end xs - length p + (length k - s), length v)\<rparr>"
  have rd': "reads ?it C xs rs" using rd by (simp add: reads_def)
  obtain j' where j': "j' < length rs" "restart_loop ?it (of_nat j) = Inr (of_nat j')" "rs ! j' \<le> i" "Suc j' < length rs \<longrightarrow> i \<le> rs ! Suc j'"
    using restart_loop_at [OF rd' _ assms(2) j(1,3)] by auto
  have nx: "NextEntryOffset it = Inr (of_nat (entry_off xs i))" by (simp only: NextEntryOffset_def val option.case prod.case)
  have "ParseNextKey it = Inr (True, ?it\<lparr>it_restart_index := of_nat j'\<rparr>)"
    unfolding ParseNextKey_def nx bindR_Inr Let_def using lt R o d key j(2) j'(2) by (simp del: of_nat_diff)
  moreover have "at_entry (?it\<lparr>it_restart_index := of_nat j'\<rparr>) C xs rs i"
    using rd' assms(2) e d j' by (auto simp: at_entry_def reads_def)
  ultimately show ?thesis by fastforce
qed

lemma ParseNextKey_end:
  assumes "before_entry it C xs rs (length xs)"
  shows "\<exists>it'. ParseNextKey it = Inr (False, it') \<and> exhausted it' C xs rs \<and> it_status it' = it_status it"
proof -
  have rd: "reads it C xs rs" using assms by (simp add: before_entry_def)
  obtain off len where val: "it_value it = Some (off, len)" "off + len = data_end xs" using assms by (auto simp: before_entry_def)
  have "it_restarts it = of_nat (data_end xs)" using rd by (simp add: reads_def)
  then have "NextEntryOffset it = Inr (it_restarts it)" by (simp only: NextEntryOffset_def val option.case prod.case)
  then show ?thesis using rd by (simp add: ParseNextKey_def exhausted_def reads_def it_Valid_def)
qed


section \<open>Moving through a block\<close>

text \<open>Where the iterator stands, as a position in the list of the entries; \<open>None\<close> when it is not valid.\<close>

definition stands :: "BlockIter \<Rightarrow> Comparator \<Rightarrow> entry list \<Rightarrow> nat list \<Rightarrow> nat option \<Rightarrow> bool" where
  "stands it C xs rs c \<longleftrightarrow> (case c of None \<Rightarrow> exhausted it C xs rs | Some i \<Rightarrow> at_entry it C xs rs i)"

lemma stands_simps [simp]:
  "stands it C xs rs None \<longleftrightarrow> exhausted it C xs rs" "stands it C xs rs (Some i) \<longleftrightarrow> at_entry it C xs rs i"
  by (simp_all add: stands_def)

lemma stands_reads: "stands it C xs rs c \<Longrightarrow> reads it C xs rs"
  by (auto simp: stands_def exhausted_def at_entry_def split: option.splits)

lemma entry_value_bytes:
  assumes "readable xs rs" "i < length xs"
  shows "load_bytes (block_bytes xs rs) (int (entry_off xs (Suc i) - length (entry_value (xs ! i)))) (length (entry_value (xs ! i))) = Inr (entry_value (xs ! i))"
proof -
  obtain s k v where e: "xs ! i = (s, k, v)" by (cases "xs ! i")
  let ?h = "entries_bytes (take i xs) @ EncodeVarint32 (of_nat s) @ EncodeVarint32 (of_nat (length k - s)) @ EncodeVarint32 (of_nat (length v)) @ drop s k"
  have B: "\<exists>t. block_bytes xs rs = ?h @ v @ t" unfolding block_bytes_def split_entries [OF assms(2)] e by simp
  have "entry_off xs (Suc i) - length v = length ?h" using entry_off_Suc [OF assms(2)] e by (simp add: entry_off_def)
  then show ?thesis using B unfolding e snd_conv by (auto simp: load_bytes_def)
qed

lemma at_entry_read:
  assumes "at_entry it C xs rs i"
  shows "it_Valid it" "iter_key it = Inr (entry_key (xs ! i))" "iter_value it = Inr (entry_value (xs ! i))"
proof -
  have rd: "reads it C xs rs" and i: "i < length xs" and a: "it_current it = of_nat (entry_off xs i)" "it_key it = entry_key (xs ! i)"
      "it_value it = Some (entry_off xs (Suc i) - length (entry_value (xs ! i)), length (entry_value (xs ! i)))"
    using assms by (simp_all add: at_entry_def)
  note r = reads_readable [OF rd]
  show v: "it_Valid it" using entry_off_less [OF i, of xs] readable_bounds(3) [OF r, of i] readable_bounds(3) [OF r, of "length xs"] i rd a(1)
    by (simp add: it_Valid_def reads_def word_less_nat_alt)
  show "iter_key it = Inr (entry_key (xs ! i))" using v a by (simp add: iter_key_def)
  have "it_data it = block_bytes xs rs" using rd by (simp add: reads_def)
  then show "iter_value it = Inr (entry_value (xs ! i))" unfolding iter_value_def using v a(3) entry_value_bytes [OF r i] by (simp del: of_nat_diff)
qed

lemma exhausted_read:
  assumes "exhausted it C xs rs"
  shows "\<not> it_Valid it" "iter_key it = Inl Assert_failed" "iter_value it = Inl Assert_failed"
  using assms by (simp_all add: exhausted_def iter_key_def iter_value_def)

text \<open>One more entry.\<close>

definition position :: "'a list \<Rightarrow> nat \<Rightarrow> nat option" where
  "position xs i = (if i < length xs then Some i else None)"

lemma ParseNextKey_next:
  assumes "before_entry it C xs rs i"
  shows "\<exists>it'. ParseNextKey it = Inr (i < length xs, it') \<and> stands it' C xs rs (position xs i) \<and> it_status it' = it_status it"
proof (cases "i < length xs")
  case True
  then show ?thesis using ParseNextKey_entry [OF assms] by (simp add: position_def)
next
  case False
  then have "i = length xs" using assms by (simp add: before_entry_def)
  then show ?thesis using ParseNextKey_end assms by (simp add: position_def)
qed

lemma iter_Next_spec:
  assumes "at_entry it C xs rs i"
  shows "\<exists>it'. iter_Next it = Inr it' \<and> stands it' C xs rs (position xs (Suc i)) \<and> it_status it' = it_status it"
  using ParseNextKey_next [OF at_before [OF assms]] at_entry_read(1) [OF assms] by (auto simp: iter_Next_def)

lemma iter_SeekToFirst_spec:
  assumes "reads it C xs rs"
  shows "\<exists>it'. iter_SeekToFirst it = Inr it' \<and> stands it' C xs rs (position xs 0) \<and> it_status it' = it_status it"
proof -
  note r = reads_readable [OF assms]
  obtain it1 where "SeekToRestartPoint 0 it = Inr it1" "before_entry it1 C xs rs 0" "it_status it1 = it_status it"
    using SeekToRestartPoint_at [OF assms readable_bounds(2) [OF r]] restart_points(3) [OF r readable_bounds(2) [OF r]] by auto
  then show ?thesis using ParseNextKey_next [of it1 C xs rs 0] by (auto simp: iter_SeekToFirst_def)
qed

text \<open>Skipping to the entry that ends at a given offset.\<close>

lemma entry_end_offset:
  assumes "at_entry it C xs rs i"
  shows "NextEntryOffset it = Inr (of_nat (entry_off xs (Suc i)))"
proof -
  have i: "i < length xs" and v: "it_value it = Some (entry_off xs (Suc i) - length (entry_value (xs ! i)), length (entry_value (xs ! i)))"
    using assms by (simp_all add: at_entry_def)
  show ?thesis unfolding NextEntryOffset_def v option.case prod.case using entry_value_end [OF i] by (simp only: le_add_diff_inverse2)
qed

lemma parse_until_spec:
  assumes "before_entry it C xs rs m" "m < n" "n \<le> length xs"
  shows "\<exists>it'. parse_until (of_nat (entry_off xs n)) it = Inr it' \<and> at_entry it' C xs rs (n - 1) \<and> it_status it' = it_status it"
  using assms
proof (induction "n - m" arbitrary: it m)
  case (Suc d)
  have m: "m < length xs" using Suc.prems by simp
  obtain it1 where p: "ParseNextKey it = Inr (True, it1)" "at_entry it1 C xs rs m" "it_status it1 = it_status it"
    using ParseNextKey_entry [OF Suc.prems(1) m] by blast
  have r: "readable xs rs" using Suc.prems(1) by (auto simp: before_entry_def dest: reads_readable)
  have lt: "(of_nat (entry_off xs (Suc m)) :: u32) < of_nat (entry_off xs n) \<longleftrightarrow> Suc m < n"
    using readable_bounds(3) [OF r, of "Suc m"] readable_bounds(3) [OF r, of n] entry_off_less_iff [of "Suc m" xs n] m Suc.prems(3)
    by (simp add: word_less_nat_alt)
  have step: "parse_until (of_nat (entry_off xs n)) it = (if Suc m < n then parse_until (of_nat (entry_off xs n)) it1 else Inr it1)"
    using p(1) entry_end_offset [OF p(2)] lt by (subst parse_until.simps) simp
  show ?case
  proof (cases "Suc m < n")
    case True
    then show ?thesis using Suc.hyps(1) [OF _ at_before [OF p(2)] True Suc.prems(3)] Suc.hyps(2) step p(3) by simp
  next
    case False
    then have "n - 1 = m" using Suc.prems(2) by simp
    then show ?thesis using step p False by simp
  qed
qed simp

lemma parse_until_empty:
  assumes "before_entry it C [] rs 0"
  shows "\<exists>it'. parse_until limit it = Inr it' \<and> exhausted it' C [] rs \<and> it_status it' = it_status it"
  using ParseNextKey_end [of it C "[]" rs] assms by (subst parse_until.simps) auto

lemma of_nat_pred: "0 < n \<Longrightarrow> (of_nat n - 1 :: u32) = of_nat (n - 1)"
  by (cases n) simp_all

definition last_position :: "entry list \<Rightarrow> nat option" where
  "last_position xs = (if xs = [] then None else Some (length xs - 1))"

lemma iter_SeekToLast_spec:
  assumes "reads it C xs rs"
  shows "\<exists>it'. iter_SeekToLast it = Inr it' \<and> stands it' C xs rs (last_position xs) \<and> it_status it' = it_status it"
proof -
  note r = reads_readable [OF assms]
  let ?j = "length rs - 1"
  have j: "?j < length rs" using readable_bounds(2) [OF r] by simp
  have n: "it_num_restarts it - 1 = of_nat ?j" "it_restarts it = of_nat (data_end xs)" using assms j by (simp_all add: reads_def of_nat_pred)
  obtain it1 where s: "SeekToRestartPoint (of_nat ?j) it = Inr it1" "before_entry it1 C xs rs (rs ! ?j)" "it_status it1 = it_status it"
    using SeekToRestartPoint_at [OF assms j] by auto
  have n1: "it_restarts it1 = of_nat (data_end xs)" using s(2) by (simp add: before_entry_def reads_def)
  show ?thesis
  proof (cases "xs = []")
    case True
    then have "rs ! ?j = 0" using restart_points(1) [OF r j] by simp
    then show ?thesis using parse_until_empty [of it1 C rs] s True unfolding iter_SeekToLast_def n s(1) bindR_Inr last_position_def by simp
  next
    case False
    then have "rs ! ?j < length xs" using restart_points(2) [OF r j] by simp
    then show ?thesis using parse_until_spec [OF s(2), of "length xs"] s False unfolding iter_SeekToLast_def n s(1) bindR_Inr n1 last_position_def by simp
  qed
qed

lemma prev_scan_spec:
  assumes "reads it C xs rs" "i < length xs" "j < length rs" "rs ! j \<le> i"
  shows "if i = 0 then prev_scan it (of_nat (entry_off xs i)) (of_nat j) = Inr None
         else \<exists>j' < length rs. prev_scan it (of_nat (entry_off xs i)) (of_nat j) = Inr (Some (of_nat j')) \<and> rs ! j' < i"
  using assms(3,4)
proof (induction j)
  note r = reads_readable [OF assms(1)]
  have le: "(of_nat (entry_off xs i) :: u32) \<le> of_nat (entry_off xs (rs ! j)) \<longleftrightarrow> i \<le> rs ! j" if "j < length rs" for j
    using readable_bounds(3) [OF r, of i] readable_bounds(3) [OF r, of "rs ! j"] restart_points(1) [OF r that]
      entry_off_less_iff [of "rs ! j" xs i] assms(2) by (simp add: word_le_nat_alt not_less [symmetric])
  {
    case 0
    have "prev_scan it (of_nat (entry_off xs i)) (of_nat 0) = (if i \<le> rs ! 0 then Inr None else Inr (Some (of_nat 0)))"
      using GetRestartPoint_at [OF assms(1) 0(1)] le [OF 0(1)] by (subst prev_scan.simps) simp
    then show ?case using 0 restart_points(3) [OF r 0(1)] by auto
  next
    case (Suc j)
    have "unat (of_nat (Suc j) :: u32) \<noteq> unat (0 :: u32)" using readable_bounds(4) [OF r, of "Suc j"] Suc.prems(1) by (simp del: of_nat_Suc)
    then have nz: "(of_nat (Suc j) :: u32) \<noteq> 0" "(of_nat (Suc j) :: u32) - 1 = of_nat j" by metis simp
    have step: "prev_scan it (of_nat (entry_off xs i)) (of_nat (Suc j)) =
        (if i \<le> rs ! Suc j then prev_scan it (of_nat (entry_off xs i)) (of_nat j) else Inr (Some (of_nat (Suc j))))"
      using GetRestartPoint_at [OF assms(1) Suc.prems(1)] le [OF Suc.prems(1)] nz by (subst prev_scan.simps) (simp del: of_nat_Suc)
    have pos: "rs ! j < rs ! Suc j" using restart_points(4) [OF r _ Suc.prems(1), of j] Suc.prems(1) by simp
    show ?case
    proof (cases "i \<le> rs ! Suc j")
      case True
      then show ?thesis using step Suc.IH Suc.prems pos by auto
    next
      case False
      then show ?thesis using step Suc.prems by auto
    qed
  }
qed

lemma iter_Prev_spec:
  assumes "at_entry it C xs rs i"
  shows "\<exists>it'. iter_Prev it = Inr it' \<and> stands it' C xs rs (if i = 0 then None else Some (i - 1)) \<and> it_status it' = it_status it"
proof -
  obtain j where a: "reads it C xs rs" "i < length xs" "it_current it = of_nat (entry_off xs i)" "j < length rs" "it_restart_index it = of_nat j" "rs ! j \<le> i"
    using assms by (auto simp: at_entry_def)
  note scan = prev_scan_spec [OF a(1,2,4,6)]
  show ?thesis
  proof (cases "i = 0")
    case True
    then show ?thesis using scan a at_entry_read(1) [OF assms] by (auto simp: iter_Prev_def exhausted_def reads_def it_Valid_def)
  next
    case False
    then obtain j' where s: "j' < length rs" "prev_scan it (of_nat (entry_off xs i)) (of_nat j) = Inr (Some (of_nat j'))" "rs ! j' < i" using scan by auto
    obtain it1 where k: "SeekToRestartPoint (of_nat j') it = Inr it1" "before_entry it1 C xs rs (rs ! j')" "it_status it1 = it_status it"
      using SeekToRestartPoint_at [OF a(1) s(1)] by blast
    show ?thesis using parse_until_spec [OF k(2) s(3)] a s k False at_entry_read(1) [OF assms] by (auto simp: iter_Prev_def)
  qed
qed


section \<open>Seeking in a block\<close>

text \<open>The first entry whose key is not smaller than the target.\<close>

definition seek_position :: "(slice \<Rightarrow> slice \<Rightarrow> int) \<Rightarrow> slice \<Rightarrow> entry list \<Rightarrow> nat option" where
  "seek_position cmp target xs = position xs (length (takeWhile (\<lambda>e. cmp (entry_key e) target < 0) xs))"

lemma seek_position_eq:
  assumes "\<And>i. i < m \<Longrightarrow> cmp (entry_key (xs ! i)) target < 0" "m < length xs \<Longrightarrow> \<not> cmp (entry_key (xs ! m)) target < 0" "m \<le> length xs"
  shows "seek_position cmp target xs = position xs m"
proof -
  have "takeWhile (\<lambda>e. cmp (entry_key e) target < 0) xs = take m xs" using assms(1,2) by (intro takeWhile_eq_take_P_nth) auto
  then show ?thesis using assms(3) by (simp add: seek_position_def)
qed

lemma middle_index:
  assumes "readable xs rs" "l < h" "h < length rs"
  shows "(of_nat l + of_nat h + 1 :: u32) div 2 = of_nat ((l + h + 1) div 2)"
proof -
  have b: "l + h + 1 < 2 ^ 32" using readable_bounds(1) [OF assms(1)] assms(2,3) by simp
  have "(of_nat l + of_nat h + 1 :: u32) = of_nat (l + h + 1)" by simp
  then have "unat ((of_nat l + of_nat h + 1 :: u32) div 2) = unat (of_nat (l + h + 1) :: u32) div 2" by (simp only: unat_div) simp
  also have "\<dots> = (l + h + 1) div 2" using b by (simp add: unat_of_nat del: of_nat_add of_nat_Suc)
  also have "\<dots> = unat (of_nat ((l + h + 1) div 2) :: u32)" using b by (simp add: unat_of_nat del: of_nat_add of_nat_Suc)
  finally show ?thesis by (simp only: word_unat_eq_iff)
qed

definition keys_sorted :: "(slice \<Rightarrow> slice \<Rightarrow> int) \<Rightarrow> entry list \<Rightarrow> bool" where
  "keys_sorted cmp xs \<longleftrightarrow> sorted_wrt (\<lambda>a b. cmp (entry_key a) (entry_key b) < 0) xs"

context key_comparator
begin

lemma seek_probe_at:
  assumes "reads it C xs rs" "j < length rs" "xs \<noteq> []" "ok target" "\<forall>e \<in> set xs. ok (entry_key e)"
  shows "seek_probe it target (of_nat j) = Inr (Some (cmp (entry_key (xs ! (rs ! j))) target < 0))"
proof -
  note r = reads_readable [OF assms(1)]
  obtain k v where e: "xs ! (rs ! j) = (0, k, v)" and lt: "rs ! j < length xs"
    using restart_points(2) [OF r assms(2,3)] by (cases "xs ! (rs ! j)") auto
  have "ok k" using assms(5) nth_mem [OF lt] e by force
  then have c: "cmp_Compare C k target = Inr (cmp k target)" using assms(4) by (rule Compare_eq)
  have u: "unat (of_nat (entry_off xs (rs ! j)) :: u32) = entry_off xs (rs ! j)" "unat (it_restarts it) = data_end xs"
    using readable_bounds(3) [OF r, of "rs ! j"] readable_bounds(3) [OF r, of "length xs"] lt assms(1) by (simp_all add: reads_def)
  have f: "it_data it = block_bytes xs rs" "it_comparator it = C" using assms(1) by (simp_all add: reads_def)
  show ?thesis unfolding seek_probe_def GetRestartPoint_at [OF assms(1,2)] bindR_Inr u f
    using DecodeEntry_at [OF r lt e] c e by (simp del: of_nat_diff)
qed

lemma seek_search_at:
  assumes "reads it C xs rs" "xs \<noteq> []" "ok target" "\<forall>e \<in> set xs. ok (entry_key e)"
    and "l \<le> h" "h < length rs" "l = 0 \<or> cmp (entry_key (xs ! (rs ! l))) target < 0"
  shows "\<exists>m. seek_search it target (of_nat l) (of_nat h) = Some (Inr (Some (of_nat m))) \<and> m < length rs \<and> (m = 0 \<or> cmp (entry_key (xs ! (rs ! m))) target < 0)"
  using assms(5-7)
proof (induction "h - l" arbitrary: l h rule: less_induct)
  case less
  note r = reads_readable [OF assms(1)]
  have lt: "(of_nat l :: u32) < of_nat h \<longleftrightarrow> l < h"
    using readable_bounds(4) [OF r, of l] readable_bounds(4) [OF r, of h] less.prems by (simp add: word_less_nat_alt)
  show ?case
  proof (cases "l < h")
    case True
    define m where "m = (l + h + 1) div 2"
    have m: "l < m" "m \<le> h" "m < length rs" using True less.prems by (simp_all add: m_def)
    have m1: "(of_nat m - 1 :: u32) = of_nat (m - 1)" using m(1) by (simp add: of_nat_diff)
    note p = seek_probe_at [OF assms(1) m(3) assms(2-4)]
    have step: "seek_search it target (of_nat l) (of_nat h) =
        (if cmp (entry_key (xs ! (rs ! m))) target < 0 then seek_search it target (of_nat m) (of_nat h) else seek_search it target (of_nat l) (of_nat (m - 1)))"
      using True lt p m1 by (subst seek_search.simps) (simp add: middle_index [OF r True less.prems(2), folded m_def])
    show ?thesis
    proof (cases "cmp (entry_key (xs ! (rs ! m))) target < 0")
      case True
      have "h - m < h - l" using m by linarith
      then show ?thesis using less.hyps [of h m] m less.prems True step by simp
    next
      case False
      have "m - 1 - l < h - l" using m by linarith
      then show ?thesis using less.hyps [of "m - 1" l] m less.prems False step by simp
    qed
  next
    case False
    then show ?thesis using lt less.prems by (subst seek_search.simps) auto
  qed
qed

lemma seek_linear_at:
  assumes "before_entry it C xs rs m" "ok target" "\<forall>e \<in> set xs. ok (entry_key e)" "\<And>i. i < m \<Longrightarrow> cmp (entry_key (xs ! i)) target < 0"
  shows "\<exists>it'. seek_linear target it = Inr it' \<and> stands it' C xs rs (seek_position cmp target xs) \<and> it_status it' = it_status it"
  using assms(1,4)
proof (induction "length xs - m" arbitrary: it m)
  case 0
  then have m: "m = length xs" by (simp add: before_entry_def)
  moreover have "seek_position cmp target xs = position xs m" using "0.prems"(2) m by (intro seek_position_eq) auto
  ultimately show ?case using ParseNextKey_next [OF "0.prems"(1)] by (subst seek_linear.simps) (auto simp: position_def)
next
  case (Suc d)
  have lt: "m < length xs" using Suc.hyps(2) by simp
  obtain it1 where p: "ParseNextKey it = Inr (True, it1)" "at_entry it1 C xs rs m" "it_status it1 = it_status it"
    using ParseNextKey_entry [OF Suc.prems(1) lt] by blast
  have f: "it_comparator it1 = C" "it_key it1 = entry_key (xs ! m)" using p(2) by (simp_all add: at_entry_def reads_def)
  have "cmp_Compare C (entry_key (xs ! m)) target = Inr (cmp (entry_key (xs ! m)) target)" using assms(2,3) lt by (intro Compare_eq) simp_all
  then have step: "seek_linear target it = (if 0 \<le> cmp (entry_key (xs ! m)) target then Inr it1 else seek_linear target it1)"
    using p(1) f by (subst seek_linear.simps) simp
  show ?case
  proof (cases "0 \<le> cmp (entry_key (xs ! m)) target")
    case True
    then have "seek_position cmp target xs = position xs m" using Suc.prems(2) lt by (intro seek_position_eq) auto
    then show ?thesis using step True p lt by (simp add: position_def)
  next
    case False
    then have "\<And>i. i < Suc m \<Longrightarrow> cmp (entry_key (xs ! i)) target < 0" using Suc.prems(2) by (auto simp: less_Suc_eq)
    then show ?thesis using Suc.hyps(1) [OF _ at_before [OF p(2)]] Suc.hyps(2) step False p(3) by simp
  qed
qed

lemma iter_Seek_spec:
  assumes "reads it C xs rs" "ok target" "\<forall>e \<in> set xs. ok (entry_key e)" "keys_sorted cmp xs"
  shows "\<exists>it'. iter_Seek target it = Some (Inr it') \<and> stands it' C xs rs (seek_position cmp target xs) \<and> it_status it' = it_status it"
proof -
  note r = reads_readable [OF assms(1)]
  have n: "it_num_restarts it - 1 = of_nat (length rs - 1)" "0 < length rs" using assms(1) readable_bounds(2) [OF r] by (simp_all add: reads_def of_nat_pred)
  obtain m where m: "seek_search it target 0 (of_nat (length rs - 1)) = Some (Inr (Some (of_nat m)))" "m < length rs"
      "m = 0 \<or> xs \<noteq> [] \<and> cmp (entry_key (xs ! (rs ! m))) target < 0"
  proof (cases "xs = []")
    case True
    have "\<not> 1 < length rs"
    proof
      assume "1 < length rs"
      then show False using restart_points(4) [OF r n(2), of 1] restart_points(1) [OF r, of 1] True by simp
    qed
    then have "length rs = 1" using n(2) by linarith
    then show ?thesis using that [of 0] by (simp add: seek_search.simps)
  next
    case False
    then show ?thesis using seek_search_at [OF assms(1) False assms(2,3), of 0 "length rs - 1"] n(2) that by auto
  qed
  obtain it1 where s: "SeekToRestartPoint (of_nat m) it = Inr it1" "before_entry it1 C xs rs (rs ! m)" "it_status it1 = it_status it"
    using SeekToRestartPoint_at [OF assms(1) m(2)] by blast
  have "cmp (entry_key (xs ! i)) target < 0" if "i < rs ! m" for i
  proof -
    have m0: "xs \<noteq> []" "cmp (entry_key (xs ! (rs ! m))) target < 0" using m(3) that restart_points(3) [OF r m(2)] by auto
    have lt: "rs ! m < length xs" using restart_points(2) [OF r m(2) m0(1)] by simp
    have "cmp (entry_key (xs ! i)) (entry_key (xs ! (rs ! m))) < 0" 
      using sorted_wrt_nth_less [OF assms(4) [unfolded keys_sorted_def] that lt] .
    then show ?thesis using cmp_less_trans [OF _ _ assms(2), of "entry_key (xs ! i)" "entry_key (xs ! (rs ! m))"] m0(2) assms(3) that lt by simp
  qed
  then show ?thesis using seek_linear_at [OF s(2) assms(2,3)] s m(1) unfolding iter_Seek_def n(1) by simp
qed

end


section \<open>A block as a cursor over a sorted list\<close>

text \<open>
  The contract of \<^verbatim>\<open>include/leveldb/iterator.h\<close>: a cursor over the list of pairs, on which \<open>Next\<close> and \<open>Prev\<close> need a valid
  position. A run performs operations one after the other and notes the pair under the cursor after each.
\<close>

datatype IterOp = SeekToFirst | SeekToLast | Seek slice | Next | Prev

definition cursor_step :: "(slice \<Rightarrow> slice \<Rightarrow> int) \<Rightarrow> (slice \<times> slice) list \<Rightarrow> IterOp \<Rightarrow> nat option \<Rightarrow> nat option res" where
  "cursor_step cmp kvs op c =
     (case op of
        SeekToFirst \<Rightarrow> Inr (position kvs 0)
      | SeekToLast \<Rightarrow> Inr (if kvs = [] then None else Some (length kvs - 1))
      | Seek t \<Rightarrow> Inr (position kvs (length (takeWhile (\<lambda>(k, v). cmp k t < 0) kvs)))
      | Next \<Rightarrow> (case c of None \<Rightarrow> Inl Assert_failed | Some i \<Rightarrow> Inr (position kvs (Suc i)))
      | Prev \<Rightarrow> (case c of None \<Rightarrow> Inl Assert_failed | Some i \<Rightarrow> Inr (if i = 0 then None else Some (i - 1))))"

fun cursor_run :: "(slice \<Rightarrow> slice \<Rightarrow> int) \<Rightarrow> (slice \<times> slice) list \<Rightarrow> IterOp list \<Rightarrow> nat option \<Rightarrow> (slice \<times> slice) option list res" where
  "cursor_run cmp kvs [] c = Inr []"
| "cursor_run cmp kvs (op # ops) c =
     bindR (cursor_step cmp kvs op c) (\<lambda>c.
     bindR (cursor_run cmp kvs ops c) (\<lambda>obs.
     Inr ((case c of None \<Rightarrow> None | Some i \<Rightarrow> Some (kvs ! i)) # obs)))"

definition iter_step :: "IterOp \<Rightarrow> BlockIter \<Rightarrow> BlockIter res option" where
  "iter_step op it =
     (case op of
        SeekToFirst \<Rightarrow> Some (iter_SeekToFirst it)
      | SeekToLast \<Rightarrow> Some (iter_SeekToLast it)
      | Seek t \<Rightarrow> iter_Seek t it
      | Next \<Rightarrow> Some (iter_Next it)
      | Prev \<Rightarrow> Some (iter_Prev it))"

definition iter_observe :: "BlockIter \<Rightarrow> (slice \<times> slice) option res" where
  "iter_observe it =
     (if it_Valid it then bindR (iter_key it) (\<lambda>k. bindR (iter_value it) (\<lambda>v. Inr (Some (k, v)))) else Inr None)"

fun iter_run :: "IterOp list \<Rightarrow> BlockIter \<Rightarrow> (slice \<times> slice) option list res option" where
  "iter_run [] it = Some (Inr [])"
| "iter_run (op # ops) it =
     (case iter_step op it of
        None \<Rightarrow> None
      | Some (Inl e) \<Rightarrow> Some (Inl e)
      | Some (Inr it) \<Rightarrow>
          (case iter_run ops it of
             None \<Rightarrow> None
           | Some r \<Rightarrow> Some (bindR r (\<lambda>obs. bindR (iter_observe it) (\<lambda>kv. Inr (kv # obs))))))"

lemma iter_observe_spec:
  "stands it C xs rs c \<Longrightarrow> iter_observe it = Inr (case c of None \<Rightarrow> None | Some i \<Rightarrow> Some (map snd xs ! i))"
proof (cases c)
  case (Some i)
  assume s: "stands it C xs rs c"
  then have "i < length xs" using Some by (simp add: at_entry_def)
  then show ?thesis using at_entry_read [of it C xs rs i] s Some by (simp add: iter_observe_def)
qed (simp add: iter_observe_def exhausted_read(1))

context key_comparator
begin

lemma iter_step_spec:
  assumes "stands it C xs rs c" "keys_sorted cmp xs" "\<forall>e \<in> set xs. ok (entry_key e)" "\<forall>t. op = Seek t \<longrightarrow> ok t"
  shows "case cursor_step cmp (map snd xs) op c of
           Inl e \<Rightarrow> iter_step op it = Some (Inl e)
         | Inr c' \<Rightarrow> \<exists>it'. iter_step op it = Some (Inr it') \<and> stands it' C xs rs c' \<and> it_status it' = it_status it"
proof -
  note rd = stands_reads [OF assms(1)]
  have p: "position (map snd xs) i = position xs i" for i by (simp add: position_def)
  show ?thesis
  proof (cases op)
    case SeekToFirst
    then show ?thesis using iter_SeekToFirst_spec [OF rd] p by (simp add: cursor_step_def iter_step_def)
  next
    case SeekToLast
    then show ?thesis using iter_SeekToLast_spec [OF rd] by (cases "xs = []") (simp_all add: cursor_step_def iter_step_def last_position_def)
  next
    case (Seek t)
    have "takeWhile (\<lambda>(k, v). cmp k t < 0) (map snd xs) = map snd (takeWhile (\<lambda>e. cmp (entry_key e) t < 0) xs)"
      by (simp add: takeWhile_map comp_def case_prod_beta)
    then show ?thesis using iter_Seek_spec [OF rd _ assms(3,2), of t] assms(4) Seek p
      by (simp add: cursor_step_def iter_step_def seek_position_def)
  next
    case Next
    then show ?thesis using iter_Next_spec [of it C xs rs] exhausted_read(1) [of it C xs rs] assms(1) p
      by (cases c) (simp_all add: cursor_step_def iter_step_def iter_Next_def)
  next
    case Prev
    then show ?thesis using iter_Prev_spec [of it C xs rs] exhausted_read(1) [of it C xs rs] assms(1)
      by (cases c) (simp_all add: cursor_step_def iter_step_def iter_Prev_def)
  qed
qed

lemma iter_run_spec:
  assumes "stands it C xs rs c" "keys_sorted cmp xs" "\<forall>e \<in> set xs. ok (entry_key e)" "\<forall>t. Seek t \<in> set ops \<longrightarrow> ok t"
  shows "iter_run ops it = Some (cursor_run cmp (map snd xs) ops c)"
  using assms(1,4)
proof (induction ops arbitrary: it c)
  case (Cons op ops)
  note s = iter_step_spec [OF Cons.prems(1) assms(2,3), of op]
  show ?case
  proof (cases "cursor_step cmp (map snd xs) op c")
    case (Inl e)
    then show ?thesis using s Cons.prems(2) by auto
  next
    case (Inr c')
    then obtain it' where i: "iter_step op it = Some (Inr it')" "stands it' C xs rs c'" using s Cons.prems(2) by auto
    then show ?thesis using Cons.IH [OF i(2)] Cons.prems(2) Inr iter_observe_spec [OF i(2)] by simp
  qed
qed simp

end

section \<open>From the builder to the iterator\<close>

fun bb_add_all :: "BlockOptions \<Rightarrow> (slice \<times> slice) list \<Rightarrow> BlockBuilder \<Rightarrow> BlockBuilder res" where
  "bb_add_all options [] b = Inr b"
| "bb_add_all options ((key, val) # kvs) b = bindR (bb_Add options key val b) (bb_add_all options kvs)"

lemma bb_Finish_bytes:
  assumes "bb_inv interval b xs rs"
  shows "fst (bb_Finish b) = block_bytes xs rs"
proof -
  have "foldl PutFixed32 d (map f rs) = d @ concat (map (\<lambda>n. EncodeFixed32 (f n)) rs)" for d f
    by (induction rs arbitrary: d) (simp_all add: PutFixed32_def)
  then show ?thesis using assms by (simp add: bb_Finish_def bb_inv_def block_bytes_def PutFixed32_def comp_def Let_def)
qed

lemma last_fixed32: "DecodeFixed32 (drop (length (d @ EncodeFixed32 x) - 4) (d @ EncodeFixed32 x)) = Inr x"
  using Decode_Encode32 [of x "[]"] by simp

lemma NewIterator_block:
  assumes "readable xs rs"
  shows "\<exists>blk it. Block_new unset (block_bytes xs rs) = Inr blk \<and> NewIterator C blk = Inr (EntryIterator it) \<and> stands it C xs rs None \<and> it_status it = Status_OK"
proof -
  let ?B = "block_bytes xs rs"
  note b = readable_bounds [OF assms] and len = block_bytes_length [of xs rs]
  have n: "DecodeFixed32 (drop (length ?B - 4) ?B) = Inr (of_nat (length rs))" unfolding block_bytes_def append.assoc [symmetric] by (rule last_fixed32)
  have u: "unat (of_nat (length rs) :: u32) = length rs" using b(4) by simp
  have u1: "unat (1 + of_nat (length rs) :: u32) = Suc (length rs)" using b(1) u by (simp add: unat_word_ariths)
  have nz: "(of_nat (length rs) :: u32) \<noteq> 0" using u b(2) by (metis unsigned_0 less_irrefl)
  have N: "NumRestarts ?B (length ?B) = Inr (of_nat (length rs))" using len n by (simp add: NumRestarts_def)
  have off: "length ?B - Suc (length rs) * 4 = data_end xs" using len by simp
  have "Block_new unset ?B = Inr \<lparr>blk_data = ?B, blk_size = length ?B, blk_restart_offset = of_nat (data_end xs)\<rparr>"
    unfolding Block_new_def Let_def N bindR_Inr u u1 off using len by simp
  then show ?thesis using N nz assms len b
    by (simp add: NewIterator_def BlockIter_new_def exhausted_def reads_def it_Valid_def word_gt_0)
qed

context key_comparator
begin

lemma bb_add_all_inv:
  assumes "opt_comparator opts = C" "1 \<le> opt_restart_interval opts" "bb_inv (opt_restart_interval opts) b xs rs"
    and "sorted_wrt (\<lambda>a b. cmp (fst a) (fst b) < 0) (map snd xs @ kvs)" "\<forall>kv \<in> set (map snd xs @ kvs). ok (fst kv)"
  shows "\<exists>b' xs' rs'. bb_add_all opts kvs b = Inr b' \<and> bb_inv (opt_restart_interval opts) b' xs' rs' \<and> map snd xs' = map snd xs @ kvs"
  using assms(3-5)
proof (induction kvs arbitrary: b xs rs)
  case (Cons kv kvs)
  obtain k v where kv: "kv = (k, v)" by (cases kv)
  have "\<exists>c. cmp_Compare (opt_comparator opts) k (last_key [] xs) = Inr c \<and> 0 < c" if "xs \<noteq> []"
  proof -
    have l: "last xs \<in> set xs" using that by simp
    have "cmp (entry_key (last xs)) k < 0" using Cons.prems(2) l kv by (auto simp: sorted_wrt_append)
    moreover have "ok (entry_key (last xs))" "ok k" using Cons.prems(3) l kv by auto
    ultimately show ?thesis using Compare_eq cmp_flip that assms(1) by (simp add: last_key_def)
  qed
  then obtain b1 s rs1 where a: "bb_Add opts k v b = Inr b1" "bb_inv (opt_restart_interval opts) b1 (xs @ [(s, k, v)]) rs1"
    using bb_Add_inv [OF Cons.prems(1) assms(2)] by blast
  show ?case using Cons.IH [OF a(2)] Cons.prems(2,3) a(1) kv by simp
qed auto

theorem built_block_is_cursor:
  assumes "opt_comparator opts = C" "1 \<le> opt_restart_interval opts" "BlockBuilder_new opts = Inr b0"
    and "sorted_wrt (\<lambda>a b. cmp (fst a) (fst b) < 0) kvs" "\<forall>kv \<in> set kvs. ok (fst kv)" "\<forall>t. Seek t \<in> set ops \<longrightarrow> ok t"
  shows "\<exists>b. bb_add_all opts kvs b0 = Inr b \<and>
     (length (fst (bb_Finish b)) < 2 ^ 32 \<longrightarrow>
      (\<exists>blk it. Block_new unset (fst (bb_Finish b)) = Inr blk \<and> NewIterator C blk = Inr (EntryIterator it) \<and>
                iter_run ops it = Some (cursor_run cmp kvs ops None)))"
proof -
  have "bb_inv (opt_restart_interval opts) b0 [] [0]" using assms(2,3) bb_inv_new by (auto simp: BlockBuilder_new_def)
  then obtain b xs rs where b: "bb_add_all opts kvs b0 = Inr b" "bb_inv (opt_restart_interval opts) b xs rs" "map snd xs = kvs"
    using bb_add_all_inv [OF assms(1,2), of b0 "[]" "[0]" kvs] assms(4,5) by auto
  have ks: "keys_sorted cmp xs" "\<forall>e \<in> set xs. ok (entry_key e)"
    using assms(4,5) by (simp_all add: b(3) [symmetric] keys_sorted_def sorted_wrt_map)
  have fin: "fst (bb_Finish b) = block_bytes xs rs" using bb_Finish_bytes [OF b(2)] .
  show ?thesis
  proof (rule exI [of _ b], intro conjI impI)
    show "bb_add_all opts kvs b0 = Inr b" by (rule b(1))
    assume "length (fst (bb_Finish b)) < 2 ^ 32"
    then have "readable xs rs" using b(2) fin by (simp add: readable_def bb_inv_def)
    then obtain blk it where "Block_new unset (fst (bb_Finish b)) = Inr blk" "NewIterator C blk = Inr (EntryIterator it)" "stands it C xs rs None"
      using NewIterator_block [of xs rs unset C] fin by auto
    then show "\<exists>blk it. Block_new unset (fst (bb_Finish b)) = Inr blk \<and> NewIterator C blk = Inr (EntryIterator it) \<and>
        iter_run ops it = Some (cursor_run cmp kvs ops None)"
      using iter_run_spec [of it xs rs None ops] ks assms(6) b(3) by auto
  qed
qed

end


section \<open>Blocks with arbitrary contents\<close>

text \<open>No operation runs for ever, whatever bytes the block has: the sum in the binary search does not wrap around below \<open>2\<^sup>3\<^sup>1\<close>.\<close>

lemma unat_middle:
  assumes "unat l < unat r" "unat r < 2 ^ 31"
  shows "unat ((l + r + 1 :: u32) div 2) = (unat l + unat r + 1) div 2"
proof -
  have "unat (l + r) = unat l + unat r" using assms by (simp add: unat_word_ariths)
  then have "unat (l + r + 1) = unat l + unat r + 1" using assms by (simp add: unat_word_ariths)
  then show ?thesis by (simp add: unat_div)
qed

lemma seek_search_ends: "unat r < 2 ^ 31 \<Longrightarrow> \<exists>x. seek_search it target l r = Some x"
proof (induction "unat r - unat l" arbitrary: l r rule: less_induct)
  case less
  show ?case
  proof (cases "unat l < unat r")
    case True
    let ?m = "(l + r + 1) div 2"
    have m: "unat ?m = (unat l + unat r + 1) div 2" by (rule unat_middle [OF True less.prems])
    then have b: "unat l < unat ?m" "unat ?m \<le> unat r" using True by linarith+
    then have p: "unat (?m - 1) = unat ?m - 1" by (intro unat_minus_one) (metis less_nat_zero_code unsigned_0)
    have "\<exists>x. seek_search it target ?m r = Some x" using less.prems b by (intro less.hyps) linarith+
    moreover have "\<exists>x. seek_search it target l (?m - 1) = Some x" using less.prems b p by (intro less.hyps) linarith+
    ultimately show ?thesis by (subst seek_search.simps) (auto simp: Let_def split: sum.split option.split)
  next
    case False
    then show ?thesis by (subst seek_search.simps) (simp add: word_less_nat_alt)
  qed
qed

lemma ParseNextKey_restarts: "ParseNextKey it = Inr (found, it') \<Longrightarrow> it_num_restarts it' = it_num_restarts it"
  by (auto simp: ParseNextKey_def Let_def bindR_eq_Inr CorruptionError_def split: if_splits option.splits prod.splits)

lemma SeekToRestartPoint_restarts: "SeekToRestartPoint i it = Inr it' \<Longrightarrow> it_num_restarts it' = it_num_restarts it"
  by (auto simp: SeekToRestartPoint_def bindR_eq_Inr)

lemma parse_until_restarts: "parse_until limit it = Inr it' \<Longrightarrow> it_num_restarts it' = it_num_restarts it"
proof (induction limit it rule: parse_until.induct)
  case (1 limit it)
  obtain m it1 where p: "ParseNextKey it = Inr (m, it1)" using "1.prems" by (subst (asm) parse_until.simps) (auto simp: bindR_eq_Inr)
  show ?case
    using "1.prems" "1.IH" [of "(m, it1)" m it1] p ParseNextKey_restarts [OF p]
    by (subst (asm) parse_until.simps) (auto simp: bindR_eq_Inr split: if_splits)
qed

lemma seek_linear_restarts: "seek_linear target it = Inr it' \<Longrightarrow> it_num_restarts it' = it_num_restarts it"
proof (induction target it rule: seek_linear.induct)
  case (1 target it)
  obtain m it1 where p: "ParseNextKey it = Inr (m, it1)" using "1.prems" by (subst (asm) seek_linear.simps) (auto simp: bindR_eq_Inr)
  show ?case
    using "1.prems" "1.IH" [of "(m, it1)" m it1] p ParseNextKey_restarts [OF p]
    by (subst (asm) seek_linear.simps) (auto simp: bindR_eq_Inr split: if_splits)
qed

lemma iter_step_restarts:
  assumes "iter_step op it = Some (Inr it')"
  shows "it_num_restarts it' = it_num_restarts it"
proof (cases op)
  case (Seek t)
  then show ?thesis using assms
    by (auto simp: iter_step_def iter_Seek_def CorruptionError_def bindR_eq_Inr dest!: seek_linear_restarts SeekToRestartPoint_restarts split: option.splits sum.splits)
qed (use assms in \<open>auto simp: iter_step_def iter_SeekToFirst_def iter_SeekToLast_def iter_Next_def iter_Prev_def Let_def bindR_eq_Inr
      dest!: parse_until_restarts SeekToRestartPoint_restarts ParseNextKey_restarts split: option.splits\<close>)

lemma iter_run_ends: "it_num_restarts it \<noteq> 0 \<Longrightarrow> unat (it_num_restarts it) < 2 ^ 31 \<Longrightarrow> \<exists>x. iter_run ops it = Some x"
proof (induction ops arbitrary: it)
  case (Cons op ops)
  have "unat (it_num_restarts it - 1) < 2 ^ 31" using Cons.prems unat_minus_one [of "it_num_restarts it"] by auto
  note ends = seek_search_ends [OF this, of it _ 0]
  have "\<exists>y. iter_step op it = Some y"
  proof (cases op)
    case (Seek t)
    obtain x where "seek_search it t 0 (it_num_restarts it - 1) = Some x" using ends [of t] by blast
    then show ?thesis using Seek by (cases x) (auto simp: iter_step_def iter_Seek_def split: option.splits)
  qed (simp_all add: iter_step_def)
  then obtain y where y: "iter_step op it = Some y" by blast
  show ?case
  proof (cases y)
    case (Inr it')
    then have "\<exists>x. iter_run ops it' = Some x" using Cons.IH [of it'] iter_step_restarts [of op it it'] Cons.prems y by simp
    then show ?thesis using y Inr by auto
  qed (use y in simp)
qed simp

lemma iter_run_ends_on_any_block:
  assumes "length contents < 2 ^ 32" "Block_new unset contents = Inr blk" "NewIterator C blk = Inr (EntryIterator it)"
  shows "\<exists>x. iter_run ops it = Some x"
proof -
  have sz: "4 \<le> blk_size blk" using assms(3) by (auto simp: NewIterator_def split: if_splits)
  then obtain n where n: "NumRestarts contents (length contents) = Inr n" "unat n \<le> (length contents - 4) div 4" "blk_data blk = contents" "blk_size blk = length contents"
    using assms(2) by (auto simp: Block_new_def Let_def bindR_eq_Inr split: if_splits)
  have "it_num_restarts it = n" "n \<noteq> 0"
    using assms(3) n(1,3,4) sz by (auto simp: NewIterator_def BlockIter_new_def bindR_eq_Inr split: if_splits)
  then show ?thesis using n(2) assms(1) by (intro iter_run_ends) simp_all
qed

text \<open>An entry whose two sizes add up to a small number only after wrapping around: the iterator reads past the block.\<close>

definition wrapping_block :: bytes where
  "wrapping_block = [0, 255, 255, 255, 255, 15, 2, 7, 7, 7] @ EncodeFixed32 0 @ EncodeFixed32 1"

lemma DecodeEntry_wraps:
  "DecodeEntry (take 10 wrapping_block) = Some (0, 0xFFFFFFFF, 2, [7, 7, 7])"
  by code_simp

lemma wrapping_block_runs_over:
  "\<exists>blk it. Block_new unset wrapping_block = Inr blk \<and> NewIterator C blk = Inr (EntryIterator it) \<and> iter_SeekToFirst it = Inl Out_of_bounds"
proof -
  have n: "NumRestarts wrapping_block 18 = Inr 1" "length wrapping_block = 18" by code_simp+
  define it where "it = \<lparr>it_comparator = C, it_data = wrapping_block, it_restarts = 10, it_num_restarts = 1,
    it_current = 10, it_restart_index = 1, it_key = [], it_value = None, it_status = Status_OK\<rparr>"
  have "GetRestartPoint it 0 = DecodeFixed32 (drop 10 wrapping_block)" by (simp add: GetRestartPoint_def it_def)
  also have "\<dots> = Inr 0" by code_simp
  finally have g: "GetRestartPoint it 0 = Inr 0" .
  have "iter_SeekToFirst it = Inl Out_of_bounds"
    unfolding iter_SeekToFirst_def SeekToRestartPoint_def g bindR_Inr ParseNextKey_def Let_def
    using DecodeEntry_wraps n(2) by (simp add: NextEntryOffset_def it_def load_bytes_def)
  moreover have "Block_new unset wrapping_block = Inr \<lparr>blk_data = wrapping_block, blk_size = 18, blk_restart_offset = 10\<rparr>"
    by (simp add: Block_new_def n)
  moreover have "NewIterator C \<lparr>blk_data = wrapping_block, blk_size = 18, blk_restart_offset = 10\<rparr> = Inr (EntryIterator it)"
    by (simp add: NewIterator_def n BlockIter_new_def it_def)
  ultimately show ?thesis by blast
qed


end
