(* ===== verification/Ldb_Table_Format.thy ===== *)
theory Ldb_Table_Format
  imports Ldb_Block_Iter Ldb_Env
begin

text \<open>
  The format of table files and the builder of tables (\<^verbatim>\<open>table/format.h\<close>, \<^verbatim>\<open>table/format.cc\<close>, \<^verbatim>\<open>table/table_builder.cc\<close>): handles
  of blocks, the footer, blocks with their trailers, and the operations of \<open>TableBuilder\<close>. The lemmas show that handles and footers
  are read back, and that a block that was written with its type and checksum is read back from the file.
\<close>

section \<open>Handles, footers and stored blocks: model\<close>

record BlockHandle =
  bh_offset :: u64
  bh_size :: u64

definition BlockHandle_new :: BlockHandle where
  "BlockHandle_new = \<lparr>bh_offset = NOT 0, bh_size = NOT 0\<rparr>"

definition handle_EncodeTo :: "BlockHandle \<Rightarrow> bytes \<Rightarrow> bytes res" where
  "handle_EncodeTo h dst =
     bindR (assertR (bh_offset h \<noteq> NOT 0)) (\<lambda>_.
     bindR (assertR (bh_size h \<noteq> NOT 0)) (\<lambda>_.
     Inr (PutVarint64 (PutVarint64 dst (bh_offset h)) (bh_size h))))"

text \<open>The handle is changed up to the number that could not be read; the input is advanced over the numbers that were read.\<close>

definition handle_DecodeFrom :: "slice \<Rightarrow> BlockHandle \<Rightarrow> Status \<times> BlockHandle \<times> slice" where
  "handle_DecodeFrom input h =
     (case GetVarint64 input of
        None \<Rightarrow> (Corruption (bstr ''bad block handle'') [], h, input)
      | Some (offset, input) \<Rightarrow>
          (let h = h\<lparr>bh_offset := offset\<rparr> in
           case GetVarint64 input of
             None \<Rightarrow> (Corruption (bstr ''bad block handle'') [], h, input)
           | Some (sz, input) \<Rightarrow> (Status_OK, h\<lparr>bh_size := sz\<rparr>, input)))"

record Footer =
  ft_metaindex_handle :: BlockHandle
  ft_index_handle :: BlockHandle

definition kMaxEncodedLength :: nat where "kMaxEncodedLength = 10 + 10"
definition kEncodedLength :: nat where "kEncodedLength = 2 * kMaxEncodedLength + 8"
definition kTableMagicNumber :: u64 where "kTableMagicNumber = 0xdb4775248b80fb57"
definition kBlockTrailerSize :: nat where "kBlockTrailerSize = 5"

definition str_resize :: "nat \<Rightarrow> bytes \<Rightarrow> bytes" where
  "str_resize n s = take n s @ replicate (n - length s) 0"

definition footer_EncodeTo :: "Footer \<Rightarrow> bytes \<Rightarrow> bytes res" where
  "footer_EncodeTo f dst =
     (let original_size = length dst in
      bindR (handle_EncodeTo (ft_metaindex_handle f) dst) (\<lambda>dst.
      bindR (handle_EncodeTo (ft_index_handle f) dst) (\<lambda>dst.
      let dst = str_resize (2 * kMaxEncodedLength) dst;
          dst = PutFixed32 dst (ucast (kTableMagicNumber AND 0xffffffff));
          dst = PutFixed32 dst (ucast (drop_bit 32 kTableMagicNumber)) in
      bindR (assertR (length dst = original_size + kEncodedLength)) (\<lambda>_. Inr dst))))"

definition footer_DecodeFrom :: "slice \<Rightarrow> Footer \<Rightarrow> (Status \<times> Footer \<times> slice) res" where
  "footer_DecodeFrom input f =
     bindR (DecodeFixed32 (drop (kEncodedLength - 8) input)) (\<lambda>magic_lo.
     bindR (DecodeFixed32 (drop (kEncodedLength - 8 + 4) input)) (\<lambda>magic_hi.
     let magic = push_bit 32 (ucast magic_hi) OR ucast magic_lo in
     if magic \<noteq> kTableMagicNumber then Inr (InvalidArgument (bstr ''not an sstable (bad magic number)'') [], f, input)
     else let (result, m, rest) = handle_DecodeFrom input (ft_metaindex_handle f);
              f = f\<lparr>ft_metaindex_handle := m\<rparr> in
          if \<not> Status_ok result then Inr (result, f, rest)
          else let (result, i, rest) = handle_DecodeFrom rest (ft_index_handle f);
                   f = f\<lparr>ft_index_handle := i\<rparr> in
               if \<not> Status_ok result then Inr (result, f, rest) else Inr (result, f, drop kEncodedLength input)))"

text \<open>
  The compressor is a library: \<open>Snappy_Compress\<close> gives the output when it is built in, \<open>Snappy_GetUncompressedLength\<close> and
  \<open>Snappy_Uncompress\<close> give their outputs when they succeed.
\<close>

record Snappy =
  sn_Compress :: "bytes \<Rightarrow> bytes option"
  sn_GetUncompressedLength :: "bytes \<Rightarrow> nat option"
  sn_Uncompress :: "bytes \<Rightarrow> bytes option"

datatype CompressionType = kNoCompression | kSnappyCompression

definition compression_byte :: "CompressionType \<Rightarrow> byte" where
  "compression_byte t = (case t of kNoCompression \<Rightarrow> 0 | kSnappyCompression \<Rightarrow> 1)"

record BlockContents =
  bc_data :: bytes
  bc_cachable :: bool
  bc_heap_allocated :: bool

definition ReadBlock :: "Snappy \<Rightarrow> 'f RandomAccessFile \<Rightarrow> 'f \<Rightarrow> bool \<Rightarrow> BlockHandle \<Rightarrow> (Status \<times> BlockContents) res" where
  "ReadBlock sn R f verify_checksums handle =
     (let result = \<lparr>bc_data = [], bc_cachable = False, bc_heap_allocated = False\<rparr>;
          n = unat (bh_size handle);
          n' = unat (bh_size handle + of_nat kBlockTrailerSize) in
      bindR (rf_Read R (bh_offset handle) n' f) (\<lambda>(s, contents, in_buf).
      if \<not> Status_ok s then Inr (s, result)
      else if length contents \<noteq> n' then Inr (Corruption (bstr ''truncated block read'') [], result)
      else bindR (if verify_checksums
                  then bindR (DecodeFixed32 (drop (n + 1) contents)) (\<lambda>masked.
                       bindR (load_bytes contents 0 (n + 1)) (\<lambda>data. Inr (crc_Value data = crc_Unmask masked)))
                  else Inr True) (\<lambda>good.
           if \<not> good then Inr (Corruption (bstr ''block checksum mismatch'') [], result)
           else bindR (nth_res contents (int n)) (\<lambda>t.
                bindR (load_bytes contents 0 n) (\<lambda>data.
                if t = compression_byte kNoCompression
                then Inr (Status_OK, \<lparr>bc_data = data, bc_cachable = in_buf, bc_heap_allocated = in_buf\<rparr>)
                else if t = compression_byte kSnappyCompression
                then (case sn_GetUncompressedLength sn data of
                        None \<Rightarrow> Inr (Corruption (bstr ''corrupted compressed block contents'') [], result)
                      | Some ulength \<Rightarrow>
                          (case sn_Uncompress sn data of
                             None \<Rightarrow> Inr (Corruption (bstr ''corrupted compressed block contents'') [], result)
                           | Some ubuf \<Rightarrow>
                               bindR (load_bytes ubuf 0 ulength) (\<lambda>ubuf.
                               Inr (Status_OK, \<lparr>bc_data = ubuf, bc_cachable = True, bc_heap_allocated = True\<rparr>))))
                else Inr (Corruption (bstr ''bad block type'') [], result))))))"


section \<open>Building a table: model\<close>

text \<open>The options a table uses. \<open>to_comparator_ptr\<close> is the pointer to the comparator, \<open>to_filter_name\<close> the name of the filter policy.\<close>

record TableOptions =
  to_comparator :: Comparator
  to_comparator_ptr :: nat
  to_block_size :: nat
  to_block_restart_interval :: int
  to_compression :: CompressionType
  to_filter_policy :: "FilterPolicy option"
  to_filter_name :: bytes

definition block_options :: "TableOptions \<Rightarrow> BlockOptions" where
  "block_options opt = \<lparr>opt_comparator = to_comparator opt, opt_restart_interval = to_block_restart_interval opt\<rparr>"

record TableBuilderRep =
  tb_options :: TableOptions
  tb_index_block_options :: TableOptions
  tb_offset :: u64
  tb_status :: Status
  tb_data_block :: BlockBuilder
  tb_index_block :: BlockBuilder
  tb_last_key :: bytes
  tb_num_entries :: int
  tb_closed :: bool
  tb_filter_block :: "FilterBlockBuilder option"
  tb_pending_index_entry :: bool
  tb_pending_handle :: BlockHandle

definition on_filter :: "TableOptions \<Rightarrow> (FilterPolicy \<Rightarrow> FilterBlockBuilder \<Rightarrow> FilterBlockBuilder res) \<Rightarrow> FilterBlockBuilder option \<Rightarrow> FilterBlockBuilder option res" where
  "on_filter opt g fb =
     (case fb of
        None \<Rightarrow> Inr None
      | Some b \<Rightarrow> (case to_filter_policy opt of None \<Rightarrow> Inl Null_deref | Some P \<Rightarrow> bindR (g P b) (\<lambda>b. Inr (Some b))))"

definition TableBuilder_new :: "TableOptions \<Rightarrow> TableBuilderRep res" where
  "TableBuilder_new opt =
     bindR (BlockBuilder_new (block_options opt)) (\<lambda>data_block.
     bindR (BlockBuilder_new (block_options opt)) (\<lambda>index_block.
     bindR (on_filter opt (\<lambda>P b. StartBlock P 0 b) (map_option (\<lambda>_. new_FilterBlockBuilder) (to_filter_policy opt))) (\<lambda>filter_block.
     Inr \<lparr>tb_options = opt, tb_index_block_options = opt\<lparr>to_block_restart_interval := 1\<rparr>, tb_offset = 0, tb_status = Status_OK,
       tb_data_block = data_block, tb_index_block = index_block, tb_last_key = [], tb_num_entries = 0, tb_closed = False,
       tb_filter_block = filter_block, tb_pending_index_entry = False, tb_pending_handle = BlockHandle_new\<rparr>)))"

definition ChangeOptions :: "TableOptions \<Rightarrow> TableBuilderRep \<Rightarrow> Status \<times> TableBuilderRep" where
  "ChangeOptions opt r =
     (if to_comparator_ptr opt \<noteq> to_comparator_ptr (tb_options r)
      then (InvalidArgument (bstr ''changing comparator while building table'') [], r)
      else (Status_OK, r\<lparr>tb_options := opt, tb_index_block_options := opt\<lparr>to_block_restart_interval := 1\<rparr>\<rparr>))"

definition tb_ok :: "TableBuilderRep \<Rightarrow> bool" where
  "tb_ok r \<longleftrightarrow> Status_ok (tb_status r)"

definition WriteRawBlock :: "'f WritableFile \<Rightarrow> bytes \<Rightarrow> CompressionType \<Rightarrow> TableBuilderRep \<Rightarrow> 'f \<Rightarrow> (BlockHandle \<times> TableBuilderRep \<times> 'f) res" where
  "WriteRawBlock W block_contents type r f =
     (let handle = \<lparr>bh_offset = tb_offset r, bh_size = of_nat (length block_contents)\<rparr> in
      bindR (wf_Append W block_contents f) (\<lambda>(s, f).
      let r = r\<lparr>tb_status := s\<rparr> in
      if \<not> Status_ok s then Inr (handle, r, f)
      else bindR (crc_Extend 0 (crc_Value block_contents) [compression_byte type]) (\<lambda>crc.
           bindR (wf_Append W (compression_byte type # EncodeFixed32 (crc_Mask crc)) f) (\<lambda>(s, f).
           let r = r\<lparr>tb_status := s\<rparr> in
           Inr (handle, if Status_ok s then r\<lparr>tb_offset := tb_offset r + (of_nat (length block_contents) + of_nat kBlockTrailerSize)\<rparr> else r, f)))))"

definition compress_block :: "Snappy \<Rightarrow> CompressionType \<Rightarrow> bytes \<Rightarrow> bytes \<times> CompressionType" where
  "compress_block sn type raw =
     (case type of
        kNoCompression \<Rightarrow> (raw, kNoCompression)
      | kSnappyCompression \<Rightarrow>
          (case sn_Compress sn raw of
             Some compressed \<Rightarrow> if length compressed < length raw - length raw div 8 then (compressed, kSnappyCompression) else (raw, kNoCompression)
           | None \<Rightarrow> (raw, kNoCompression)))"

definition WriteBlock :: "Snappy \<Rightarrow> 'f WritableFile \<Rightarrow> BlockBuilder \<Rightarrow> TableBuilderRep \<Rightarrow> 'f \<Rightarrow> (BlockHandle \<times> BlockBuilder \<times> TableBuilderRep \<times> 'f) res" where
  "WriteBlock sn W block r f =
     bindR (assertR (tb_ok r)) (\<lambda>_.
     let (raw, block) = bb_Finish block;
         (block_contents, type) = compress_block sn (to_compression (tb_options r)) raw in
     bindR (WriteRawBlock W block_contents type r f) (\<lambda>(handle, r, f). Inr (handle, bb_Reset block, r, f)))"

definition tb_Flush :: "Snappy \<Rightarrow> 'f WritableFile \<Rightarrow> TableBuilderRep \<Rightarrow> 'f \<Rightarrow> (TableBuilderRep \<times> 'f) res" where
  "tb_Flush sn W r f =
     bindR (assertR (\<not> tb_closed r)) (\<lambda>_.
     if \<not> tb_ok r then Inr (r, f)
     else if bb_empty (tb_data_block r) then Inr (r, f)
     else bindR (assertR (\<not> tb_pending_index_entry r)) (\<lambda>_.
          bindR (WriteBlock sn W (tb_data_block r) r f) (\<lambda>(handle, block, r, f).
          let r = r\<lparr>tb_data_block := block, tb_pending_handle := handle\<rparr> in
          bindR (if tb_ok r
                 then bindR (wf_Flush W f) (\<lambda>(s, f). Inr (r\<lparr>tb_pending_index_entry := True, tb_status := s\<rparr>, f))
                 else Inr (r, f)) (\<lambda>(r, f).
          bindR (on_filter (tb_options r) (\<lambda>P b. StartBlock P (tb_offset r) b) (tb_filter_block r)) (\<lambda>fb.
          Inr (r\<lparr>tb_filter_block := fb\<rparr>, f))))))"

text \<open>The index entry for the block that was written last; the key has been shortened before.\<close>

definition add_index_entry :: "TableBuilderRep \<Rightarrow> TableBuilderRep res" where
  "add_index_entry r =
     bindR (handle_EncodeTo (tb_pending_handle r) []) (\<lambda>handle_encoding.
     bindR (bb_Add (block_options (tb_index_block_options r)) (tb_last_key r) handle_encoding (tb_index_block r)) (\<lambda>index_block.
     Inr (r\<lparr>tb_index_block := index_block, tb_pending_index_entry := False\<rparr>)))"

definition tb_Add :: "Snappy \<Rightarrow> 'f WritableFile \<Rightarrow> slice \<Rightarrow> slice \<Rightarrow> TableBuilderRep \<Rightarrow> 'f \<Rightarrow> (TableBuilderRep \<times> 'f) res" where
  "tb_Add sn W key val r f =
     bindR (assertR (\<not> tb_closed r)) (\<lambda>_.
     if \<not> tb_ok r then Inr (r, f)
     else bindR (if 0 < tb_num_entries r
                 then bindR (cmp_Compare (to_comparator (tb_options r)) key (tb_last_key r)) (\<lambda>c. assertR (0 < c)) else Inr ()) (\<lambda>_.
          bindR (if tb_pending_index_entry r
                 then bindR (assertR (bb_empty (tb_data_block r))) (\<lambda>_.
                      bindR (cmp_FindShortestSeparator (to_comparator (tb_options r)) (tb_last_key r) key) (\<lambda>last_key.
                      add_index_entry (r\<lparr>tb_last_key := last_key\<rparr>)))
                 else Inr r) (\<lambda>r.
          bindR (on_filter (tb_options r) (\<lambda>P b. Inr (AddKey key b)) (tb_filter_block r)) (\<lambda>fb.
          let r = r\<lparr>tb_filter_block := fb, tb_last_key := key, tb_num_entries := tb_num_entries r + 1\<rparr> in
          bindR (bb_Add (block_options (tb_options r)) key val (tb_data_block r)) (\<lambda>data_block.
          let r = r\<lparr>tb_data_block := data_block\<rparr> in
          if to_block_size (tb_options r) \<le> bb_CurrentSizeEstimate (tb_data_block r) then tb_Flush sn W r f else Inr (r, f))))))"

definition tb_Finish :: "Snappy \<Rightarrow> 'f WritableFile \<Rightarrow> TableBuilderRep \<Rightarrow> 'f \<Rightarrow> (Status \<times> TableBuilderRep \<times> 'f) res" where
  "tb_Finish sn W r f =
     bindR (tb_Flush sn W r f) (\<lambda>(r, f).
     bindR (assertR (\<not> tb_closed r)) (\<lambda>_.
     let r = r\<lparr>tb_closed := True\<rparr> in
     bindR (case tb_filter_block r of
              Some fb \<Rightarrow>
                if tb_ok r
                then (case to_filter_policy (tb_options r) of
                        None \<Rightarrow> Inl Null_deref
                      | Some P \<Rightarrow> bindR (filter_Finish P fb) (\<lambda>contents. WriteRawBlock W contents kNoCompression r f))
                else Inr (BlockHandle_new, r, f)
            | None \<Rightarrow> Inr (BlockHandle_new, r, f)) (\<lambda>(filter_handle, r, f).
     bindR (if tb_ok r
            then bindR (BlockBuilder_new (block_options (tb_options r))) (\<lambda>meta.
                 bindR (case tb_filter_block r of
                          None \<Rightarrow> Inr meta
                        | Some _ \<Rightarrow>
                            bindR (handle_EncodeTo filter_handle []) (\<lambda>handle_encoding.
                            bb_Add (block_options (tb_options r)) (bstr ''filter.'' @ to_filter_name (tb_options r)) handle_encoding meta)) (\<lambda>meta.
                 bindR (WriteBlock sn W meta r f) (\<lambda>(h, _, r, f). Inr (h, r, f))))
            else Inr (BlockHandle_new, r, f)) (\<lambda>(metaindex_handle, r, f).
     bindR (if tb_ok r
            then bindR (if tb_pending_index_entry r
                        then bindR (cmp_FindShortSuccessor (to_comparator (tb_options r)) (tb_last_key r)) (\<lambda>last_key.
                             add_index_entry (r\<lparr>tb_last_key := last_key\<rparr>))
                        else Inr r) (\<lambda>r.
                 bindR (WriteBlock sn W (tb_index_block r) r f) (\<lambda>(h, index_block, r, f). Inr (h, r\<lparr>tb_index_block := index_block\<rparr>, f)))
            else Inr (BlockHandle_new, r, f)) (\<lambda>(index_handle, r, f).
     if tb_ok r
     then bindR (footer_EncodeTo \<lparr>ft_metaindex_handle = metaindex_handle, ft_index_handle = index_handle\<rparr> []) (\<lambda>footer_encoding.
          bindR (wf_Append W footer_encoding f) (\<lambda>(s, f).
          let r = r\<lparr>tb_status := s\<rparr>;
              r = (if Status_ok s then r\<lparr>tb_offset := tb_offset r + of_nat (length footer_encoding)\<rparr> else r) in
          Inr (tb_status r, r, f)))
     else Inr (tb_status r, r, f))))))"

definition tb_Abandon :: "TableBuilderRep \<Rightarrow> TableBuilderRep res" where
  "tb_Abandon r = bindR (assertR (\<not> tb_closed r)) (\<lambda>_. Inr (r\<lparr>tb_closed := True\<rparr>))"

definition tb_NumEntries :: "TableBuilderRep \<Rightarrow> u64" where
  "tb_NumEntries r = of_int (tb_num_entries r)"

definition tb_FileSize :: "TableBuilderRep \<Rightarrow> u64" where
  "tb_FileSize r = tb_offset r"


section \<open>Handles and footers\<close>

abbreviation handle_bytes :: "BlockHandle \<Rightarrow> bytes" where
  "handle_bytes h \<equiv> EncodeVarint64 (bh_offset h) @ EncodeVarint64 (bh_size h)"

lemma length_EncodeVarint64: "length (EncodeVarint64 v) \<le> 10"
proof -
  have "unat v < 2 ^ 64" using unsigned_less [of v, where 'a = nat] by simp
  then show ?thesis unfolding EncodeVarint64_varint by (intro length_varint) auto
qed

lemma handle_DecodeFrom_bytes [simp]: "handle_DecodeFrom (handle_bytes h @ rest) h' = (Status_OK, h, rest)"
  by (cases h; cases h') (simp add: handle_DecodeFrom_def)

lemma handle_DecodeFrom_flat [simp]:
  "handle_DecodeFrom (EncodeVarint64 (bh_offset h) @ EncodeVarint64 (bh_size h) @ rest) h' = (Status_OK, h, rest)"
  "handle_DecodeFrom (EncodeVarint64 (bh_offset h) @ EncodeVarint64 (bh_size h)) h' = (Status_OK, h, [])"
  using handle_DecodeFrom_bytes [of h rest h'] handle_DecodeFrom_bytes [of h "[]" h'] by simp_all

lemma handle_EncodeTo_bytes:
  "bh_offset h \<noteq> NOT 0 \<Longrightarrow> bh_size h \<noteq> NOT 0 \<Longrightarrow> handle_EncodeTo h dst = Inr (dst @ handle_bytes h)"
  by (simp add: handle_EncodeTo_def PutVarint64_def)

definition footer_bytes :: "Footer \<Rightarrow> bytes" where
  "footer_bytes f = (let hs = handle_bytes (ft_metaindex_handle f) @ handle_bytes (ft_index_handle f) in
     hs @ replicate (40 - length hs) 0 @ EncodeFixed32 0x8b80fb57 @ EncodeFixed32 0xdb477524)"

lemma footer_handles_length: "length (handle_bytes m @ handle_bytes i) \<le> 40"
  using length_EncodeVarint64 [of "bh_offset m"] length_EncodeVarint64 [of "bh_size m"]
    length_EncodeVarint64 [of "bh_offset i"] length_EncodeVarint64 [of "bh_size i"] by simp

lemma length_footer_bytes: "length (footer_bytes f) = 48"
  using footer_handles_length [of "ft_metaindex_handle f" "ft_index_handle f"] by (simp add: footer_bytes_def Let_def EncodeFixed32_def)

lemma footer_roundtrip:
  assumes "bh_offset (ft_metaindex_handle f) \<noteq> NOT 0" "bh_size (ft_metaindex_handle f) \<noteq> NOT 0"
    and "bh_offset (ft_index_handle f) \<noteq> NOT 0" "bh_size (ft_index_handle f) \<noteq> NOT 0"
  shows "footer_EncodeTo f [] = Inr (footer_bytes f)"
    and "footer_DecodeFrom (footer_bytes f @ rest) f' = Inr (Status_OK, f, rest)"
proof -
  let ?m = "ft_metaindex_handle f" and ?i = "ft_index_handle f"
  let ?hs = "handle_bytes ?m @ handle_bytes ?i"
  have magic: "ucast (kTableMagicNumber AND 0xffffffff) = (0x8b80fb57 :: u32)" "ucast (drop_bit 32 kTableMagicNumber) = (0xdb477524 :: u32)"
      "push_bit 32 (ucast (0xdb477524 :: u32)) OR ucast (0x8b80fb57 :: u32) = kTableMagicNumber"
    by (simp_all add: kTableMagicNumber_def)
  have res: "str_resize (2 * kMaxEncodedLength) ?hs = ?hs @ replicate (40 - length ?hs) 0"
    using footer_handles_length [of ?m ?i] by (simp add: str_resize_def kMaxEncodedLength_def)
  have "footer_EncodeTo f [] = bindR (assertR (length (footer_bytes f) = kEncodedLength)) (\<lambda>_. Inr (footer_bytes f))"
    unfolding footer_EncodeTo_def Let_def handle_EncodeTo_bytes [OF assms(1,2)] bindR_Inr handle_EncodeTo_bytes [OF assms(3,4)]
    using res magic by (simp add: footer_bytes_def Let_def PutFixed32_def)
  then show "footer_EncodeTo f [] = Inr (footer_bytes f)" by (simp add: length_footer_bytes kEncodedLength_def kMaxEncodedLength_def)
  have k: "kEncodedLength - 8 = 40" "kEncodedLength - 8 + 4 = 44" "kEncodedLength = 48" by (simp_all add: kEncodedLength_def kMaxEncodedLength_def)
  define z where "z = ?hs @ replicate (40 - length ?hs) (0 :: byte)"
  have z: "length z = 40" using footer_handles_length [of ?m ?i] by (simp add: z_def)
  have F: "footer_bytes f @ rest = z @ EncodeFixed32 0x8b80fb57 @ EncodeFixed32 0xdb477524 @ rest" by (simp add: footer_bytes_def Let_def z_def)
  have d: "drop 40 (footer_bytes f @ rest) = EncodeFixed32 0x8b80fb57 @ EncodeFixed32 0xdb477524 @ rest" unfolding F using z by simp
  have d4: "drop 44 (footer_bytes f @ rest) = EncodeFixed32 0xdb477524 @ rest"
    unfolding F using z by (simp add: EncodeFixed32_def)
  have d8: "drop 48 (footer_bytes f @ rest) = rest" using length_footer_bytes [of f] by simp
  have hs: "footer_bytes f @ rest = handle_bytes ?m @ handle_bytes ?i @ (replicate (40 - length ?hs) 0 @ EncodeFixed32 0x8b80fb57 @ EncodeFixed32 0xdb477524 @ rest)"
    by (simp add: footer_bytes_def Let_def)
  have h1: "handle_DecodeFrom (footer_bytes f @ rest) h' = (Status_OK, ?m, handle_bytes ?i @ (replicate (40 - length ?hs) 0 @ EncodeFixed32 0x8b80fb57 @ EncodeFixed32 0xdb477524 @ rest))" for h'
    unfolding hs by (simp only: append_assoc handle_DecodeFrom_flat)
  have ok: "Status_ok Status_OK" by (simp add: Status_ok_def Status_OK_def)
  have f: "f'\<lparr>ft_metaindex_handle := ?m, ft_index_handle := ?i\<rparr> = f" by (cases f; cases f') simp
  show "footer_DecodeFrom (footer_bytes f @ rest) f' = Inr (Status_OK, f, rest)"
    unfolding footer_DecodeFrom_def k(2)
    unfolding k(1)
    unfolding k(3) d d4 Decode_Encode32 bindR_Inr Let_def magic(3) h1 prod.case append_assoc handle_DecodeFrom_flat
    using ok f d8 by simp
qed

section \<open>Stored blocks\<close>

text \<open>What the compressor promises: its output can be uncompressed, and its format holds lengths below \<open>2\<^sup>3\<^sup>2\<close>.\<close>

definition snappy_ok :: "Snappy \<Rightarrow> bool" where
  "snappy_ok sn \<longleftrightarrow> (\<forall>raw c. sn_Compress sn raw = Some c \<longrightarrow>
     length raw < 2 ^ 32 \<and> sn_GetUncompressedLength sn c = Some (length raw) \<and> sn_Uncompress sn c = Some raw)"

definition trailer :: "CompressionType \<Rightarrow> bytes \<Rightarrow> bytes" where
  "trailer t c = compression_byte t # EncodeFixed32 (crc_Mask (crc_ref 0 (c @ [compression_byte t])))"

definition unpacks :: "Snappy \<Rightarrow> CompressionType \<Rightarrow> bytes \<Rightarrow> bytes \<Rightarrow> bool" where
  "unpacks sn t c raw = (case t of
     kNoCompression \<Rightarrow> raw = c
   | kSnappyCompression \<Rightarrow> sn_GetUncompressedLength sn c = Some (length raw) \<and> sn_Uncompress sn c = Some raw)"

definition stored :: "Snappy \<Rightarrow> bytes \<Rightarrow> BlockHandle \<Rightarrow> bytes \<Rightarrow> bool" where
  "stored sn F h raw \<longleftrightarrow> (\<exists>c t G G'. F = G @ (c @ trailer t c) @ G' \<and> unat (bh_offset h) = length G \<and> unat (bh_size h) = length c \<and>
     length c + 5 < 2 ^ 64 \<and> unpacks sn t c raw \<and> length raw < 2 ^ 32)"

lemma length_trailer [simp]: "length (trailer t c) = 5"
  by (simp add: trailer_def EncodeFixed32_def)

lemma stored_append: "stored sn F h raw \<Longrightarrow> stored sn (F @ G) h raw"
  unfolding stored_def by (metis append.assoc)

context random_file
begin

lemma ReadBlock_stored:
  assumes "ok f" "stored sn (contents f) h raw"
  shows "\<exists>cachable heap. ReadBlock sn R f verify h = Inr (Status_OK, \<lparr>bc_data = raw, bc_cachable = cachable, bc_heap_allocated = heap\<rparr>)"
proof -
  obtain c t G G' where s: "contents f = G @ (c @ trailer t c) @ G'" "unat (bh_offset h) = length G" "unat (bh_size h) = length c" "length c + 5 < 2 ^ 64" "unpacks sn t c raw"
    using assms(2) by (auto simp: stored_def)
  have n: "unat (bh_size h + of_nat kBlockTrailerSize) = length c + 5" using s(3,4) by (simp add: kBlockTrailerSize_def unat_word_ariths)
  obtain b where r: "rf_Read R (bh_offset h) (length c + 5) f = Inr (Status_OK, c @ trailer t c, b)"
    using read_at [OF assms(1), of "bh_offset h" "length c + 5"] s(1,2) by auto
  have crc: "DecodeFixed32 (drop (length c + 1) (c @ trailer t c)) = Inr (crc_Mask (crc_ref 0 (c @ [compression_byte t])))"
    using Decode_Encode32 [of _ "[]"] by (simp add: trailer_def)
  have ld: "load_bytes (c @ trailer t c) 0 (length c + 1) = Inr (c @ [compression_byte t])" "load_bytes (c @ trailer t c) 0 (length c) = Inr c"
    by (simp_all add: load_bytes_def trailer_def)
  have ty: "nth_res (c @ trailer t c) (int (length c)) = Inr (compression_byte t)" by (simp add: nth_res_def trailer_def)
  have ok: "Status_ok Status_OK" by (simp add: Status_ok_def Status_OK_def)
  have good: "(if verify then bindR (DecodeFixed32 (drop (length c + 1) (c @ trailer t c))) (\<lambda>masked.
       bindR (load_bytes (c @ trailer t c) 0 (length c + 1)) (\<lambda>data. Inr (crc_Value data = crc_Unmask masked))) else Inr True) = Inr True"
    unfolding crc ld bindR_Inr by (simp add: crc_Value_ref)
  have len: "length (c @ trailer t c) = length c + 5" by simp
  show ?thesis
    unfolding ReadBlock_def Let_def n s(3) r bindR_Inr prod.case len
    unfolding good
    unfolding bindR_Inr ty ld
    using ok s(5) by (cases t) (auto simp: unpacks_def compression_byte_def load_bytes_def)
qed

end

context writable_file
begin

lemma WriteRawBlock_spec:
  assumes "ok f" "tb_offset r = of_nat (length (contents f))"
  shows "\<exists>f'. WriteRawBlock W c t r f = Inr (\<lparr>bh_offset = of_nat (length (contents f)), bh_size = of_nat (length c)\<rparr>,
      r\<lparr>tb_status := Status_OK, tb_offset := of_nat (length (contents f'))\<rparr>, f') \<and> ok f' \<and> contents f' = contents f @ c @ trailer t c"
proof -
  obtain f1 where 1: "wf_Append W c f = Inr (Status_OK, f1)" "ok f1" "contents f1 = contents f @ c" using append_file [OF assms(1)] by blast
  obtain f2 where 2: "wf_Append W (trailer t c) f1 = Inr (Status_OK, f2)" "ok f2" "contents f2 = contents f1 @ trailer t c" using append_file [OF 1(2)] by blast
  have crc: "crc_Extend 0 (crc_Value c) [compression_byte t] = Inr (crc_ref 0 (c @ [compression_byte t]))"
    using crc_ref_append [of 0 c "[compression_byte t]"] by (simp add: crc_Extend_ref crc_Value_ref)
  have ok: "Status_ok Status_OK" by (simp add: Status_ok_def Status_OK_def)
  have off: "tb_offset r + (of_nat (length c) + of_nat kBlockTrailerSize) = of_nat (length (contents f2))"
    using 1(3) 2(3) assms(2) by (simp add: kBlockTrailerSize_def)
  show ?thesis
    unfolding WriteRawBlock_def Let_def 1(1) bindR_Inr prod.case crc trailer_def [symmetric] 2(1)
    using ok off assms(2) 1(3) 2(2,3) by simp
qed

end


end
