(* ===== verification/Ldb_Table_Build.thy ===== *)
theory Ldb_Table_Build
  imports Ldb_Table_Format
begin

text \<open>
  The builder of tables keeps an invariant (\<open>tb_inv\<close>): the blocks that are written, the block that is filled, the index and the filters
  hold the pairs that were added. \<open>tb_Finish_spec\<close> says that the file is a table (\<open>table_file\<close>) when it returns. The locale
  \<open>table_writer\<close> has what the builder relies on: an order of keys with short separators, keys that belong to user keys, and a file that
  can be appended to.
\<close>

section \<open>The state of the builder\<close>

text \<open>A data block that was written: its entries, its restart points and its handle.\<close>

type_synonym dblock = "entry list \<times> nat list \<times> BlockHandle"

abbreviation db_entries :: "dblock \<Rightarrow> entry list" where "db_entries b \<equiv> fst b"
abbreviation db_restarts :: "dblock \<Rightarrow> nat list" where "db_restarts b \<equiv> fst (snd b)"
abbreviation db_handle :: "dblock \<Rightarrow> BlockHandle" where "db_handle b \<equiv> snd (snd b)"

abbreviation block_position :: "dblock \<Rightarrow> nat" where "block_position b \<equiv> unat (bh_offset (db_handle b))"

definition block_keys :: "dblock \<Rightarrow> bytes list" where
  "block_keys b = map entry_key (db_entries b)"

definition keys_after :: "nat \<Rightarrow> dblock list \<Rightarrow> entry list \<Rightarrow> bytes list" where
  "keys_after i blocks xs = concat (map block_keys (drop i blocks)) @ map entry_key xs"

text \<open>
  An index entry: its key is not before the keys of its block and before every key that follows; when the block does not have the key
  itself, then none of the keys that follow belongs to the same user key (\<open>cls\<close>).
\<close>

definition index_gap :: "(slice \<Rightarrow> slice \<Rightarrow> int) \<Rightarrow> (slice \<Rightarrow> slice) \<Rightarrow> dblock \<Rightarrow> slice \<Rightarrow> slice \<Rightarrow> bool" where
  "index_gap cmp cls b s k \<longleftrightarrow> cmp s k < 0 \<and> (s \<in> set (block_keys b) \<or> cls s \<noteq> cls k)"

definition index_entry_ok :: "(slice \<Rightarrow> slice \<Rightarrow> int) \<Rightarrow> (slice \<Rightarrow> slice) \<Rightarrow> (slice \<Rightarrow> bool) \<Rightarrow> dblock \<Rightarrow> entry \<Rightarrow> bytes list \<Rightarrow> bool" where
  "index_entry_ok cmp cls ok b e later \<longleftrightarrow> ok (entry_key e) \<and> entry_value e = handle_bytes (db_handle b) \<and>
     length (entry_key e) \<le> length (last (block_keys b)) \<and>
     (\<forall>k \<in> set (block_keys b). cmp k (entry_key e) \<le> 0) \<and> (\<forall>k \<in> set later. index_gap cmp cls b (entry_key e) k)"

definition index_ok :: "(slice \<Rightarrow> slice \<Rightarrow> int) \<Rightarrow> (slice \<Rightarrow> slice) \<Rightarrow> (slice \<Rightarrow> bool) \<Rightarrow> dblock list \<Rightarrow> entry list \<Rightarrow> entry list \<Rightarrow> bool" where
  "index_ok cmp cls ok blocks xs ixs \<longleftrightarrow> length ixs \<le> length blocks \<and>
     (\<forall>i < length ixs. index_entry_ok cmp cls ok (blocks ! i) (ixs ! i) (keys_after (Suc i) blocks xs))"

text \<open>The bytes of the entries with room for their headers.\<close>

definition weight :: "entry list \<Rightarrow> nat" where
  "weight xs = sum_list (map (\<lambda>e. length (entry_key e) + length (entry_value e) + 32) xs)"

definition blocks_ok :: "Snappy \<Rightarrow> bytes \<Rightarrow> dblock list \<Rightarrow> bool" where
  "blocks_ok sn F blocks \<longleftrightarrow> length F \<le> sum_list (map (weight \<circ> db_entries) blocks) \<and> sorted_wrt (<) (map block_position blocks) \<and>
     (\<forall>b \<in> set blocks. db_entries b \<noteq> [] \<and> readable (db_entries b) (db_restarts b) \<and>
        stored sn F (db_handle b) (block_bytes (db_entries b) (db_restarts b)) \<and> unat (bh_offset (db_handle b)) < length F \<and> unat (bh_size (db_handle b)) < length F)"

definition filter_inv :: "(slice \<Rightarrow> bool) \<Rightarrow> TableOptions \<Rightarrow> u64 \<Rightarrow> FilterBlockBuilder option \<Rightarrow> dblock list \<Rightarrow> entry list \<Rightarrow> bool" where
  "filter_inv ok opt offset fb blocks xs \<longleftrightarrow> (case to_filter_policy opt of
     None \<Rightarrow> fb = None
   | Some P \<Rightarrow> (\<exists>b ks pend. fb = Some b \<and> fb_inv P ok ks pend b \<and> length ks = filter_index offset \<and>
       (\<forall>d \<in> set blocks. \<forall>k \<in> set (block_keys d). in_filter ks pend (filter_index (bh_offset (db_handle d))) k) \<and>
       (\<forall>x \<in> set xs. in_filter ks pend (filter_index offset) (entry_key x)) \<and>
       length (fb_result b) + 80 * length (fb_start b) \<le> 80 * length (keys_after 0 blocks xs)))"

definition tb_base :: "TableOptions \<Rightarrow> bytes \<Rightarrow> TableBuilderRep \<Rightarrow> bool" where
  "tb_base opt F r \<longleftrightarrow> tb_options r = opt \<and> tb_index_block_options r = opt\<lparr>to_block_restart_interval := 1\<rparr> \<and> tb_ok r \<and> \<not> tb_closed r \<and>
     tb_offset r = of_nat (length F)"

definition tb_inv :: "(slice \<Rightarrow> slice \<Rightarrow> int) \<Rightarrow> (slice \<Rightarrow> slice) \<Rightarrow> (slice \<Rightarrow> bool) \<Rightarrow> Snappy \<Rightarrow> TableOptions \<Rightarrow> bytes \<Rightarrow> TableBuilderRep \<Rightarrow>
    dblock list \<Rightarrow> entry list \<Rightarrow> nat list \<Rightarrow> entry list \<Rightarrow> nat list \<Rightarrow> bool" where
  "tb_inv cmp cls ok sn opt F r blocks xs rs ixs irs \<longleftrightarrow> tb_base opt F r \<and>
     bb_inv (to_block_restart_interval opt) (tb_data_block r) xs rs \<and> bb_inv 1 (tb_index_block r) ixs irs \<and>
     sorted_wrt (\<lambda>a b. cmp a b < 0) (keys_after 0 blocks xs) \<and> (\<forall>k \<in> set (keys_after 0 blocks xs). ok k) \<and>
     blocks_ok sn F blocks \<and> index_ok cmp cls ok blocks xs ixs \<and> filter_inv ok opt (tb_offset r) (tb_filter_block r) blocks xs \<and>
     tb_num_entries r = int (length (keys_after 0 blocks xs)) \<and> (keys_after 0 blocks xs \<noteq> [] \<longrightarrow> tb_last_key r = last (keys_after 0 blocks xs)) \<and>
     (if tb_pending_index_entry r then xs = [] \<and> blocks \<noteq> [] \<and> length ixs = length blocks - 1 \<and> tb_pending_handle r = db_handle (last blocks)
      else length ixs = length blocks \<and> (xs = [] \<longrightarrow> blocks = []))"

section \<open>Sizes\<close>

lemma entry_bytes_bound: "length (entry_bytes e) \<le> length (entry_key e) + length (entry_value e) + 15"
proof -
  obtain s k v where e: "e = (s, k, v)" by (cases e)
  have v: "length (EncodeVarint32 x) \<le> 5" for x
  proof -
    have "unat x < 2 ^ 32" using unsigned_less [of x, where 'a = nat] by simp
    then show ?thesis unfolding EncodeVarint32_varint by (intro length_varint) auto
  qed
  from v [of "of_nat s"] v [of "of_nat (length k - s)"] v [of "of_nat (length v)"] show ?thesis
    unfolding e entry_bytes.simps length_append fst_conv snd_conv length_drop by linarith
qed

lemma restarts_bound:
  assumes "block_ok xs rs"
  shows "length rs \<le> length xs \<or> xs = [] \<and> length rs = 1"
proof -
  have rs: "sorted_wrt (<) rs" "\<forall>r \<in> set rs. if xs = [] then r = 0 else r < length xs" "rs \<noteq> []"
    using assms by (auto simp: block_ok_def split: if_splits)
  then have d: "distinct rs" by (simp add: strict_sorted_iff)
  show ?thesis
  proof (cases "xs = []")
    case True
    then have "set rs \<subseteq> {0}" using rs(2) by auto
    then have "length rs \<le> 1" using card_mono [of "{0}" "set rs"] distinct_card [OF d] by simp
    then show ?thesis using True rs(3) by (cases rs) auto
  next
    case False
    then have "set rs \<subseteq> {..<length xs}" using rs(2) by auto
    then show ?thesis using card_mono [of "{..<length xs}" "set rs"] distinct_card [OF d] by simp
  qed
qed

lemma entries_bytes_bound: "length (entries_bytes xs) + 17 * length xs \<le> weight xs"
proof (induction xs)
  case (Cons e xs)
  then show ?case using entry_bytes_bound [of e] by (simp add: weight_def)
qed (simp add: weight_def)

lemma block_bytes_bound:
  assumes "block_ok xs rs"
  shows "length (block_bytes xs rs) + 13 * length xs \<le> weight xs + 8"
proof -
  have "length (block_bytes xs rs) = length (entries_bytes xs) + 4 * length rs + 4" by (simp add: block_bytes_length entry_off_all)
  then show ?thesis using restarts_bound [OF assms] entries_bytes_bound [of xs] by auto
qed


section \<open>Writing blocks\<close>

lemma compress_block_unpacks:
  assumes "snappy_ok sn" "compress_block sn type raw = (c, t)"
  shows "unpacks sn t c raw" "length c \<le> length raw"
  using assms by (auto simp: compress_block_def unpacks_def snappy_ok_def split: CompressionType.splits option.splits if_splits)

lemma stored_new:
  assumes "unpacks sn t c raw" "length G + length c + 5 < 2 ^ 64" "length raw < 2 ^ 32"
  shows "stored sn (G @ c @ trailer t c) \<lparr>bh_offset = of_nat (length G), bh_size = of_nat (length c)\<rparr> raw"
proof -
  have "unat (of_nat (length G) :: u64) = length G" "unat (of_nat (length c) :: u64) = length c" using assms(2) by (simp_all add: unat_of_nat)
  then show ?thesis unfolding stored_def using assms by (intro exI [of _ c] exI [of _ t] exI [of _ G] exI [of _ "[]"]) simp
qed

text \<open>
  The keys of a table belong to user keys: \<open>cls\<close> gives the user key. The keys of one user key are next to each other, and a key that
  separates two keys belongs to another user key than the second one.
\<close>

locale user_keys = key_comparator cmp ok C for cmp ok C +
  fixes cls :: "slice \<Rightarrow> slice"
  assumes cls_between: "ok a \<Longrightarrow> ok b \<Longrightarrow> ok c \<Longrightarrow> cmp a b \<le> 0 \<Longrightarrow> cmp b c \<le> 0 \<Longrightarrow> cls a = cls c \<Longrightarrow> cls b = cls c"
    and cls_separator: "cmp_FindShortestSeparator C a b = Inr s \<Longrightarrow> ok a \<Longrightarrow> ok b \<Longrightarrow> cmp a b < 0 \<Longrightarrow> s = a \<or> cls s \<noteq> cls b"

locale table_writer = user_keys cmp ok C cls + writable_file W wok contents
  for cmp ok C cls and W :: "'f WritableFile" and wok contents +
  assumes short_separator: "cmp_FindShortestSeparator C a b = Inr s \<Longrightarrow> ok a \<Longrightarrow> ok b \<Longrightarrow> length s \<le> length a"
    and short_successor: "cmp_FindShortSuccessor C a = Inr s \<Longrightarrow> ok a \<Longrightarrow> length s \<le> length a"
begin

lemma WriteBlock_spec:
  assumes "wok f" "tb_ok r" "tb_offset r = of_nat (length (contents f))" "snappy_ok sn" "bb_inv n block xs rs"
    and "length (contents f) + length (block_bytes xs rs) + 5 < 2 ^ 32"
  shows "\<exists>h c f'. WriteBlock sn W block r f = Inr (h, bb_Reset (snd (bb_Finish block)), r\<lparr>tb_status := Status_OK, tb_offset := of_nat (length (contents f'))\<rparr>, f')
     \<and> wok f' \<and> contents f' = contents f @ c \<and> length c \<le> length (block_bytes xs rs) + 5 \<and> stored sn (contents f') h (block_bytes xs rs)
     \<and> unat (bh_offset h) = length (contents f) \<and> unat (bh_size h) + 5 = length c"
proof -
  obtain b t where c: "compress_block sn (to_compression (tb_options r)) (block_bytes xs rs) = (b, t)" by fastforce
  note cu = compress_block_unpacks [OF assms(4) c]
  obtain f' where f': "WriteRawBlock W b t r f = Inr (\<lparr>bh_offset = of_nat (length (contents f)), bh_size = of_nat (length b)\<rparr>,
      r\<lparr>tb_status := Status_OK, tb_offset := of_nat (length (contents f'))\<rparr>, f')" "wok f'" "contents f' = contents f @ b @ trailer t b"
    using WriteRawBlock_spec [OF assms(1,3)] by blast
  obtain block' where fin: "bb_Finish block = (block_bytes xs rs, block')" using bb_Finish_bytes [OF assms(5)] by (metis prod.collapse)
  have len: "length (contents f) + length b + 5 < 2 ^ 64" "length (block_bytes xs rs) < 2 ^ 32" using assms(6) cu(2) by simp_all
  have "WriteBlock sn W block r f = Inr (\<lparr>bh_offset = of_nat (length (contents f)), bh_size = of_nat (length b)\<rparr>, bb_Reset (snd (bb_Finish block)),
      r\<lparr>tb_status := Status_OK, tb_offset := of_nat (length (contents f'))\<rparr>, f')"
    unfolding WriteBlock_def fin Let_def prod.case c f'(1) using assms(2) by simp
  moreover have "unat (of_nat (length (contents f)) :: u64) = length (contents f)" "unat (of_nat (length b) :: u64) = length b"
    using len(1) by (simp_all add: unat_of_nat)
  ultimately show ?thesis using f'(2,3) cu stored_new [OF cu(1) len] by (intro exI [of _ "\<lparr>bh_offset = of_nat (length (contents f)), bh_size = of_nat (length b)\<rparr>"]
      exI [of _ "b @ trailer t b"] exI [of _ f']) simp
qed

end

section \<open>Filters while a table is built\<close>

text \<open>A policy whose filters are small: a hundred and twenty-eight bits for each key and some more.\<close>

definition small_filters :: "FilterPolicy \<Rightarrow> bool" where
  "small_filters P \<longleftrightarrow> (\<forall>keys dst f. fp_CreateFilter P keys dst = Inr f \<longrightarrow> length f \<le> length dst + 16 * length keys + 64)"

definition filter_options :: "(slice \<Rightarrow> bool) \<Rightarrow> TableOptions \<Rightarrow> bool" where
  "filter_options ok opt \<longleftrightarrow> (\<forall>P. to_filter_policy opt = Some P \<longrightarrow> filter_policy P ok \<and> small_filters P)"

lemma GenerateFilter_size:
  assumes "small_filters P" "GenerateFilter P b = Inr b'"
  shows "length (fb_result b') + 80 * length (fb_start b') \<le> length (fb_result b) + 80 * length (fb_start b)"
proof (cases "length (fb_start b) = 0")
  case True
  then show ?thesis using assms(2) by (auto simp: GenerateFilter_def Let_def)
next
  case False
  obtain result keys where r: "fp_CreateFilter P keys (fb_result b) = Inr result" "length keys = length (fb_start b)" "fb_result b' = result" "fb_start b' = []"
    using assms(2) False by (auto simp: GenerateFilter_def Let_def bindR_eq_Inr)
  have "length result \<le> length (fb_result b) + 16 * length keys + 64" using assms(1) r(1) by (simp add: small_filters_def)
  then show ?thesis using r(2-4) False by (cases "length (fb_start b)") auto
qed

lemma generate_until_size:
  "small_filters P \<Longrightarrow> generate_until P n b = Inr b' \<Longrightarrow> length (fb_result b') + 80 * length (fb_start b') \<le> length (fb_result b) + 80 * length (fb_start b)"
proof (induction P n b rule: generate_until.induct)
  case (1 P n b)
  show ?case
  proof (cases "length (fb_offsets b) < n")
    case True
    then obtain b1 where b1: "GenerateFilter P b = Inr b1" "generate_until P n b1 = Inr b'"
      using "1.prems"(2) by (subst (asm) generate_until.simps) (auto simp: bindR_eq_Inr)
    show ?thesis using "1.IH" [OF True b1(1) "1.prems"(1) b1(2)] GenerateFilter_size [OF "1.prems"(1) b1(1)] by linarith
  next
    case False
    then show ?thesis using "1.prems"(2) by (subst (asm) generate_until.simps) simp
  qed
qed

lemma filter_inv_AddKey:
  assumes "filter_inv ok opt off fb blocks xs" "ok k"
  shows "\<exists>fb'. on_filter opt (\<lambda>P b. Inr (AddKey k b)) fb = Inr fb' \<and> (\<forall>s v. filter_inv ok opt off fb' blocks (xs @ [(s, k, v)]))"
proof (cases "to_filter_policy opt")
  case None
  then show ?thesis using assms by (simp add: filter_inv_def on_filter_def)
next
  case (Some P)
  then obtain b ks pend where b: "fb = Some b" "fb_inv P ok ks pend b" "length ks = filter_index off"
      "\<forall>d \<in> set blocks. \<forall>k \<in> set (block_keys d). in_filter ks pend (filter_index (bh_offset (db_handle d))) k"
      "\<forall>x \<in> set xs. in_filter ks pend (filter_index off) (entry_key x)" "length (fb_result b) + 80 * length (fb_start b) \<le> 80 * length (keys_after 0 blocks xs)"
    using assms(1) by (auto simp: filter_inv_def)
  have up: "in_filter ks (pend @ [k]) i x" if "in_filter ks pend i x" for i x using in_filter_pend [OF that, of "pend @ [k]"] by auto
  have new: "in_filter ks (pend @ [k]) (filter_index off) k" using b(3) by (simp add: in_filter_def nth_append)
  have "length (fb_result (AddKey k b)) + 80 * length (fb_start (AddKey k b)) = length (fb_result b) + 80 * length (fb_start b) + 80" by (simp add: AddKey_def)
  then have sz: "length (fb_result (AddKey k b)) + 80 * length (fb_start (AddKey k b)) \<le> 80 * length (keys_after 0 blocks (xs @ [(s, k, v)]))" for s v
    using b(6) by (simp add: keys_after_def)
  have "filter_inv ok opt off (Some (AddKey k b)) blocks (xs @ [(s, k, v)])" for s v
    unfolding filter_inv_def Some option.case using fb_inv_AddKey [OF b(2) assms(2)] b(3-5) up new sz
    by (intro exI [of _ "AddKey k b"] exI [of _ ks] exI [of _ "pend @ [k]"]) auto
  then show ?thesis using Some b(1) by (simp add: on_filter_def)
qed

text \<open>The current block becomes the last one that is written, and the next block starts at \<open>off'\<close>.\<close>

lemma filter_inv_StartBlock:
  assumes "filter_inv ok opt off fb blocks xs" "filter_options ok opt" "unat off \<le> unat off'" "bh_offset h = off"
  shows "\<exists>fb'. on_filter opt (\<lambda>P b. StartBlock P off' b) fb = Inr fb' \<and> filter_inv ok opt off' fb' (blocks @ [(xs, rs, h)]) []"
proof (cases "to_filter_policy opt")
  case None
  then show ?thesis using assms by (simp add: filter_inv_def on_filter_def)
next
  case (Some P)
  then obtain b ks pend where b: "fb = Some b" "fb_inv P ok ks pend b" "length ks = filter_index off"
      "\<forall>d \<in> set blocks. \<forall>k \<in> set (block_keys d). in_filter ks pend (filter_index (bh_offset (db_handle d))) k"
      "\<forall>x \<in> set xs. in_filter ks pend (filter_index off) (entry_key x)" "length (fb_result b) + 80 * length (fb_start b) \<le> 80 * length (keys_after 0 blocks xs)"
    using assms(1) by (auto simp: filter_inv_def)
  have P: "filter_policy P ok" "small_filters P" using assms(2) Some by (simp_all add: filter_options_def)
  have le: "length ks \<le> filter_index off'" using b(3) assms(3) by (simp add: filter_index_eq(2) div_le_mono)
  obtain b' ks' pend' zs where b': "generate_until P (filter_index off') b = Inr b'" "fb_inv P ok ks' pend' b'" "length ks' = filter_index off'"
      "ks' @ [pend'] = (ks @ [pend]) @ zs"
    using filter_policy.generate_until_inv [OF P(1) b(2) le] by blast
  have start: "StartBlock P off' b = Inr b'" using b'(1) le fb_inv_offsets [OF b(2)] by (simp add: StartBlock_def Let_def filter_index_def)
  have up: "in_filter ks' pend' i x" if "in_filter ks pend i x" for i x using in_filter_more [OF b'(4) that] .
  have "length (fb_result b') + 80 * length (fb_start b') \<le> 80 * length (keys_after 0 (blocks @ [(xs, rs, h)]) [])"
    using generate_until_size [OF P(2) b'(1)] b(6) by (simp add: keys_after_def block_keys_def)
  then have "filter_inv ok opt off' (Some b') (blocks @ [(xs, rs, h)]) []"
    unfolding filter_inv_def Some option.case using b'(2,3) b(4,5) up assms(4)
    by (intro exI [of _ b'] exI [of _ ks'] exI [of _ pend']) (auto simp: block_keys_def)
  then show ?thesis using start Some b(1) by (simp add: on_filter_def)
qed


section \<open>Adding to a table\<close>

definition pairs :: "dblock list \<Rightarrow> entry list \<Rightarrow> (slice \<times> slice) list" where
  "pairs blocks xs = concat (map (map snd \<circ> db_entries) blocks) @ map snd xs"

definition total_weight :: "dblock list \<Rightarrow> entry list \<Rightarrow> nat" where
  "total_weight blocks xs = sum_list (map (weight \<circ> db_entries) blocks) + weight xs"

lemma keys_pairs: "keys_after 0 blocks xs = map fst (pairs blocks xs)"
  by (induction blocks) (simp_all add: keys_after_def pairs_def block_keys_def)

lemma keys_after_flush: "keys_after i (blocks @ [(xs, rs, h)]) [] = (if i \<le> length blocks then keys_after i blocks xs else [])"
  by (auto simp: keys_after_def block_keys_def)

lemma pairs_flush: "pairs (blocks @ [(xs, rs, h)]) [] = pairs blocks xs" "total_weight (blocks @ [(xs, rs, h)]) [] = total_weight blocks xs"
  by (simp_all add: pairs_def total_weight_def weight_def)

lemma index_ok_flush: "index_ok cmp cls ok blocks xs ixs \<Longrightarrow> index_ok cmp cls ok (blocks @ [(xs, rs, h)]) [] ixs"
  by (auto simp: index_ok_def keys_after_flush nth_append)

lemma blocks_ok_flush:
  assumes "blocks_ok sn F blocks" "xs \<noteq> []" "block_ok xs rs" "length c \<le> length (block_bytes xs rs) + 5" "stored sn (F @ c) h (block_bytes xs rs)"
    and "unat (bh_offset h) = length F" "unat (bh_size h) + 5 = length c" "total_weight blocks xs < 2 ^ 31"
  shows "blocks_ok sn (F @ c) (blocks @ [(xs, rs, h)])"
proof -
  have "1 \<le> length xs" using assms(2) by (cases xs) auto
  then have b: "length (block_bytes xs rs) + 5 \<le> weight xs" using block_bytes_bound [OF assms(3)] by linarith
  have "length (block_bytes xs rs) < 2 ^ 32" using b assms(8) by (simp add: total_weight_def)
  then have rd: "readable xs rs" using assms(3) by (simp add: readable_def)
  have "length (F @ c) \<le> sum_list (map (weight \<circ> db_entries) (blocks @ [(xs, rs, h)]))"
    using assms(1,4) b by (simp add: blocks_ok_def)
  moreover have "sorted_wrt (<) (map block_position (blocks @ [(xs, rs, h)]))" using assms(1,6) by (auto simp: blocks_ok_def sorted_wrt_append)
  ultimately show ?thesis using assms(1,2,5-7) rd stored_append [of sn F _ _ c] by (fastforce simp: blocks_ok_def)
qed

lemma Status_ok_OK [simp]: "Status_ok Status_OK"
  by (simp add: Status_ok_def Status_OK_def)

context table_writer
begin

lemma tb_Flush_spec:
  assumes inv: "tb_inv cmp cls ok sn opt (contents f) r blocks xs rs ixs irs" and f: "wok f" and sn: "snappy_ok sn" and fo: "filter_options ok opt"
    and iv: "1 \<le> to_block_restart_interval opt" and wt: "total_weight blocks xs < 2 ^ 31"
  shows "\<exists>r' f' blocks' rs'. tb_Flush sn W r f = Inr (r', f') \<and> wok f' \<and> tb_inv cmp cls ok sn opt (contents f') r' blocks' [] rs' ixs irs
     \<and> pairs blocks' [] = pairs blocks xs \<and> total_weight blocks' [] = total_weight blocks xs \<and> (tb_pending_index_entry r' \<longleftrightarrow> blocks' \<noteq> [])"
proof -
  have base: "tb_options r = opt" "tb_index_block_options r = opt\<lparr>to_block_restart_interval := 1\<rparr>" "tb_ok r" "\<not> tb_closed r" "tb_offset r = of_nat (length (contents f))"
    and data: "bb_inv (to_block_restart_interval opt) (tb_data_block r) xs rs" and bo: "blocks_ok sn (contents f) blocks"
    and fi: "filter_inv ok opt (tb_offset r) (tb_filter_block r) blocks xs"
    and pend: "if tb_pending_index_entry r then xs = [] \<and> blocks \<noteq> [] \<and> length ixs = length blocks - 1 \<and> tb_pending_handle r = db_handle (last blocks)
      else length ixs = length blocks \<and> (xs = [] \<longrightarrow> blocks = [])"
    using inv by (auto simp: tb_inv_def tb_base_def)
  have emp: "bb_empty (tb_data_block r) \<longleftrightarrow> xs = []" using data entries_bytes_Nil_iff [of xs] by (simp add: bb_empty_def bb_inv_def)
  show ?thesis
  proof (cases "xs = []")
    case True
    then show ?thesis using emp base inv f pend by (intro exI [of _ r] exI [of _ f] exI [of _ blocks] exI [of _ rs]) (auto simp: tb_Flush_def split: if_splits)
  next
    case False
    have ok_xs: "block_ok xs rs" using data by (simp add: bb_inv_def)
    have "1 \<le> length xs" using False by (cases xs) auto
    then have b: "length (block_bytes xs rs) + 5 \<le> weight xs" using block_bytes_bound [OF ok_xs] by linarith
    have F: "length (contents f) \<le> sum_list (map (weight \<circ> db_entries) blocks)" using bo by (simp add: blocks_ok_def)
    have small: "length (contents f) + length (block_bytes xs rs) + 5 < 2 ^ 32" using b F wt by (simp add: total_weight_def)
    obtain h c f1 where w: "WriteBlock sn W (tb_data_block r) r f = Inr (h, bb_Reset (snd (bb_Finish (tb_data_block r))), r\<lparr>tb_status := Status_OK, tb_offset := of_nat (length (contents f1))\<rparr>, f1)"
        "wok f1" "contents f1 = contents f @ c" "length c \<le> length (block_bytes xs rs) + 5" "stored sn (contents f1) h (block_bytes xs rs)"
        "unat (bh_offset h) = length (contents f)" "unat (bh_size h) + 5 = length c"
      using WriteBlock_spec [OF f base(3,5) sn data small] by blast
    obtain f2 where f2: "wf_Flush W f1 = Inr (Status_OK, f2)" "wok f2" "contents f2 = contents f1" using flush_file [OF w(2)] by blast
    let ?off = "of_nat (length (contents f1)) :: u64" and ?blocks = "blocks @ [(xs, rs, h)]"
    have off: "unat (tb_offset r) \<le> unat ?off" "bh_offset h = tb_offset r"
    proof -
      have "length (contents f1) < 2 ^ 64" "length (contents f) < 2 ^ 64" using small w(3,4) by simp_all
      then have u: "unat ?off = length (contents f1)" "unat (tb_offset r) = length (contents f)" using base(5) by (simp_all add: unat_of_nat)
      then show "unat (tb_offset r) \<le> unat ?off" using w(3) by simp
      show "bh_offset h = tb_offset r" using u(2) w(6) by (simp add: word_unat_eq_iff)
    qed
    obtain fb where fb: "on_filter opt (\<lambda>P b. StartBlock P ?off b) (tb_filter_block r) = Inr fb" "filter_inv ok opt ?off fb ?blocks []"
      using filter_inv_StartBlock [OF fi fo off] by blast
    let ?r = "r\<lparr>tb_status := Status_OK, tb_offset := ?off, tb_data_block := bb_Reset (snd (bb_Finish (tb_data_block r))), tb_pending_handle := h,
      tb_pending_index_entry := True, tb_filter_block := fb\<rparr>"
    have np: "\<not> tb_pending_index_entry r" using pend False by (auto split: if_splits)
    have "tb_Flush sn W r f = Inr (?r, f2)"
      unfolding tb_Flush_def w(1) bindR_Inr prod.case Let_def using base np emp False f2(1) fb(1) by (simp add: tb_ok_def)
    moreover have "tb_inv cmp cls ok sn opt (contents f2) ?r ?blocks [] [0] ixs irs"
    proof -
      have "blocks_ok sn (contents f2) ?blocks" using blocks_ok_flush [OF bo False ok_xs w(4) _ w(6,7) wt] w(3,5) f2(3) by simp
      then show ?thesis using inv base fb(2) f2(3) bb_inv_Reset [OF iv] index_ok_flush [of cmp cls ok blocks xs ixs rs h] np pend
        by (simp add: tb_inv_def tb_base_def tb_ok_def keys_after_flush)
    qed
    ultimately show ?thesis using f2(2) pairs_flush [of blocks xs rs h] by (intro exI [of _ ?r] exI [of _ f2] exI [of _ ?blocks] exI [of _ "[0]"]) simp
  qed
qed

end


lemma keys_after_add: "keys_after i blocks (xs @ [(s, k, v)]) = keys_after i blocks xs @ [k]"
  by (simp add: keys_after_def)

lemma index_ok_add:
  assumes "index_ok cmp cls ok blocks xs ixs" "\<forall>i < length ixs. index_gap cmp cls (blocks ! i) (entry_key (ixs ! i)) k"
  shows "index_ok cmp cls ok blocks (xs @ [(s, k, v)]) ixs"
  using assms by (auto simp: index_ok_def index_entry_ok_def keys_after_add)

lemma last_key_eq: "xs \<noteq> [] \<Longrightarrow> last_key [] xs = last (keys_after i blocks xs)"
  by (simp add: last_key_def keys_after_def last_map)

lemma keys_after_subset: "set (keys_after i blocks xs) \<subseteq> set (keys_after 0 blocks xs)"
  by (auto simp: keys_after_def dest: in_set_dropD)

lemma last_block_keys:
  assumes "i < length blocks" "db_entries (last blocks) \<noteq> []"
  shows "keys_after i blocks [] \<noteq> []" "last (keys_after i blocks []) = last (block_keys (last blocks))" "last (block_keys (last blocks)) \<in> set (keys_after i blocks [])"
proof -
  have "blocks \<noteq> []" using assms(1) by auto
  have "drop i blocks \<noteq> []" "last (drop i blocks) = last blocks" using assms(1) by (simp_all add: last_drop)
  then have d: "drop i blocks = butlast (drop i blocks) @ [last blocks]" by (metis append_butlast_last_id)
  have k: "keys_after i blocks [] = concat (map block_keys (butlast (drop i blocks))) @ block_keys (last blocks)"
    using arg_cong [OF d, of "\<lambda>z. concat (map block_keys z)"] by (simp add: keys_after_def)
  have "block_keys (last blocks) \<noteq> []" using assms(2) by (simp add: block_keys_def)
  then show "keys_after i blocks [] \<noteq> []" "last (keys_after i blocks []) = last (block_keys (last blocks))" "last (block_keys (last blocks)) \<in> set (keys_after i blocks [])"
    unfolding k by simp_all
qed

lemma sorted_wrt_last: "sorted_wrt P ks \<Longrightarrow> k \<in> set ks \<Longrightarrow> k = last ks \<or> P k (last ks)"
  by (induction ks) (auto split: if_splits)

context table_writer
begin

lemma separators_below:
  assumes "index_ok cmp cls ok blocks xs ixs" "\<forall>k' \<in> set (keys_after 0 blocks xs). ok k' \<and> cmp k' k < 0" "ok k" "i < length ixs" "keys_after (Suc i) blocks xs \<noteq> []"
  shows "index_gap cmp cls (blocks ! i) (entry_key (ixs ! i)) k"
proof -
  let ?k = "hd (keys_after (Suc i) blocks xs)"
  have m: "?k \<in> set (keys_after (Suc i) blocks xs)" using assms(5) by simp
  have e: "ok (entry_key (ixs ! i))" "index_gap cmp cls (blocks ! i) (entry_key (ixs ! i)) ?k" using assms(1,4) m by (auto simp: index_ok_def index_entry_ok_def)
  have k: "ok ?k" "cmp ?k k < 0" using assms(2) m keys_after_subset [of "Suc i" blocks xs] by auto
  have lt: "cmp (entry_key (ixs ! i)) ?k < 0" using e(2) by (simp add: index_gap_def)
  have "cls (entry_key (ixs ! i)) = cls k \<Longrightarrow> cls (entry_key (ixs ! i)) = cls ?k"
    using cls_between [OF e(1) k(1) assms(3)] lt k(2) by simp
  then show ?thesis using e(2) cmp_less_trans [OF e(1) k(1) assms(3) lt] k(2) by (auto simp: index_gap_def)
qed

lemma add_index_entry_spec:
  assumes C: "to_comparator opt = C" and inv: "tb_inv cmp cls ok sn opt F r blocks [] rs ixs irs" and p: "tb_pending_index_entry r" and s: "ok s" "cmp (tb_last_key r) s \<le> 0" "length s \<le> length (tb_last_key r)"
    and wt: "total_weight blocks [] < 2 ^ 31"
  shows "\<exists>ib irs' sh. add_index_entry (r\<lparr>tb_last_key := s\<rparr>) = Inr (r\<lparr>tb_last_key := s, tb_index_block := ib, tb_pending_index_entry := False\<rparr>)
     \<and> bb_inv 1 ib (ixs @ [(sh, s, handle_bytes (db_handle (last blocks)))]) irs' \<and> index_ok cmp cls ok blocks [] (ixs @ [(sh, s, handle_bytes (db_handle (last blocks)))])"
proof -
  let ?h = "db_handle (last blocks)" and ?a = "tb_last_key r"
  have i: "blocks \<noteq> []" "length ixs = length blocks - 1" "tb_pending_handle r = ?h" "bb_inv 1 (tb_index_block r) ixs irs" "index_ok cmp cls ok blocks [] ixs"
      "tb_index_block_options r = opt\<lparr>to_block_restart_interval := 1\<rparr>" "tb_options r = opt" "sorted_wrt (\<lambda>a b. cmp a b < 0) (keys_after 0 blocks [])"
      "\<forall>k \<in> set (keys_after 0 blocks []). ok k" "blocks_ok sn F blocks" "keys_after 0 blocks [] \<noteq> [] \<longrightarrow> tb_last_key r = last (keys_after 0 blocks [])"
    using inv p by (auto simp: tb_inv_def tb_base_def)
  let ?o = "block_options (tb_index_block_options r)"
  have o: "opt_comparator ?o = C" "opt_restart_interval ?o = 1" using C by (simp_all add: i(6) block_options_def)
  have lb: "last blocks \<in> set blocks" using i(1) by simp
  then have ne: "db_entries (last blocks) \<noteq> []" and hb: "unat (bh_offset ?h) < length F" "unat (bh_size ?h) < length F" "length F \<le> sum_list (map (weight \<circ> db_entries) blocks)"
    using i(10) by (auto simp: blocks_ok_def)
  note lk = last_block_keys [OF _ ne]
  have a: "?a = last (block_keys (last blocks))" "ok ?a" using lk [of 0] i(1,9,11) by auto
  have "length F < 2 ^ 32" using hb(3) wt by (simp add: total_weight_def)
  then have small: "unat (bh_offset ?h) < 2 ^ 32" "unat (bh_size ?h) < 2 ^ 32" using hb by simp_all
  have "unat (NOT 0 :: u64) = 2 ^ 64 - 1" by (simp add: unsigned_minus_1_eq_mask mask_eq_exp_minus_1)
  then have nz: "bh_offset ?h \<noteq> NOT 0" "bh_size ?h \<noteq> NOT 0" using small by auto
  have enc: "handle_EncodeTo ?h [] = Inr (handle_bytes ?h)" using handle_EncodeTo_bytes [OF nz] by simp
  have below: "cmp k s \<le> 0" if "k \<in> set (keys_after 0 blocks [])" for k
  proof -
    have "k = ?a \<or> cmp k ?a < 0" using sorted_wrt_last [OF i(8) that] i(11) that by auto
    then show ?thesis using cmp_trans [of k ?a s] s a(2) i(9) that by auto
  qed
  have "\<exists>c. cmp_Compare C s (last_key [] ixs) = Inr c \<and> 0 < c" if "ixs \<noteq> []"
  proof -
    let ?j = "length ixs - 1"
    have j: "?j < length ixs" "Suc ?j < length blocks" using that i(2) by (cases ixs; simp)+
    have m: "?a \<in> set (keys_after (Suc ?j) blocks [])" using lk(3) [OF j(2)] a(1) by simp
    have e: "ok (entry_key (ixs ! ?j))" "cmp (entry_key (ixs ! ?j)) ?a < 0" using i(5) j(1) m by (auto simp: index_ok_def index_entry_ok_def index_gap_def)
    then have "cmp (entry_key (ixs ! ?j)) s < 0" using cmp_less_trans [OF e(1) a(2) s(1)] s(2) by simp
    then have "0 < cmp s (entry_key (ixs ! ?j))" using cmp_flip [OF e(1) s(1)] by simp
    moreover have "last_key [] ixs = entry_key (ixs ! ?j)" using that by (simp add: last_key_def last_conv_nth)
    ultimately show ?thesis using Compare_eq [OF s(1) e(1)] by simp
  qed
  then obtain ib sh irs' where ib: "bb_Add ?o s (handle_bytes ?h) (tb_index_block r) = Inr ib" "bb_inv 1 ib (ixs @ [(sh, s, handle_bytes ?h)]) irs'"
    using bb_Add_inv [of ?o "tb_index_block r" ixs irs s "handle_bytes ?h"] i(4) o by auto
  have "add_index_entry (r\<lparr>tb_last_key := s\<rparr>) = Inr (r\<lparr>tb_last_key := s, tb_index_block := ib, tb_pending_index_entry := False\<rparr>)"
    unfolding add_index_entry_def using i(3) enc ib(1) by simp
  moreover have "index_ok cmp cls ok blocks [] (ixs @ [(sh, s, handle_bytes ?h)])"
  proof -
    have n: "blocks ! length ixs = last blocks" "Suc (length ixs) = length blocks" using i(1,2) by (simp_all add: last_conv_nth)
    have sub: "set (block_keys (last blocks)) \<subseteq> set (keys_after 0 blocks [])" using lb by (auto simp: keys_after_def)
    have new: "index_entry_ok cmp cls ok (last blocks) (sh, s, handle_bytes ?h) []"
      using s(1,3) a(1) below sub by (auto simp: index_entry_ok_def)
    have last: "keys_after (length blocks) blocks [] = []" by (simp add: keys_after_def)
    have old: "index_entry_ok cmp cls ok (blocks ! j) (ixs ! j) (keys_after (Suc j) blocks [])" if "j < length ixs" for j using i(5) that by (simp add: index_ok_def)
    show ?thesis unfolding index_ok_def
    proof (intro conjI allI impI)
      show "length (ixs @ [(sh, s, handle_bytes ?h)]) \<le> length blocks" using n(2) by simp
      fix j assume "j < length (ixs @ [(sh, s, handle_bytes ?h)])"
      then consider "j < length ixs" | "j = length ixs" by fastforce
      then show "index_entry_ok cmp cls ok (blocks ! j) ((ixs @ [(sh, s, handle_bytes ?h)]) ! j) (keys_after (Suc j) blocks [])"
        using old new n last by cases (simp_all add: nth_append)
    qed
  qed
  ultimately show ?thesis using ib(2) by blast
qed

lemma tb_Add_spec:
  assumes C: "to_comparator opt = C" and inv: "tb_inv cmp cls ok sn opt (contents f) r blocks xs rs ixs irs" and f: "wok f" and sn: "snappy_ok sn" and fo: "filter_options ok opt"
    and iv: "1 \<le> to_block_restart_interval opt" and wt: "total_weight blocks xs + (length k + length v + 32) < 2 ^ 31"
    and k: "ok k" "\<forall>k' \<in> set (keys_after 0 blocks xs). cmp k' k < 0"
  shows "\<exists>r' f' blocks' xs' rs' ixs' irs'. tb_Add sn W k v r f = Inr (r', f') \<and> wok f' \<and> tb_inv cmp cls ok sn opt (contents f') r' blocks' xs' rs' ixs' irs'
     \<and> pairs blocks' xs' = pairs blocks xs @ [(k, v)] \<and> total_weight blocks' xs' = total_weight blocks xs + (length k + length v + 32)"
proof -
  have base: "tb_options r = opt" "tb_index_block_options r = opt\<lparr>to_block_restart_interval := 1\<rparr>" "tb_ok r" "\<not> tb_closed r" "tb_offset r = of_nat (length (contents f))"
    and data: "bb_inv (to_block_restart_interval opt) (tb_data_block r) xs rs" and bo: "blocks_ok sn (contents f) blocks"
    and fi: "filter_inv ok opt (tb_offset r) (tb_filter_block r) blocks xs"
    and keys: "sorted_wrt (\<lambda>a b. cmp a b < 0) (keys_after 0 blocks xs)" "\<forall>k \<in> set (keys_after 0 blocks xs). ok k"
    and num: "tb_num_entries r = int (length (keys_after 0 blocks xs))" and lk: "keys_after 0 blocks xs \<noteq> [] \<longrightarrow> tb_last_key r = last (keys_after 0 blocks xs)"
    and pend: "if tb_pending_index_entry r then xs = [] \<and> blocks \<noteq> [] \<and> length ixs = length blocks - 1 \<and> tb_pending_handle r = db_handle (last blocks)
      else length ixs = length blocks \<and> (xs = [] \<longrightarrow> blocks = [])" and ix: "bb_inv 1 (tb_index_block r) ixs irs" "index_ok cmp cls ok blocks xs ixs"
    using inv by (auto simp: tb_inv_def tb_base_def)
  let ?o = "block_options opt"
  have o: "opt_comparator ?o = C" "opt_restart_interval ?o = to_block_restart_interval opt" using C by (simp_all add: block_options_def)
  have allk: "\<forall>k' \<in> set (keys_after 0 blocks xs). ok k' \<and> cmp k' k < 0" using keys(2) k(2) by blast
  have order: "(if 0 < tb_num_entries r then bindR (cmp_Compare (to_comparator opt) k (tb_last_key r)) (\<lambda>c. assertR (0 < c)) else Inr ()) = Inr ()"
  proof (cases "keys_after 0 blocks xs = []")
    case False
    then have "ok (tb_last_key r)" "cmp (tb_last_key r) k < 0" using allk lk by auto
    then show ?thesis using Compare_eq [OF k(1), of "tb_last_key r"] cmp_flip [OF _ k(1), of "tb_last_key r"] C by simp
  qed (simp add: num)
  obtain la ib ixs1 irs1 where A: "(if tb_pending_index_entry r
       then bindR (assertR (bb_empty (tb_data_block r))) (\<lambda>_.
            bindR (cmp_FindShortestSeparator (to_comparator opt) (tb_last_key r) k) (\<lambda>last_key. add_index_entry (r\<lparr>tb_last_key := last_key\<rparr>)))
       else Inr r) = Inr (r\<lparr>tb_last_key := la, tb_index_block := ib, tb_pending_index_entry := False\<rparr>)"
      "bb_inv 1 ib ixs1 irs1" "index_ok cmp cls ok blocks xs ixs1" "length ixs1 = length blocks" "\<forall>i < length ixs1. index_gap cmp cls (blocks ! i) (entry_key (ixs1 ! i)) k"
  proof (cases "tb_pending_index_entry r")
    case True
    then have p: "xs = []" "blocks \<noteq> []" "length ixs = length blocks - 1" "tb_pending_handle r = db_handle (last blocks)" using pend by simp_all
    have ne: "db_entries (last blocks) \<noteq> []" using bo p(2) by (simp add: blocks_ok_def)
    note lb = last_block_keys [OF _ ne]
    have a: "ok (tb_last_key r)" "cmp (tb_last_key r) k < 0" using allk lk lb(1) [of 0] p(1,2) by auto
    obtain s where s: "cmp_FindShortestSeparator C (tb_last_key r) k = Inr s" using separator [OF a(1) k(1)] by blast
    have sp: "ok s" "cmp (tb_last_key r) s \<le> 0" "cmp s k < 0" "length s \<le> length (tb_last_key r)"
      using separator_between [OF a(1) k(1) a(2) s] short_separator [OF s a(1) k(1)] by simp_all
    have w: "total_weight blocks [] < 2 ^ 31" using wt p(1) by simp
    obtain ib irs' sh where ib: "add_index_entry (r\<lparr>tb_last_key := s\<rparr>) = Inr (r\<lparr>tb_last_key := s, tb_index_block := ib, tb_pending_index_entry := False\<rparr>)"
        "bb_inv 1 ib (ixs @ [(sh, s, handle_bytes (db_handle (last blocks)))]) irs'" "index_ok cmp cls ok blocks [] (ixs @ [(sh, s, handle_bytes (db_handle (last blocks)))])"
      using add_index_entry_spec [OF C inv [unfolded p(1)] True sp(1,2,4) w] by blast
    let ?e = "(sh, s, handle_bytes (db_handle (last blocks)))"
    have old: "index_gap cmp cls (blocks ! j) (entry_key (ixs ! j)) k" if "j < length ixs" for j
    proof -
      have "keys_after (Suc j) blocks xs \<noteq> []" using lb(1) [of "Suc j"] that p(1,3) by simp
      then show ?thesis using separators_below [OF ix(2) allk k(1) that] by simp
    qed
    have "block_keys (last blocks) \<noteq> []" using ne by (simp add: block_keys_def)
    then have "tb_last_key r \<in> set (block_keys (last blocks))" using lk lb(1,2) [of 0] p(1,2) by simp
    then have gap: "index_gap cmp cls (last blocks) s k" using sp(3) cls_separator [OF s a(1) k(1) a(2)] by (auto simp: index_gap_def)
    have "\<forall>j < length (ixs @ [?e]). index_gap cmp cls (blocks ! j) (entry_key ((ixs @ [?e]) ! j)) k"
    proof (intro allI impI)
      fix j assume j: "j < length (ixs @ [?e])"
      show "index_gap cmp cls (blocks ! j) (entry_key ((ixs @ [?e]) ! j)) k"
      proof (cases "j < length ixs")
        case False
        then have jl: "j = length ixs" using j by simp
        then have "(ixs @ [?e]) ! j = ?e" by simp
        moreover have "blocks ! j = last blocks" using jl p(2,3) by (simp add: last_conv_nth)
        ultimately show ?thesis using gap by simp
      qed (use old in \<open>simp add: nth_append\<close>)
    qed
    moreover have "bb_empty (tb_data_block r)" using data p(1) by (simp add: bb_inv_def bb_empty_def)
    ultimately show ?thesis using that [where la = s and ib = ib and ?ixs1.0 = "ixs @ [(sh, s, handle_bytes (db_handle (last blocks)))]" and ?irs1.0 = irs'] True s ib p C by auto
  next
    case False
    have "index_gap cmp cls (blocks ! j) (entry_key (ixs ! j)) k" if "j < length ixs" for j
    proof -
      have "xs \<noteq> []" using pend False that by auto
      then have "keys_after (Suc j) blocks xs \<noteq> []" by (simp add: keys_after_def)
      then show ?thesis using separators_below [OF ix(2) allk k(1) that] by simp
    qed
    moreover have "r = r\<lparr>tb_last_key := tb_last_key r, tb_index_block := tb_index_block r, tb_pending_index_entry := False\<rparr>" using False by (cases r) simp
    ultimately show ?thesis using that [where la = "tb_last_key r" and ib = "tb_index_block r" and ?ixs1.0 = ixs and ?irs1.0 = irs] ix False pend by simp
  qed
  obtain fb where fb: "on_filter opt (\<lambda>P b. Inr (AddKey k b)) (tb_filter_block r) = Inr fb" "\<And>s v. filter_inv ok opt (tb_offset r) fb blocks (xs @ [(s, k, v)])"
    using filter_inv_AddKey [OF fi k(1)] by blast
  have "\<exists>c. cmp_Compare (opt_comparator ?o) k (last_key [] xs) = Inr c \<and> 0 < c" if "xs \<noteq> []"
  proof -
    have "last_key [] xs \<in> set (keys_after 0 blocks xs)" using that by (simp add: last_key_def keys_after_def)
    then have "ok (last_key [] xs)" "cmp (last_key [] xs) k < 0" using allk by blast+
    then show ?thesis using Compare_eq [OF k(1)] cmp_flip [OF _ k(1)] o by simp
  qed
  then obtain db s rs' where db: "bb_Add ?o k v (tb_data_block r) = Inr db" "bb_inv (to_block_restart_interval opt) db (xs @ [(s, k, v)]) rs'"
    using bb_Add_inv [of ?o "tb_data_block r" xs rs k v] data iv o by auto
  define r2 where "r2 = r\<lparr>tb_index_block := ib, tb_pending_index_entry := False, tb_filter_block := fb, tb_last_key := k, tb_num_entries := tb_num_entries r + 1, tb_data_block := db\<rparr>"
  have run: "tb_Add sn W k v r f = (if to_block_size opt \<le> bb_CurrentSizeEstimate db then tb_Flush sn W r2 f else Inr (r2, f))"
    unfolding tb_Add_def base(1) order A(1) using base(3,4) fb(1) db(1) by (simp add: base(1) r2_def)
  have inv2: "tb_inv cmp cls ok sn opt (contents f) r2 blocks (xs @ [(s, k, v)]) rs' ixs1 irs1"
    using base A(2,4) db(2) bo fb(2) num keys allk k(1) index_ok_add [OF A(3,5), of s v]
    by (simp add: tb_inv_def tb_base_def tb_ok_def r2_def keys_after_add sorted_wrt_append)
  have p2: "pairs blocks (xs @ [(s, k, v)]) = pairs blocks xs @ [(k, v)]" "total_weight blocks (xs @ [(s, k, v)]) = total_weight blocks xs + (length k + length v + 32)"
    by (simp_all add: pairs_def total_weight_def weight_def)
  show ?thesis
  proof (cases "to_block_size opt \<le> bb_CurrentSizeEstimate db")
    case True
    have "total_weight blocks (xs @ [(s, k, v)]) < 2 ^ 31" using wt p2(2) by simp
    from tb_Flush_spec [OF inv2 f sn fo iv this] obtain r' f' blocks' rs'' where "tb_Flush sn W r2 f = Inr (r', f')" "wok f'"
        "tb_inv cmp cls ok sn opt (contents f') r' blocks' [] rs'' ixs1 irs1" "pairs blocks' [] = pairs blocks (xs @ [(s, k, v)])"
        "total_weight blocks' [] = total_weight blocks (xs @ [(s, k, v)])" by blast
    then show ?thesis using run True p2 by (intro exI [of _ r'] exI [of _ f'] exI [of _ blocks'] exI [of _ "[]"] exI [of _ rs''] exI [of _ ixs1] exI [of _ irs1]) simp
  next
    case False
    then show ?thesis using run inv2 f p2
      by (intro exI [of _ r2] exI [of _ f] exI [of _ blocks] exI [of _ "xs @ [(s, k, v)]"] exI [of _ rs'] exI [of _ ixs1] exI [of _ irs1]) simp
  qed
qed

end


section \<open>Finishing a table\<close>

fun tb_add_all :: "Snappy \<Rightarrow> 'f WritableFile \<Rightarrow> (slice \<times> slice) list \<Rightarrow> TableBuilderRep \<Rightarrow> 'f \<Rightarrow> (TableBuilderRep \<times> 'f) res" where
  "tb_add_all sn W [] r f = Inr (r, f)"
| "tb_add_all sn W ((k, v) # kvs) r f = bindR (tb_Add sn W k v r f) (\<lambda>(r, f). tb_add_all sn W kvs r f)"

lemma put_fixed_length: "length (foldl PutFixed32 d xs) = length d + 4 * length xs"
  by (induction xs arbitrary: d) (simp_all add: PutFixed32_def)

lemma filter_Finish_size:
  assumes "small_filters P" "filter_Finish P b = Inr c"
  shows "length c \<le> length (fb_result b) + 80 * length (fb_start b) + 4 * length (fb_offsets b) + 9"
proof -
  obtain b1 where b1: "(if fb_start b \<noteq> [] then GenerateFilter P b else Inr b) = Inr b1" "length c = length (fb_result b1) + 4 * length (fb_offsets b1) + 5"
    using assms(2) by (auto simp: filter_Finish_def Let_def bindR_eq_Inr PutFixed32_def put_fixed_length)
  show ?thesis
  proof (cases "fb_start b = []")
    case False
    then have "GenerateFilter P b = Inr b1" using b1(1) by simp
    then show ?thesis using GenerateFilter_size [OF assms(1)] GenerateFilter_offsets b1(2) by fastforce
  qed (use b1 in simp)
qed

text \<open>The filter that is asked for the keys of a block matches all of them.\<close>

definition block_filtered :: "FilterPolicy \<Rightarrow> FilterBlockReader \<Rightarrow> dblock \<Rightarrow> bool" where
  "block_filtered P rd d \<longleftrightarrow> (\<exists>flt. (\<forall>k. reader_KeyMayMatch P rd (bh_offset (db_handle d)) k = fp_KeyMayMatch P k flt) \<and>
     (\<forall>k \<in> set (block_keys d). fp_KeyMayMatch P k flt = Inr True))"

lemma filter_Finish_matches:
  assumes "filter_inv ok opt off fb blocks []" "to_filter_policy opt = Some P" "filter_policy P ok" "small_filters P" "\<forall>d \<in> set blocks. db_entries d \<noteq> []"
  shows "\<exists>b contents. fb = Some b \<and> filter_Finish P b = Inr contents \<and> length contents \<le> 80 * length (keys_after 0 blocks []) + 4 * filter_index off + 9 \<and>
    (length contents < 2 ^ 32 \<longrightarrow> (\<exists>rd. new_FilterBlockReader contents = Inr rd \<and>
       (\<forall>d \<in> set blocks. block_filtered P rd d)))"
proof -
  obtain b ks pend where b: "fb = Some b" "fb_inv P ok ks pend b" "length ks = filter_index off"
      "\<forall>d \<in> set blocks. \<forall>k \<in> set (block_keys d). in_filter ks pend (filter_index (bh_offset (db_handle d))) k"
      "length (fb_result b) + 80 * length (fb_start b) \<le> 80 * length (keys_after 0 blocks [])"
    using assms(1,2) by (auto simp: filter_inv_def)
  obtain fs ks' where f: "filter_Finish P b = Inr (concat fs @ concat (map (\<lambda>n. EncodeFixed32 (of_nat n)) (starts 0 fs)) @ EncodeFixed32 (of_nat (length (concat fs))) @ [11])"
      "ks' = ks \<and> pend = [] \<or> ks' = ks @ [pend]" "length fs = length ks'" "\<forall>i < length ks'. \<forall>k \<in> set (ks' ! i). fp_KeyMayMatch P k (fs ! i) = Inr True"
    using filter_policy.filter_Finish_inv [OF assms(3) b(2)] by blast
  define contents where "contents = concat fs @ concat (map (\<lambda>n. EncodeFixed32 (of_nat n)) (starts 0 fs)) @ EncodeFixed32 (of_nat (length (concat fs))) @ [11]"
  let ?r = "\<lparr>fr_data = Some contents, fr_offset = length (concat fs), fr_num = length fs, fr_base_lg = 11\<rparr>"
  have "length contents \<le> 80 * length (keys_after 0 blocks []) + 4 * filter_index off + 9"
    using filter_Finish_size [OF assms(4) f(1)] b(3,5) fb_inv_offsets [OF b(2)] unfolding contents_def [symmetric] by linarith
  moreover have "\<exists>rd. new_FilterBlockReader contents = Inr rd \<and> (\<forall>d \<in> set blocks. block_filtered P rd d)"
    if small: "length contents < 2 ^ 32"
  proof -
    have "block_filtered P ?r d" if d: "d \<in> set blocks" for d
    proof -
      let ?i = "filter_index (bh_offset (db_handle d))"
      have i: "?i < length ks'" "k \<in> set (ks' ! ?i)" if "k \<in> set (block_keys d)" for k
        using b(4) d that f(2) by (fastforce simp: in_filter_def nth_append split: if_splits)+
      have "block_keys d \<noteq> []" using assms(5) d by (simp add: block_keys_def)
      then have "?i < length fs" using i(1) [of "hd (block_keys d)"] f(3) by simp
      then show ?thesis unfolding block_filtered_def
        using reader_finds [OF contents_def small refl, of "bh_offset (db_handle d)" ?i] i f(4) by (intro exI [of _ "fs ! ?i"]) (simp add: filter_index_eq(1))
    qed
    then show ?thesis using reader_of_block [OF contents_def small] by blast
  qed
  ultimately show ?thesis using b(1) f(1) contents_def by (intro exI [of _ b] exI [of _ contents]) simp
qed

text \<open>A finished table: the bytes of the file with its data blocks, its index and, if there is a filter policy, its filter.\<close>

definition has_filter :: "Snappy \<Rightarrow> TableOptions \<Rightarrow> bytes \<Rightarrow> dblock list \<Rightarrow> BlockHandle \<Rightarrow> bool" where
  "has_filter sn opt F blocks meta \<longleftrightarrow> (\<forall>P. to_filter_policy opt = Some P \<longrightarrow>
     (\<exists>mxs mrs fh data rd. stored sn F meta (block_bytes mxs mrs) \<and> readable mxs mrs \<and> map snd mxs = [(bstr ''filter.'' @ to_filter_name opt, handle_bytes fh)] \<and>
        stored sn F fh data \<and> new_FilterBlockReader data = Inr rd \<and>
        (\<forall>d \<in> set blocks. block_filtered P rd d)))"

definition table_file :: "(slice \<Rightarrow> slice \<Rightarrow> int) \<Rightarrow> (slice \<Rightarrow> slice) \<Rightarrow> (slice \<Rightarrow> bool) \<Rightarrow> Snappy \<Rightarrow> TableOptions \<Rightarrow> bytes \<Rightarrow> dblock list \<Rightarrow> entry list \<Rightarrow> nat list \<Rightarrow> Footer \<Rightarrow> bool" where
  "table_file cmp cls ok sn opt F blocks ixs irs footer \<longleftrightarrow>
     (\<exists>G. F = G @ footer_bytes footer) \<and> length F < 2 ^ 32 \<and>
     bh_offset (ft_metaindex_handle footer) \<noteq> NOT 0 \<and> bh_size (ft_metaindex_handle footer) \<noteq> NOT 0 \<and>
     bh_offset (ft_index_handle footer) \<noteq> NOT 0 \<and> bh_size (ft_index_handle footer) \<noteq> NOT 0 \<and>
     readable ixs irs \<and> stored sn F (ft_index_handle footer) (block_bytes ixs irs) \<and>
     sorted_wrt (<) (map block_position blocks) \<and> (\<forall>b \<in> set blocks. block_position b < unat (bh_offset (ft_metaindex_handle footer))) \<and>
     (\<forall>b \<in> set blocks. db_entries b \<noteq> [] \<and> readable (db_entries b) (db_restarts b) \<and> stored sn F (db_handle b) (block_bytes (db_entries b) (db_restarts b))) \<and>
     index_ok cmp cls ok blocks [] ixs \<and> length ixs = length blocks \<and>
     sorted_wrt (\<lambda>a b. cmp a b < 0) (keys_after 0 blocks []) \<and> (\<forall>k \<in> set (keys_after 0 blocks []). ok k) \<and>
     has_filter sn opt F blocks (ft_metaindex_handle footer)"

lemma has_filter_append: "has_filter sn opt F blocks meta \<Longrightarrow> has_filter sn opt (F @ G) blocks meta"
  unfolding has_filter_def by (meson stored_append)

context table_writer
begin

lemma TableBuilder_new_inv:
  assumes "1 \<le> to_block_restart_interval opt"
  shows "\<exists>r. TableBuilder_new opt = Inr r \<and> tb_inv cmp cls ok sn opt [] r [] [] [0] [] [0] \<and> \<not> tb_pending_index_entry r"
proof -
  let ?fb = "map_option (\<lambda>_. new_FilterBlockBuilder) (to_filter_policy opt)"
  have "generate_until P 0 b = Inr b" for P b by (subst generate_until.simps) simp
  then have st: "StartBlock P 0 new_FilterBlockBuilder = Inr new_FilterBlockBuilder" for P
    by (simp add: StartBlock_def new_FilterBlockBuilder_def)
  have "on_filter opt (\<lambda>P b. StartBlock P 0 b) ?fb = Inr ?fb" by (cases "to_filter_policy opt") (simp_all add: on_filter_def st)
  moreover have "filter_inv ok opt 0 ?fb [] []"
  proof (cases "to_filter_policy opt")
    case (Some P)
    have "fb_inv P ok [] [] new_FilterBlockBuilder" by (rule fb_inv_new)
    moreover have "filter_index 0 = 0" by (simp add: filter_index_def)
    ultimately show ?thesis unfolding filter_inv_def Some option.case by (intro exI [of _ new_FilterBlockBuilder] exI [of _ "[]"]) (simp add: new_FilterBlockBuilder_def)
  qed (simp add: filter_inv_def)
  ultimately show ?thesis using assms bb_inv_new [OF assms] bb_inv_new [of 1]
    by (simp add: TableBuilder_new_def BlockBuilder_new_def block_options_def tb_inv_def tb_base_def tb_ok_def keys_after_def blocks_ok_def index_ok_def)
qed

lemma tb_add_all_spec:
  assumes "to_comparator opt = C" "tb_inv cmp cls ok sn opt (contents f) r blocks xs rs ixs irs" "wok f" "snappy_ok sn" "filter_options ok opt" "1 \<le> to_block_restart_interval opt"
    and "total_weight blocks xs + sum_list (map (\<lambda>(k, v). length k + length v + 32) kvs) < 2 ^ 31"
    and "sorted_wrt (\<lambda>a b. cmp (fst a) (fst b) < 0) (pairs blocks xs @ kvs)" "\<forall>kv \<in> set kvs. ok (fst kv)"
  shows "\<exists>r' f' blocks' xs' rs' ixs' irs'. tb_add_all sn W kvs r f = Inr (r', f') \<and> wok f' \<and> tb_inv cmp cls ok sn opt (contents f') r' blocks' xs' rs' ixs' irs'
     \<and> pairs blocks' xs' = pairs blocks xs @ kvs \<and> total_weight blocks' xs' = total_weight blocks xs + sum_list (map (\<lambda>(k, v). length k + length v + 32) kvs)"
  using assms(2,3,7-9)
proof (induction kvs arbitrary: r f blocks xs rs ixs irs)
  case Nil
  then show ?case by fastforce
next
  case (Cons kv kvs)
  obtain k v where kv: "kv = (k, v)" by (cases kv)
  have k: "ok k" "\<forall>k' \<in> set (keys_after 0 blocks xs). cmp k' k < 0" using Cons.prems(4,5) kv by (auto simp: keys_pairs sorted_wrt_append)
  have w: "total_weight blocks xs + (length k + length v + 32) < 2 ^ 31" using Cons.prems(3) kv by simp
  obtain r1 f1 b1 x1 s1 i1 j1 where 1: "tb_Add sn W k v r f = Inr (r1, f1)" "wok f1" "tb_inv cmp cls ok sn opt (contents f1) r1 b1 x1 s1 i1 j1"
      "pairs b1 x1 = pairs blocks xs @ [(k, v)]" "total_weight b1 x1 = total_weight blocks xs + (length k + length v + 32)"
    using tb_Add_spec [OF assms(1) Cons.prems(1,2) assms(4-6) w k] by blast
  have "total_weight b1 x1 + sum_list (map (\<lambda>(k, v). length k + length v + 32) kvs) < 2 ^ 31" using Cons.prems(3) kv 1(5) by simp
  moreover have "sorted_wrt (\<lambda>a b. cmp (fst a) (fst b) < 0) (pairs b1 x1 @ kvs)" using Cons.prems(4) kv 1(4) by simp
  ultimately show ?case using Cons.IH [OF 1(3,2)] Cons.prems(5) 1 kv by (simp add: add.assoc)
qed

end


lemma sum_list_take_le: "sum_list (take n xs) \<le> sum_list (xs :: nat list)"
  by (metis append_take_drop_id le_add1 sum_list_append)

lemma weight_last: "xs \<noteq> [] \<Longrightarrow> length (last (map entry_key xs)) + 32 \<le> weight xs"
proof -
  assume "xs \<noteq> []"
  then obtain ys e where "xs = ys @ [e]" by (metis rev_exhaust)
  then show ?thesis by (simp add: weight_def)
qed

lemma index_weight:
  assumes "index_ok cmp cls ok blocks ys ixs" "\<forall>b \<in> set blocks. db_entries b \<noteq> []"
  shows "weight ixs \<le> 2 * sum_list (map (weight \<circ> db_entries) blocks)"
proof -
  have e: "length (entry_key (ixs ! i)) + length (entry_value (ixs ! i)) + 32 \<le> 2 * weight (db_entries (blocks ! i))" if "i < length ixs" for i
  proof -
    have i: "i < length blocks" using assms(1) that by (simp add: index_ok_def)
    let ?b = "blocks ! i"
    have ok: "entry_value (ixs ! i) = handle_bytes (db_handle ?b)" "length (entry_key (ixs ! i)) \<le> length (last (block_keys ?b))"
      using assms(1) that by (simp_all add: index_ok_def index_entry_ok_def)
    have "length (last (block_keys ?b)) + 32 \<le> weight (db_entries ?b)" using assms(2) i weight_last [of "db_entries ?b"] by (simp add: block_keys_def)
    moreover have "length (entry_value (ixs ! i)) \<le> 20"
      using ok(1) length_EncodeVarint64 [of "bh_offset (db_handle ?b)"] length_EncodeVarint64 [of "bh_size (db_handle ?b)"] by simp
    ultimately show ?thesis using ok(2) by linarith
  qed
  have "length ixs \<le> length blocks" using assms(1) by (simp add: index_ok_def)
  then have "weight ixs \<le> sum_list (take (length ixs) (map (\<lambda>b. 2 * weight (db_entries b)) blocks))"
    unfolding weight_def [of ixs] using e by (intro sum_list_mono2) simp_all
  also have "\<dots> \<le> sum_list (map (\<lambda>b. 2 * weight (db_entries b)) blocks)" by (rule sum_list_take_le)
  also have "\<dots> = 2 * sum_list (map (weight \<circ> db_entries) blocks)" by (induction blocks) simp_all
  finally show ?thesis .
qed

lemma keys_weight: "32 * length (keys_after 0 blocks xs) \<le> total_weight blocks xs"
proof -
  have w: "32 * length ys \<le> weight ys" for ys by (induction ys) (simp_all add: weight_def)
  have "32 * length (concat (map block_keys blocks)) \<le> sum_list (map (weight \<circ> db_entries) blocks)"
  proof (induction blocks)
    case (Cons b blocks)
    then show ?case using w [of "db_entries b"] by (simp add: block_keys_def)
  qed simp
  then show ?thesis using w [of xs] by (simp add: keys_after_def total_weight_def)
qed

lemma small_not_max: "unat x < 2 ^ 32 \<Longrightarrow> x \<noteq> NOT 0" for x :: u64
proof
  assume "unat x < 2 ^ 32" "x = NOT 0"
  moreover have "unat (NOT 0 :: u64) = 2 ^ 64 - 1" by (simp add: unsigned_minus_1_eq_mask mask_eq_exp_minus_1)
  ultimately show False by simp
qed

text \<open>One more block at the end of the file; the builder notes the new end.\<close>

definition advanced :: "TableBuilderRep \<Rightarrow> bytes \<Rightarrow> TableBuilderRep" where
  "advanced r F = r\<lparr>tb_status := Status_OK, tb_offset := of_nat (length F)\<rparr>"

lemma advanced_simps [simp]:
  "tb_ok (advanced r F)" "tb_options (advanced r F) = tb_options r" "tb_offset (advanced r F) = of_nat (length F)" "tb_closed (advanced r F) = tb_closed r"
  "tb_filter_block (advanced r F) = tb_filter_block r" "tb_pending_index_entry (advanced r F) = tb_pending_index_entry r" "tb_last_key (advanced r F) = tb_last_key r"
  "tb_index_block (advanced r F) = tb_index_block r" "tb_status (advanced r F) = Status_OK"
  by (simp_all add: advanced_def tb_ok_def)

definition finish_filter :: "'f WritableFile \<Rightarrow> TableBuilderRep \<Rightarrow> 'f \<Rightarrow> (BlockHandle \<times> TableBuilderRep \<times> 'f) res" where
  "finish_filter W r f = (case tb_filter_block r of
              Some fb \<Rightarrow>
                if tb_ok r
                then (case to_filter_policy (tb_options r) of
                        None \<Rightarrow> Inl Null_deref
                      | Some P \<Rightarrow> bindR (filter_Finish P fb) (\<lambda>contents. WriteRawBlock W contents kNoCompression r f))
                else Inr (BlockHandle_new, r, f)
            | None \<Rightarrow> Inr (BlockHandle_new, r, f))"

definition finish_meta :: "Snappy \<Rightarrow> 'f WritableFile \<Rightarrow> BlockHandle \<Rightarrow> TableBuilderRep \<Rightarrow> 'f \<Rightarrow> (BlockHandle \<times> TableBuilderRep \<times> 'f) res" where
  "finish_meta sn W filter_handle r f = (if tb_ok r
            then bindR (BlockBuilder_new (block_options (tb_options r))) (\<lambda>meta.
                 bindR (case tb_filter_block r of
                          None \<Rightarrow> Inr meta
                        | Some _ \<Rightarrow>
                            bindR (handle_EncodeTo filter_handle []) (\<lambda>handle_encoding.
                            bb_Add (block_options (tb_options r)) (bstr ''filter.'' @ to_filter_name (tb_options r)) handle_encoding meta)) (\<lambda>meta.
                 bindR (WriteBlock sn W meta r f) (\<lambda>(h, _, r, f). Inr (h, r, f))))
            else Inr (BlockHandle_new, r, f))"

definition finish_index :: "Snappy \<Rightarrow> 'f WritableFile \<Rightarrow> TableBuilderRep \<Rightarrow> 'f \<Rightarrow> (BlockHandle \<times> TableBuilderRep \<times> 'f) res" where
  "finish_index sn W r f = (if tb_ok r
            then bindR (if tb_pending_index_entry r
                        then bindR (cmp_FindShortSuccessor (to_comparator (tb_options r)) (tb_last_key r)) (\<lambda>last_key.
                             add_index_entry (r\<lparr>tb_last_key := last_key\<rparr>))
                        else Inr r) (\<lambda>r.
                 bindR (WriteBlock sn W (tb_index_block r) r f) (\<lambda>(h, index_block, r, f). Inr (h, r\<lparr>tb_index_block := index_block\<rparr>, f)))
            else Inr (BlockHandle_new, r, f))"

context table_writer
begin

lemma finish_filter_spec:
  assumes "wok f" "tb_ok r" "tb_offset r = of_nat (length (contents f))" "tb_options r = opt" "filter_inv ok opt (tb_offset r) (tb_filter_block r) blocks []" "filter_options ok opt"
    and "length (contents f) \<le> total_weight blocks []" "total_weight blocks [] < 2 ^ 29" "\<forall>d \<in> set blocks. db_entries d \<noteq> []"
  shows "\<exists>fh f' c. finish_filter W r f = Inr (fh, (if to_filter_policy opt = None then r else advanced r (contents f')), f') \<and> wok f' \<and> contents f' = contents f @ c
     \<and> length c \<le> 3 * total_weight blocks [] + 14 \<and> (to_filter_policy opt = None \<longrightarrow> tb_filter_block r = None \<and> f' = f) \<and>
     (\<forall>P. to_filter_policy opt = Some P \<longrightarrow> tb_filter_block r \<noteq> None \<and> unat (bh_offset fh) < 2 ^ 32 \<and> unat (bh_size fh) < 2 ^ 32 \<and>
        (\<exists>data rd. stored sn (contents f') fh data \<and> new_FilterBlockReader data = Inr rd \<and>
          (\<forall>d \<in> set blocks. block_filtered P rd d)))"
proof (cases "to_filter_policy opt")
  case None
  then have "tb_filter_block r = None" using assms(5) by (simp add: filter_inv_def)
  then show ?thesis using None assms(1) by (simp add: finish_filter_def)
next
  case (Some P)
  have P: "filter_policy P ok" "small_filters P" using assms(6) Some by (simp_all add: filter_options_def)
  obtain b data where b: "tb_filter_block r = Some b" "filter_Finish P b = Inr data" "length data \<le> 80 * length (keys_after 0 blocks []) + 4 * filter_index (tb_offset r) + 9"
      "length data < 2 ^ 32 \<longrightarrow> (\<exists>rd. new_FilterBlockReader data = Inr rd \<and> (\<forall>d \<in> set blocks. block_filtered P rd d))"
    using filter_Finish_matches [OF assms(5) Some P assms(9)] by blast
  have "unat (tb_offset r) = length (contents f)" using assms(3,7,8) by (simp add: unat_of_nat)
  then have "4 * filter_index (tb_offset r) \<le> total_weight blocks [] div 512" using assms(7) by (simp add: filter_index_eq(2))
  then have size: "length data \<le> 3 * total_weight blocks [] + 9" using b(3) keys_weight [of blocks "[]"] by linarith
  obtain f' where f': "WriteRawBlock W data kNoCompression r f = Inr (\<lparr>bh_offset = of_nat (length (contents f)), bh_size = of_nat (length data)\<rparr>,
      r\<lparr>tb_status := Status_OK, tb_offset := of_nat (length (contents f'))\<rparr>, f')" "wok f'" "contents f' = contents f @ data @ trailer kNoCompression data"
    using WriteRawBlock_spec [OF assms(1,3)] by blast
  have small: "length data < 2 ^ 32" "length (contents f) + length data + 5 < 2 ^ 64" "length (contents f) < 2 ^ 32" using size assms(7,8) by simp_all
  have "stored sn (contents f') \<lparr>bh_offset = of_nat (length (contents f)), bh_size = of_nat (length data)\<rparr> data"
    using stored_new [of sn kNoCompression data data "contents f"] small f'(3) by (simp add: unpacks_def)
  moreover have "unat (of_nat (length (contents f)) :: u64) < 2 ^ 32" "unat (of_nat (length data) :: u64) < 2 ^ 32" using small by (simp_all add: unat_of_nat)
  ultimately show ?thesis using b f' small(1) size Some assms(2,4)
    by (intro exI [of _ "\<lparr>bh_offset = of_nat (length (contents f)), bh_size = of_nat (length data)\<rparr>"] exI [of _ f'] exI [of _ "data @ trailer kNoCompression data"])
      (auto simp: finish_filter_def advanced_def)
qed

end


context table_writer
begin

lemma finish_meta_spec:
  assumes "wok f" "tb_ok r" "tb_offset r = of_nat (length (contents f))" "tb_options r = opt" "snappy_ok sn" "1 \<le> to_block_restart_interval opt"
    and "tb_filter_block r = None \<longleftrightarrow> to_filter_policy opt = None" "to_filter_policy opt \<noteq> None \<longrightarrow> unat (bh_offset fh) < 2 ^ 32 \<and> unat (bh_size fh) < 2 ^ 32"
    and "length (contents f) + length (to_filter_name opt) + 80 < 2 ^ 32"
  shows "\<exists>mh c f' mxs mrs. finish_meta sn W fh r f = Inr (mh, advanced r (contents f'), f') \<and> wok f' \<and> contents f' = contents f @ c \<and> length c \<le> length (to_filter_name opt) + 72
     \<and> readable mxs mrs \<and> stored sn (contents f') mh (block_bytes mxs mrs) \<and> unat (bh_offset mh) < 2 ^ 32 \<and> unat (bh_size mh) < 2 ^ 32 \<and> unat (bh_offset mh) = length (contents f)
     \<and> map snd mxs = (if to_filter_policy opt = None then [] else [(bstr ''filter.'' @ to_filter_name opt, handle_bytes fh)])"
proof -
  let ?o = "block_options opt" and ?name = "bstr ''filter.'' @ to_filter_name opt"
  let ?new = "\<lparr>bb_buffer = [], bb_restarts = [0], bb_counter = 0, bb_finished = False, bb_last_key = []\<rparr>"
  have iv: "opt_restart_interval ?o = to_block_restart_interval opt" by (simp add: block_options_def)
  have new: "BlockBuilder_new ?o = Inr ?new" using assms(6) iv by (simp add: BlockBuilder_new_def)
  have "\<exists>meta mxs mrs. (case tb_filter_block r of None \<Rightarrow> Inr ?new
        | Some _ \<Rightarrow> bindR (handle_EncodeTo fh []) (\<lambda>handle_encoding. bb_Add ?o ?name handle_encoding ?new)) = Inr meta \<and>
      bb_inv (to_block_restart_interval opt) meta mxs mrs \<and> map snd mxs = (if to_filter_policy opt = None then [] else [(?name, handle_bytes fh)])"
  proof (cases "tb_filter_block r")
    case None
    then show ?thesis using bb_inv_new [OF assms(6)] assms(7) by fastforce
  next
    case (Some fb)
    then have fh: "unat (bh_offset fh) < 2 ^ 32" "unat (bh_size fh) < 2 ^ 32" and p: "to_filter_policy opt \<noteq> None" using assms(7,8) by auto
    have enc: "handle_EncodeTo fh [] = Inr (handle_bytes fh)" using handle_EncodeTo_bytes [OF fh [THEN small_not_max]] by simp
    obtain b' s rs' where "bb_Add ?o ?name (handle_bytes fh) ?new = Inr b'" "bb_inv (to_block_restart_interval opt) b' ([] @ [(s, ?name, handle_bytes fh)]) rs'"
      using bb_Add_inv [of ?o ?new "[]" "[0]" ?name "handle_bytes fh"] bb_inv_new [OF assms(6)] assms(6) iv by auto
    then show ?thesis using enc p Some by (intro exI [of _ b'] exI [of _ "[(s, ?name, handle_bytes fh)]"] exI [of _ rs']) simp
  qed
  then obtain meta mxs mrs where m: "(case tb_filter_block r of None \<Rightarrow> Inr ?new
        | Some _ \<Rightarrow> bindR (handle_EncodeTo fh []) (\<lambda>handle_encoding. bb_Add ?o ?name handle_encoding ?new)) = Inr meta"
      "bb_inv (to_block_restart_interval opt) meta mxs mrs" "map snd mxs = (if to_filter_policy opt = None then [] else [(?name, handle_bytes fh)])" by blast
  have ok: "block_ok mxs mrs" using m(2) by (simp add: bb_inv_def)
  have "weight mxs = sum_list (map (\<lambda>kv. length (fst kv) + length (snd kv) + 32) (map snd mxs))" by (simp add: weight_def comp_def)
  then have "weight mxs \<le> length (to_filter_name opt) + 59"
    using m(3) length_EncodeVarint64 [of "bh_offset fh"] length_EncodeVarint64 [of "bh_size fh"] by (simp add: bstr_def)
  then have b: "length (block_bytes mxs mrs) \<le> length (to_filter_name opt) + 67" using block_bytes_bound [OF ok] by linarith
  then have small: "length (contents f) + length (block_bytes mxs mrs) + 5 < 2 ^ 32" using assms(9) by simp
  then have rd: "readable mxs mrs" using ok by (simp add: readable_def)
  obtain h c f' where w: "WriteBlock sn W meta r f = Inr (h, bb_Reset (snd (bb_Finish meta)), advanced r (contents f'), f')"
     "wok f'" "contents f' = contents f @ c" "length c \<le> length (block_bytes mxs mrs) + 5" "stored sn (contents f') h (block_bytes mxs mrs)"
     "unat (bh_offset h) = length (contents f)" "unat (bh_size h) + 5 = length c"
    using WriteBlock_spec [OF assms(1-3,5) m(2) small] unfolding advanced_def by blast
  have "finish_meta sn W fh r f = Inr (h, advanced r (contents f'), f')"
    unfolding finish_meta_def assms(4) new bindR_Inr m(1) w(1) prod.case using assms(2) by simp
  moreover have "unat (bh_offset h) < 2 ^ 32" "unat (bh_size h) < 2 ^ 32" using w(4,6,7) small by linarith+
  ultimately show ?thesis using w(2-6) rd m(3) b by (intro exI [of _ h] exI [of _ c] exI [of _ f'] exI [of _ mxs] exI [of _ mrs]) simp
qed

text \<open>The index entry of the last block is written before the index.\<close>

lemma finish_entry_spec:
  assumes C: "to_comparator opt = C" and inv: "tb_inv cmp cls ok sn opt F r blocks [] rs ixs irs" and wt: "total_weight blocks [] < 2 ^ 31"
    and r': "tb_pending_index_entry r' = tb_pending_index_entry r" "tb_last_key r' = tb_last_key r" "tb_pending_handle r' = tb_pending_handle r"
      "tb_index_block r' = tb_index_block r" "tb_options r' = opt" "tb_index_block_options r' = tb_index_block_options r"
  shows "\<exists>s ib ixs' irs'. (if tb_pending_index_entry r' then bindR (cmp_FindShortSuccessor (to_comparator (tb_options r')) (tb_last_key r')) (\<lambda>last_key.
              add_index_entry (r'\<lparr>tb_last_key := last_key\<rparr>)) else Inr r')
        = Inr (r'\<lparr>tb_last_key := s, tb_index_block := ib, tb_pending_index_entry := False\<rparr>)
      \<and> bb_inv 1 ib ixs' irs' \<and> index_ok cmp cls ok blocks [] ixs' \<and> length ixs' = length blocks"
proof (cases "tb_pending_index_entry r")
  case False
  then have "r'\<lparr>tb_last_key := tb_last_key r', tb_index_block := tb_index_block r, tb_pending_index_entry := False\<rparr> = r'" using r' by simp
  then show ?thesis using False inv r' by (intro exI [of _ "tb_last_key r'"] exI [of _ "tb_index_block r"] exI [of _ ixs] exI [of _ irs]) (auto simp: tb_inv_def)
next
  case True
  have i: "blocks \<noteq> []" "length ixs = length blocks - 1" "\<forall>k \<in> set (keys_after 0 blocks []). ok k" "blocks_ok sn F blocks"
      "keys_after 0 blocks [] \<noteq> [] \<longrightarrow> tb_last_key r = last (keys_after 0 blocks [])"
    using inv True by (auto simp: tb_inv_def)
  have "db_entries (last blocks) \<noteq> []" using i(1,4) by (simp add: blocks_ok_def)
  note lk = last_block_keys [OF _ this]
  have a: "ok (tb_last_key r)" using lk [of 0] i(1,3,5) by auto
  obtain s where s: "cmp_FindShortSuccessor C (tb_last_key r) = Inr s" "ok s" "cmp (tb_last_key r) s \<le> 0" using successor [OF a] by blast
  obtain ib irs' sh where ib: "add_index_entry (r\<lparr>tb_last_key := s\<rparr>) = Inr (r\<lparr>tb_last_key := s, tb_index_block := ib, tb_pending_index_entry := False\<rparr>)"
      "bb_inv 1 ib (ixs @ [(sh, s, handle_bytes (db_handle (last blocks)))]) irs'" "index_ok cmp cls ok blocks [] (ixs @ [(sh, s, handle_bytes (db_handle (last blocks)))])"
    using add_index_entry_spec [OF C inv True s(2,3) short_successor [OF s(1) a] wt] by blast
  have "add_index_entry (r'\<lparr>tb_last_key := s\<rparr>) = Inr (r'\<lparr>tb_last_key := s, tb_index_block := ib, tb_pending_index_entry := False\<rparr>)"
  proof -
    obtain he ib' where e: "handle_EncodeTo (tb_pending_handle r) [] = Inr he" "bb_Add (block_options (tb_index_block_options r)) s he (tb_index_block r) = Inr ib'"
      using ib(1) by (auto simp: add_index_entry_def bindR_eq_Inr)
    have "tb_index_block (r\<lparr>tb_last_key := s, tb_index_block := ib', tb_pending_index_entry := False\<rparr>) = tb_index_block (r\<lparr>tb_last_key := s, tb_index_block := ib, tb_pending_index_entry := False\<rparr>)"
      using ib(1) e by (simp add: add_index_entry_def)
    then show ?thesis using e r' by (simp add: add_index_entry_def)
  qed
  then have "(if tb_pending_index_entry r' then bindR (cmp_FindShortSuccessor (to_comparator (tb_options r')) (tb_last_key r')) (\<lambda>last_key.
      add_index_entry (r'\<lparr>tb_last_key := last_key\<rparr>)) else Inr r') = Inr (r'\<lparr>tb_last_key := s, tb_index_block := ib, tb_pending_index_entry := False\<rparr>)"
    using True r' s(1) C by simp
  moreover have "length (ixs @ [(sh, s, handle_bytes (db_handle (last blocks)))]) = length blocks" using i(1,2) by simp
  ultimately show ?thesis using ib(2,3) by blast
qed

lemma finish_index_spec:
  assumes f: "wok f" "tb_ok r'" "tb_offset r' = of_nat (length (contents f))" "snappy_ok sn" and C: "to_comparator opt = C"
    and inv: "tb_inv cmp cls ok sn opt F r blocks [] rs ixs irs" and wt: "length (contents f) + 2 * total_weight blocks [] + 13 < 2 ^ 32" "total_weight blocks [] < 2 ^ 31"
    and r': "tb_pending_index_entry r' = tb_pending_index_entry r" "tb_last_key r' = tb_last_key r" "tb_pending_handle r' = tb_pending_handle r"
      "tb_index_block r' = tb_index_block r" "tb_options r' = opt" "tb_index_block_options r' = tb_index_block_options r"
  shows "\<exists>ih c f' r'' ixs' irs'. finish_index sn W r' f = Inr (ih, r'', f') \<and> tb_ok r'' \<and> tb_closed r'' = tb_closed r' \<and> tb_offset r'' = of_nat (length (contents f')) \<and> wok f' \<and> contents f' = contents f @ c \<and> length c \<le> 2 * total_weight blocks [] + 13
     \<and> readable ixs' irs' \<and> stored sn (contents f') ih (block_bytes ixs' irs') \<and> unat (bh_offset ih) < 2 ^ 32 \<and> unat (bh_size ih) < 2 ^ 32
     \<and> index_ok cmp cls ok blocks [] ixs' \<and> length ixs' = length blocks"
proof -
  obtain s ib ixs' irs' where e: "(if tb_pending_index_entry r' then bindR (cmp_FindShortSuccessor (to_comparator (tb_options r')) (tb_last_key r')) (\<lambda>last_key.
              add_index_entry (r'\<lparr>tb_last_key := last_key\<rparr>)) else Inr r')
        = Inr (r'\<lparr>tb_last_key := s, tb_index_block := ib, tb_pending_index_entry := False\<rparr>)" "bb_inv 1 ib ixs' irs'" "index_ok cmp cls ok blocks [] ixs'" "length ixs' = length blocks"
    using finish_entry_spec [OF C inv wt(2) r'] by blast
  let ?r = "r'\<lparr>tb_last_key := s, tb_index_block := ib, tb_pending_index_entry := False\<rparr>"
  have ok: "block_ok ixs' irs'" using e(2) by (simp add: bb_inv_def)
  have ne: "\<forall>b \<in> set blocks. db_entries b \<noteq> []" using inv by (simp add: tb_inv_def blocks_ok_def)
  have "weight ixs' \<le> 2 * total_weight blocks []" using index_weight [OF e(3) ne] by (simp add: total_weight_def weight_def)
  then have b: "length (block_bytes ixs' irs') \<le> 2 * total_weight blocks [] + 8" using block_bytes_bound [OF ok] by linarith
  then have small: "length (contents f) + length (block_bytes ixs' irs') + 5 < 2 ^ 32" using wt(1) by simp
  then have rd: "readable ixs' irs'" using ok by (simp add: readable_def)
  have r: "tb_ok ?r" "tb_offset ?r = of_nat (length (contents f))" using f(2,3) by (simp_all add: tb_ok_def)
  obtain h c f' where w: "WriteBlock sn W ib ?r f = Inr (h, bb_Reset (snd (bb_Finish ib)), advanced ?r (contents f'), f')"
     "wok f'" "contents f' = contents f @ c" "length c \<le> length (block_bytes ixs' irs') + 5" "stored sn (contents f') h (block_bytes ixs' irs')"
     "unat (bh_offset h) = length (contents f)" "unat (bh_size h) + 5 = length c"
    using WriteBlock_spec [OF f(1) r f(4) e(2) small] unfolding advanced_def by blast
  let ?r2 = "(advanced ?r (contents f'))\<lparr>tb_index_block := bb_Reset (snd (bb_Finish ib))\<rparr>"
  have ibr: "tb_index_block ?r = ib" by simp
  have "finish_index sn W r' f = Inr (h, ?r2, f')"
    unfolding finish_index_def e(1) bindR_Inr ibr w(1) prod.case using f(2) by simp
  moreover have "unat (bh_offset h) < 2 ^ 32" "unat (bh_size h) < 2 ^ 32" using w(4,6,7) small by linarith+
  moreover have "tb_ok ?r2" "tb_closed ?r2 = tb_closed r'" "tb_offset ?r2 = of_nat (length (contents f'))" by (simp_all add: advanced_def tb_ok_def)
  ultimately show ?thesis using w(2-5) rd e(3,4) b by (intro exI [of _ h] exI [of _ c] exI [of _ f'] exI [of _ ?r2] exI [of _ ixs'] exI [of _ irs']) simp
qed

end


lemma tb_Finish_steps:
  "tb_Finish sn W r f =
     bindR (tb_Flush sn W r f) (\<lambda>(r, f).
     bindR (assertR (\<not> tb_closed r)) (\<lambda>_.
     bindR (finish_filter W (r\<lparr>tb_closed := True\<rparr>) f) (\<lambda>(filter_handle, r, f).
     bindR (finish_meta sn W filter_handle r f) (\<lambda>(metaindex_handle, r, f).
     bindR (finish_index sn W r f) (\<lambda>(index_handle, r, f).
     if tb_ok r
     then bindR (footer_EncodeTo \<lparr>ft_metaindex_handle = metaindex_handle, ft_index_handle = index_handle\<rparr> []) (\<lambda>footer_encoding.
          bindR (wf_Append W footer_encoding f) (\<lambda>(s, f).
          let r = r\<lparr>tb_status := s\<rparr>;
              r = (if Status_ok s then r\<lparr>tb_offset := tb_offset r + of_nat (length footer_encoding)\<rparr> else r) in
          Inr (tb_status r, r, f)))
     else Inr (tb_status r, r, f))))))"
  unfolding tb_Finish_def finish_filter_def finish_meta_def finish_index_def Let_def by (rule refl)

lemma table_file_new:
  assumes inv: "tb_inv cmp cls ok sn opt F r blocks [] rs ixs0 irs0" and F: "E = F @ c1 @ c2 @ c3" "length E + 48 < 2 ^ 32"
    and ix: "readable ixs irs" "stored sn E ih (block_bytes ixs irs)" "index_ok cmp cls ok blocks [] ixs" "length ixs = length blocks"
    and h: "unat (bh_offset mh) < 2 ^ 32" "unat (bh_size mh) < 2 ^ 32" "unat (bh_offset ih) < 2 ^ 32" "unat (bh_size ih) < 2 ^ 32"
    and mo: "length F \<le> unat (bh_offset mh)" and hf: "has_filter sn opt (F @ c1 @ c2) blocks mh"
  shows "table_file cmp cls ok sn opt (E @ footer_bytes \<lparr>ft_metaindex_handle = mh, ft_index_handle = ih\<rparr>) blocks ixs irs \<lparr>ft_metaindex_handle = mh, ft_index_handle = ih\<rparr>"
proof -
  let ?ft = "\<lparr>ft_metaindex_handle = mh, ft_index_handle = ih\<rparr>"
  have b: "\<forall>b \<in> set blocks. db_entries b \<noteq> [] \<and> readable (db_entries b) (db_restarts b) \<and> stored sn F (db_handle b) (block_bytes (db_entries b) (db_restarts b))"
      "sorted_wrt (\<lambda>a b. cmp a b < 0) (keys_after 0 blocks [])" "\<forall>k \<in> set (keys_after 0 blocks []). ok k"
      "sorted_wrt (<) (map block_position blocks)" "\<forall>b \<in> set blocks. block_position b < unat (bh_offset mh)"
    using inv mo by (auto simp: tb_inv_def blocks_ok_def)
  have "stored sn (E @ footer_bytes ?ft) (db_handle b) (block_bytes (db_entries b) (db_restarts b))" if "b \<in> set blocks" for b
    using b(1) that stored_append [of sn F "db_handle b" _ "c1 @ c2 @ c3 @ footer_bytes ?ft"] F(1) by simp
  moreover have "has_filter sn opt (E @ footer_bytes ?ft) blocks mh" using has_filter_append [OF hf, of "c3 @ footer_bytes ?ft"] F(1) by simp
  ultimately show ?thesis
    unfolding table_file_def using b ix F(2) h [THEN small_not_max] stored_append [OF ix(2)] by (simp add: length_footer_bytes)
qed

context table_writer
begin

lemma tb_Finish_spec:
  assumes C: "to_comparator opt = C" and inv: "tb_inv cmp cls ok sn opt (contents f) r blocks xs rs ixs irs" and f: "wok f" and sn: "snappy_ok sn" and fo: "filter_options ok opt"
    and iv: "1 \<le> to_block_restart_interval opt" and wt: "total_weight blocks xs < 2 ^ 29" "length (to_filter_name opt) < 2 ^ 29"
  shows "\<exists>r' f' blocks' ixs' irs' footer. tb_Finish sn W r f = Inr (Status_OK, r', f') \<and> wok f' \<and> table_file cmp cls ok sn opt (contents f') blocks' ixs' irs' footer
     \<and> pairs blocks' [] = pairs blocks xs \<and> tb_FileSize r' = of_nat (length (contents f')) \<and> tb_closed r'"
proof -
  have w31: "total_weight blocks xs < 2 ^ 31" using wt(1) by simp
  obtain r1 f1 bs rs1 where 1: "tb_Flush sn W r f = Inr (r1, f1)" "wok f1" "tb_inv cmp cls ok sn opt (contents f1) r1 bs [] rs1 ixs irs" "pairs bs [] = pairs blocks xs" "total_weight bs [] = total_weight blocks xs"
    using tb_Flush_spec [OF inv f sn fo iv w31] by blast
  let ?w = "total_weight bs []"
  have base: "tb_options r1 = opt" "tb_ok r1" "\<not> tb_closed r1" "tb_offset r1 = of_nat (length (contents f1))" "filter_inv ok opt (tb_offset r1) (tb_filter_block r1) bs []"
      "length (contents f1) \<le> ?w"
    using 1(3) by (auto simp: tb_inv_def tb_base_def blocks_ok_def total_weight_def weight_def)
  define r2 where "r2 = r1\<lparr>tb_closed := True\<rparr>"
  have r2: "tb_ok r2" "tb_offset r2 = of_nat (length (contents f1))" "tb_options r2 = opt" "filter_inv ok opt (tb_offset r2) (tb_filter_block r2) bs []"
    using base by (simp_all add: r2_def tb_ok_def)
  have ne: "\<forall>d \<in> set bs. db_entries d \<noteq> []" using 1(3) by (simp add: tb_inv_def blocks_ok_def)
  have w: "?w < 2 ^ 29" using wt(1) 1(5) by simp
  obtain fh f2 c2 where 2: "finish_filter W r2 f1 = Inr (fh, (if to_filter_policy opt = None then r2 else advanced r2 (contents f2)), f2)" "wok f2" "contents f2 = contents f1 @ c2"
     "length c2 \<le> 3 * ?w + 14" "to_filter_policy opt = None \<longrightarrow> tb_filter_block r2 = None \<and> f2 = f1"
     "\<forall>P. to_filter_policy opt = Some P \<longrightarrow> tb_filter_block r2 \<noteq> None \<and> unat (bh_offset fh) < 2 ^ 32 \<and> unat (bh_size fh) < 2 ^ 32 \<and>
        (\<exists>data rd. stored sn (contents f2) fh data \<and> new_FilterBlockReader data = Inr rd \<and>
          (\<forall>d \<in> set bs. block_filtered P rd d))"
    using finish_filter_spec [where sn = sn, OF 1(2) r2 fo base(6) w ne] by (elim exE conjE) (rule that, assumption+)
  define r3 where "r3 = (if to_filter_policy opt = None then r2 else advanced r2 (contents f2))"
  have r3: "tb_ok r3" "tb_offset r3 = of_nat (length (contents f2))" "tb_options r3 = opt" "tb_filter_block r3 = None \<longleftrightarrow> to_filter_policy opt = None" "tb_closed r3"
      "tb_filter_block r3 = tb_filter_block r2" "to_filter_policy opt \<noteq> None \<longrightarrow> unat (bh_offset fh) < 2 ^ 32 \<and> unat (bh_size fh) < 2 ^ 32"
    using r2 2(5,6) by (auto simp: r3_def r2_def)
  have w3: "length (contents f2) + length (to_filter_name opt) + 80 < 2 ^ 32" using 2(3,4) base(6) w wt(2) by simp
  obtain mh c3 f3 mxs mrs where 3: "finish_meta sn W fh r3 f2 = Inr (mh, advanced r3 (contents f3), f3)" "wok f3" "contents f3 = contents f2 @ c3" "length c3 \<le> length (to_filter_name opt) + 72"
     "readable mxs mrs" "stored sn (contents f3) mh (block_bytes mxs mrs)" "unat (bh_offset mh) < 2 ^ 32" "unat (bh_size mh) < 2 ^ 32" "unat (bh_offset mh) = length (contents f2)"
     "map snd mxs = (if to_filter_policy opt = None then [] else [(bstr ''filter.'' @ to_filter_name opt, handle_bytes fh)])"
    using finish_meta_spec [OF 2(2) r3(1-3) sn iv r3(4,7) w3] by blast
  define r4 where "r4 = advanced r3 (contents f3)"
  have r4: "tb_ok r4" "tb_offset r4 = of_nat (length (contents f3))" "tb_pending_index_entry r4 = tb_pending_index_entry r1" "tb_last_key r4 = tb_last_key r1" "tb_pending_handle r4 = tb_pending_handle r1"
      "tb_index_block r4 = tb_index_block r1" "tb_options r4 = opt" "tb_index_block_options r4 = tb_index_block_options r1"
    using base(1) by (simp_all add: r4_def r3_def r2_def advanced_def tb_ok_def)
  have w4: "length (contents f3) + 2 * ?w + 13 < 2 ^ 32" "?w < 2 ^ 31" using 3(3,4) 2(3,4) base(6) w wt(2) by simp_all
  obtain ih c4 f4 r5 ixs' irs' where 4: "finish_index sn W r4 f3 = Inr (ih, r5, f4)" "tb_ok r5" "tb_closed r5 = tb_closed r4" "tb_offset r5 = of_nat (length (contents f4))" "wok f4" "contents f4 = contents f3 @ c4" "length c4 \<le> 2 * ?w + 13"
     "readable ixs' irs'" "stored sn (contents f4) ih (block_bytes ixs' irs')" "unat (bh_offset ih) < 2 ^ 32" "unat (bh_size ih) < 2 ^ 32"
     "index_ok cmp cls ok bs [] ixs'" "length ixs' = length bs"
    using finish_index_spec [OF 3(2) r4(1,2) sn C 1(3) w4 r4(3-)] by blast
  let ?ft = "\<lparr>ft_metaindex_handle = mh, ft_index_handle = ih\<rparr>"
  have ft: "footer_EncodeTo ?ft [] = Inr (footer_bytes ?ft)" using footer_roundtrip(1) [of ?ft] 3(7,8) 4(10,11) small_not_max by simp
  obtain f5 where 5: "wf_Append W (footer_bytes ?ft) f4 = Inr (Status_OK, f5)" "wok f5" "contents f5 = contents f4 @ footer_bytes ?ft" using append_file [OF 4(5)] by blast
  have hf: "has_filter sn opt (contents f3) bs mh"
  proof -
    have "stored sn (contents f2) fh d \<Longrightarrow> stored sn (contents f3) fh d" for d using stored_append 3(3) by simp
    then show ?thesis unfolding has_filter_def using 2(6) 3(5,6,10) by fastforce
  qed
  have "table_file cmp cls ok sn opt (contents f4 @ footer_bytes ?ft) bs ixs' irs' ?ft"
  proof (rule table_file_new [OF 1(3) _ _ 4(8,9,12,13) 3(7,8) 4(10,11)])
    show "contents f4 = contents f1 @ c2 @ c3 @ c4" using 4(6) 3(3) 2(3) by simp
    show "length (contents f4) + 48 < 2 ^ 32" using 4(6,7) 3(3,4) 2(3,4) base(6) w wt(2) by simp
    show "length (contents f1) \<le> unat (bh_offset mh)" using 3(9) 2(3) by simp
    show "has_filter sn opt (contents f1 @ c2 @ c3) bs mh" using hf 3(3) 2(3) by simp
  qed
  moreover obtain r6 where "tb_Finish sn W r f = Inr (Status_OK, r6, f5)" "r6 = r5\<lparr>tb_status := Status_OK, tb_offset := tb_offset r5 + of_nat (length (footer_bytes ?ft))\<rparr>"
    unfolding tb_Finish_steps 1(1) bindR_Inr prod.case r2_def [symmetric] 2(1) r3_def [symmetric] 3(1) r4_def [symmetric] 4(1) ft 5(1)
    using base(3) 4(2) by simp
  moreover have "tb_closed r5" using r3(5) 4(3) by (simp add: r4_def)
  ultimately show ?thesis using 1(4) 5(2,3) 4(4)
    by (intro exI [of _ r6] exI [of _ f5] exI [of _ bs] exI [of _ ixs'] exI [of _ irs'] exI [of _ ?ft]) (simp add: tb_FileSize_def)
qed

end


end
