(* ===== verification/Ldb_Table.thy ===== *)
theory Ldb_Table
  imports Ldb_Table_Build
begin

text \<open>
  Reading tables (\<^verbatim>\<open>table/table.cc\<close>, \<^verbatim>\<open>table/iterator.cc\<close>): \<open>Table::Open\<close>, the filter of a table, blocks from the cache or from the
  file, \<open>InternalGet\<close> and \<open>ApproximateOffsetOf\<close>. In the locale \<open>table_store\<close> a table that was built from sorted pairs is opened, and a
  lookup saves the first pair that is not smaller than the key whenever it belongs to the same user key. The locale is interpreted for
  files in memory with plain keys and with internal keys.
\<close>

section \<open>Reading a table: model\<close>

text \<open>The iterators of blocks through the interface of all iterators; the two without entries are those of \<^verbatim>\<open>table/iterator.cc\<close>.\<close>

definition bi_Valid :: "BlockIterator \<Rightarrow> bool" where
  "bi_Valid i = (case i of EntryIterator it \<Rightarrow> it_Valid it | _ \<Rightarrow> False)"

definition bi_key :: "BlockIterator \<Rightarrow> slice res" where
  "bi_key i = (case i of EntryIterator it \<Rightarrow> iter_key it | _ \<Rightarrow> Inl Assert_failed)"

definition bi_value :: "BlockIterator \<Rightarrow> slice res" where
  "bi_value i = (case i of EntryIterator it \<Rightarrow> iter_value it | _ \<Rightarrow> Inl Assert_failed)"

definition bi_status :: "BlockIterator \<Rightarrow> Status" where
  "bi_status i = (case i of EntryIterator it \<Rightarrow> it_status it | EmptyIterator \<Rightarrow> Status_OK | ErrorIterator s \<Rightarrow> s)"

definition bi_op :: "IterOp \<Rightarrow> BlockIterator \<Rightarrow> BlockIterator res option" where
  "bi_op op i =
     (case i of
        EntryIterator it \<Rightarrow> bindO (iter_step op it) (\<lambda>it. Some (Inr (EntryIterator it)))
      | _ \<Rightarrow> (case op of Next \<Rightarrow> Some (Inl Assert_failed) | Prev \<Rightarrow> Some (Inl Assert_failed) | _ \<Rightarrow> Some (Inr i)))"

text \<open>The interface of a cache with handles \<open>'h\<close>, values \<open>'v\<close> and state \<open>'c\<close>.\<close>

record ('h, 'v, 'c) Cache =
  ca_Insert :: "slice \<Rightarrow> 'v \<Rightarrow> nat \<Rightarrow> 'c \<Rightarrow> ('h \<times> 'c) res"
  ca_Lookup :: "slice \<Rightarrow> 'c \<Rightarrow> ('h option \<times> 'c) res"
  ca_Release :: "'h \<Rightarrow> 'c \<Rightarrow> 'c res"
  ca_Value :: "'h \<Rightarrow> 'c \<Rightarrow> 'v res"
  ca_Erase :: "slice \<Rightarrow> 'c \<Rightarrow> 'c res"
  ca_NewId :: "'c \<Rightarrow> u64 \<times> 'c"

record ReadOptions =
  ro_verify_checksums :: bool
  ro_fill_cache :: bool

definition ReadOptions_new :: ReadOptions where
  "ReadOptions_new = \<lparr>ro_verify_checksums = False, ro_fill_cache = True\<rparr>"

record Table =
  t_options :: TableOptions
  t_cache_id :: u64
  t_filter :: "FilterBlockReader option"
  t_metaindex_handle :: BlockHandle
  t_index_block :: Block

definition ReadFilter :: "Snappy \<Rightarrow> 'f RandomAccessFile \<Rightarrow> 'f \<Rightarrow> slice \<Rightarrow> Table \<Rightarrow> Table res" where
  "ReadFilter sn R f filter_handle_value t =
     (let (s, filter_handle, _) = handle_DecodeFrom filter_handle_value BlockHandle_new in
      if \<not> Status_ok s then Inr t
      else bindR (ReadBlock sn R f (ro_verify_checksums ReadOptions_new) filter_handle) (\<lambda>(s, block).
           if \<not> Status_ok s then Inr t
           else bindR (new_FilterBlockReader (bc_data block)) (\<lambda>filter_reader. Inr (t\<lparr>t_filter := Some filter_reader\<rparr>))))"

definition ReadMeta :: "u32 \<Rightarrow> Snappy \<Rightarrow> 'f RandomAccessFile \<Rightarrow> 'f \<Rightarrow> Footer \<Rightarrow> Table \<Rightarrow> Table res option" where
  "ReadMeta unset sn R f footer t =
     (if to_filter_policy (t_options t) = None then Some (Inr t)
      else bindO (Some (ReadBlock sn R f (ro_verify_checksums ReadOptions_new) (ft_metaindex_handle footer))) (\<lambda>(s, contents).
           if \<not> Status_ok s then Some (Inr t)
           else bindO (Some (bindR (Block_new unset (bc_data contents)) (NewIterator BytewiseComparator))) (\<lambda>iter.
                let key = bstr ''filter.'' @ to_filter_name (t_options t) in
                bindO (bi_op (Seek key) iter) (\<lambda>iter.
                if \<not> bi_Valid iter then Some (Inr t)
                else Some (bindR (bi_key iter) (\<lambda>k.
                     if k = key then bindR (bi_value iter) (\<lambda>v. ReadFilter sn R f v t) else Inr t))))))"

definition Table_Open :: "u32 \<Rightarrow> Snappy \<Rightarrow> 'f RandomAccessFile \<Rightarrow> 'f \<Rightarrow> ('h, Block, 'c) Cache option \<Rightarrow> TableOptions \<Rightarrow> u64 \<Rightarrow> 'c \<Rightarrow> (Status \<times> Table option \<times> 'c) res option" where
  "Table_Open unset sn R f CA opt sz c =
     (if sz < of_nat kEncodedLength then Some (Inr (InvalidArgument (bstr ''file is too short to be an sstable'') [], None, c))
      else bindO (Some (rf_Read R (sz - of_nat kEncodedLength) kEncodedLength f)) (\<lambda>(s, footer_input, _).
           if \<not> Status_ok s then Some (Inr (s, None, c))
           else bindO (Some (footer_DecodeFrom footer_input \<lparr>ft_metaindex_handle = BlockHandle_new, ft_index_handle = BlockHandle_new\<rparr>)) (\<lambda>(s, footer, _).
                if \<not> Status_ok s then Some (Inr (s, None, c))
                else bindO (Some (ReadBlock sn R f (ro_verify_checksums ReadOptions_new) (ft_index_handle footer))) (\<lambda>(s, contents).
                     if \<not> Status_ok s then Some (Inr (s, None, c))
                     else bindO (Some (Block_new unset (bc_data contents))) (\<lambda>index_block.
                          let (cache_id, c) = (case CA of None \<Rightarrow> (0, c) | Some CA \<Rightarrow> ca_NewId CA c) in
                          bindO (ReadMeta unset sn R f footer
                            \<lparr>t_options = opt, t_cache_id = cache_id, t_filter = None, t_metaindex_handle = ft_metaindex_handle footer, t_index_block = index_block\<rparr>) (\<lambda>t.
                          Some (Inr (s, Some t, c))))))))"

text \<open>What the deletion of the iterator of a block does: the block is deleted or its handle in the cache is released.\<close>

datatype 'h Cleanup = NoCleanup | DeleteBlock | ReleaseBlock 'h

definition cache_key :: "u64 \<Rightarrow> u64 \<Rightarrow> bytes" where
  "cache_key cache_id offset = EncodeFixed64 cache_id @ EncodeFixed64 offset"

definition read_new_block :: "u32 \<Rightarrow> Snappy \<Rightarrow> 'f RandomAccessFile \<Rightarrow> 'f \<Rightarrow> ReadOptions \<Rightarrow> BlockHandle \<Rightarrow> (Status \<times> (Block \<times> bool) option) res" where
  "read_new_block unset sn R f options handle =
     bindR (ReadBlock sn R f (ro_verify_checksums options) handle) (\<lambda>(s, contents).
     if Status_ok s then bindR (Block_new unset (bc_data contents)) (\<lambda>block. Inr (s, Some (block, bc_cachable contents))) else Inr (s, None))"

definition BlockReader :: "u32 \<Rightarrow> Snappy \<Rightarrow> 'f RandomAccessFile \<Rightarrow> 'f \<Rightarrow> ('h, Block, 'c) Cache option \<Rightarrow> Table \<Rightarrow> ReadOptions \<Rightarrow> slice \<Rightarrow> 'c
    \<Rightarrow> (BlockIterator \<times> 'h Cleanup \<times> 'c) res" where
  "BlockReader unset sn R f CA t options index_value c =
     (let (s, handle, _) = handle_DecodeFrom index_value BlockHandle_new in
      bindR (if \<not> Status_ok s then Inr (s, None, None, c)
             else (case CA of
                     Some CA \<Rightarrow>
                       let key = cache_key (t_cache_id t) (bh_offset handle) in
                       bindR (ca_Lookup CA key c) (\<lambda>(cache_handle, c).
                       case cache_handle of
                         Some h \<Rightarrow> bindR (ca_Value CA h c) (\<lambda>block. Inr (s, Some block, Some h, c))
                       | None \<Rightarrow>
                           bindR (read_new_block unset sn R f options handle) (\<lambda>(s, b).
                           case b of
                             None \<Rightarrow> Inr (s, None, None, c)
                           | Some (block, cachable) \<Rightarrow>
                               if cachable \<and> ro_fill_cache options
                               then bindR (ca_Insert CA key block (blk_size block) c) (\<lambda>(h, c). Inr (s, Some block, Some h, c))
                               else Inr (s, Some block, None, c)))
                   | None \<Rightarrow>
                       bindR (read_new_block unset sn R f options handle) (\<lambda>(s, b).
                       Inr (s, map_option fst b, None, c)))) (\<lambda>(s, block, cache_handle, c).
      case block of
        Some block \<Rightarrow>
          bindR (NewIterator (to_comparator (t_options t)) block) (\<lambda>iter.
          Inr (iter, case cache_handle of None \<Rightarrow> DeleteBlock | Some h \<Rightarrow> ReleaseBlock h, c))
      | None \<Rightarrow> Inr (ErrorIterator s, NoCleanup, c)))"

definition delete_iter :: "('h, Block, 'c) Cache option \<Rightarrow> 'h Cleanup \<Rightarrow> 'c \<Rightarrow> 'c res" where
  "delete_iter CA cleanup c =
     (case cleanup of
        ReleaseBlock h \<Rightarrow> (case CA of None \<Rightarrow> Inl Null_deref | Some CA \<Rightarrow> ca_Release CA h c)
      | _ \<Rightarrow> Inr c)"

text \<open>\<open>saver\<close> is called at most once; the result has the pair it is called with.\<close>

definition InternalGet :: "u32 \<Rightarrow> Snappy \<Rightarrow> 'f RandomAccessFile \<Rightarrow> 'f \<Rightarrow> ('h, Block, 'c) Cache option \<Rightarrow> Table \<Rightarrow> ReadOptions \<Rightarrow> slice \<Rightarrow> 'c
    \<Rightarrow> (Status \<times> (slice \<times> slice) option \<times> 'c) res option" where
  "InternalGet unset sn R f CA t options k c =
     bindO (Some (NewIterator (to_comparator (t_options t)) (t_index_block t))) (\<lambda>iiter.
     bindO (bi_op (Seek k) iiter) (\<lambda>iiter.
     bindO (if \<not> bi_Valid iiter then Some (Inr (Status_OK, None, c))
            else bindO (Some (bi_value iiter)) (\<lambda>handle_value.
                 bindO (Some (case t_filter t of
                          None \<Rightarrow> Inr False
                        | Some reader \<Rightarrow>
                            (case to_filter_policy (t_options t) of
                               None \<Rightarrow> Inl Null_deref
                             | Some P \<Rightarrow>
                                 (let (s, handle, _) = handle_DecodeFrom handle_value BlockHandle_new in
                                  if \<not> Status_ok s then Inr False
                                  else bindR (reader_KeyMayMatch P reader (bh_offset handle) k) (\<lambda>m. Inr (\<not> m)))))) (\<lambda>filtered.
                 if filtered then Some (Inr (Status_OK, None, c))
                 else bindO (Some (BlockReader unset sn R f CA t options handle_value c)) (\<lambda>(block_iter, cleanup, c).
                      bindO (bi_op (Seek k) block_iter) (\<lambda>block_iter.
                      bindO (Some (if bi_Valid block_iter
                                   then bindR (bi_key block_iter) (\<lambda>key. bindR (bi_value block_iter) (\<lambda>val. Inr (Some (key, val))))
                                   else Inr None)) (\<lambda>saved.
                      Some (bindR (delete_iter CA cleanup c) (\<lambda>c. Inr (bi_status block_iter, saved, c))))))))) (\<lambda>(s, saved, c).
     Some (Inr (if Status_ok s then bi_status iiter else s, saved, c)))))"

definition ApproximateOffsetOf :: "Table \<Rightarrow> slice \<Rightarrow> u64 res option" where
  "ApproximateOffsetOf t key =
     bindO (Some (NewIterator (to_comparator (t_options t)) (t_index_block t))) (\<lambda>index_iter.
     bindO (bi_op (Seek key) index_iter) (\<lambda>index_iter.
     if bi_Valid index_iter
     then bindO (Some (bi_value index_iter)) (\<lambda>input.
          let (s, handle, _) = handle_DecodeFrom input BlockHandle_new in
          Some (Inr (if Status_ok s then bh_offset handle else bh_offset (t_metaindex_handle t))))
     else Some (Inr (bh_offset (t_metaindex_handle t)))))"


section \<open>Opening a table\<close>

lemma bi_simps [simp]:
  "bi_Valid (EntryIterator it) = it_Valid it" "bi_key (EntryIterator it) = iter_key it" "bi_value (EntryIterator it) = iter_value it" "bi_status (EntryIterator it) = it_status it"
  by (simp_all add: bi_Valid_def bi_key_def bi_value_def bi_status_def)

context key_comparator
begin

lemma bi_Seek_block:
  assumes "readable xs rs" "keys_sorted cmp xs" "\<forall>e \<in> set xs. ok (entry_key e)" "ok target"
  shows "\<exists>blk it0 it. Block_new unset (block_bytes xs rs) = Inr blk \<and> NewIterator C blk = Inr (EntryIterator it0) \<and>
     bi_op (Seek target) (EntryIterator it0) = Some (Inr (EntryIterator it)) \<and> stands it C xs rs (seek_position cmp target xs) \<and> it_status it = Status_OK"
proof -
  obtain blk it0 where b: "Block_new unset (block_bytes xs rs) = Inr blk" "NewIterator C blk = Inr (EntryIterator it0)" "stands it0 C xs rs None" "it_status it0 = Status_OK"
    using NewIterator_block [OF assms(1)] by blast
  obtain it where "iter_Seek target it0 = Some (Inr it)" "stands it C xs rs (seek_position cmp target xs)" "it_status it = it_status it0"
    using iter_Seek_spec [OF stands_reads [OF b(3)] assms(4,3,2)] by blast
  then show ?thesis using b by (simp add: bi_op_def iter_step_def)
qed

end

definition opened :: "u32 \<Rightarrow> TableOptions \<Rightarrow> dblock list \<Rightarrow> entry list \<Rightarrow> nat list \<Rightarrow> Footer \<Rightarrow> Table \<Rightarrow> bool" where
  "opened unset opt blocks ixs irs footer t \<longleftrightarrow> t_options t = opt \<and> Block_new unset (block_bytes ixs irs) = Inr (t_index_block t) \<and>
     t_metaindex_handle t = ft_metaindex_handle footer \<and>
     (case to_filter_policy opt of None \<Rightarrow> t_filter t = None | Some P \<Rightarrow> \<exists>rd. t_filter t = Some rd \<and> (\<forall>d \<in> set blocks. block_filtered P rd d))"

context random_file
begin

lemma ReadMeta_spec:
  assumes f: "ok f" and hf: "has_filter sn opt (contents f) blocks (ft_metaindex_handle footer)" and t: "t_options t = opt" "t_filter t = None"
  shows "\<exists>fr. ReadMeta unset sn R f footer t = Some (Inr (t\<lparr>t_filter := fr\<rparr>)) \<and>
     (case to_filter_policy opt of None \<Rightarrow> fr = None | Some P \<Rightarrow> \<exists>rd. fr = Some rd \<and> (\<forall>d \<in> set blocks. block_filtered P rd d))"
proof (cases "to_filter_policy opt")
  case None
  then show ?thesis using t by (intro exI [of _ None]) (simp add: ReadMeta_def)
next
  case (Some P)
  let ?key = "bstr ''filter.'' @ to_filter_name opt"
  obtain mxs mrs fh data rd where m: "stored sn (contents f) (ft_metaindex_handle footer) (block_bytes mxs mrs)" "readable mxs mrs" "map snd mxs = [(?key, handle_bytes fh)]"
      "stored sn (contents f) fh data" "new_FilterBlockReader data = Inr rd" "\<forall>d \<in> set blocks. block_filtered P rd d"
    using hf Some by (auto simp: has_filter_def)
  obtain s where mxs: "mxs = [(s, ?key, handle_bytes fh)]" using m(3) by (cases mxs) auto
  obtain ca he where rb: "ReadBlock sn R f False (ft_metaindex_handle footer) = Inr (Status_OK, \<lparr>bc_data = block_bytes mxs mrs, bc_cachable = ca, bc_heap_allocated = he\<rparr>)"
    using ReadBlock_stored [OF f m(1)] by blast
  obtain ca2 he2 where rf: "ReadBlock sn R f False fh = Inr (Status_OK, \<lparr>bc_data = data, bc_cachable = ca2, bc_heap_allocated = he2\<rparr>)"
    using ReadBlock_stored [OF f m(4)] by blast
  have "keys_sorted slice_compare mxs" by (simp add: mxs keys_sorted_def)
  then obtain blk it0 it where b: "Block_new unset (block_bytes mxs mrs) = Inr blk" "NewIterator BytewiseComparator blk = Inr (EntryIterator it0)"
     "bi_op (Seek ?key) (EntryIterator it0) = Some (Inr (EntryIterator it))" "stands it BytewiseComparator mxs mrs (seek_position slice_compare ?key mxs)"
    using bytewise_user.bi_Seek_block [OF m(2)] by blast
  have "seek_position slice_compare ?key mxs = Some 0" by (simp add: mxs seek_position_def position_def bytewise.cmp_refl)
  then have "at_entry it BytewiseComparator mxs mrs 0" using b(4) by simp
  note r = at_entry_read [OF this]
  have v: "ReadOptions_new = \<lparr>ro_verify_checksums = False, ro_fill_cache = True\<rparr>" by (rule ReadOptions_new_def)
  have "ReadFilter sn R f (handle_bytes fh) t = Inr (t\<lparr>t_filter := Some rd\<rparr>)"
    unfolding ReadFilter_def v using rf m(5) by simp
  then have "ReadMeta unset sn R f footer t = Some (Inr (t\<lparr>t_filter := Some rd\<rparr>))"
    unfolding ReadMeta_def v Let_def using Some t rb b(1-3) r by (simp add: mxs)
  then show ?thesis using Some m(6) by auto
qed

lemma Table_Open_spec:
  assumes f: "ok f" and tf: "table_file cmp cls kok sn opt (contents f) blocks ixs irs footer"
  shows "\<exists>t. Table_Open unset sn R f CA opt (of_nat (length (contents f))) c =
      Some (Inr (Status_OK, Some t, case CA of None \<Rightarrow> c | Some K \<Rightarrow> snd (ca_NewId K c))) \<and> opened unset opt blocks ixs irs footer t"
proof -
  let ?F = "contents f" and ?n = "of_nat (length (contents f)) :: u64"
  obtain G where G: "?F = G @ footer_bytes footer" "length ?F < 2 ^ 32" using tf by (auto simp: table_file_def)
  have len: "length ?F = length G + 48" using G(1) by (simp add: length_footer_bytes)
  have k: "kEncodedLength = 48" by (simp add: kEncodedLength_def kMaxEncodedLength_def)
  have n: "unat ?n = length ?F" using G(2) by (simp add: unat_of_nat)
  have ge: "\<not> ?n < of_nat kEncodedLength" unfolding k using n len by (simp add: word_less_nat_alt)
  have off: "unat (?n - of_nat kEncodedLength) = length G" unfolding k using G(2) len by (simp add: unat_of_nat)
  obtain cp where rd: "rf_Read R (?n - of_nat kEncodedLength) 48 f = Inr (Status_OK, footer_bytes footer, cp)"
    using read_at [OF f, of "?n - of_nat kEncodedLength" 48] off G(1) len by (auto simp: length_footer_bytes)
  have ft: "footer_DecodeFrom (footer_bytes footer) f' = Inr (Status_OK, footer, [])" for f'
    using footer_roundtrip(2) [of footer "[]" f'] tf by (simp add: table_file_def)
  have ix: "stored sn ?F (ft_index_handle footer) (block_bytes ixs irs)" "readable ixs irs" and hf: "has_filter sn opt ?F blocks (ft_metaindex_handle footer)"
    using tf by (simp_all add: table_file_def)
  obtain ca he where rb: "ReadBlock sn R f False (ft_index_handle footer) = Inr (Status_OK, \<lparr>bc_data = block_bytes ixs irs, bc_cachable = ca, bc_heap_allocated = he\<rparr>)"
    using ReadBlock_stored [OF f ix(1)] by blast
  obtain blk where blk: "Block_new unset (block_bytes ixs irs) = Inr blk" using NewIterator_block [OF ix(2)] by blast
  define id where "id = (case CA of None \<Rightarrow> 0 | Some K \<Rightarrow> fst (ca_NewId K c))"
  let ?c = "case CA of None \<Rightarrow> c | Some K \<Rightarrow> snd (ca_NewId K c)"
  have id: "(case CA of None \<Rightarrow> (0, c) | Some K \<Rightarrow> ca_NewId K c) = (id, ?c)" by (cases CA) (simp_all add: id_def)
  let ?t = "\<lparr>t_options = opt, t_cache_id = id, t_filter = None, t_metaindex_handle = ft_metaindex_handle footer, t_index_block = blk\<rparr>"
  obtain fr where fr: "ReadMeta unset sn R f footer ?t = Some (Inr (?t\<lparr>t_filter := fr\<rparr>))"
     "case to_filter_policy opt of None \<Rightarrow> fr = None | Some P \<Rightarrow> \<exists>rd. fr = Some rd \<and> (\<forall>d \<in> set blocks. block_filtered P rd d)"
    using ReadMeta_spec [OF f hf, of ?t] by auto
  have v: "ro_verify_checksums ReadOptions_new = False" by (simp add: ReadOptions_new_def)
  have "Table_Open unset sn R f CA opt ?n c = Some (Inr (Status_OK, Some (?t\<lparr>t_filter := fr\<rparr>), ?c))"
    unfolding Table_Open_def id Let_def prod.case v
    unfolding k rd [unfolded k] using ge k rb ft blk fr(1) by simp
  then show ?thesis using fr(2) blk by (auto simp: opened_def split: option.splits)
qed

end


section \<open>Looking keys up\<close>

text \<open>
  What a lookup saves: the first pair whose key is not smaller when it belongs to the user key of the target, and never another pair.
\<close>

abbreviation first_from :: "(slice \<Rightarrow> slice \<Rightarrow> int) \<Rightarrow> slice \<Rightarrow> (slice \<times> slice) list \<Rightarrow> (slice \<times> slice) option" where
  "first_from cmp k kvs \<equiv> find (\<lambda>kv. \<not> cmp (fst kv) k < 0) kvs"

definition get_ok :: "(slice \<Rightarrow> slice \<Rightarrow> int) \<Rightarrow> (slice \<Rightarrow> slice) \<Rightarrow> (slice \<times> slice) list \<Rightarrow> slice \<Rightarrow> (slice \<times> slice) option \<Rightarrow> bool" where
  "get_ok cmp cls kvs k saved \<longleftrightarrow> (\<forall>kv. first_from cmp k kvs = Some kv \<longrightarrow> cls (fst kv) = cls k \<longrightarrow> saved = Some kv) \<and>
     (\<forall>kv. saved = Some kv \<longrightarrow> first_from cmp k kvs = Some kv)"

lemma find_append: "find P (xs @ ys) = (case find P xs of None \<Rightarrow> find P ys | Some x \<Rightarrow> Some x)"
  by (induction xs) simp_all

lemma position_Cons: "position (x # xs) (Suc i) = map_option Suc (position xs i)"
  by (simp add: position_def)

lemma first_from_seek: "first_from cmp k (map snd xs) = map_option (\<lambda>i. snd (xs ! i)) (seek_position cmp k xs)"
proof (induction xs)
  case Nil
  then show ?case by (simp add: seek_position_def position_def)
next
  case (Cons x xs)
  then show ?case by (simp add: seek_position_def position_Cons option.map_comp comp_def) (simp add: position_def)
qed

lemma seek_position_SomeD:
  assumes "seek_position cmp k xs = Some j"
  shows "j < length xs" "\<not> cmp (entry_key (xs ! j)) k < 0" "\<And>i. i < j \<Longrightarrow> cmp (entry_key (xs ! i)) k < 0"
proof -
  have j: "j = length (takeWhile (\<lambda>e. cmp (entry_key e) k < 0) xs)" "j < length xs" using assms by (auto simp: seek_position_def position_def split: if_splits)
  then show "j < length xs" "\<not> cmp (entry_key (xs ! j)) k < 0" using nth_length_takeWhile [of "\<lambda>e. cmp (entry_key e) k < 0" xs] by auto
  show "cmp (entry_key (xs ! i)) k < 0" if "i < j" for i
    using that set_takeWhileD [of "xs ! i" "\<lambda>e. cmp (entry_key e) k < 0" xs] j takeWhile_nth [of i "\<lambda>e. cmp (entry_key e) k < 0" xs] nth_mem [of i "takeWhile (\<lambda>e. cmp (entry_key e) k < 0) xs"] by auto
qed

lemma seek_position_NoneD: "seek_position cmp k xs = None \<Longrightarrow> e \<in> set xs \<Longrightarrow> cmp (entry_key e) k < 0"
proof -
  assume n: "seek_position cmp k xs = None" "e \<in> set xs"
  have "takeWhile (\<lambda>e. cmp (entry_key e) k < 0) xs = xs"
    using n(1) length_takeWhile_le [of "\<lambda>e. cmp (entry_key e) k < 0" xs] takeWhile_eq_take [of "\<lambda>e. cmp (entry_key e) k < 0" xs]
    by (auto simp: seek_position_def position_def split: if_splits)
  then show ?thesis using n(2) by (metis set_takeWhileD)
qed

lemma block_pairs: "(k, v) \<in> set (pairs blocks []) \<Longrightarrow> \<exists>i < length blocks. (k, v) \<in> set (map snd (db_entries (blocks ! i))) \<and> k \<in> set (block_keys (blocks ! i))"
  by (force simp: pairs_def block_keys_def in_set_conv_nth)

lemma pairs_split:
  assumes "j < length blocks"
  shows "pairs blocks [] = concat (map (map snd \<circ> db_entries) (take j blocks)) @ map snd (db_entries (blocks ! j)) @ concat (map (map snd \<circ> db_entries) (drop (Suc j) blocks))"
proof -
  have "map (map snd \<circ> db_entries) blocks = map (map snd \<circ> db_entries) (take j blocks @ blocks ! j # drop (Suc j) blocks)" using id_take_nth_drop [OF assms] by simp
  then show ?thesis by (simp add: pairs_def)
qed

context user_keys
begin

lemma block_sorted:
  assumes "sorted_wrt (\<lambda>a b. cmp a b < 0) (keys_after 0 blocks [])" "\<forall>k \<in> set (keys_after 0 blocks []). ok k" "d \<in> set blocks"
  shows "keys_sorted cmp (db_entries d)" "\<forall>e \<in> set (db_entries d). ok (entry_key e)"
proof -
  obtain as bs where b: "blocks = as @ d # bs" using assms(3) by (meson split_list)
  show "keys_sorted cmp (db_entries d)" "\<forall>e \<in> set (db_entries d). ok (entry_key e)"
    using assms(1,2) by (simp_all add: b keys_after_def sorted_wrt_append keys_sorted_def block_keys_def sorted_wrt_map)
qed

lemma index_sorted:
  assumes ix: "index_ok cmp cls ok blocks [] ixs" and ne: "\<forall>b \<in> set blocks. db_entries b \<noteq> []" and ks: "\<forall>k \<in> set (keys_after 0 blocks []). ok k"
  shows "keys_sorted cmp ixs" "\<forall>e \<in> set ixs. ok (entry_key e)"
proof -
  have e: "index_entry_ok cmp cls ok (blocks ! i) (ixs ! i) (keys_after (Suc i) blocks [])" if "i < length ixs" for i using ix that by (simp add: index_ok_def)
  have "cmp (entry_key (ixs ! i)) (entry_key (ixs ! j)) < 0" if "i < j" "j < length ixs" for i j
  proof -
    have j: "j < length blocks" using that ix by (simp add: index_ok_def)
    let ?k = "hd (block_keys (blocks ! j))"
    have "block_keys (blocks ! j) \<noteq> []" using ne j by (simp add: block_keys_def)
    then have k: "?k \<in> set (block_keys (blocks ! j))" by simp
    have b: "blocks ! j \<in> set (drop (Suc i) blocks)" using that(1) j by (auto simp: in_set_conv_nth intro!: exI [of _ "j - Suc i"])
    then have "?k \<in> set (keys_after (Suc i) blocks [])" using k by (auto simp: keys_after_def)
    then have "cmp (entry_key (ixs ! i)) ?k < 0" "ok (entry_key (ixs ! i))" using e [of i] that by (auto simp: index_entry_ok_def index_gap_def)
    moreover have "cmp ?k (entry_key (ixs ! j)) \<le> 0" "ok (entry_key (ixs ! j))" using e [OF that(2)] k by (auto simp: index_entry_ok_def)
    moreover have "ok ?k" using ks k j by (auto simp: keys_after_def)
    ultimately show ?thesis using cmp_less_trans [of "entry_key (ixs ! i)" ?k "entry_key (ixs ! j)"] by simp
  qed
  then show "keys_sorted cmp ixs" by (simp add: keys_sorted_def sorted_wrt_iff_nth_less)
  show "\<forall>e \<in> set ixs. ok (entry_key e)" unfolding all_set_conv_all_nth using e by (simp add: index_entry_ok_def)
qed

text \<open>Which block the index names for a key.\<close>

lemma block_below:
  assumes ix: "index_ok cmp cls ok blocks [] ixs" "i < length ixs" "cmp (entry_key (ixs ! i)) k < 0" "ok k" and m: "k' \<in> set (block_keys (blocks ! i))" "ok k'"
  shows "cmp k' k < 0"
proof -
  have "cmp k' (entry_key (ixs ! i)) \<le> 0" "ok (entry_key (ixs ! i))" using ix(1,2) m(1) by (auto simp: index_ok_def index_entry_ok_def)
  then show ?thesis using cmp_trans_less [of k' "entry_key (ixs ! i)" k] ix(3,4) m(2) by simp
qed

lemma get_past_end:
  assumes tf: "table_file cmp cls ok sn opt F blocks ixs irs footer" and k: "ok k" and s: "seek_position cmp k ixs = None"
  shows "get_ok cmp cls (pairs blocks []) k None"
proof -
  have t: "index_ok cmp cls ok blocks [] ixs" "length ixs = length blocks" "\<forall>k \<in> set (keys_after 0 blocks []). ok k" using tf by (simp_all add: table_file_def)
  have "cmp k' k < 0" if kv: "(k', v) \<in> set (pairs blocks [])" for k' v
  proof -
    obtain i where i: "i < length blocks" "k' \<in> set (block_keys (blocks ! i))" using block_pairs [OF kv] by blast
    have "cmp (entry_key (ixs ! i)) k < 0" using seek_position_NoneD [OF s] i(1) t(2) by simp
    moreover have "ok k'" using t(3) i by (force simp: keys_after_def)
    ultimately show ?thesis using block_below [OF t(1) _ _ k i(2)] i(1) t(2) by simp
  qed
  then have "first_from cmp k (pairs blocks []) = None" by (auto simp: find_None_iff)
  then show ?thesis by (simp add: get_ok_def)
qed

lemma get_in_block:
  assumes tf: "table_file cmp cls ok sn opt F blocks ixs irs footer" and k: "ok k" and s: "seek_position cmp k ixs = Some j"
  shows "j < length blocks" "get_ok cmp cls (pairs blocks []) k (map_option (\<lambda>i. snd (db_entries (blocks ! j) ! i)) (seek_position cmp k (db_entries (blocks ! j))))"
    and "cls k \<notin> cls ` set (block_keys (blocks ! j)) \<Longrightarrow> get_ok cmp cls (pairs blocks []) k None"
proof -
  let ?xs = "db_entries (blocks ! j)"
  have t: "index_ok cmp cls ok blocks [] ixs" "length ixs = length blocks" "\<forall>k \<in> set (keys_after 0 blocks []). ok k" "sorted_wrt (\<lambda>a b. cmp a b < 0) (keys_after 0 blocks [])"
    using tf by (simp_all add: table_file_def)
  note sj = seek_position_SomeD [OF s]
  show j: "j < length blocks" using sj(1) t(2) by simp
  have below: "cmp k' k < 0" if "i < j" "k' \<in> set (block_keys (blocks ! i))" for i k'
  proof (rule block_below [OF t(1) _ sj(3) [OF that(1)] k that(2)])
    show "i < length ixs" using that(1) sj(1) by simp
    show "ok k'" using t(3) that j by (force simp: keys_after_def)
  qed
  have ks: "keys_sorted cmp ?xs" using block_sorted(1) [OF t(4,3)] j by simp
  have "first_from cmp k (concat (map (map snd \<circ> db_entries) (take j blocks))) = None"
    using below j by (fastforce simp: find_None_iff in_set_conv_nth block_keys_def)
  then have first: "first_from cmp k (pairs blocks []) = (case first_from cmp k (map snd ?xs) of None \<Rightarrow> first_from cmp k (concat (map (map snd \<circ> db_entries) (drop (Suc j) blocks))) | Some x \<Rightarrow> Some x)"
    unfolding pairs_split [OF j] by (simp only: find_append option.case)
  have later: "cls (fst kv) \<noteq> cls k"
    if n: "first_from cmp k (map snd ?xs) = None" and kv: "first_from cmp k (concat (map (map snd \<circ> db_entries) (drop (Suc j) blocks))) = Some kv" for kv
  proof
    assume same: "cls (fst kv) = cls k"
    let ?e = "entry_key (ixs ! j)"
    have m: "kv \<in> set (concat (map (map snd \<circ> db_entries) (drop (Suc j) blocks)))" using kv unfolding find_Some_iff by (metis nth_mem)
    then have la: "fst kv \<in> set (keys_after (Suc j) blocks [])" by (auto simp: keys_after_def block_keys_def)
    then have okv: "ok (fst kv)" using t(3) keys_after_subset by blast
    have e: "ok ?e" "index_gap cmp cls (blocks ! j) ?e (fst kv)" using t(1) sj(1) la by (auto simp: index_ok_def index_entry_ok_def)
    have ge: "cmp k ?e \<le> 0" using sj(2) cmp_not_le [OF e(1) k] by simp
    have "?e \<notin> set (block_keys (blocks ! j))" using n sj(2) by (auto simp: find_None_iff block_keys_def)
    then have "cls ?e \<noteq> cls (fst kv)" "cmp ?e (fst kv) \<le> 0" using e(2) by (auto simp: index_gap_def)
    then show False using cls_between [OF k e(1) okv ge] same by simp
  qed
  have seek: "map_option (\<lambda>i. snd (?xs ! i)) (seek_position cmp k ?xs) = first_from cmp k (map snd ?xs)" by (rule first_from_seek [symmetric])
  show "get_ok cmp cls (pairs blocks []) k (map_option (\<lambda>i. snd (?xs ! i)) (seek_position cmp k ?xs))"
    unfolding seek get_ok_def first using later by (auto split: option.splits)
  have "cls (fst kv) \<in> cls ` set (block_keys (blocks ! j))" if "first_from cmp k (map snd ?xs) = Some kv" for kv
    using that by (force simp: find_Some_iff block_keys_def)
  then show "get_ok cmp cls (pairs blocks []) k None" if "cls k \<notin> cls ` set (block_keys (blocks ! j))"
    unfolding get_ok_def first using later that by (fastforce split: option.splits)
qed

end


text \<open>A way to get at the blocks, from a cache or from the file, that keeps the predicate \<open>good\<close> of the state of the cache.\<close>

definition serves :: "u32 \<Rightarrow> Snappy \<Rightarrow> 'f RandomAccessFile \<Rightarrow> 'f \<Rightarrow> ('h, Block, 'c) Cache option \<Rightarrow> Table \<Rightarrow> ReadOptions \<Rightarrow> dblock list \<Rightarrow> ('c \<Rightarrow> bool) \<Rightarrow> bool" where
  "serves unset sn R f CA t options blocks good \<longleftrightarrow> (\<forall>c d. good c \<longrightarrow> d \<in> set blocks \<longrightarrow>
     (\<exists>blk cl c1 c2. Block_new unset (block_bytes (db_entries d) (db_restarts d)) = Inr blk \<and>
        BlockReader unset sn R f CA t options (handle_bytes (db_handle d)) c = bindR (NewIterator (to_comparator (t_options t)) blk) (\<lambda>it. Inr (it, cl, c1)) \<and>
        delete_iter CA cl c1 = Inr c2 \<and> good c2))"

text \<open>A policy whose answer for a key is defined for every filter and the same for all keys of a user key.\<close>

definition filters_total :: "(slice \<Rightarrow> slice) \<Rightarrow> (slice \<Rightarrow> bool) \<Rightarrow> TableOptions \<Rightarrow> bool" where
  "filters_total cls ok opt \<longleftrightarrow> (\<forall>P k flt. to_filter_policy opt = Some P \<longrightarrow> ok k \<longrightarrow> (\<exists>b. fp_KeyMayMatch P k flt = Inr b) \<and>
     (\<forall>k'. ok k' \<longrightarrow> cls k' = cls k \<longrightarrow> fp_KeyMayMatch P k' flt = fp_KeyMayMatch P k flt))"

context user_keys
begin

lemma index_seek:
  assumes "to_comparator opt = C" "table_file cmp cls ok sn opt F blocks ixs irs footer" "opened unset opt blocks ixs irs footer t" "ok k"
  shows "\<exists>it0 it. NewIterator (to_comparator (t_options t)) (t_index_block t) = Inr (EntryIterator it0) \<and> bi_op (Seek k) (EntryIterator it0) = Some (Inr (EntryIterator it)) \<and>
     stands it C ixs irs (seek_position cmp k ixs) \<and> it_status it = Status_OK"
proof -
  have t: "index_ok cmp cls ok blocks [] ixs" "\<forall>b \<in> set blocks. db_entries b \<noteq> []" "\<forall>k \<in> set (keys_after 0 blocks []). ok k" "readable ixs irs"
    using assms(2) by (auto simp: table_file_def)
  have o: "t_options t = opt" "Block_new unset (block_bytes ixs irs) = Inr (t_index_block t)" using assms(3) by (simp_all add: opened_def)
  show ?thesis using bi_Seek_block [OF t(4) index_sorted [OF t(1-3)] assms(4), of unset] o assms(1) by auto
qed

lemma index_value:
  assumes "table_file cmp cls ok sn opt F blocks ixs irs footer" "stands it C ixs irs (Some j)"
  shows "it_Valid it" "iter_value it = Inr (handle_bytes (db_handle (blocks ! j)))"
proof -
  note r = at_entry_read [of it C ixs irs j]
  have "j < length ixs" using assms(2) by (simp add: at_entry_def)
  then have "entry_value (ixs ! j) = handle_bytes (db_handle (blocks ! j))" using assms(1) by (simp add: table_file_def index_ok_def index_entry_ok_def)
  then show "it_Valid it" "iter_value it = Inr (handle_bytes (db_handle (blocks ! j)))" using r assms(2) by simp_all
qed

lemma InternalGet_spec:
  assumes C: "to_comparator opt = C" and tf: "table_file cmp cls ok sn opt F blocks ixs irs footer" and op: "opened unset opt blocks ixs irs footer t"
    and ft: "filters_total cls ok opt" and sv: "serves unset sn R f CA t options blocks good" and c: "good c" and k: "ok k"
  shows "\<exists>saved c'. InternalGet unset sn R f CA t options k c = Some (Inr (Status_OK, saved, c')) \<and> good c' \<and> get_ok cmp cls (pairs blocks []) k saved"
proof -
  obtain it0 it where i: "NewIterator (to_comparator (t_options t)) (t_index_block t) = Inr (EntryIterator it0)" "bi_op (Seek k) (EntryIterator it0) = Some (Inr (EntryIterator it))"
     "stands it C ixs irs (seek_position cmp k ixs)" "it_status it = Status_OK"
    using index_seek [OF C tf op k] by blast
  show ?thesis
  proof (cases "seek_position cmp k ixs")
    case None
    then have "\<not> it_Valid it" using i(3) exhausted_read(1) by auto
    then have "InternalGet unset sn R f CA t options k c = Some (Inr (Status_OK, None, c))" using i by (simp add: InternalGet_def)
    then show ?thesis using get_past_end [OF tf k None] c by blast
  next
    case (Some j)
    note g = get_in_block [OF tf k Some] and iv = index_value [OF tf i(3) [unfolded Some]]
    let ?d = "blocks ! j"
    have d: "?d \<in> set blocks" using g(1) by simp
    obtain blk cl c1 c2 where b: "Block_new unset (block_bytes (db_entries ?d) (db_restarts ?d)) = Inr blk"
        "BlockReader unset sn R f CA t options (handle_bytes (db_handle ?d)) c = bindR (NewIterator (to_comparator (t_options t)) blk) (\<lambda>it. Inr (it, cl, c1))"
        "delete_iter CA cl c1 = Inr c2" "good c2"
      using sv c d unfolding serves_def by blast
    have t: "sorted_wrt (\<lambda>a b. cmp a b < 0) (keys_after 0 blocks [])" "\<forall>k \<in> set (keys_after 0 blocks []). ok k" "readable (db_entries ?d) (db_restarts ?d)"
      using tf d by (auto simp: table_file_def)
    have to: "t_options t = opt" using op by (simp add: opened_def)
    obtain jt0 jt where s: "NewIterator C blk = Inr (EntryIterator jt0)" "bi_op (Seek k) (EntryIterator jt0) = Some (Inr (EntryIterator jt))"
        "stands jt C (db_entries ?d) (db_restarts ?d) (seek_position cmp k (db_entries ?d))" "it_status jt = Status_OK"
      using bi_Seek_block [OF t(3) block_sorted [OF t(1,2) d] k, of unset] b(1) by auto
    define saved where "saved = map_option (\<lambda>i. snd (db_entries ?d ! i)) (seek_position cmp k (db_entries ?d))"
    have obs: "(if it_Valid jt then bindR (iter_key jt) (\<lambda>key. bindR (iter_value jt) (\<lambda>val. Inr (Some (key, val)))) else Inr None) = Inr saved"
    proof -
      have p: "seek_position cmp k (db_entries ?d) = Some i \<Longrightarrow> i < length (db_entries ?d)" for i by (rule seek_position_SomeD(1))
      show ?thesis using iter_observe_spec [OF s(3)] p by (auto simp: iter_observe_def saved_def split: option.splits)
    qed
    define filtered where "filtered = (case t_filter t of None \<Rightarrow> Inr False
        | Some reader \<Rightarrow> (case to_filter_policy (t_options t) of None \<Rightarrow> Inl Null_deref
             | Some P \<Rightarrow> (let (s, handle, _) = handle_DecodeFrom (handle_bytes (db_handle ?d)) BlockHandle_new in
                 if \<not> Status_ok s then Inr False else bindR (reader_KeyMayMatch P reader (bh_offset handle) k) (\<lambda>m. Inr (\<not> m)))))"
    have "\<exists>b. filtered = Inr b \<and> (b \<longrightarrow> cls k \<notin> cls ` set (block_keys ?d))"
    proof (cases "to_filter_policy opt")
      case None
      then show ?thesis using op by (auto simp: opened_def filtered_def)
    next
      case (Some P)
      then obtain rd where rd: "t_filter t = Some rd" "block_filtered P rd ?d" using op d by (auto simp: opened_def)
      then obtain flt where "\<forall>k. reader_KeyMayMatch P rd (bh_offset (db_handle ?d)) k = fp_KeyMayMatch P k flt"
          "\<forall>k \<in> set (block_keys ?d). fp_KeyMayMatch P k flt = Inr True"
        unfolding block_filtered_def by blast
      moreover obtain m where "fp_KeyMayMatch P k flt = Inr m" using ft Some k unfolding filters_total_def by blast
      moreover have "fp_KeyMayMatch P k' flt = fp_KeyMayMatch P k flt" if "k' \<in> set (block_keys ?d)" "cls k' = cls k" for k'
      proof -
        have "ok k'" using t(2) that(1) d by (auto simp: keys_after_def)
        then show ?thesis using ft Some k that(2) unfolding filters_total_def by blast
      qed
      ultimately show ?thesis using Some to rd(1) by (fastforce simp: filtered_def)
    qed
    then obtain fl where fl: "filtered = Inr fl" "fl \<longrightarrow> cls k \<notin> cls ` set (block_keys ?d)" by blast
    have br: "BlockReader unset sn R f CA t options (handle_bytes (db_handle ?d)) c = Inr (EntryIterator jt0, cl, c1)" using b(2) s(1) to C by simp
    have "InternalGet unset sn R f CA t options k c = (if fl then Some (Inr (Status_OK, None, c)) else Some (Inr (Status_OK, saved, c2)))"
      unfolding InternalGet_def i(1) bindO_simps i(2) bi_simps iv(2) filtered_def [symmetric] fl(1) br prod.case s(2) obs b(3) bindR_Inr
      using iv(1) i(4) s(4) by simp
    then show ?thesis using g(2,3) fl(2) c b(4) saved_def by (cases fl) auto
  qed
qed

text \<open>The offset of a key: that of the block the index names, or that of the metaindex block after the last key.\<close>

lemma ApproximateOffsetOf_spec:
  assumes C: "to_comparator opt = C" and tf: "table_file cmp cls ok sn opt F blocks ixs irs footer" and op: "opened unset opt blocks ixs irs footer t" and k: "ok k"
  shows "ApproximateOffsetOf t k = Some (Inr (case seek_position cmp k ixs of None \<Rightarrow> bh_offset (ft_metaindex_handle footer) | Some j \<Rightarrow> bh_offset (db_handle (blocks ! j))))"
proof -
  obtain it0 it where i: "NewIterator (to_comparator (t_options t)) (t_index_block t) = Inr (EntryIterator it0)" "bi_op (Seek k) (EntryIterator it0) = Some (Inr (EntryIterator it))"
     "stands it C ixs irs (seek_position cmp k ixs)" "it_status it = Status_OK"
    using index_seek [OF C tf op k] by blast
  have m: "t_metaindex_handle t = ft_metaindex_handle footer" using op by (simp add: opened_def)
  show ?thesis
  proof (cases "seek_position cmp k ixs")
    case None
    then have "\<not> it_Valid it" using i(3) exhausted_read(1) by auto
    then show ?thesis using None i m by (simp add: ApproximateOffsetOf_def)
  next
    case (Some j)
    note iv = index_value [OF tf i(3) [unfolded Some]]
    show ?thesis unfolding ApproximateOffsetOf_def i(1) bindO_simps i(2) bi_simps iv(2) Let_def handle_DecodeFrom_flat(2) prod.case using iv(1) Some by simp
  qed
qed

lemma seek_position_mono:
  assumes "cmp k k' \<le> 0" "ok k" "ok k'" "\<forall>e \<in> set xs. ok (entry_key e)"
  shows "seek_position cmp k xs = None \<Longrightarrow> seek_position cmp k' xs = None" "seek_position cmp k xs = Some i \<Longrightarrow> seek_position cmp k' xs = Some j \<Longrightarrow> i \<le> j"
proof -
  have tr: "cmp (entry_key e) k' < 0" if "e \<in> set xs" "cmp (entry_key e) k < 0" for e using cmp_less_trans [of "entry_key e" k k'] that assms by simp
  show "seek_position cmp k' xs = None" if "seek_position cmp k xs = None"
    using seek_position_NoneD [OF that] seek_position_SomeD(1,2) [of cmp k' xs] tr by (cases "seek_position cmp k' xs") auto
  show "i \<le> j" if "seek_position cmp k xs = Some i" "seek_position cmp k' xs = Some j"
    using seek_position_SomeD [OF that(1)] seek_position_SomeD [OF that(2)] tr [of "xs ! j"] by (meson not_le nth_mem)
qed

lemma ApproximateOffsetOf_mono:
  assumes C: "to_comparator opt = C" and tf: "table_file cmp cls ok sn opt F blocks ixs irs footer" and op: "opened unset opt blocks ixs irs footer t" and k: "ok k" "ok k'" "cmp k k' \<le> 0"
  shows "\<exists>x y. ApproximateOffsetOf t k = Some (Inr x) \<and> ApproximateOffsetOf t k' = Some (Inr y) \<and> x \<le> y"
proof -
  have t: "index_ok cmp cls ok blocks [] ixs" "\<forall>b \<in> set blocks. db_entries b \<noteq> []" "\<forall>k \<in> set (keys_after 0 blocks []). ok k" "length ixs = length blocks"
      "sorted_wrt (<) (map block_position blocks)" "\<forall>b \<in> set blocks. block_position b < unat (bh_offset (ft_metaindex_handle footer))"
    using tf by (auto simp: table_file_def)
  note m = seek_position_mono [OF k(3,1,2) index_sorted(2) [OF t(1-3)]]
  have pos: "block_position (blocks ! i) \<le> block_position (blocks ! j)" if "i \<le> j" "j < length blocks" for i j
    using sorted_wrt_nth_less [OF t(5), of i j] that by (cases "i = j") simp_all
  show ?thesis unfolding ApproximateOffsetOf_spec [OF C tf op k(1)] ApproximateOffsetOf_spec [OF C tf op k(2)]
    using m pos t(4,6) seek_position_SomeD(1) [of cmp k ixs] seek_position_SomeD(1) [of cmp k' ixs]
    by (cases "seek_position cmp k ixs"; cases "seek_position cmp k' ixs") (auto simp: word_le_nat_alt intro: less_imp_le)
qed

end


context random_file
begin

lemma read_new_block_stored:
  assumes "ok f" "stored sn (contents f) h (block_bytes xs rs)" "Block_new unset (block_bytes xs rs) = Inr blk"
  shows "\<exists>cachable. read_new_block unset sn R f options h = Inr (Status_OK, Some (blk, cachable))"
  using ReadBlock_stored [OF assms(1,2), of "ro_verify_checksums options"] assms(3) by (auto simp: read_new_block_def)

lemma serves_no_cache:
  assumes "ok f" "table_file cmp cls kok sn opt (contents f) blocks ixs irs footer"
  shows "serves unset sn R f None t options blocks good"
  unfolding serves_def
proof (intro allI impI)
  fix c d assume c: "good c" and d: "d \<in> set blocks"
  have "stored sn (contents f) (db_handle d) (block_bytes (db_entries d) (db_restarts d))" "readable (db_entries d) (db_restarts d)"
    using assms(2) d by (auto simp: table_file_def)
  note s = this
  obtain blk where blk: "Block_new unset (block_bytes (db_entries d) (db_restarts d)) = Inr blk" using NewIterator_block [OF s(2)] by blast
  obtain ca where "read_new_block unset sn R f options (db_handle d) = Inr (Status_OK, Some (blk, ca))" using read_new_block_stored [OF assms(1) s(1) blk] by blast
  then have "BlockReader unset sn R f None t options (handle_bytes (db_handle d)) c = bindR (NewIterator (to_comparator (t_options t)) blk) (\<lambda>it. Inr (it, DeleteBlock, c))"
    by (simp add: BlockReader_def)
  then show "\<exists>blk cl c1 c2. Block_new unset (block_bytes (db_entries d) (db_restarts d)) = Inr blk \<and>
        BlockReader unset sn R f None t options (handle_bytes (db_handle d)) c = bindR (NewIterator (to_comparator (t_options t)) blk) (\<lambda>it. Inr (it, cl, c1)) \<and>
        delete_iter None cl c1 = Inr c2 \<and> good c2"
    using blk c by (intro exI [of _ blk] exI [of _ DeleteBlock] exI [of _ c]) (simp add: delete_iter_def)
qed

end

section \<open>From the builder to the lookup\<close>

definition build_table :: "Snappy \<Rightarrow> 'f WritableFile \<Rightarrow> TableOptions \<Rightarrow> (slice \<times> slice) list \<Rightarrow> 'f \<Rightarrow> (Status \<times> u64 \<times> 'f) res" where
  "build_table sn W opt kvs f =
     bindR (TableBuilder_new opt) (\<lambda>r.
     bindR (tb_add_all sn W kvs r f) (\<lambda>(r, f).
     bindR (tb_Finish sn W r f) (\<lambda>(s, r, f). Inr (s, tb_FileSize r, f))))"

fun get_all :: "u32 \<Rightarrow> Snappy \<Rightarrow> 'f RandomAccessFile \<Rightarrow> 'f \<Rightarrow> ('h, Block, 'c) Cache option \<Rightarrow> Table \<Rightarrow> ReadOptions \<Rightarrow> slice list \<Rightarrow> 'c
    \<Rightarrow> ((Status \<times> (slice \<times> slice) option) list \<times> 'c) res option" where
  "get_all unset sn R f CA t options [] c = Some (Inr ([], c))"
| "get_all unset sn R f CA t options (k # ks) c =
     bindO (InternalGet unset sn R f CA t options k c) (\<lambda>(s, saved, c).
     bindO (get_all unset sn R f CA t options ks c) (\<lambda>(xs, c). Some (Inr ((s, saved) # xs, c))))"

definition pairs_weight :: "(slice \<times> slice) list \<Rightarrow> nat" where
  "pairs_weight kvs = sum_list (map (\<lambda>(k, v). length k + length v + 32) kvs)"

text \<open>What the builder asks of its options and of the pairs.\<close>

definition table_input :: "(slice \<Rightarrow> slice \<Rightarrow> int) \<Rightarrow> (slice \<Rightarrow> bool) \<Rightarrow> Comparator \<Rightarrow> TableOptions \<Rightarrow> (slice \<times> slice) list \<Rightarrow> bool" where
  "table_input cmp ok C opt kvs \<longleftrightarrow> to_comparator opt = C \<and> 1 \<le> to_block_restart_interval opt \<and> length (to_filter_name opt) < 2 ^ 29 \<and>
     pairs_weight kvs < 2 ^ 29 \<and> sorted_wrt (\<lambda>a b. cmp (fst a) (fst b) < 0) kvs \<and> (\<forall>kv \<in> set kvs. ok (fst kv))"

context user_keys
begin

lemma get_all_spec:
  assumes C: "to_comparator opt = C" and tf: "table_file cmp cls ok sn opt F blocks ixs irs footer" and op: "opened unset opt blocks ixs irs footer t"
    and ft: "filters_total cls ok opt" and sv: "serves unset sn R f CA t options blocks good"
  shows "good c \<Longrightarrow> \<forall>k \<in> set ks. ok k \<Longrightarrow> \<exists>xs c'. get_all unset sn R f CA t options ks c = Some (Inr (xs, c')) \<and> good c' \<and>
     list_all2 (\<lambda>k (s, saved). s = Status_OK \<and> get_ok cmp cls (pairs blocks []) k saved) ks xs"
proof (induction ks arbitrary: c)
  case (Cons k ks)
  obtain saved c1 where 1: "InternalGet unset sn R f CA t options k c = Some (Inr (Status_OK, saved, c1))" "good c1" "get_ok cmp cls (pairs blocks []) k saved"
    using InternalGet_spec [OF C tf op ft sv Cons.prems(1), of k] Cons.prems(2) by auto
  obtain xs c' where "get_all unset sn R f CA t options ks c1 = Some (Inr (xs, c'))" "good c'"
      "list_all2 (\<lambda>k (s, saved). s = Status_OK \<and> get_ok cmp cls (pairs blocks []) k saved) ks xs"
    using Cons.IH [OF 1(2)] Cons.prems(2) by auto
  then show ?case using 1 by simp
qed simp

end

text \<open>A file that is written and can be read at any place.\<close>

locale table_store = table_writer cmp ok C cls W wok contents + random_file R rok rcontents
  for cmp ok C cls and W :: "'f WritableFile" and wok contents and R :: "'f RandomAccessFile" and rok rcontents +
  assumes read_back: "wok f \<Longrightarrow> rok f \<and> rcontents f = contents f"

context table_writer
begin

lemma build_table_spec:
  assumes "table_input cmp ok C opt kvs" "snappy_ok sn" "filter_options ok opt" "wok f" "contents f = []"
  shows "\<exists>f' blocks ixs irs footer. build_table sn W opt kvs f = Inr (Status_OK, of_nat (length (contents f')), f') \<and> wok f' \<and>
     table_file cmp cls ok sn opt (contents f') blocks ixs irs footer \<and> pairs blocks [] = kvs"
proof -
  have in_: "to_comparator opt = C" "1 \<le> to_block_restart_interval opt" "length (to_filter_name opt) < 2 ^ 29" "pairs_weight kvs < 2 ^ 29"
      "sorted_wrt (\<lambda>a b. cmp (fst a) (fst b) < 0) kvs" "\<forall>kv \<in> set kvs. ok (fst kv)" using assms(1) by (simp_all add: table_input_def)
  have z: "total_weight [] [] = 0" "pairs [] [] = []" by (simp_all add: total_weight_def weight_def pairs_def)
  obtain r where r: "TableBuilder_new opt = Inr r" "tb_inv cmp cls ok sn opt (contents f) r [] [] [0] [] [0]" using TableBuilder_new_inv [OF in_(2), of sn] assms(5) by auto
  have w: "total_weight [] [] + sum_list (map (\<lambda>(k, v). length k + length v + 32) kvs) < 2 ^ 31" using in_(4) z(1) by (simp add: pairs_weight_def)
  obtain r1 f1 bs xs rs ixs irs where 1: "tb_add_all sn W kvs r f = Inr (r1, f1)" "wok f1" "tb_inv cmp cls ok sn opt (contents f1) r1 bs xs rs ixs irs"
      "pairs bs xs = kvs" "total_weight bs xs = pairs_weight kvs"
    using tb_add_all_spec [OF in_(1) r(2) assms(4,2,3) in_(2) w] in_(5,6) z by (auto simp: pairs_weight_def)
  have w2: "total_weight bs xs < 2 ^ 29" using 1(5) in_(4) by simp
  obtain r2 f2 bs2 ixs2 irs2 footer where 2: "tb_Finish sn W r1 f1 = Inr (Status_OK, r2, f2)" "wok f2" "table_file cmp cls ok sn opt (contents f2) bs2 ixs2 irs2 footer"
      "pairs bs2 [] = pairs bs xs" "tb_FileSize r2 = of_nat (length (contents f2))"
    using tb_Finish_spec [OF in_(1) 1(3,2) assms(2,3) in_(2) w2 in_(3)] by blast
  have "build_table sn W opt kvs f = Inr (Status_OK, of_nat (length (contents f2)), f2)" unfolding build_table_def using r(1) 1(1) 2(1,5) by simp
  then show ?thesis using 2(2-4) 1(4) by auto
qed

end

context table_store
begin

text \<open>A table that is built from the pairs, opened and asked for keys, in any order and without a cache.\<close>

theorem table_lookups:
  assumes "table_input cmp ok C opt kvs" "snappy_ok sn" "filter_options ok opt" "filters_total cls ok opt" "wok f" "contents f = []" "\<forall>k \<in> set ks. ok k"
  shows "\<exists>sz f' t xs. build_table sn W opt kvs f = Inr (Status_OK, sz, f') \<and>
     Table_Open unset sn R f' (None :: ('h, Block, 'c) Cache option) opt sz c = Some (Inr (Status_OK, Some t, c)) \<and>
     get_all unset sn R f' (None :: ('h, Block, 'c) Cache option) t options ks c = Some (Inr (xs, c)) \<and>
     list_all2 (\<lambda>k (s, saved). s = Status_OK \<and> get_ok cmp cls kvs k saved) ks xs"
proof -
  obtain f' blocks ixs irs footer where b: "build_table sn W opt kvs f = Inr (Status_OK, of_nat (length (contents f')), f')" "wok f'"
      "table_file cmp cls ok sn opt (contents f') blocks ixs irs footer" "pairs blocks [] = kvs"
    using build_table_spec [OF assms(1-3,5,6)] by blast
  have r: "rok f'" "rcontents f' = contents f'" using read_back [OF b(2)] by simp_all
  note tf = b(3) [folded r(2)]
  obtain t where t: "Table_Open unset sn R f' (None :: ('h, Block, 'c) Cache option) opt (of_nat (length (contents f'))) c = Some (Inr (Status_OK, Some t, c))" "opened unset opt blocks ixs irs footer t"
    using Table_Open_spec [OF r(1) tf, of unset "None :: ('h, Block, 'c) Cache option" c] r(2) by auto
  have C: "to_comparator opt = C" using assms(1) by (simp add: table_input_def)
  note sv = serves_no_cache [OF r(1) tf, where unset = unset and t = t and options = options and good = "\<lambda>c'. c' = c"]
  show ?thesis using get_all_spec [OF C tf t(2) assms(4) sv refl assms(7)] b(1,4) t(1) by auto
qed

end


section \<open>Tables in memory\<close>

text \<open>The port without the compressor.\<close>

definition NoSnappy :: Snappy where
  "NoSnappy = \<lparr>sn_Compress = \<lambda>_. None, sn_GetUncompressedLength = \<lambda>_. None, sn_Uncompress = \<lambda>_. None\<rparr>"

lemma snappy_ok_NoSnappy: "snappy_ok NoSnappy"
  by (simp add: snappy_ok_def NoSnappy_def)

lemma bloom_size:
  assumes "b \<le> 128"
  shows "small_filters (BloomFilterPolicy b p)"
  unfolding small_filters_def
proof (intro allI impI)
  fix keys dst f assume f: "fp_CreateFilter (BloomFilterPolicy b p) keys dst = Inr f"
  define m where "m = length keys * b"
  define n where "n = ((if m < 64 then 64 else m) + 7) div 8"
  have "8 \<le> (if m < 64 then 64 else m) + 7" for m :: nat by simp
  then have n: "0 < n" unfolding n_def by (simp only: div_greater_zero_iff) simp
  have m: "m \<le> length keys * 128" unfolding m_def using mult_le_mono2 [OF assms] .
  have "8 * n \<le> (if m < 64 then 64 else m) + 7" unfolding n_def by (rule times_div_less_eq_dividend)
  then have small: "n \<le> 16 * length keys + 8" using m by (cases "m < 64") simp_all
  let ?a = "replicate n 0 @ [of_nat (bloom_k p)] :: bytes"
  obtain a where a: "bloom_keys (bloom_k p) (n * 8) keys ?a = Inr a" "keeps_bits n ?a a" using bloom_keys_spec [OF n, of ?a "bloom_k p" keys] by auto
  have "bloom_CreateFilter b (bloom_k p) keys dst = Inr (dst @ a)"
    unfolding bloom_CreateFilter_def Let_def m_def [symmetric] n_def [symmetric] using a(1) by simp
  then show "length f \<le> length dst + 16 * length keys + 64" using f a(2) small by (auto simp: keeps_bits_def BloomFilterPolicy_def)
qed

lemma bloom_probe_total: "0 < n \<Longrightarrow> n \<le> length a \<Longrightarrow> \<exists>b. bloom_probe k (n * 8) h delta a = Inr b"
proof (induction k arbitrary: h)
  case (Suc k)
  then show ?case using probe_index [of n a h] by (auto simp: nth_res_def Let_def)
qed auto

lemma bloom_match_total: "\<exists>b. bloom_KeyMayMatch k flt = Inr b"
proof (cases "length flt < 2")
  case False
  obtain h where "BloomHash k = Inr h" using Hash_total by (auto simp: BloomHash_def)
  then show ?thesis using False bloom_probe_total [of "length flt - 1" flt] by (auto simp: bloom_KeyMayMatch_def Let_def)
qed (auto simp: bloom_KeyMayMatch_def Let_def)

text \<open>The two kinds of keys with a Bloom filter.\<close>

lemma bloom_options:
  assumes "to_filter_policy opt = Some (BloomFilterPolicy b p)" "b \<le> 128"
  shows "filter_options (\<lambda>_. True) opt" "filters_total (\<lambda>k. k) (\<lambda>_. True) opt"
proof -
  have "filter_policy (BloomFilterPolicy b p) (\<lambda>_. True)" by (rule bloom.filter_policy_axioms)
  then show "filter_options (\<lambda>_. True) opt" using assms bloom_size by (simp add: filter_options_def)
  show "filters_total (\<lambda>k. k) (\<lambda>_. True) opt" using assms(1) bloom_match_total by (simp add: filters_total_def BloomFilterPolicy_def)
qed

lemma internal_bloom_options:
  assumes "to_filter_policy opt = Some (InternalFilterPolicy (BloomFilterPolicy b p))" "b \<le> 128"
  shows "filter_options (\<lambda>k. 8 \<le> length k) opt" "filters_total key_user (\<lambda>k. 8 \<le> length k) opt"
proof -
  have "small_filters (InternalFilterPolicy (BloomFilterPolicy b p))"
    unfolding small_filters_def
  proof (intro allI impI)
    fix keys dst f assume "fp_CreateFilter (InternalFilterPolicy (BloomFilterPolicy b p)) keys dst = Inr f"
    then obtain us where u: "extract_all keys = Inr us" "fp_CreateFilter (BloomFilterPolicy b p) us dst = Inr f"
      by (auto simp: InternalFilterPolicy_def internal_CreateFilter_def bindR_eq_Inr)
    have "extract_all keys = Inr us \<Longrightarrow> length us = length keys" for us by (induction keys arbitrary: us) (auto simp: bindR_eq_Inr)
    then show "length f \<le> length dst + 16 * length keys + 64" using u bloom_size [OF assms(2), of p] unfolding small_filters_def by metis
  qed
  then show "filter_options (\<lambda>k. 8 \<le> length k) opt" using assms bloom.internal.filter_policy_axioms by (simp add: filter_options_def)
  show "filters_total key_user (\<lambda>k. 8 \<le> length k) opt" using assms(1) bloom_match_total
    by (simp add: filters_total_def BloomFilterPolicy_def InternalFilterPolicy_def internal_KeyMayMatch_def Extract_key)
qed

lemma no_filter_options: "to_filter_policy opt = None \<Longrightarrow> filter_options ok opt \<and> filters_total cls ok opt"
  by (simp add: filter_options_def filters_total_def)

context user_comparator
begin

lemma internal_separator_user:
  assumes "8 \<le> length a" "8 \<le> length b" "internal_FindShortestSeparator C a b = Inr s"
  shows "s = a \<or> cmp (key_user s) (key_user b) < 0"
proof -
  obtain u where u: "cmp_FindShortestSeparator C (key_user a) (key_user b) = Inr u"
      "u = key_user a \<or> cmp (key_user a) u \<le> 0 \<and> cmp u (key_user b) < 0"
    using separator by blast
  show ?thesis
  proof (cases "length u < length (key_user a) \<and> cmp (key_user a) u < 0")
    case True
    then have "s = shortened u" using assms u(1)
      by (auto simp: internal_FindShortestSeparator_def Extract_key Compare_eq Pack_max PutFixed64_def shortened_def Let_def bindR_eq_Inr)
    then show ?thesis using True u(2) by auto
  next
    case False
    then show ?thesis using assms u(1) by (auto simp: internal_FindShortestSeparator_def Extract_key Compare_eq split: if_splits)
  qed
qed

end

interpretation mem_table: table_store slice_compare "\<lambda>_. True" BytewiseComparator "\<lambda>k. k" "MemWritableFile unset" "\<lambda>(h, a). live h a" "\<lambda>(h, a). bytes_at h a"
    MemRandomAccessFile "\<lambda>(h, a). live h a" "\<lambda>(h, a). bytes_at h a" for unset
proof
  fix a b c s :: bytes
  show "s = a \<or> s \<noteq> b" if "cmp_FindShortestSeparator BytewiseComparator a b = Inr s"
    using that separator_spec [of a b] slice_compare_less [of b b] slice_compare_eq [of b b] by (auto simp: BytewiseComparator_def)
  show "b = c" if "slice_compare a b \<le> 0" "slice_compare b c \<le> 0" "a = c"
    using that slice_compare_eq [of b c] slice_compare_eq [of c b] bytewise.cmp_flip [of a b] by auto
  show "cmp_FindShortestSeparator BytewiseComparator a b = Inr s \<Longrightarrow> length s \<le> length a" using separator_spec [of a b] by (auto simp: BytewiseComparator_def)
  show "cmp_FindShortSuccessor BytewiseComparator a = Inr s \<Longrightarrow> length s \<le> length a" using short_successor_spec [of a] by (auto simp: BytewiseComparator_def)
qed auto

interpretation mem_internal_table: table_store "internal_cmp slice_compare" "\<lambda>k. 8 \<le> length k" "InternalKeyComparator BytewiseComparator" key_user
    "MemWritableFile unset" "\<lambda>(h, a). live h a" "\<lambda>(h, a). bytes_at h a" MemRandomAccessFile "\<lambda>(h, a). live h a" "\<lambda>(h, a). bytes_at h a" for unset
proof
  fix a b c s :: bytes assume a: "8 \<le> length a"
  show "cmp_FindShortSuccessor (InternalKeyComparator BytewiseComparator) a = Inr s \<Longrightarrow> length s \<le> length a"
    using bytewise_user.internal_successor [OF a] by (auto simp: InternalKeyComparator_def)
  assume b: "8 \<le> length b"
  show "s = a \<or> key_user s \<noteq> key_user b" if "cmp_FindShortestSeparator (InternalKeyComparator BytewiseComparator) a b = Inr s"
    using that bytewise_user.internal_separator_user [OF a b] slice_compare_eq [of "key_user b" "key_user b"] by (auto simp: InternalKeyComparator_def)
  show "key_user b = key_user c" if "8 \<le> length c" "internal_cmp slice_compare a b \<le> 0" "internal_cmp slice_compare b c \<le> 0" "key_user a = key_user c"
    using that bytewise_user.icmp_user_le [of a b] bytewise_user.icmp_user_le [of b c] slice_compare_eq [of "key_user b" "key_user c"] bytewise.cmp_flip [of "key_user a" "key_user b"] slice_compare_eq [of "key_user c" "key_user b"] by auto
  show "cmp_FindShortestSeparator (InternalKeyComparator BytewiseComparator) a b = Inr s \<Longrightarrow> length s \<le> length a"
    using bytewise_user.internal_separator [OF a b] by (auto simp: InternalKeyComparator_def)
qed auto


end
