(* ===== verification/Ldb_Store_Properties.thy ===== *)
theory Ldb_Store_Properties
  imports Ldb_Log Ldb_Table
begin

text \<open>
  The properties of the storage layer of LevelDB: files in memory, the log, blocks and tables.
\<close>

section \<open>Files in memory\<close>

text \<open>A new file at the address 1.\<close>

definition new_file :: "file_heap \<times> nat" where
  "new_file = (Map.empty(1 \<mapsto> FileState_new), 1)"

lemma new_file_live: "live (fst new_file) (snd new_file)" "bytes_at (fst new_file) (snd new_file) = []"
  using fs_inv_new by (simp_all add: new_file_def live_def bytes_at_def fs_contents_def FileState_new_def)

lemma file_with: "\<exists>h a. live h a \<and> bytes_at h a = d"
  using mem_writable.append_file [of new_file "\<lambda>_ _. 0" d] new_file_live by (auto simp: case_prod_beta)



text \<open>
  C33: whatever sequence of fewer than 2^31 - 1 operations is run on a new environment in memory, no operation uses an object that was deleted, no
  assertion fails and no counter overflows; the references of every object are its names and the open files, and the objects that have
  none are gone. (The counter is an \<^verbatim>\<open>int\<close>; a file that is opened 2^31 - 1 times at once would overflow it.)
\<close>

theorem memenv_never_dangles:
  assumes "length ops + 1 < 2 ^ 31"
  shows "\<exists>E H. me_run unset ops (InMemoryEnv_new, []) = Inr (E, H) \<and> distinct (map fst (me_files E)) \<and>
     (\<forall>a. map_option fs_refs (me_heap E a) =
        (let n = count (mset (map snd (me_files E)) + mset H) a in if n = 0 then None else Some (int n)))"
proof -
  obtain E H where r: "me_run unset ops (InMemoryEnv_new, []) = Inr (E, H)" "me_inv E H" using me_run_inv [OF me_inv_new, of ops unset] assms by auto
  let ?A = "mset (map snd (me_files E)) + mset H"
  have inv: "distinct (map fst (me_files E))" "\<forall>a \<in># ?A. me_heap E a \<noteq> None" "\<forall>a f. me_heap E a = Some f \<longrightarrow> a \<in># ?A \<and> fs_refs f = int (count ?A a)"
    using r(2) by (simp_all add: me_inv_def refs_ok_def names_ok_def del: count_union)
  have "map_option fs_refs (me_heap E a) = (let n = count ?A a in if n = 0 then None else Some (int n))" for a
  proof (cases "me_heap E a")
    case None
    then have "a \<notin># ?A" using inv(2) by blast
    then have "count ?A a = 0" by (simp only: not_in_iff)
    then show ?thesis using None by (simp add: Let_def del: count_union)
  next
    case (Some f)
    then have "a \<in># ?A" "fs_refs f = int (count ?A a)" using inv(3) by blast+
    moreover from this(1) have "count ?A a \<noteq> 0" using not_in_iff by metis
    ultimately show ?thesis using Some by (simp add: Let_def del: count_union)
  qed
  then show ?thesis using r(1) inv(1) by blast
qed

theorem memenv_never_dangles_witness:
  "\<exists>E H. me_run (\<lambda>_ _. 0) [Op_NewWritableFile [1], Op_Append 0 [5], Op_NewSequentialFile [1], Op_DeleteFile [1]] (InMemoryEnv_new, []) = Inr (E, H)
    \<and> distinct (map fst (me_files E))
    \<and> (\<forall>a. map_option fs_refs (me_heap E a) = (let n = count (mset (map snd (me_files E)) + mset H) a in if n = 0 then None else Some (int n)))"
  by (rule memenv_never_dangles) simp

section \<open>The log\<close>

text \<open>
  C31: records that were written to a new log are read back in order and without a report, also when the system stopped while the next
  record was written and the file ends anywhere inside of it; after them the reader sees the end of the log.
\<close>

theorem log_crash_recovery:
  assumes "live h a" "bytes_at h a = []"
  shows "\<exists>w f1 w2 f2. add_records (MemWritableFile unset) ds Writer_new (h, a) = Inr (Status_OK, w, f1) \<and> AddRecord (MemWritableFile unset) d w f1 = Inr (Status_OK, w2, f2) \<and>
     length (bytes_at (fst f1) (snd f1)) < length (bytes_at (fst f2) (snd f2)) \<and>
     (\<forall>k h' s reporter checksum. length (bytes_at (fst f1) (snd f1)) \<le> k \<and> k < length (bytes_at (fst f2) (snd f2)) \<and>
        live h' (sq_file s) \<and> sq_pos s = 0 \<and> bytes_at h' (sq_file s) = take k (bytes_at (fst f2) (snd f2)) \<longrightarrow>
        (\<exists>r r'. read_records MemSequentialFile (length ds) (Reader_new (h', s) reporter checksum 0) = Some (Inr (ds, r)) \<and> rd_reports r = [] \<and>
                ReadRecord MemSequentialFile r = Some (Inr (None, r'))))"
  using mem_log_read_back [OF assms] by blast

theorem log_crash_recovery_witness:
  "\<exists>w f h s r r'. add_records (MemWritableFile (\<lambda>_ _. 0)) [[1, 2], []] Writer_new new_file = Inr (Status_OK, w, f) \<and> live h (sq_file s) \<and>
     length (bytes_at (fst f) (snd f)) \<le> length (bytes_at h (sq_file s)) \<and>
     read_records MemSequentialFile 2 (Reader_new (h, s) True True 0) = Some (Inr ([[1, 2], []], r)) \<and> ReadRecord MemSequentialFile r = Some (Inr (None, r'))"
proof -
  define ds :: "bytes list" where "ds = [[1, 2], []]"
  obtain w f1 w2 f2 where l: "add_records (MemWritableFile (\<lambda>_ _. 0)) ds Writer_new new_file = Inr (Status_OK, w, f1)"
      "AddRecord (MemWritableFile (\<lambda>_ _. 0)) (replicate 9 3) w f1 = Inr (Status_OK, w2, f2)"
      "\<forall>k h' s reporter checksum. length (bytes_at (fst f1) (snd f1)) \<le> k \<and> k < length (bytes_at (fst f2) (snd f2)) \<and>
        live h' (sq_file s) \<and> sq_pos s = 0 \<and> bytes_at h' (sq_file s) = take k (bytes_at (fst f2) (snd f2)) \<longrightarrow>
        (\<exists>r r'. read_records MemSequentialFile (length ds) (Reader_new (h', s) reporter checksum 0) = Some (Inr (ds, r)) \<and> rd_reports r = [] \<and>
                ReadRecord MemSequentialFile r = Some (Inr (None, r')))"
      "length (bytes_at (fst f1) (snd f1)) < length (bytes_at (fst f2) (snd f2))"
    using log_crash_recovery [OF new_file_live, of "\<lambda>_ _. 0" ds "replicate 9 3"] by auto
  let ?k = "length (bytes_at (fst f2) (snd f2)) - 1"
  obtain h a where f: "live h a" "bytes_at h a = take ?k (bytes_at (fst f2) (snd f2))" using file_with by blast
  have k: "length (bytes_at (fst f1) (snd f1)) \<le> ?k" "?k < length (bytes_at (fst f2) (snd f2))" using l(4) by simp_all
  obtain r r' where "read_records MemSequentialFile (length ds) (Reader_new (h, \<lparr>sq_file = a, sq_pos = 0\<rparr>) True True 0) = Some (Inr (ds, r))"
      "ReadRecord MemSequentialFile r = Some (Inr (None, r'))"
    using l(3) [rule_format, of ?k h "\<lparr>sq_file = a, sq_pos = 0\<rparr>" True True] f k by auto
  then show ?thesis using l(1) f k
    by (intro exI [of _ w] exI [of _ f1] exI [of _ h] exI [of _ "\<lparr>sq_file = a, sq_pos = 0\<rparr>"] exI [of _ r] exI [of _ r']) (simp add: ds_def numeral_2_eq_2)
qed

text \<open>
  C32: the reader reaches the end of every file, whatever bytes it has: each call returns, and after at most as many records as there are
  bytes a call says that there is none left.
\<close>

theorem log_reader_ends:
  assumes "seq_ok (rd_file r)"
  shows "\<exists>n ds r1 r2. n \<le> unread seq_remaining r \<and> read_records MemSequentialFile n r = Some (Inr (ds, r1)) \<and> ReadRecord MemSequentialFile r1 = Some (Inr (None, r2))"
  using assms
proof (induction "unread seq_remaining r" arbitrary: r rule: less_induct)
  case less
  obtain x r' where x: "ReadRecord MemSequentialFile r = Some (Inr (x, r'))" "seq_ok (rd_file r')" "x \<noteq> None \<longrightarrow> unread seq_remaining r' < unread seq_remaining r"
    using mem_sequential.ReadRecord_returns [OF less.prems] by (auto simp: returns_def)
  show ?case
  proof (cases x)
    case None
    then show ?thesis using x(1) by (intro exI [of _ 0] exI [of _ "[]"] exI [of _ r] exI [of _ r']) simp
  next
    case (Some d)
    then have lt: "unread seq_remaining r' < unread seq_remaining r" using x(3) by simp
    from less.hyps [OF lt x(2)] obtain n ds r1 r2 where n: "n \<le> unread seq_remaining r'" "read_records MemSequentialFile n r' = Some (Inr (ds, r1))"
        "ReadRecord MemSequentialFile r1 = Some (Inr (None, r2))" by blast
    then show ?thesis using x(1) Some lt by (intro exI [of _ "Suc n"] exI [of _ "d # ds"] exI [of _ r1] exI [of _ r2]) simp
  qed
qed

theorem log_reader_ends_witness:
  "\<exists>h s n ds r1 r2. seq_remaining (h, s) = [1, 2, 3] \<and> n \<le> 3 \<and> read_records MemSequentialFile n (Reader_new (h, s) True True 0) = Some (Inr (ds, r1)) \<and>
     ReadRecord MemSequentialFile r1 = Some (Inr (None, r2))"
proof -
  obtain h a where f: "live h a" "bytes_at h a = [1, 2, 3]" using file_with by blast
  let ?s = "\<lparr>sq_file = a, sq_pos = 0\<rparr>" and ?r = "Reader_new (h, \<lparr>sq_file = a, sq_pos = 0\<rparr>) True True 0"
  have "seq_ok (rd_file ?r)" "unread seq_remaining ?r = 3" "seq_remaining (h, ?s) = [1, 2, 3]"
    using f by (simp_all add: Reader_new_def seq_ok_def unread_def seq_remaining_def)
  then show ?thesis using log_reader_ends [of ?r] by metis
qed

section \<open>Blocks\<close>

text \<open>
  C30: a block of sorted internal keys is a cursor over the list of its entries: whatever sequence of movements is made on the iterator of
  the finished block, it sees what a cursor over the list sees, for every restart interval.
\<close>

theorem block_refines_cursor:
  assumes "opt_comparator opts = InternalKeyComparator BytewiseComparator" "BlockBuilder_new opts = Inr b0"
    and "sorted_wrt (\<lambda>a b. internal_cmp slice_compare (fst a) (fst b) < 0) kvs" "\<forall>kv \<in> set kvs. 8 \<le> length (fst kv)" "\<forall>t. Seek t \<in> set ops \<longrightarrow> 8 \<le> length t"
  shows "\<exists>b. bb_add_all opts kvs b0 = Inr b \<and>
     (length (fst (bb_Finish b)) < 2 ^ 32 \<longrightarrow>
      (\<exists>blk it. Block_new unset (fst (bb_Finish b)) = Inr blk \<and> NewIterator (InternalKeyComparator BytewiseComparator) blk = Inr (EntryIterator it) \<and>
                iter_run ops it = Some (cursor_run (internal_cmp slice_compare) kvs ops None)))"
proof -
  have "1 \<le> opt_restart_interval opts" using assms(2) by (auto simp: BlockBuilder_new_def bindR_eq_Inr assertR_eq_Inr)
  then show ?thesis using bytewise_user.internal.built_block_is_cursor [OF assms(1) _ assms(2-5)] by blast
qed

text \<open>Two internal keys of one user key and a third one.\<close>

definition sample_pairs :: "(slice \<times> slice) list" where
  "sample_pairs = [([97, 1, 5, 0, 0, 0, 0, 0, 0], [10]), ([97, 1, 3, 0, 0, 0, 0, 0, 0], [20]), ([98, 1, 4, 0, 0, 0, 0, 0, 0], [30])]"

lemma sample_pairs_sorted:
  "sorted_wrt (\<lambda>a b. internal_cmp slice_compare (fst a) (fst b) < 0) sample_pairs" "\<forall>kv \<in> set sample_pairs. 8 \<le> length (fst kv)"
  by code_simp+

theorem block_refines_cursor_witness:
  "\<exists>b blk it. bb_add_all \<lparr>opt_comparator = InternalKeyComparator BytewiseComparator, opt_restart_interval = 2\<rparr> sample_pairs
       \<lparr>bb_buffer = [], bb_restarts = [0], bb_counter = 0, bb_finished = False, bb_last_key = []\<rparr> = Inr b \<and>
     Block_new 0 (fst (bb_Finish b)) = Inr blk \<and> NewIterator (InternalKeyComparator BytewiseComparator) blk = Inr (EntryIterator it) \<and>
     iter_run [SeekToFirst, Next, Seek [97, 1, 4, 0, 0, 0, 0, 0, 0], Prev, Prev] it =
       Some (Inr [Some (sample_pairs ! 0), Some (sample_pairs ! 1), Some (sample_pairs ! 1), Some (sample_pairs ! 0), None])"
proof -
  let ?o = "\<lparr>opt_comparator = InternalKeyComparator BytewiseComparator, opt_restart_interval = 2\<rparr>"
  let ?b = "\<lparr>bb_buffer = [], bb_restarts = [0], bb_counter = 0, bb_finished = False, bb_last_key = []\<rparr>"
  let ?ops = "[SeekToFirst, Next, Seek [97, 1, 4, 0, 0, 0, 0, 0, 0], Prev, Prev]"
  have new: "BlockBuilder_new ?o = Inr ?b" by (simp add: BlockBuilder_new_def)
  have ops: "\<forall>t. Seek t \<in> set ?ops \<longrightarrow> 8 \<le> length t" by simp
  have c: "opt_comparator ?o = InternalKeyComparator BytewiseComparator" by simp
  obtain b where b: "bb_add_all ?o sample_pairs ?b = Inr b" "length (fst (bb_Finish b)) < 2 ^ 32 \<longrightarrow>
      (\<exists>blk it. Block_new 0 (fst (bb_Finish b)) = Inr blk \<and> NewIterator (InternalKeyComparator BytewiseComparator) blk = Inr (EntryIterator it) \<and>
                iter_run ?ops it = Some (cursor_run (internal_cmp slice_compare) sample_pairs ?ops None))"
    using block_refines_cursor [OF c new sample_pairs_sorted ops, of 0] by blast
  have "case bb_add_all ?o sample_pairs ?b of Inr b \<Rightarrow> length (fst (bb_Finish b)) < 100 | Inl _ \<Rightarrow> False" by code_simp
  then have "length (fst (bb_Finish b)) < 2 ^ 32" using b(1) by simp
  moreover have "cursor_run (internal_cmp slice_compare) sample_pairs ?ops None = Inr [Some (sample_pairs ! 0), Some (sample_pairs ! 1), Some (sample_pairs ! 1), Some (sample_pairs ! 0), None]"
    by code_simp
  ultimately show ?thesis using b by auto
qed

text \<open>
  No sequence of movements runs for ever on a block with arbitrary contents of less than 4 GB, whatever the comparator does: the sum of
  two restart indices in the binary search does not wrap around.
\<close>

theorem block_iteration_ends:
  assumes "length contents < 2 ^ 32" "Block_new unset contents = Inr blk" "NewIterator C blk = Inr (EntryIterator it)"
  shows "\<exists>x. iter_run ops it = Some x"
  by (rule iter_run_ends_on_any_block [OF assms])

theorem block_iteration_ends_witness:
  "\<exists>blk it x. Block_new 0 wrapping_block = Inr blk \<and> NewIterator BytewiseComparator blk = Inr (EntryIterator it) \<and> iter_run [Seek [1], Next] it = Some x"
proof -
  obtain blk it where "Block_new 0 wrapping_block = Inr blk" "NewIterator BytewiseComparator blk = Inr (EntryIterator it)" using wrapping_block_runs_over by blast
  moreover have "length wrapping_block < 2 ^ 32" by (simp add: wrapping_block_def EncodeFixed32_def)
  ultimately show ?thesis using block_iteration_ends [of wrapping_block 0 blk BytewiseComparator it "[Seek [1], Next]"] by blast
qed


section \<open>Tables\<close>

text \<open>The options of a table of internal keys, with or without a Bloom filter.\<close>

definition internal_options :: "nat \<Rightarrow> nat \<Rightarrow> TableOptions \<Rightarrow> bool" where
  "internal_options b p opt \<longleftrightarrow> b \<le> 128 \<and> to_filter_policy opt \<in> {None, Some (InternalFilterPolicy (BloomFilterPolicy b p))}"

lemma internal_options_ok:
  assumes "internal_options b p opt"
  shows "filter_options (\<lambda>k. 8 \<le> length k) opt" "filters_total key_user (\<lambda>k. 8 \<le> length k) opt"
  using assms internal_bloom_options [of opt b p] no_filter_options [of opt] by (auto simp: internal_options_def)

text \<open>
  C29: a table that is built from sorted internal keys can be opened, and a lookup of a user key at a sequence number gives the newest entry
  of the user key that is not newer than this number whenever there is one; whatever a lookup gives is the first entry that is not before
  the key (which may belong to another user key when there is no such entry). This holds for every block size, restart interval, compressor and Bloom
  filter of up to 128 bits per key, without a block cache.
\<close>

theorem table_lookups_newest:
  assumes "table_input (internal_cmp slice_compare) (\<lambda>k. 8 \<le> length k) (InternalKeyComparator BytewiseComparator) opt kvs"
    and "internal_options b p opt" "snappy_ok sn" "live h a" "bytes_at h a = []" "\<forall>k \<in> set ks. 8 \<le> length k"
  shows "\<exists>sz f t xs. build_table sn (MemWritableFile junk) opt kvs (h, a) = Inr (Status_OK, sz, f) \<and>
     Table_Open unset sn MemRandomAccessFile f (None :: (nat, Block, unit) Cache option) opt sz () = Some (Inr (Status_OK, Some t, ())) \<and>
     get_all unset sn MemRandomAccessFile f (None :: (nat, Block, unit) Cache option) t options ks () = Some (Inr (xs, ())) \<and>
     list_all2 (\<lambda>k (s, saved). s = Status_OK \<and> get_ok (internal_cmp slice_compare) key_user kvs k saved) ks xs"
  using mem_internal_table.table_lookups [OF assms(1,3) internal_options_ok [OF assms(2)], of "(h, a)"] assms(4-6) by simp

definition sample_options :: TableOptions where
  "sample_options = \<lparr>to_comparator = InternalKeyComparator BytewiseComparator, to_comparator_ptr = 1, to_block_size = 16, to_block_restart_interval = 2,
     to_compression = kNoCompression, to_filter_policy = Some (InternalFilterPolicy (BloomFilterPolicy 10 6)), to_filter_name = [66]\<rparr>"

lemma sample_input: "table_input (internal_cmp slice_compare) (\<lambda>k. 8 \<le> length k) (InternalKeyComparator BytewiseComparator) sample_options sample_pairs"
    "internal_options 10 6 sample_options"
  using sample_pairs_sorted by (simp_all add: table_input_def sample_options_def internal_options_def pairs_weight_def sample_pairs_def)

theorem table_lookups_newest_witness:
  "\<exists>sz f t. build_table NoSnappy (MemWritableFile (\<lambda>_ _. 0)) sample_options sample_pairs new_file = Inr (Status_OK, sz, f) \<and>
     Table_Open 0 NoSnappy MemRandomAccessFile f (None :: (nat, Block, unit) Cache option) sample_options sz () = Some (Inr (Status_OK, Some t, ())) \<and>
     get_all 0 NoSnappy MemRandomAccessFile f (None :: (nat, Block, unit) Cache option) t ReadOptions_new [[97, 1, 4, 0, 0, 0, 0, 0, 0]] () =
       Some (Inr ([(Status_OK, Some ([97, 1, 3, 0, 0, 0, 0, 0, 0], [20]))], ()))"
proof -
  let ?k = "[97, 1, 4, 0, 0, 0, 0, 0, 0] :: bytes" and ?kv = "([97, 1, 3, 0, 0, 0, 0, 0, 0], [20]) :: bytes \<times> bytes"
  have k: "\<forall>k \<in> set [?k]. 8 \<le> length k" by simp
  have "first_from (internal_cmp slice_compare) ?k sample_pairs = Some ?kv" "key_user (fst ?kv) = key_user ?k" by code_simp+
  then have g: "get_ok (internal_cmp slice_compare) key_user sample_pairs ?k saved \<Longrightarrow> saved = Some ?kv" for saved unfolding get_ok_def by blast
  obtain sz f t xs where r: "build_table NoSnappy (MemWritableFile (\<lambda>_ _. 0)) sample_options sample_pairs new_file = Inr (Status_OK, sz, f)"
     "Table_Open 0 NoSnappy MemRandomAccessFile f (None :: (nat, Block, unit) Cache option) sample_options sz () = Some (Inr (Status_OK, Some t, ()))"
     "get_all 0 NoSnappy MemRandomAccessFile f (None :: (nat, Block, unit) Cache option) t ReadOptions_new [?k] () = Some (Inr (xs, ()))"
     "list_all2 (\<lambda>k (s, saved). s = Status_OK \<and> get_ok (internal_cmp slice_compare) key_user sample_pairs k saved) [?k] xs"
    using table_lookups_newest [OF sample_input snappy_ok_NoSnappy new_file_live k, of "\<lambda>_ _. 0" 0 ReadOptions_new] unfolding prod.collapse by (elim exE conjE) (rule that, assumption+)
  have "xs = [(Status_OK, Some ?kv)]" using r(4) g by (auto simp: list_all2_Cons1)
  then show ?thesis using r by blast
qed

text \<open>
  The offsets a table estimates for keys rise with the keys, and the offset of a key is that of the block in which the key would be.
\<close>

theorem table_offsets_monotone:
  assumes "table_input (internal_cmp slice_compare) (\<lambda>k. 8 \<le> length k) (InternalKeyComparator BytewiseComparator) opt kvs"
    and "internal_options b p opt" "snappy_ok sn" "live h a" "bytes_at h a = []" "8 \<le> length k" "8 \<le> length k'" "internal_cmp slice_compare k k' \<le> 0"
  shows "\<exists>sz f t x y. build_table sn (MemWritableFile junk) opt kvs (h, a) = Inr (Status_OK, sz, f) \<and>
     Table_Open unset sn MemRandomAccessFile f (None :: (nat, Block, unit) Cache option) opt sz () = Some (Inr (Status_OK, Some t, ())) \<and>
     ApproximateOffsetOf t k = Some (Inr x) \<and> ApproximateOffsetOf t k' = Some (Inr y) \<and> x \<le> y"
proof -
  have C: "to_comparator opt = InternalKeyComparator BytewiseComparator" using assms(1) by (simp add: table_input_def)
  obtain f blocks ixs irs footer where f: "build_table sn (MemWritableFile junk) opt kvs (h, a) = Inr (Status_OK, of_nat (length (bytes_at (fst f) (snd f))), f)" "live (fst f) (snd f)"
     "table_file (internal_cmp slice_compare) key_user (\<lambda>k. 8 \<le> length k) sn opt (bytes_at (fst f) (snd f)) blocks ixs irs footer"
    using mem_internal_table.build_table_spec [OF assms(1,3) internal_options_ok(1) [OF assms(2)], of "(h, a)" junk] assms(4,5) by (auto simp: case_prod_beta)
  let ?n = "length (bytes_at (fst f) (snd f))"
  obtain t where t: "Table_Open unset sn MemRandomAccessFile f (None :: (nat, Block, unit) Cache option) opt (of_nat ?n) () = Some (Inr (Status_OK, Some t, ()))" "opened unset opt blocks ixs irs footer t"
    using mem_random.Table_Open_spec [of f "internal_cmp slice_compare" key_user "\<lambda>k. 8 \<le> length k" sn opt blocks ixs irs footer unset "None :: (nat, Block, unit) Cache option" "()"] f(2,3) by (auto simp: case_prod_beta)
  show ?thesis
    using mem_internal_table.ApproximateOffsetOf_mono [OF C f(3) t(2) assms(6-8)] f(1) t(1) by blast
qed


end
