(* ===== verification/Ldb_Arena.thy ===== *)
theory Ldb_Arena
  imports Ldb_Format
begin

text \<open>
  Random numbers (\<^verbatim>\<open>util/random.h\<close>) and the arena (\<^verbatim>\<open>util/arena.h\<close> and \<^verbatim>\<open>util/arena.cc\<close>) of LevelDB. The generator is shown to compute the
  residue it means to; the regions that an arena hands out do not overlap, whatever addresses the allocator of the runtime returns for new blocks.
\<close>

section \<open>Random numbers\<close>

text \<open>The state of a \<open>Random\<close> is its seed. \<open>Random_Next\<close> is the new seed, which is also the number returned.\<close>

definition Random_M :: u32 where "Random_M = 2147483647"

definition Random_new :: "u32 \<Rightarrow> u32" where
  "Random_new s = (let seed = s AND 0x7fffffff in if seed = 0 \<or> seed = 2147483647 then 1 else seed)"

definition Random_Next :: "u32 \<Rightarrow> u32" where
  "Random_Next seed =
     (let product = ucast seed * 16807 :: u64;
          seed = ucast (drop_bit 31 product + (product AND ucast Random_M)) :: u32 in
      if Random_M < seed then seed - Random_M else seed)"

text \<open>The argument is converted to an unsigned number; the results are the number and the new seed.\<close>

definition Random_Uniform :: "int \<Rightarrow> u32 \<Rightarrow> (u32 \<times> u32) res" where
  "Random_Uniform n seed =
     (let seed = Random_Next seed; d = of_int n in if d = 0 then Inl Div_by_zero else Inr (seed mod d, seed))"

definition Random_OneIn :: "int \<Rightarrow> u32 \<Rightarrow> (bool \<times> u32) res" where
  "Random_OneIn n seed = bindR (Random_Uniform n seed) (\<lambda>(r, seed). Inr (r = 0, seed))"

text \<open>The shift of 1 by a number of at least 31 is undefined.\<close>

definition Random_Skewed :: "int \<Rightarrow> u32 \<Rightarrow> (u32 \<times> u32) res" where
  "Random_Skewed max_log seed =
     bindR (if int32_range (max_log + 1) then Inr (max_log + 1) else Inl Int_overflow) (\<lambda>n.
     bindR (Random_Uniform n seed) (\<lambda>(r, seed).
     if r < 31 then Random_Uniform (2 ^ unat r) seed else Inl Int_overflow))"

definition seed_ok :: "u32 \<Rightarrow> bool" where
  "seed_ok seed \<longleftrightarrow> 1 \<le> unat seed \<and> unat seed < 2 ^ 31 - 1"

lemma and_mask31: "(x :: 'a::len word) AND 2147483647 = take_bit 31 x"
proof -
  have "(2147483647 :: 'a word) = mask 31" by (simp add: mask_eq_exp_minus_1)
  then show ?thesis by (simp add: take_bit_eq_mask)
qed

lemma Random_new_ok: "seed_ok (Random_new s)"
proof -
  define t where "t = s AND 0x7fffffff"
  have "unat t < 2 ^ 31" unfolding t_def and_mask31 by (simp add: unsigned_take_bit_eq take_bit_nat_less_exp [of 31, simplified])
  then have "t \<noteq> 0 \<Longrightarrow> t \<noteq> 2147483647 \<Longrightarrow> 1 \<le> unat t \<and> unat t < 2 ^ 31 - 1"
    using word_unat_eq_iff [of t 0] word_unat_eq_iff [of t 2147483647] by simp
  then show ?thesis unfolding Random_new_def t_def [symmetric] by (simp add: seed_ok_def Let_def)
qed

text \<open>Adding the high part to the low part keeps the residue; a residue of 0 is impossible because 7 does not divide the modulus.\<close>

lemma lehmer:
  fixes s :: nat
  assumes "1 \<le> s" "s < 2 ^ 31 - 1"
  defines "f \<equiv> (s * 16807) div 2 ^ 31 + (s * 16807) mod 2 ^ 31"
  shows "(if 2 ^ 31 - 1 < f then f - (2 ^ 31 - 1) else f) = (s * 16807) mod (2 ^ 31 - 1)"
    and "(s * 16807) mod (2 ^ 31 - 1) \<noteq> 0" and "f < 2 * (2 ^ 31 - 1)"
proof -
  let ?M = "2 ^ 31 - 1 :: nat"
  have "coprime ?M (7 :: nat)"
  proof (rule coprimeI)
    fix d :: nat assume "d dvd ?M" "d dvd 7"
    then have "d dvd ?M - 7 * 306783378" by (meson dvd_diff_nat dvd_mult2)
    then show "is_unit d" by simp
  qed
  then have "coprime ?M (7 ^ 5 :: nat)" by (simp only: coprime_power_right_iff simp_thms)
  then have "coprime ?M (16807 :: nat)" by simp
  then have "?M dvd s * 16807 \<Longrightarrow> ?M dvd s" by (simp add: coprime_dvd_mult_left_iff)
  then show nz: "(s * 16807) mod ?M \<noteq> 0" using assms(1,2) nat_dvd_not_less [of s ?M] by (auto simp: dvd_eq_mod_eq_0)
  have split: "s * 16807 = (s * 16807 div 2 ^ 31) * ?M + f"
  proof -
    have "x = q * ?M + (q + r)" if "q * 2 ^ 31 + r = x" for x q r :: nat using that by simp
    then show ?thesis using div_mult_mod_eq [of "s * 16807" "2 ^ 31"] unfolding f_def .
  qed
  have q: "s * 16807 div 2 ^ 31 < 16807" using assms(2) by (simp add: div_less_iff_less_mult)
  have r: "(s * 16807) mod 2 ^ 31 < 2 ^ 31" by simp
  show f: "f < 2 * ?M" using q r unfolding f_def by simp
  have m: "(s * 16807) mod ?M = f mod ?M" using split by (metis mod_mult_self3)
  then have "f \<noteq> ?M" using nz by auto
  then show "(if ?M < f then f - ?M else f) = (s * 16807) mod ?M"
    using m f by (auto simp: mod_if [of f] mod_if [of "f - ?M"])
qed

lemma Random_Next_eq:
  assumes "seed_ok seed"
  shows "unat (Random_Next seed) = (unat seed * 16807) mod (2 ^ 31 - 1)" "seed_ok (Random_Next seed)"
proof -
  define s where "s = unat seed"
  have s: "1 \<le> s" "s < 2 ^ 31 - 1" using assms by (simp_all add: seed_ok_def s_def)
  define f where "f = (s * 16807) div 2 ^ 31 + (s * 16807) mod 2 ^ 31"
  note l = lehmer [OF s, folded f_def]
  define product where "product = (ucast seed * 16807 :: u64)"
  have up: "unat product = s * 16807"
    using s by (simp add: product_def s_def unat_word_ariths unsigned_ucast_eq take_bit_nat_eq_self)
  define w where "w = (ucast (drop_bit 31 product + (product AND ucast Random_M)) :: u32)"
  have m: "product AND ucast Random_M = take_bit 31 product"
    using and_mask31 [of product] by (simp add: Random_M_def)
  have "unat (drop_bit 31 product + take_bit 31 product) = f"
    using l(3) unfolding unat_word_ariths unsigned_take_bit_eq unat_drop up f_def
    by (simp add: take_bit_eq_mod)
  then have uw: "unat w = f" using l(3) by (simp add: w_def m unsigned_ucast_eq take_bit_nat_eq_self)
  have n: "Random_Next seed = (if Random_M < w then w - Random_M else w)"
    by (simp add: Random_Next_def product_def w_def Let_def)
  have "unat (Random_Next seed) = (if 2 ^ 31 - 1 < f then f - (2 ^ 31 - 1) else f)"
    unfolding n using uw by (auto simp: word_less_nat_alt Random_M_def unat_sub_if')
  then show e: "unat (Random_Next seed) = (unat seed * 16807) mod (2 ^ 31 - 1)" using l(1) by (simp add: s_def)
  show "seed_ok (Random_Next seed)" using e l(2) by (simp add: seed_ok_def s_def)
qed


section \<open>The arena: model\<close>

text \<open>
  An address is a number, 0 the null pointer; a size is a word of 64 bits. \<open>new_char bs n\<close> is the address that \<^verbatim>\<open>new char[n]\<close> returns when
  the arena has the blocks \<open>bs\<close>: the allocator of the C++ runtime is an argument. A block is listed with its size, which the runtime
  keeps.
\<close>

type_synonym addr = nat
type_synonym region = "addr \<times> nat"

record Arena =
  ar_alloc_ptr :: addr
  ar_alloc_bytes_remaining :: u64
  ar_blocks :: "region list"
  ar_blocks_memory :: u64

definition ar_kBlockSize :: u64 where "ar_kBlockSize = 4096"

definition Arena_new :: Arena where
  "Arena_new = \<lparr>ar_alloc_ptr = 0, ar_alloc_bytes_remaining = 0, ar_blocks = [], ar_blocks_memory = 0\<rparr>"

definition AllocateNewBlock :: "(region list \<Rightarrow> nat \<Rightarrow> addr) \<Rightarrow> u64 \<Rightarrow> Arena \<Rightarrow> addr \<times> Arena" where
  "AllocateNewBlock new_char block_bytes a =
     (let result = new_char (ar_blocks a) (unat block_bytes) in
      (result, a\<lparr>ar_blocks_memory := ar_blocks_memory a + block_bytes, ar_blocks := ar_blocks a @ [(result, unat block_bytes)]\<rparr>))"

definition AllocateFallback :: "(region list \<Rightarrow> nat \<Rightarrow> addr) \<Rightarrow> u64 \<Rightarrow> Arena \<Rightarrow> addr \<times> Arena" where
  "AllocateFallback new_char bytes a =
     (if ar_kBlockSize div 4 < bytes then AllocateNewBlock new_char bytes a
      else let (p, a) = AllocateNewBlock new_char ar_kBlockSize a;
               a = a\<lparr>ar_alloc_ptr := p, ar_alloc_bytes_remaining := ar_kBlockSize\<rparr>;
               result = ar_alloc_ptr a in
           (result, a\<lparr>ar_alloc_ptr := ar_alloc_ptr a + unat bytes,
              ar_alloc_bytes_remaining := ar_alloc_bytes_remaining a - bytes\<rparr>))"

definition Allocate :: "(region list \<Rightarrow> nat \<Rightarrow> addr) \<Rightarrow> u64 \<Rightarrow> Arena \<Rightarrow> (addr \<times> Arena) res" where
  "Allocate new_char bytes a =
     bindR (assertR (0 < bytes)) (\<lambda>_.
     Inr (if bytes \<le> ar_alloc_bytes_remaining a
          then (ar_alloc_ptr a, a\<lparr>ar_alloc_ptr := ar_alloc_ptr a + unat bytes,
                  ar_alloc_bytes_remaining := ar_alloc_bytes_remaining a - bytes\<rparr>)
          else AllocateFallback new_char bytes a))"

text \<open>A pointer has eight bytes, so \<open>align\<close> is 8; the sum of the size and the slop may wrap around.\<close>

definition AllocateAligned :: "(region list \<Rightarrow> nat \<Rightarrow> addr) \<Rightarrow> u64 \<Rightarrow> Arena \<Rightarrow> (addr \<times> Arena) res" where
  "AllocateAligned new_char bytes a =
     (let current_mod = ar_alloc_ptr a mod 8;
          slop = (if current_mod = 0 then 0 else 8 - current_mod);
          needed = bytes + of_nat slop;
          (result, a) = (if needed \<le> ar_alloc_bytes_remaining a
            then (ar_alloc_ptr a + slop, a\<lparr>ar_alloc_ptr := ar_alloc_ptr a + unat needed,
                    ar_alloc_bytes_remaining := ar_alloc_bytes_remaining a - needed\<rparr>)
            else AllocateFallback new_char bytes a) in
      bindR (assertR (result mod 8 = 0)) (\<lambda>_. Inr (result, a)))"

text \<open>\<open>capacity\<close> is the capacity of the vector of blocks.\<close>

definition MemoryUsage :: "nat \<Rightarrow> Arena \<Rightarrow> u64" where
  "MemoryUsage capacity a = ar_blocks_memory a + of_nat (capacity * 8)"

section \<open>The regions that were handed out\<close>

definition apart :: "region \<Rightarrow> region \<Rightarrow> bool" where
  "apart r s \<longleftrightarrow> fst r + snd r \<le> fst s \<or> fst s + snd s \<le> fst r"

definition inside :: "region \<Rightarrow> region \<Rightarrow> bool" where
  "inside r b \<longleftrightarrow> fst b \<le> fst r \<and> fst r + snd r \<le> fst b + snd b"

text \<open>
  What C++ says of \<^verbatim>\<open>new\<close>: the block is not null, it is aligned for every fundamental type, and it does not overlap a block that is still allocated.
\<close>

definition new_ok :: "(region list \<Rightarrow> nat \<Rightarrow> addr) \<Rightarrow> bool" where
  "new_ok new_char \<longleftrightarrow> (\<forall>bs n. 0 < n \<longrightarrow> 0 < new_char bs n \<and> new_char bs n mod 8 = 0 \<and> list_all (\<lambda>b. apart b (new_char bs n, n)) bs)"

definition free_region :: "Arena \<Rightarrow> region" where
  "free_region a = (ar_alloc_ptr a, unat (ar_alloc_bytes_remaining a))"

text \<open>The regions handed out, and the rest of the current block behind them, lie in the blocks and do not overlap.\<close>

definition arena_inv :: "Arena \<Rightarrow> region list \<Rightarrow> bool" where
  "arena_inv a rs \<longleftrightarrow> list_all (\<lambda>r. 0 < fst r \<and> 0 < snd r \<and> list_ex (inside r) (ar_blocks a)) rs
     \<and> sorted_wrt apart rs
     \<and> (snd (free_region a) = 0
         \<or> 0 < ar_alloc_ptr a \<and> list_ex (inside (free_region a)) (ar_blocks a) \<and> list_all (apart (free_region a)) rs)"

lemma apart_sym: "apart r s \<longleftrightarrow> apart s r"
  by (auto simp: apart_def)

lemma apart_inside: "apart b x \<Longrightarrow> inside r b \<Longrightarrow> apart r x"
  by (auto simp: apart_def inside_def)

lemma inside_trans: "inside r s \<Longrightarrow> inside s b \<Longrightarrow> inside r b"
  by (auto simp: inside_def)

lemma Arena_new_inv: "arena_inv Arena_new []"
  by (simp add: arena_inv_def Arena_new_def free_region_def)

text \<open>A part of the free region is handed out, after a gap.\<close>

lemma arena_take:
  assumes inv: "arena_inv a rs" and n: "0 < n" and fit: "g + n \<le> unat (ar_alloc_bytes_remaining a)"
    and a': "ar_alloc_ptr a' = ar_alloc_ptr a + (g + n)" "unat (ar_alloc_bytes_remaining a') = unat (ar_alloc_bytes_remaining a) - (g + n)"
      "ar_blocks a' = ar_blocks a"
  shows "arena_inv a' ((ar_alloc_ptr a + g, n) # rs)"
proof -
  let ?f = "free_region a"
  have f: "fst ?f = ar_alloc_ptr a" "snd ?f = unat (ar_alloc_bytes_remaining a)" by (simp_all add: free_region_def)
  have ff: "0 < ar_alloc_ptr a" "list_ex (inside ?f) (ar_blocks a)" "list_all (apart ?f) rs"
    using inv n fit f unfolding arena_inv_def by auto
  have i: "inside (ar_alloc_ptr a + g, n) ?f" "inside (free_region a') ?f" "apart (free_region a') (ar_alloc_ptr a + g, n)"
    using a' fit f by (auto simp: inside_def apart_def free_region_def)
  have up: "list_ex (inside r) (ar_blocks a)" if "inside r ?f" for r
    using ff(2) inside_trans [OF that] by (auto simp: list_ex_iff)
  have d: "list_all (apart r) rs" if "inside r ?f" for r
    using ff(3) apart_inside [OF _ that] by (auto simp: list_all_iff)
  show ?thesis using inv i up [OF i(1)] up [OF i(2)] d [OF i(1)] d [OF i(2)] n ff(1) a'(1,3)
    unfolding arena_inv_def by (simp add: list_all_iff free_region_def)
qed

text \<open>A new block is handed out, or becomes the current one.\<close>

lemma new_block:
  assumes new: "new_ok new_char" and inv: "arena_inv a rs" and n: "0 < n" and "AllocateNewBlock new_char n a = (p, a1)"
  shows "arena_inv a1 ((p, unat n) # rs)" "arena_inv (a1\<lparr>ar_alloc_ptr := p, ar_alloc_bytes_remaining := n\<rparr>) rs" "p mod 8 = 0" "0 < p"
proof -
  have n0: "0 < unat n" using n by (simp add: word_less_nat_alt)
  have p: "p = new_char (ar_blocks a) (unat n)" "ar_blocks a1 = ar_blocks a @ [(p, unat n)]"
    "ar_alloc_ptr a1 = ar_alloc_ptr a" "ar_alloc_bytes_remaining a1 = ar_alloc_bytes_remaining a"
    using assms(4) by (auto simp: AllocateNewBlock_def Let_def)
  have q: "0 < p" "p mod 8 = 0" "list_all (\<lambda>b. apart b (p, unat n)) (ar_blocks a)" using new n0 unfolding new_ok_def p(1) by blast+
  have d: "apart r (p, unat n)" if "list_ex (inside r) (ar_blocks a)" for r
    using that q(3) apart_inside [of _ "(p, unat n)" r] by (auto simp: list_ex_iff list_all_iff)
  have r: "list_all (\<lambda>r. apart r (p, unat n)) rs" using inv d unfolding arena_inv_def by (simp add: list_all_iff)
  have self: "inside (p, unat n) (p, unat n)" by (simp add: inside_def)
  have f1: "free_region a1 = free_region a" by (simp add: free_region_def p(3,4))
  have f: "snd (free_region a) = 0 \<or> apart (free_region a) (p, unat n)" using inv d [of "free_region a"] unfolding arena_inv_def by blast
  show "p mod 8 = 0" "0 < p" by (fact q)+
  show "arena_inv a1 ((p, unat n) # rs)"
    using inv q(1) n0 self r f unfolding arena_inv_def f1 p(2,3) by (auto simp: list_all_iff apart_sym [of "(p, unat n)"])
  show "arena_inv (a1\<lparr>ar_alloc_ptr := p, ar_alloc_bytes_remaining := n\<rparr>) rs"
    using inv q(1) self r unfolding arena_inv_def by (auto simp: list_all_iff free_region_def p(2) apart_sym [of "(p, unat n)"])
qed

lemma AllocateFallback_spec:
  assumes "new_ok new_char" "arena_inv a rs" "0 < n" "AllocateFallback new_char n a = (p, a1)"
  shows "arena_inv a1 ((p, unat n) # rs)" "p mod 8 = 0"
proof -
  have "arena_inv a1 ((p, unat n) # rs) \<and> p mod 8 = 0"
  proof (cases "ar_kBlockSize div 4 < n")
    case True
    then show ?thesis using assms(4) new_block [OF assms(1,2,3)] by (simp add: AllocateFallback_def)
  next
    case False
    obtain q a2 where q: "AllocateNewBlock new_char ar_kBlockSize a = (q, a2)" by fastforce
    note b = new_block [OF assms(1,2) _ q]
    have n: "0 < unat n" "unat n \<le> 1024" using assms(3) False by (simp_all add: word_less_nat_alt ar_kBlockSize_def)
    have e: "p = q" "a1 = a2\<lparr>ar_alloc_ptr := q + unat n, ar_alloc_bytes_remaining := ar_kBlockSize - n\<rparr>"
      using assms(4) False q by (auto simp: AllocateFallback_def Let_def)
    have "unat (ar_kBlockSize - n) = 4096 - unat n" using n by (simp add: ar_kBlockSize_def unat_sub_if')
    then have "arena_inv a1 ((q + 0, unat n) # rs)"
      using arena_take [OF b(2) n(1), of 0 a1] n e by (simp add: ar_kBlockSize_def)
    then show ?thesis using b(3) e by (simp add: ar_kBlockSize_def)
  qed
  then show "arena_inv a1 ((p, unat n) # rs)" "p mod 8 = 0" by blast+
qed

lemma Allocate_spec:
  assumes "new_ok new_char" "arena_inv a rs" "0 < n"
  shows "\<exists>p a1. Allocate new_char n a = Inr (p, a1) \<and> arena_inv a1 ((p, unat n) # rs)"
proof (cases "n \<le> ar_alloc_bytes_remaining a")
  case True
  have n: "0 < unat n" using assms(3) by (simp add: word_less_nat_alt)
  show ?thesis using True arena_take [OF assms(2) n, of 0] assms(3)
    by (simp add: Allocate_def word_le_nat_alt unat_sub_if')
next
  case False
  then show ?thesis using AllocateFallback_spec(1) [OF assms] assms(3)
    by (cases "AllocateFallback new_char n a") (simp add: Allocate_def)
qed

lemma AllocateAligned_spec:
  assumes "new_ok new_char" "arena_inv a rs" "0 < n" "unat n < 2 ^ 63"
  shows "\<exists>p a1. AllocateAligned new_char n a = Inr (p, a1) \<and> arena_inv a1 ((p, unat n) # rs) \<and> p mod 8 = 0"
proof -
  define g where "g = (if ar_alloc_ptr a mod 8 = 0 then 0 else 8 - ar_alloc_ptr a mod 8)"
  have g: "g < 8" "(ar_alloc_ptr a + g) mod 8 = 0" unfolding g_def by (auto simp: mod_simps) presburger+
  have n: "0 < unat n" using assms(3) by (simp add: word_less_nat_alt)
  have u: "unat (n + of_nat g) = unat n + g" using assms(4) g(1) by (simp add: unat_word_ariths unsigned_of_nat take_bit_nat_eq_self)
  show ?thesis
  proof (cases "n + of_nat g \<le> ar_alloc_bytes_remaining a")
    case True
    then show ?thesis using arena_take [OF assms(2) n, of g] g u
      unfolding AllocateAligned_def g_def [symmetric] Let_def by (simp add: word_le_nat_alt unat_sub_if' add.commute)
  next
    case False
    then show ?thesis using AllocateFallback_spec [OF assms(1,2,3)]
      unfolding AllocateAligned_def g_def [symmetric] Let_def by (cases "AllocateFallback new_char n a") simp
  qed
qed

text \<open>The addresses handed out are different.\<close>

lemma arena_fresh:
  assumes "arena_inv a ((p, n) # rs)"
  shows "0 < p" "p \<notin> fst ` set rs"
proof -
  have r: "0 < p" "0 < n" "\<forall>r \<in> set rs. 0 < snd r \<and> apart (p, n) r" using assms unfolding arena_inv_def by (auto simp: list_all_iff)
  then show "0 < p" by blast
  show "p \<notin> fst ` set rs"
  proof
    assume "p \<in> fst ` set rs"
    then obtain r' where "r' \<in> set rs" "fst r' = p" by auto
    then show False using r by (auto simp: apart_def)
  qed
qed


end
