(* ===== verification/Ldb_Skiplist.thy ===== *)
theory Ldb_Skiplist
  imports Ldb_Arena Ldb_Block_Iter
begin

text \<open>
  The skip list (\<^verbatim>\<open>db/skiplist.h\<close>), with its nodes in a memory of linked cells: the model, and the searches. The invariant places all nodes on one path in the order of their keys
  and says on how many levels each of them is linked, so that it also describes a list in the middle of an insertion. In the locale \<open>skip_order\<close>, the
  contract of the comparison, every search returns and finds the right node. The comparison of the entries of a memory table meets the contract (theory \<open>Ldb_Memtable\<close>).
\<close>

section \<open>Nodes: model\<close>

text \<open>
  A node has a key and an array with its links, as long as it is high; a link that was never stored is \<open>None\<close>. The nodes are a map from
  addresses. An atomic pointer is a memory cell: a load and a store, with or without a barrier, is one access to it.
\<close>

record 'k Node =
  n_key :: 'k
  n_next :: "addr option list"

record 'k SkipList =
  sl_nodes :: "addr \<rightharpoonup> 'k Node"
  sl_head :: addr
  sl_max_height :: int
  sl_rnd :: u32

definition kMaxHeight :: int where "kMaxHeight = 12"

definition node_at :: "'k SkipList \<Rightarrow> addr \<Rightarrow> 'k Node res" where
  "node_at s x = (if x = 0 then Inl Null_deref else case sl_nodes s x of Some n \<Rightarrow> Inr n | None \<Rightarrow> Inl Dangling)"

definition Node_Next :: "'k SkipList \<Rightarrow> addr \<Rightarrow> int \<Rightarrow> addr res" where
  "Node_Next s x n =
     bindR (assertR (0 \<le> n)) (\<lambda>_.
     bindR (node_at s x) (\<lambda>node.
     bindR (nth_res (n_next node) n) (\<lambda>p. case p of Some p \<Rightarrow> Inr p | None \<Rightarrow> Inl Uninitialised)))"

definition Node_SetNext :: "'k SkipList \<Rightarrow> addr \<Rightarrow> int \<Rightarrow> addr \<Rightarrow> 'k SkipList res" where
  "Node_SetNext s x n p =
     bindR (assertR (0 \<le> n)) (\<lambda>_.
     bindR (node_at s x) (\<lambda>node.
     bindR (upd_res (n_next node) n (Some p)) (\<lambda>links.
     Inr (s\<lparr>sl_nodes := (sl_nodes s)(x \<mapsto> node\<lparr>n_next := links\<rparr>)\<rparr>))))"

text \<open>A key and an atomic pointer have eight bytes each.\<close>

definition NewNode :: "(region list \<Rightarrow> nat \<Rightarrow> addr) \<Rightarrow> 'k \<Rightarrow> int \<Rightarrow> 'k SkipList \<Rightarrow> Arena \<Rightarrow> (addr \<times> 'k SkipList \<times> Arena) res" where
  "NewNode new_char key height s arena =
     bindR (AllocateAligned new_char (16 + 8 * of_int (height - 1)) arena) (\<lambda>(mem, arena).
     Inr (mem, s\<lparr>sl_nodes := (sl_nodes s)(mem \<mapsto> \<lparr>n_key = key, n_next = replicate (nat height) None\<rparr>)\<rparr>, arena))"

text \<open>The constructor: \<open>zero\<close> is the key 0, of which the code says that any key will do.\<close>

fun clear_links :: "int \<Rightarrow> nat \<Rightarrow> 'k SkipList \<Rightarrow> 'k SkipList res" where
  "clear_links i 0 s = Inr s"
| "clear_links i (Suc n) s = bindR (Node_SetNext s (sl_head s) i 0) (\<lambda>s. clear_links (i + 1) n s)"

definition SkipList_new :: "(region list \<Rightarrow> nat \<Rightarrow> addr) \<Rightarrow> 'k \<Rightarrow> Arena \<Rightarrow> ('k SkipList \<times> Arena) res" where
  "SkipList_new new_char zero arena =
     bindR (NewNode new_char zero kMaxHeight \<lparr>sl_nodes = Map.empty, sl_head = 0, sl_max_height = 0, sl_rnd = 0\<rparr> arena) (\<lambda>(head, s, arena).
     let s = s\<lparr>sl_head := head, sl_max_height := 1, sl_rnd := Random_new 0xdeadbeef\<rparr> in
     bindR (clear_links 0 (nat kMaxHeight) s) (\<lambda>s. Inr (s, arena)))"

function RandomHeight_loop :: "int \<Rightarrow> u32 \<Rightarrow> int \<times> u32" where
  "RandomHeight_loop height seed =
     (if height < kMaxHeight
      then let seed = Random_Next seed in if seed mod 4 = 0 then RandomHeight_loop (height + 1) seed else (height, seed)
      else (height, seed))"
  by pat_completeness auto
termination
  by (relation "measure (\<lambda>(height, seed). nat (kMaxHeight - height))") auto

declare RandomHeight_loop.simps [simp del]

definition RandomHeight :: "'k SkipList \<Rightarrow> (int \<times> 'k SkipList) res" where
  "RandomHeight s =
     (let (height, seed) = RandomHeight_loop 1 (sl_rnd s) in
      bindR (assertR (0 < height)) (\<lambda>_. bindR (assertR (height \<le> kMaxHeight)) (\<lambda>_. Inr (height, s\<lparr>sl_rnd := seed\<rparr>))))"

section \<open>Searching: model\<close>

text \<open>A loop \<^verbatim>\<open>while (true)\<close>: the body gives the next state, or the result of a return.\<close>

partial_function (option) forever :: "('s \<Rightarrow> ('s + 'r) res) \<Rightarrow> 's \<Rightarrow> 'r res option" where
  "forever body st =
     (case body st of Inl e \<Rightarrow> Some (Inl e) | Inr (Inl st) \<Rightarrow> forever body st | Inr (Inr r) \<Rightarrow> Some (Inr r))"

definition KeyIsAfterNode :: "('k \<Rightarrow> 'k \<Rightarrow> int res) \<Rightarrow> 'k SkipList \<Rightarrow> 'k \<Rightarrow> addr \<Rightarrow> bool res" where
  "KeyIsAfterNode compare s key n =
     (if n \<noteq> 0 then bindR (node_at s n) (\<lambda>node. bindR (compare (n_key node) key) (\<lambda>c. Inr (c < 0))) else Inr False)"

text \<open>
  The array \<open>prev\<close> is \<open>None\<close> when the pointer is null; an entry that was not stored is \<open>None\<close>.
\<close>

type_synonym search = "addr \<times> int \<times> addr option list option"

definition fge_body :: "('k \<Rightarrow> 'k \<Rightarrow> int res) \<Rightarrow> 'k SkipList \<Rightarrow> 'k \<Rightarrow> search \<Rightarrow> (search + addr \<times> addr option list option) res" where
  "fge_body compare s key st =
     (case st of (x, level, prev) \<Rightarrow>
        bindR (Node_Next s x level) (\<lambda>nxt.
        bindR (KeyIsAfterNode compare s key nxt) (\<lambda>after.
        if after then Inr (Inl (nxt, level, prev))
        else bindR (case prev of Some a \<Rightarrow> bindR (upd_res a level (Some x)) (\<lambda>a. Inr (Some a)) | None \<Rightarrow> Inr None) (\<lambda>prev.
             Inr (if level = 0 then Inr (nxt, prev) else Inl (x, level - 1, prev))))))"

definition FindGreaterOrEqual :: "('k \<Rightarrow> 'k \<Rightarrow> int res) \<Rightarrow> 'k SkipList \<Rightarrow> 'k \<Rightarrow> addr option list option \<Rightarrow> (addr \<times> addr option list option) res option" where
  "FindGreaterOrEqual compare s key prev = forever (fge_body compare s key) (sl_head s, sl_max_height s - 1, prev)"

definition flt_body :: "('k \<Rightarrow> 'k \<Rightarrow> int res) \<Rightarrow> 'k SkipList \<Rightarrow> 'k \<Rightarrow> addr \<times> int \<Rightarrow> (addr \<times> int + addr) res" where
  "flt_body compare s key st =
     (case st of (x, level) \<Rightarrow>
        bindR (if x = sl_head s then Inr True
               else bindR (node_at s x) (\<lambda>node. bindR (compare (n_key node) key) (\<lambda>c. Inr (c < 0)))) (\<lambda>ok.
        bindR (assertR ok) (\<lambda>_.
        bindR (Node_Next s x level) (\<lambda>nxt.
        bindR (if nxt = 0 then Inr True
               else bindR (node_at s nxt) (\<lambda>node. bindR (compare (n_key node) key) (\<lambda>c. Inr (0 \<le> c)))) (\<lambda>stop.
        Inr (if stop then (if level = 0 then Inr x else Inl (x, level - 1)) else Inl (nxt, level)))))))"

definition FindLessThan :: "('k \<Rightarrow> 'k \<Rightarrow> int res) \<Rightarrow> 'k SkipList \<Rightarrow> 'k \<Rightarrow> addr res option" where
  "FindLessThan compare s key = forever (flt_body compare s key) (sl_head s, sl_max_height s - 1)"

definition last_body :: "'k SkipList \<Rightarrow> addr \<times> int \<Rightarrow> (addr \<times> int + addr) res" where
  "last_body s st =
     (case st of (x, level) \<Rightarrow>
        bindR (Node_Next s x level) (\<lambda>nxt.
        Inr (if nxt = 0 then (if level = 0 then Inr x else Inl (x, level - 1)) else Inl (nxt, level))))"

definition FindLast :: "'k SkipList \<Rightarrow> addr res option" where
  "FindLast s = forever (last_body s) (sl_head s, sl_max_height s - 1)"

section \<open>Inserting: model\<close>

text \<open>
  \<open>Insert\<close> in the order of its accesses to memory that other threads read: the search, which stores nothing; the height, with the store of
  \<open>max_height_\<close>; the new node; and for every level a store into the new node and then one that publishes it.
\<close>

definition Insert_find :: "('k \<Rightarrow> 'k \<Rightarrow> int res) \<Rightarrow> 'k \<Rightarrow> 'k SkipList \<Rightarrow> addr option list res option" where
  "Insert_find compare key s =
     bindO (FindGreaterOrEqual compare s key (Some (replicate (nat kMaxHeight) None))) (\<lambda>(x, prev). Some (
     bindR (if x = 0 then Inr True else bindR (node_at s x) (\<lambda>node. bindR (compare key (n_key node)) (\<lambda>c. Inr (c \<noteq> 0)))) (\<lambda>ok.
     bindR (assertR ok) (\<lambda>_. case prev of Some prev \<Rightarrow> Inr prev | None \<Rightarrow> Inl Null_deref))))"

fun head_prevs :: "addr \<Rightarrow> int \<Rightarrow> nat \<Rightarrow> addr option list \<Rightarrow> addr option list res" where
  "head_prevs head i 0 prev = Inr prev"
| "head_prevs head i (Suc n) prev = bindR (upd_res prev i (Some head)) (\<lambda>prev. head_prevs head (i + 1) n prev)"

definition Insert_height :: "addr option list \<Rightarrow> 'k SkipList \<Rightarrow> (int \<times> addr option list \<times> 'k SkipList) res" where
  "Insert_height prev s =
     bindR (RandomHeight s) (\<lambda>(height, s).
     if sl_max_height s < height
     then bindR (head_prevs (sl_head s) (sl_max_height s) (nat (height - sl_max_height s)) prev) (\<lambda>prev.
          Inr (height, prev, s\<lparr>sl_max_height := height\<rparr>))
     else Inr (height, prev, s))"

definition prev_at :: "addr option list \<Rightarrow> int \<Rightarrow> addr res" where
  "prev_at prev i = bindR (nth_res prev i) (\<lambda>p. case p of Some p \<Rightarrow> Inr p | None \<Rightarrow> Inl Uninitialised)"

definition link_node :: "addr option list \<Rightarrow> addr \<Rightarrow> int \<Rightarrow> 'k SkipList \<Rightarrow> 'k SkipList res" where
  "link_node prev x i s =
     bindR (prev_at prev i) (\<lambda>p. bindR (Node_Next s p i) (\<lambda>nxt. Node_SetNext s x i nxt))"

definition publish_node :: "addr option list \<Rightarrow> addr \<Rightarrow> int \<Rightarrow> 'k SkipList \<Rightarrow> 'k SkipList res" where
  "publish_node prev x i s = bindR (prev_at prev i) (\<lambda>p. Node_SetNext s p i x)"

fun link_levels :: "addr option list \<Rightarrow> addr \<Rightarrow> int \<Rightarrow> nat \<Rightarrow> 'k SkipList \<Rightarrow> 'k SkipList res" where
  "link_levels prev x i 0 s = Inr s"
| "link_levels prev x i (Suc n) s =
     bindR (link_node prev x i s) (\<lambda>s. bindR (publish_node prev x i s) (\<lambda>s. link_levels prev x (i + 1) n s))"

definition sl_Insert :: "(region list \<Rightarrow> nat \<Rightarrow> addr) \<Rightarrow> ('k \<Rightarrow> 'k \<Rightarrow> int res) \<Rightarrow> 'k \<Rightarrow> 'k SkipList \<Rightarrow> Arena \<Rightarrow> ('k SkipList \<times> Arena) res option" where
  "sl_Insert new_char compare key s arena =
     bindO (Insert_find compare key s) (\<lambda>prev. Some (
     bindR (Insert_height prev s) (\<lambda>(height, prev, s).
     bindR (NewNode new_char key height s arena) (\<lambda>(x, s, arena).
     bindR (link_levels prev x 0 (nat height) s) (\<lambda>s. Inr (s, arena))))))"

definition sl_Contains :: "('k \<Rightarrow> 'k \<Rightarrow> int res) \<Rightarrow> 'k SkipList \<Rightarrow> 'k \<Rightarrow> bool res option" where
  "sl_Contains compare s key =
     bindO (FindGreaterOrEqual compare s key None) (\<lambda>(x, _). Some (
     if x \<noteq> 0 then bindR (node_at s x) (\<lambda>node. bindR (compare key (n_key node)) (\<lambda>c. Inr (c = 0))) else Inr False))"

section \<open>The iterator: model\<close>

text \<open>An iterator is the address \<open>node_\<close>; it is not valid at the null pointer, where it starts.\<close>

definition sli_key :: "'k SkipList \<Rightarrow> addr \<Rightarrow> 'k res" where
  "sli_key s it = bindR (assertR (it \<noteq> 0)) (\<lambda>_. bindR (node_at s it) (\<lambda>node. Inr (n_key node)))"

definition sli_Next :: "'k SkipList \<Rightarrow> addr \<Rightarrow> addr res" where
  "sli_Next s it = bindR (assertR (it \<noteq> 0)) (\<lambda>_. Node_Next s it 0)"

definition sli_Prev :: "('k \<Rightarrow> 'k \<Rightarrow> int res) \<Rightarrow> 'k SkipList \<Rightarrow> addr \<Rightarrow> addr res option" where
  "sli_Prev compare s it =
     bindO (Some (sli_key s it)) (\<lambda>key.
     bindO (FindLessThan compare s key) (\<lambda>x. Some (Inr (if x = sl_head s then 0 else x))))"

definition sli_Seek :: "('k \<Rightarrow> 'k \<Rightarrow> int res) \<Rightarrow> 'k SkipList \<Rightarrow> 'k \<Rightarrow> addr res option" where
  "sli_Seek compare s target = bindO (FindGreaterOrEqual compare s target None) (\<lambda>(x, _). Some (Inr x))"

definition sli_SeekToFirst :: "'k SkipList \<Rightarrow> addr res" where
  "sli_SeekToFirst s = Node_Next s (sl_head s) 0"

definition sli_SeekToLast :: "'k SkipList \<Rightarrow> addr res option" where
  "sli_SeekToLast s = bindO (FindLast s) (\<lambda>x. Some (Inr (if x = sl_head s then 0 else x)))"


section \<open>Loops\<close>

lemma forever_rule:
  assumes "I (n :: nat) st"
    and step: "\<And>n st. I n st \<Longrightarrow> \<exists>r. body st = Inr r \<and> (case r of Inl st' \<Rightarrow> \<exists>n' < n. I n' st' | Inr y \<Rightarrow> Q y)"
  shows "\<exists>y. forever body st = Some (Inr y) \<and> Q y"
  using assms(1)
proof (induction n arbitrary: st rule: less_induct)
  case (less n)
  obtain r where r: "body st = Inr r" "case r of Inl st' \<Rightarrow> \<exists>n' < n. I n' st' | Inr y \<Rightarrow> Q y" using step [OF less.prems] by blast
  show ?case
  proof (cases r)
    case (Inl st')
    then have "\<exists>y. forever body st' = Some (Inr y) \<and> Q y" using r(2) less.IH by auto
    then show ?thesis using r(1) Inl by (subst forever.simps) simp
  next
    case (Inr y)
    then show ?thesis using r by (subst forever.simps) simp
  qed
qed

section \<open>The links\<close>

text \<open>
  The nodes lie on one path, in the order of their keys. A node is linked on the levels below \<open>lev a\<close>: there its link goes to the next node of the
  path that is linked on this level. A node that is on no level is on the path but not in the list.
\<close>

definition first_at :: "(addr \<Rightarrow> nat) \<Rightarrow> nat \<Rightarrow> addr list \<Rightarrow> addr" where
  "first_at lev i as = (case find (\<lambda>a. i < lev a) as of Some a \<Rightarrow> a | None \<Rightarrow> 0)"

definition keyof :: "'k SkipList \<Rightarrow> addr \<Rightarrow> 'k" where
  "keyof s a = n_key (the (sl_nodes s a))"

definition link :: "'k SkipList \<Rightarrow> addr \<Rightarrow> nat \<Rightarrow> addr option" where
  "link s a i = n_next (the (sl_nodes s a)) ! i"

definition height :: "'k SkipList \<Rightarrow> addr \<Rightarrow> nat" where
  "height s a = length (n_next (the (sl_nodes s a)))"

fun linked :: "'k SkipList \<Rightarrow> (addr \<Rightarrow> nat) \<Rightarrow> addr list \<Rightarrow> bool" where
  "linked s lev [] \<longleftrightarrow> True"
| "linked s lev (a # as) \<longleftrightarrow> (\<forall>i < lev a. link s a i = Some (first_at lev i as)) \<and> linked s lev as"

definition links_inv :: "'k SkipList \<Rightarrow> addr list \<Rightarrow> (addr \<Rightarrow> nat) \<Rightarrow> bool" where
  "links_inv s ns lev \<longleftrightarrow> distinct (sl_head s # ns) \<and> 0 \<notin> set (sl_head s # ns) \<and> set (sl_head s # ns) \<subseteq> dom (sl_nodes s)
     \<and> (\<forall>a \<in> set (sl_head s # ns). lev a \<le> height s a) \<and> lev (sl_head s) = 12 \<and> linked s lev (sl_head s # ns)
     \<and> 1 \<le> sl_max_height s \<and> sl_max_height s \<le> kMaxHeight \<and> (\<forall>a \<in> set ns. int (lev a) \<le> sl_max_height s)"

lemma linked_append: "linked s lev (as @ bs) \<Longrightarrow> linked s lev bs"
  by (induction as) auto

lemma linked_at: "linked s lev (as @ a # bs) \<Longrightarrow> i < lev a \<Longrightarrow> link s a i = Some (first_at lev i bs)"
  using linked_append [of s lev as "a # bs"] by simp

lemma linkedI:
  "(\<And>bs a cs i. as = bs @ a # cs \<Longrightarrow> i < lev a \<Longrightarrow> link s a i = Some (first_at lev i cs)) \<Longrightarrow> linked s lev as"
proof (induction as)
  case (Cons x as)
  have "linked s lev as"
  proof (rule Cons.IH)
    fix bs a cs i assume "as = bs @ a # cs" "i < lev a"
    then show "link s a i = Some (first_at lev i cs)" using Cons.prems [of "x # bs" a cs i] by simp
  qed
  then show ?case using Cons.prems [of "[]" x as] by simp
qed simp

lemma first_at_Cons: "first_at lev i (a # as) = (if i < lev a then a else first_at lev i as)"
  by (simp add: first_at_def)

lemma first_at_Nil: "first_at lev i [] = 0"
  by (simp add: first_at_def)

lemma first_at_skip: "\<forall>a \<in> set as. lev a \<le> i \<Longrightarrow> first_at lev i (as @ bs) = first_at lev i bs"
  by (induction as) (auto simp: first_at_Cons)

lemma first_at_hit: "a \<in> set as \<Longrightarrow> i < lev a \<Longrightarrow> first_at lev i (as @ bs) = first_at lev i as"
  by (induction as) (auto simp: first_at_Cons)

lemma first_at_cong: "\<forall>a \<in> set as. i < lev a \<longleftrightarrow> i < lev' a \<Longrightarrow> first_at lev i as = first_at lev' i as"
  by (induction as) (auto simp: first_at_Cons first_at_Nil)

text \<open>Either there is no further node on the level, or the first one splits the rest of the path.\<close>

lemma first_at_cases:
  assumes "0 \<notin> set as"
  obtains (none) "first_at lev i as = 0" "\<forall>a \<in> set as. lev a \<le> i"
  | (some) bs a cs where "as = bs @ a # cs" "first_at lev i as = a" "i < lev a" "\<forall>b \<in> set bs. lev b \<le> i" "a \<noteq> 0"
proof (cases "find (\<lambda>a. i < lev a) as")
  case None
  have "first_at lev i as = 0" using None by (simp add: first_at_def)
  moreover have "\<forall>a \<in> set as. lev a \<le> i" using None by (auto simp: find_None_iff not_less)
  ultimately show thesis by (rule none)
next
  case (Some a)
  then obtain k where k: "k < length as" "i < lev (as ! k)" "a = as ! k" "\<forall>j<k. \<not> i < lev (as ! j)"
    by (auto simp: find_Some_iff)
  show thesis
  proof (rule some)
    show "as = take k as @ a # drop (Suc k) as" using k by (simp add: id_take_nth_drop)
    show "\<forall>b \<in> set (take k as). lev b \<le> i" using k by (auto simp: in_set_conv_nth not_less)
    show "a \<noteq> 0" using assms k nth_mem [of k as] by metis
  qed (use Some k in \<open>auto simp: first_at_def\<close>)
qed

lemma node_at_eq: "x \<noteq> 0 \<Longrightarrow> x \<in> dom (sl_nodes s) \<Longrightarrow> node_at s x = Inr (the (sl_nodes s x))"
  by (auto simp: node_at_def)

text \<open>Following a link of the path.\<close>

lemma Next_on_path:
  assumes inv: "links_inv s ns lev" and path: "sl_head s # ns = pre @ x # post" and i: "i < lev x"
  shows "Node_Next s x (int i) = Inr (first_at lev i post)"
proof -
  have x: "x \<in> set (sl_head s # ns)" using path by simp
  have d: "x \<noteq> 0" "x \<in> dom (sl_nodes s)" "lev x \<le> height s x" using inv x unfolding links_inv_def by (metis, blast, metis)
  have "linked s lev (pre @ x # post)" using inv path unfolding links_inv_def by metis
  then have "link s x i = Some (first_at lev i post)" using i by (rule linked_at)
  then show ?thesis using i d by (simp add: Node_Next_def node_at_eq nth_res_def link_def height_def)
qed

section \<open>The order of the keys\<close>

text \<open>What a skip list relies on: on the keys for which \<open>ok\<close> holds, \<open>compare_\<close> returns the sign of a total preorder.\<close>

locale skip_order = three_way cmp ok for cmp :: "'k \<Rightarrow> 'k \<Rightarrow> int" and ok +
  fixes compare :: "'k \<Rightarrow> 'k \<Rightarrow> int res"
  assumes compare_eq: "ok a \<Longrightarrow> ok b \<Longrightarrow> compare a b = Inr (cmp a b)"

definition ordered :: "('k \<Rightarrow> 'k \<Rightarrow> int) \<Rightarrow> ('k \<Rightarrow> bool) \<Rightarrow> 'k list \<Rightarrow> bool" where
  "ordered cmp ok ks \<longleftrightarrow> list_all ok ks \<and> sorted_wrt (\<lambda>a b. cmp a b < 0) ks"

text \<open>
  A position \<open>x\<close> of a search for \<open>key\<close>: the nodes up to \<open>x\<close>, except the head, are before the key; \<open>stops\<close> says that on the level the next one is not.
\<close>

definition before :: "('k \<Rightarrow> 'k \<Rightarrow> int) \<Rightarrow> 'k SkipList \<Rightarrow> 'k \<Rightarrow> addr \<Rightarrow> bool" where
  "before cmp s key a \<longleftrightarrow> cmp (keyof s a) key < 0"

definition search_at :: "(addr \<Rightarrow> bool) \<Rightarrow> 'k SkipList \<Rightarrow> addr list \<Rightarrow> (addr \<Rightarrow> nat) \<Rightarrow> addr \<Rightarrow> nat \<Rightarrow> addr list \<Rightarrow> bool" where
  "search_at P s ns lev x i post \<longleftrightarrow> i < lev x \<and> (\<exists>pre. sl_head s # ns = pre @ x # post \<and> (\<forall>a \<in> set (pre @ [x]). a \<noteq> sl_head s \<longrightarrow> P a))"

definition stops :: "(addr \<Rightarrow> bool) \<Rightarrow> 'k SkipList \<Rightarrow> addr list \<Rightarrow> (addr \<Rightarrow> nat) \<Rightarrow> nat \<Rightarrow> addr \<Rightarrow> bool" where
  "stops P s ns lev i x \<longleftrightarrow> (\<exists>post. search_at P s ns lev x i post \<and> (\<forall>b \<in> set post. i < lev b \<longrightarrow> \<not> P b))"

text \<open>\<open>P\<close> holds for a first part of the path.\<close>

definition prefix_pred :: "(addr \<Rightarrow> bool) \<Rightarrow> addr list \<Rightarrow> bool" where
  "prefix_pred P ns \<longleftrightarrow> sorted_wrt (\<lambda>a b. P b \<longrightarrow> P a) ns"

lemma search_at_next:
  assumes inv: "links_inv s ns lev" and P: "prefix_pred P ns" and at: "search_at P s ns lev x i post"
  obtains (none) "Node_Next s x (int i) = Inr 0" "stops P s ns lev i x" "i = 0 \<Longrightarrow> \<forall>b \<in> set post. lev b = 0"
  | (stay) n bs cs where "Node_Next s x (int i) = Inr n" "n \<noteq> 0" "n \<in> set ns" "post = bs @ n # cs" "\<forall>b \<in> set bs. lev b \<le> i" "i < lev n" "\<not> P n"
      "stops P s ns lev i x" "\<forall>b \<in> set (n # cs). \<not> P b"
  | (move) n post' where "Node_Next s x (int i) = Inr n" "n \<noteq> 0" "n \<in> set ns" "P n" "search_at P s ns lev n i post'" "length post' < length post"
proof -
  obtain pre where path: "sl_head s # ns = pre @ x # post" and i: "i < lev x"
    and pre: "\<forall>a \<in> set (pre @ [x]). a \<noteq> sl_head s \<longrightarrow> P a"
    using at unfolding search_at_def by blast
  have nz: "0 \<notin> set post" using inv path unfolding links_inv_def by (metis Un_iff list.set_intros(2) set_append)
  have sub: "\<exists>as. ns = as @ post"
    using path by (cases pre) auto
  note nx = Next_on_path [OF inv path i]
  from nz show thesis
  proof (cases rule: first_at_cases [of post lev i])
    case none
    have "stops P s ns lev i x" using at none unfolding stops_def by (metis not_less)
    moreover have "\<forall>b \<in> set post. lev b = 0" if "i = 0" using none(2) that by simp
    ultimately show thesis using that(1) nx none by simp
  next
    case (some bs n cs)
    have n: "n \<in> set ns" using sub some(1) by auto
    obtain as where "ns = as @ bs @ n # cs" using sub some(1) by blast
    then have sw: "\<forall>b \<in> set bs. P n \<longrightarrow> P b" "\<forall>c \<in> set cs. P c \<longrightarrow> P n" using P by (auto simp: prefix_pred_def sorted_wrt_append)
    show thesis
    proof (cases "P n")
      case True
      have "sl_head s # ns = (pre @ x # bs) @ n # cs" using path some(1) by simp
      moreover have "\<forall>a \<in> set ((pre @ x # bs) @ [n]). a \<noteq> sl_head s \<longrightarrow> P a" using pre sw(1) True by auto
      ultimately have "search_at P s ns lev n i cs" using some(3) unfolding search_at_def by blast
      then show thesis using that(3) [of n cs] nx n True some by simp
    next
      case False
      have c: "\<forall>b \<in> set (n # cs). \<not> P b" using False sw(2) by auto
      then have "\<forall>b \<in> set post. i < lev b \<longrightarrow> \<not> P b" using some(1,4) by auto
      then have "stops P s ns lev i x" using at unfolding stops_def by blast
      then show thesis using that(2) [of n bs cs] nx n False some c by simp
    qed
  qed
qed


section \<open>Searching\<close>

definition found :: "(addr \<Rightarrow> bool) \<Rightarrow> (addr \<Rightarrow> nat) \<Rightarrow> addr list \<Rightarrow> addr" where
  "found P lev ns = (case find (\<lambda>a. 0 < lev a \<and> \<not> P a) ns of Some a \<Rightarrow> a | None \<Rightarrow> 0)"

lemma find_skip: "\<forall>a \<in> set as. \<not> Q a \<Longrightarrow> find Q (as @ bs) = find Q bs"
  by (induction as) auto

lemma search_at_prefix:
  assumes "links_inv s ns lev" "search_at P s ns lev x i post"
  obtains as pre where "ns = as @ post" "\<forall>a \<in> set as. P a" "sl_head s # as = pre @ [x]"
proof -
  obtain pre where path: "sl_head s # ns = pre @ x # post" "\<forall>a \<in> set (pre @ [x]). a \<noteq> sl_head s \<longrightarrow> P a"
    using assms(2) unfolding search_at_def by blast
  have d: "sl_head s \<notin> set ns" using assms(1) by (auto simp: links_inv_def)
  show thesis
  proof (cases pre)
    case Nil
    then show thesis using path that [of "[]" "[]"] by simp
  next
    case (Cons h as)
    then have "ns = (as @ [x]) @ post" using path by simp
    moreover from this have "\<forall>a \<in> set (as @ [x]). P a" using path(2) d Cons by auto
    ultimately show thesis using that [of "as @ [x]" "sl_head s # as"] by simp
  qed
qed

lemma found_none:
  assumes "links_inv s ns lev" "search_at P s ns lev x i post" "\<forall>b \<in> set post. lev b = 0"
  shows "found P lev ns = 0"
proof -
  obtain as where "ns = as @ post" "\<forall>a \<in> set as. P a" using search_at_prefix [OF assms(1,2)] .
  then have "find (\<lambda>a. 0 < lev a \<and> \<not> P a) ns = None" using assms(3) by (auto simp: find_None_iff)
  then show ?thesis by (simp add: found_def)
qed

lemma found_some:
  assumes "links_inv s ns lev" "search_at P s ns lev x i post" "post = bs @ n # cs" "\<forall>b \<in> set bs. lev b \<le> 0" "0 < lev n" "\<not> P n"
  shows "found P lev ns = n"
proof -
  obtain as where as: "ns = as @ post" "\<forall>a \<in> set as. P a" using search_at_prefix [OF assms(1,2)] .
  have "\<forall>a \<in> set (as @ bs). \<not> (0 < lev a \<and> \<not> P a)" using as(2) assms(4) by auto
  from find_skip [OF this, of "n # cs"] have "find (\<lambda>a. 0 < lev a \<and> \<not> P a) ns = find (\<lambda>a. 0 < lev a \<and> \<not> P a) (n # cs)"
    using as(1) assms(3) by simp
  then show ?thesis using assms(5,6) by (simp add: found_def)
qed

lemma search_at_head: "links_inv s ns lev \<Longrightarrow> i < 12 \<Longrightarrow> search_at P s ns lev (sl_head s) i ns"
  unfolding search_at_def links_inv_def by (auto intro: exI [of _ "[]"])

lemma search_at_lower: "search_at P s ns lev x (Suc i) post \<Longrightarrow> search_at P s ns lev x i post"
  unfolding search_at_def by auto

lemma level_cases: "int i = 0 \<and> i = 0 \<or> (\<exists>j. i = Suc j \<and> int i - 1 = int j)"
  by (cases i) auto

abbreviation in_order :: "('k \<Rightarrow> 'k \<Rightarrow> int) \<Rightarrow> ('k \<Rightarrow> bool) \<Rightarrow> 'k SkipList \<Rightarrow> addr list \<Rightarrow> bool" where
  "in_order cmp ok s ns \<equiv> ordered cmp ok (map (keyof s) ns)"

text \<open>The array \<open>prev\<close> holds the last nodes before the key on the levels from \<open>lo\<close> on, below \<open>hi\<close>.\<close>

definition prevs_ok :: "('k \<Rightarrow> 'k \<Rightarrow> int) \<Rightarrow> 'k SkipList \<Rightarrow> addr list \<Rightarrow> (addr \<Rightarrow> nat) \<Rightarrow> 'k \<Rightarrow> nat \<Rightarrow> nat \<Rightarrow> addr option list \<Rightarrow> bool" where
  "prevs_ok cmp s ns lev key lo hi a \<longleftrightarrow> length a = 12 \<and> (\<forall>j. lo \<le> j \<and> j < hi \<longrightarrow> (\<exists>x. a ! j = Some x \<and> stops (before cmp s key) s ns lev j x))"

context skip_order
begin

lemma before_prefix:
  assumes "in_order cmp ok s ns" "ok key"
  shows "prefix_pred (before cmp s key) ns"
proof -
  have "sorted_wrt (\<lambda>a b. ok (keyof s a) \<and> ok (keyof s b) \<and> cmp (keyof s a) (keyof s b) < 0) ns"
    using assms(1) by (induction ns) (auto simp: ordered_def list_all_iff)
  then show ?thesis unfolding prefix_pred_def
  proof (rule sorted_wrt_mono_rel [rotated])
    fix a b assume "ok (keyof s a) \<and> ok (keyof s b) \<and> cmp (keyof s a) (keyof s b) < 0"
    then show "before cmp s key b \<longrightarrow> before cmp s key a"
      using cmp_less_trans [of "keyof s a" "keyof s b" key] assms(2) by (auto simp: before_def)
  qed
qed

lemma node_key:
  assumes "links_inv s ns lev" "in_order cmp ok s ns" "n \<in> set ns"
  shows "node_at s n = Inr (the (sl_nodes s n))" "ok (keyof s n)" "n \<noteq> 0"
proof -
  show n: "n \<noteq> 0" using assms(1,3) unfolding links_inv_def by (metis list.set_intros(2))
  have "n \<in> dom (sl_nodes s)" using assms(1,3) by (auto simp: links_inv_def)
  then show "node_at s n = Inr (the (sl_nodes s n))" using n by (rule node_at_eq [rotated])
  show "ok (keyof s n)" using assms(2,3) by (auto simp: ordered_def list_all_iff)
qed

lemma KeyIsAfterNode_eq:
  assumes "links_inv s ns lev" "in_order cmp ok s ns" "ok key" "n \<in> set ns"
  shows "KeyIsAfterNode compare s key n = Inr (before cmp s key n)"
  using node_key [OF assms(1,2,4)] assms(3)
  by (simp add: KeyIsAfterNode_def before_def keyof_def compare_eq)

text \<open>One turn of the loop of \<open>FindGreaterOrEqual\<close>: it moves on, or goes down, or returns the first node that is not before the key.\<close>

lemma fge_body_step:
  assumes inv: "links_inv s ns lev" "in_order cmp ok s ns" "ok key" and at: "search_at (before cmp s key) s ns lev x i post"
    and prev: "\<And>a. prev = Some a \<Longrightarrow> i < length a"
  defines "prev' \<equiv> map_option (\<lambda>a. a[i := Some x]) prev"
  shows "(\<exists>n post'. fge_body compare s key (x, int i, prev) = Inr (Inl (n, int i, prev)) \<and> search_at (before cmp s key) s ns lev n i post' \<and> length post' < length post)
    \<or> stops (before cmp s key) s ns lev i x \<and> fge_body compare s key (x, int i, prev) =
        Inr (if i = 0 then Inr (found (before cmp s key) lev ns, prev') else Inl (x, int (i - 1), prev'))"
proof -
  have pv: "(case prev of None \<Rightarrow> Inr None | Some a \<Rightarrow> bindR (upd_res a (int i) (Some x)) (\<lambda>a. Inr (Some a))) = Inr prev'"
    using prev by (cases prev) (simp_all add: prev'_def upd_res_def)
  note P = before_prefix [OF inv(2,3)]
  from inv(1) P at show ?thesis
  proof (cases rule: search_at_next)
    case none
    have "found (before cmp s key) lev ns = 0" if "i = 0" using found_none [OF inv(1) at] none(3) that by simp
    then show ?thesis using none(1,2) pv by (simp add: fge_body_def KeyIsAfterNode_def)
  next
    case (stay n bs cs)
    have "found (before cmp s key) lev ns = n" if "i = 0"
      using found_some [OF inv(1) at stay(4)] stay(5,6,7) that by simp
    then show ?thesis using stay(1,2,7,8) pv KeyIsAfterNode_eq [OF inv stay(3)] by (simp add: fge_body_def)
  next
    case (move n post')
    then show ?thesis using KeyIsAfterNode_eq [OF inv move(3)] by (intro disjI1) (auto simp: fge_body_def)
  qed
qed

lemma prevs_ok_step:
  assumes "prevs_ok cmp s ns lev key (Suc i) hi a" "stops (before cmp s key) s ns lev i x" "i < 12"
  shows "prevs_ok cmp s ns lev key i hi (a[i := Some x])"
proof -
  have "\<exists>y. a[i := Some x] ! j = Some y \<and> stops (before cmp s key) s ns lev j y" if "i \<le> j" "j < hi" for j
    using assms that by (cases "j = i") (auto simp: prevs_ok_def)
  then show ?thesis using assms(1) by (simp add: prevs_ok_def)
qed

lemma FindGreaterOrEqual_spec:
  assumes inv: "links_inv s ns lev" "in_order cmp ok s ns" "ok key" and prev: "\<And>a. prev = Some a \<Longrightarrow> length a = 12"
  shows "\<exists>prev'. FindGreaterOrEqual compare s key prev = Some (Inr (found (before cmp s key) lev ns, prev'))
    \<and> (prev = None \<longrightarrow> prev' = None) \<and> (prev \<noteq> None \<longrightarrow> (\<exists>a. prev' = Some a \<and> prevs_ok cmp s ns lev key 0 (nat (sl_max_height s)) a))"
proof -
  define h where "h = nat (sl_max_height s) - 1"
  have h: "sl_max_height s - 1 = int h" "h < 12" "nat (sl_max_height s) = Suc h"
    using inv(1) by (auto simp: h_def links_inv_def kMaxHeight_def)
  define good where "good = (\<lambda>lo p. (prev = None \<longrightarrow> p = None) \<and> (prev \<noteq> None \<longrightarrow> (\<exists>a. p = Some a \<and> prevs_ok cmp s ns lev key lo (Suc h) a)))"
  define I where "I = (\<lambda>n (st :: search). \<exists>x i p post. st = (x, int i, p) \<and> i \<le> h \<and> search_at (before cmp s key) s ns lev x i post \<and> n = i + length post \<and> good (Suc i) p)"
  have g: "good (Suc h) prev" using prev by (cases prev) (auto simp: good_def prevs_ok_def)
  have start: "I (h + length ns) (sl_head s, int h, prev)"
    unfolding I_def using search_at_head [OF inv(1) h(2)] g by blast
  have "\<exists>y. forever (fge_body compare s key) (sl_head s, int h, prev) = Some (Inr y) \<and> (\<exists>p. y = (found (before cmp s key) lev ns, p) \<and> good 0 p)"
  proof (rule forever_rule [where I = I, OF start])
    fix n st assume "I n st"
    then obtain x i p post where st: "st = (x, int i, p)" "i \<le> h" and at: "search_at (before cmp s key) s ns lev x i post" and n: "n = i + length post" and gp: "good (Suc i) p"
      unfolding I_def by blast
    have len: "i < length a" if "p = Some a" for a using gp that st(2) h(2) by (auto simp: good_def prevs_ok_def)
    define p' where "p' = map_option (\<lambda>a. a[i := Some x]) p"
    have gp': "good i p'" if "stops (before cmp s key) s ns lev i x"
      using gp prevs_ok_step [OF _ that] st(2) h(2) by (auto simp: good_def p'_def)
    consider (move) m post' where "fge_body compare s key st = Inr (Inl (m, int i, p))" "search_at (before cmp s key) s ns lev m i post'" "length post' < length post"
      | (stop) "stops (before cmp s key) s ns lev i x" "fge_body compare s key st = Inr (if i = 0 then Inr (found (before cmp s key) lev ns, p') else Inl (x, int (i - 1), p'))"
      using fge_body_step [OF inv at len] unfolding st(1) p'_def by blast
    then show "\<exists>r. fge_body compare s key st = Inr r \<and> (case r of Inl st' \<Rightarrow> \<exists>n' < n. I n' st' | Inr y \<Rightarrow> \<exists>p. y = (found (before cmp s key) lev ns, p) \<and> good 0 p)"
    proof cases
      case move
      then have "I (i + length post') (m, int i, p)" "i + length post' < n" using st(2) gp n by (auto simp: I_def)
      then show ?thesis using move(1) by auto
    next
      case stop
      show ?thesis
      proof (cases i)
        case 0
        then show ?thesis using stop gp' by simp
      next
        case (Suc j)
        then have "I (j + length post) (x, int j, p')" "j + length post < n"
          using st(2) n gp' [OF stop(1)] search_at_lower [of "before cmp s key" s ns lev x j post] at unfolding I_def by auto
        then show ?thesis using stop(2) Suc by auto
      qed
    qed
  qed
  then show ?thesis unfolding FindGreaterOrEqual_def h(1,3) good_def by auto
qed

end


text \<open>The two other searches return the last node of the list for which the predicate holds.\<close>

lemma descend_rule:
  assumes inv: "links_inv s ns lev"
    and step: "\<And>x i post. search_at P s ns lev x i post \<Longrightarrow>
      (\<exists>n post'. body (x, int i) = Inr (Inl (n, int i)) \<and> search_at P s ns lev n i post' \<and> length post' < length post)
      \<or> stops P s ns lev i x \<and> body (x, int i) = Inr (if i = 0 then Inr x else Inl (x, int (i - 1)))"
  shows "\<exists>x. forever body (sl_head s, sl_max_height s - 1) = Some (Inr x) \<and> stops P s ns lev 0 x"
proof -
  define h where "h = nat (sl_max_height s) - 1"
  have h: "sl_max_height s - 1 = int h" "h < 12" using inv by (auto simp: h_def links_inv_def kMaxHeight_def)
  define I where "I = (\<lambda>n st. \<exists>x i post. st = (x, int i) \<and> search_at P s ns lev x i post \<and> n = i + length post)"
  have start: "I (h + length ns) (sl_head s, int h)" unfolding I_def using search_at_head [OF inv h(2)] by blast
  show ?thesis unfolding h(1)
  proof (rule forever_rule [where I = I, OF start])
    fix n st assume "I n st"
    then obtain x i post where st: "st = (x, int i)" and at: "search_at P s ns lev x i post" and n: "n = i + length post"
      unfolding I_def by blast
    from step [OF at] consider (move) m post' where "body st = Inr (Inl (m, int i))" "search_at P s ns lev m i post'" "length post' < length post"
      | (stop) "stops P s ns lev i x" "body st = Inr (if i = 0 then Inr x else Inl (x, int (i - 1)))" unfolding st by blast
    then show "\<exists>r. body st = Inr r \<and> (case r of Inl st' \<Rightarrow> \<exists>n' < n. I n' st' | Inr y \<Rightarrow> stops P s ns lev 0 y)"
    proof cases
      case move
      then have "I (i + length post') (m, int i)" "i + length post' < n" using n by (auto simp: I_def)
      then show ?thesis using move(1) by auto
    next
      case stop
      show ?thesis
      proof (cases i)
        case (Suc j)
        then have "I (j + length post) (x, int j)" "j + length post < n"
          using n search_at_lower [of P s ns lev x j post] at by (auto simp: I_def)
        then show ?thesis using stop(2) Suc by auto
      qed (use stop in simp)
    qed
  qed
qed

lemma FindLast_spec:
  assumes inv: "links_inv s ns lev"
  shows "\<exists>x. FindLast s = Some (Inr x) \<and> stops (\<lambda>_. True) s ns lev 0 x"
  unfolding FindLast_def
proof (rule descend_rule [OF inv])
  fix x i post assume at: "search_at (\<lambda>_. True) s ns lev x i post"
  have "prefix_pred (\<lambda>_. True) ns" by (simp add: prefix_pred_def sorted_wrt_true)
  from inv this at show "(\<exists>n post'. last_body s (x, int i) = Inr (Inl (n, int i)) \<and> search_at (\<lambda>_. True) s ns lev n i post' \<and> length post' < length post)
      \<or> stops (\<lambda>_. True) s ns lev i x \<and> last_body s (x, int i) = Inr (if i = 0 then Inr x else Inl (x, int (i - 1)))"
  proof (cases rule: search_at_next)
    case none
    then show ?thesis by (simp add: last_body_def)
  next
    case (stay n bs cs)
    then show ?thesis by simp
  next
    case (move n post')
    then show ?thesis by (intro disjI1) (auto simp: last_body_def)
  qed
qed

context skip_order
begin

lemma FindLessThan_spec:
  assumes inv: "links_inv s ns lev" "in_order cmp ok s ns" "ok key"
  shows "\<exists>x. FindLessThan compare s key = Some (Inr x) \<and> stops (before cmp s key) s ns lev 0 x"
  unfolding FindLessThan_def
proof (rule descend_rule [OF inv(1)])
  fix x i post assume at: "search_at (before cmp s key) s ns lev x i post"
  have x: "(if x = sl_head s then Inr True else bindR (node_at s x) (\<lambda>node. bindR (compare (n_key node) key) (\<lambda>c. Inr (c < 0)))) = Inr True"
  proof (cases "x = sl_head s")
    case False
    obtain as pre where as: "ns = as @ post" "\<forall>a \<in> set as. before cmp s key a" "sl_head s # as = pre @ [x]"
      using search_at_prefix [OF inv(1) at] .
    then have "x \<in> set (sl_head s # as)" by simp
    then have "x \<in> set ns" "before cmp s key x" using False as(1,2) by auto
    then show ?thesis using False node_key [OF inv(1,2)] inv(3) by (simp add: compare_eq before_def keyof_def)
  qed simp
  have n: "bindR (node_at s n) (\<lambda>node. bindR (compare (n_key node) key) (\<lambda>c. Inr (0 \<le> c))) = Inr (\<not> before cmp s key n)"
    if "n \<in> set ns" for n using node_key [OF inv(1,2) that] inv(3) by (auto simp: compare_eq before_def keyof_def)
  from inv(1) before_prefix [OF inv(2,3)] at
  show "(\<exists>n post'. flt_body compare s key (x, int i) = Inr (Inl (n, int i)) \<and> search_at (before cmp s key) s ns lev n i post' \<and> length post' < length post)
      \<or> stops (before cmp s key) s ns lev i x \<and> flt_body compare s key (x, int i) = Inr (if i = 0 then Inr x else Inl (x, int (i - 1)))"
  proof (cases rule: search_at_next)
    case none
    then show ?thesis by (simp add: flt_body_def x)
  next
    case (stay m bs cs)
    then show ?thesis using n [OF stay(3)] by (simp add: flt_body_def x)
  next
    case (move m post')
    then show ?thesis using n [OF move(3)] by (intro disjI1) (auto simp: flt_body_def x)
  qed
qed

end

section \<open>Changing one link\<close>

text \<open>Two lists with the same nodes, except for their links.\<close>

definition same_nodes :: "'k SkipList \<Rightarrow> 'k SkipList \<Rightarrow> bool" where
  "same_nodes s t \<longleftrightarrow> dom (sl_nodes t) = dom (sl_nodes s) \<and> keyof t = keyof s \<and> height t = height s \<and> sl_head t = sl_head s
     \<and> sl_max_height t = sl_max_height s \<and> sl_rnd t = sl_rnd s"

lemma SetNext_spec:
  assumes "a \<noteq> 0" "a \<in> dom (sl_nodes s)" "i < height s a"
  shows "\<exists>t. Node_SetNext s a (int i) p = Inr t \<and> same_nodes s t \<and> (\<forall>b j. link t b j = (if b = a \<and> j = i then Some p else link s b j))"
proof -
  define n where "n = the (sl_nodes s a)"
  define t where "t = s\<lparr>sl_nodes := (sl_nodes s)(a \<mapsto> n\<lparr>n_next := (n_next n)[i := Some p]\<rparr>)\<rparr>"
  have "Node_SetNext s a (int i) p = Inr t"
    using assms by (simp add: Node_SetNext_def node_at_eq upd_res_def height_def n_def t_def)
  moreover have "same_nodes s t"
    using assms by (auto simp: same_nodes_def t_def keyof_def height_def n_def)
  moreover have "link t b j = (if b = a \<and> j = i then Some p else link s b j)" for b j
    using assms by (auto simp: link_def t_def n_def height_def)
  ultimately show ?thesis by blast
qed

lemma same_nodes_trans: "same_nodes s t \<Longrightarrow> same_nodes t u \<Longrightarrow> same_nodes s u"
  by (simp add: same_nodes_def)

lemma linked_cong:
  "\<forall>a \<in> set as. lev' a = lev a \<and> (\<forall>j < lev a. link t a j = link s a j) \<Longrightarrow> linked t lev' as = linked s lev as"
proof (induction as)
  case (Cons a as)
  have "first_at lev' i as = first_at lev i as" for i using Cons.prems by (intro first_at_cong) simp
  then show ?case using Cons by auto
qed simp

text \<open>Putting the node \<open>x\<close> on the level \<open>i\<close>, behind the last node before it that is on this level.\<close>

lemma publish_linked:
  fixes lev :: "addr \<Rightarrow> nat"
  assumes linked: "linked s lev (pre @ p # mid @ x # post)" and dist: "distinct (pre @ p # mid @ x # post)"
    and x: "lev x = i" and p: "i < lev p" and mid: "\<forall>b \<in> set mid. lev b \<le> i"
    and own: "link s x i = Some (first_at lev i post)"
    and t: "\<And>b j. link t b j = (if b = p \<and> j = i then Some x else link s b j)"
  shows "linked t (lev(x := Suc i)) (pre @ p # mid @ x # post)"
proof -
  define lev' where "lev' = lev(x := Suc i)"
  have lev': "lev' x = Suc i" "\<And>a. a \<noteq> x \<Longrightarrow> lev' a = lev a" by (simp_all add: lev'_def)
  have other: "first_at lev' j as = first_at lev j as" if "j \<noteq> i \<or> x \<notin> set as" for j as
    using that x lev' by (intro first_at_cong) (metis less_Suc_eq)
  have keep: "link t a j = link s a j" if "a \<noteq> p \<or> j \<noteq> i" for a j using t that by auto
  have post: "linked t lev' (x # post)"
  proof -
    have "linked s lev (x # post)" using linked linked_append [of s lev "pre @ p # mid" "x # post"] by simp
    moreover have "linked t lev' post = linked s lev post" using dist by (intro linked_cong ballI conjI allI impI keep lev'(2)) auto
    moreover have "x \<noteq> p" "x \<notin> set post" using dist by auto
    ultimately show ?thesis using own x by (auto simp: keep other less_Suc_eq lev')
  qed
  have "linked s lev (mid @ x # post)" "distinct (p # mid @ x # post)"
    using linked_append [of s lev "pre @ [p]" "mid @ x # post"] linked dist by auto
  with mid have "linked t lev' (mid @ x # post)"
  proof (induction mid)
    case (Cons a mid)
    have a: "a \<noteq> x" "a \<noteq> p" "lev a \<le> i" using Cons.prems by auto
    have "linked s lev (a # mid @ x # post)" using Cons.prems by simp
    then have "\<forall>j < lev a. link t a j = Some (first_at lev' j (mid @ x # post))" using a by (simp add: keep other)
    moreover have "linked t lev' (mid @ x # post)"
      by (rule Cons.IH) (use Cons.prems in auto)
    ultimately show ?case using a by (simp add: lev')
  qed (use post in simp)
  moreover have "link t p j = Some (first_at lev' j (mid @ x # post))" if "j < lev p" for j
  proof (cases "j = i")
    case True
    then have "first_at lev' j (mid @ x # post) = x"
      using mid dist by (subst first_at_skip) (auto simp: first_at_Cons lev'_def)
    then show ?thesis using t True by simp
  next
    case False
    have "link s p j = Some (first_at lev j (mid @ x # post))" using linked_at [OF linked that] .
    then show ?thesis using False by (simp add: keep other)
  qed
  ultimately have p': "linked t lev' (p # mid @ x # post)" using dist by (simp add: lev')
  show ?thesis unfolding lev'_def [symmetric] using linked dist
  proof (induction pre)
    case (Cons a pre)
    have a: "a \<noteq> x" "a \<noteq> p" using Cons.prems(2) by auto
    have "link t a j = Some (first_at lev' j (pre @ p # mid @ x # post))" if "j < lev a" for j
    proof -
      have l: "link t a j = Some (first_at lev j (pre @ p # mid @ x # post))" using Cons.prems(1) that a by (simp add: keep)
      show ?thesis
      proof (cases "j = i")
        case True
        have px: "p \<noteq> x" "x \<notin> set (pre @ [p])" using Cons.prems(2) by auto
        have "first_at lev i ((pre @ [p]) @ mid @ x # post) = first_at lev i (pre @ [p])"
          using p by (intro first_at_hit [of p]) auto
        moreover have "first_at lev' i ((pre @ [p]) @ mid @ x # post) = first_at lev' i (pre @ [p])"
          using p px by (intro first_at_hit [of p]) (auto simp: lev')
        ultimately show ?thesis using l other [of i "pre @ [p]"] px True by simp
      qed (use l other in simp)
    qed
    then show ?case using Cons a by (simp add: lev')
  qed (use p' in simp)
qed


end
