(* ===== verification/Ldb_Skiplist_Ops.thy ===== *)
theory Ldb_Skiplist_Ops
  imports Ldb_Skiplist
begin

text \<open>
  Changing and reading a skip list: an insertion, level by level, gives the sorted list with the new key, a second insertion of a key fails the assertion, a new list is empty, and the
  iterator is a cursor in the list.
\<close>

section \<open>Inserting\<close>

text \<open>The last node on the level \<open>j\<close> among the head and \<open>as\<close>.\<close>

definition last_on :: "'k SkipList \<Rightarrow> addr list \<Rightarrow> (addr \<Rightarrow> nat) \<Rightarrow> nat \<Rightarrow> addr \<Rightarrow> bool" where
  "last_on s as lev j p \<longleftrightarrow> (\<exists>pre mid. sl_head s # as = pre @ p # mid \<and> j < lev p \<and> (\<forall>b \<in> set mid. lev b \<le> j))"

lemma stops_last_on:
  assumes inv: "links_inv s (as @ bs) lev" and st: "stops P s (as @ bs) lev j p" and P: "\<forall>a \<in> set as. P a" "\<forall>b \<in> set bs. \<not> P b"
  shows "last_on s as lev j p"
proof -
  obtain post where at: "search_at P s (as @ bs) lev p j post" and no: "\<forall>b \<in> set post. j < lev b \<longrightarrow> \<not> P b"
    using st unfolding stops_def by blast
  obtain cs pre where cs: "as @ bs = cs @ post" "\<forall>a \<in> set cs. P a" "sl_head s # cs = pre @ [p]"
    using search_at_prefix [OF inv at] .
  obtain mid where mid: "as = cs @ mid" "post = mid @ bs"
  proof -
    from cs(1) consider us where "as = cs @ us" "us @ bs = post" | us where "as @ us = cs" "bs = us @ post"
      by (auto simp: append_eq_append_conv2)
    then show thesis
    proof cases
      case 2
      then have "us = []" using cs(2) P(2) by (cases us) auto
      then show thesis using 2 that [of "[]"] by simp
    qed (use that in blast)
  qed
  have "\<forall>b \<in> set mid. lev b \<le> j" using no mid P(1) by (auto simp: not_less [symmetric])
  moreover have "j < lev p" using at by (simp add: search_at_def)
  ultimately show ?thesis using mid cs(3) unfolding last_on_def by (metis append.assoc append_Cons append_Nil)
qed

text \<open>
  The state of an insertion in progress: the new node \<open>x\<close> is on the path between \<open>as\<close> and \<open>bs\<close>; it will be on the levels below \<open>h\<close>, and \<open>prev\<close> has the
  nodes to link it to.
\<close>

definition inserting :: "'k SkipList \<Rightarrow> addr list \<Rightarrow> addr \<Rightarrow> addr list \<Rightarrow> (addr \<Rightarrow> nat) \<Rightarrow> addr option list \<Rightarrow> nat \<Rightarrow> bool" where
  "inserting s as x bs lev prev h \<longleftrightarrow> links_inv s (as @ x # bs) lev \<and> lev x \<le> h \<and> h \<le> height s x \<and> int h \<le> sl_max_height s
     \<and> length prev = 12 \<and> (\<forall>j < h. \<exists>p. prev ! j = Some p \<and> last_on s as lev j p)"

lemma insertingE:
  assumes "inserting s as x bs lev prev h" "i < h"
  obtains p pre mid where "prev_at prev (int i) = Inr p" "sl_head s # as = pre @ p # mid" "i < lev p" "\<forall>b \<in> set mid. lev b \<le> i"
    "p \<noteq> 0" "p \<in> dom (sl_nodes s)" "i < height s p" "x \<noteq> 0" "x \<in> dom (sl_nodes s)" "i < height s x" "x \<noteq> p"
proof -
  note inv = assms(1) [unfolded inserting_def links_inv_def]
  obtain p where p: "prev ! i = Some p" "last_on s as lev i p" using assms unfolding inserting_def by blast
  obtain pre mid where pm: "sl_head s # as = pre @ p # mid" "i < lev p" "\<forall>b \<in> set mid. lev b \<le> i"
    using p(2) unfolding last_on_def by blast
  have "int h \<le> 12" using inv by (simp add: kMaxHeight_def)
  then have a: "prev_at prev (int i) = Inr p" using p(1) inv assms(2) by (simp add: prev_at_def nth_res_def)
  have mem: "p \<in> set (sl_head s # as)" using pm(1) by simp
  then have m: "p \<in> set (sl_head s # as @ x # bs)" "x \<in> set (sl_head s # as @ x # bs)" by auto
  have "x \<noteq> p" using mem inv by auto
  moreover have "p \<noteq> 0" "x \<noteq> 0" "p \<in> dom (sl_nodes s)" "x \<in> dom (sl_nodes s)" "lev p \<le> height s p"
    using inv m by (metis, metis, blast, blast, metis)
  moreover from this have "i < height s p" using pm(2) by simp
  moreover have "i < height s x" using inv assms(2) by simp
  ultimately show thesis using that [OF a pm] by blast
qed

text \<open>The store into the new node changes nothing of the list.\<close>

lemma link_node_step:
  assumes ins: "inserting s as x bs lev prev h" and i: "lev x = i" "i < h"
  shows "\<exists>t. link_node prev x (int i) s = Inr t \<and> same_nodes s t \<and> inserting t as x bs lev prev h \<and> link t x i = Some (first_at lev i bs)"
proof -
  obtain p pre mid where p: "prev_at prev (int i) = Inr p" "sl_head s # as = pre @ p # mid" "i < lev p" "\<forall>b \<in> set mid. lev b \<le> i"
    and x: "x \<noteq> 0" "x \<in> dom (sl_nodes s)" "i < height s x"
    using insertingE [OF ins i(2)] by metis
  have inv: "links_inv s (as @ x # bs) lev" using ins by (simp add: inserting_def)
  have path: "sl_head s # as @ x # bs = pre @ p # (mid @ x # bs)" using p(2) by simp
  have "Node_Next s p (int i) = Inr (first_at lev i (mid @ x # bs))" by (rule Next_on_path [OF inv path p(3)])
  also have "first_at lev i (mid @ x # bs) = first_at lev i bs"
    using first_at_skip [OF p(4)] i(1) by (simp add: first_at_Cons)
  finally have n: "Node_Next s p (int i) = Inr (first_at lev i bs)" .
  obtain t where t: "Node_SetNext s x (int i) (first_at lev i bs) = Inr t" "same_nodes s t"
    "\<And>b j. link t b j = (if b = x \<and> j = i then Some (first_at lev i bs) else link s b j)"
    using SetNext_spec [OF x] by metis
  have "linked t lev (sl_head s # as @ x # bs) = linked s lev (sl_head s # as @ x # bs)"
    using i(1) by (intro linked_cong) (auto simp: t(3))
  then have "inserting t as x bs lev prev h"
    using ins t(2) by (simp add: inserting_def links_inv_def same_nodes_def last_on_def)
  moreover have "link_node prev x (int i) s = Inr t" using p(1) n t(1) by (simp add: link_node_def)
  ultimately show ?thesis using t(2,3) by auto
qed

text \<open>The store that publishes it puts it on one more level.\<close>

lemma publish_node_step:
  assumes ins: "inserting s as x bs lev prev h" and i: "lev x = i" "i < h" and own: "link s x i = Some (first_at lev i bs)"
  shows "\<exists>t. publish_node prev x (int i) s = Inr t \<and> same_nodes s t \<and> inserting t as x bs (lev(x := Suc i)) prev h"
proof -
  obtain p pre mid where p: "prev_at prev (int i) = Inr p" "sl_head s # as = pre @ p # mid" "i < lev p" "\<forall>b \<in> set mid. lev b \<le> i"
    and pa: "p \<noteq> 0" "p \<in> dom (sl_nodes s)" "i < height s p" and x: "i < height s x" "x \<noteq> p"
    using insertingE [OF ins i(2)] by metis
  have inv: "links_inv s (as @ x # bs) lev" using ins by (simp add: inserting_def)
  have path: "sl_head s # as @ x # bs = pre @ p # mid @ x # bs" using p(2) by simp
  obtain t where t: "Node_SetNext s p (int i) x = Inr t" "same_nodes s t"
    "\<And>b j. link t b j = (if b = p \<and> j = i then Some x else link s b j)"
    using SetNext_spec [OF pa] by metis
  have "linked s lev (pre @ p # mid @ x # bs)" "distinct (pre @ p # mid @ x # bs)"
    using inv path unfolding links_inv_def by metis+
  from publish_linked [OF this i(1) p(3,4) own t(3)] have l: "linked t (lev(x := Suc i)) (sl_head s # as @ x # bs)"
    unfolding path .
  have xh: "x \<noteq> sl_head s" "x \<notin> set as" using inv by (auto simp: links_inv_def)
  have lo: "last_on t as (lev(x := Suc i)) j q" if l: "last_on s as lev j q" for j q
  proof -
    obtain pre' mid' where q: "sl_head s # as = pre' @ q # mid'" "j < lev q" "\<forall>b \<in> set mid'. lev b \<le> j"
      using l unfolding last_on_def by blast
    have "x \<notin> set (pre' @ q # mid')" using xh unfolding q(1) [symmetric] by auto
    then have "x \<noteq> q" "x \<notin> set mid'" by auto
    then show ?thesis using q t(2) unfolding last_on_def same_nodes_def by (metis fun_upd_other)
  qed
  have sl: "sl_head t = sl_head s" "sl_max_height t = sl_max_height s" "height t = height s" "dom (sl_nodes t) = dom (sl_nodes s)"
    using t(2) by (simp_all add: same_nodes_def)
  have b: "int (Suc i) \<le> sl_max_height s" using ins i(2) by (simp add: inserting_def)
  have "links_inv t (as @ x # bs) (lev(x := Suc i))"
    using inv l x(1) xh b unfolding links_inv_def sl by simp
  then have "inserting t as x bs (lev(x := Suc i)) prev h"
    using ins lo i(2) unfolding inserting_def sl by auto
  moreover have "publish_node prev x (int i) s = Inr t" using p(1) t(1) by (simp add: publish_node_def)
  ultimately show ?thesis using t(2) by blast
qed

lemma link_levels_spec:
  assumes "inserting s as x bs lev prev h" "lev x + n = h"
  shows "\<exists>t. link_levels prev x (int (lev x)) n s = Inr t \<and> same_nodes s t \<and> inserting t as x bs (lev(x := h)) prev h"
  using assms
proof (induction n arbitrary: s lev)
  case 0
  then have "lev(x := h) = lev" by auto
  then show ?case using 0 by (simp add: same_nodes_def)
next
  case (Suc n)
  have i: "lev x < h" using Suc.prems by simp
  obtain t where t: "link_node prev x (int (lev x)) s = Inr t" "same_nodes s t" "inserting t as x bs lev prev h" "link t x (lev x) = Some (first_at lev (lev x) bs)"
    using link_node_step [OF Suc.prems(1) refl i] by blast
  obtain u where u: "publish_node prev x (int (lev x)) t = Inr u" "same_nodes t u" "inserting u as x bs (lev(x := Suc (lev x))) prev h"
    using publish_node_step [OF t(3) refl i t(4)] by blast
  have "(lev(x := Suc (lev x))) x + n = h" using Suc.prems(2) by simp
  from Suc.IH [OF u(3) this] obtain v where v: "link_levels prev x (int (Suc (lev x))) n u = Inr v" "same_nodes u v" "inserting v as x bs (lev(x := h)) prev h"
    unfolding fun_upd_same fun_upd_upd by blast
  have e: "int (lev x) + 1 = int (Suc (lev x))" by simp
  have "link_levels prev x (int (lev x)) (Suc n) s = Inr v" unfolding link_levels.simps t(1) bindR_Inr u(1) e v(1) ..
  then show ?case using v same_nodes_trans [OF same_nodes_trans [OF t(2) u(2)] v(2)] by blast
qed


lemma RandomHeight_loop_range:
  "h \<le> kMaxHeight \<Longrightarrow> h \<le> fst (RandomHeight_loop h seed) \<and> fst (RandomHeight_loop h seed) \<le> kMaxHeight"
proof (induction h seed rule: RandomHeight_loop.induct)
  case (1 h seed)
  then show ?case by (subst (1 2) RandomHeight_loop.simps) (force simp: Let_def)
qed

lemma RandomHeight_spec:
  obtains h seed where "RandomHeight s = Inr (int h, s\<lparr>sl_rnd := seed\<rparr>)" "1 \<le> h" "h \<le> 12"
proof -
  obtain k seed where k: "RandomHeight_loop 1 (sl_rnd s) = (k, seed)" by fastforce
  have r: "1 \<le> k" "k \<le> kMaxHeight" using RandomHeight_loop_range [of 1 "sl_rnd s"] k by (simp_all add: kMaxHeight_def)
  then have "RandomHeight s = Inr (int (nat k), s\<lparr>sl_rnd := seed\<rparr>)" using k by (simp add: RandomHeight_def)
  then show thesis using that [of "nat k" seed] r by (simp add: kMaxHeight_def)
qed

lemma head_prevs_spec:
  "i + n \<le> length prev \<Longrightarrow> head_prevs head (int i) n prev = Inr (take i prev @ replicate n (Some head) @ drop (i + n) prev)"
proof (induction n arbitrary: i prev)
  case (Suc n)
  have "head_prevs head (int (Suc i)) n (prev[i := Some head]) = Inr (take (Suc i) (prev[i := Some head]) @ replicate n (Some head) @ drop (Suc i + n) (prev[i := Some head]))"
    using Suc.prems by (intro Suc.IH) simp
  then show ?case using Suc.prems by (simp add: upd_res_def take_Suc_conv_app_nth add.commute)
qed simp

text \<open>What does not depend on the seed and on how high the list may be.\<close>

lemma links_inv_cong:
  assumes "links_inv s ns lev" "sl_nodes t = sl_nodes s" "sl_head t = sl_head s" "sl_max_height s \<le> sl_max_height t" "sl_max_height t \<le> kMaxHeight"
  shows "links_inv t ns lev"
proof -
  have l: "link t = link s" "height t = height s" using assms(2) by (auto simp: fun_eq_iff link_def height_def)
  have "linked t lev as = linked s lev as" for as by (induction as) (simp_all add: l)
  then show ?thesis using assms l unfolding links_inv_def by (auto intro: order_trans)
qed

lemma stops_cong: "sl_head t = sl_head s \<Longrightarrow> stops P t ns lev j x = stops P s ns lev j x"
  by (simp add: stops_def search_at_def)

lemma before_cong: "sl_nodes t = sl_nodes s \<Longrightarrow> before cmp t key = before cmp s key" "sl_nodes t = sl_nodes s \<Longrightarrow> keyof t = keyof s"
  by (simp_all add: fun_eq_iff before_def keyof_def)

lemma Insert_height_spec:
  assumes inv: "links_inv s ns lev" and prev: "prevs_ok cmp s ns lev key 0 (nat (sl_max_height s)) prev"
  obtains h prev' t where "Insert_height prev s = Inr (int h, prev', t)" "1 \<le> h" "h \<le> 12" "int h \<le> sl_max_height t" "links_inv t ns lev"
    "prevs_ok cmp t ns lev key 0 h prev'" "sl_nodes t = sl_nodes s" "sl_head t = sl_head s"
proof -
  obtain h seed where h: "RandomHeight s = Inr (int h, s\<lparr>sl_rnd := seed\<rparr>)" "1 \<le> h" "h \<le> 12" by (rule RandomHeight_spec)
  define m where "m = nat (sl_max_height s)"
  have m: "sl_max_height s = int m" "m \<le> 12" using inv by (auto simp: m_def links_inv_def kMaxHeight_def)
  show thesis
  proof (cases "m < h")
    case True
    define p where "p = take m prev @ replicate (h - m) (Some (sl_head s)) @ drop h prev"
    define t where "t = s\<lparr>sl_rnd := seed, sl_max_height := int h\<rparr>"
    have l: "length prev = 12" using prev by (simp add: prevs_ok_def)
    have e: "nat (int h - int m) = h - m" by simp
    have ih: "Insert_height prev s = Inr (int h, p, t)"
      using h True head_prevs_spec [of m "h - m" prev "sl_head s"] l by (simp add: Insert_height_def m(1) p_def t_def e)
    have t: "sl_nodes t = sl_nodes s" "sl_head t = sl_head s" "sl_max_height t = int h" by (simp_all add: t_def)
    have inv': "links_inv t ns lev" using True h(3) by (intro links_inv_cong [OF inv t(1,2)]) (simp_all add: t m kMaxHeight_def)
    have "\<exists>x. p ! j = Some x \<and> stops (before cmp t key) t ns lev j x" if j: "j < h" for j
    proof (cases "j < m")
      case True
      then have "p ! j = prev ! j" using l m(2) by (simp add: p_def nth_append)
      then show ?thesis using prev True by (simp add: prevs_ok_def m stops_cong [OF t(2)] before_cong(1) [OF t(1)])
    next
      case False
      have "j - m < h - m" using False j by simp
      then have "p ! j = Some (sl_head s)" using False l m(2) by (simp add: p_def nth_append)
      moreover have "\<forall>b \<in> set ns. lev b \<le> j" using inv False m by (force simp: links_inv_def)
      ultimately show ?thesis using search_at_head [OF inv', of j "before cmp t key"] j h(3) t(2)
        unfolding stops_def by (auto simp: not_less [symmetric] intro!: exI [of _ ns])
    qed
    then have "prevs_ok cmp t ns lev key 0 h p" using l True h(3) by (simp add: prevs_ok_def p_def)
    then show thesis using that [OF ih h(2,3) _ inv' _ t(1,2)] t(3) by simp
  next
    case False
    define t where "t = s\<lparr>sl_rnd := seed\<rparr>"
    have t: "sl_nodes t = sl_nodes s" "sl_head t = sl_head s" "sl_max_height t = sl_max_height s" by (simp_all add: t_def)
    have ih: "Insert_height prev s = Inr (int h, prev, t)" using h False by (simp add: Insert_height_def m(1) t_def)
    have inv': "links_inv t ns lev" using m by (intro links_inv_cong [OF inv t(1,2)]) (simp_all add: t kMaxHeight_def)
    have "prevs_ok cmp t ns lev key 0 h prev"
      using prev False unfolding prevs_ok_def stops_cong [OF t(2)] before_cong(1) [OF t(1)] by (simp add: m)
    then show thesis using that [OF ih h(2,3) _ inv' _ t(1,2)] t(3) False m(1) by simp
  qed
qed

text \<open>A new node is on the path, at its place, but on no level.\<close>

lemma linked_unlinked:
  assumes "linked s lev (as @ bs)" "x \<notin> set (as @ bs)" "\<forall>a \<in> set (as @ bs). \<forall>j. link t a j = link s a j"
  shows "linked t (lev(x := 0)) (as @ x # bs)"
proof -
  define lev' where "lev' = lev(x := 0)"
  have lev': "lev' x = 0" "\<And>a. a \<noteq> x \<Longrightarrow> lev' a = lev a" by (simp_all add: lev'_def)
  have f: "first_at lev' i cs = first_at lev i cs" if "x \<notin> set cs" for i cs using that lev' by (intro first_at_cong) metis
  have f': "first_at lev' i (cs @ x # ds) = first_at lev i (cs @ ds)" if "x \<notin> set (cs @ ds)" for i cs ds
    using that by (induction cs) (auto simp: first_at_Cons lev' f)
  show ?thesis unfolding lev'_def [symmetric] using assms
  proof (induction as)
    case Nil
    then have "linked t lev' bs = linked s lev bs" by (intro linked_cong) (auto intro: lev'(2))
    then show ?case using Nil lev' by simp
  next
    case (Cons a as)
    then show ?case using lev'(2) [of a] by (auto simp: f')
  qed
qed

definition with_node :: "'k SkipList \<Rightarrow> addr \<Rightarrow> 'k \<Rightarrow> nat \<Rightarrow> 'k SkipList" where
  "with_node s x key h = s\<lparr>sl_nodes := (sl_nodes s)(x \<mapsto> \<lparr>n_key = key, n_next = replicate h None\<rparr>)\<rparr>"

lemma with_node_simps [simp]:
  "sl_head (with_node s x key h) = sl_head s" "sl_max_height (with_node s x key h) = sl_max_height s"
  "keyof (with_node s x key h) = (keyof s)(x := key)" "height (with_node s x key h) = (height s)(x := h)"
  "dom (sl_nodes (with_node s x key h)) = insert x (dom (sl_nodes s))"
  "a \<noteq> x \<Longrightarrow> link (with_node s x key h) a j = link s a j"
  by (auto simp: with_node_def keyof_def height_def link_def fun_eq_iff)

lemma node_size: "1 \<le> h \<Longrightarrow> h \<le> 12 \<Longrightarrow> unat (16 + 8 * of_int (int h - 1) :: u64) = 8 + 8 * h"
proof -
  assume h: "1 \<le> h" "h \<le> 12"
  have "(16 + 8 * of_int (int h - 1) :: u64) = of_nat (8 + 8 * h)" using h by (simp add: of_nat_diff)
  then show ?thesis using h by (simp only: unsigned_of_nat) (simp add: take_bit_nat_eq_self)
qed

lemma NewNode_spec:
  assumes "new_ok new_char" "arena_inv arena rs" "1 \<le> h" "h \<le> 12"
  obtains x arena' where "NewNode new_char key (int h) s arena = Inr (x, with_node s x key h, arena')" "arena_inv arena' ((x, 8 + 8 * h) # rs)"
proof -
  let ?n = "16 + 8 * of_int (int h - 1) :: u64"
  have n: "unat ?n = 8 + 8 * h" using node_size [OF assms(3,4)] .
  then have "0 < ?n" "unat ?n < 2 ^ 63" using assms(4) by (simp_all add: word_less_nat_alt)
  from AllocateAligned_spec [OF assms(1,2) this] obtain x arena' where "AllocateAligned new_char ?n arena = Inr (x, arena')" "arena_inv arena' ((x, 8 + 8 * h) # rs)"
    unfolding n by blast
  then show thesis using that by (simp add: NewNode_def with_node_def)
qed

lemma inserting_start:
  assumes inv: "links_inv s (as @ bs) lev" and x: "x \<notin> dom (sl_nodes s)" "x \<noteq> 0" and h: "int h \<le> sl_max_height s"
    and prev: "length prev = 12" "\<forall>j < h. \<exists>p. prev ! j = Some p \<and> last_on s as lev j p"
  shows "inserting (with_node s x key h) as x bs (lev(x := 0)) prev h"
proof -
  let ?t = "with_node s x key h"
  have nx: "x \<notin> set (sl_head s # as @ bs)" using inv x(1) by (auto simp: links_inv_def)
  have "linked s lev ((sl_head s # as) @ bs)" using inv by (simp add: links_inv_def)
  then have "linked ?t (lev(x := 0)) ((sl_head s # as) @ x # bs)"
    by (rule linked_unlinked) (use nx in \<open>auto intro: with_node_simps(6)\<close>)
  then have l: "linked ?t (lev(x := 0)) (sl_head s # as @ x # bs)" by simp
  have d: "distinct (sl_head s # as @ x # bs)" "0 \<notin> set (sl_head s # as @ x # bs)" "set (sl_head s # as @ x # bs) \<subseteq> dom (sl_nodes ?t)"
    using inv nx x by (auto simp: links_inv_def)
  have v: "\<forall>a \<in> set (sl_head s # as @ x # bs). (lev(x := 0)) a \<le> height ?t a" "(lev(x := 0)) (sl_head s) = 12"
    "1 \<le> sl_max_height s" "sl_max_height s \<le> kMaxHeight" "\<forall>a \<in> set (as @ x # bs). int ((lev(x := 0)) a) \<le> sl_max_height s"
    using inv nx by (auto simp: links_inv_def)
  have "links_inv ?t (as @ x # bs) (lev(x := 0))" unfolding links_inv_def with_node_simps(1,2) using d v l by blast
  moreover have "last_on ?t as (lev(x := 0)) j p" if lo: "last_on s as lev j p" for j p
  proof -
    obtain pre mid where q: "sl_head s # as = pre @ p # mid" "j < lev p" "\<forall>b \<in> set mid. lev b \<le> j"
      using lo unfolding last_on_def by blast
    have "x \<notin> set (pre @ p # mid)" using nx unfolding q(1) [symmetric] by auto
    then have "(lev(x := 0)) p = lev p" "\<forall>b \<in> set mid. (lev(x := 0)) b = lev b" by auto
    then show ?thesis using q unfolding last_on_def with_node_simps(1) by metis
  qed
  ultimately show ?thesis using h prev unfolding inserting_def by (simp del: fun_upd_apply add: fun_upd_same) blast
qed


section \<open>The list between the operations\<close>

text \<open>Between the operations every node of the path is in the list; \<open>rs\<close> are the regions that the arena handed out.\<close>

definition sl_view :: "('k \<Rightarrow> 'k \<Rightarrow> int) \<Rightarrow> ('k \<Rightarrow> bool) \<Rightarrow> 'k SkipList \<Rightarrow> region list \<Rightarrow> addr list \<Rightarrow> bool" where
  "sl_view cmp ok s rs ns \<longleftrightarrow> (\<exists>lev. links_inv s ns lev \<and> (\<forall>a \<in> set ns. 0 < lev a)) \<and> in_order cmp ok s ns \<and> dom (sl_nodes s) \<subseteq> fst ` set rs"

definition insert_sorted :: "('k \<Rightarrow> 'k \<Rightarrow> int) \<Rightarrow> 'k \<Rightarrow> 'k list \<Rightarrow> 'k list" where
  "insert_sorted cmp key ks = takeWhile (\<lambda>k. cmp k key < 0) ks @ key # dropWhile (\<lambda>k. cmp k key < 0) ks"

lemma prefix_pred_split:
  "prefix_pred P ns \<Longrightarrow> \<forall>b \<in> set (dropWhile P ns). \<not> P b"
proof (induction ns)
  case (Cons a ns)
  have a: "\<forall>b \<in> set ns. P b \<longrightarrow> P a" "prefix_pred P ns" using Cons.prems by (simp_all add: prefix_pred_def)
  show ?case
  proof (cases "P a")
    case True
    then show ?thesis using Cons.IH [OF a(2)] by (simp only: dropWhile.simps if_True)
  next
    case False
    then show ?thesis using a(1) by (simp only: dropWhile.simps if_False) (metis set_ConsD)
  qed
qed simp

lemma dropWhile_hd: "dropWhile P xs = b # bs \<Longrightarrow> b \<in> set xs \<and> \<not> P b"
  by (metis dropWhile_eq_Cons_conv in_set_conv_decomp)

lemma found_split:
  "\<forall>a \<in> set ns. 0 < lev a \<Longrightarrow> found P lev ns = (case dropWhile P ns of [] \<Rightarrow> 0 | b # _ \<Rightarrow> b)"
  by (induction ns) (auto simp: found_def)

lemma map_before:
  "map (keyof s) (takeWhile (before cmp s key) ns) = takeWhile (\<lambda>k. cmp k key < 0) (map (keyof s) ns)"
  "map (keyof s) (dropWhile (before cmp s key) ns) = dropWhile (\<lambda>k. cmp k key < 0) (map (keyof s) ns)"
  by (induction ns) (auto simp: before_def)

context skip_order
begin

lemma Insert_find_spec:
  assumes inv: "links_inv s ns lev" "in_order cmp ok s ns" "ok key" and pos: "\<forall>a \<in> set ns. 0 < lev a"
  shows "if \<exists>a \<in> set ns. cmp key (keyof s a) = 0 then Insert_find compare key s = Some (Inl Assert_failed)
    else \<exists>prev. Insert_find compare key s = Some (Inr prev) \<and> prevs_ok cmp s ns lev key 0 (nat (sl_max_height s)) prev"
proof -
  let ?P = "before cmp s key"
  obtain prev where f: "FindGreaterOrEqual compare s key (Some (replicate (nat kMaxHeight) None)) = Some (Inr (found ?P lev ns, Some prev))"
    and prev: "prevs_ok cmp s ns lev key 0 (nat (sl_max_height s)) prev"
    using FindGreaterOrEqual_spec [OF inv, of "Some (replicate (nat kMaxHeight) None)"] by (auto simp: kMaxHeight_def)
  have split: "ns = takeWhile ?P ns @ dropWhile ?P ns" by simp
  have before: "cmp key (keyof s a) \<noteq> 0" if "a \<in> set (takeWhile ?P ns)" for a
  proof -
    have "a \<in> set ns" "?P a" using that by (auto dest: set_takeWhileD)
    moreover from this have "ok (keyof s a)" using node_key(2) [OF inv(1,2)] by simp
    ultimately show ?thesis using cmp_flip [of "keyof s a" key] inv(3) by (auto simp: before_def)
  qed
  show ?thesis
  proof (cases "dropWhile ?P ns")
    case Nil
    then have "takeWhile ?P ns = ns" using split by (metis append_Nil2)
    then have "\<not> (\<exists>a \<in> set ns. cmp key (keyof s a) = 0)" using before by metis
    moreover have "found ?P lev ns = 0" using found_split [OF pos, of ?P] Nil by simp
    ultimately show ?thesis using f prev by (simp add: Insert_find_def)
  next
    case (Cons b bs)
    then have b: "b \<in> set ns" "found ?P lev ns = b" using found_split [OF pos, of ?P] dropWhile_hd [OF Cons] by auto
    note nk = node_key [OF inv(1,2)]
    have nb: "ok (keyof s b)" "\<not> ?P b" using nk(2) [OF b(1)] dropWhile_hd [OF Cons] by auto
    have after: "cmp key (keyof s c) \<noteq> 0" if c: "c \<in> set bs" for c
    proof -
      have "sorted_wrt (\<lambda>a b. cmp (keyof s a) (keyof s b) < 0) ns" using inv(2) by (simp add: ordered_def sorted_wrt_map)
      then have "cmp (keyof s b) (keyof s c) < 0" using c split Cons by (metis sorted_wrt.simps(2) sorted_wrt_append)
      moreover have "c \<in> set ns" using c split Cons by (metis Un_iff list.set_intros(2) set_append)
      moreover have "cmp key (keyof s b) \<le> 0" using nb inv(3) cmp_not_le [of "keyof s b" key] by (simp add: before_def)
      ultimately have "cmp key (keyof s c) < 0" using cmp_trans_less [of key "keyof s b" "keyof s c"] nb(1) inv(3) nk(2) by blast
      then show ?thesis by simp
    qed
    have "(\<exists>a \<in> set ns. cmp key (keyof s a) = 0) \<longleftrightarrow> cmp key (keyof s b) = 0"
    proof
      assume "\<exists>a \<in> set ns. cmp key (keyof s a) = 0"
      then obtain a where a: "a \<in> set ns" "cmp key (keyof s a) = 0" by blast
      have "a \<in> set (takeWhile ?P ns) \<or> a = b \<or> a \<in> set bs" using a(1) split Cons by (metis Un_iff set_ConsD set_append)
      then show "cmp key (keyof s b) = 0" using a(2) before after by auto
    qed (use b in blast)
    then show ?thesis using f prev b nk(1,3) [OF b(1)] nb(1) inv(3)
      by (simp add: Insert_find_def compare_eq keyof_def)
  qed
qed

lemma insert_ordered:
  assumes ks: "ordered cmp ok ks" and key: "ok key" "\<forall>k \<in> set ks. cmp key k \<noteq> 0"
  shows "ordered cmp ok (insert_sorted cmp key ks)"
proof -
  let ?Q = "\<lambda>k. cmp k key < 0"
  let ?as = "takeWhile ?Q ks" and ?bs = "dropWhile ?Q ks"
  have split: "ks = ?as @ ?bs" by simp
  have ok: "\<forall>k \<in> set ks. ok k" using ks by (simp add: ordered_def list_all_iff)
  have "sorted_wrt (\<lambda>a b. cmp a b < 0) (?as @ ?bs)" using ks by (simp add: ordered_def)
  then have s: "sorted_wrt (\<lambda>a b. cmp a b < 0) ?as" "sorted_wrt (\<lambda>a b. cmp a b < 0) ?bs" "\<forall>a \<in> set ?as. \<forall>b \<in> set ?bs. cmp a b < 0"
    unfolding sorted_wrt_append by blast+
  have a: "\<forall>a \<in> set ?as. cmp a key < 0" by (auto dest: set_takeWhileD)
  have b: "cmp key b < 0" if b: "b \<in> set ?bs" for b
  proof (cases ?bs)
    case (Cons c cs)
    have c: "c \<in> set ks" "\<not> cmp c key < 0" using dropWhile_hd [OF Cons] by auto
    then have "cmp key c < 0" using key ok cmp_not_le [of c key] by force
    moreover have "b = c \<or> cmp c b < 0" using b s(2) Cons by auto
    moreover have "b \<in> set ks" using b set_dropWhileD by metis
    ultimately show ?thesis using cmp_less_trans [of key c b] key(1) ok c(1) by force
  qed (use b in \<open>simp only: list.set empty_iff\<close>)
  have "list_all ok (insert_sorted cmp key ks)" unfolding insert_sorted_def list_all_iff
    using ok key(1) by (auto dest: set_takeWhileD set_dropWhileD)
  moreover have "sorted_wrt (\<lambda>a b. cmp a b < 0) (insert_sorted cmp key ks)"
    unfolding insert_sorted_def sorted_wrt_append sorted_wrt.simps
    using s b a by (metis (no_types, lifting) set_ConsD)
  ultimately show ?thesis by (simp add: ordered_def)
qed

lemma sl_Insert_spec:
  assumes new: "new_ok new_char" and arena: "arena_inv arena rs" and view: "sl_view cmp ok s rs ns" and key: "ok key" "\<forall>a \<in> set ns. cmp key (keyof s a) \<noteq> 0"
  shows "\<exists>t arena' r ns'. sl_Insert new_char compare key s arena = Some (Inr (t, arena')) \<and> arena_inv arena' (r # rs)
    \<and> sl_view cmp ok t (r # rs) ns' \<and> map (keyof t) ns' = insert_sorted cmp key (map (keyof s) ns)"
proof -
  obtain lev where inv: "links_inv s ns lev" "\<forall>a \<in> set ns. 0 < lev a" "in_order cmp ok s ns" and dom: "dom (sl_nodes s) \<subseteq> fst ` set rs"
    using view unfolding sl_view_def by blast
  let ?P = "before cmp s key"
  define as bs where "as = takeWhile ?P ns" and "bs = dropWhile ?P ns"
  have ns: "ns = as @ bs" by (simp add: as_def bs_def)
  have P: "\<forall>a \<in> set as. ?P a" "\<forall>b \<in> set bs. \<not> ?P b"
    using prefix_pred_split [OF before_prefix [OF inv(3) key(1)]] by (auto simp: as_def bs_def dest: set_takeWhileD)
  obtain prev where f: "Insert_find compare key s = Some (Inr prev)" "prevs_ok cmp s ns lev key 0 (nat (sl_max_height s)) prev"
    using Insert_find_spec [OF inv(1,3) key(1) inv(2)] key(2) by auto
  obtain h prev' s1 where h: "Insert_height prev s = Inr (int h, prev', s1)" "1 \<le> h" "h \<le> 12" "int h \<le> sl_max_height s1" "links_inv s1 ns lev"
    "prevs_ok cmp s1 ns lev key 0 h prev'" and s1: "sl_nodes s1 = sl_nodes s" "sl_head s1 = sl_head s"
    using Insert_height_spec [OF inv(1) f(2)] .
  obtain x arena' where x: "NewNode new_char key (int h) s1 arena = Inr (x, with_node s1 x key h, arena')" "arena_inv arena' ((x, 8 + 8 * h) # rs)"
    using NewNode_spec [OF new arena h(2,3)] .
  have fresh: "x \<notin> dom (sl_nodes s1)" "x \<noteq> 0" using arena_fresh [OF x(2)] dom s1(1) by auto
  have lo: "last_on s1 as lev j p" if "stops (before cmp s1 key) s1 ns lev j p" for j p
    using stops_last_on [of s1 as bs lev ?P j p] h(5) P that ns by (simp add: before_cong(1) [OF s1(1)])
  have ins: "inserting (with_node s1 x key h) as x bs (lev(x := 0)) prev' h"
  proof (rule inserting_start [OF _ fresh h(4)])
    show "links_inv s1 (as @ bs) lev" using h(5) ns by simp
    show "length prev' = 12" using h(6) by (simp add: prevs_ok_def)
    show "\<forall>j < h. \<exists>p. prev' ! j = Some p \<and> last_on s1 as lev j p" using h(6) lo by (simp add: prevs_ok_def) blast
  qed
  obtain t where t: "link_levels prev' x 0 h (with_node s1 x key h) = Inr t" "same_nodes (with_node s1 x key h) t" "inserting t as x bs (lev(x := h)) prev' h"
    using link_levels_spec [OF ins, of h] by auto
  have "sl_Insert new_char compare key s arena = Some (Inr (t, arena'))"
    unfolding sl_Insert_def f(1) bindO_simps h(1) bindR_Inr case_prod_conv x(1) nat_int t(1) ..
  moreover have k: "keyof t = (keyof s)(x := key)" using t(2) before_cong(2) [OF s1(1)] by (simp add: same_nodes_def)
  have nx: "x \<notin> set ns" using fresh inv(1) s1(1) by (auto simp: links_inv_def)
  have keys: "map (keyof t) (as @ x # bs) = insert_sorted cmp key (map (keyof s) ns)"
    using nx map_before [of s cmp key ns] unfolding k insert_sorted_def as_def bs_def
    by (auto intro!: map_cong dest: set_takeWhileD set_dropWhileD simp: map_before [symmetric])
  moreover have "in_order cmp ok t (as @ x # bs)" unfolding keys using inv(3) key by (intro insert_ordered) auto
  moreover have "dom (sl_nodes t) \<subseteq> fst ` set ((x, 8 + 8 * h) # rs)" using t(2) dom s1(1) by (auto simp: same_nodes_def)
  moreover have "links_inv t (as @ x # bs) (lev(x := h))" using t(3) by (simp add: inserting_def)
  moreover have "\<forall>a \<in> set (as @ x # bs). 0 < (lev(x := h)) a" using inv(2) h(2) ns by auto
  ultimately show ?thesis using x(2) unfolding sl_view_def by blast
qed

lemma sl_Insert_twice:
  assumes "sl_view cmp ok s rs ns" "ok key" "\<exists>a \<in> set ns. cmp key (keyof s a) = 0"
  shows "sl_Insert new_char compare key s arena = Some (Inl Assert_failed)"
proof -
  obtain lev where inv: "links_inv s ns lev" "\<forall>a \<in> set ns. 0 < lev a" "in_order cmp ok s ns" using assms(1) unfolding sl_view_def by blast
  show ?thesis using Insert_find_spec [OF inv(1,3) assms(2) inv(2)] assms(3) by (simp add: sl_Insert_def)
qed

end


section \<open>A new list\<close>

lemma clear_links_spec:
  assumes "sl_head s \<noteq> 0" "sl_head s \<in> dom (sl_nodes s)" "i + n \<le> height s (sl_head s)"
  shows "\<exists>t. clear_links (int i) n s = Inr t \<and> same_nodes s t \<and> (\<forall>j. link t (sl_head s) j = (if i \<le> j \<and> j < i + n then Some 0 else link s (sl_head s) j))"
  using assms
proof (induction n arbitrary: i s)
  case 0
  then show ?case by (auto simp: same_nodes_def)
next
  case (Suc n)
  obtain t where t: "Node_SetNext s (sl_head s) (int i) 0 = Inr t" "same_nodes s t" "\<forall>b j. link t b j = (if b = sl_head s \<and> j = i then Some 0 else link s b j)"
    using SetNext_spec [OF Suc.prems(1,2), of i 0] Suc.prems(3) by auto
  have h: "sl_head t = sl_head s" using t(2) by (simp add: same_nodes_def)
  obtain u where u: "clear_links (int (Suc i)) n t = Inr u" "same_nodes t u"
      "\<forall>j. link u (sl_head s) j = (if Suc i \<le> j \<and> j < Suc i + n then Some 0 else link t (sl_head s) j)"
    using Suc.IH [of t "Suc i"] Suc.prems t(2) unfolding h by (auto simp: same_nodes_def)
  have e: "int i + 1 = int (Suc i)" by simp
  have "clear_links (int i) (Suc n) s = Inr u" unfolding clear_links.simps t(1) bindR_Inr e u(1) ..
  then show ?case using u(3) t(3) same_nodes_trans [OF t(2) u(2)] by (auto simp: not_less_eq_eq)
qed

lemma SkipList_new_spec:
  fixes zero :: 'k
  assumes "new_ok new_char" "arena_inv arena rs"
  shows "\<exists>s arena' r. SkipList_new new_char zero arena = Inr (s, arena') \<and> arena_inv arena' (r # rs) \<and> sl_view cmp ok s (r # rs) []"
proof -
  define s0 :: "'k SkipList" where "s0 = \<lparr>sl_nodes = Map.empty, sl_head = 0, sl_max_height = 0, sl_rnd = 0\<rparr>"
  obtain x arena' where x: "NewNode new_char zero (int 12) s0 arena = Inr (x, with_node s0 x zero 12, arena')" "arena_inv arena' ((x, 8 + 8 * 12) # rs)"
    using NewNode_spec [OF assms, where h = 12 and key = zero and s = s0] by auto
  define s where "s = (with_node s0 x zero 12)\<lparr>sl_head := x, sl_max_height := 1, sl_rnd := Random_new 0xdeadbeef\<rparr>"
  have s: "sl_head s = x" "sl_max_height s = 1" "dom (sl_nodes s) = {x}" "height s x = 12"
    by (auto simp: s_def with_node_def s0_def height_def)
  have "x \<noteq> 0" using arena_fresh(1) [OF x(2)] by simp
  then obtain t where t: "clear_links (int 0) 12 s = Inr t" "same_nodes s t" "\<forall>j. link t x j = (if 0 \<le> j \<and> j < 0 + 12 then Some 0 else link s x j)"
    using clear_links_spec [of s 0 12] s by auto
  have n: "SkipList_new new_char zero arena = Inr (t, arena')"
    using x(1) t(1) by (simp add: SkipList_new_def kMaxHeight_def s0_def [symmetric] s_def [symmetric])
  have "links_inv t [] (\<lambda>_. 12)"
    using t s \<open>x \<noteq> 0\<close> by (simp add: links_inv_def same_nodes_def kMaxHeight_def first_at_Nil)
  then have "sl_view cmp ok t ((x, 8 + 8 * 12) # rs) []"
    using t(2) s unfolding sl_view_def by (auto simp: ordered_def same_nodes_def)
  then show ?thesis using n x(2) by blast
qed

section \<open>The iterator as a cursor\<close>

definition node_of :: "addr list \<Rightarrow> nat option \<Rightarrow> addr" where
  "node_of ns c = (case c of None \<Rightarrow> 0 | Some j \<Rightarrow> ns ! j)"

lemma stops_last:
  assumes inv: "links_inv s ns lev" "\<forall>a \<in> set ns. 0 < lev a" and st: "stops P s ns lev 0 x"
  shows "x = last (sl_head s # takeWhile P ns)"
proof -
  obtain post where at: "search_at P s ns lev x 0 post" "\<forall>b \<in> set post. 0 < lev b \<longrightarrow> \<not> P b" using st unfolding stops_def by blast
  obtain as pre where as: "ns = as @ post" "\<forall>a \<in> set as. P a" "sl_head s # as = pre @ [x]" using search_at_prefix [OF inv(1) at(1)] .
  have "\<forall>b \<in> set post. \<not> P b" using at(2) inv(2) as(1) by auto
  then have "takeWhile P post = []" by (cases post) auto
  then have "takeWhile P ns = as" using as(1,2) by (simp add: takeWhile_append2)
  then show ?thesis using as(3) by (metis last_snoc)
qed

context skip_order
begin

lemma viewE:
  assumes "sl_view cmp ok s rs ns"
  obtains lev where "links_inv s ns lev" "\<forall>a \<in> set ns. 0 < lev a" "in_order cmp ok s ns" "sl_head s \<notin> set ns" "0 \<notin> set ns"
  using assms unfolding sl_view_def by (auto simp: links_inv_def)

lemma first_at_rest: "\<forall>a \<in> set as. 0 < lev a \<Longrightarrow> first_at lev 0 as = node_of as (position as 0)"
  by (cases as) (auto simp: first_at_Cons first_at_Nil node_of_def position_def)

lemma sli_SeekToFirst_spec:
  assumes "sl_view cmp ok s rs ns"
  shows "sli_SeekToFirst s = Inr (node_of ns (position ns 0))"
proof -
  obtain lev where inv: "links_inv s ns lev" "\<forall>a \<in> set ns. 0 < lev a" using viewE [OF assms] by metis
  have "0 < lev (sl_head s)" using inv(1) by (simp add: links_inv_def)
  then have "Node_Next s (sl_head s) (int 0) = Inr (first_at lev 0 ns)" by (intro Next_on_path [OF inv(1), of "[]"]) simp
  then show ?thesis using first_at_rest [of ns lev] inv(2) by (simp add: sli_SeekToFirst_def)
qed

lemma sli_Next_spec:
  assumes "sl_view cmp ok s rs ns" "j < length ns"
  shows "sli_Next s (ns ! j) = Inr (node_of ns (position ns (Suc j)))"
proof -
  obtain lev where inv: "links_inv s ns lev" "\<forall>a \<in> set ns. 0 < lev a" "0 \<notin> set ns" using viewE [OF assms(1)] by metis
  have path: "sl_head s # ns = (sl_head s # take j ns) @ ns ! j # drop (Suc j) ns" using assms(2) by (simp add: id_take_nth_drop [symmetric])
  have "0 < lev (ns ! j)" "ns ! j \<noteq> 0" using inv(2,3) assms(2) nth_mem [OF assms(2)] by metis+
  then have "sli_Next s (ns ! j) = Inr (first_at lev 0 (drop (Suc j) ns))"
    using Next_on_path [OF inv(1) path, of 0] by (simp add: sli_Next_def)
  moreover have "\<forall>a \<in> set (drop (Suc j) ns). 0 < lev a" using inv(2) by (auto dest: in_set_dropD)
  ultimately show ?thesis using first_at_rest [of "drop (Suc j) ns" lev] assms(2) by (auto simp: node_of_def position_def)
qed

lemma sli_key_spec:
  assumes "sl_view cmp ok s rs ns" "j < length ns"
  shows "sli_key s (ns ! j) = Inr (keyof s (ns ! j))" "ok (keyof s (ns ! j))"
proof -
  obtain lev where inv: "links_inv s ns lev" "in_order cmp ok s ns" using viewE [OF assms(1)] by metis
  show "sli_key s (ns ! j) = Inr (keyof s (ns ! j))" "ok (keyof s (ns ! j))"
    using node_key [OF inv nth_mem [OF assms(2)]] by (simp_all add: sli_key_def keyof_def)
qed

lemma sli_Prev_spec:
  assumes "sl_view cmp ok s rs ns" "j < length ns"
  shows "sli_Prev compare s (ns ! j) = Some (Inr (node_of ns (if j = 0 then None else Some (j - 1))))"
proof -
  obtain lev where inv: "links_inv s ns lev" "\<forall>a \<in> set ns. 0 < lev a" "in_order cmp ok s ns" "sl_head s \<notin> set ns"
    using viewE [OF assms(1)] by metis
  let ?k = "keyof s (ns ! j)"
  note k = sli_key_spec [OF assms]
  obtain x where x: "FindLessThan compare s ?k = Some (Inr x)" "stops (before cmp s ?k) s ns lev 0 x"
    using FindLessThan_spec [OF inv(1,3) k(2)] by blast
  have "sorted_wrt (\<lambda>a b. cmp (keyof s a) (keyof s b) < 0) ns" using inv(3) by (simp add: ordered_def sorted_wrt_map)
  then have "before cmp s ?k (ns ! i)" if "i < j" for i using that assms(2) by (auto simp: before_def sorted_wrt_iff_nth_less)
  moreover have "\<not> before cmp s ?k (ns ! j)" using cmp_refl [OF k(2)] by (simp add: before_def)
  ultimately have "takeWhile (before cmp s ?k) ns = take j ns" using assms(2) by (intro takeWhile_eq_take_P_nth) auto
  then have "x = last (sl_head s # take j ns)" using stops_last [OF inv(1,2) x(2)] by simp
  moreover have "last (take j ns) = ns ! (j - 1)" "ns ! (j - 1) \<noteq> sl_head s" if "j \<noteq> 0"
  proof -
    have i: "j - 1 < length ns" "take j ns \<noteq> []" using that assms(2) by auto
    show "last (take j ns) = ns ! (j - 1)" using i assms(2) that by (simp add: last_conv_nth)
    show "ns ! (j - 1) \<noteq> sl_head s" using inv(4) nth_mem [OF i(1)] by metis
  qed
  ultimately show ?thesis using x(1) k(1) assms(2) by (auto simp: sli_Prev_def node_of_def)
qed

lemma sli_SeekToLast_spec:
  assumes "sl_view cmp ok s rs ns"
  shows "sli_SeekToLast s = Some (Inr (node_of ns (if ns = [] then None else Some (length ns - 1))))"
proof -
  obtain lev where inv: "links_inv s ns lev" "\<forall>a \<in> set ns. 0 < lev a" "sl_head s \<notin> set ns" using viewE [OF assms] by metis
  obtain x where x: "FindLast s = Some (Inr x)" "stops (\<lambda>_. True) s ns lev 0 x" using FindLast_spec [OF inv(1)] by blast
  have t: "takeWhile (\<lambda>_. True) ns = ns" by (induction ns) auto
  have "x = last (sl_head s # ns)" using stops_last [OF inv(1,2) x(2)] unfolding t .
  moreover have "last ns \<noteq> sl_head s" if "ns \<noteq> []" using inv(3) last_in_set [OF that] by metis
  ultimately show ?thesis using x(1) by (auto simp: sli_SeekToLast_def node_of_def last_conv_nth)
qed

lemma find_ge_position:
  assumes "sl_view cmp ok s rs ns" "ok key"
  shows "\<exists>prev. FindGreaterOrEqual compare s key None
    = Some (Inr (node_of ns (position ns (length (takeWhile (\<lambda>k. cmp k key < 0) (map (keyof s) ns)))), prev))"
proof -
  obtain lev where inv: "links_inv s ns lev" "\<forall>a \<in> set ns. 0 < lev a" "in_order cmp ok s ns" using viewE [OF assms(1)] by metis
  let ?n = "length (takeWhile (before cmp s key) ns)"
  have "length (takeWhile (\<lambda>k. cmp k key < 0) (map (keyof s) ns)) = ?n" using map_before(1) [of s cmp key ns] by (metis length_map)
  moreover have "found (before cmp s key) lev ns = node_of ns (position ns ?n)"
  proof (cases "dropWhile (before cmp s key) ns")
    case Nil
    then show ?thesis using found_split [OF inv(2), of "before cmp s key"] by (simp add: node_of_def position_def dropWhile_eq_drop)
  next
    case (Cons b bs)
    then have d: "drop ?n ns = b # bs" by (simp add: dropWhile_eq_drop)
    then have "?n < length ns" by (metis drop_all list.distinct(1) not_le)
    moreover have "ns ! ?n = b" using d by (rule nth_via_drop)
    moreover note Cons
    ultimately show ?thesis using found_split [OF inv(2), of "before cmp s key"] by (simp add: node_of_def position_def)
  qed
  ultimately show ?thesis using FindGreaterOrEqual_spec [OF inv(1,3) assms(2), of None] by auto
qed

lemma sli_Seek_spec:
  assumes "sl_view cmp ok s rs ns" "ok key"
  shows "sli_Seek compare s key = Some (Inr (node_of ns (position ns (length (takeWhile (\<lambda>k. cmp k key < 0) (map (keyof s) ns))))))"
  using find_ge_position [OF assms] by (auto simp: sli_Seek_def)

lemma sl_Contains_spec:
  assumes view: "sl_view cmp ok s rs ns" and key: "ok key"
  shows "sl_Contains compare s key = Some (Inr (\<exists>a \<in> set ns. cmp key (keyof s a) = 0))"
proof -
  obtain lev where inv: "links_inv s ns lev" "\<forall>a \<in> set ns. 0 < lev a" "in_order cmp ok s ns" using viewE [OF view] by metis
  obtain x p q where f: "FindGreaterOrEqual compare s key None = Some (Inr (x, p))"
      "FindGreaterOrEqual compare s key (Some (replicate (nat kMaxHeight) None)) = Some (Inr (x, Some q))"
    using FindGreaterOrEqual_spec [OF inv(1,3) key, of None] FindGreaterOrEqual_spec [OF inv(1,3) key, of "Some (replicate (nat kMaxHeight) None)"]
    by (auto simp: kMaxHeight_def)
  have "Insert_find compare key s = Some (Inl Assert_failed) \<longleftrightarrow> (\<exists>a \<in> set ns. cmp key (keyof s a) = 0)"
    using Insert_find_spec [OF inv(1,3) key inv(2)] by (auto split: if_splits)
  moreover have "x = 0 \<or> node_at s x = Inr (the (sl_nodes s x)) \<and> ok (keyof s x)"
    using f(1) find_ge_position [OF view key] node_key [OF inv(1,3) nth_mem] by (auto simp: node_of_def position_def split: if_splits)
  ultimately show ?thesis using f key by (auto simp: sl_Contains_def Insert_find_def compare_eq keyof_def assertR_def split: if_splits)
qed

end


end
