(* ===== verification/Ldb_Skiplist_Conc.thy ===== *)
theory Ldb_Skiplist_Conc
  imports Ldb_Skiplist_Ops
begin

text \<open>
  A skip list with readers that take no lock (the comment on thread safety in \<^verbatim>\<open>db/skiplist.h\<close>): the steps of one writer and of any number of readers interleave. Every load
  and store sees memory as it is at that moment; the weaker orders that the barriers of \<^verbatim>\<open>port/atomic_pointer.h\<close> rule out are not modelled.
\<close>

section \<open>Readers beside a writer: model\<close>

text \<open>
  One thread inserts while others search, without a lock. A step is one store of the writer that others can see, or one turn of the loop of a search, which
  loads one link. A writer is between two insertions, or has found the place of its key, or has chosen the height, or is about to store into
  its node on the level \<open>i\<close>, or to publish it there.
\<close>

datatype 'k sl_writer =
    Idle
  | Placed 'k "addr option list"
  | Raised 'k int "addr option list"
  | Linking addr "addr option list" nat nat
  | Publishing addr "addr option list" nat nat

inductive writer_step :: "(region list \<Rightarrow> nat \<Rightarrow> addr) \<Rightarrow> ('k \<Rightarrow> 'k \<Rightarrow> int res) \<Rightarrow> ('k \<Rightarrow> bool) \<Rightarrow>
    'k SkipList \<times> Arena \<times> 'k sl_writer \<Rightarrow> 'k SkipList \<times> Arena \<times> 'k sl_writer \<Rightarrow> bool"
  for new_char compare ok where
  W_find: "ok key \<Longrightarrow> Insert_find compare key s = Some (Inr prev) \<Longrightarrow> writer_step new_char compare ok (s, a, Idle) (s, a, Placed key prev)"
| W_height: "Insert_height prev s = Inr (h, prev', t) \<Longrightarrow> writer_step new_char compare ok (s, a, Placed key prev) (t, a, Raised key h prev')"
| W_node: "NewNode new_char key h s a = Inr (x, t, b) \<Longrightarrow> writer_step new_char compare ok (s, a, Raised key h prev) (t, b, Linking x prev 0 (nat h))"
| W_link: "i < h \<Longrightarrow> link_node prev x (int i) s = Inr t \<Longrightarrow> writer_step new_char compare ok (s, a, Linking x prev i h) (t, a, Publishing x prev i h)"
| W_publish: "publish_node prev x (int i) s = Inr t \<Longrightarrow> writer_step new_char compare ok (s, a, Publishing x prev i h) (t, a, Linking x prev (Suc i) h)"
| W_done: "\<not> i < h \<Longrightarrow> writer_step new_char compare ok (s, a, Linking x prev i h) (s, a, Idle)"

datatype 'k sl_reader = Resting | Searching 'k addr int | Returned 'k addr

inductive reader_step :: "('k \<Rightarrow> 'k \<Rightarrow> int res) \<Rightarrow> ('k \<Rightarrow> bool) \<Rightarrow> 'k SkipList \<Rightarrow> 'k sl_reader \<Rightarrow> 'k sl_reader \<Rightarrow> bool"
  for compare ok s where
  R_start: "ok key \<Longrightarrow> reader_step compare ok s r (Searching key (sl_head s) (sl_max_height s - 1))"
| R_turn: "fge_body compare s key (x, level, None) = Inr (Inl (x', level', p)) \<Longrightarrow> reader_step compare ok s (Searching key x level) (Searching key x' level')"
| R_return: "fge_body compare s key (x, level, None) = Inr (Inr (n, p)) \<Longrightarrow> reader_step compare ok s (Searching key x level) (Returned key n)"

type_synonym 'k conc = "'k SkipList \<times> Arena \<times> 'k sl_writer \<times> (nat \<Rightarrow> 'k sl_reader)"

inductive conc_reach :: "(region list \<Rightarrow> nat \<Rightarrow> addr) \<Rightarrow> ('k \<Rightarrow> 'k \<Rightarrow> int res) \<Rightarrow> ('k \<Rightarrow> bool) \<Rightarrow> 'k \<Rightarrow> 'k conc \<Rightarrow> bool"
  for new_char compare ok zero where
  C_new: "SkipList_new new_char zero Arena_new = Inr (s, a) \<Longrightarrow> conc_reach new_char compare ok zero (s, a, Idle, \<lambda>_. Resting)"
| C_write: "conc_reach new_char compare ok zero (s, a, w, R) \<Longrightarrow> writer_step new_char compare ok (s, a, w) (t, b, w') \<Longrightarrow>
    conc_reach new_char compare ok zero (t, b, w', R)"
| C_read: "conc_reach new_char compare ok zero (s, a, w, R) \<Longrightarrow> reader_step compare ok s (R k) r \<Longrightarrow>
    conc_reach new_char compare ok zero (s, a, w, R(k := r))"

inductive_cases writer_stepE: "writer_step new_char compare ok (s, a, w) (t, b, w')"

text \<open>The list as a reader at rest sees it: the nodes on the lowest level.\<close>

fun sl_chain :: "'k SkipList \<Rightarrow> addr \<Rightarrow> addr list \<Rightarrow> bool" where
  "sl_chain s a [] \<longleftrightarrow> Node_Next s a 0 = Inr 0"
| "sl_chain s a (b # bs) \<longleftrightarrow> Node_Next s a 0 = Inr b \<and> b \<noteq> 0 \<and> sl_chain s b bs"

section \<open>Readers beside a writer\<close>

definition writer_ok :: "('k \<Rightarrow> 'k \<Rightarrow> int) \<Rightarrow> ('k \<Rightarrow> bool) \<Rightarrow> 'k SkipList \<Rightarrow> addr list \<Rightarrow> (addr \<Rightarrow> nat) \<Rightarrow> 'k sl_writer \<Rightarrow> bool" where
  "writer_ok cmp ok s ns lev w \<longleftrightarrow> (case w of
       Idle \<Rightarrow> (\<forall>a \<in> set ns. 0 < lev a)
     | Placed key prev \<Rightarrow> (\<forall>a \<in> set ns. 0 < lev a) \<and> ok key \<and> (\<forall>a \<in> set ns. cmp key (keyof s a) \<noteq> 0) \<and> prevs_ok cmp s ns lev key 0 (nat (sl_max_height s)) prev
     | Raised key h prev \<Rightarrow> (\<forall>a \<in> set ns. 0 < lev a) \<and> ok key \<and> (\<forall>a \<in> set ns. cmp key (keyof s a) \<noteq> 0)
         \<and> 1 \<le> h \<and> h \<le> 12 \<and> h \<le> sl_max_height s \<and> prevs_ok cmp s ns lev key 0 (nat h) prev
     | Linking x prev i h \<Rightarrow> \<exists>as bs. ns = as @ x # bs \<and> inserting s as x bs lev prev h \<and> lev x = i \<and> 1 \<le> h \<and> (\<forall>a \<in> set (as @ bs). 0 < lev a)
     | Publishing x prev i h \<Rightarrow> \<exists>as bs. ns = as @ x # bs \<and> inserting s as x bs lev prev h \<and> lev x = i \<and> i < h \<and> link s x i = Some (first_at lev i bs)
         \<and> (\<forall>a \<in> set (as @ bs). 0 < lev a))"

definition reader_ok :: "('k \<Rightarrow> 'k \<Rightarrow> int) \<Rightarrow> ('k \<Rightarrow> bool) \<Rightarrow> 'k SkipList \<Rightarrow> addr list \<Rightarrow> (addr \<Rightarrow> nat) \<Rightarrow> 'k sl_reader \<Rightarrow> bool" where
  "reader_ok cmp ok s ns lev r \<longleftrightarrow> (case r of
       Searching key x level \<Rightarrow> ok key \<and> x \<in> set (sl_head s # ns) \<and> (x \<noteq> sl_head s \<longrightarrow> before cmp s key x) \<and> 0 \<le> level \<and> level < int (lev x)
     | _ \<Rightarrow> True)"

definition shared_inv :: "('k \<Rightarrow> 'k \<Rightarrow> int) \<Rightarrow> ('k \<Rightarrow> bool) \<Rightarrow> 'k SkipList \<Rightarrow> Arena \<Rightarrow> 'k sl_writer \<Rightarrow> region list \<Rightarrow> addr list \<Rightarrow> (addr \<Rightarrow> nat) \<Rightarrow> bool" where
  "shared_inv cmp ok s a w rs ns lev \<longleftrightarrow> arena_inv a rs \<and> dom (sl_nodes s) \<subseteq> fst ` set rs \<and> links_inv s ns lev \<and> in_order cmp ok s ns
     \<and> writer_ok cmp ok s ns lev w"

text \<open>What a step of the writer keeps for the readers.\<close>

definition grows :: "'k SkipList \<Rightarrow> addr list \<Rightarrow> (addr \<Rightarrow> nat) \<Rightarrow> 'k SkipList \<Rightarrow> addr list \<Rightarrow> (addr \<Rightarrow> nat) \<Rightarrow> bool" where
  "grows s ns lev t ns' lev' \<longleftrightarrow> sl_head t = sl_head s \<and> set ns \<subseteq> set ns' \<and> (\<forall>a \<in> set (sl_head s # ns). lev a \<le> lev' a \<and> keyof t a = keyof s a)"

text \<open>A position of a reader stays one when the list grows.\<close>

lemma reader_ok_mono:
  "reader_ok cmp ok s ns lev r \<Longrightarrow> grows s ns lev t ns' lev' \<Longrightarrow> reader_ok cmp ok t ns' lev' r"
  by (force simp: reader_ok_def grows_def before_def split: sl_reader.splits)

lemma linked_chain:
  assumes "links_inv s ns lev" "sl_head s # ns = pre @ a # post" "0 < lev a"
  shows "sl_chain s a (filter (\<lambda>a. 0 < lev a) post)"
  using assms(2,3)
proof (induction "length post" arbitrary: pre a post rule: less_induct)
  case less
  have n: "Node_Next s a 0 = Inr (first_at lev 0 post)" using Next_on_path [OF assms(1) less.prems] by simp
  have "0 \<notin> set post" using assms(1) less.prems(1) unfolding links_inv_def by (metis Un_iff list.set_intros(2) set_append)
  then show ?case
  proof (cases rule: first_at_cases [of post lev 0])
    case none
    then have "filter (\<lambda>a. 0 < lev a) post = []" by (simp add: filter_empty_conv)
    then show ?thesis using n none by simp
  next
    case (some bs b cs)
    have "sl_head s # ns = (pre @ a # bs) @ b # cs" using less.prems(1) some(1) by simp
    then have "sl_chain s b (filter (\<lambda>a. 0 < lev a) cs)" using less.hyps some(1,3) by simp
    moreover have "filter (\<lambda>a. 0 < lev a) bs = []" using some(4) by (simp add: filter_empty_conv)
    ultimately show ?thesis using n some by simp
  qed
qed

context skip_order
begin

lemma search_atI:
  assumes inv: "links_inv s ns lev" "in_order cmp ok s ns" "ok key" and x: "x \<in> set (sl_head s # ns)" "x \<noteq> sl_head s \<longrightarrow> before cmp s key x" "i < lev x"
  shows "\<exists>post. search_at (before cmp s key) s ns lev x i post"
proof -
  obtain pre post where path: "sl_head s # ns = pre @ x # post" using x(1) by (metis split_list)
  have "before cmp s key a" if m: "a \<in> set pre" "a \<noteq> sl_head s" for a
  proof -
    obtain pre' where pre: "pre = sl_head s # pre'" using m path by (cases pre) auto
    then have ns: "ns = pre' @ x # post" "a \<in> set pre'" using path m by auto
    have "x \<noteq> sl_head s" using inv(1) ns(1) by (auto simp: links_inv_def)
    then show ?thesis using before_prefix [OF inv(2,3)] x(2) ns by (auto simp: prefix_pred_def sorted_wrt_append)
  qed
  then show ?thesis using path x(2,3) unfolding search_at_def by (intro exI [of _ post] conjI exI [of _ pre]) auto
qed

text \<open>One turn of a search, in whatever state the writer is: it does not fail, it stays on the path, and what it returns is right for the list of this moment.\<close>

lemma reader_turn:
  assumes inv: "links_inv s ns lev" "in_order cmp ok s ns" and r: "reader_ok cmp ok s ns lev (Searching key x level)"
  shows "(\<exists>x' level'. fge_body compare s key (x, level, None) = Inr (Inl (x', level', None)) \<and> reader_ok cmp ok s ns lev (Searching key x' level'))
    \<or> fge_body compare s key (x, level, None) = Inr (Inr (found (before cmp s key) lev ns, None))"
proof -
  define i where "i = nat level"
  have x: "ok key" "x \<in> set (sl_head s # ns)" "x \<noteq> sl_head s \<longrightarrow> before cmp s key x" "level = int i" "i < lev x"
    using r by (auto simp: reader_ok_def i_def)
  obtain post where at: "search_at (before cmp s key) s ns lev x i post" using search_atI [OF inv x(1,2,3,5)] by blast
  have pos: "reader_ok cmp ok s ns lev (Searching key y (int j))" if sa: "search_at (before cmp s key) s ns lev y j q" for y j q
    using sa x(1) unfolding search_at_def reader_ok_def by (auto, metis in_set_conv_decomp set_ConsD)
  from fge_body_step [OF inv x(1) at, of None] consider
      (move) n post' where "fge_body compare s key (x, int i, None) = Inr (Inl (n, int i, None))" "search_at (before cmp s key) s ns lev n i post'"
    | (stop) "fge_body compare s key (x, int i, None) = Inr (if i = 0 then Inr (found (before cmp s key) lev ns, None) else Inl (x, int (i - 1), None))"
    by auto
  then show ?thesis
  proof cases
    case move
    then show ?thesis using pos x(4) by blast
  next
    case stop
    show ?thesis
    proof (cases i)
      case (Suc j)
      then have "search_at (before cmp s key) s ns lev x j post" using at search_at_lower by metis
      then show ?thesis using pos stop x(4) Suc by auto
    qed (use stop x(4) in simp)
  qed
qed

end


lemma grows_refl: "sl_head t = sl_head s \<Longrightarrow> keyof t = keyof s \<Longrightarrow> grows s ns lev t ns lev"
  by (simp add: grows_def)

context skip_order
begin

lemma writer_find:
  assumes "shared_inv cmp ok s a Idle rs ns lev" "ok key" "Insert_find compare key s = Some (Inr prev)"
  shows "shared_inv cmp ok s a (Placed key prev) rs ns lev"
proof -
  have inv: "links_inv s ns lev" "in_order cmp ok s ns" "\<forall>a \<in> set ns. 0 < lev a" using assms(1) by (simp_all add: shared_inv_def writer_ok_def)
  show ?thesis using assms Insert_find_spec [OF inv(1,2) assms(2) inv(3)] by (auto simp: shared_inv_def writer_ok_def split: if_splits)
qed

lemma writer_height:
  assumes "shared_inv cmp ok s a (Placed key prev) rs ns lev" "Insert_height prev s = Inr (h, prev', t)"
  shows "shared_inv cmp ok t a (Raised key h prev') rs ns lev \<and> sl_head t = sl_head s \<and> keyof t = keyof s"
proof -
  have inv: "links_inv s ns lev" "prevs_ok cmp s ns lev key 0 (nat (sl_max_height s)) prev"
    using assms(1) by (simp_all add: shared_inv_def writer_ok_def)
  obtain h0 where h: "h = int h0" "1 \<le> h0" "h0 \<le> 12" "int h0 \<le> sl_max_height t" "links_inv t ns lev" "prevs_ok cmp t ns lev key 0 h0 prev'"
    and t: "sl_nodes t = sl_nodes s" "sl_head t = sl_head s"
    using Insert_height_spec [OF inv] assms(2) by (metis Inr_inject prod.inject)
  show ?thesis using assms(1) h t before_cong(2) [OF t(1)] by (simp add: shared_inv_def writer_ok_def)
qed

lemma writer_node:
  assumes new: "new_ok new_char" and inv: "shared_inv cmp ok s a (Raised key h prev) rs ns lev" and n: "NewNode new_char key h s a = Inr (x, t, b)"
  shows "\<exists>r ns' lev'. shared_inv cmp ok t b (Linking x prev 0 (nat h)) (r # rs) ns' lev' \<and> grows s ns lev t ns' lev'"
proof -
  define h0 where "h0 = nat h"
  have w: "arena_inv a rs" "dom (sl_nodes s) \<subseteq> fst ` set rs" "links_inv s ns lev" "in_order cmp ok s ns" "\<forall>a \<in> set ns. 0 < lev a" "ok key"
    "\<forall>a \<in> set ns. cmp key (keyof s a) \<noteq> 0" "h = int h0" "1 \<le> h0" "h0 \<le> 12" "int h0 \<le> sl_max_height s" "prevs_ok cmp s ns lev key 0 h0 prev"
    using inv by (auto simp: shared_inv_def writer_ok_def h0_def)
  have x: "t = with_node s x key h0" "arena_inv b ((x, 8 + 8 * h0) # rs)"
    using NewNode_spec [OF new w(1,9,10), of key s] n unfolding w(8) by (metis Inr_inject prod.inject)+
  have fresh: "x \<notin> dom (sl_nodes s)" "x \<noteq> 0" using arena_fresh [OF x(2)] w(2) by auto
  let ?P = "before cmp s key"
  define as bs where "as = takeWhile ?P ns" and "bs = dropWhile ?P ns"
  have ns: "ns = as @ bs" by (simp add: as_def bs_def)
  have P: "\<forall>a \<in> set as. ?P a" "\<forall>b \<in> set bs. \<not> ?P b"
    using prefix_pred_split [OF before_prefix [OF w(4,6)]] by (auto simp: as_def bs_def dest: set_takeWhileD)
  have lo: "last_on s as lev j p" if st: "stops ?P s ns lev j p" for j p
    using stops_last_on [of s as bs lev ?P j p] w(3) P st ns by simp
  have ins: "inserting t as x bs (lev(x := 0)) prev h0" unfolding x(1)
  proof (rule inserting_start [OF _ fresh w(11)])
    show "links_inv s (as @ bs) lev" using w(3) ns by simp
    show "length prev = 12" using w(12) by (simp add: prevs_ok_def)
    show "\<forall>j < h0. \<exists>p. prev ! j = Some p \<and> last_on s as lev j p" using w(12) lo by (simp add: prevs_ok_def) blast
  qed
  have nx: "x \<notin> set (sl_head s # ns)" using fresh w(3) by (auto simp: links_inv_def)
  have keys: "map (keyof t) (as @ x # bs) = insert_sorted cmp key (map (keyof s) ns)"
    using nx unfolding x(1) insert_sorted_def as_def bs_def
    by (auto intro!: map_cong dest: set_takeWhileD set_dropWhileD simp: map_before [symmetric])
  have "in_order cmp ok t (as @ x # bs)" unfolding keys using w(4,6,7) by (intro insert_ordered) auto
  moreover have "dom (sl_nodes t) \<subseteq> fst ` set ((x, 8 + 8 * h0) # rs)" using w(2) x(1) by auto
  moreover have "writer_ok cmp ok t (as @ x # bs) (lev(x := 0)) (Linking x prev 0 (nat h))"
    using ins w(5,8,9) ns nx unfolding writer_ok_def by auto
  moreover have "grows s ns lev t (as @ x # bs) (lev(x := 0))" using nx ns x(1) by (auto simp: grows_def)
  ultimately show ?thesis using x(2) ins unfolding shared_inv_def inserting_def by blast
qed

lemma writer_link:
  assumes inv: "shared_inv cmp ok s a (Linking x prev i h) rs ns lev" "i < h" "link_node prev x (int i) s = Inr t"
  shows "shared_inv cmp ok t a (Publishing x prev i h) rs ns lev \<and> sl_head t = sl_head s \<and> keyof t = keyof s"
proof -
  obtain as bs where w: "ns = as @ x # bs" "inserting s as x bs lev prev h" "lev x = i" "\<forall>a \<in> set (as @ bs). 0 < lev a"
    using inv(1) by (auto simp: shared_inv_def writer_ok_def)
  have t: "same_nodes s t" "inserting t as x bs lev prev h" "link t x i = Some (first_at lev i bs)"
    using link_node_step [OF w(2,3) inv(2)] inv(3) by auto
  then have "writer_ok cmp ok t ns lev (Publishing x prev i h)" using w inv(2) by (auto simp: writer_ok_def)
  then show ?thesis using inv(1) t w(1) by (simp add: shared_inv_def same_nodes_def inserting_def)
qed

lemma writer_publish:
  assumes inv: "shared_inv cmp ok s a (Publishing x prev i h) rs ns lev" "publish_node prev x (int i) s = Inr t"
  shows "shared_inv cmp ok t a (Linking x prev (Suc i) h) rs ns (lev(x := Suc i)) \<and> grows s ns lev t ns (lev(x := Suc i))"
proof -
  obtain as bs where w: "ns = as @ x # bs" "inserting s as x bs lev prev h" "lev x = i" "i < h" "link s x i = Some (first_at lev i bs)" "\<forall>a \<in> set (as @ bs). 0 < lev a"
    using inv(1) by (auto simp: shared_inv_def writer_ok_def)
  have t: "same_nodes s t" "inserting t as x bs (lev(x := Suc i)) prev h"
    using publish_node_step [OF w(2,3,4,5)] inv(2) by auto
  then have "writer_ok cmp ok t ns (lev(x := Suc i)) (Linking x prev (Suc i) h)" using w by (auto simp: writer_ok_def)
  moreover have "grows s ns lev t ns (lev(x := Suc i))" using t(1) w(3) by (auto simp: grows_def same_nodes_def)
  ultimately show ?thesis using inv(1) t w(1) by (simp add: shared_inv_def same_nodes_def inserting_def)
qed

lemma writer_done:
  assumes "shared_inv cmp ok s a (Linking x prev i h) rs ns lev" "\<not> i < h"
  shows "shared_inv cmp ok s a Idle rs ns lev"
  using assms by (auto simp: shared_inv_def writer_ok_def inserting_def)

lemma writer_step_inv:
  assumes "new_ok new_char" "shared_inv cmp ok s a w rs ns lev" "writer_step new_char compare ok (s, a, w) (t, b, w')"
  shows "\<exists>rs' ns' lev'. shared_inv cmp ok t b w' rs' ns' lev' \<and> grows s ns lev t ns' lev'"
  using assms(3)
proof (elim writer_stepE)
  fix key prev assume w: "t = s" "b = a" "w = Idle" "w' = Placed key prev" "ok key" "Insert_find compare key s = Some (Inr prev)"
  show ?thesis using writer_find [OF _ w(5,6)] assms(2) grows_refl [OF refl refl] unfolding w by blast
next
  fix prev h prev' key assume w: "b = a" "w = Placed key prev" "w' = Raised key h prev'" "Insert_height prev s = Inr (h, prev', t)"
  show ?thesis using writer_height [OF _ w(4)] assms(2) grows_refl unfolding w by blast
next
  fix key h x prev assume w: "w = Raised key h prev" "w' = Linking x prev 0 (nat h)" "NewNode new_char key h s a = Inr (x, t, b)"
  show ?thesis using writer_node [OF assms(1) _ w(3)] assms(2) unfolding w by blast
next
  fix i h prev x assume w: "b = a" "w = Linking x prev i h" "w' = Publishing x prev i h" "i < h" "link_node prev x (int i) s = Inr t"
  show ?thesis using writer_link [OF _ w(4,5)] assms(2) grows_refl unfolding w by blast
next
  fix prev x i h assume w: "b = a" "w = Publishing x prev i h" "w' = Linking x prev (Suc i) h" "publish_node prev x (int i) s = Inr t"
  show ?thesis using writer_publish [OF _ w(4)] assms(2) unfolding w by blast
next
  fix i h x prev assume w: "t = s" "b = a" "w = Linking x prev i h" "w' = Idle" "\<not> i < h"
  show ?thesis using writer_done [OF _ w(5)] assms(2) grows_refl [OF refl refl] unfolding w by blast
qed

lemma reader_step_ok:
  assumes inv: "links_inv s ns lev" "in_order cmp ok s ns" and r: "reader_ok cmp ok s ns lev r" and step: "reader_step compare ok s r r'"
  shows "reader_ok cmp ok s ns lev r'"
  using step
proof cases
  case (R_start key)
  then show ?thesis using inv(1) by (simp add: reader_ok_def links_inv_def kMaxHeight_def)
next
  case (R_turn key x level x' level' p)
  then show ?thesis using reader_turn [OF inv, of key x level] r by auto
qed (simp add: reader_ok_def)

lemma conc_inv:
  assumes "new_ok new_char" "conc_reach new_char compare ok zero c"
  shows "case c of (s, a, w, R) \<Rightarrow> \<exists>rs ns lev. shared_inv cmp ok s a w rs ns lev \<and> (\<forall>k. reader_ok cmp ok s ns lev (R k))"
  using assms(2)
proof (induction rule: conc_reach.induct)
  case (C_new s a)
  obtain r where r: "arena_inv a [r]" "sl_view cmp ok s [r] []"
    using SkipList_new_spec [OF assms(1) Arena_new_inv, of zero cmp ok] C_new by auto
  then obtain lev where "links_inv s [] lev" "dom (sl_nodes s) \<subseteq> fst ` set [r]" unfolding sl_view_def by blast
  then have "shared_inv cmp ok s a Idle [r] [] lev" using r(1) by (simp add: shared_inv_def writer_ok_def ordered_def)
  then show ?case by (auto simp: reader_ok_def)
next
  case (C_write s a w R t b w')
  then obtain rs ns lev where inv: "shared_inv cmp ok s a w rs ns lev" "\<forall>k. reader_ok cmp ok s ns lev (R k)" by auto
  then show ?case using writer_step_inv [OF assms(1) inv(1) C_write.hyps(2)] reader_ok_mono by fast
next
  case (C_read s a w R k r)
  then obtain rs ns lev where inv: "shared_inv cmp ok s a w rs ns lev" "\<forall>k. reader_ok cmp ok s ns lev (R k)" by auto
  then have "reader_ok cmp ok s ns lev r" using reader_step_ok [of s ns lev "R k" r] C_read.hyps(2) by (simp add: shared_inv_def)
  then show ?case using inv by auto
qed

text \<open>What a search returns beside a writer is the first key that is not before the wanted one in the list as it is when the last link is loaded.\<close>

lemma conc_reader_exact:
  assumes new: "new_ok new_char" and reach: "conc_reach new_char compare ok zero (s, a, w, R)" and r: "R k = Searching key x level"
  obtains ns y where "fge_body compare s key (x, level, None) = Inr y" "sl_chain s (sl_head s) ns" "ordered cmp ok (map (keyof s) ns)"
    "\<And>n p. y = Inr (n, p) \<Longrightarrow> n = (case find (\<lambda>a. \<not> cmp (keyof s a) key < 0) ns of Some a \<Rightarrow> a | None \<Rightarrow> 0)"
proof -
  obtain rs ns lev where inv: "shared_inv cmp ok s a w rs ns lev" "reader_ok cmp ok s ns lev (Searching key x level)"
    using conc_inv [OF new reach, unfolded case_prod_conv] r by metis
  have l: "links_inv s ns lev" "in_order cmp ok s ns" using inv(1) by (simp_all add: shared_inv_def)
  let ?ns = "filter (\<lambda>a. 0 < lev a) ns"
  have c: "sl_chain s (sl_head s) ?ns" using linked_chain [OF l(1), of "[]" "sl_head s" ns] l(1) by (simp add: links_inv_def)
  have "sorted_wrt (\<lambda>a b. cmp (keyof s a) (keyof s b) < 0) ?ns" using l(2) by (intro sorted_wrt_filter) (simp add: ordered_def sorted_wrt_map)
  then have "ordered cmp ok (map (keyof s) ?ns)" using l(2) by (auto simp: ordered_def sorted_wrt_map list_all_iff)
  moreover have "find (\<lambda>a. \<not> cmp (keyof s a) key < 0) (filter (\<lambda>a. 0 < lev a) as) = find (\<lambda>a. 0 < lev a \<and> \<not> before cmp s key a) as" for as
    by (induction as) (auto simp: before_def)
  ultimately show thesis using reader_turn [OF l inv(2)] c that [of _ ?ns] by (auto simp: found_def)
qed

text \<open>The writer is never stuck inside an insertion.\<close>

lemma conc_writer_progress:
  assumes new: "new_ok new_char" and reach: "conc_reach new_char compare ok zero (s, a, w, R)" and w: "w \<noteq> Idle"
  shows "\<exists>t b w'. writer_step new_char compare ok (s, a, w) (t, b, w')"
proof -
  obtain rs ns lev where inv: "shared_inv cmp ok s a w rs ns lev" using conc_inv [OF new reach] by auto
  show ?thesis
  proof (cases w)
    case (Placed key prev)
    then have "links_inv s ns lev" "prevs_ok cmp s ns lev key 0 (nat (sl_max_height s)) prev"
      using inv by (simp_all add: shared_inv_def writer_ok_def)
    then obtain h prev' t where "Insert_height prev s = Inr (h, prev', t)" by (rule Insert_height_spec)
    then show ?thesis unfolding Placed by (blast intro: W_height)
  next
    case (Raised key h prev)
    then have "arena_inv a rs" "1 \<le> nat h" "nat h \<le> 12" "h = int (nat h)" using inv by (auto simp: shared_inv_def writer_ok_def)
    then obtain x t b where "NewNode new_char key h s a = Inr (x, t, b)" using NewNode_spec [OF new, of a rs "nat h" key s] by metis
    then show ?thesis unfolding Raised by (blast intro: W_node)
  next
    case (Linking x prev i h)
    then obtain as bs where "inserting s as x bs lev prev h" "lev x = i" using inv by (auto simp: shared_inv_def writer_ok_def)
    then show ?thesis unfolding Linking using link_node_step [of s as x bs lev prev h i] by (blast intro: W_link W_done)
  next
    case (Publishing x prev i h)
    then obtain as bs where "inserting s as x bs lev prev h" "lev x = i" "i < h" "link s x i = Some (first_at lev i bs)"
      using inv by (auto simp: shared_inv_def writer_ok_def)
    then show ?thesis unfolding Publishing using publish_node_step [of s as x bs lev prev h i] by (blast intro: W_publish)
  qed (use w in simp)
qed

end


end
