(* ===== verification/Ldb_Memtable.thy ===== *)
theory Ldb_Memtable
  imports Ldb_Skiplist_Conc Ldb_Write_Batch
begin

text \<open>
  The memory table (\<^verbatim>\<open>db/memtable.h\<close> and \<^verbatim>\<open>db/memtable.cc\<close>): entries in an arena, ordered by a skip list. A table is related to the sorted list of its pairs of an
  internal key and a value; \<open>Add\<close> inserts a pair, \<open>Get\<close> reads the first pair that is not before the key it looks for, and that is the newest operation on
  the user key that the snapshot sees. Write batches are inserted with the operations of \<open>Ldb_Write_Batch\<close>.
\<close>

section \<open>The memory table: model\<close>

text \<open>
  A \<^verbatim>\<open>const char*\<close> is the bytes from where it points on, up to the end of its block; the null pointer is the empty list. The entries that
  the list points to are never written again. The argument \<open>C\<close> is the comparator of user keys, \<open>new_char\<close> the allocator of the runtime.
\<close>

record MemTable =
  mt_refs :: int
  mt_arena :: Arena
  mt_table :: "bytes SkipList"

text \<open>
  The pointer that \<open>GetVarint32Ptr\<close> returns, and the length. It gets five bytes and returns null when there is no number in them;
  the length is not set then.
\<close>

definition varint_at :: "bytes \<Rightarrow> (u32 \<times> bytes) res" where
  "varint_at data =
     (case GetVarint32Ptr (take 5 data) of
        Some (len, q) \<Rightarrow> Inr (len, drop (length (take 5 data) - length q) data)
      | None \<Rightarrow> Inl Null_deref)"

text \<open>\<open>Slice(p, n)\<close>, when it is read; the second result is what \<open>p + n\<close> points to.\<close>

definition slice_at :: "bytes \<Rightarrow> u32 \<Rightarrow> (slice \<times> bytes) res" where
  "slice_at p n = (if unat n \<le> length p then Inr (take (unat n) p, drop (unat n) p) else Inl Out_of_bounds)"

definition mt_GetLengthPrefixedSlice :: "bytes \<Rightarrow> (slice \<times> bytes) res" where
  "mt_GetLengthPrefixedSlice data = bindR (varint_at data) (\<lambda>(len, p). slice_at p len)"

definition mt_compare :: "Comparator \<Rightarrow> bytes \<Rightarrow> bytes \<Rightarrow> int res" where
  "mt_compare C aptr bptr =
     bindR (mt_GetLengthPrefixedSlice aptr) (\<lambda>(a, _).
     bindR (mt_GetLengthPrefixedSlice bptr) (\<lambda>(b, _).
     cmp_Compare (InternalKeyComparator C) a b))"

definition EncodeKey :: "slice \<Rightarrow> bytes" where
  "EncodeKey target = PutVarint32 [] (of_nat (length target)) @ target"

definition MemTable_new :: "(region list \<Rightarrow> nat \<Rightarrow> addr) \<Rightarrow> MemTable res" where
  "MemTable_new new_char =
     bindR (SkipList_new new_char [] Arena_new) (\<lambda>(table, arena). Inr \<lparr>mt_refs = 0, mt_arena = arena, mt_table = table\<rparr>)"

definition MemTable_Ref :: "MemTable \<Rightarrow> MemTable res" where
  "MemTable_Ref m = bindR (add_int (mt_refs m) 1) (\<lambda>n. Inr (m\<lparr>mt_refs := n\<rparr>))"

text \<open>\<open>None\<close> when the table is deleted; the destructor asserts that there are no references.\<close>

definition MemTable_Unref :: "MemTable \<Rightarrow> MemTable option res" where
  "MemTable_Unref m =
     bindR (add_int (mt_refs m) (- 1)) (\<lambda>n.
     bindR (assertR (0 \<le> n)) (\<lambda>_.
     if n \<le> 0 then bindR (assertR (n = 0)) (\<lambda>_. Inr None) else Inr (Some (m\<lparr>mt_refs := n\<rparr>))))"

definition ApproximateMemoryUsage :: "nat \<Rightarrow> MemTable \<Rightarrow> u64" where
  "ApproximateMemoryUsage capacity m = MemoryUsage capacity (mt_arena m)"

text \<open>The bytes stored into \<open>buf\<close>; the two lengths are cut to 32 bits, and the assertion compares the sum with that of the uncut ones.\<close>

definition MemTable_Add :: "(region list \<Rightarrow> nat \<Rightarrow> addr) \<Rightarrow> Comparator \<Rightarrow> u64 \<Rightarrow> byte \<Rightarrow> slice \<Rightarrow> slice \<Rightarrow> MemTable \<Rightarrow> MemTable res option" where
  "MemTable_Add new_char C s type key value m =
     (let key_size = length key; val_size = length value;
          internal_key_size = key_size + 8;
          encoded_len = VarintLength (of_nat internal_key_size) + int internal_key_size + VarintLength (of_nat val_size) + int val_size in
      bindO (Some (Allocate new_char (of_int encoded_len) (mt_arena m))) (\<lambda>(_, arena).
      let buf = EncodeVarint32 (of_nat internal_key_size) @ key @ EncodeFixed64 (push_bit 8 s OR ucast type)
                @ EncodeVarint32 (of_nat val_size) @ value in
      bindO (Some (assertR (int (length buf) = encoded_len))) (\<lambda>_.
      bindO (sl_Insert new_char (mt_compare C) buf (mt_table m) arena) (\<lambda>(table, arena).
      Some (Inr (m\<lparr>mt_table := table, mt_arena := arena\<rparr>))))))"

text \<open>
  The bytes behind \<open>memkey.data()\<close> are the block of the lookup key. The results are the returned flag, the string \<open>value\<close> and the status. A length
  below 8 wraps around to a slice that is longer than the block, and puts the tag before it.
\<close>

definition mt_get_entry :: "Comparator \<Rightarrow> LookupKey \<Rightarrow> bytes \<Rightarrow> Status \<Rightarrow> bytes \<Rightarrow> (bool \<times> bytes \<times> Status) res" where
  "mt_get_entry C key value s entry =
     bindR (varint_at entry) (\<lambda>(key_length, key_ptr).
     bindR (if 8 \<le> key_length then slice_at key_ptr (key_length - 8) else Inl Out_of_bounds) (\<lambda>(user, tag_ptr).
     bindR (cmp_Compare C user (lookup_user_key key)) (\<lambda>c.
     if c = 0
     then bindR (DecodeFixed64 tag_ptr) (\<lambda>tag.
          let t = (ucast (tag AND 255) :: byte) in
          if t = kTypeValue
          then bindR (slice_at key_ptr key_length) (\<lambda>(_, p).
               bindR (mt_GetLengthPrefixedSlice p) (\<lambda>(v, _). Inr (True, v, s)))
          else if t = kTypeDeletion then Inr (True, value, NotFound [] [])
          else Inr (False, value, s))
     else Inr (False, value, s))))"

definition MemTable_Get :: "Comparator \<Rightarrow> LookupKey \<Rightarrow> bytes \<Rightarrow> Status \<Rightarrow> MemTable \<Rightarrow> (bool \<times> bytes \<times> Status) res option" where
  "MemTable_Get C key value s m =
     bindO (sli_Seek (mt_compare C) (mt_table m) (lk_block key)) (\<lambda>it. Some (
     if it \<noteq> 0 then bindR (sli_key (mt_table m) it) (\<lambda>entry. mt_get_entry C key value s entry) else Inr (False, value, s)))"

section \<open>The iterator of a memory table: model\<close>

text \<open>It is an iterator of the list; \<open>Next\<close> and the two seeks without a key are those of the list.\<close>

definition mti_Seek :: "Comparator \<Rightarrow> slice \<Rightarrow> MemTable \<Rightarrow> addr res option" where
  "mti_Seek C k m = sli_Seek (mt_compare C) (mt_table m) (EncodeKey k)"

definition mti_key :: "MemTable \<Rightarrow> addr \<Rightarrow> slice res" where
  "mti_key m it = bindR (sli_key (mt_table m) it) (\<lambda>entry. bindR (mt_GetLengthPrefixedSlice entry) (\<lambda>(k, _). Inr k))"

definition mti_value :: "MemTable \<Rightarrow> addr \<Rightarrow> slice res" where
  "mti_value m it =
     bindR (sli_key (mt_table m) it) (\<lambda>entry.
     bindR (mt_GetLengthPrefixedSlice entry) (\<lambda>(_, p).
     bindR (mt_GetLengthPrefixedSlice p) (\<lambda>(v, _). Inr v)))"

definition mti_step :: "Comparator \<Rightarrow> MemTable \<Rightarrow> IterOp \<Rightarrow> addr \<Rightarrow> addr res option" where
  "mti_step C m op it =
     (case op of
        SeekToFirst \<Rightarrow> Some (sli_SeekToFirst (mt_table m))
      | SeekToLast \<Rightarrow> sli_SeekToLast (mt_table m)
      | Seek t \<Rightarrow> mti_Seek C t m
      | Next \<Rightarrow> Some (sli_Next (mt_table m) it)
      | Prev \<Rightarrow> sli_Prev (mt_compare C) (mt_table m) it)"

text \<open>A run of operations, with what the iterator shows after each.\<close>

definition mti_observe :: "MemTable \<Rightarrow> addr \<Rightarrow> (slice \<times> slice) option res" where
  "mti_observe m it = (if it \<noteq> 0 then bindR (mti_key m it) (\<lambda>k. bindR (mti_value m it) (\<lambda>v. Inr (Some (k, v)))) else Inr None)"

fun mti_run :: "Comparator \<Rightarrow> MemTable \<Rightarrow> IterOp list \<Rightarrow> addr \<Rightarrow> (slice \<times> slice) option list res option" where
  "mti_run C m [] it = Some (Inr [])"
| "mti_run C m (op # ops) it =
     bindO (mti_step C m op it) (\<lambda>it.
     bindO (mti_run C m ops it) (\<lambda>obs.
     Some (bindR (mti_observe m it) (\<lambda>kv. Inr (kv # obs)))))"


section \<open>Entries\<close>

definition encode_entry :: "slice \<times> slice \<Rightarrow> bytes" where
  "encode_entry kv = EncodeVarint32 (of_nat (length (fst kv))) @ fst kv @ EncodeVarint32 (of_nat (length (snd kv))) @ snd kv"

definition entry_small :: "slice \<times> slice \<Rightarrow> bool" where
  "entry_small kv \<longleftrightarrow> 8 \<le> length (fst kv) \<and> length (fst kv) < 2 ^ 32 \<and> length (snd kv) < 2 ^ 32"

lemma unat_len32: "n < 2 ^ 32 \<Longrightarrow> unat (of_nat n :: u32) = n"
  by (simp add: unsigned_of_nat take_bit_nat_eq_self)

lemma unat_len64: "n < 2 ^ 64 \<Longrightarrow> unat (of_nat n :: u64) = n"
  by (simp add: unsigned_of_nat take_bit_nat_eq_self)

lemma varint_at_eq: "varint_at (EncodeVarint32 v @ rest) = Inr (v, rest)"
proof -
  let ?e = "EncodeVarint32 v"
  have "length ?e \<le> 5" by (simp add: EncodeVarint32_def)
  then have "take 5 (?e @ rest) = ?e @ take (5 - length ?e) rest" by simp
  then show ?thesis using GetVarint_Put(1) [of v "take (5 - length ?e) rest"] by (simp add: varint_at_def GetVarint32_def)
qed

lemma prefixed_at: "length k < 2 ^ 32 \<Longrightarrow> mt_GetLengthPrefixedSlice (EncodeVarint32 (of_nat (length k)) @ k @ rest) = Inr (k, rest)"
  by (simp add: mt_GetLengthPrefixedSlice_def varint_at_eq slice_at_def unat_len32)

lemma entry_parts:
  assumes "entry_small kv"
  shows "mt_GetLengthPrefixedSlice (encode_entry kv) = Inr (fst kv, EncodeVarint32 (of_nat (length (snd kv))) @ snd kv)"
    and "mt_GetLengthPrefixedSlice (EncodeVarint32 (of_nat (length (snd kv))) @ snd kv) = Inr (snd kv, [])"
  using assms prefixed_at [of "fst kv"] prefixed_at [of "snd kv" "[]"] by (simp_all add: encode_entry_def entry_small_def)

text \<open>A pointer that the list can compare: there is an internal key at it.\<close>

definition mt_key :: "bytes \<Rightarrow> slice" where
  "mt_key e = (case mt_GetLengthPrefixedSlice e of Inr (k, _) \<Rightarrow> k | Inl _ \<Rightarrow> [])"

definition entry_ok :: "bytes \<Rightarrow> bool" where
  "entry_ok e \<longleftrightarrow> (\<exists>k rest. mt_GetLengthPrefixedSlice e = Inr (k, rest) \<and> 8 \<le> length k)"

definition mt_cmp :: "(slice \<Rightarrow> slice \<Rightarrow> int) \<Rightarrow> bytes \<Rightarrow> bytes \<Rightarrow> int" where
  "mt_cmp cmp a b = internal_cmp cmp (mt_key a) (mt_key b)"

lemma entry_facts [simp]: "entry_small kv \<Longrightarrow> mt_key (encode_entry kv) = fst kv" "entry_small kv \<Longrightarrow> entry_ok (encode_entry kv)"
  using entry_parts(1) [of kv] by (simp_all add: mt_key_def entry_ok_def entry_small_def)

lemma prefixed_key:
  assumes "8 \<le> length k" "length k < 2 ^ 32"
  shows "mt_key (EncodeVarint32 (of_nat (length k)) @ k @ rest) = k" "entry_ok (EncodeVarint32 (of_nat (length k)) @ k @ rest)"
  using assms prefixed_at [of k rest] by (simp_all add: mt_key_def entry_ok_def)

lemma three_way_map: "three_way c okc \<Longrightarrow> (\<And>x. okx x \<Longrightarrow> okc (f x)) \<Longrightarrow> three_way (\<lambda>a b. c (f a) (f b)) okx"
proof
  assume c: "three_way c okc" and f: "\<And>x. okx x \<Longrightarrow> okc (f x)"
  fix x y z assume x: "okx x"
  show "c (f x) (f x) = 0" using three_way.cmp_refl [OF c f [OF x]] .
  assume y: "okx y"
  show "c (f x) (f y) < 0 \<longleftrightarrow> 0 < c (f y) (f x)" using three_way.cmp_flip [OF c f [OF x] f [OF y]] .
  assume z: "okx z" and le: "c (f x) (f y) \<le> 0" "c (f y) (f z) \<le> 0"
  show "c (f x) (f z) \<le> 0" using three_way.cmp_trans [OF c f [OF x] f [OF y] f [OF z] le] .
qed

sublocale user_comparator \<subseteq> entries: skip_order "mt_cmp cmp" entry_ok "mt_compare C"
proof (intro skip_order.intro skip_order_axioms.intro)
  have ok: "8 \<le> length (mt_key e)" if "entry_ok e" for e using that by (auto simp: entry_ok_def mt_key_def)
  show "three_way (mt_cmp cmp) entry_ok"
    unfolding mt_cmp_def [abs_def] by (rule three_way_map [OF three_way_icmp]) (rule ok)
  fix a b assume ab: "entry_ok a" "entry_ok b"
  then show "mt_compare C a b = Inr (mt_cmp cmp a b)"
    using internal.Compare_eq [OF ok [OF ab(1)] ok [OF ab(2)]] by (auto simp: mt_compare_def mt_cmp_def entry_ok_def mt_key_def)
qed

section \<open>The table as a sorted list of pairs\<close>

definition mt_holds :: "(slice \<Rightarrow> slice \<Rightarrow> int) \<Rightarrow> MemTable \<Rightarrow> (slice \<times> slice) list \<Rightarrow> bool" where
  "mt_holds cmp m kvs \<longleftrightarrow> list_all entry_small kvs \<and> (\<exists>rs ns. arena_inv (mt_arena m) rs \<and> sl_view (mt_cmp cmp) entry_ok (mt_table m) rs ns
     \<and> map (keyof (mt_table m)) ns = map encode_entry kvs)"

definition insert_pair :: "(slice \<Rightarrow> slice \<Rightarrow> int) \<Rightarrow> slice \<times> slice \<Rightarrow> (slice \<times> slice) list \<Rightarrow> (slice \<times> slice) list" where
  "insert_pair cmp kv kvs = takeWhile (\<lambda>x. cmp (fst x) (fst kv) < 0) kvs @ kv # dropWhile (\<lambda>x. cmp (fst x) (fst kv) < 0) kvs"

lemma insert_sorted_entries:
  assumes "list_all entry_small kvs" "entry_small kv"
  shows "insert_sorted (mt_cmp cmp) (encode_entry kv) (map encode_entry kvs) = map encode_entry (insert_pair (internal_cmp cmp) kv kvs)"
proof -
  have "takeWhile (\<lambda>e. mt_cmp cmp e (encode_entry kv) < 0) (map encode_entry kvs) = map encode_entry (takeWhile (\<lambda>x. internal_cmp cmp (fst x) (fst kv) < 0) kvs)"
    "dropWhile (\<lambda>e. mt_cmp cmp e (encode_entry kv) < 0) (map encode_entry kvs) = map encode_entry (dropWhile (\<lambda>x. internal_cmp cmp (fst x) (fst kv) < 0) kvs)"
    using assms by (induction kvs) (simp_all add: mt_cmp_def)
  then show ?thesis by (simp add: insert_sorted_def insert_pair_def)
qed

lemma insert_pair_set: "set (insert_pair cmp kv kvs) = insert kv (set kvs)"
proof -
  let ?P = "\<lambda>x. cmp (fst x) (fst kv) < 0"
  have "set kvs = set (takeWhile ?P kvs) \<union> set (dropWhile ?P kvs)" by (metis set_append takeWhile_dropWhile_id)
  then show ?thesis unfolding insert_pair_def by (simp only: set_append list.set Un_insert_right)
qed

text \<open>Without the cut to 32 bits the length that \<open>Add\<close> computes is the one of the entry.\<close>

lemma VarintLength_32: "n < 2 ^ 32 \<Longrightarrow> VarintLength (of_nat n) = int (length (EncodeVarint32 (of_nat n)))"
  by (simp add: VarintLength_eq EncodeVarint64_varint EncodeVarint32_varint unat_len32 unat_len64)

context user_comparator
begin

lemma MemTable_new_spec:
  assumes "new_ok new_char"
  shows "\<exists>m. MemTable_new new_char = Inr m \<and> mt_holds cmp m [] \<and> mt_refs m = 0"
proof -
  obtain s arena r where "SkipList_new new_char [] Arena_new = Inr (s, arena)" "arena_inv arena [r]" "sl_view (mt_cmp cmp) entry_ok s [r] []"
    using SkipList_new_spec [OF assms Arena_new_inv, of "[]" "mt_cmp cmp" entry_ok] by blast
  then show ?thesis unfolding MemTable_new_def mt_holds_def by auto
qed

lemma MemTable_Add_spec:
  fixes key val :: slice and s :: u64 and t :: byte
  defines "k \<equiv> key @ EncodeFixed64 (pack s t)"
  assumes new: "new_ok new_char" and m: "mt_holds cmp m kvs" and len: "length key + 8 < 2 ^ 32" "length val < 2 ^ 32"
  shows "(\<forall>x \<in> set kvs. internal_cmp cmp k (fst x) \<noteq> 0) \<Longrightarrow>
      \<exists>m'. MemTable_Add new_char C s t key val m = Some (Inr m') \<and> mt_holds cmp m' (insert_pair (internal_cmp cmp) (k, val) kvs)"
    and "(\<exists>x \<in> set kvs. internal_cmp cmp k (fst x) = 0) \<Longrightarrow> MemTable_Add new_char C s t key val m = Some (Inl Assert_failed)"
proof -
  have small: "entry_small (k, val)" using len by (simp add: k_def entry_small_def)
  obtain rs ns where kvs: "list_all entry_small kvs" and a: "arena_inv (mt_arena m) rs" and v: "sl_view (mt_cmp cmp) entry_ok (mt_table m) rs ns"
    and keys: "map (keyof (mt_table m)) ns = map encode_entry kvs" using m unfolding mt_holds_def by blast
  define e where "e = encode_entry (k, val)"
  define n where "n = VarintLength (of_nat (length key + 8)) + int (length key + 8) + VarintLength (of_nat (length val)) + int (length val)"
  have n: "n = int (length e)" using len VarintLength_32 [of "length key + 8"] VarintLength_32 [of "length val"]
    by (simp add: n_def e_def encode_entry_def k_def)
  have e: "EncodeVarint32 (of_nat (length key + 8)) @ key @ EncodeFixed64 (push_bit 8 s OR ucast t) @ EncodeVarint32 (of_nat (length val)) @ val = e"
    by (simp add: e_def encode_entry_def k_def)
  have "length e < 2 ^ 34" "0 < length e"
    using len by (auto simp: e_def encode_entry_def k_def EncodeVarint32_def)
  then have "unat (of_int n :: u64) = length e" unfolding n of_int_of_nat_eq by (intro unat_len64) simp
  then have n0: "(0 :: u64) < of_int n" using \<open>0 < length e\<close> by (simp add: word_less_nat_alt)
  obtain p arena where al: "Allocate new_char (of_int n) (mt_arena m) = Inr (p, arena)" "arena_inv arena ((p, unat (of_int n :: u64)) # rs)"
    using Allocate_spec [OF new a n0] by blast
  let ?r = "(p, unat (of_int n :: u64))"
  have v': "sl_view (mt_cmp cmp) entry_ok (mt_table m) (?r # rs) ns" using v by (auto simp: sl_view_def)
  have add: "MemTable_Add new_char C s t key val m = bindO (sl_Insert new_char (mt_compare C) e (mt_table m) arena) (\<lambda>(table, arena). Some (Inr (m\<lparr>mt_table := table, mt_arena := arena\<rparr>)))"
    unfolding MemTable_Add_def Let_def n_def [symmetric] al(1) bindO_simps case_prod_conv e by (simp add: n)
  have ne: "(\<exists>a \<in> set ns. mt_cmp cmp e (keyof (mt_table m) a) = 0) \<longleftrightarrow> (\<exists>x \<in> set kvs. internal_cmp cmp k (fst x) = 0)"
  proof -
    have "(\<exists>a \<in> set ns. mt_cmp cmp e (keyof (mt_table m) a) = 0) \<longleftrightarrow> (\<exists>y \<in> set (map (keyof (mt_table m)) ns). mt_cmp cmp e y = 0)" by simp
    also have "\<dots> \<longleftrightarrow> (\<exists>x \<in> set kvs. internal_cmp cmp k (fst x) = 0)"
      unfolding keys using kvs small by (auto simp: mt_cmp_def e_def list_all_iff)
    finally show ?thesis .
  qed
  have eok: "entry_ok e" using small by (simp add: e_def)
  show "MemTable_Add new_char C s t key val m = Some (Inl Assert_failed)" if "\<exists>x \<in> set kvs. internal_cmp cmp k (fst x) = 0"
    using entries.sl_Insert_twice [OF v eok] ne that by (simp add: add)
  assume "\<forall>x \<in> set kvs. internal_cmp cmp k (fst x) \<noteq> 0"
  then obtain table arena' r ns' where ins: "sl_Insert new_char (mt_compare C) e (mt_table m) arena = Some (Inr (table, arena'))" "arena_inv arena' (r # ?r # rs)"
      "sl_view (mt_cmp cmp) entry_ok table (r # ?r # rs) ns'" "map (keyof table) ns' = insert_sorted (mt_cmp cmp) e (map (keyof (mt_table m)) ns)"
    using entries.sl_Insert_spec [OF new al(2) v' eok] ne by metis
  have "map (keyof table) ns' = map encode_entry (insert_pair (internal_cmp cmp) (k, val) kvs)"
    using ins(4) insert_sorted_entries [OF kvs small, of cmp] by (simp add: keys e_def)
  moreover have "list_all entry_small (insert_pair (internal_cmp cmp) (k, val) kvs)"
    using kvs small by (simp add: list_all_iff insert_pair_set)
  ultimately have "mt_holds cmp (m\<lparr>mt_table := table, mt_arena := arena'\<rparr>) (insert_pair (internal_cmp cmp) (k, val) kvs)"
    using ins(2,3) unfolding mt_holds_def by auto
  then show "\<exists>m'. MemTable_Add new_char C s t key val m = Some (Inr m') \<and> mt_holds cmp m' (insert_pair (internal_cmp cmp) (k, val) kvs)"
    using ins(1) by (simp add: add)
qed

end


section \<open>Looking up a key\<close>

lemma DecodeFixed64_append:
  assumes "8 \<le> length p"
  shows "DecodeFixed64 (p @ r) = DecodeFixed64 p"
proof -
  have t: "take 4 (q @ r) = take 4 q" if "4 \<le> length q" for q using that by simp
  have d: "DecodeFixed32 (q @ r) = DecodeFixed32 q" if "4 \<le> length q" for q
    using that t [OF that] by (simp add: DecodeFixed32_def load_bytes_def)
  have "drop 4 (p @ r) = drop 4 p @ r" "4 \<le> length (drop 4 p)" "4 \<le> length p" using assms by auto
  then show ?thesis using d [of p] d [of "drop 4 p"] by (simp only: DecodeFixed64_def)
qed

text \<open>What \<open>Get\<close> returns for the entry at which the search stops.\<close>

definition entry_answer :: "(slice \<Rightarrow> slice \<Rightarrow> int) \<Rightarrow> slice \<Rightarrow> bytes \<Rightarrow> Status \<Rightarrow> slice \<times> slice \<Rightarrow> bool \<times> bytes \<times> Status" where
  "entry_answer cmp u val st kv =
     (let t = (ucast (key_tag (fst kv) AND 255) :: byte) in
      if cmp (key_user (fst kv)) u \<noteq> 0 then (False, val, st)
      else if t = kTypeValue then (True, snd kv, st)
      else if t = kTypeDeletion then (True, val, NotFound [] [])
      else (False, val, st))"

definition lookup_target :: "slice \<Rightarrow> u64 \<Rightarrow> slice" where
  "lookup_target u snap = u @ EncodeFixed64 (pack snap kValueTypeForSeek)"

context user_comparator
begin

lemma mt_get_entry_spec:
  assumes kv: "entry_small kv" and u: "lookup_user_key lk = u"
  shows "mt_get_entry C lk val st (encode_entry kv) = Inr (entry_answer cmp u val st kv)"
proof -
  obtain k v where kv': "kv = (k, v)" by (cases kv)
  have len: "8 \<le> length k" "length k < 2 ^ 32" "length v < 2 ^ 32" using kv by (simp_all add: entry_small_def kv')
  let ?rest = "EncodeVarint32 (of_nat (length v)) @ v"
  have ul: "unat (of_nat (length k) :: u32) = length k" using len(2) by (rule unat_len32)
  have w: "(8 :: u32) \<le> of_nat (length k)" using len(1) ul by (simp add: word_le_nat_alt)
  have u8: "unat (of_nat (length k) - 8 :: u32) = length k - 8" using w ul by (simp add: unat_sub)
  have sl: "slice_at (k @ ?rest) (of_nat (length k) - 8) = Inr (key_user k, drop (length k - 8) k @ ?rest)"
    using u8 len(1) by (simp add: slice_at_def key_user_def)
  have tag: "DecodeFixed64 (drop (length k - 8) k @ ?rest) = Inr (key_tag k)"
    using DecodeFixed64_append [of "drop (length k - 8) k" ?rest] len(1) Decode_tag [OF len(1)] by simp
  have sv: "slice_at (k @ ?rest) (of_nat (length k)) = Inr (k, ?rest)" using ul by (simp add: slice_at_def)
  have vv: "mt_GetLengthPrefixedSlice ?rest = Inr (v, [])" using prefixed_at [OF len(3), of "[]"] by simp
  have "varint_at (encode_entry kv) = Inr (of_nat (length k), k @ ?rest)" using varint_at_eq by (simp add: encode_entry_def kv')
  then show ?thesis using w sl tag sv vv u
    by (simp add: mt_get_entry_def Compare_eq entry_answer_def kv' Let_def)
qed

lemma MemTable_Get_spec:
  assumes m: "mt_holds cmp m kvs" and fresh: "\<And>n. length (fresh n) = n" and lk: "LookupKey_new fresh u snap = Inr lk"
    and u: "snap \<le> kMaxSequenceNumber" "length u + 8 < 2 ^ 32"
  shows "MemTable_Get C lk val st m = Some (Inr (case find (\<lambda>x. \<not> internal_cmp cmp (fst x) (lookup_target u snap) < 0) kvs of
      Some kv \<Rightarrow> entry_answer cmp u val st kv | None \<Rightarrow> (False, val, st)))"
proof -
  let ?k = "lookup_target u snap"
  obtain rest where lay: "lk_block lk = EncodeVarint32 (of_nat (length u + 8)) @ u @ EncodeFixed64 (pack snap kValueTypeForSeek) @ rest"
    "lk_kstart lk = length (EncodeVarint32 (of_nat (length u + 8)))" "lk_end lk = lk_kstart lk + length u + 8"
    using LookupKey_layout [of fresh snap u] fresh u(1) lk by auto
  have lay': "lk_block lk = EncodeVarint32 (of_nat (length ?k)) @ ?k @ rest" using lay(1) by (simp add: lookup_target_def)
  have uk: "lookup_user_key lk = u" using lay by (simp add: lookup_user_key_def)
  have ek: "mt_key (lk_block lk) = ?k" "entry_ok (lk_block lk)"
    unfolding lay' using prefixed_key [of ?k rest] u(2) by (simp_all add: lookup_target_def)
  obtain rs ns where kvs: "list_all entry_small kvs" and v: "sl_view (mt_cmp cmp) entry_ok (mt_table m) rs ns"
    and keys: "map (keyof (mt_table m)) ns = map encode_entry kvs" using m unfolding mt_holds_def by blast
  have len: "length ns = length kvs" using keys by (metis length_map)
  let ?P = "\<lambda>x. internal_cmp cmp (fst x) ?k < 0"
  have "takeWhile (\<lambda>e. mt_cmp cmp e (lk_block lk) < 0) (map encode_entry kvs) = map encode_entry (takeWhile ?P kvs)"
    using kvs by (induction kvs) (simp_all add: mt_cmp_def ek(1))
  then have i: "length (takeWhile (\<lambda>e. mt_cmp cmp e (lk_block lk) < 0) (map (keyof (mt_table m)) ns)) = length (takeWhile ?P kvs)"
    by (simp add: keys)
  define i where "i = length (takeWhile ?P kvs)"
  have seek: "sli_Seek (mt_compare C) (mt_table m) (lk_block lk) = Some (Inr (node_of ns (position ns i)))"
    using entries.sli_Seek_spec [OF v ek(2)] i by (simp add: i_def)
  show ?thesis
  proof (cases "i < length kvs")
    case True
    have "ns ! i \<noteq> 0" using entries.viewE [OF v] True len nth_mem [of i ns] by metis
    moreover have "keyof (mt_table m) (ns ! i) = encode_entry (kvs ! i)" using keys True len by (metis nth_map)
    moreover have f: "find (\<lambda>x. \<not> ?P x) kvs = Some (kvs ! i)"
      using True nth_length_takeWhile [of ?P kvs] by (force simp: find_Some_iff i_def dest: nth_mem set_takeWhileD simp flip: takeWhile_nth)
    moreover have "entry_small (kvs ! i)" using kvs True by (simp add: list_all_length)
    ultimately show ?thesis using seek True len entries.sli_key_spec(1) [OF v, of i] mt_get_entry_spec [OF _ uk]
      by (simp add: MemTable_Get_def node_of_def position_def)
  next
    case False
    then have "takeWhile ?P kvs = kvs" by (metis i_def length_takeWhile_le not_le takeWhile_eq_all_conv takeWhile_eq_take take_all_iff order_antisym_conv)
    then have "find (\<lambda>x. \<not> ?P x) kvs = None" by (auto simp: find_None_iff takeWhile_eq_all_conv)
    then show ?thesis using seek False len by (simp add: MemTable_Get_def node_of_def position_def)
  qed
qed

section \<open>The iterator\<close>

lemma mti_observe_spec:
  assumes v: "sl_view (mt_cmp cmp) entry_ok (mt_table m) rs ns" and keys: "map (keyof (mt_table m)) ns = map encode_entry kvs"
    and kvs: "list_all entry_small kvs" and c: "\<And>j. c = Some j \<Longrightarrow> j < length ns"
  shows "mti_observe m (node_of ns c) = Inr (case c of None \<Rightarrow> None | Some j \<Rightarrow> Some (kvs ! j))"
proof (cases c)
  case (Some j)
  then have j: "j < length ns" using c by simp
  have len: "length ns = length kvs" using keys by (metis length_map)
  have nz: "ns ! j \<noteq> 0" using entries.viewE [OF v] j nth_mem [of j ns] by metis
  have "keyof (mt_table m) (ns ! j) = encode_entry (kvs ! j)" using keys j len by (metis nth_map)
  then have "sli_key (mt_table m) (ns ! j) = Inr (encode_entry (kvs ! j))" using entries.sli_key_spec(1) [OF v j] by simp
  moreover have "entry_small (kvs ! j)" using kvs j len by (simp add: list_all_length)
  ultimately show ?thesis using entry_parts [of "kvs ! j"] nz Some by (simp add: mti_observe_def node_of_def mti_key_def mti_value_def)
qed (simp add: mti_observe_def node_of_def)

lemma mti_step_spec:
  assumes v: "sl_view (mt_cmp cmp) entry_ok (mt_table m) rs ns" and keys: "map (keyof (mt_table m)) ns = map encode_entry kvs"
    and kvs: "list_all entry_small kvs" and c: "\<And>j. c = Some j \<Longrightarrow> j < length ns"
    and op: "\<And>t. op = Seek t \<Longrightarrow> 8 \<le> length t \<and> length t < 2 ^ 32"
  shows "case cursor_step (internal_cmp cmp) kvs op c of
      Inl e \<Rightarrow> mti_step C m op (node_of ns c) = Some (Inl e)
    | Inr c' \<Rightarrow> mti_step C m op (node_of ns c) = Some (Inr (node_of ns c')) \<and> (\<forall>j. c' = Some j \<longrightarrow> j < length ns)"
proof -
  have len: "length ns = length kvs" using keys by (metis length_map)
  have pos: "position kvs i = position ns i" for i using len by (simp add: position_def)
  have nz: "ns ! j \<noteq> 0" if "j < length ns" for j using entries.viewE [OF v] that nth_mem [of j ns] by metis
  show ?thesis
  proof (cases op)
    case SeekToFirst
    then show ?thesis using entries.sli_SeekToFirst_spec [OF v] len by (auto simp: cursor_step_def mti_step_def position_def)
  next
    case SeekToLast
    then show ?thesis using entries.sli_SeekToLast_spec [OF v] len by (auto simp: cursor_step_def mti_step_def)
  next
    case (Seek t)
    have ek: "mt_key (EncodeKey t) = t" "entry_ok (EncodeKey t)"
      using prefixed_key [of t "[]"] op [OF Seek] by (simp_all add: EncodeKey_def PutVarint32_def)
    have "takeWhile (\<lambda>e. mt_cmp cmp e (EncodeKey t) < 0) (map encode_entry kvs) = map encode_entry (takeWhile (\<lambda>(k, v). internal_cmp cmp k t < 0) kvs)"
      using kvs by (induction kvs) (simp_all add: mt_cmp_def ek(1) case_prod_beta)
    then show ?thesis using entries.sli_Seek_spec [OF v ek(2)] Seek pos keys
      by (simp add: cursor_step_def mti_step_def mti_Seek_def position_def case_prod_beta)
  next
    case Next
    then show ?thesis using entries.sli_Next_spec [OF v] c pos nz
      by (cases c) (auto simp: cursor_step_def mti_step_def sli_Next_def node_of_def position_def)
  next
    case Prev
    then show ?thesis using entries.sli_Prev_spec [OF v] c nz
      by (cases c) (auto simp: cursor_step_def mti_step_def sli_Prev_def sli_key_def node_of_def)
  qed
qed

lemma mti_run_spec:
  assumes v: "sl_view (mt_cmp cmp) entry_ok (mt_table m) rs ns" and keys: "map (keyof (mt_table m)) ns = map encode_entry kvs"
    and kvs: "list_all entry_small kvs" and c: "\<And>j. c = Some j \<Longrightarrow> j < length ns"
    and ops: "\<And>t. Seek t \<in> set ops \<Longrightarrow> 8 \<le> length t \<and> length t < 2 ^ 32"
  shows "mti_run C m ops (node_of ns c) = Some (cursor_run (internal_cmp cmp) kvs ops c)"
  using c ops
proof (induction ops arbitrary: c)
  case (Cons op ops)
  have step: "case cursor_step (internal_cmp cmp) kvs op c of
      Inl e \<Rightarrow> mti_step C m op (node_of ns c) = Some (Inl e)
    | Inr c' \<Rightarrow> mti_step C m op (node_of ns c) = Some (Inr (node_of ns c')) \<and> (\<forall>j. c' = Some j \<longrightarrow> j < length ns)"
    using Cons.prems by (intro mti_step_spec [OF v keys kvs]) auto
  show ?case
  proof (cases "cursor_step (internal_cmp cmp) kvs op c")
    case (Inr c')
    then have c': "mti_step C m op (node_of ns c) = Some (Inr (node_of ns c'))" "\<And>j. c' = Some j \<Longrightarrow> j < length ns" using step by auto
    have "mti_run C m ops (node_of ns c') = Some (cursor_run (internal_cmp cmp) kvs ops c')" using Cons.IH [OF c'(2)] Cons.prems(2) by simp
    then show ?thesis using Inr c' mti_observe_spec [OF v keys kvs c'(2)] by (cases "cursor_run (internal_cmp cmp) kvs ops c'") simp_all
  qed (use step in simp)
qed simp

end


section \<open>Write batches in the table\<close>

text \<open>The operation \<open>Add\<close> on a run that may have failed.\<close>

definition AddM :: "(region list \<Rightarrow> nat \<Rightarrow> addr) \<Rightarrow> Comparator \<Rightarrow> u64 \<Rightarrow> byte \<Rightarrow> slice \<Rightarrow> slice \<Rightarrow> MemTable res option \<Rightarrow> MemTable res option" where
  "AddM new_char C s t key v r = bindO r (\<lambda>m. MemTable_Add new_char C s t key v m)"

fun op_key :: "batch_op \<Rightarrow> slice" where
  "op_key (BPut k v) = k"
| "op_key (BDelete k) = k"

fun op_pair :: "u64 \<Rightarrow> batch_op \<Rightarrow> slice \<times> slice" where
  "op_pair s (BPut k v) = (k @ EncodeFixed64 (pack s kTypeValue), v)"
| "op_pair s (BDelete k) = (k @ EncodeFixed64 (pack s kTypeDeletion), [])"

fun op_fits :: "batch_op \<Rightarrow> bool" where
  "op_fits (BPut k v) \<longleftrightarrow> length k + 8 < 2 ^ 32 \<and> length v < 2 ^ 32"
| "op_fits (BDelete k) \<longleftrightarrow> length k + 8 < 2 ^ 32"

definition op_pairs :: "u64 \<Rightarrow> batch_op list \<Rightarrow> (slice \<times> slice) set" where
  "op_pairs seq ops = (\<lambda>i. op_pair (seq + of_nat i) (ops ! i)) ` {..<length ops}"

definition key_seq :: "slice \<Rightarrow> nat" where
  "key_seq k = unat (drop_bit 8 (key_tag k))"

lemma op_pair_parts:
  assumes "unat s < 2 ^ 56"
  shows "key_user (fst (op_pair s op)) = op_key op" "key_seq (fst (op_pair s op)) = unat s" "8 \<le> length (fst (op_pair s op))"
    "\<exists>t. key_tag (fst (op_pair s op)) = pack s t \<and> t \<le> 1"
proof -
  show "key_user (fst (op_pair s op)) = op_key op" "8 \<le> length (fst (op_pair s op))" by (cases op; simp)+
  show "key_seq (fst (op_pair s op)) = unat s" using pack_seq [OF assms] by (cases op) (simp_all add: key_seq_def)
  have "kTypeDeletion \<le> 1" "kTypeValue \<le> 1" by (simp_all add: kTypeDeletion_def kTypeValue_def)
  then show "\<exists>t. key_tag (fst (op_pair s op)) = pack s t \<and> t \<le> 1" by (cases op) auto
qed

lemma op_pairs_Cons: "op_pairs seq (op # ops) = insert (op_pair seq op) (op_pairs (seq + 1) ops)"
  by (simp add: op_pairs_def lessThan_Suc_eq_insert_0 image_image add.assoc)

lemma seq_add: "unat (seq :: u64) + i < 2 ^ 64 \<Longrightarrow> unat (seq + of_nat i) = unat seq + i"
  by (simp add: unat_word_ariths unsigned_of_nat take_bit_nat_eq_self)

lemma AddM_op:
  assumes new: "new_ok new_char" and m: "mt_holds slice_compare m kvs" and old: "\<forall>x \<in> set kvs. key_seq (fst x) < unat seq"
    and op: "op_fits op" and s: "unat seq < 2 ^ 56"
  shows "\<exists>m' kvs'. insert_ops (AddM new_char BytewiseComparator) seq (op # ops) (Some (Inr m)) = insert_ops (AddM new_char BytewiseComparator) (seq + 1) ops (Some (Inr m'))
    \<and> mt_holds slice_compare m' kvs' \<and> set kvs' = insert (op_pair seq op) (set kvs)"
proof -
  have ne: "\<forall>x \<in> set kvs. internal_cmp slice_compare (fst (op_pair seq op)) (fst x) \<noteq> 0"
  proof
    fix x assume x: "x \<in> set kvs"
    have "entry_small x" using m x by (simp add: mt_holds_def list_all_iff)
    then have "8 \<le> length (fst x)" by (simp add: entry_small_def)
    moreover have "key_tag (fst (op_pair seq op)) \<noteq> key_tag (fst x)" using old x op_pair_parts(2) [OF s, of op] by (auto simp: key_seq_def)
    ultimately show "internal_cmp slice_compare (fst (op_pair seq op)) (fst x) \<noteq> 0"
      using bytewise_internal_eq op_pair_parts(3) [OF s, of op] by blast
  qed
  define kvs' where "kvs' = insert_pair (internal_cmp slice_compare) (op_pair seq op) kvs"
  have set: "set kvs' = insert (op_pair seq op) (set kvs)" by (simp add: kvs'_def insert_pair_set)
  obtain m' where m': "insert_ops (AddM new_char BytewiseComparator) seq (op # ops) (Some (Inr m)) = insert_ops (AddM new_char BytewiseComparator) (seq + 1) ops (Some (Inr m'))"
    "mt_holds slice_compare m' kvs'"
  proof (cases op)
    case (BPut k v)
    then show thesis using bytewise_user.MemTable_Add_spec(1) [OF new m, of k v seq kTypeValue] op ne that by (auto simp: AddM_def kvs'_def)
  next
    case (BDelete k)
    then show thesis using bytewise_user.MemTable_Add_spec(1) [OF new m, of k "[]" seq kTypeDeletion] op ne that by (auto simp: AddM_def kvs'_def)
  qed
  then show ?thesis using set by blast
qed

lemma insert_ops_table:
  assumes new: "new_ok new_char" and "mt_holds slice_compare m kvs" "\<forall>x \<in> set kvs. key_seq (fst x) < unat seq"
    and "list_all op_fits ops" "unat seq + length ops \<le> 2 ^ 56"
  shows "\<exists>m' kvs'. insert_ops (AddM new_char BytewiseComparator) seq ops (Some (Inr m)) = Some (Inr m')
    \<and> mt_holds slice_compare m' kvs' \<and> set kvs' = set kvs \<union> op_pairs seq ops"
  using assms(2-)
proof (induction ops arbitrary: seq m kvs)
  case Nil
  then show ?case by (auto simp: op_pairs_def)
next
  case (Cons op ops)
  have s: "unat seq < 2 ^ 56" using Cons.prems(4) by simp
  obtain m1 kvs1 where m1: "insert_ops (AddM new_char BytewiseComparator) seq (op # ops) (Some (Inr m)) = insert_ops (AddM new_char BytewiseComparator) (seq + 1) ops (Some (Inr m1))"
    "mt_holds slice_compare m1 kvs1" "set kvs1 = insert (op_pair seq op) (set kvs)"
    using AddM_op [OF new Cons.prems(1,2) _ s, of op ops] Cons.prems(3) by auto
  have s1: "unat (seq + 1) = unat seq + 1" using seq_add [of seq 1] s by simp
  have "\<forall>x \<in> set kvs1. key_seq (fst x) < unat (seq + 1)"
    using m1(3) Cons.prems(2) op_pair_parts(2) [OF s, of op] by (auto simp: s1 less_Suc_eq)
  from Cons.IH [OF m1(2) this] Cons.prems(3,4) s1 m1 show ?case by (auto simp: op_pairs_Cons)
qed


lemma op_pairs_append: "op_pairs seq (a @ b) = op_pairs seq a \<union> op_pairs (seq + of_nat (length a)) b"
proof (induction a arbitrary: seq)
  case Nil
  then show ?case by (simp add: op_pairs_def)
next
  case (Cons op a)
  then show ?case by (simp add: op_pairs_Cons add.assoc)
qed

text \<open>A sequence of batches whose numbers follow each other, and what inserting them one by one does.\<close>

fun batch_records :: "u64 \<Rightarrow> batch_op list list \<Rightarrow> bytes list" where
  "batch_records seq [] = []"
| "batch_records seq (ops # bs) = batch_of seq ops # batch_records (seq + of_nat (length ops)) bs"

fun apply_records :: "(region list \<Rightarrow> nat \<Rightarrow> addr) \<Rightarrow> Comparator \<Rightarrow> bytes list \<Rightarrow> MemTable res option \<Rightarrow> (Status \<times> MemTable res option) res" where
  "apply_records new_char C [] m = Inr (Status_OK, m)"
| "apply_records new_char C (record # records) m =
     bindR (wb_SetContents record) (\<lambda>batch.
     bindR (wb_InsertInto (AddM new_char C) batch m) (\<lambda>(s, m).
     if Status_ok s then apply_records new_char C records m else Inr (s, m)))"

definition batches_fit :: "u64 \<Rightarrow> batch_op list list \<Rightarrow> bool" where
  "batches_fit seq bs \<longleftrightarrow> list_all (\<lambda>ops. length ops < 2 ^ 31 \<and> list_all op_fits ops) bs \<and> unat seq + length (concat bs) \<le> 2 ^ 56"

lemma op_fits_small: "op_fits op \<Longrightarrow> op_small op"
  by (cases op) auto

lemma op_pairs_seq:
  assumes "x \<in> op_pairs seq ops" "unat seq + length ops \<le> 2 ^ 56"
  shows "\<exists>i < length ops. x = op_pair (seq + of_nat i) (ops ! i) \<and> key_seq (fst x) = unat seq + i \<and> unat (seq + of_nat i) = unat seq + i \<and> unat seq + i < 2 ^ 56"
proof -
  obtain i where i: "i < length ops" "x = op_pair (seq + of_nat i) (ops ! i)" using assms(1) by (auto simp: op_pairs_def)
  have u: "unat (seq + of_nat i) = unat seq + i" "unat seq + i < 2 ^ 56" using i(1) assms(2) by (auto intro!: seq_add)
  then have "key_seq (fst x) = unat seq + i" using op_pair_parts(2) [of "seq + of_nat i" "ops ! i"] i(2) by simp
  then show ?thesis using i u by blast
qed

lemma apply_records_spec:
  assumes new: "new_ok new_char" and "mt_holds slice_compare m kvs" "\<forall>x \<in> set kvs. key_seq (fst x) < unat seq" "batches_fit seq bs"
  shows "\<exists>m' kvs'. apply_records new_char BytewiseComparator (batch_records seq bs) (Some (Inr m)) = Inr (Status_OK, Some (Inr m'))
    \<and> mt_holds slice_compare m' kvs' \<and> set kvs' = set kvs \<union> op_pairs seq (concat bs)"
  using assms(2-)
proof (induction bs arbitrary: seq m kvs)
  case Nil
  then show ?case by (auto simp: op_pairs_def)
next
  case (Cons ops bs)
  have f: "length ops < 2 ^ 31" "list_all op_fits ops" "unat seq + length ops \<le> 2 ^ 56" using Cons.prems(3) by (simp_all add: batches_fit_def)
  have sm: "list_all op_small ops" using f(2) op_fits_small by (auto simp: list_all_iff)
  obtain m1 kvs1 where m1: "insert_ops (AddM new_char BytewiseComparator) seq ops (Some (Inr m)) = Some (Inr m1)"
      "mt_holds slice_compare m1 kvs1" "set kvs1 = set kvs \<union> op_pairs seq ops"
    using insert_ops_table [OF new Cons.prems(1,2) f(2,3)] by blast
  have s1: "unat (seq + of_nat (length ops)) = unat seq + length ops" using f(3) by (intro seq_add) simp
  have old: "\<forall>x \<in> set kvs1. key_seq (fst x) < unat (seq + of_nat (length ops))"
    using m1(3) Cons.prems(2) op_pairs_seq [OF _ f(3)] unfolding s1 by fastforce
  have fit: "batches_fit (seq + of_nat (length ops)) bs" using Cons.prems(3) s1 by (simp add: batches_fit_def)
  obtain m2 kvs2 where m2: "apply_records new_char BytewiseComparator (batch_records (seq + of_nat (length ops)) bs) (Some (Inr m1)) = Inr (Status_OK, Some (Inr m2))"
      "mt_holds slice_compare m2 kvs2" "set kvs2 = set kvs1 \<union> op_pairs (seq + of_nat (length ops)) (concat bs)"
    using Cons.IH [OF m1(2) old fit] by blast
  have "wb_SetContents (batch_of seq ops) = Inr (batch_of seq ops)" using batch_facts(5) [OF f(1)] by (simp add: wb_SetContents_def)
  moreover have "wb_InsertInto (AddM new_char BytewiseComparator) (batch_of seq ops) (Some (Inr m)) = Inr (Status_OK, Some (Inr m1))"
    using wb_InsertInto_batch [OF sm f(1), of "AddM new_char BytewiseComparator" seq "Some (Inr m)"] m1(1) by simp
  ultimately have "apply_records new_char BytewiseComparator (batch_records seq (ops # bs)) (Some (Inr m)) = Inr (Status_OK, Some (Inr m2))"
    using m2(1) by (simp add: Status_ok_def Status_OK_def)
  moreover have "set kvs2 = set kvs \<union> op_pairs seq (concat (ops # bs))" using m2(3) m1(3) by (auto simp: op_pairs_append)
  ultimately show ?case using m2(2) by blast
qed

section \<open>The newest operation that a snapshot sees\<close>

definition visible :: "u64 \<Rightarrow> u64 \<Rightarrow> batch_op list \<Rightarrow> batch_op list" where
  "visible seq snap ops = take (unat snap + 1 - unat seq) ops"

definition newest_answer :: "slice \<Rightarrow> bytes \<Rightarrow> Status \<Rightarrow> batch_op list \<Rightarrow> bool \<times> bytes \<times> Status" where
  "newest_answer u val st ops =
     (case find (\<lambda>op. op_key op = u) (rev ops) of
        Some (BPut k v) \<Rightarrow> (True, v, st)
      | Some (BDelete k) \<Rightarrow> (True, val, NotFound [] [])
      | None \<Rightarrow> (False, val, st))"

lemma find_sorted:
  "sorted_wrt R xs \<Longrightarrow> find P xs = Some x \<Longrightarrow> y \<in> set xs \<Longrightarrow> P y \<Longrightarrow> y = x \<or> R x y"
  by (induction xs) (auto split: if_splits)

lemma find_rev_nth:
  assumes "find P (rev xs) = Some x"
  obtains j where "j < length xs" "xs ! j = x" "P x" "\<And>i. j < i \<Longrightarrow> i < length xs \<Longrightarrow> \<not> P (xs ! i)"
proof -
  obtain k where k: "k < length xs" "P (rev xs ! k)" "x = rev xs ! k" "\<forall>i < k. \<not> P (rev xs ! i)"
    using assms by (auto simp: find_Some_iff)
  show thesis
  proof (rule that [of "length xs - Suc k"])
    fix i assume i: "length xs - Suc k < i" "i < length xs"
    then have "\<not> P (rev xs ! (length xs - Suc i))" using k(1,4) by auto
    then show "\<not> P (xs ! i)" using i(2) by (simp add: rev_nth)
  qed (use k in \<open>auto simp: rev_nth\<close>)
qed

lemma bytewise_antisym: "slice_compare a b \<le> 0 \<Longrightarrow> slice_compare b a \<le> 0 \<Longrightarrow> a = b"
  using bytewise.cmp_flip [of a b] slice_compare_eq [of a b] by force

lemma unat_pack56: "unat s < 2 ^ 56 \<Longrightarrow> unat (pack s t) = 256 * unat s + unat t" for t :: byte
  by (rule unat_pack) (simp add: max_seq_bits)

lemma pack_le: "unat a < 2 ^ 56 \<Longrightarrow> unat b < 2 ^ 56 \<Longrightarrow> (t :: byte) \<le> 1 \<Longrightarrow> t' \<le> 1 \<Longrightarrow> pack a t \<le> pack b t' \<Longrightarrow> unat a \<le> unat b"
  using unat_pack56 [of a t] unat_pack56 [of b t'] by (simp add: word_le_nat_alt)

lemma answer_op:
  assumes "unat s < 2 ^ 56"
  shows "entry_answer slice_compare u val st (op_pair s op) = (if op_key op = u then newest_answer u val st [op] else (False, val, st))"
proof -
  have k: "kTypeDeletion \<noteq> kTypeValue" by (simp add: kTypeDeletion_def kTypeValue_def)
  show ?thesis using slice_compare_eq [of "op_key op" u] k by (cases op) (auto simp: entry_answer_def newest_answer_def pack_type)
qed

text \<open>
  In the order of the internal keys the first entry that is not before the target is the newest visible one of the user key, if there is one.
\<close>

lemma first_is_newest:
  assumes ord: "sorted_wrt (\<lambda>x y. internal_cmp slice_compare (fst x) (fst y) < 0) kvs" and set: "set kvs = op_pairs seq ops"
    and seq: "unat seq + length ops \<le> 2 ^ 56" and snap: "snap \<le> kMaxSequenceNumber"
  shows "(case find (\<lambda>x. \<not> internal_cmp slice_compare (fst x) (lookup_target u snap) < 0) kvs of
      Some kv \<Rightarrow> entry_answer slice_compare u val st kv | None \<Rightarrow> (False, val, st)) = newest_answer u val st (visible seq snap ops)"
proof -
  let ?L = "lookup_target u snap" and ?n = "unat snap + 1 - unat seq"
  have sn: "unat snap < 2 ^ 56" using snap by (simp add: max_seq_bits)
  have L: "key_user ?L = u" "key_tag ?L = pack snap 1" by (simp_all add: lookup_target_def kValueTypeForSeek_def kTypeValue_def)
  define pr where "pr = (\<lambda>i. op_pair (seq + of_nat i) (ops ! i))"
  have pr: "key_user (fst (pr i)) = op_key (ops ! i)" "unat (seq + of_nat i) = unat seq + i" "unat seq + i < 2 ^ 56"
    "\<exists>t. key_tag (fst (pr i)) = pack (seq + of_nat i) t \<and> t \<le> 1" if "i < length ops" for i
  proof -
    show u: "unat (seq + of_nat i) = unat seq + i" "unat seq + i < 2 ^ 56" using that seq by (auto intro!: seq_add)
    then show "key_user (fst (pr i)) = op_key (ops ! i)" "\<exists>t. key_tag (fst (pr i)) = pack (seq + of_nat i) t \<and> t \<le> 1"
      using op_pair_parts(1,4) [of "seq + of_nat i" "ops ! i"] by (simp_all add: pr_def)
  qed
  have vis: "key_tag (fst (pr i)) \<le> key_tag ?L \<longleftrightarrow> i < ?n" if i: "i < length ops" for i
  proof -
    obtain t where t: "key_tag (fst (pr i)) = pack (seq + of_nat i) t" "t \<le> 1" using pr(4) [OF i] by blast
    have "unat t \<le> 1" using t(2) by (simp add: word_le_nat_alt)
    moreover have "unat (pack (seq + of_nat i) t) = 256 * (unat seq + i) + unat t" "unat (pack snap 1) = 256 * unat snap + 1"
      using unat_pack56 [of "seq + of_nat i" t] unat_pack56 [of snap 1] pr(2,3) [OF i] sn by simp_all
    ultimately show ?thesis unfolding t(1) L(2) word_le_nat_alt by auto
  qed
  have not_before: "\<not> internal_cmp slice_compare (fst (pr i)) ?L < 0 \<longleftrightarrow> 0 < slice_compare (op_key (ops ! i)) u \<or> op_key (ops ! i) = u \<and> i < ?n"
    if i: "i < length ops" for i
    using vis [OF i] slice_compare_eq [of "op_key (ops ! i)" u] pr(1) [OF i] by (auto simp: internal_cmp_def Let_def L(1) not_le)
  have mem: "\<exists>i < length ops. x = pr i" if "x \<in> set kvs" for x using that by (auto simp: set op_pairs_def pr_def)
  have ans: "entry_answer slice_compare u val st (pr i) = (if op_key (ops ! i) = u then newest_answer u val st [ops ! i] else (False, val, st))" if "i < length ops" for i
    using answer_op [of "seq + of_nat i" u val st "ops ! i"] pr(2,3) [OF that] by (simp add: pr_def)
  let ?f = "find (\<lambda>x. \<not> internal_cmp slice_compare (fst x) ?L < 0) kvs"
  show ?thesis
  proof (cases "find (\<lambda>op. op_key op = u) (rev (visible seq snap ops))")
    case None
    have none: "op_key (ops ! i) \<noteq> u" if "i < length ops" "i < ?n" for i
      using None that by (auto simp: find_None_iff visible_def in_set_conv_nth)
    have r: "newest_answer u val st (visible seq snap ops) = (False, val, st)" using None by (simp add: newest_answer_def)
    show ?thesis
    proof (cases ?f)
      case (Some x)
      then have xs: "x \<in> set kvs" "\<not> internal_cmp slice_compare (fst x) ?L < 0" by (auto simp: find_Some_iff)
      then obtain i where i: "i < length ops" "x = pr i" "\<not> internal_cmp slice_compare (fst x) ?L < 0" using mem [OF xs(1)] by blast
      then have "op_key (ops ! i) \<noteq> u" using not_before [OF i(1)] none [OF i(1)] slice_compare_eq [of u u] by auto
      then show ?thesis using Some i(2) ans [OF i(1)] r by simp
    qed (use r in simp)
  next
    case (Some op)
    then obtain j where j: "j < length (visible seq snap ops)" "visible seq snap ops ! j = op" "op_key op = u"
        "\<And>i. j < i \<Longrightarrow> i < length (visible seq snap ops) \<Longrightarrow> op_key (visible seq snap ops ! i) \<noteq> u"
      by (rule find_rev_nth) blast
    have jn: "j < ?n" "j < length ops" "ops ! j = op" using j(1,2) by (auto simp: visible_def)
    have later: "op_key (ops ! i) \<noteq> u" if "j < i" "i < ?n" "i < length ops" for i using j(4) [of i] that by (simp add: visible_def)
    have pj: "pr j \<in> set kvs" "\<not> internal_cmp slice_compare (fst (pr j)) ?L < 0" using not_before [OF jn(2)] jn j(3) by (auto simp: set op_pairs_def pr_def)
    then obtain x where x: "?f = Some x" by (metis (no_types, lifting) find_None_iff not_None_eq)
    have xs: "x \<in> set kvs" "\<not> internal_cmp slice_compare (fst x) ?L < 0" using x by (auto simp: find_Some_iff)
    obtain i where i: "i < length ops" "x = pr i" using mem [OF xs(1)] by blast
    have "pr j = x \<or> internal_cmp slice_compare (fst x) (fst (pr j)) < 0" using find_sorted [OF ord x pj] by blast
    then have "x = pr j"
    proof
      assume less: "internal_cmp slice_compare (fst x) (fst (pr j)) < 0"
      then have le: "slice_compare (op_key (ops ! i)) u \<le> 0"
        using pr(1) [OF i(1)] pr(1) [OF jn(2)] jn(3) j(3) i(2) by (auto simp: internal_cmp_def Let_def split: if_splits)
      then have ki: "op_key (ops ! i) = u" "i < ?n" using not_before [OF i(1)] xs(2) i(2) by auto
      have "key_tag (fst (pr j)) < key_tag (fst (pr i))"
        using less pr(1) [OF i(1)] pr(1) [OF jn(2)] jn(3) j(3) ki(1) i(2) slice_compare_eq [of u u] by (auto simp: internal_cmp_def Let_def split: if_splits)
      then have "unat seq + j \<le> unat seq + i"
        using pr(4) [OF i(1)] pr(4) [OF jn(2)] pack_le [of "seq + of_nat j" "seq + of_nat i"] pr(2,3) [OF i(1)] pr(2,3) [OF jn(2)] by fastforce
      then show "x = pr j" using later [of i] ki i by (metis add_le_cancel_left le_neq_implies_less)
    qed simp
    then show ?thesis using x ans [OF jn(2)] jn(3) j(3) Some by (simp add: newest_answer_def split: batch_op.splits)
  qed
qed

text \<open>Everything together: batches are inserted into a new table, and every lookup sees the newest operation that its snapshot allows.\<close>

lemma table_built:
  assumes new: "new_ok new_char" and fit: "batches_fit seq bs"
  shows "\<exists>m0 m kvs. MemTable_new new_char = Inr m0
    \<and> apply_records new_char BytewiseComparator (batch_records seq bs) (Some (Inr m0)) = Inr (Status_OK, Some (Inr m))
    \<and> mt_holds slice_compare m kvs \<and> set kvs = op_pairs seq (concat bs) \<and> sorted_wrt (\<lambda>x y. internal_cmp slice_compare (fst x) (fst y) < 0) kvs"
proof -
  obtain m0 where m0: "MemTable_new new_char = Inr m0" "mt_holds slice_compare m0 []" using bytewise_user.MemTable_new_spec [OF new] by blast
  obtain m kvs where m: "apply_records new_char BytewiseComparator (batch_records seq bs) (Some (Inr m0)) = Inr (Status_OK, Some (Inr m))"
      "mt_holds slice_compare m kvs" "set kvs = op_pairs seq (concat bs)"
    using apply_records_spec [OF new m0(2) _ fit] by auto
  have small: "list_all entry_small kvs" using m(2) by (simp add: mt_holds_def)
  have "ordered (mt_cmp slice_compare) entry_ok (map encode_entry kvs)" using m(2) by (auto simp: mt_holds_def sl_view_def)
  then have "sorted_wrt (\<lambda>x y. mt_cmp slice_compare (encode_entry x) (encode_entry y) < 0) kvs" by (simp add: ordered_def sorted_wrt_map)
  then have "sorted_wrt (\<lambda>x y. internal_cmp slice_compare (fst x) (fst y) < 0) kvs"
    by (rule sorted_wrt_mono_rel [rotated]) (use small in \<open>simp add: mt_cmp_def list_all_iff\<close>)
  then show ?thesis using m0(1) m by blast
qed

definition sees_newest :: "u64 \<Rightarrow> batch_op list \<Rightarrow> MemTable \<Rightarrow> bool" where
  "sees_newest seq ops m \<longleftrightarrow> (\<forall>fresh u snap lk val st. (\<forall>n. length (fresh n) = n) \<and> snap \<le> kMaxSequenceNumber \<and> length u + 8 < 2 ^ 32 \<and>
     LookupKey_new fresh u snap = Inr lk \<longrightarrow> MemTable_Get BytewiseComparator lk val st m = Some (Inr (newest_answer u val st (visible seq snap ops))))"

lemma table_lookup:
  assumes "mt_holds slice_compare m kvs" "set kvs = op_pairs seq ops" "sorted_wrt (\<lambda>x y. internal_cmp slice_compare (fst x) (fst y) < 0) kvs"
    and "unat seq + length ops \<le> 2 ^ 56"
  shows "sees_newest seq ops m"
proof -
  have "MemTable_Get BytewiseComparator lk val st m = Some (Inr (newest_answer u val st (visible seq snap ops)))"
    if "\<forall>n. length (fresh n) = n" "snap \<le> kMaxSequenceNumber" "length u + 8 < 2 ^ 32" "LookupKey_new fresh u snap = Inr lk" for fresh u snap lk val st
    unfolding first_is_newest [OF assms(3,2,4) that(2), symmetric] using that(1) by (intro bytewise_user.MemTable_Get_spec [OF assms(1) _ that(4,2,3)]) simp
  then show ?thesis unfolding sees_newest_def by blast
qed


end
