(* ===== verification/Ldb_Memtable_Properties.thy ===== *)
theory Ldb_Memtable_Properties
  imports Ldb_Memtable Ldb_Store_Properties
begin

text \<open>
  The properties of the memory table and of what it is made of, and of a table that is rebuilt from a log.
\<close>

section \<open>An allocator\<close>

text \<open>An allocator that never gives memory back, for the examples.\<close>

definition bump_new :: "region list \<Rightarrow> nat \<Rightarrow> addr" where
  "bump_new bs n = 8 * Suc (sum_list (map (\<lambda>b. fst b + snd b) bs))"

lemma bump_new_ok: "new_ok bump_new"
proof -
  have "apart b (bump_new bs n, n)" if b: "b \<in> set bs" for b bs n
  proof -
    have "fst b + snd b \<le> sum_list (map (\<lambda>b. fst b + snd b) bs)" using b by (intro member_le_sum_list) auto
    then show ?thesis by (simp add: apart_def bump_new_def)
  qed
  then show ?thesis by (simp add: new_ok_def bump_new_def list_all_iff)
qed

section \<open>Random numbers and memory\<close>

text \<open>
  C40: the random numbers are the sequence of the minimal standard generator: the number after \<open>n\<close> calls is the seed times the \<open>n\<close>-th power of 16807
  modulo 2147483647, whatever seed was given, and it is never 0; the reduction by shifts and one subtraction is exact.
\<close>

theorem random_is_lehmer:
  "unat ((Random_Next ^^ n) (Random_new s)) = (unat (Random_new s) * 16807 ^ n) mod (2 ^ 31 - 1) \<and> (Random_Next ^^ n) (Random_new s) \<noteq> 0"
proof -
  have "seed_ok ((Random_Next ^^ n) (Random_new s)) \<and> unat ((Random_Next ^^ n) (Random_new s)) = (unat (Random_new s) * 16807 ^ n) mod (2 ^ 31 - 1)"
  proof (induction n)
    case 0
    then show ?case using Random_new_ok [of s] by (simp add: seed_ok_def)
  next
    case (Suc n)
    let ?x = "(Random_Next ^^ n) (Random_new s)" and ?M = "2 ^ 31 - 1 :: nat"
    have "unat (Random_Next ?x) = (unat (Random_new s) * 16807 ^ n mod ?M * 16807) mod ?M" using Random_Next_eq(1) [of ?x] Suc by simp
    also have "\<dots> = (unat (Random_new s) * 16807 ^ n * 16807) mod ?M" by (rule mod_mult_left_eq)
    also have "unat (Random_new s) * 16807 ^ n * 16807 = unat (Random_new s) * 16807 ^ Suc n" by (simp only: power_Suc mult.assoc mult.commute [of "16807 ^ n"])
    finally show ?case using Random_Next_eq(2) [of ?x] Suc by (simp only: funpow.simps comp_apply)
  qed
  then show ?thesis by (auto simp: seed_ok_def)
qed

text \<open>A sequence of allocations; the flag asks for aligned memory.\<close>

fun allocate_all :: "(region list \<Rightarrow> nat \<Rightarrow> addr) \<Rightarrow> (bool \<times> u64) list \<Rightarrow> Arena \<Rightarrow> (addr list \<times> Arena) res" where
  "allocate_all new_char [] a = Inr ([], a)"
| "allocate_all new_char ((aligned, n) # reqs) a =
     bindR (if aligned then AllocateAligned new_char n a else Allocate new_char n a) (\<lambda>(p, a).
     bindR (allocate_all new_char reqs a) (\<lambda>(ps, a). Inr (p # ps, a)))"

lemma allocate_all_spec:
  assumes "new_ok new_char" "arena_inv a rs" "list_all (\<lambda>(aligned, n). 0 < n \<and> unat n < 2 ^ 63) reqs"
  shows "\<exists>ps a'. allocate_all new_char reqs a = Inr (ps, a') \<and> length ps = length reqs
    \<and> arena_inv a' (rev (zip ps (map (\<lambda>q. unat (snd q)) reqs)) @ rs) \<and> list_all2 (\<lambda>(aligned, _) p. aligned \<longrightarrow> p mod 8 = 0) reqs ps"
  using assms(2,3)
proof (induction reqs arbitrary: a rs)
  case (Cons req reqs)
  obtain aligned n where req: "req = (aligned, n)" by (cases req)
  have n: "0 < n" "unat n < 2 ^ 63" using Cons.prems(2) req by simp_all
  obtain p a1 where p: "(if aligned then AllocateAligned new_char n a else Allocate new_char n a) = Inr (p, a1)" "arena_inv a1 ((p, unat n) # rs)" "aligned \<longrightarrow> p mod 8 = 0"
    using AllocateAligned_spec [OF assms(1) Cons.prems(1) n] Allocate_spec [OF assms(1) Cons.prems(1) n(1)] by (cases aligned) auto
  obtain ps a2 where "allocate_all new_char reqs a1 = Inr (ps, a2)" "length ps = length reqs"
      "arena_inv a2 (rev (zip ps (map (\<lambda>q. unat (snd q)) reqs)) @ (p, unat n) # rs)" "list_all2 (\<lambda>(aligned, _) p. aligned \<longrightarrow> p mod 8 = 0) reqs ps"
    using Cons.IH [OF p(2)] Cons.prems(2) by auto
  then show ?case using p(1,3) req by (intro exI [of _ "p # ps"] exI [of _ a2]) simp
qed simp

text \<open>
  C39: no allocation from an arena fails, the regions that it hands out do not overlap, they are not null, and those asked for with alignment are aligned,
  in whatever order large and small requests come.
\<close>

theorem arena_regions_apart:
  assumes "new_ok new_char" "list_all (\<lambda>(aligned, n). 0 < n \<and> unat n < 2 ^ 63) reqs"
  shows "\<exists>ps a. allocate_all new_char reqs Arena_new = Inr (ps, a) \<and> length ps = length reqs
    \<and> (\<forall>i j. i < j \<and> j < length ps \<longrightarrow> apart (ps ! i, unat (snd (reqs ! i))) (ps ! j, unat (snd (reqs ! j))))
    \<and> (\<forall>i < length ps. ps ! i \<noteq> 0 \<and> (fst (reqs ! i) \<longrightarrow> ps ! i mod 8 = 0))"
proof -
  obtain ps a where ps: "allocate_all new_char reqs Arena_new = Inr (ps, a)" "length ps = length reqs"
      "arena_inv a (rev (zip ps (map (\<lambda>q. unat (snd q)) reqs)))" "list_all2 (\<lambda>(aligned, _) p. aligned \<longrightarrow> p mod 8 = 0) reqs ps"
    using allocate_all_spec [OF assms(1) Arena_new_inv assms(2)] by auto
  let ?z = "zip ps (map (\<lambda>q. unat (snd q)) reqs)"
  have z: "?z ! i = (ps ! i, unat (snd (reqs ! i)))" "length ?z = length ps" if "i < length ps" for i using that ps(2) by simp_all
  have "sorted_wrt (\<lambda>x y. apart y x) ?z" using ps(3) by (simp add: arena_inv_def sorted_wrt_rev)
  then have pw: "apart (?z ! j) (?z ! i)" if "i < j" "j < length ps" for i j using that ps(2) by (simp add: sorted_wrt_iff_nth_less)
  have "apart (ps ! i, unat (snd (reqs ! i))) (ps ! j, unat (snd (reqs ! j)))" if "i < j" "j < length ps" for i j
    using pw [OF that] apart_sym [of "?z ! j" "?z ! i"] that z(1) [of i] z(1) [of j] by simp
  moreover have "ps ! i \<noteq> 0 \<and> (fst (reqs ! i) \<longrightarrow> ps ! i mod 8 = 0)" if "i < length ps" for i
  proof -
    have "(ps ! i, unat (snd (reqs ! i))) \<in> set ?z" using that z nth_mem [of i ?z] by metis
    then have "ps ! i \<noteq> 0" using ps(3) by (auto simp: arena_inv_def list_all_iff)
    then show ?thesis using list_all2_nthD [OF ps(4), of i] that ps(2) by (auto simp: case_prod_beta)
  qed
  ultimately show ?thesis using ps(1,2) by blast
qed

theorem arena_regions_apart_witness:
  "\<exists>p q r a. allocate_all bump_new [(False, 3), (True, 16), (False, 5000)] Arena_new = Inr ([p, q, r], a) \<and> q mod 8 = 0 \<and> apart (p, 3) (q, 16) \<and> apart (q, 16) (r, 5000)"
proof -
  let ?reqs = "[(False, 3), (True, 16), (False, 5000)] :: (bool \<times> u64) list"
  obtain ps a where ps: "allocate_all bump_new ?reqs Arena_new = Inr (ps, a)" "length ps = 3"
      "\<And>i j. i < j \<Longrightarrow> j < length ps \<Longrightarrow> apart (ps ! i, unat (snd (?reqs ! i))) (ps ! j, unat (snd (?reqs ! j)))"
      "\<And>i. i < length ps \<Longrightarrow> fst (?reqs ! i) \<Longrightarrow> ps ! i mod 8 = 0"
    using arena_regions_apart [OF bump_new_ok, of ?reqs] by (auto simp: word_less_nat_alt)
  obtain p q r where p: "ps = [p, q, r]" using ps(2) by (auto simp: numeral_3_eq_3 length_Suc_conv)
  then show ?thesis using ps(1) ps(3) [of 0 1] ps(3) [of 1 2] ps(4) [of 1] by simp
qed


section \<open>The skip list beside readers\<close>

text \<open>
  C36: while one thread inserts into the list of a memory table and any number of others search it without a lock, in whatever order their loads and stores come,
  no load of a search fails, the list on the lowest level is sorted at every moment, and a search that returns has found the first key that is not before the one it looks for in
  the list as it is at its last load; the writer never gets stuck inside an insertion.
\<close>

theorem skiplist_concurrent_reads:
  assumes "new_ok new_char" "conc_reach new_char (mt_compare BytewiseComparator) entry_ok zero (s, a, w, R)"
  shows "(w \<noteq> Idle \<longrightarrow> (\<exists>t b w'. writer_step new_char (mt_compare BytewiseComparator) entry_ok (s, a, w) (t, b, w')))
    \<and> (\<forall>k key x level. R k = Searching key x level \<longrightarrow>
        (\<exists>y ns. fge_body (mt_compare BytewiseComparator) s key (x, level, None) = Inr y \<and> sl_chain s (sl_head s) ns
          \<and> sorted_wrt (\<lambda>e f. internal_cmp slice_compare (mt_key e) (mt_key f) < 0) (map (keyof s) ns)
          \<and> (\<forall>n p. y = Inr (n, p) \<longrightarrow>
               n = (case find (\<lambda>a. \<not> internal_cmp slice_compare (mt_key (keyof s a)) (mt_key key) < 0) ns of Some a \<Rightarrow> a | None \<Rightarrow> 0))))"
proof (intro conjI impI allI)
  assume "w \<noteq> Idle"
  then show "\<exists>t b w'. writer_step new_char (mt_compare BytewiseComparator) entry_ok (s, a, w) (t, b, w')"
    by (rule bytewise_user.entries.conc_writer_progress [OF assms])
next
  fix k key x level assume "R k = Searching key x level"
  then obtain ns y where "fge_body (mt_compare BytewiseComparator) s key (x, level, None) = Inr y" "sl_chain s (sl_head s) ns"
      "ordered (mt_cmp slice_compare) entry_ok (map (keyof s) ns)"
      "\<And>n p. y = Inr (n, p) \<Longrightarrow> n = (case find (\<lambda>a. \<not> mt_cmp slice_compare (keyof s a) key < 0) ns of Some a \<Rightarrow> a | None \<Rightarrow> 0)"
    using bytewise_user.entries.conc_reader_exact [OF assms] by metis
  then show "\<exists>y ns. fge_body (mt_compare BytewiseComparator) s key (x, level, None) = Inr y \<and> sl_chain s (sl_head s) ns
      \<and> sorted_wrt (\<lambda>e f. internal_cmp slice_compare (mt_key e) (mt_key f) < 0) (map (keyof s) ns)
      \<and> (\<forall>n p. y = Inr (n, p) \<longrightarrow>
           n = (case find (\<lambda>a. \<not> internal_cmp slice_compare (mt_key (keyof s a)) (mt_key key) < 0) ns of Some a \<Rightarrow> a | None \<Rightarrow> 0))"
    unfolding ordered_def mt_cmp_def by blast
qed

theorem skiplist_concurrent_reads_witness:
  "\<exists>s a R x level y ns. conc_reach bump_new (mt_compare BytewiseComparator) entry_ok [] (s, a, Idle, R) \<and> R 3 = Searching (encode_entry (EncodeFixed64 1, [])) x level
    \<and> fge_body (mt_compare BytewiseComparator) s (encode_entry (EncodeFixed64 1, [])) (x, level, None) = Inr y \<and> sl_chain s (sl_head s) ns"
proof -
  let ?key = "encode_entry (EncodeFixed64 1, [])" and ?c = "mt_compare BytewiseComparator"
  have ok: "entry_ok ?key" by (simp add: entry_small_def)
  obtain s a where "SkipList_new bump_new ([] :: bytes) Arena_new = Inr (s, a)"
    using SkipList_new_spec [OF bump_new_ok Arena_new_inv, of "[] :: bytes" "mt_cmp slice_compare" entry_ok] by blast
  then have "conc_reach bump_new ?c entry_ok [] (s, a, Idle, \<lambda>_. Resting)" by (rule C_new)
  then have r: "conc_reach bump_new ?c entry_ok [] (s, a, Idle, (\<lambda>_. Resting)(3 := Searching ?key (sl_head s) (sl_max_height s - 1)))"
    by (rule C_read) (rule R_start, rule ok)
  then show ?thesis using skiplist_concurrent_reads [OF bump_new_ok r] by (metis fun_upd_same)
qed

section \<open>The memory table\<close>

text \<open>
  C35: write batches with consecutive sequence numbers are inserted into a new memory table without a failure, and then every lookup returns what the newest
  operation on the key does that the snapshot sees: the value that was put, or that the key was deleted, or that the table knows nothing.
\<close>

theorem memtable_lookups_newest:
  assumes "new_ok new_char" "batches_fit seq bs"
  shows "\<exists>m0 m. MemTable_new new_char = Inr m0
    \<and> apply_records new_char BytewiseComparator (batch_records seq bs) (Some (Inr m0)) = Inr (Status_OK, Some (Inr m))
    \<and> (\<forall>fresh u snap lk val st. (\<forall>n. length (fresh n) = n) \<and> snap \<le> kMaxSequenceNumber \<and> length u + 8 < 2 ^ 32 \<and> LookupKey_new fresh u snap = Inr lk \<longrightarrow>
         MemTable_Get BytewiseComparator lk val st m = Some (Inr (newest_answer u val st (visible seq snap (concat bs)))))"
proof -
  obtain m0 m kvs where m: "MemTable_new new_char = Inr m0"
      "apply_records new_char BytewiseComparator (batch_records seq bs) (Some (Inr m0)) = Inr (Status_OK, Some (Inr m))"
      "mt_holds slice_compare m kvs" "set kvs = op_pairs seq (concat bs)" "sorted_wrt (\<lambda>x y. internal_cmp slice_compare (fst x) (fst y) < 0) kvs"
    using table_built [OF assms] by blast
  have "sees_newest seq (concat bs) m" using table_lookup [OF m(3,4,5)] assms(2) by (simp add: batches_fit_def)
  then show ?thesis using m(1,2) unfolding sees_newest_def by blast
qed

text \<open>Two batches: the second one deletes a key of the first and puts a new value for another.\<close>

definition sample_batches :: "batch_op list list" where
  "sample_batches = [[BPut [97] [1], BPut [98] [2]], [BDelete [97], BPut [98] [3]]]"

lemma sample_batches_fit: "batches_fit 1 sample_batches"
  by (simp add: batches_fit_def sample_batches_def)

definition zeros :: "nat \<Rightarrow> bytes" where "zeros n = replicate n 0"

theorem memtable_lookups_newest_witness:
  "\<exists>m0 m k2 k3. MemTable_new bump_new = Inr m0 \<and> apply_records bump_new BytewiseComparator (batch_records 1 sample_batches) (Some (Inr m0)) = Inr (Status_OK, Some (Inr m))
    \<and> LookupKey_new zeros [97] 2 = Inr k2 \<and> MemTable_Get BytewiseComparator k2 [] Status_OK m = Some (Inr (True, [1], Status_OK))
    \<and> LookupKey_new zeros [97] 3 = Inr k3 \<and> MemTable_Get BytewiseComparator k3 [] Status_OK m = Some (Inr (True, [], NotFound [] []))"
proof -
  have z: "\<forall>n. length (zeros n) = n" by (simp add: zeros_def)
  have s: "(2 :: u64) \<le> kMaxSequenceNumber" "(3 :: u64) \<le> kMaxSequenceNumber" by (simp_all add: max_seq_bits)
  obtain k2 k3 where k: "LookupKey_new zeros [97] 2 = Inr k2" "LookupKey_new zeros [97] 3 = Inr k3"
    using LookupKey_layout [of zeros _ "[97]"] z s by metis
  obtain m0 m where m: "MemTable_new bump_new = Inr m0" "apply_records bump_new BytewiseComparator (batch_records 1 sample_batches) (Some (Inr m0)) = Inr (Status_OK, Some (Inr m))"
      and get: "\<forall>fresh u snap lk val st. (\<forall>n. length (fresh n) = n) \<and> snap \<le> kMaxSequenceNumber \<and> length u + 8 < 2 ^ 32 \<and> LookupKey_new fresh u snap = Inr lk \<longrightarrow>
         MemTable_Get BytewiseComparator lk val st m = Some (Inr (newest_answer u val st (visible 1 snap (concat sample_batches))))"
    using memtable_lookups_newest [OF bump_new_ok sample_batches_fit] by (elim exE conjE)
  have "newest_answer [97] [] Status_OK (visible 1 2 (concat sample_batches)) = (True, [1], Status_OK)"
    "newest_answer [97] [] Status_OK (visible 1 3 (concat sample_batches)) = (True, [], NotFound [] [])"
    by (simp_all add: newest_answer_def visible_def sample_batches_def)
  then have "MemTable_Get BytewiseComparator k2 [] Status_OK m = Some (Inr (True, [1], Status_OK))"
    "MemTable_Get BytewiseComparator k3 [] Status_OK m = Some (Inr (True, [], NotFound [] []))"
    using get [rule_format, of zeros 2 "[97]" k2 "[]" Status_OK] get [rule_format, of zeros 3 "[97]" k3 "[]" Status_OK] z s k by simp_all
  then show ?thesis using m k by blast
qed

text \<open>
  C38: the iterator of a memory table shows its entries, with their internal keys, in the order of these keys: every sequence of seeks and steps in
  both directions behaves like a cursor in the sorted list of all entries that were put in, and stepping an iterator that is not valid fails the assertion.
\<close>

theorem memtable_iterator_refines_cursor:
  assumes "new_ok new_char" "batches_fit seq bs" "\<And>t. Seek t \<in> set ops \<Longrightarrow> 8 \<le> length t \<and> length t < 2 ^ 32"
  shows "\<exists>m0 m kvs. MemTable_new new_char = Inr m0
    \<and> apply_records new_char BytewiseComparator (batch_records seq bs) (Some (Inr m0)) = Inr (Status_OK, Some (Inr m))
    \<and> set kvs = op_pairs seq (concat bs) \<and> sorted_wrt (\<lambda>x y. internal_cmp slice_compare (fst x) (fst y) < 0) kvs
    \<and> mti_run BytewiseComparator m ops 0 = Some (cursor_run (internal_cmp slice_compare) kvs ops None)"
proof -
  obtain m0 m kvs where m: "MemTable_new new_char = Inr m0"
      "apply_records new_char BytewiseComparator (batch_records seq bs) (Some (Inr m0)) = Inr (Status_OK, Some (Inr m))"
      "mt_holds slice_compare m kvs" "set kvs = op_pairs seq (concat bs)" "sorted_wrt (\<lambda>x y. internal_cmp slice_compare (fst x) (fst y) < 0) kvs"
    using table_built [OF assms(1,2)] by blast
  obtain rs ns where v: "sl_view (mt_cmp slice_compare) entry_ok (mt_table m) rs ns" "map (keyof (mt_table m)) ns = map encode_entry kvs" "list_all entry_small kvs"
    using m(3) unfolding mt_holds_def by blast
  have "mti_run BytewiseComparator m ops (node_of ns None) = Some (cursor_run (internal_cmp slice_compare) kvs ops None)"
    using assms(3) by (intro bytewise_user.mti_run_spec [OF v]) simp_all
  then show ?thesis using m(1,2,4,5) by (auto simp: node_of_def)
qed

theorem memtable_iterator_refines_cursor_witness:
  "\<exists>m0 m kvs. MemTable_new bump_new = Inr m0
    \<and> apply_records bump_new BytewiseComparator (batch_records 1 sample_batches) (Some (Inr m0)) = Inr (Status_OK, Some (Inr m))
    \<and> set kvs = op_pairs 1 (concat sample_batches)
    \<and> mti_run BytewiseComparator m [SeekToFirst, Next, Seek ([97] @ EncodeFixed64 (pack 3 1)), Prev] 0
        = Some (cursor_run (internal_cmp slice_compare) kvs [SeekToFirst, Next, Seek ([97] @ EncodeFixed64 (pack 3 1)), Prev] None)"
  using memtable_iterator_refines_cursor [OF bump_new_ok sample_batches_fit, of "[SeekToFirst, Next, Seek ([97] @ EncodeFixed64 (pack 3 1)), Prev]"] by auto

text \<open>
  C37: a log of write batches survives a stop of the system while the next record is written: whatever part of that record is in the file, the batches before it are read back
  without a report, and in a memory table made from them every lookup sees the newest operation that its snapshot allows.
\<close>

theorem log_recovery_lookups:
  assumes "new_ok new_char" "batches_fit seq bs" "live h a" "bytes_at h a = []"
  shows "\<exists>w f1 w2 f2. add_records (MemWritableFile unset) (batch_records seq bs) Writer_new (h, a) = Inr (Status_OK, w, f1)
    \<and> AddRecord (MemWritableFile unset) d w f1 = Inr (Status_OK, w2, f2)
    \<and> (\<forall>k h' s reporter checksum. length (bytes_at (fst f1) (snd f1)) \<le> k \<and> k < length (bytes_at (fst f2) (snd f2)) \<and>
        live h' (sq_file s) \<and> sq_pos s = 0 \<and> bytes_at h' (sq_file s) = take k (bytes_at (fst f2) (snd f2)) \<longrightarrow>
        (\<exists>records r r' m0 m. read_records MemSequentialFile (length bs) (Reader_new (h', s) reporter checksum 0) = Some (Inr (records, r))
          \<and> rd_reports r = [] \<and> ReadRecord MemSequentialFile r = Some (Inr (None, r')) \<and> MemTable_new new_char = Inr m0
          \<and> apply_records new_char BytewiseComparator records (Some (Inr m0)) = Inr (Status_OK, Some (Inr m)) \<and> sees_newest seq (concat bs) m))"
proof -
  obtain m0 m kvs where m: "MemTable_new new_char = Inr m0"
      "apply_records new_char BytewiseComparator (batch_records seq bs) (Some (Inr m0)) = Inr (Status_OK, Some (Inr m))"
      "mt_holds slice_compare m kvs" "set kvs = op_pairs seq (concat bs)" "sorted_wrt (\<lambda>x y. internal_cmp slice_compare (fst x) (fst y) < 0) kvs"
    using table_built [OF assms(1,2)] by blast
  have sees: "sees_newest seq (concat bs) m" using table_lookup [OF m(3,4,5)] assms(2) by (simp add: batches_fit_def)
  have len: "length (batch_records seq bs) = length bs" by (induction seq bs rule: batch_records.induct) simp_all
  show ?thesis using mem_log_read_back [OF assms(3,4), of unset "batch_records seq bs" d] m(1,2) sees unfolding len
    by (elim exE conjE) (intro exI conjI, assumption, assumption, metis)
qed

theorem log_recovery_lookups_witness:
  "\<exists>w f h s records r m0 m k2. add_records (MemWritableFile (\<lambda>_ _. 0)) (batch_records 1 sample_batches) Writer_new new_file = Inr (Status_OK, w, f)
    \<and> live h (sq_file s) \<and> length (bytes_at (fst f) (snd f)) \<le> length (bytes_at h (sq_file s))
    \<and> read_records MemSequentialFile 2 (Reader_new (h, s) True True 0) = Some (Inr (records, r)) \<and> MemTable_new bump_new = Inr m0
    \<and> apply_records bump_new BytewiseComparator records (Some (Inr m0)) = Inr (Status_OK, Some (Inr m))
    \<and> LookupKey_new zeros [97] 2 = Inr k2 \<and> MemTable_Get BytewiseComparator k2 [] Status_OK m = Some (Inr (True, [1], Status_OK))"
proof -
  have fit: "batches_fit 1 sample_batches" by (rule sample_batches_fit)
  obtain w f1 w2 f2 where l: "add_records (MemWritableFile (\<lambda>_ _. 0)) (batch_records 1 sample_batches) Writer_new new_file = Inr (Status_OK, w, f1)"
      and log: "AddRecord (MemWritableFile (\<lambda>_ _. 0)) [] w f1 = Inr (Status_OK, w2, f2)"
      and read: "\<forall>k h' s reporter checksum. length (bytes_at (fst f1) (snd f1)) \<le> k \<and> k < length (bytes_at (fst f2) (snd f2)) \<and>
        live h' (sq_file s) \<and> sq_pos s = 0 \<and> bytes_at h' (sq_file s) = take k (bytes_at (fst f2) (snd f2)) \<longrightarrow>
        (\<exists>records r r' m0 m. read_records MemSequentialFile (length sample_batches) (Reader_new (h', s) reporter checksum 0) = Some (Inr (records, r))
          \<and> rd_reports r = [] \<and> ReadRecord MemSequentialFile r = Some (Inr (None, r')) \<and> MemTable_new bump_new = Inr m0
          \<and> apply_records bump_new BytewiseComparator records (Some (Inr m0)) = Inr (Status_OK, Some (Inr m)) \<and> sees_newest 1 (concat sample_batches) m)"
    using log_recovery_lookups [OF bump_new_ok fit new_file_live, of "\<lambda>_ _. 0" "[]"] by auto
  have grow: "length (bytes_at (fst f1) (snd f1)) < length (bytes_at (fst f2) (snd f2))"
    using mem_log_read_back [OF new_file_live, of "\<lambda>_ _. 0" "batch_records 1 sample_batches" "[]"] l log by auto
  let ?k = "length (bytes_at (fst f2) (snd f2)) - 1"
  obtain h a where f: "live h a" "bytes_at h a = take ?k (bytes_at (fst f2) (snd f2))" using file_with by blast
  define s where "s = \<lparr>sq_file = a, sq_pos = 0\<rparr>"
  have k: "length (bytes_at (fst f1) (snd f1)) \<le> ?k" "?k < length (bytes_at (fst f2) (snd f2))" using grow by simp_all
  obtain records r m0 m where m: "read_records MemSequentialFile 2 (Reader_new (h, s) True True 0) = Some (Inr (records, r))" "MemTable_new bump_new = Inr m0"
      "apply_records bump_new BytewiseComparator records (Some (Inr m0)) = Inr (Status_OK, Some (Inr m))" "sees_newest 1 (concat sample_batches) m"
    using read [rule_format, of ?k h s True True] f k by (auto simp: s_def sample_batches_def numeral_2_eq_2)
  have z: "\<forall>n. length (zeros n) = n" by (simp add: zeros_def)
  have s2: "(2 :: u64) \<le> kMaxSequenceNumber" by (simp add: max_seq_bits)
  obtain k2 where k2: "LookupKey_new zeros [97] 2 = Inr k2" using LookupKey_layout [of zeros 2 "[97]"] z s2 by metis
  have "newest_answer [97] [] Status_OK (visible 1 2 (concat sample_batches)) = (True, [1], Status_OK)"
    by (simp add: newest_answer_def visible_def sample_batches_def)
  then have get: "MemTable_Get BytewiseComparator k2 [] Status_OK m = Some (Inr (True, [1], Status_OK))"
    using m(4) [unfolded sees_newest_def, rule_format, of zeros 2 "[97]" k2 "[]" Status_OK] z s2 k2 by simp
  have lf: "live h (sq_file s)" "length (bytes_at (fst f1) (snd f1)) \<le> length (bytes_at h (sq_file s))" using f k by (simp_all add: s_def)
  show ?thesis using l lf m(1,2,3) k2 get by blast
qed


end
